(* ===== verification/Prelude.thy ===== *)
theory Prelude
  imports Main "HOL-Library.Word"
begin

text \<open>
  Shared vocabulary of the development: the widths of the C++ integers, the error values
  that stand for failed assertions, undefined behaviour and process exit, sequencing of
  fallible steps (\<open>bindE\<close>) and loops of fallible steps (\<open>foldE\<close>), the collections of
  rewrite rules the components fill, and generic lemmas on lists and folds.
\<close>

unbundle bit_operations_syntax

type_synonym u8 = "8 word"
type_synonym u16 = "16 word"
type_synonym u32 = "32 word"
type_synonym u64 = "64 word"

named_theorems clock_simps \<open>rewrite rules for vector clocks\<close>
named_theorems lockset_simps \<open>rewrite rules for locksets and timed locksets\<close>
named_theorems heap_simps \<open>rewrite rules for the interning tables\<close>
named_theorems state_simps \<open>frame rules of the handlers on the global state\<close>

section \<open>Errors as values\<close>

text \<open>
  \<open>Assertion\<close> is a failed C \<^verbatim>\<open>assert\<close>, \<open>Undefined\<close> a call whose precondition the C++
  standard requires and that does not hold (\<^verbatim>\<open>back\<close> or \<^verbatim>\<open>pop_back\<close> on an empty vector),
  \<open>Exit\<close> the call \<^verbatim>\<open>exit(-1)\<close> of the configuration parser.
\<close>

datatype hs_error = Assertion string | Undefined string | Exit string

fun bindE :: "'e + 'a \<Rightarrow> ('a \<Rightarrow> 'e + 'b) \<Rightarrow> 'e + 'b" where
  "bindE (Inl e) f = Inl e"
| "bindE (Inr x) f = f x"

fun foldE :: "('a \<Rightarrow> 's \<Rightarrow> 'e + 's) \<Rightarrow> 'a list \<Rightarrow> 's \<Rightarrow> 'e + 's" where
  "foldE f [] s = Inr s"
| "foldE f (x # xs) s = bindE (f x s) (foldE f xs)"

lemma bindE_InrE [elim!]:
  assumes "bindE m f = Inr y"
  obtains x where "m = Inr x" and "f x = Inr y"
  using assms by (cases m) auto

lemma bindE_Inr_iff: "bindE m f = Inr y \<longleftrightarrow> (\<exists>x. m = Inr x \<and> f x = Inr y)"
  by (cases m) auto

lemma bindE_InlE:
  assumes "bindE m f = Inl e"
  obtains "m = Inl e" | x where "m = Inr x" and "f x = Inl e"
  using assms by (cases m) auto

lemma foldE_append: "foldE f (xs @ ys) s = bindE (foldE f xs s) (foldE f ys)"
proof (induction xs arbitrary: s)
  case Nil
  then show ?case by simp
next
  case (Cons x xs)
  then show ?case by (cases "f x s") auto
qed

text \<open>The loop rule: what every successful step keeps, the whole successful loop keeps.\<close>

lemma foldE_inv:
  assumes "foldE f xs s = Inr s'" and "P s"
    and "\<And>x t t'. x \<in> set xs \<Longrightarrow> P t \<Longrightarrow> f x t = Inr t' \<Longrightarrow> P t'"
  shows "P s'"
  using assms by (induction xs arbitrary: s) auto

text \<open>A loop whose steps all succeed is the pure loop.\<close>

lemma foldE_pure:
  assumes "\<And>x t. x \<in> set xs \<Longrightarrow> f x t = Inr (g x t)"
  shows "foldE f xs s = Inr (fold g xs s)"
  using assms by (induction xs arbitrary: s) auto

lemma fold_inv:
  assumes "P s" and "\<And>x t. x \<in> set xs \<Longrightarrow> P t \<Longrightarrow> P (f x t)"
  shows "P (fold f xs s)"
  using assms by (induction xs arbitrary: s) auto

lemma fold_id_on:
  assumes "\<And>x t. x \<in> set xs \<Longrightarrow> h (f x t) = h t"
  shows "h (fold f xs s) = h s"
  using assms by (induction xs arbitrary: s) auto

section \<open>Lists and options\<close>

lemma find_SomeD: "find P xs = Some x \<Longrightarrow> x \<in> set xs \<and> P x"
  by (auto simp: find_Some_iff)

lemma find_NoneD: "find P xs = None \<Longrightarrow> x \<in> set xs \<Longrightarrow> \<not> P x"
  by (auto simp: find_None_iff)

lemma map_of_distinct_iff:
  "distinct (map fst m) \<Longrightarrow> map_of m k = Some v \<longleftrightarrow> (k, v) \<in> set m"
  by (auto simp: map_of_eq_Some_iff)

lemma map_of_None_iff: "map_of m k = None \<longleftrightarrow> k \<notin> fst ` set m"
  by (rule map_of_eq_None_iff)

lemma map_of_ball: "map_of m k = Some v \<Longrightarrow> \<forall>e \<in> set m. P (fst e) (snd e) \<Longrightarrow> P k v"
  by (fastforce dest: map_of_SomeD)

section \<open>Words\<close>

lemma unat_of_nat_small [simp]:
  "n < 2 ^ LENGTH('a) \<Longrightarrow> unat (of_nat n :: 'a::len word) = n"
  by (simp add: unat_of_nat)

lemma unat_ucast_mod:
  "unat (ucast (w :: 'a::len word) :: 'b::len word) = unat w mod 2 ^ LENGTH('b)"
  by (simp add: unsigned_ucast_eq take_bit_eq_mod)

lemma of_nat_inj_bounded:
  fixes w :: "'a::len word"
  assumes "n < 2 ^ LENGTH('a)" "m < 2 ^ LENGTH('a)" "(of_nat n :: 'a word) = of_nat m"
  shows "n = m"
  using assms by (metis unat_of_nat_small)

lemma unat_plus_no_wrap:
  fixes a b :: "'a::len word"
  assumes "unat a + unat b < 2 ^ LENGTH('a)"
  shows "unat (a + b) = unat a + unat b"
  using assms by (simp add: unat_word_ariths)

text \<open>Partners in two lists related element by element.\<close>

lemma list_all2_set2: "list_all2 P xs ys \<Longrightarrow> y \<in> set ys \<Longrightarrow> \<exists>x \<in> set xs. P x y"
  by (induction rule: list_all2_induct) auto

lemma list_all2_set1: "list_all2 P xs ys \<Longrightarrow> x \<in> set xs \<Longrightarrow> \<exists>y \<in> set ys. P x y"
  by (induction rule: list_all2_induct) auto

end
