(* ===== verification/StdMap.thy ===== *)
theory StdMap
  imports Prelude "HOL-Library.AList" "HOL-Library.Product_Lexorder" "HOL-Library.Option_ord"
begin

text \<open>
  The containers of the C++ standard library the tool uses. \<^verbatim>\<open>std::map\<close> iterates in key
  order, so it is an association list kept strictly ascending (\<open>sm_insert\<close>, \<open>sm_erase\<close>);
  \<^verbatim>\<open>std::unordered_map\<close> iterates in an unspecified order, so it is an association list
  with distinct keys in insertion order (\<open>um_insert\<close>, \<open>um_erase\<close>); \<^verbatim>\<open>std::set\<close> is an
  ascending list (\<open>os_insert\<close>). \<open>operator[]\<close>, which inserts a default value for a missing
  key, is \<open>sm_modify\<close> and \<open>um_modify\<close>. Lookup is \<open>map_of\<close> throughout. The contract
  the clients use is the locale \<open>map_container\<close>, interpreted on both kinds of map.
\<close>

section \<open>Operations\<close>

fun sm_insert :: "'k::linorder \<Rightarrow> 'v \<Rightarrow> ('k \<times> 'v) list \<Rightarrow> ('k \<times> 'v) list" where
  "sm_insert k v [] = [(k, v)]"
| "sm_insert k v ((k', v') # m) =
     (if k < k' then (k, v) # (k', v') # m
      else if k = k' then (k, v) # m
      else (k', v') # sm_insert k v m)"

definition sm_erase :: "'k \<Rightarrow> ('k \<times> 'v) list \<Rightarrow> ('k \<times> 'v) list" where
  "sm_erase k m = filter (\<lambda>e. fst e \<noteq> k) m"

definition sm_wf :: "('k::linorder \<times> 'v) list \<Rightarrow> bool" where
  "sm_wf m \<longleftrightarrow> sorted_wrt (<) (map fst m)"

definition sm_get :: "'v \<Rightarrow> ('k \<times> 'v) list \<Rightarrow> 'k \<Rightarrow> 'v" where
  "sm_get d m k = (case map_of m k of None \<Rightarrow> d | Some v \<Rightarrow> v)"

definition sm_modify :: "'k::linorder \<Rightarrow> 'v \<Rightarrow> ('v \<Rightarrow> 'v) \<Rightarrow> ('k \<times> 'v) list \<Rightarrow> ('k \<times> 'v) list" where
  "sm_modify k d f m = sm_insert k (f (sm_get d m k)) m"

definition um_insert :: "'k \<Rightarrow> 'v \<Rightarrow> ('k \<times> 'v) list \<Rightarrow> ('k \<times> 'v) list" where
  "um_insert k v m = AList.update k v m"

definition um_erase :: "'k \<Rightarrow> ('k \<times> 'v) list \<Rightarrow> ('k \<times> 'v) list" where
  "um_erase k m = filter (\<lambda>e. fst e \<noteq> k) m"

definition um_wf :: "('k \<times> 'v) list \<Rightarrow> bool" where
  "um_wf m \<longleftrightarrow> distinct (map fst m)"

definition um_modify :: "'k \<Rightarrow> 'v \<Rightarrow> ('v \<Rightarrow> 'v) \<Rightarrow> ('k \<times> 'v) list \<Rightarrow> ('k \<times> 'v) list" where
  "um_modify k d f m = um_insert k (f (sm_get d m k)) m"

definition contains :: "('k \<times> 'v) list \<Rightarrow> 'k \<Rightarrow> bool" where
  "contains m k \<longleftrightarrow> map_of m k \<noteq> None"

definition os_insert :: "'a::linorder \<Rightarrow> 'a list \<Rightarrow> 'a list" where
  "os_insert x xs = (if x \<in> set xs then xs else insort x xs)"

section \<open>The container contract\<close>

locale map_container =
  fixes wf :: "('k \<times> 'v) list \<Rightarrow> bool"
    and put :: "'k \<Rightarrow> 'v \<Rightarrow> ('k \<times> 'v) list \<Rightarrow> ('k \<times> 'v) list"
    and del :: "'k \<Rightarrow> ('k \<times> 'v) list \<Rightarrow> ('k \<times> 'v) list"
  assumes wf_empty: "wf []"
    and wf_put: "wf m \<Longrightarrow> wf (put k v m)"
    and wf_del: "wf m \<Longrightarrow> wf (del k m)"
    and wf_distinct: "wf m \<Longrightarrow> distinct (map fst m)"
    and lookup_put: "map_of (put k v m) = (map_of m)(k \<mapsto> v)"
    and lookup_del: "map_of (del k m) = (map_of m)(k := None)"
begin

lemma entry_iff: "wf m \<Longrightarrow> (k, v) \<in> set m \<longleftrightarrow> map_of m k = Some v"
  by (simp add: wf_distinct map_of_distinct_iff)

lemma bex_entry: "wf m \<Longrightarrow> (\<exists>e \<in> set m. P (fst e) (snd e)) \<longleftrightarrow> (\<exists>k v. map_of m k = Some v \<and> P k v)"
  by (auto simp: entry_iff [symmetric] Bex_def)

lemma ball_entry: "wf m \<Longrightarrow> (\<forall>e \<in> set m. P (fst e) (snd e)) \<longleftrightarrow> (\<forall>k v. map_of m k = Some v \<longrightarrow> P k v)"
  by (auto simp: entry_iff [symmetric] Ball_def)

lemma set_put: "wf m \<Longrightarrow> set (put k v m) = insert (k, v) {e \<in> set m. fst e \<noteq> k}"
proof -
  assume wf: "wf m"
  have "(a, b) \<in> set (put k v m) \<longleftrightarrow> (a, b) \<in> insert (k, v) {e \<in> set m. fst e \<noteq> k}" for a b
    using wf by (auto simp: entry_iff [OF wf_put] entry_iff lookup_put)
  then show ?thesis by auto
qed

lemma set_del: "wf m \<Longrightarrow> set (del k m) = {e \<in> set m. fst e \<noteq> k}"
proof -
  assume wf: "wf m"
  have "(a, b) \<in> set (del k m) \<longleftrightarrow> (a, b) \<in> {e \<in> set m. fst e \<noteq> k}" for a b
    using wf by (auto simp: entry_iff [OF wf_del] entry_iff lookup_del)
  then show ?thesis by auto
qed

lemma dom_put: "dom (map_of (put k v m)) = insert k (dom (map_of m))"
  by (simp add: lookup_put)

lemma wf_fold_put: "wf m \<Longrightarrow> wf (fold (\<lambda>e. put (fst e) (snd e)) es m)"
  by (rule fold_inv) (auto intro: wf_put)

text \<open>A loop that copies entries with distinct keys is the override of maps.\<close>

lemma lookup_fold_put:
  "distinct (map fst es) \<Longrightarrow>
   map_of (fold (\<lambda>e. put (fst e) (snd e)) es m) = map_of m ++ map_of es"
proof (induction es arbitrary: m)
  case Nil
  then show ?case by simp
next
  case (Cons e es)
  then have "fst e \<notin> dom (map_of es)"
    by (simp add: dom_map_of_conv_image_fst)
  with Cons show ?case
    by (cases e) (auto simp: lookup_put map_add_def fun_eq_iff split: option.splits)
qed

end

section \<open>Both kinds of map meet it\<close>

lemma map_of_sm_insert [simp]: "map_of (sm_insert k v m) = (map_of m)(k \<mapsto> v)"
  by (induction k v m rule: sm_insert.induct) (auto simp: fun_eq_iff)

lemma keys_sm_insert [simp]: "fst ` set (sm_insert k v m) = insert k (fst ` set m)"
  by (induction k v m rule: sm_insert.induct) auto

lemma sm_wf_insert [intro]: "sm_wf m \<Longrightarrow> sm_wf (sm_insert k v m)"
proof (induction k v m rule: sm_insert.induct)
  case (1 k v)
  then show ?case by (simp add: sm_wf_def)
next
  case (2 k v k' v' m)
  have tl: "sm_wf m" and less: "\<And>x. x \<in> fst ` set m \<Longrightarrow> k' < x"
    using 2(2) by (auto simp: sm_wf_def)
  consider "k < k'" | "k = k'" | "k' < k" by fastforce
  then show ?case
  proof cases
    case 1
    with 2(2) less show ?thesis by (auto simp: sm_wf_def intro: less_trans)
  next
    case 2
    with \<open>sm_wf ((k', v') # m)\<close> show ?thesis by (simp add: sm_wf_def)
  next
    case 3
    then have "sm_wf (sm_insert k v m)" using 2(1) tl by auto
    moreover have "k' < x" if "x \<in> fst ` set (sm_insert k v m)" for x
      using that less 3 by auto
    ultimately have "sm_wf ((k', v') # sm_insert k v m)"
      by (auto simp: sm_wf_def)
    with 3 show ?thesis by auto
  qed
qed

lemma map_of_filter_key:
  "map_of (filter (\<lambda>e. fst e \<noteq> k) m) = (map_of m)(k := None)"
  by (induction m) (auto simp: fun_eq_iff)

lemma map_of_sm_erase [simp]: "map_of (sm_erase k m) = (map_of m)(k := None)"
  by (simp add: sm_erase_def map_of_filter_key)

lemma sm_wf_erase [intro]: "sm_wf m \<Longrightarrow> sm_wf (sm_erase k m)"
  by (induction m) (auto simp: sm_wf_def sm_erase_def)

lemma sm_wf_Nil [simp, intro]: "sm_wf []"
  by (simp add: sm_wf_def)

lemma sm_wf_distinct: "sm_wf m \<Longrightarrow> distinct (map fst m)"
  by (simp add: sm_wf_def strict_sorted_iff)

lemma map_of_um_insert [simp]: "map_of (um_insert k v m) = (map_of m)(k \<mapsto> v)"
  by (simp add: um_insert_def AList.update_conv' fun_eq_iff)

lemma map_of_um_erase [simp]: "map_of (um_erase k m) = (map_of m)(k := None)"
  by (simp add: um_erase_def map_of_filter_key)

lemma um_wf_Nil [simp, intro]: "um_wf []"
  by (simp add: um_wf_def)

lemma um_wf_insert [intro]: "um_wf m \<Longrightarrow> um_wf (um_insert k v m)"
  by (simp add: um_wf_def um_insert_def distinct_update)

lemma um_wf_erase [intro]: "um_wf m \<Longrightarrow> um_wf (um_erase k m)"
  by (simp add: um_wf_def um_erase_def distinct_map_filter)

interpretation sm: map_container sm_wf sm_insert sm_erase
  by unfold_locales (auto intro: sm_wf_distinct)

interpretation um: map_container um_wf um_insert um_erase
  by unfold_locales (auto simp: um_wf_def [symmetric] simp del: um_wf_def intro: um_wf_def [THEN iffD1])

lemma map_of_sm_modify [simp]:
  "map_of (sm_modify k d f m) = (map_of m)(k \<mapsto> f (sm_get d m k))"
  by (simp add: sm_modify_def)

lemma map_of_um_modify [simp]:
  "map_of (um_modify k d f m) = (map_of m)(k \<mapsto> f (sm_get d m k))"
  by (simp add: um_modify_def)

lemma sm_wf_modify [intro]: "sm_wf m \<Longrightarrow> sm_wf (sm_modify k d f m)"
  by (auto simp: sm_modify_def)

lemma um_wf_modify [intro]: "um_wf m \<Longrightarrow> um_wf (um_modify k d f m)"
  by (auto simp: um_modify_def)

lemma contains_iff_key: "contains m k \<longleftrightarrow> k \<in> fst ` set m"
  by (simp add: contains_def map_of_None_iff)

text \<open>
  Two ordered maps with the same lookups are the same object: \<open>operator==\<close> of
  \<^verbatim>\<open>std::map\<close> is equality of the lists.
\<close>

lemma sm_ext:
  assumes "sm_wf m" "sm_wf n" "map_of m = map_of n"
  shows "m = n"
proof -
  have keys: "map fst m = map fst n"
  proof (rule sorted_distinct_set_unique)
    show "sorted (map fst m)" "distinct (map fst m)" "sorted (map fst n)" "distinct (map fst n)"
      using assms(1,2) by (auto simp: sm_wf_def strict_sorted_iff)
    show "set (map fst m) = set (map fst n)"
      using assms(3) by (metis dom_map_of_conv_image_fst list.set_map)
  qed
  have rebuild: "xs = map (\<lambda>k. (k, the (map_of xs k))) (map fst xs)"
    if "sm_wf xs" for xs :: "('a \<times> 'b) list"
  proof -
    have "(fst e, the (map_of xs (fst e))) = e" if "e \<in> set xs" for e
      using map_of_is_SomeI [OF sm_wf_distinct [OF \<open>sm_wf xs\<close>], of "fst e" "snd e"] that
      by simp
    then show ?thesis by (simp add: o_def map_idI)
  qed
  show ?thesis
    using rebuild [OF assms(1)] rebuild [OF assms(2)] keys assms(3) by metis
qed

lemma set_os_insert [simp]: "set (os_insert x xs) = insert x (set xs)"
  by (auto simp: os_insert_def set_insort_key)

lemma set_fold_os_insert [simp]: "set (fold os_insert xs ys) = set xs \<union> set ys"
  by (induction xs arbitrary: ys) auto

lemma sm_get_None [simp]: "map_of m k = None \<Longrightarrow> sm_get d m k = d"
  by (simp add: sm_get_def)

lemma sm_get_Some [simp]: "map_of m k = Some v \<Longrightarrow> sm_get d m k = v"
  by (simp add: sm_get_def)

end
