(* ===== verification/Locksets.thy ===== *)
theory Locksets
  imports StdMap
begin

text \<open>
  Model of \<^verbatim>\<open>src/src/lockset.hpp\<close> and \<^verbatim>\<open>src/src/lockset.cpp\<close>: the registry that numbers
  mutexes, the class \<^verbatim>\<open>Lockset\<close> (a vector of 64-bit bitsets) and the class
  \<^verbatim>\<open>TimedLockset\<close> (an ordered map from lock index to the logical time of acquisition).
  The abstraction of a lockset is its set of indices (\<open>members\<close>); every operation is
  related to the set operation it implements. Indices and the counter are unbounded
  naturals: the 64-bit counter grows by one per distinct mutex.
\<close>

section \<open>The mutex registry\<close>

record LockRegistry =
  lock_index :: "(u64 \<times> nat) list"
  lock_counter :: nat

definition register_mutex :: "u64 \<Rightarrow> LockRegistry \<Rightarrow> LockRegistry" where
  "register_mutex mutex r =
     (if \<not> contains (lock_index r) mutex
      then r\<lparr>lock_index := sm_insert mutex (lock_counter r) (lock_index r),
             lock_counter := lock_counter r + 1\<rparr>
      else r)"

text \<open>\<open>operator[]\<close> of the map inserts 0 for a mutex that is not registered.\<close>

definition get_index :: "u64 \<Rightarrow> LockRegistry \<Rightarrow> nat \<times> LockRegistry" where
  "get_index mutex r =
     (case map_of (lock_index r) mutex of
        Some i \<Rightarrow> (i, r)
      | None \<Rightarrow> (0, r\<lparr>lock_index := sm_insert mutex 0 (lock_index r)\<rparr>))"

definition register_special_mutex :: "LockRegistry \<Rightarrow> nat \<times> LockRegistry" where
  "register_special_mutex r = (lock_counter r, r\<lparr>lock_counter := lock_counter r + 1\<rparr>)"

definition init_registry :: LockRegistry where
  "init_registry = \<lparr>lock_index = [], lock_counter = 0\<rparr>"

text \<open>
  The registry invariant, over the set of indices handed out for special mutexes: no index
  is given twice, and none is at or above the counter.
\<close>

definition registry_wf :: "nat set \<Rightarrow> LockRegistry \<Rightarrow> bool" where
  "registry_wf S r \<longleftrightarrow>
     sm_wf (lock_index r) \<and> inj_on (map_of (lock_index r)) (dom (map_of (lock_index r))) \<and>
     ran (map_of (lock_index r)) \<subseteq> {..<lock_counter r} \<and> S \<subseteq> {..<lock_counter r} \<and>
     ran (map_of (lock_index r)) \<inter> S = {}"

lemma registry_wf_init: "registry_wf {} init_registry"
  by (simp add: registry_wf_def init_registry_def)

lemma register_mutex_registers: "contains (lock_index (register_mutex m r)) m"
  by (auto simp: register_mutex_def contains_def)

lemma registry_wf_register_mutex:
  assumes "registry_wf S r"
  shows "registry_wf S (register_mutex m r)"
proof (cases "contains (lock_index r) m")
  case True
  with assms show ?thesis by (simp add: register_mutex_def)
next
  case False
  have new: "lock_counter r \<notin> ran (map_of (lock_index r))" "lock_counter r \<notin> S"
    using assms by (auto simp: registry_wf_def)
  have "inj_on ((map_of (lock_index r))(m \<mapsto> lock_counter r)) (insert m (dom (map_of (lock_index r))))"
    using assms new(1) by (fastforce simp: registry_wf_def inj_on_def ran_def)
  moreover have "ran ((map_of (lock_index r))(m \<mapsto> lock_counter r))
      = insert (lock_counter r) (ran (map_of (lock_index r)))"
    using False by (simp add: contains_def)
  ultimately show ?thesis
    using assms False new by (auto simp: registry_wf_def register_mutex_def)
qed

lemma registry_wf_special:
  assumes "registry_wf S r" "register_special_mutex r = (i, r')"
  shows "registry_wf (insert i S) r'" "i \<notin> S" "i \<notin> ran (map_of (lock_index r))"
  using assms by (auto simp: registry_wf_def register_special_mutex_def)

lemma get_index_registered:
  "contains (lock_index r) m \<Longrightarrow>
   \<exists>i. map_of (lock_index r) m = Some i \<and> get_index m r = (i, r)"
  by (auto simp: get_index_def contains_def)

section \<open>Lockset\<close>

record Lockset =
  locks :: "u64 list"

definition new_Lockset :: Lockset where
  "new_Lockset = \<lparr>locks = [0]\<rparr>"

definition vector_resize :: "nat \<Rightarrow> 'a \<Rightarrow> 'a list \<Rightarrow> 'a list" where
  "vector_resize n x xs = take n xs @ replicate (n - length xs) x"

definition set_mutex_internal :: "nat \<Rightarrow> bool \<Rightarrow> Lockset \<Rightarrow> Lockset" where
  "set_mutex_internal index v ls =
     (let macro = index div 64; micro = index mod 64;
          l = (if macro \<ge> length (locks ls) then vector_resize (macro + 1) 0 (locks ls) else locks ls)
      in ls\<lparr>locks := l[macro := (if v then set_bit micro (l ! macro) else unset_bit micro (l ! macro))]\<rparr>)"

definition set_mutex :: "u64 \<Rightarrow> bool \<Rightarrow> Lockset \<times> LockRegistry \<Rightarrow> Lockset \<times> LockRegistry" where
  "set_mutex mutex v = (\<lambda>(ls, r). case get_index mutex r of (i, r') \<Rightarrow> (set_mutex_internal i v ls, r'))"

definition Lockset_lock :: "u64 \<Rightarrow> Lockset \<times> LockRegistry \<Rightarrow> Lockset \<times> LockRegistry" where
  "Lockset_lock mutex = (\<lambda>(ls, r). set_mutex mutex True (ls, register_mutex mutex r))"

definition Lockset_unlock :: "u64 \<Rightarrow> Lockset \<times> LockRegistry \<Rightarrow> Lockset \<times> LockRegistry" where
  "Lockset_unlock mutex = (\<lambda>(ls, r). set_mutex mutex False (ls, register_mutex mutex r))"

definition Lockset_lock_special :: "nat \<Rightarrow> Lockset \<Rightarrow> Lockset" where
  "Lockset_lock_special mutex = set_mutex_internal mutex True"

definition Lockset_unlock_special :: "nat \<Rightarrow> Lockset \<Rightarrow> Lockset" where
  "Lockset_unlock_special mutex = set_mutex_internal mutex False"

definition Lockset_clear :: "Lockset \<Rightarrow> Lockset" where
  "Lockset_clear ls = ls\<lparr>locks := []\<rparr>"

definition Lockset_empty :: "Lockset \<Rightarrow> bool" where
  "Lockset_empty ls \<longleftrightarrow> \<not> list_ex (\<lambda>v. v \<noteq> 0) (locks ls)"

text \<open>The first argument is the pointer comparison \<^verbatim>\<open>this == ls\<close>.\<close>

definition short_intersect :: "bool \<Rightarrow> Lockset \<Rightarrow> Lockset \<Rightarrow> bool" where
  "short_intersect same_object this ls =
     (if Lockset_empty this \<or> Lockset_empty ls then False
      else if same_object then True
      else list_ex (\<lambda>i. (locks this ! i) AND (locks ls ! i) \<noteq> 0)
             [0..<min (length (locks this)) (length (locks ls))])"

definition Lockset_eq :: "Lockset \<Rightarrow> Lockset \<Rightarrow> bool" where
  "Lockset_eq this ls =
     (if length (locks this) = length (locks ls) then locks this = locks ls
      else let m = min (length (locks this)) (length (locks ls)) in
        if take m (locks this) \<noteq> take m (locks ls) then False
        else let remainder = (if length (locks this) \<noteq> m then locks this else locks ls) in
          \<not> list_ex (\<lambda>v. v \<noteq> 0) (drop m remainder))"

definition Lockset_intersect :: "Lockset \<Rightarrow> Lockset \<Rightarrow> Lockset" where
  "Lockset_intersect ls this =
     (let min_size = min (length (locks this)) (length (locks ls));
          l = vector_resize min_size 0 (locks this)
      in this\<lparr>locks := map (\<lambda>i. (l ! i) AND (locks ls ! i)) [0..<min_size]\<rparr>)"

subsection \<open>Abstraction to sets of indices\<close>

definition has_index :: "Lockset \<Rightarrow> nat \<Rightarrow> bool" where
  "has_index ls i \<longleftrightarrow> i div 64 < length (locks ls) \<and> bit (locks ls ! (i div 64)) (i mod 64)"

definition members :: "Lockset \<Rightarrow> nat set" where
  "members ls = {i. has_index ls i}"

lemma u64_zero_iff: "w = (0::u64) \<longleftrightarrow> (\<forall>n<64. \<not> bit w n)"
  by (auto simp: bit_eq_iff bit_imp_le_length [where 'a=64, simplified] dest: bit_imp_le_length)

lemma u64_eq_iff: "v = (w::u64) \<longleftrightarrow> (\<forall>n<64. bit v n = bit w n)"
  by (auto simp: bit_eq_iff dest: bit_imp_le_length)

lemma has_index_at: "n < 64 \<Longrightarrow> has_index ls (64 * k + n) \<longleftrightarrow> k < length (locks ls) \<and> bit (locks ls ! k) n"
  by (simp add: has_index_def)

lemma members_at: "n < 64 \<Longrightarrow> 64 * k + n \<in> members ls \<longleftrightarrow> k < length (locks ls) \<and> bit (locks ls ! k) n"
  by (simp add: members_def has_index_at)

lemma members_new [lockset_simps]: "members new_Lockset = {}"
  by (auto simp: members_def has_index_def new_Lockset_def)

lemma members_set_mutex_internal [lockset_simps]:
  "members (set_mutex_internal i v ls) = (if v then insert i (members ls) else members ls - {i})"
proof -
  define l where "l = (if i div 64 \<ge> length (locks ls)
    then vector_resize (i div 64 + 1) 0 (locks ls) else locks ls)"
  have len: "i div 64 < length l"
    by (auto simp: l_def vector_resize_def)
  have old: "has_index ls j \<longleftrightarrow> j div 64 < length l \<and> bit (l ! (j div 64)) (j mod 64)" for j
    by (auto simp: l_def has_index_def vector_resize_def nth_append)
  have new: "locks (set_mutex_internal i v ls) =
      l[i div 64 := (if v then set_bit (i mod 64) (l ! (i div 64)) else unset_bit (i mod 64) (l ! (i div 64)))]"
    by (simp add: set_mutex_internal_def Let_def l_def)
  have "has_index (set_mutex_internal i v ls) j \<longleftrightarrow> (if j = i then v else has_index ls j)" for j
  proof (cases "j div 64 = i div 64")
    case True
    then have "j = i \<longleftrightarrow> j mod 64 = i mod 64"
      by (metis div_mult_mod_eq)
    then show ?thesis
      using len True by (auto simp: has_index_def [of "set_mutex_internal i v ls"] new old
          bit_set_bit_iff bit_unset_bit_iff)
  next
    case False
    then show ?thesis
      using len by (auto simp: has_index_def [of "set_mutex_internal i v ls"] new old)
  qed
  then show ?thesis by (auto simp: members_def split: if_splits)
qed

lemma Lockset_empty_iff [lockset_simps]: "Lockset_empty ls \<longleftrightarrow> members ls = {}"
proof -
  have "Lockset_empty ls \<longleftrightarrow> (\<forall>k<length (locks ls). \<forall>n<64. \<not> bit (locks ls ! k) n)"
    by (simp add: Lockset_empty_def list_ex_iff all_set_conv_all_nth u64_zero_iff)
  also have "\<dots> \<longleftrightarrow> members ls = {}"
    by (auto simp: members_def has_index_def dest: has_index_at [THEN iffD2])
       (metis has_index_at has_index_def)
  finally show ?thesis .
qed

text \<open>Two locksets with the same indices compare equal, whatever their lengths.\<close>

lemma members_eq_iff:
  "members a = members b \<longleftrightarrow>
   (\<forall>k n. n < 64 \<longrightarrow> (k < length (locks a) \<and> bit (locks a ! k) n)
                 = (k < length (locks b) \<and> bit (locks b ! k) n))"
proof
  assume "members a = members b"
  then show "\<forall>k n. n < 64 \<longrightarrow> (k < length (locks a) \<and> bit (locks a ! k) n)
                 = (k < length (locks b) \<and> bit (locks b ! k) n)"
    by (metis members_at)
next
  assume "\<forall>k n. n < 64 \<longrightarrow> (k < length (locks a) \<and> bit (locks a ! k) n)
                 = (k < length (locks b) \<and> bit (locks b ! k) n)"
  then show "members a = members b"
    by (auto simp: members_def has_index_def)
qed

lemma drop_zero_iff:
  "\<not> list_ex (\<lambda>v. v \<noteq> (0::u64)) (drop m xs) \<longleftrightarrow> (\<forall>k. m \<le> k \<longrightarrow> k < length xs \<longrightarrow> xs ! k = 0)"
proof -
  have "set (drop m xs) = {xs ! k |k. m \<le> k \<and> k < length xs}"
    by (auto simp: in_set_conv_nth) (metis add.commute le_Suc_ex le_add1 less_diff_conv nth_drop)+
  then show ?thesis by (auto simp: list_ex_iff)
qed

lemma Lockset_eq_iff [lockset_simps]: "Lockset_eq a b \<longleftrightarrow> members a = members b"
proof -
  let ?A = "locks a" and ?B = "locks b"
  let ?m = "min (length ?A) (length ?B)"
  have pad: "Lockset_eq a b \<longleftrightarrow> (\<forall>k. (if k < length ?A then ?A ! k else 0) = (if k < length ?B then ?B ! k else 0))"
  proof (cases "length ?A = length ?B")
    case True
    then show ?thesis by (auto simp: Lockset_eq_def list_eq_iff_nth_eq)
  next
    case False
    have "take ?m ?A = take ?m ?B \<longleftrightarrow> (\<forall>k<?m. ?A ! k = ?B ! k)"
      by (auto simp: list_eq_iff_nth_eq)
    then show ?thesis
      using False by (auto simp: Lockset_eq_def Let_def drop_zero_iff min_def not_less
          split: if_splits) (metis le_less_trans linorder_not_le nle_le)+
  qed
  have bits: "((if k < length ?A then ?A ! k else 0) = (if k < length ?B then ?B ! k else 0)) \<longleftrightarrow>
     (\<forall>n<64. (k < length ?A \<and> bit (?A ! k) n) = (k < length ?B \<and> bit (?B ! k) n))" for k
    by (auto simp: u64_eq_iff [of _ "if k < length ?B then ?B ! k else 0"])
  show ?thesis
    unfolding pad bits members_eq_iff by blast
qed

lemma short_intersect_iff [lockset_simps]:
  assumes "same \<Longrightarrow> a = b"
  shows "short_intersect same a b \<longleftrightarrow> members a \<inter> members b \<noteq> {}"
proof -
  have "list_ex (\<lambda>i. (locks a ! i) AND (locks b ! i) \<noteq> 0) [0..<min (length (locks a)) (length (locks b))]
      \<longleftrightarrow> (\<exists>k n. n < 64 \<and> k < length (locks a) \<and> k < length (locks b) \<and> bit (locks a ! k) n \<and> bit (locks b ! k) n)"
    by (auto simp: list_ex_iff u64_zero_iff bit_and_iff) blast
  also have "\<dots> \<longleftrightarrow> (\<exists>k n. n < 64 \<and> 64 * k + n \<in> members a \<and> 64 * k + n \<in> members b)"
    by (simp add: members_at cong: conj_cong) blast
  also have "\<dots> \<longleftrightarrow> members a \<inter> members b \<noteq> {}"
  proof
    assume "members a \<inter> members b \<noteq> {}"
    then obtain i where "i \<in> members a" "i \<in> members b" by auto
    moreover have "i = 64 * (i div 64) + i mod 64" "i mod 64 < 64" by simp_all
    ultimately show "\<exists>k n. n < 64 \<and> 64 * k + n \<in> members a \<and> 64 * k + n \<in> members b"
      by metis
  qed auto
  finally show ?thesis
    using assms by (auto simp: short_intersect_def Lockset_empty_iff)
qed

lemma members_intersect [lockset_simps]: "members (Lockset_intersect b a) = members a \<inter> members b"
proof -
  have "has_index (Lockset_intersect b a) i \<longleftrightarrow> has_index a i \<and> has_index b i" for i
    by (auto simp: has_index_def Lockset_intersect_def Let_def vector_resize_def nth_append bit_and_iff)
  then show ?thesis by (auto simp: members_def)
qed

lemma members_clear [lockset_simps]: "members (Lockset_clear ls) = {}"
  by (simp add: members_def has_index_def Lockset_clear_def)

lemma Lockset_lock_members:
  assumes "Lockset_lock m (ls, r) = (ls', r')" and "registry_wf S r"
  obtains i where "map_of (lock_index r') m = Some i" "members ls' = insert i (members ls)"
    "registry_wf S r'"
proof -
  obtain i where i: "map_of (lock_index (register_mutex m r)) m = Some i"
    "get_index m (register_mutex m r) = (i, register_mutex m r)"
    using get_index_registered [OF register_mutex_registers] by blast
  with assms(1) have "r' = register_mutex m r" "ls' = set_mutex_internal i True ls"
    by (auto simp: Lockset_lock_def set_mutex_def)
  with i that show thesis
    by (simp add: lockset_simps registry_wf_register_mutex [OF assms(2)])
qed

section \<open>TimedLockset\<close>

record TimedLockset =
  timestamps :: "(nat \<times> u64) list"

definition new_TimedLockset :: TimedLockset where
  "new_TimedLockset = \<lparr>timestamps = []\<rparr>"

definition TimedLockset_lock_special :: "nat \<Rightarrow> u64 \<Rightarrow> TimedLockset \<Rightarrow> TimedLockset" where
  "TimedLockset_lock_special mutex ts t = t\<lparr>timestamps := sm_insert mutex ts (timestamps t)\<rparr>"

definition TimedLockset_unlock_special :: "nat \<Rightarrow> TimedLockset \<Rightarrow> TimedLockset" where
  "TimedLockset_unlock_special mutex t = t\<lparr>timestamps := sm_erase mutex (timestamps t)\<rparr>"

definition TimedLockset_lock ::
  "u64 \<Rightarrow> u64 \<Rightarrow> TimedLockset \<times> LockRegistry \<Rightarrow> TimedLockset \<times> LockRegistry" where
  "TimedLockset_lock mutex ts = (\<lambda>(t, r).
     case get_index mutex (register_mutex mutex r) of
       (i, r') \<Rightarrow> (t\<lparr>timestamps := sm_insert i ts (timestamps t)\<rparr>, r'))"

definition TimedLockset_unlock ::
  "u64 \<Rightarrow> TimedLockset \<times> LockRegistry \<Rightarrow> TimedLockset \<times> LockRegistry" where
  "TimedLockset_unlock mutex = (\<lambda>(t, r).
     case get_index mutex (register_mutex mutex r) of
       (i, r') \<Rightarrow> (t\<lparr>timestamps := sm_erase i (timestamps t)\<rparr>, r'))"

definition TimedLockset_clear :: "TimedLockset \<Rightarrow> TimedLockset" where
  "TimedLockset_clear t = t\<lparr>timestamps := []\<rparr>"

definition TimedLockset_empty :: "TimedLockset \<Rightarrow> bool" where
  "TimedLockset_empty t \<longleftrightarrow> timestamps t = []"

definition TimedLockset_intersect :: "TimedLockset \<Rightarrow> TimedLockset \<Rightarrow> TimedLockset" where
  "TimedLockset_intersect tls this = this\<lparr>timestamps :=
     filter (\<lambda>it. \<not> (\<not> contains (timestamps tls) (fst it)
                     \<or> map_of (timestamps tls) (fst it) \<noteq> Some (snd it))) (timestamps this)\<rparr>"

definition TimedLockset_eq :: "TimedLockset \<Rightarrow> TimedLockset \<Rightarrow> bool" where
  "TimedLockset_eq this tls \<longleftrightarrow> timestamps this = timestamps tls"

definition to_lockset :: "TimedLockset \<Rightarrow> Lockset" where
  "to_lockset t = fold (\<lambda>entry. Lockset_lock_special (fst entry)) (timestamps t) new_Lockset"

definition tls_wf :: "TimedLockset \<Rightarrow> bool" where
  "tls_wf t \<longleftrightarrow> sm_wf (timestamps t)"

abbreviation held :: "TimedLockset \<Rightarrow> nat set" where
  "held t \<equiv> dom (map_of (timestamps t))"

lemma tls_wf_new [simp]: "tls_wf new_TimedLockset"
  by (simp add: tls_wf_def new_TimedLockset_def)

lemma tls_wf_lock_special [intro]: "tls_wf t \<Longrightarrow> tls_wf (TimedLockset_lock_special m ts t)"
  by (auto simp: tls_wf_def TimedLockset_lock_special_def)

lemma tls_wf_unlock_special [intro]: "tls_wf t \<Longrightarrow> tls_wf (TimedLockset_unlock_special m t)"
  by (auto simp: tls_wf_def TimedLockset_unlock_special_def)

lemma members_to_lockset [lockset_simps]: "members (to_lockset t) = held t"
proof -
  have "members (fold (\<lambda>entry. Lockset_lock_special (fst entry)) es ls) = members ls \<union> fst ` set es"
    for es :: "(nat \<times> u64) list" and ls
    by (induction es arbitrary: ls) (auto simp: Lockset_lock_special_def lockset_simps)
  then show ?thesis
    by (simp add: to_lockset_def members_new dom_map_of_conv_image_fst)
qed

text \<open>The intersection keeps the locks both snapshots hold since the same acquisition.\<close>

lemma map_of_filter_agree:
  assumes "distinct (map fst m)"
  shows "map_of (filter (\<lambda>e. map_of n (fst e) = Some (snd e)) m) k
       = (if map_of m k = map_of n k then map_of m k else None)"
  using assms
proof (induction m)
  case Nil
  then show ?case by simp
next
  case (Cons e m)
  then show ?case
    by (cases e) (auto simp: map_of_None_iff [THEN iffD2])
qed

lemma TimedLockset_intersect_timestamps:
  "timestamps (TimedLockset_intersect b a)
   = filter (\<lambda>e. map_of (timestamps b) (fst e) = Some (snd e)) (timestamps a)"
  by (auto simp: TimedLockset_intersect_def contains_def intro!: filter_cong)

lemma held_intersect [lockset_simps]:
  "tls_wf a \<Longrightarrow> held (TimedLockset_intersect b a)
    = {i. \<exists>ts. map_of (timestamps a) i = Some ts \<and> map_of (timestamps b) i = Some ts}"
  by (auto simp: TimedLockset_intersect_timestamps tls_wf_def map_of_filter_agree sm_wf_distinct
      dom_def simp del: map_of_eq_Some_iff split: if_splits)

lemma tls_wf_intersect [intro]: "tls_wf a \<Longrightarrow> tls_wf (TimedLockset_intersect b a)"
  by (simp add: tls_wf_def TimedLockset_intersect_timestamps sm_wf_def sorted_wrt_filter sorted_wrt_map)

lemma TimedLockset_eq_iff:
  "tls_wf a \<Longrightarrow> tls_wf b \<Longrightarrow>
   TimedLockset_eq a b \<longleftrightarrow> map_of (timestamps a) = map_of (timestamps b)"
  by (auto simp: TimedLockset_eq_def tls_wf_def intro: sm_ext)

lemma TimedLockset_empty_iff [lockset_simps]: "TimedLockset_empty t \<longleftrightarrow> held t = {}"
  by (simp add: TimedLockset_empty_def)

section \<open>Properties\<close>

text \<open>
  Registration numbers mutexes injectively: two lock addresses get the same index
  exactly when they are equal, and the index of a special mutex (an acquire/release
  configuration) is different from every index of an address and every earlier special one.
\<close>
lemma registry_indices_distinct:
  assumes "registry_wf S r" and "get_index a (register_mutex a r) = (i, r1)"
    and "get_index b (register_mutex b r1) = (j, r2)" and "register_special_mutex r2 = (k, r3)"
  shows "(i = j \<longleftrightarrow> a = b) \<and> k \<noteq> i \<and> k \<noteq> j \<and> k \<notin> S \<and> registry_wf (insert k S) r3"
proof -
  have a: "map_of (lock_index r1) a = Some i" "registry_wf S r1"
    using get_index_registered [OF register_mutex_registers, of a r] assms(2)
      registry_wf_register_mutex [OF assms(1), of a] by auto
  have b: "map_of (lock_index r2) b = Some j" "registry_wf S r2" "r2 = register_mutex b r1"
    using get_index_registered [OF register_mutex_registers, of b r1] assms(3)
      registry_wf_register_mutex [OF a(2), of b] by auto
  have a2: "map_of (lock_index r2) a = Some i"
    using a b(3) by (auto simp: register_mutex_def contains_def registry_wf_def)
  have "i = j \<longleftrightarrow> a = b"
    using a2 b(1,2) inj_onD [of "map_of (lock_index r2)" "dom (map_of (lock_index r2))" a b]
    by (auto simp: registry_wf_def)
  with registry_wf_special [OF b(2) assms(4)] a2 b(1) show ?thesis
    by (auto simp: ran_def)
qed

text \<open>
  Locking and unlocking a mutex of a \<^verbatim>\<open>Lockset\<close> are insertion and removal of its index in
  the set the bit vector stands for, with the vector growing as needed, and an unlock
  registers nothing new after a lock.
\<close>
lemma Lockset_lock_unlock_members:
  assumes "registry_wf S r" and "Lockset_lock m (ls, r) = (ls1, r1)" and "Lockset_unlock m (ls1, r1) = (ls2, r2)"
  shows "\<exists>i. map_of (lock_index r1) m = Some i \<and> members ls1 = insert i (members ls) \<and>
    members ls2 = members ls - {i} \<and> r2 = r1 \<and> registry_wf S r1"
proof -
  from Lockset_lock_members [OF assms(2,1)] obtain i where
    i: "map_of (lock_index r1) m = Some i" "members ls1 = insert i (members ls)" "registry_wf S r1" .
  have "register_mutex m r1 = r1" "get_index m r1 = (i, r1)"
    using i(1) by (auto simp: register_mutex_def get_index_def contains_def)
  then have "ls2 = set_mutex_internal i False ls1" "r2 = r1"
    using assms(3) by (auto simp: Lockset_unlock_def set_mutex_def)
  with i show ?thesis by (auto simp: members_set_mutex_internal)
qed

end
