(* ===== verification/Interning.thy ===== *)
theory Interning
  imports Prelude
begin

text \<open>
  The interface of the three interning tables of the tool (locksets, timed locksets,
  backtraces). A pointer is the position of an object in the list of all objects ever
  allocated by the table; objects are never freed. A table promises that a request returns
  a pointer to an object with the requested value, that pointers stay valid, and that two
  interned objects never have the same value. From these laws the locale proves what the
  analysis relies on: pointers returned by any sequence of requests are equal exactly when
  the requested values are.
\<close>

text \<open>A sequence of requests, and the pointers they return.\<close>

fun intern_all :: "('o \<Rightarrow> 's \<Rightarrow> nat \<times> 's) \<Rightarrow> 'o list \<Rightarrow> 's \<Rightarrow> nat list \<times> 's" where
  "intern_all get [] s = ([], s)"
| "intern_all get (x # xs) s =
     (case get x s of (p, s') \<Rightarrow> case intern_all get xs s' of (ps, s'') \<Rightarrow> (p # ps, s''))"

locale intern_table =
  fixes get :: "'o \<Rightarrow> 's \<Rightarrow> nat \<times> 's"
    and objects :: "'s \<Rightarrow> 'o list"
    and interned :: "'s \<Rightarrow> nat set"
    and val :: "'o \<Rightarrow> 'v"
    and wf :: "'s \<Rightarrow> bool"
    and ok :: "'o \<Rightarrow> bool"
  assumes wf_get: "wf s \<Longrightarrow> ok x \<Longrightarrow> get x s = (p, s') \<Longrightarrow> wf s'"
    and get_objects: "wf s \<Longrightarrow> ok x \<Longrightarrow> get x s = (p, s') \<Longrightarrow> \<exists>ys. objects s' = objects s @ ys"
    and get_interned: "wf s \<Longrightarrow> ok x \<Longrightarrow> get x s = (p, s') \<Longrightarrow> insert p (interned s) \<subseteq> interned s'"
    and interned_bound: "wf s \<Longrightarrow> p \<in> interned s \<Longrightarrow> p < length (objects s)"
    and get_val: "wf s \<Longrightarrow> ok x \<Longrightarrow> get x s = (p, s') \<Longrightarrow> val (objects s' ! p) = val x"
    and canonical: "wf s \<Longrightarrow> p \<in> interned s \<Longrightarrow> q \<in> interned s \<Longrightarrow>
        val (objects s ! p) = val (objects s ! q) \<Longrightarrow> p = q"
begin

lemma get_keeps_object:
  assumes "wf s" "ok x" "get x s = (p, s')" "q < length (objects s)"
  shows "objects s' ! q = objects s ! q" and "q < length (objects s')"
proof -
  obtain ys where "objects s' = objects s @ ys"
    using get_objects assms by blast
  with assms(4) show "objects s' ! q = objects s ! q" and "q < length (objects s')"
    by (simp_all add: nth_append)
qed

lemma get_bound:
  assumes "wf s" "ok x" "get x s = (p, s')"
  shows "p < length (objects s')"
  using interned_bound [OF wf_get [OF assms], of p] get_interned [OF assms] by simp

text \<open>A request for the value of an interned object returns that object.\<close>

lemma get_hit:
  assumes "wf s" "ok x" "p \<in> interned s" "val (objects s ! p) = val x"
  shows "fst (get x s) = p"
proof -
  obtain q s' where q: "get x s = (q, s')" by fastforce
  have "q \<in> interned s'" "p \<in> interned s'"
    using get_interned [OF assms(1,2) q] assms(3) by auto
  moreover have "val (objects s' ! q) = val (objects s' ! p)"
    using get_val [OF assms(1,2) q] assms(4)
      get_keeps_object(1) [OF assms(1,2) q interned_bound [OF assms(1,3)]] by simp
  ultimately show ?thesis
    using canonical wf_get [OF assms(1,2) q] q by fastforce
qed

lemma intern_all_spec:
  assumes "intern_all get xs s = (ps, s')" "wf s" "\<forall>x \<in> set xs. ok x"
  shows "wf s' \<and> length ps = length xs \<and> interned s \<subseteq> interned s' \<and>
    (\<exists>ys. objects s' = objects s @ ys) \<and>
    (\<forall>i < length xs. ps ! i \<in> interned s' \<and> val (objects s' ! (ps ! i)) = val (xs ! i))"
  using assms
proof (induction xs arbitrary: s ps s')
  case Nil
  then show ?case by simp
next
  case (Cons x xs)
  obtain p s1 where g: "get x s = (p, s1)" by fastforce
  obtain qs s2 where r: "intern_all get xs s1 = (qs, s2)" by fastforce
  have eq: "ps = p # qs" "s' = s2"
    using Cons.prems(1) g r by auto
  have ok: "ok x" and wf1: "wf s1" and ok_tl: "\<forall>x \<in> set xs. ok x"
    using Cons.prems(2,3) wf_get [OF _ _ g] by auto
  note IH = Cons.IH [OF r wf1 ok_tl]
  have p: "p \<in> interned s1" "val (objects s1 ! p) = val x" "p < length (objects s1)"
    using get_interned [OF Cons.prems(2) ok g] get_val [OF Cons.prems(2) ok g]
      get_bound [OF Cons.prems(2) ok g] by auto
  obtain ys where ys: "objects s1 = objects s @ ys"
    using get_objects [OF Cons.prems(2) ok g] by blast
  have p': "p \<in> interned s2" "val (objects s2 ! p) = val x"
  proof -
    obtain zs where "objects s2 = objects s1 @ zs" using IH by blast
    with p show "val (objects s2 ! p) = val x" by (simp add: nth_append)
    show "p \<in> interned s2" using IH p by blast
  qed
  have "\<forall>i < length (x # xs). (p # qs) ! i \<in> interned s2 \<and> val (objects s2 ! ((p # qs) ! i)) = val ((x # xs) ! i)"
    using IH p' by (auto simp: nth_Cons split: nat.splits)
  then show ?case
    using IH ys get_interned [OF Cons.prems(2) ok g] eq by auto
qed

text \<open>Pointer equality is equality of values, over any sequence of requests.\<close>

lemma intern_all_eq_iff:
  assumes "intern_all get xs s = (ps, s')" "wf s" "\<forall>x \<in> set xs. ok x"
    and "i < length xs" "j < length xs"
  shows "ps ! i = ps ! j \<longleftrightarrow> val (xs ! i) = val (xs ! j)"
  using intern_all_spec [OF assms(1-3)] assms(4,5) canonical by metis

end

end
