(* ===== verification/Cache.thy ===== *)
theory Cache
  imports Locksets Interning
begin

text \<open>
  Model of \<^verbatim>\<open>src/src/cache.hpp\<close>: the hash functions and equalities of locksets and timed
  locksets, the two interning caches, and the intersections that return interned
  locksets. \<open>find\<close> of an \<^verbatim>\<open>unordered_set\<close> looks for an element of the same hash that
  compares equal, so a hash that disagreed with the equality would break interning: the
  hashes are modelled at their widths and shown to agree. Both caches are
  interpretations of the locale \<open>intern_table\<close>.
\<close>

type_synonym pLockset = nat
type_synonym pTimedLockset = nat

section \<open>Hashes\<close>

definition hash_mix :: "u64 \<Rightarrow> u64 \<Rightarrow> u64" where
  "hash_mix x seed = seed XOR (x + push_bit 6 seed + drop_bit 2 seed)"

text \<open>
  \<^verbatim>\<open>macro + i + 0x9e3779b9\<close> is 32-bit unsigned arithmetic (an \<^verbatim>\<open>int\<close> plus an
  \<^verbatim>\<open>unsigned int\<close> literal), widened to 64 bits afterwards.
\<close>

definition hash_Lockset_word :: "nat \<Rightarrow> u64 \<Rightarrow> u64 \<Rightarrow> u64" where
  "hash_Lockset_word macro ele seed =
     fold (\<lambda>i seed. if bit ele i
            then hash_mix (ucast (of_nat (macro + i) + 0x9e3779b9 :: u32)) seed else seed)
       [0..<64] seed"

fun hash_Lockset_loop :: "nat \<Rightarrow> u64 list \<Rightarrow> u64 \<Rightarrow> u64" where
  "hash_Lockset_loop macro [] seed = seed"
| "hash_Lockset_loop macro (ele # l) seed = hash_Lockset_loop (macro + 1) l (hash_Lockset_word macro ele seed)"

definition hash_Lockset :: "Lockset \<Rightarrow> u64" where
  "hash_Lockset ls = hash_Lockset_loop 0 (locks ls) 0"

text \<open>Here the sums are 64-bit throughout, since the map entries are.\<close>

fun hash_TimedLockset_loop :: "nat \<Rightarrow> (nat \<times> u64) list \<Rightarrow> u64 \<Rightarrow> u64" where
  "hash_TimedLockset_loop macro [] seed = seed"
| "hash_TimedLockset_loop macro (entry # l) seed =
     hash_TimedLockset_loop (macro + 1) l
       (hash_mix (of_nat macro + snd entry + 0x9e3779b9)
         (hash_mix (of_nat macro + of_nat (fst entry) + 0x9e3779b9) seed))"

definition hash_TimedLockset :: "TimedLockset \<Rightarrow> u64" where
  "hash_TimedLockset tls = hash_TimedLockset_loop 0 (timestamps tls) 0"

lemma hash_Lockset_word_zero [simp]: "hash_Lockset_word macro 0 seed = seed"
  by (simp add: hash_Lockset_word_def fold_id_on [where h = id, simplified])

lemma hash_Lockset_loop_zeros [simp]:
  "hash_Lockset_loop macro (xs @ replicate n 0) seed = hash_Lockset_loop macro xs seed"
proof (induction xs arbitrary: macro seed)
  case Nil
  show ?case by (induction n arbitrary: macro) auto
next
  case (Cons x xs)
  then show ?case by simp
qed

lemma Lockset_eq_pad:
  assumes "members a = members b" "length (locks a) \<le> length (locks b)"
  shows "locks b = locks a @ replicate (length (locks b) - length (locks a)) 0"
proof (rule nth_equalityI)
  show "length (locks b) = length (locks a @ replicate (length (locks b) - length (locks a)) 0)"
    using assms(2) by simp
next
  fix k assume k: "k < length (locks b)"
  have "bit (locks b ! k) n \<longleftrightarrow> k < length (locks a) \<and> bit (locks a ! k) n" if "n < 64" for n
    using assms(1) that k by (auto simp: members_eq_iff)
  then show "locks b ! k = (locks a @ replicate (length (locks b) - length (locks a)) 0) ! k"
    using k by (auto simp: u64_eq_iff nth_append)
qed

lemma hash_Lockset_members:
  assumes "members a = members b"
  shows "hash_Lockset a = hash_Lockset b"
proof (cases "length (locks a) \<le> length (locks b)")
  case True
  from Lockset_eq_pad [OF assms True] show ?thesis
    unfolding hash_Lockset_def by (metis hash_Lockset_loop_zeros)
next
  case False
  then have "length (locks b) \<le> length (locks a)" by simp
  from Lockset_eq_pad [OF assms [symmetric] this] show ?thesis
    unfolding hash_Lockset_def by (metis hash_Lockset_loop_zeros)
qed

section \<open>The lockset cache\<close>

record lockset_heap =
  ls_objects :: "Lockset list"
  locksets_cache :: "pLockset list"

text \<open>\<^verbatim>\<open>empty_lockset\<close> is allocated at start-up, outside the cache.\<close>

definition empty_lockset :: pLockset where
  "empty_lockset = 0"

definition init_lockset_heap :: lockset_heap where
  "init_lockset_heap = \<lparr>ls_objects = [new_Lockset], locksets_cache = []\<rparr>"

definition lockset_at :: "lockset_heap \<Rightarrow> pLockset \<Rightarrow> Lockset" where
  "lockset_at h p = ls_objects h ! p"

definition lockset_cache_get :: "Lockset \<Rightarrow> lockset_heap \<Rightarrow> pLockset \<times> lockset_heap" where
  "lockset_cache_get ls h =
     (case find (\<lambda>p. hash_Lockset (lockset_at h p) = hash_Lockset ls \<and> Lockset_eq (lockset_at h p) ls)
             (locksets_cache h) of
        Some p \<Rightarrow> (p, h)
      | None \<Rightarrow> (length (ls_objects h),
                 h\<lparr>ls_objects := ls_objects h @ [ls],
                   locksets_cache := length (ls_objects h) # locksets_cache h\<rparr>))"

definition ls_heap_wf :: "lockset_heap \<Rightarrow> bool" where
  "ls_heap_wf h \<longleftrightarrow>
     (\<exists>l. ls_objects h = new_Lockset # l) \<and>
     (\<forall>p \<in> set (locksets_cache h). p < length (ls_objects h)) \<and>
     (\<forall>p \<in> set (locksets_cache h). \<forall>q \<in> set (locksets_cache h).
        members (lockset_at h p) = members (lockset_at h q) \<longrightarrow> p = q)"

lemma ls_heap_wf_init: "ls_heap_wf init_lockset_heap"
  by (simp add: ls_heap_wf_def init_lockset_heap_def)

lemma lockset_cache_get_cases:
  assumes "lockset_cache_get ls h = (p, h')"
  obtains (hit) "h' = h" "p \<in> set (locksets_cache h)" "members (lockset_at h p) = members ls"
  | (miss) "p = length (ls_objects h)" "ls_objects h' = ls_objects h @ [ls]"
      "locksets_cache h' = p # locksets_cache h"
      "\<forall>q \<in> set (locksets_cache h). members (lockset_at h q) \<noteq> members ls"
proof -
  let ?P = "\<lambda>p. hash_Lockset (lockset_at h p) = hash_Lockset ls \<and> Lockset_eq (lockset_at h p) ls"
  have P: "?P q \<longleftrightarrow> members (lockset_at h q) = members ls" for q
    by (metis Lockset_eq_iff hash_Lockset_members)
  show thesis
  proof (cases "find ?P (locksets_cache h)")
    case None
    then have "\<forall>q \<in> set (locksets_cache h). members (lockset_at h q) \<noteq> members ls"
      by (simp add: find_None_iff P)
    moreover have "p = length (ls_objects h)" "ls_objects h' = ls_objects h @ [ls]"
      "locksets_cache h' = p # locksets_cache h"
      using None assms by (auto simp: lockset_cache_get_def)
    ultimately show thesis by (rule miss [rotated 3])
  next
    case (Some q)
    then have "q \<in> set (locksets_cache h)" "members (lockset_at h q) = members ls"
      using find_SomeD [OF Some] P by blast+
    moreover have "p = q" "h' = h"
      using Some assms by (auto simp: lockset_cache_get_def)
    ultimately show thesis using hit by blast
  qed
qed

interpretation lsc: intern_table lockset_cache_get ls_objects
  "\<lambda>h. set (locksets_cache h)" members ls_heap_wf "\<lambda>_. True"
proof unfold_locales
  fix h ls p h'
  assume wf: "ls_heap_wf h" and g: "lockset_cache_get ls h = (p, h')"
  from g show "\<exists>ys. ls_objects h' = ls_objects h @ ys"
    and "insert p (set (locksets_cache h)) \<subseteq> set (locksets_cache h')"
    and "members (ls_objects h' ! p) = members ls"
    by (cases rule: lockset_cache_get_cases; auto simp: lockset_at_def)+
  from g show "ls_heap_wf h'"
  proof (cases rule: lockset_cache_get_cases)
    case hit
    with wf show ?thesis by simp
  next
    case miss
    have "lockset_at h' q = lockset_at h q" if "q \<in> set (locksets_cache h)" for q
      using that wf miss by (simp add: ls_heap_wf_def lockset_at_def nth_append)
    moreover have "lockset_at h' p = ls"
      using miss by (simp add: lockset_at_def)
    ultimately show ?thesis
      using wf miss by (auto simp: ls_heap_wf_def less_Suc_eq)
  qed
qed (auto simp: ls_heap_wf_def lockset_at_def)

text \<open>What every request keeps and returns, as the handlers use it.\<close>

definition ls_valid :: "lockset_heap \<Rightarrow> pLockset \<Rightarrow> bool" where
  "ls_valid h p \<longleftrightarrow> p < length (ls_objects h)"

definition ls_extends :: "lockset_heap \<Rightarrow> lockset_heap \<Rightarrow> bool" where
  "ls_extends h h' \<longleftrightarrow> (\<exists>ys. ls_objects h' = ls_objects h @ ys)"

lemma ls_extends_refl [simp, intro]: "ls_extends h h"
  by (simp add: ls_extends_def)

lemma ls_extends_trans [trans]: "ls_extends a b \<Longrightarrow> ls_extends b c \<Longrightarrow> ls_extends a c"
  by (auto simp: ls_extends_def)

lemma ls_extends_at: "ls_extends h h' \<Longrightarrow> ls_valid h p \<Longrightarrow> lockset_at h' p = lockset_at h p"
  by (auto simp: ls_extends_def ls_valid_def lockset_at_def nth_append)

lemma ls_extends_valid: "ls_extends h h' \<Longrightarrow> ls_valid h p \<Longrightarrow> ls_valid h' p"
  by (auto simp: ls_extends_def ls_valid_def)

lemma lockset_cache_get_spec:
  assumes "ls_heap_wf h" "lockset_cache_get ls h = (p, h')"
  shows "ls_heap_wf h'" "ls_extends h h'" "ls_valid h' p"
    "members (lockset_at h' p) = members ls"
  using lsc.wf_get [OF assms(1) _ assms(2)] lsc.get_objects [OF assms(1) _ assms(2)]
    lsc.get_bound [OF assms(1) _ assms(2)] lsc.get_val [OF assms(1) _ assms(2)]
  by (auto simp: ls_extends_def ls_valid_def lockset_at_def)

lemma empty_lockset_spec:
  assumes "ls_heap_wf h"
  shows "ls_valid h empty_lockset" "lockset_at h empty_lockset = new_Lockset"
  using assms by (auto simp: ls_heap_wf_def ls_valid_def lockset_at_def empty_lockset_def)

section \<open>The timed lockset cache\<close>

record timedlockset_heap =
  tls_objects :: "TimedLockset list"
  timedlocksets_cache :: "pTimedLockset list"

definition init_timedlockset_heap :: timedlockset_heap where
  "init_timedlockset_heap = \<lparr>tls_objects = [], timedlocksets_cache = []\<rparr>"

definition timedlockset_at :: "timedlockset_heap \<Rightarrow> pTimedLockset \<Rightarrow> TimedLockset" where
  "timedlockset_at h p = tls_objects h ! p"

definition timedlockset_cache_get ::
  "TimedLockset \<Rightarrow> timedlockset_heap \<Rightarrow> pTimedLockset \<times> timedlockset_heap" where
  "timedlockset_cache_get tls h =
     (case find (\<lambda>p. hash_TimedLockset (timedlockset_at h p) = hash_TimedLockset tls
                   \<and> TimedLockset_eq (timedlockset_at h p) tls) (timedlocksets_cache h) of
        Some p \<Rightarrow> (p, h)
      | None \<Rightarrow> (length (tls_objects h),
                 h\<lparr>tls_objects := tls_objects h @ [\<lparr>timestamps = timestamps tls\<rparr>],
                   timedlocksets_cache := length (tls_objects h) # timedlocksets_cache h\<rparr>))"

definition tls_heap_wf :: "timedlockset_heap \<Rightarrow> bool" where
  "tls_heap_wf h \<longleftrightarrow>
     (\<forall>t \<in> set (tls_objects h). tls_wf t) \<and>
     (\<forall>p \<in> set (timedlocksets_cache h). p < length (tls_objects h)) \<and>
     (\<forall>p \<in> set (timedlocksets_cache h). \<forall>q \<in> set (timedlocksets_cache h).
        timestamps (timedlockset_at h p) = timestamps (timedlockset_at h q) \<longrightarrow> p = q)"

lemma tls_heap_wf_init: "tls_heap_wf init_timedlockset_heap"
  by (simp add: tls_heap_wf_def init_timedlockset_heap_def)

lemma timedlockset_cache_get_cases:
  assumes "timedlockset_cache_get t h = (p, h')"
  obtains (hit) "h' = h" "p \<in> set (timedlocksets_cache h)" "timestamps (timedlockset_at h p) = timestamps t"
  | (miss) "p = length (tls_objects h)" "tls_objects h' = tls_objects h @ [\<lparr>timestamps = timestamps t\<rparr>]"
      "timedlocksets_cache h' = p # timedlocksets_cache h"
      "\<forall>q \<in> set (timedlocksets_cache h). timestamps (timedlockset_at h q) \<noteq> timestamps t"
proof -
  let ?P = "\<lambda>p. hash_TimedLockset (timedlockset_at h p) = hash_TimedLockset t
      \<and> TimedLockset_eq (timedlockset_at h p) t"
  have P: "?P q \<longleftrightarrow> timestamps (timedlockset_at h q) = timestamps t" for q
    by (auto simp: TimedLockset_eq_def hash_TimedLockset_def)
  show thesis
  proof (cases "find ?P (timedlocksets_cache h)")
    case None
    then have "\<forall>q \<in> set (timedlocksets_cache h). timestamps (timedlockset_at h q) \<noteq> timestamps t"
      by (simp add: find_None_iff P)
    moreover have "p = length (tls_objects h)" "tls_objects h' = tls_objects h @ [\<lparr>timestamps = timestamps t\<rparr>]"
      "timedlocksets_cache h' = p # timedlocksets_cache h"
      using None assms by (auto simp: timedlockset_cache_get_def)
    ultimately show thesis by (rule miss [rotated 3])
  next
    case (Some q)
    then have "q \<in> set (timedlocksets_cache h)" "timestamps (timedlockset_at h q) = timestamps t"
      using find_SomeD [OF Some] P by blast+
    moreover have "p = q" "h' = h"
      using Some assms by (auto simp: timedlockset_cache_get_def)
    ultimately show thesis using hit by blast
  qed
qed

interpretation tlsc: intern_table timedlockset_cache_get tls_objects
  "\<lambda>h. set (timedlocksets_cache h)" timestamps tls_heap_wf tls_wf
proof unfold_locales
  fix h t p h'
  assume wf: "tls_heap_wf h" and ok: "tls_wf t" and g: "timedlockset_cache_get t h = (p, h')"
  from g show "\<exists>ys. tls_objects h' = tls_objects h @ ys"
    and "insert p (set (timedlocksets_cache h)) \<subseteq> set (timedlocksets_cache h')"
    and "timestamps (tls_objects h' ! p) = timestamps t"
    by (cases rule: timedlockset_cache_get_cases; auto simp: timedlockset_at_def)+
  from g show "tls_heap_wf h'"
  proof (cases rule: timedlockset_cache_get_cases)
    case hit
    with wf show ?thesis by simp
  next
    case miss
    have "timedlockset_at h' q = timedlockset_at h q" if "q \<in> set (timedlocksets_cache h)" for q
      using that wf miss by (simp add: tls_heap_wf_def timedlockset_at_def nth_append)
    moreover have "timestamps (timedlockset_at h' p) = timestamps t"
      using miss by (simp add: timedlockset_at_def)
    ultimately show ?thesis
      using wf ok miss by (auto simp: tls_heap_wf_def less_Suc_eq tls_wf_def)
  qed
qed (auto simp: tls_heap_wf_def timedlockset_at_def)

definition tls_valid :: "timedlockset_heap \<Rightarrow> pTimedLockset \<Rightarrow> bool" where
  "tls_valid h p \<longleftrightarrow> p < length (tls_objects h)"

definition tls_extends :: "timedlockset_heap \<Rightarrow> timedlockset_heap \<Rightarrow> bool" where
  "tls_extends h h' \<longleftrightarrow> (\<exists>ys. tls_objects h' = tls_objects h @ ys)"

lemma tls_extends_refl [simp, intro]: "tls_extends h h"
  by (simp add: tls_extends_def)

lemma tls_extends_trans [trans]: "tls_extends a b \<Longrightarrow> tls_extends b c \<Longrightarrow> tls_extends a c"
  by (auto simp: tls_extends_def)

lemma tls_extends_at: "tls_extends h h' \<Longrightarrow> tls_valid h p \<Longrightarrow> timedlockset_at h' p = timedlockset_at h p"
  by (auto simp: tls_extends_def tls_valid_def timedlockset_at_def nth_append)

lemma tls_extends_valid: "tls_extends h h' \<Longrightarrow> tls_valid h p \<Longrightarrow> tls_valid h' p"
  by (auto simp: tls_extends_def tls_valid_def)

lemma tls_heap_wf_at: "tls_heap_wf h \<Longrightarrow> tls_valid h p \<Longrightarrow> tls_wf (timedlockset_at h p)"
  by (simp add: tls_heap_wf_def tls_valid_def timedlockset_at_def)

lemma timedlockset_cache_get_spec:
  assumes "tls_heap_wf h" "tls_wf t" "timedlockset_cache_get t h = (p, h')"
  shows "tls_heap_wf h'" "tls_extends h h'" "tls_valid h' p"
    "timedlockset_at h' p = t"
  using tlsc.wf_get [OF assms] tlsc.get_objects [OF assms] tlsc.get_bound [OF assms]
    tlsc.get_val [OF assms]
  by (auto simp: tls_extends_def tls_valid_def timedlockset_at_def)

section \<open>Intersections of interned locksets\<close>

definition intersect_lockset ::
  "pLockset \<Rightarrow> pLockset \<Rightarrow> lockset_heap \<Rightarrow> pLockset \<times> lockset_heap" where
  "intersect_lockset ls1 ls2 h =
     (if Lockset_empty (lockset_at h ls1) then (empty_lockset, h)
      else if Lockset_empty (lockset_at h ls2) then (empty_lockset, h)
      else if ls1 = ls2 then (ls1, h)
      else lockset_cache_get (Lockset_intersect (lockset_at h ls2) (lockset_at h ls1)) h)"

definition intersect_timedlockset ::
  "pTimedLockset \<Rightarrow> pTimedLockset \<Rightarrow> timedlockset_heap \<Rightarrow> lockset_heap \<Rightarrow> pLockset \<times> lockset_heap" where
  "intersect_timedlockset tls1 tls2 th h =
     (if TimedLockset_empty (timedlockset_at th tls1) then (empty_lockset, h)
      else if TimedLockset_empty (timedlockset_at th tls2) then (empty_lockset, h)
      else if tls1 = tls2 then lockset_cache_get (to_lockset (timedlockset_at th tls1)) h
      else lockset_cache_get
             (to_lockset (TimedLockset_intersect (timedlockset_at th tls2) (timedlockset_at th tls1))) h)"

text \<open>The pointer-level test the analysis uses.\<close>

definition pLockset_short_intersect :: "lockset_heap \<Rightarrow> pLockset \<Rightarrow> pLockset \<Rightarrow> bool" where
  "pLockset_short_intersect h this ls =
     short_intersect (this = ls) (lockset_at h this) (lockset_at h ls)"

lemma pLockset_short_intersect_iff [heap_simps]:
  "pLockset_short_intersect h p q \<longleftrightarrow> members (lockset_at h p) \<inter> members (lockset_at h q) \<noteq> {}"
  unfolding pLockset_short_intersect_def by (rule short_intersect_iff) simp

lemma intersect_lockset_spec:
  assumes "ls_heap_wf h" "ls_valid h p" "ls_valid h q" "intersect_lockset p q h = (r, h')"
  shows "ls_heap_wf h'" "ls_extends h h'" "ls_valid h' r"
    "members (lockset_at h' r) = members (lockset_at h p) \<inter> members (lockset_at h q)"
proof -
  have "ls_heap_wf h' \<and> ls_extends h h' \<and> ls_valid h' r \<and>
    members (lockset_at h' r) = members (lockset_at h p) \<inter> members (lockset_at h q)"
    using assms empty_lockset_spec [OF assms(1)] lockset_cache_get_spec [OF assms(1)]
    by (auto simp: intersect_lockset_def lockset_simps split: if_splits)
  then show "ls_heap_wf h'" "ls_extends h h'" "ls_valid h' r"
    "members (lockset_at h' r) = members (lockset_at h p) \<inter> members (lockset_at h q)"
    by auto
qed

text \<open>The locks two snapshots share since the same acquisition.\<close>

definition common_locks :: "TimedLockset \<Rightarrow> TimedLockset \<Rightarrow> nat set" where
  "common_locks a b = {i. \<exists>ts. map_of (timestamps a) i = Some ts \<and> map_of (timestamps b) i = Some ts}"

lemma common_locks_sym: "common_locks a b = common_locks b a"
  by (auto simp: common_locks_def)

lemma common_locks_same [simp]: "common_locks a a = held a"
  by (auto simp: common_locks_def)

lemma intersect_timedlockset_spec:
  assumes "ls_heap_wf h" "tls_heap_wf th" "tls_valid th p" "tls_valid th q"
    and "intersect_timedlockset p q th h = (r, h')"
  shows "ls_heap_wf h'" "ls_extends h h'" "ls_valid h' r"
    "members (lockset_at h' r) = common_locks (timedlockset_at th p) (timedlockset_at th q)"
proof -
  let ?a = "timedlockset_at th p" and ?b = "timedlockset_at th q"
  have wf: "tls_wf ?a" using assms by (blast intro: tls_heap_wf_at)
  have empty: "held ?a = {} \<or> held ?b = {} \<Longrightarrow> common_locks ?a ?b = {}"
    by (auto simp: common_locks_def)
  have inter: "held (TimedLockset_intersect ?b ?a) = common_locks ?a ?b"
    by (simp add: lockset_simps wf common_locks_def)
  have "(held ?a = {} \<or> held ?b = {}) \<and> r = empty_lockset \<and> h' = h
    \<or> p = q \<and> lockset_cache_get (to_lockset ?a) h = (r, h')
    \<or> lockset_cache_get (to_lockset (TimedLockset_intersect ?b ?a)) h = (r, h')"
    using assms(5) unfolding intersect_timedlockset_def TimedLockset_empty_iff
    by (cases "held ?a = {}"; cases "held ?b = {}"; cases "p = q") simp_all
  then consider "held ?a = {} \<or> held ?b = {}" "r = empty_lockset" "h' = h"
    | "p = q" "lockset_cache_get (to_lockset ?a) h = (r, h')"
    | "lockset_cache_get (to_lockset (TimedLockset_intersect ?b ?a)) h = (r, h')"
    by blast
  then have "ls_heap_wf h' \<and> ls_extends h h' \<and> ls_valid h' r \<and>
      members (lockset_at h' r) = common_locks ?a ?b"
  proof cases
    case 1
    with assms(1) empty empty_lockset_spec [OF assms(1)] show ?thesis
      by (auto simp: lockset_simps)
  next
    case 2
    with lockset_cache_get_spec [OF assms(1) 2(2)] show ?thesis
      by (simp add: lockset_simps)
  next
    case 3
    with lockset_cache_get_spec [OF assms(1) 3] inter show ?thesis
      by (simp add: members_to_lockset)
  qed
  then show "ls_heap_wf h'" "ls_extends h h'" "ls_valid h' r"
    "members (lockset_at h' r) = common_locks ?a ?b" by auto
qed

section \<open>Properties\<close>

text \<open>
  Equality of locksets is equality of the sets they stand for, whatever the lengths of
  the vectors, and equal locksets have equal hashes: the two functions \<^verbatim>\<open>std::unordered_set\<close>
  and \<^verbatim>\<open>std::unordered_map\<close> need to agree do agree.
\<close>
lemma Lockset_eq_hash:
  "(Lockset_eq a b \<longleftrightarrow> members a = members b) \<and> (Lockset_eq a b \<longrightarrow> hash_Lockset a = hash_Lockset b)"
  using hash_Lockset_members [of a b] by (auto simp only: Lockset_eq_iff)

text \<open>
  The word-by-word tests on locksets compute set intersection: \<^verbatim>\<open>short_intersect\<close>, the
  test of the race check, is true exactly when the sets meet, its shortcut for two equal
  pointers included, and \<^verbatim>\<open>intersect\<close> keeps the common indices.
\<close>
theorem lockset_intersections:
  "(pLockset_short_intersect h p q \<longleftrightarrow> members (lockset_at h p) \<inter> members (lockset_at h q) \<noteq> {}) \<and>
   members (Lockset_intersect b a) = members a \<inter> members b"
  by (simp add: pLockset_short_intersect_iff members_intersect)

text \<open>
  C25. Interning of locksets: over any sequence of requests from the start, two returned
  pointers are equal exactly when the requested locksets have the same members, so the
  analysis may compare pointers.
\<close>
theorem lockset_pointers_canonical:
  assumes "intern_all lockset_cache_get xs init_lockset_heap = (ps, h)"
    and "i < length xs" "j < length xs"
  shows "(ps ! i = ps ! j \<longleftrightarrow> members (xs ! i) = members (xs ! j)) \<and>
    members (lockset_at h (ps ! i)) = members (xs ! i)"
  using lsc.intern_all_eq_iff [OF assms(1) ls_heap_wf_init _ assms(2,3)]
    lsc.intern_all_spec [OF assms(1) ls_heap_wf_init] assms(2) by (simp add: lockset_at_def)

theorem lockset_pointers_canonical_witness:
  "\<exists>ps h. intern_all lockset_cache_get [\<lparr>locks = [1]\<rparr>, \<lparr>locks = [1, 0]\<rparr>] init_lockset_heap = (ps, h) \<and> ps ! 0 = ps ! 1"
proof -
  obtain ps h where r: "intern_all lockset_cache_get [\<lparr>locks = [1]\<rparr>, \<lparr>locks = [1, 0]\<rparr>] init_lockset_heap = (ps, h)"
    by fastforce
  have "members \<lparr>locks = [1]\<rparr> = members \<lparr>locks = [1, 0]\<rparr>"
    by (simp flip: Lockset_eq_iff add: Lockset_eq_def)
  with lockset_pointers_canonical [OF r, of 0 1] r show ?thesis by simp
qed

text \<open>
  Interning of timed locksets: two returned pointers are equal exactly when the
  requested maps are, and the object behind a pointer is the requested map.
\<close>
lemma timedlockset_pointers_canonical:
  assumes "intern_all timedlockset_cache_get xs init_timedlockset_heap = (ps, h)"
    and "\<forall>x \<in> set xs. tls_wf x" and "i < length xs" "j < length xs"
  shows "(ps ! i = ps ! j \<longleftrightarrow> xs ! i = xs ! j) \<and> timedlockset_at h (ps ! i) = xs ! i"
proof -
  have "x = y \<longleftrightarrow> timestamps x = timestamps y" for x y :: TimedLockset by auto
  with tlsc.intern_all_eq_iff [OF assms(1) tls_heap_wf_init assms(2-4)]
    tlsc.intern_all_spec [OF assms(1) tls_heap_wf_init assms(2)] assms(3) show ?thesis
    by (simp add: timedlockset_at_def)
qed

text \<open>
  C26. \<^verbatim>\<open>intersect\<close> of two timed locksets returns an interned lockset whose members are the
  locks both snapshots hold since the same acquisition; a lock released and taken again in
  between is not in it. No existing object changes.
\<close>
theorem intersect_timedlockset_common:
  assumes "ls_heap_wf h" "tls_heap_wf th" "tls_valid th p" "tls_valid th q"
    and "intersect_timedlockset p q th h = (r, h')"
  shows "members (lockset_at h' r) =
      {i. \<exists>ts. map_of (timestamps (timedlockset_at th p)) i = Some ts \<and> map_of (timestamps (timedlockset_at th q)) i = Some ts} \<and>
    ls_heap_wf h' \<and> (\<forall>x. ls_valid h x \<longrightarrow> lockset_at h' x = lockset_at h x)"
  using intersect_timedlockset_spec [OF assms] ls_extends_at by (simp add: common_locks_def)

theorem intersect_timedlockset_common_witness:
  "\<exists>r h'. intersect_timedlockset 0 1
       \<lparr>tls_objects = [\<lparr>timestamps = [(0, 1), (1, 2)]\<rparr>, \<lparr>timestamps = [(0, 1), (1, 5)]\<rparr>], timedlocksets_cache = [0, 1]\<rparr>
       init_lockset_heap = (r, h') \<and> members (lockset_at h' r) = {0}"
proof -
  let ?th = "\<lparr>tls_objects = [\<lparr>timestamps = [(0, 1), (1, 2)]\<rparr>, \<lparr>timestamps = [(0, 1), (1, 5)]\<rparr>], timedlocksets_cache = [0, 1]\<rparr>"
  obtain r h' where r: "intersect_timedlockset 0 1 ?th init_lockset_heap = (r, h')" by fastforce
  have th: "tls_heap_wf ?th" "tls_valid ?th 0" "tls_valid ?th 1"
    by (simp_all add: tls_heap_wf_def tls_wf_def sm_wf_def timedlockset_at_def tls_valid_def)
  from intersect_timedlockset_common [OF ls_heap_wf_init th r] r show ?thesis
    by (auto simp: timedlockset_at_def split: if_splits)
qed

end
