(* ===== verification/VectorClocks.thy ===== *)
theory VectorClocks
  imports StdMap
begin

text \<open>
  Model of \<^verbatim>\<open>src/src/vector_clock.hpp\<close>: a vector clock is an ordered map from thread
  identifiers to 64-bit counters. The two overloads of \<^verbatim>\<open>update\<close> are \<open>vc_tick\<close> (one
  component) and \<open>vc_update\<close> (merge). Thread identifiers are naturals, since every
  identifier is below \<open>TLS_MAX_SIZE\<close>; the counters keep their width.
  The specification is the pointwise order \<open>vc_le\<close>, in which an absent component is below
  every present one: merging is its least upper bound, and \<open>is_concurrent\<close> is
  incomparability.
\<close>

record VectorClock =
  clock :: "(nat \<times> u64) list"

definition new_VectorClock :: VectorClock where
  "new_VectorClock = \<lparr>clock = []\<rparr>"

definition vc_tick :: "nat \<Rightarrow> VectorClock \<Rightarrow> VectorClock" where
  "vc_tick tid vc =
     (let c = (if \<not> contains (clock vc) tid then sm_insert tid 0 (clock vc) else clock vc)
      in vc\<lparr>clock := sm_modify tid 0 (\<lambda>v. v + 1) c\<rparr>)"

definition vc_update_entry :: "nat \<times> u64 \<Rightarrow> (nat \<times> u64) list \<Rightarrow> (nat \<times> u64) list" where
  "vc_update_entry it c =
     (let timestamp = snd it; tid = fst it
      in if \<not> contains c tid \<or> sm_get 0 c tid < timestamp then sm_insert tid timestamp c else c)"

definition vc_update :: "VectorClock \<Rightarrow> VectorClock \<Rightarrow> VectorClock" where
  "vc_update vc this = this\<lparr>clock := fold vc_update_entry (clock vc) (clock this)\<rparr>"

text \<open>The loop of \<^verbatim>\<open>is_concurrent\<close> over the entries of the argument: (greater, lesser).\<close>

fun is_concurrent_loop :: "(nat \<times> u64) list \<Rightarrow> (nat \<times> u64) list \<Rightarrow> bool \<times> bool \<Rightarrow> bool \<times> bool" where
  "is_concurrent_loop c [] gl = gl"
| "is_concurrent_loop c ((tid, timestamp) # it) (greater0, lesser) =
     (case map_of c tid of
        None \<Rightarrow> is_concurrent_loop c it (greater0, True)
      | Some v \<Rightarrow>
          if v < timestamp then is_concurrent_loop c it (greater0, True)
          else if v > timestamp then is_concurrent_loop c it (True, lesser)
          else is_concurrent_loop c it (greater0, lesser))"

definition is_concurrent :: "VectorClock \<Rightarrow> VectorClock \<Rightarrow> bool" where
  "is_concurrent this vc =
     (case is_concurrent_loop (clock this) (clock vc) (False, False) of
        (greater0, lesser) \<Rightarrow>
          if \<not> lesser then False
          else if greater0 then True
          else (let greater0' = list_ex (\<lambda>it. \<not> contains (clock vc) (fst it)) (clock this)
                in greater0' \<and> lesser))"

section \<open>Well-formedness and lookup\<close>

definition vc_wf :: "VectorClock \<Rightarrow> bool" where
  "vc_wf vc \<longleftrightarrow> sm_wf (clock vc)"

definition vc_at :: "VectorClock \<Rightarrow> nat \<Rightarrow> u64 option" where
  "vc_at vc tid = map_of (clock vc) tid"

lemma vc_wf_new [simp, intro]: "vc_wf new_VectorClock"
  by (simp add: vc_wf_def new_VectorClock_def)

lemma vc_at_new [simp]: "vc_at new_VectorClock t = None"
  by (simp add: vc_at_def new_VectorClock_def)

lemma vc_wf_tick [intro]: "vc_wf vc \<Longrightarrow> vc_wf (vc_tick tid vc)"
  by (auto simp: vc_wf_def vc_tick_def Let_def)

lemma vc_at_tick [clock_simps]:
  "vc_at (vc_tick tid vc) t =
     (if t = tid then Some (case vc_at vc tid of None \<Rightarrow> 1 | Some v \<Rightarrow> v + 1) else vc_at vc t)"
  by (auto simp: vc_at_def vc_tick_def Let_def contains_def sm_get_def split: option.splits)

lemma sm_wf_update_entry: "sm_wf c \<Longrightarrow> sm_wf (vc_update_entry e c)"
  by (auto simp: vc_update_entry_def Let_def)

lemma vc_wf_update [intro]: "vc_wf this \<Longrightarrow> vc_wf (vc_update vc this)"
  by (auto simp: vc_wf_def vc_update_def intro!: fold_inv [where P = sm_wf] sm_wf_update_entry)

text \<open>The order of components: absent, then 0, 1, and so on.\<close>

fun comp_le :: "u64 option \<Rightarrow> u64 option \<Rightarrow> bool" where
  "comp_le None b = True"
| "comp_le (Some v) None = False"
| "comp_le (Some v) (Some w) = (v \<le> w)"

definition vc_le :: "VectorClock \<Rightarrow> VectorClock \<Rightarrow> bool" where
  "vc_le a b \<longleftrightarrow> (\<forall>t. comp_le (vc_at a t) (vc_at b t))"

fun comp_max :: "u64 option \<Rightarrow> u64 option \<Rightarrow> u64 option" where
  "comp_max None b = b"
| "comp_max (Some v) None = Some v"
| "comp_max (Some v) (Some w) = Some (max v w)"

lemma comp_le_refl [simp]: "comp_le a a"
  by (cases a) auto

lemma comp_le_trans: "comp_le a b \<Longrightarrow> comp_le b c \<Longrightarrow> comp_le a c"
  by (cases a; cases b; cases c) auto

lemma comp_le_antisym: "comp_le a b \<Longrightarrow> comp_le b a \<Longrightarrow> a = b"
  by (cases a; cases b) auto

lemma not_comp_le_Some: "\<not> comp_le (Some w) x \<longleftrightarrow> x = None \<or> (\<exists>v. x = Some v \<and> v < w)"
  by (cases x) auto

lemma comp_le_max: "comp_le (comp_max a b) c \<longleftrightarrow> comp_le a c \<and> comp_le b c"
  by (cases a; cases b; cases c) auto

lemma map_of_update_entry:
  "map_of (vc_update_entry (t, v) c) x = (if x = t then comp_max (map_of c t) (Some v) else map_of c x)"
  by (auto simp: vc_update_entry_def Let_def contains_def sm_get_def max_def split: option.splits)

lemma map_of_fold_update_entry:
  "distinct (map fst es) \<Longrightarrow>
   map_of (fold vc_update_entry es c) x = comp_max (map_of c x) (map_of es x)"
proof (induction es arbitrary: c)
  case Nil
  then show ?case by (cases "map_of c x") auto
next
  case (Cons e es)
  obtain t v where e: "e = (t, v)" by (cases e)
  have "map_of es t = None"
    using Cons.prems e by (simp add: map_of_None_iff)
  with Cons e show ?case
    by (cases "map_of c x"; cases "map_of es x") (auto simp: map_of_update_entry)
qed

lemma vc_at_update [clock_simps]:
  "vc_wf vc \<Longrightarrow> vc_at (vc_update vc this) t = comp_max (vc_at this t) (vc_at vc t)"
  by (simp add: vc_at_def vc_update_def vc_wf_def map_of_fold_update_entry sm_wf_distinct)

lemma vc_le_update_iff:
  "vc_wf b \<Longrightarrow> vc_le (vc_update b a) c \<longleftrightarrow> vc_le a c \<and> vc_le b c"
  by (auto simp: vc_le_def clock_simps comp_le_max)

section \<open>Concurrency\<close>

lemma is_concurrent_loop_eq:
  "is_concurrent_loop c es (g, l) =
     (g \<or> (\<exists>(t, v) \<in> set es. \<exists>w. map_of c t = Some w \<and> v < w),
      l \<or> (\<exists>(t, v) \<in> set es. \<not> comp_le (Some v) (map_of c t)))"
proof (induction c es "(g, l)" arbitrary: g l rule: is_concurrent_loop.induct)
  case (1 c g l)
  then show ?case by simp
next
  case (2 c t v es g l)
  show ?case
  proof (cases "map_of c t")
    case None
    with 2(1) show ?thesis by simp
  next
    case (Some w)
    consider "w < v" | "w > v" | "w = v" by fastforce
    then show ?thesis
      using Some 2(2-4) by cases auto
  qed
qed

lemma not_vc_le_iff:
  assumes "vc_wf b"
  shows "\<not> vc_le b a \<longleftrightarrow> (\<exists>(t, v) \<in> set (clock b). \<not> comp_le (Some v) (map_of (clock a) t))"
proof -
  have "\<not> vc_le b a \<longleftrightarrow> (\<exists>t v. map_of (clock b) t = Some v \<and> \<not> comp_le (Some v) (map_of (clock a) t))"
    unfolding vc_le_def vc_at_def by (metis comp_le.simps(1) option.exhaust)
  then show ?thesis
    using sm.bex_entry [of "clock b" "\<lambda>t v. \<not> comp_le (Some v) (map_of (clock a) t)"] assms
    by (simp add: vc_wf_def split_beta)
qed

lemma is_concurrent_iff [clock_simps]:
  assumes "vc_wf a" "vc_wf b"
  shows "is_concurrent a b \<longleftrightarrow> \<not> vc_le a b \<and> \<not> vc_le b a"
proof -
  let ?g = "\<exists>(t, v) \<in> set (clock b). \<exists>w. map_of (clock a) t = Some w \<and> v < w"
  let ?m = "\<exists>it \<in> set (clock a). \<not> contains (clock b) (fst it)"
  have g: "?g \<longleftrightarrow> (\<exists>t v w. map_of (clock b) t = Some v \<and> map_of (clock a) t = Some w \<and> v < w)"
    using sm.bex_entry [of "clock b" "\<lambda>t v. \<exists>w. map_of (clock a) t = Some w \<and> v < w"] assms
    by (simp add: vc_wf_def split_beta)
  have m: "?m \<longleftrightarrow> (\<exists>t w. map_of (clock a) t = Some w \<and> map_of (clock b) t = None)"
    using sm.bex_entry [of "clock a" "\<lambda>t v. \<not> contains (clock b) t"] assms
    by (simp add: vc_wf_def contains_def)
  have "\<not> vc_le a b \<longleftrightarrow> (\<exists>t w. map_of (clock a) t = Some w \<and> \<not> comp_le (Some w) (map_of (clock b) t))"
    unfolding vc_le_def vc_at_def by (metis comp_le.simps(1) option.exhaust)
  also have "\<dots> \<longleftrightarrow> ?g \<or> ?m"
    unfolding g m not_comp_le_Some by blast
  finally have le: "\<not> vc_le a b \<longleftrightarrow> ?g \<or> ?m" .
  show ?thesis
    unfolding le not_vc_le_iff [OF assms(2)]
    by (simp add: is_concurrent_def is_concurrent_loop_eq list_ex_iff Let_def)
qed

lemma vc_le_refl [simp]: "vc_le a a"
  by (simp add: vc_le_def)

lemma vc_le_trans: "vc_le a b \<Longrightarrow> vc_le b c \<Longrightarrow> vc_le a c"
  unfolding vc_le_def using comp_le_trans by blast

lemma vc_le_antisym: "vc_wf a \<Longrightarrow> vc_wf b \<Longrightarrow> vc_le a b \<Longrightarrow> vc_le b a \<Longrightarrow> a = b"
proof -
  assume wf: "vc_wf a" "vc_wf b" and le: "vc_le a b" "vc_le b a"
  have "map_of (clock a) = map_of (clock b)"
    using le unfolding vc_le_def vc_at_def fun_eq_iff by (blast intro: comp_le_antisym)
  then have "clock a = clock b"
    using wf by (auto simp: vc_wf_def intro: sm_ext)
  then show "a = b" by simp
qed

section \<open>Counters as numbers\<close>

text \<open>
  The value of a component as a natural number, 0 when absent. Components a clock holds are
  at least 1 as long as no counter wraps, and then \<open>vc_le\<close> is the pointwise order of these
  numbers.
\<close>

definition vc_nat :: "VectorClock \<Rightarrow> nat \<Rightarrow> nat" where
  "vc_nat vc t = (case vc_at vc t of None \<Rightarrow> 0 | Some v \<Rightarrow> unat v)"

definition vc_pos :: "VectorClock \<Rightarrow> bool" where
  "vc_pos vc \<longleftrightarrow> (\<forall>t v. vc_at vc t = Some v \<longrightarrow> 0 < v)"

lemma vc_pos_new [simp, intro]: "vc_pos new_VectorClock"
  by (simp add: vc_pos_def)

lemma vc_nat_new [simp]: "vc_nat new_VectorClock t = 0"
  by (simp add: vc_nat_def)

lemma vc_le_nat: "vc_pos a \<Longrightarrow> vc_le a b \<longleftrightarrow> (\<forall>t. vc_nat a t \<le> vc_nat b t)"
proof -
  assume pos: "vc_pos a"
  have "comp_le (vc_at a t) (vc_at b t) \<longleftrightarrow> vc_nat a t \<le> vc_nat b t" for t
    using pos unfolding vc_pos_def vc_nat_def
    by (cases "vc_at a t"; cases "vc_at b t") (auto simp: word_le_nat_alt word_less_nat_alt)
  then show ?thesis by (simp add: vc_le_def)
qed

lemma vc_nat_tick [clock_simps]:
  assumes "vc_nat vc tid < 2 ^ 64 - 1"
  shows "vc_nat (vc_tick tid vc) t = (if t = tid then vc_nat vc t + 1 else vc_nat vc t)"
  using assms by (auto simp: vc_nat_def clock_simps unat_word_ariths split: option.splits)

lemma vc_pos_tick:
  assumes "vc_pos vc" "vc_nat vc tid < 2 ^ 64 - 1"
  shows "vc_pos (vc_tick tid vc)"
proof -
  have "0 < v" if "vc_at (vc_tick tid vc) t = Some v" for t v
  proof (cases "t = tid")
    case True
    then have "unat v = vc_nat vc tid + 1"
      using vc_nat_tick [OF assms(2), of tid] that by (simp add: vc_nat_def)
    then show ?thesis by (simp add: word_less_nat_alt)
  next
    case False
    then show ?thesis using assms(1) that by (auto simp: vc_pos_def clock_simps)
  qed
  then show ?thesis by (simp add: vc_pos_def)
qed

lemma vc_nat_update [clock_simps]:
  "vc_wf vc \<Longrightarrow> vc_nat (vc_update vc this) t = max (vc_nat this t) (vc_nat vc t)"
  by (auto simp: vc_nat_def clock_simps max_def word_le_nat_alt split: option.splits)

lemma vc_pos_update: "vc_wf b \<Longrightarrow> vc_pos a \<Longrightarrow> vc_pos b \<Longrightarrow> vc_pos (vc_update b a)"
proof -
  assume *: "vc_wf b" "vc_pos a" "vc_pos b"
  have "0 < v" if "comp_max (vc_at a t) (vc_at b t) = Some v" for t v
    using that *(2,3) by (cases "vc_at a t"; cases "vc_at b t") (auto simp: vc_pos_def max_def split: if_splits)
  then show ?thesis by (auto simp: vc_pos_def clock_simps *(1))
qed

lemma is_concurrent_nat:
  assumes "vc_wf a" "vc_wf b" "vc_pos a" "vc_pos b"
  shows "is_concurrent a b \<longleftrightarrow>
    \<not> (\<forall>t. vc_nat a t \<le> vc_nat b t) \<and> \<not> (\<forall>t. vc_nat b t \<le> vc_nat a t)"
  using assms by (simp add: clock_simps vc_le_nat)

section \<open>Properties\<close>

text \<open>
  C27. \<^verbatim>\<open>is_concurrent\<close> decides incomparability: with its early exit and its second loop, it
  returns true exactly when neither clock is pointwise below the other, a component that is
  absent being below every present one.
\<close>
theorem is_concurrent_incomparable:
  assumes "vc_wf a" "vc_wf b"
  shows "is_concurrent a b \<longleftrightarrow> (\<exists>t. \<not> comp_le (vc_at a t) (vc_at b t)) \<and> (\<exists>t. \<not> comp_le (vc_at b t) (vc_at a t))"
  using assms by (simp add: is_concurrent_iff vc_le_def)

theorem is_concurrent_incomparable_witness:
  "is_concurrent \<lparr>clock = [(0, 3), (1, 2)]\<rparr> \<lparr>clock = [(0, 4)]\<rparr> \<and>
   \<not> is_concurrent \<lparr>clock = [(0, 3), (1, 2)]\<rparr> \<lparr>clock = [(0, 2)]\<rparr>"
proof -
  have wf: "vc_wf \<lparr>clock = [(0, 3), (1, 2)]\<rparr>" "vc_wf \<lparr>clock = [(0, 4)]\<rparr>" "vc_wf \<lparr>clock = [(0, 2)]\<rparr>"
    by (simp_all add: vc_wf_def sm_wf_def)
  have "is_concurrent \<lparr>clock = [(0, 3), (1, 2)]\<rparr> \<lparr>clock = [(0, 4)]\<rparr>"
    unfolding is_concurrent_incomparable [OF wf(1,2)]
    by (intro conjI exI [of _ 1] exI [of _ 0]) (simp_all add: vc_at_def)
  moreover have "\<not> is_concurrent \<lparr>clock = [(0, 3), (1, 2)]\<rparr> \<lparr>clock = [(0, 2)]\<rparr>"
    unfolding is_concurrent_incomparable [OF wf(1,3)] by (simp add: vc_at_def)
  ultimately show ?thesis ..
qed

text \<open>
  Merging is the least upper bound: the clock a join leaves is above both merged clocks
  and below every clock that is above both.
\<close>
theorem vc_update_least_upper_bound:
  assumes "vc_wf a" "vc_wf b"
  shows "vc_wf (vc_update b a) \<and> vc_le a (vc_update b a) \<and> vc_le b (vc_update b a) \<and>
    (\<forall>c. vc_le a c \<longrightarrow> vc_le b c \<longrightarrow> vc_le (vc_update b a) c)"
proof -
  have "vc_le a (vc_update b a) \<and> vc_le b (vc_update b a)"
    using vc_le_update_iff [OF assms(2), of a "vc_update b a"] by simp
  with vc_le_update_iff [OF assms(2), of a] vc_wf_update [OF assms(1)] show ?thesis by simp
qed

theorem vc_update_least_upper_bound_witness:
  "vc_le \<lparr>clock = [(0, 3)]\<rparr> (vc_update \<lparr>clock = [(1, 2)]\<rparr> \<lparr>clock = [(0, 3)]\<rparr>)"
  using vc_update_least_upper_bound [of "\<lparr>clock = [(0, 3)]\<rparr>" "\<lparr>clock = [(1, 2)]\<rparr>"]
  by (simp add: vc_wf_def sm_wf_def)

text \<open>
  Advancing one component strictly increases the clock and leaves the other components
  alone, as long as the 64-bit counter is not at its maximum; there it wraps to 0.
\<close>
lemma vc_tick_strict:
  assumes "vc_wf vc"
  shows "(vc_at vc tid \<noteq> Some (-1) \<longrightarrow> vc_le vc (vc_tick tid vc) \<and> \<not> vc_le (vc_tick tid vc) vc) \<and>
    (vc_at vc tid = Some (-1) \<longrightarrow> vc_at (vc_tick tid vc) tid = Some 0) \<and>
    (\<forall>t. t \<noteq> tid \<longrightarrow> vc_at (vc_tick tid vc) t = vc_at vc t)"
proof -
  have lt: "v < v + 1" if "v \<noteq> -1" for v :: u64
  proof -
    have "unat (-1 :: u64) = 2 ^ 64 - 1" by (simp add: unsigned_minus_1_eq_mask mask_eq_exp_minus_1)
    then have "unat v \<noteq> 2 ^ 64 - 1" using that by (metis word_unat_eq_iff)
    moreover have "unat v < 2 ^ 64" using unsigned_less [of v] by simp
    ultimately have "unat (v + 1) = unat v + 1"
      by (intro trans [OF unat_plus_no_wrap]) simp_all
    then show ?thesis by (simp add: word_less_nat_alt)
  qed
  then have "vc_le vc (vc_tick tid vc) \<and> \<not> vc_le (vc_tick tid vc) vc" if "vc_at vc tid \<noteq> Some (-1)"
    using that unfolding vc_le_def vc_at_tick
    by (cases "vc_at vc tid") (auto simp: not_less [symmetric] intro!: exI [of _ tid] dest: less_imp_le)
  then show ?thesis by (simp add: vc_at_tick)
qed

end
