(* ===== verification/Backtraces.thy ===== *)
theory Backtraces
  imports "HOL-Library.While_Combinator" StdMap Interning
begin

text \<open>
  Model of the backtrace part of \<^verbatim>\<open>src/src/utils.hpp\<close>: \<^verbatim>\<open>BacktraceComparator\<close>, the set of
  interned backtraces, \<^verbatim>\<open>GetBacktrace\<close> and the frame-pointer walk \<^verbatim>\<open>CustomBackTrace\<close>.
  A backtrace is a vector of addresses. The comparator compares lengths first and then the
  vectors' memory byte by byte (\<^verbatim>\<open>memcmp\<close>), which on the little-endian machine the tool
  runs on is not the numeric order of the addresses; it is shown to be a strict total
  order, as \<^verbatim>\<open>std::set\<close> requires, by making backtraces an instance of \<open>linorder\<close>.
\<close>

section \<open>The order of backtraces\<close>

datatype frames = Frames (frame_list: "u64 list")

definition le_bytes :: "u64 \<Rightarrow> u8 list" where
  "le_bytes w = map (\<lambda>i. ucast (drop_bit (8 * i) w)) [0..<8]"

definition memory_of :: "u64 list \<Rightarrow> u8 list" where
  "memory_of xs = concat (map le_bytes xs)"

text \<open>\<^verbatim>\<open>memcmp(a, b, n) < 0\<close> for two areas of the same length.\<close>

fun memcmp_less :: "u8 list \<Rightarrow> u8 list \<Rightarrow> bool" where
  "memcmp_less (a # as) (b # bs) = (if a < b then True else if b < a then False else memcmp_less as bs)"
| "memcmp_less _ _ = False"

definition BacktraceComparator :: "frames \<Rightarrow> frames \<Rightarrow> bool" where
  "BacktraceComparator r1 r2 =
     (if length (frame_list r1) = length (frame_list r2)
      then memcmp_less (memory_of (frame_list r1)) (memory_of (frame_list r2))
      else length (frame_list r1) < length (frame_list r2))"

lemma length_le_bytes [simp]: "length (le_bytes w) = 8"
  by (simp add: le_bytes_def)

lemma le_bytes_inj: "le_bytes v = le_bytes w \<Longrightarrow> v = w"
proof -
  assume eq: "le_bytes v = le_bytes w"
  have "bit v n \<longleftrightarrow> bit w n" if "n < 64" for n
  proof -
    have i: "n div 8 < 8" using that by simp
    have "le_bytes v ! (n div 8) = le_bytes w ! (n div 8)" using eq by simp
    then have "(ucast (drop_bit (8 * (n div 8)) v) :: u8) = ucast (drop_bit (8 * (n div 8)) w)"
      using i by (simp add: le_bytes_def del: upt_Suc)
    then have "bit (ucast (drop_bit (8 * (n div 8)) v) :: u8) (n mod 8)
        = bit (ucast (drop_bit (8 * (n div 8)) w) :: u8) (n mod 8)" by simp
    then show ?thesis by (simp add: bit_ucast_iff bit_drop_bit_eq)
  qed
  then show "v = w"
    by (auto simp: bit_eq_iff dest: bit_imp_le_length)
qed

lemma length_memory_of: "length (memory_of xs) = 8 * length xs"
  by (induction xs) (auto simp: memory_of_def)

lemma memory_of_inj: "length xs = length ys \<Longrightarrow> memory_of xs = memory_of ys \<Longrightarrow> xs = ys"
proof (induction xs ys rule: list_induct2)
  case Nil
  then show ?case by simp
next
  case (Cons x xs y ys)
  then have "le_bytes x = le_bytes y" "memory_of xs = memory_of ys"
    by (simp_all add: memory_of_def)
  with Cons show ?case by (auto dest: le_bytes_inj)
qed

lemma memcmp_less_irrefl: "\<not> memcmp_less xs xs"
  by (induction xs) auto

lemma memcmp_less_trans: "memcmp_less xs ys \<Longrightarrow> memcmp_less ys zs \<Longrightarrow> memcmp_less xs zs"
proof (induction xs ys arbitrary: zs rule: memcmp_less.induct)
  case (1 a as b bs)
  then obtain c cs where zs: "zs = c # cs" by (cases zs) auto
  from 1 show ?case
    unfolding zs by (auto split: if_splits)
qed auto

lemma memcmp_less_total:
  "length xs = length ys \<Longrightarrow> \<not> memcmp_less xs ys \<Longrightarrow> \<not> memcmp_less ys xs \<Longrightarrow> xs = ys"
  by (induction xs ys rule: list_induct2) (auto split: if_splits)

lemma BacktraceComparator_irrefl: "\<not> BacktraceComparator a a"
  by (simp add: BacktraceComparator_def memcmp_less_irrefl)

lemma BacktraceComparator_trans:
  "BacktraceComparator a b \<Longrightarrow> BacktraceComparator b c \<Longrightarrow> BacktraceComparator a c"
  by (auto simp: BacktraceComparator_def split: if_splits intro: memcmp_less_trans)

lemma BacktraceComparator_total:
  "\<not> BacktraceComparator a b \<Longrightarrow> \<not> BacktraceComparator b a \<Longrightarrow> a = b"
proof -
  assume *: "\<not> BacktraceComparator a b" "\<not> BacktraceComparator b a"
  then have len: "length (frame_list a) = length (frame_list b)"
    by (auto simp: BacktraceComparator_def split: if_splits)
  then have "memory_of (frame_list a) = memory_of (frame_list b)"
    using * by (intro memcmp_less_total) (auto simp: BacktraceComparator_def length_memory_of)
  with len show "a = b"
    by (simp add: frames.expand memory_of_inj)
qed

instantiation frames :: linorder
begin

definition less_frames :: "frames \<Rightarrow> frames \<Rightarrow> bool" where
  "less_frames a b = BacktraceComparator a b"

definition less_eq_frames :: "frames \<Rightarrow> frames \<Rightarrow> bool" where
  "less_eq_frames a b = (BacktraceComparator a b \<or> a = b)"

instance
proof
  note irrefl = BacktraceComparator_irrefl
  fix a b c :: frames
  show "a < b \<longleftrightarrow> a \<le> b \<and> \<not> b \<le> a"
    unfolding less_frames_def less_eq_frames_def using irrefl BacktraceComparator_trans by blast
  show "a \<le> a" by (simp add: less_eq_frames_def)
  show "a \<le> b \<Longrightarrow> b \<le> c \<Longrightarrow> a \<le> c"
    unfolding less_eq_frames_def using BacktraceComparator_trans by blast
  show "a \<le> b \<Longrightarrow> b \<le> a \<Longrightarrow> a = b"
    unfolding less_eq_frames_def using irrefl BacktraceComparator_trans by blast
  show "a \<le> b \<or> b \<le> a"
    unfolding less_eq_frames_def using BacktraceComparator_total by blast
qed

end

section \<open>Interned backtraces\<close>

text \<open>\<open>None\<close> is the null pointer.\<close>

type_synonym backtrace_t = "nat option"

record backtrace_heap =
  bt_objects :: "frames list"
  backtraces :: "nat list"

definition init_backtrace_heap :: backtrace_heap where
  "init_backtrace_heap = \<lparr>bt_objects = [], backtraces = []\<rparr>"

definition frames_at :: "backtrace_heap \<Rightarrow> nat \<Rightarrow> frames" where
  "frames_at h p = bt_objects h ! p"

text \<open>
  The set lookup and insertion of \<^verbatim>\<open>std::set<backtrace_t, BacktraceComparator>\<close>: an element
  is found when neither it nor the key is less than the other.
\<close>

definition backtraces_get :: "frames \<Rightarrow> backtrace_heap \<Rightarrow> nat \<times> backtrace_heap" where
  "backtraces_get vec h =
     (case find (\<lambda>p. \<not> BacktraceComparator (frames_at h p) vec \<and> \<not> BacktraceComparator vec (frames_at h p))
             (backtraces h) of
        Some p \<Rightarrow> (p, h)
      | None \<Rightarrow>
          (let p = length (bt_objects h); objs = bt_objects h @ [vec]
           in (p, h\<lparr>bt_objects := objs, backtraces := insort_key (\<lambda>q. objs ! q) p (backtraces h)\<rparr>)))"

text \<open>
  \<^verbatim>\<open>GetBacktrace\<close>: the instruction pointer of the context, then the shadow call stack from
  the innermost call outwards. The argument \<open>depth\<close> is not used by the code.
\<close>

definition GetBacktrace ::
  "u64 \<Rightarrow> u64 \<Rightarrow> u64 list \<Rightarrow> backtrace_heap \<Rightarrow> backtrace_t \<times> backtrace_heap" where
  "GetBacktrace ctxt_ip depth trace h =
     (case backtraces_get (Frames (ctxt_ip # rev trace)) h of (p, h') \<Rightarrow> (Some p, h'))"

definition bt_heap_wf :: "backtrace_heap \<Rightarrow> bool" where
  "bt_heap_wf h \<longleftrightarrow>
     (\<forall>p \<in> set (backtraces h). p < length (bt_objects h)) \<and>
     sorted_wrt (\<lambda>p q. BacktraceComparator (frames_at h p) (frames_at h q)) (backtraces h)"

lemma bt_heap_wf_init: "bt_heap_wf init_backtrace_heap"
  by (simp add: bt_heap_wf_def init_backtrace_heap_def)

lemma bt_heap_wf_sorted:
  "bt_heap_wf h \<longleftrightarrow> (\<forall>p \<in> set (backtraces h). p < length (bt_objects h)) \<and>
     sorted_wrt (<) (map (frames_at h) (backtraces h))"
  by (simp add: bt_heap_wf_def less_frames_def sorted_wrt_map)

lemma backtraces_get_cases:
  assumes "backtraces_get vec h = (p, h')"
  obtains (hit) "h' = h" "p \<in> set (backtraces h)" "frames_at h p = vec"
  | (miss) "p = length (bt_objects h)" "bt_objects h' = bt_objects h @ [vec]"
      "backtraces h' = insort_key (\<lambda>q. (bt_objects h @ [vec]) ! q) p (backtraces h)"
      "\<forall>q \<in> set (backtraces h). frames_at h q \<noteq> vec"
proof -
  let ?P = "\<lambda>p. \<not> BacktraceComparator (frames_at h p) vec \<and> \<not> BacktraceComparator vec (frames_at h p)"
  have P: "?P q \<longleftrightarrow> frames_at h q = vec" for q
    using BacktraceComparator_total BacktraceComparator_irrefl by blast
  show thesis
  proof (cases "find ?P (backtraces h)")
    case None
    then have "\<forall>q \<in> set (backtraces h). frames_at h q \<noteq> vec"
      by (simp add: find_None_iff P)
    moreover have "p = length (bt_objects h)" "bt_objects h' = bt_objects h @ [vec]"
      "backtraces h' = insort_key (\<lambda>q. (bt_objects h @ [vec]) ! q) p (backtraces h)"
      using None assms by (auto simp: backtraces_get_def Let_def)
    ultimately show thesis by (rule miss [rotated 3])
  next
    case (Some q)
    then have "q \<in> set (backtraces h)" "frames_at h q = vec"
      using find_SomeD [OF Some] P by blast+
    moreover have "p = q" "h' = h"
      using Some assms by (auto simp: backtraces_get_def)
    ultimately show thesis using hit by blast
  qed
qed

lemma map_insort_key: "map f (insort_key f x xs) = insort (f x) (map f xs)"
  by (induction xs) auto

interpretation btc: intern_table backtraces_get bt_objects
  "\<lambda>h. set (backtraces h)" id bt_heap_wf "\<lambda>_. True"
proof unfold_locales
  fix h vec p h'
  assume wf: "bt_heap_wf h" and g: "backtraces_get vec h = (p, h')"
  from g show "\<exists>ys. bt_objects h' = bt_objects h @ ys"
    and "insert p (set (backtraces h)) \<subseteq> set (backtraces h')"
    and "id (bt_objects h' ! p) = id vec"
    by (cases rule: backtraces_get_cases; auto simp: frames_at_def set_insort_key)+
  from g show "bt_heap_wf h'"
  proof (cases rule: backtraces_get_cases)
    case hit
    with wf show ?thesis by simp
  next
    case miss
    have old: "frames_at h' q = frames_at h q" if "q \<in> set (backtraces h)" for q
      using that wf miss by (simp add: bt_heap_wf_def frames_at_def nth_append)
    have at: "frames_at h' = (\<lambda>q. (bt_objects h @ [vec]) ! q)"
      using miss by (simp add: frames_at_def fun_eq_iff)
    have "map (frames_at h') (backtraces h') = insort vec (map (frames_at h') (backtraces h))"
      using miss(1) unfolding miss(3) at map_insort_key by simp
    also have "map (frames_at h') (backtraces h) = map (frames_at h) (backtraces h)"
      using old by simp
    finally have "map (frames_at h') (backtraces h') = insort vec (map (frames_at h) (backtraces h))" .
    moreover have "vec \<notin> set (map (frames_at h) (backtraces h))"
      using miss by auto
    ultimately show ?thesis
      using wf miss by (auto simp: bt_heap_wf_sorted set_insort_key less_Suc_eq strict_sorted_iff
          sorted_insort distinct_insort)
  qed
next
  fix h p q
  assume "bt_heap_wf h" "p \<in> set (backtraces h)" "q \<in> set (backtraces h)"
    and "id (bt_objects h ! p) = id (bt_objects h ! q)"
  then show "p = q"
    by (auto simp: bt_heap_wf_sorted strict_sorted_iff distinct_map inj_on_def frames_at_def)
qed (auto simp: bt_heap_wf_def)

definition bt_valid :: "backtrace_heap \<Rightarrow> backtrace_t \<Rightarrow> bool" where
  "bt_valid h b \<longleftrightarrow> (\<forall>p. b = Some p \<longrightarrow> p < length (bt_objects h))"

definition bt_extends :: "backtrace_heap \<Rightarrow> backtrace_heap \<Rightarrow> bool" where
  "bt_extends h h' \<longleftrightarrow> (\<exists>ys. bt_objects h' = bt_objects h @ ys)"

lemma bt_extends_refl [simp, intro]: "bt_extends h h"
  by (simp add: bt_extends_def)

lemma bt_extends_trans [trans]: "bt_extends a b \<Longrightarrow> bt_extends b c \<Longrightarrow> bt_extends a c"
  by (auto simp: bt_extends_def)

lemma bt_extends_valid: "bt_extends h h' \<Longrightarrow> bt_valid h p \<Longrightarrow> bt_valid h' p"
  by (auto simp: bt_extends_def bt_valid_def)

lemma GetBacktrace_spec:
  assumes "bt_heap_wf h" "GetBacktrace ip d st h = (b, h')"
  shows "bt_heap_wf h'" "bt_extends h h'" "bt_valid h' b"
    "\<exists>p. b = Some p \<and> frames_at h' p = Frames (ip # rev st)"
proof -
  obtain p where g: "backtraces_get (Frames (ip # rev st)) h = (p, h')" and b: "b = Some p"
    using assms(2) by (auto simp: GetBacktrace_def split: prod.splits)
  show "bt_heap_wf h'" "bt_extends h h'" "bt_valid h' b"
    "\<exists>p. b = Some p \<and> frames_at h' p = Frames (ip # rev st)"
    using btc.wf_get [OF assms(1) _ g] btc.get_objects [OF assms(1) _ g]
      btc.get_bound [OF assms(1) _ g] btc.get_val [OF assms(1) _ g] b
    by (auto simp: bt_extends_def bt_valid_def frames_at_def)
qed

section \<open>The frame-pointer walk\<close>

text \<open>
  \<^verbatim>\<open>CustomBackTrace\<close> (its call is commented out in the code): \<open>mem\<close> reads a 64-bit word of
  the traced program's memory, which may hold anything, a cycle of frame pointers included;
  \<open>i\<close> counts the addresses written so far. The pointer difference counts 8-byte words. A loop
  that does not end would be \<open>None\<close>.
\<close>

definition too_far :: "u64 \<Rightarrow> u64 \<Rightarrow> bool" where
  "too_far frame_ptr stack_ptr \<longleftrightarrow> (max frame_ptr stack_ptr - min frame_ptr stack_ptr) div 8 > 0x10000"

definition CustomBackTrace_loop ::
  "(u64 \<Rightarrow> u64) \<Rightarrow> u64 \<Rightarrow> u64 \<times> u64 \<times> u64 \<times> u64 list \<Rightarrow> (u64 \<times> u64 \<times> u64 \<times> u64 list) option" where
  "CustomBackTrace_loop mem depth = while_option
     (\<lambda>(i, frame_ptr, stack_ptr, addresses). i < depth \<and> frame_ptr \<noteq> 0 \<and> \<not> too_far frame_ptr stack_ptr)
     (\<lambda>(i, frame_ptr, stack_ptr, addresses). (i + 1, mem frame_ptr, frame_ptr, addresses @ [mem (frame_ptr + 8)]))"

definition CustomBackTrace :: "(u64 \<Rightarrow> u64) \<Rightarrow> u64 \<Rightarrow> u64 \<Rightarrow> u64 \<Rightarrow> u64 \<Rightarrow> u64 list option" where
  "CustomBackTrace mem inst_ptr rbp rsp depth =
     (if depth = 0 then Some []
      else if inst_ptr = 0 then Some []
      else if depth = 1 then Some [inst_ptr]
      else map_option (\<lambda>(_, _, _, addresses). addresses) (CustomBackTrace_loop mem depth (1, rbp, rsp, [inst_ptr])))"

text \<open>The chain of frame pointers, and the pointer each is compared with.\<close>

definition frame :: "(u64 \<Rightarrow> u64) \<Rightarrow> u64 \<Rightarrow> nat \<Rightarrow> u64" where
  "frame mem rbp k = (mem ^^ k) rbp"

definition below :: "(u64 \<Rightarrow> u64) \<Rightarrow> u64 \<Rightarrow> u64 \<Rightarrow> nat \<Rightarrow> u64" where
  "below mem rbp rsp k = (case k of 0 \<Rightarrow> rsp | Suc j \<Rightarrow> frame mem rbp j)"

lemma CustomBackTrace_loop_returns:
  assumes "1 \<le> depth"
  shows "\<exists>n. CustomBackTrace_loop mem depth (1, rbp, rsp, [ip]) =
      Some (1 + of_nat n, frame mem rbp n, below mem rbp rsp n, ip # map (\<lambda>k. mem (frame mem rbp k + 8)) [0..<n]) \<and>
    n < unat depth \<and> (Suc n = unat depth \<or> frame mem rbp n = 0 \<or> too_far (frame mem rbp n) (below mem rbp rsp n))"
proof -
  let ?st = "\<lambda>n. (1 + of_nat n, frame mem rbp n, below mem rbp rsp n, ip # map (\<lambda>k. mem (frame mem rbp k + 8)) [0..<n])"
  let ?b = "\<lambda>(i, frame_ptr, stack_ptr, addresses :: u64 list). i < depth \<and> frame_ptr \<noteq> 0 \<and> \<not> too_far frame_ptr stack_ptr"
  let ?c = "\<lambda>(i, frame_ptr, stack_ptr, addresses). (i + 1, mem frame_ptr, frame_ptr, addresses @ [mem (frame_ptr + 8)])"
  let ?P = "\<lambda>s. \<exists>n. s = ?st n \<and> n < unat depth"
  have small: "unat (1 + of_nat n :: u64) = Suc n" if "n < unat depth" for n
  proof -
    have "Suc n < 2 ^ 64" using that unsigned_less [of depth, where ?'a = nat] by simp
    then have "unat (of_nat (Suc n) :: u64) = Suc n" by (intro unat_of_nat_small) simp
    then show ?thesis by simp
  qed
  have step: "?P (?c s)" if "?P s" "?b s" for s
  proof -
    from that obtain n where n: "s = ?st n" "n < unat depth" by blast
    have "Suc n < unat depth" using that(2) small [OF n(2)] by (simp add: n(1) word_less_nat_alt)
    moreover have "?c (?st n) = ?st (Suc n)" by (simp add: frame_def below_def ac_simps)
    ultimately show "?P (?c s)" unfolding n(1) by blast
  qed
  have "\<exists>t. while_option ?b ?c (?st 0) = Some t"
  proof (rule measure_while_option_Some [where P = ?P and f = "\<lambda>(i, _). unat depth - unat i"])
    fix s assume s: "?P s" "?b s"
    then obtain n where n: "s = ?st n" "n < unat depth" by blast
    have lt: "Suc n < unat depth" using s(2) small [OF n(2)] by (simp add: n(1) word_less_nat_alt)
    show "?P (?c s) \<and> (\<lambda>(i, _). unat depth - unat i) (?c s) < (\<lambda>(i, _). unat depth - unat i) s"
      using step [OF s] small [OF n(2)] small [of "Suc n"] lt by (simp add: n(1) ac_simps)
  qed (use assms in \<open>auto simp: frame_def below_def word_le_nat_alt intro!: exI [of _ 0]\<close>)
  then obtain t where t: "while_option ?b ?c (?st 0) = Some t" by blast
  have "?P t"
  proof (rule while_option_rule [where P = ?P, OF _ t])
    show "?P (?st 0)" using assms by (auto simp: word_le_nat_alt intro!: exI [of _ 0])
  qed (rule step)
  then obtain n where n: "t = ?st n" "n < unat depth" by blast
  have "\<not> ?b t" by (rule while_option_stop [OF t])
  then have "Suc n = unat depth \<or> frame mem rbp n = 0 \<or> too_far (frame mem rbp n) (below mem rbp rsp n)"
    using small [OF n(2)] n(2) by (auto simp: n(1) word_less_nat_alt)
  with t n show ?thesis by (auto simp: CustomBackTrace_loop_def frame_def below_def)
qed

section \<open>Properties\<close>

text \<open>
  C33. \<^verbatim>\<open>BacktraceComparator\<close>, which compares lengths and then raw memory with \<^verbatim>\<open>memcmp\<close>, is
  a strict total order, as \<^verbatim>\<open>std::set\<close> requires: it is irreflexive and transitive, and two
  backtraces neither of which is less than the other are equal.
\<close>
theorem BacktraceComparator_strict_total_order:
  "\<not> BacktraceComparator a a \<and> (BacktraceComparator a b \<longrightarrow> BacktraceComparator b c \<longrightarrow> BacktraceComparator a c) \<and>
   (BacktraceComparator a b \<or> a = b \<or> BacktraceComparator b a)"
  using BacktraceComparator_irrefl BacktraceComparator_trans BacktraceComparator_total by blast

theorem BacktraceComparator_strict_total_order_witness:
  "BacktraceComparator (Frames [0x100, 5]) (Frames [0x1, 3]) \<and>
   BacktraceComparator (Frames [0x1, 3]) (Frames [0x1, 4]) \<and> BacktraceComparator (Frames [0x100, 5]) (Frames [0x1, 4])"
proof -
  have 1: "BacktraceComparator (Frames [0x100, 5]) (Frames [0x1, 3])"
    "BacktraceComparator (Frames [0x1, 3]) (Frames [0x1, 4])"
    by (simp_all add: BacktraceComparator_def memory_of_def le_bytes_def upt_rec)
  with BacktraceComparator_strict_total_order [of "Frames [0x100, 5]" "Frames [0x1, 3]" "Frames [0x1, 4]"]
  show ?thesis by blast
qed

text \<open>
  C32. Interning of backtraces: over any sequence of lookups from the start, two returned
  pointers are equal exactly when the frames are, although the set is searched with the
  comparator only; the object behind a pointer holds the requested frames.
\<close>
theorem backtrace_pointers_canonical:
  assumes "intern_all backtraces_get xs init_backtrace_heap = (ps, h)" and "i < length xs" "j < length xs"
  shows "(ps ! i = ps ! j \<longleftrightarrow> xs ! i = xs ! j) \<and> frames_at h (ps ! i) = xs ! i"
  using btc.intern_all_eq_iff [OF assms(1) bt_heap_wf_init _ assms(2,3)]
    btc.intern_all_spec [OF assms(1) bt_heap_wf_init] assms(2) by (simp add: frames_at_def)

theorem backtrace_pointers_canonical_witness:
  "\<exists>ps h. intern_all backtraces_get [Frames [1, 2], Frames [3], Frames [1, 2]] init_backtrace_heap = (ps, h) \<and>
     ps ! 0 = ps ! 2 \<and> ps ! 0 \<noteq> ps ! 1"
proof -
  obtain ps h where r: "intern_all backtraces_get [Frames [1, 2], Frames [3], Frames [1, 2]] init_backtrace_heap = (ps, h)"
    by fastforce
  from backtrace_pointers_canonical [OF r, of 0 2] backtrace_pointers_canonical [OF r, of 0 1] r show ?thesis by simp
qed

text \<open>
  C34. A recorded backtrace is the instruction pointer followed by the whole shadow call
  stack, innermost call first: its length is the depth of the call stack plus one whatever
  the option \<^verbatim>\<open>bt-depth\<close> says, and pointers returned earlier keep their frames.
\<close>
theorem GetBacktrace_full_stack:
  assumes "bt_heap_wf h" "GetBacktrace ip depth trace h = (b, h')"
  shows "\<exists>p. b = Some p \<and> frame_list (frames_at h' p) = ip # rev trace \<and>
    length (frame_list (frames_at h' p)) = length trace + 1 \<and> bt_heap_wf h' \<and>
    (\<forall>q. q < length (bt_objects h) \<longrightarrow> frames_at h' q = frames_at h q)"
proof -
  note s = GetBacktrace_spec [OF assms]
  from s(2) have "\<forall>q. q < length (bt_objects h) \<longrightarrow> frames_at h' q = frames_at h q"
    by (auto simp: bt_extends_def frames_at_def nth_append)
  with s(1,4) show ?thesis by auto
qed

theorem GetBacktrace_full_stack_witness:
  "\<exists>b h' p. GetBacktrace 7 1 [10, 20, 30] init_backtrace_heap = (b, h') \<and> b = Some p \<and>
     frame_list (frames_at h' p) = [7, 30, 20, 10]"
proof -
  obtain b h' where r: "GetBacktrace 7 1 [10, 20, 30] init_backtrace_heap = (b, h')" by fastforce
  from GetBacktrace_full_stack [OF bt_heap_wf_init r] r show ?thesis by auto
qed

text \<open>
  C31. The frame-pointer walk ends whatever the stack holds, a cycle of frame pointers
  included, and writes at most \<open>depth\<close> addresses into the buffer of its caller: the instruction
  pointer and the return addresses along the chain, up to the end of the buffer, a null
  pointer, or a jump of more than \<open>0x10000\<close> words.
\<close>
theorem CustomBackTrace_returns:
  "\<exists>addresses. CustomBackTrace mem inst_ptr rbp rsp depth = Some addresses \<and> length addresses \<le> unat depth \<and>
     (if depth = 0 \<or> inst_ptr = 0 then addresses = []
      else \<exists>n. addresses = inst_ptr # map (\<lambda>k. mem (frame mem rbp k + 8)) [0..<n] \<and>
        (Suc n = unat depth \<or> frame mem rbp n = 0 \<or> too_far (frame mem rbp n) (below mem rbp rsp n)))"
proof (cases "depth = 0 \<or> inst_ptr = 0 \<or> depth = 1")
  case True
  then show ?thesis by (auto simp: CustomBackTrace_def intro!: exI [of _ 0])
next
  case False
  then have "1 \<le> depth" by (simp add: word_le_nat_alt unat_gt_0 Suc_le_eq)
  from CustomBackTrace_loop_returns [OF this, of mem rbp rsp inst_ptr] obtain n where
    "CustomBackTrace_loop mem depth (1, rbp, rsp, [inst_ptr]) =
      Some (1 + of_nat n, frame mem rbp n, below mem rbp rsp n, inst_ptr # map (\<lambda>k. mem (frame mem rbp k + 8)) [0..<n])"
    "n < unat depth" "Suc n = unat depth \<or> frame mem rbp n = 0 \<or> too_far (frame mem rbp n) (below mem rbp rsp n)" by blast
  with False show ?thesis by (auto simp: CustomBackTrace_def)
qed

end
