(* ===== verification/PMAlloc.thy ===== *)
theory PMAlloc
  imports Prelude "HOL-Library.Sublist"
begin

text \<open>
  Model of the allocation tracking in \<^verbatim>\<open>src/src/utils.hpp\<close>: the list \<^verbatim>\<open>allocs\<close> of mapped
  persistent-memory regions, filled by the system-call callbacks \<^verbatim>\<open>SysBefore\<close> and
  \<^verbatim>\<open>SysAfter\<close>, and the test \<^verbatim>\<open>IsPMAddress\<close> every memory handler starts with. The
  operating system is the parameter \<open>readlink\<close> (the target of \<^verbatim>\<open>/proc/self/fd/N\<close>, \<open>None\<close>
  for the return value -1). Addresses and sizes are 64-bit words.
\<close>

record PMAllocation =
  alloc_size :: u64
  alloc_start :: u64
  alloc_end :: u64
  alloc_path :: string
  alloc_flags :: u64
  alloc_prot :: u64
  unmapped :: bool

definition new_PMAllocation :: "u64 \<Rightarrow> string \<Rightarrow> u64 \<Rightarrow> u64 \<Rightarrow> PMAllocation" where
  "new_PMAllocation sz path flags prot =
     \<lparr>alloc_size = sz, alloc_start = 0, alloc_end = sz, alloc_path = path,
      alloc_flags = flags, alloc_prot = prot, unmapped = False\<rparr>"

definition set_start :: "u64 \<Rightarrow> PMAllocation \<Rightarrow> PMAllocation" where
  "set_start new_start a = a\<lparr>alloc_start := new_start, alloc_end := new_start + alloc_size a\<rparr>"

text \<open>\<open>found_alloc\<close> is one flag for the whole process, not one per thread.\<close>

record alloc_state =
  allocs :: "PMAllocation list"
  found_alloc :: bool

definition init_alloc_state :: alloc_state where
  "init_alloc_state = \<lparr>allocs = [], found_alloc = False\<rparr>"

datatype syscall = SYS_mmap | SYS_munmap | SYS_other nat

section \<open>Does a descriptor point into the PM mount?\<close>

abbreviation NUL :: char where "NUL \<equiv> CHR 0x00"

text \<open>
  The caller's 1000-byte array \<^verbatim>\<open>file_path\<close>; a byte no one has written is \<open>None\<close>. Reading such a byte,
  and reading or writing outside the array, is undefined.
\<close>

type_synonym buffer = "char option list"

definition put_char :: "int \<Rightarrow> char \<Rightarrow> buffer \<Rightarrow> hs_error + buffer" where
  "put_char i ch buf =
     (if 0 \<le> i \<and> nat i < length buf then Inr (buf[nat i := Some ch]) else Inl (Undefined ''write out of bounds''))"

definition get_char :: "int \<Rightarrow> buffer \<Rightarrow> hs_error + char" where
  "get_char i buf =
     (if 0 \<le> i \<and> nat i < length buf
      then (case buf ! nat i of None \<Rightarrow> Inl (Undefined ''read of an indeterminate byte'') | Some ch \<Rightarrow> Inr ch)
      else Inl (Undefined ''read out of bounds''))"

text \<open>\<^verbatim>\<open>std::string(file_path)\<close>: the characters up to the first terminator.\<close>

fun c_string :: "buffer \<Rightarrow> hs_error + string" where
  "c_string [] = Inl (Undefined ''read out of bounds'')"
| "c_string (None # buf) = Inl (Undefined ''read of an indeterminate byte'')"
| "c_string (Some ch # buf) = (if ch = NUL then Inr [] else bindE (c_string buf) (\<lambda>str. Inr (ch # str)))"

text \<open>
  \<^verbatim>\<open>readlink\<close> of the operating system: it writes at most \<open>n\<close> bytes, no terminator among them, and returns
  how many, or -1 when the link cannot be resolved (\<open>None\<close>).
\<close>

definition readlink_into :: "string option \<Rightarrow> nat \<Rightarrow> buffer \<Rightarrow> int \<times> buffer" where
  "readlink_into target n buf =
     (case target of
        None \<Rightarrow> (-1, buf)
      | Some path \<Rightarrow> (int (length (take n path)), map Some (take n path) @ drop (length (take n path)) buf))"

text \<open>The comparison loop over the mount string and the buffer.\<close>

function mount_loop :: "string \<Rightarrow> buffer \<Rightarrow> int \<Rightarrow> nat \<Rightarrow> hs_error + bool" where
  "mount_loop pm_mount file_path sz i =
     (if i < length pm_mount \<and> pm_mount ! i \<noteq> NUL \<and> int i \<le> sz then
        bindE (get_char (int i) file_path) (\<lambda>ch.
          if pm_mount ! i \<noteq> ch then Inr False
          else mount_loop pm_mount file_path sz (i + 1))
      else Inr True)"
  by pat_completeness auto
termination
  by (relation "measure (\<lambda>(pm, _, _, i). length pm - i)") auto

declare mount_loop.simps [simp del]

text \<open>
  The terminator is stored at index \<open>size\<close> before \<open>size\<close> is compared with -1, and the path is logged in between.
  The result is that of the function and the string in the array, which the caller passes on.
\<close>

definition FDPointsToPM ::
  "(int \<Rightarrow> string option) \<Rightarrow> string \<Rightarrow> int \<Rightarrow> hs_error + (bool \<times> string)" where
  "FDPointsToPM readlink pm_mount fd =
     (case readlink_into (readlink fd) 1000 (replicate 1000 None) of
        (sz, buf) \<Rightarrow>
          bindE (put_char sz NUL buf) (\<lambda>file_path.
          bindE (c_string file_path) (\<lambda>path.
            if sz \<noteq> -1 then bindE (mount_loop pm_mount file_path sz 0) (\<lambda>b. Inr (b, path))
            else Inr (False, path))))"

section \<open>System calls\<close>

definition SysBefore ::
  "(int \<Rightarrow> string option) \<Rightarrow> string \<Rightarrow> syscall \<Rightarrow> u64 \<Rightarrow> u64 \<Rightarrow> u64 \<Rightarrow> u64 \<Rightarrow> u64
     \<Rightarrow> alloc_state \<Rightarrow> hs_error + alloc_state" where
  "SysBefore readlink pm_mount num sz flags fd prot address st =
     (let st1 = (if num = SYS_munmap
                 then st\<lparr>allocs := map (\<lambda>alloc. if alloc_start alloc = address \<and> alloc_size alloc = sz
                                             then alloc\<lparr>unmapped := True\<rparr> else alloc) (allocs st)\<rparr>
                 else st)
      in if num = SYS_mmap \<and> ((flags AND 1 = 1) \<or> (flags AND 3 = 3))
         then bindE (FDPointsToPM readlink pm_mount (sint (ucast fd :: 32 word)))
                (\<lambda>(b, file_path).
                   if b then Inr (st1\<lparr>allocs := allocs st1 @ [new_PMAllocation sz file_path flags prot],
                                      found_alloc := True\<rparr>)
                   else Inr st1)
         else Inr st1)"

definition SysAfter :: "u64 \<Rightarrow> alloc_state \<Rightarrow> alloc_state" where
  "SysAfter return_value st =
     (if found_alloc st then
        if return_value = -1 then st\<lparr>allocs := butlast (allocs st), found_alloc := False\<rparr>
        else st\<lparr>allocs := butlast (allocs st) @ [set_start return_value (last (allocs st))],
                found_alloc := False\<rparr>
      else st)"

text \<open>The argument order of the callback: arguments 1, 3, 4, 2 and 0 of the system call.\<close>

definition SyscallEntry ::
  "(int \<Rightarrow> string option) \<Rightarrow> string \<Rightarrow> syscall \<Rightarrow> (nat \<Rightarrow> u64) \<Rightarrow> alloc_state \<Rightarrow> hs_error + alloc_state" where
  "SyscallEntry readlink pm_mount num arg st =
     SysBefore readlink pm_mount num (arg 1) (arg 3) (arg 4) (arg 2) (arg 0) st"

definition SyscallExit :: "u64 \<Rightarrow> alloc_state \<Rightarrow> alloc_state" where
  "SyscallExit ret st = SysAfter ret st"

definition in_allocation :: "u64 \<Rightarrow> u64 \<Rightarrow> PMAllocation \<Rightarrow> bool" where
  "in_allocation address range_end allocation \<longleftrightarrow>
     \<not> unmapped allocation \<and> address \<ge> alloc_start allocation \<and> range_end \<le> alloc_end allocation"

definition IsPMAddress :: "u64 \<Rightarrow> u32 \<Rightarrow> alloc_state \<Rightarrow> bool" where
  "IsPMAddress address sz st =
     (let range_end = address + ucast sz in list_ex (in_allocation address range_end) (allocs st))"

section \<open>Lemmas\<close>

text \<open>What \<^verbatim>\<open>readlink\<close> and the terminator leave in the array, and what the loop makes of it.\<close>

definition terminated :: "string \<Rightarrow> buffer \<Rightarrow> buffer" where
  "terminated path rest = map Some (path @ [NUL]) @ rest"

lemma get_char_terminated:
  "i \<le> length path \<Longrightarrow> get_char (int i) (terminated path rest) = Inr ((path @ [NUL]) ! i)"
  by (auto simp: get_char_def terminated_def nth_append)

lemma c_string_terminated: "NUL \<notin> set path \<Longrightarrow> c_string (terminated path rest) = Inr path"
  unfolding terminated_def by (induction path) auto

lemma readlink_terminated:
  assumes "length path < n"
  shows "\<exists>buf. readlink_into (Some path) n (replicate n None) = (int (length path), buf) \<and>
    put_char (int (length path)) NUL buf = Inr (terminated path (replicate (n - Suc (length path)) None))"
proof -
  have "drop (length path) (replicate n (None :: char option)) = None # replicate (n - Suc (length path)) None"
    using assms by (simp add: Suc_diff_Suc flip: replicate_Suc)
  then show ?thesis
    using assms by (simp add: readlink_into_def put_char_def terminated_def list_update_append del: drop_replicate)
qed

lemma mount_loop_prefix:
  assumes "NUL \<notin> set pm" "NUL \<notin> set path" "i \<le> length pm" "i \<le> length path"
    and "take i pm = take i path"
  shows "mount_loop pm (terminated path rest) (int (length path)) i = Inr (prefix pm path)"
  using assms
proof (induction "length pm - i" arbitrary: i)
  case 0
  then have "i = length pm" by simp
  moreover have "prefix pm path"
    using 0 \<open>i = length pm\<close> by (metis order_refl take_all take_is_prefix)
  ultimately show ?case
    by (subst mount_loop.simps) simp
next
  case (Suc n)
  then have i: "i < length pm" by simp
  have nn: "pm ! i \<noteq> NUL" using i Suc.prems(1) by (metis nth_mem)
  note read = get_char_terminated [OF Suc.prems(4)]
  show ?case
  proof (cases "i < length path \<and> pm ! i = path ! i")
    case True
    then have "take (Suc i) pm = take (Suc i) path"
      using i Suc.prems(5) by (simp add: take_Suc_conv_app_nth)
    then have "mount_loop pm (terminated path rest) (int (length path)) (Suc i) = Inr (prefix pm path)"
      using Suc.hyps(1) [of "Suc i"] Suc.hyps(2) Suc.prems i True by simp
    then show ?thesis
      using i nn True by (subst mount_loop.simps) (simp add: read nth_append)
  next
    case False
    have "\<not> prefix pm path"
    proof
      assume "prefix pm path"
      then obtain zs where "path = pm @ zs" by (auto simp: prefix_def)
      with False i show False by (simp add: nth_append)
    qed
    moreover have "pm ! i \<noteq> (path @ [NUL]) ! i"
      using False Suc.prems(4) nn by (auto simp: nth_append not_less)
    ultimately show ?thesis
      using i nn Suc.prems(4) by (subst mount_loop.simps) (simp add: read)
  qed
qed

lemma FDPointsToPM_resolved:
  assumes "readlink fd = Some path" "NUL \<notin> set mnt" "NUL \<notin> set path" "length path < 1000"
  shows "FDPointsToPM readlink mnt fd = Inr (prefix mnt path, path)"
proof -
  obtain buf where "readlink_into (Some path) 1000 (replicate 1000 None) = (int (length path), buf)"
      "put_char (int (length path)) NUL buf = Inr (terminated path (replicate (1000 - Suc (length path)) None))"
    using readlink_terminated [OF assms(4)] by blast
  then show ?thesis
    using mount_loop_prefix [of mnt path 0] assms(1-3) by (simp add: FDPointsToPM_def c_string_terminated)
qed

text \<open>A link that is not resolved gives index -1, and one that fills the array the index after its last.\<close>

lemma FDPointsToPM_not_terminated:
  assumes "case readlink fd of None \<Rightarrow> True | Some path \<Rightarrow> 1000 \<le> length path"
  shows "FDPointsToPM readlink mnt fd = Inl (Undefined ''write out of bounds'')"
proof -
  obtain sz buf where sz: "readlink_into (readlink fd) 1000 (replicate 1000 None) = (sz, buf)" by fastforce
  then have "sz = -1 \<or> sz = 1000" "length buf = 1000"
    using assms by (auto simp: readlink_into_def split: option.splits)
  then show ?thesis by (auto simp: FDPointsToPM_def sz put_char_def)
qed

lemma IsPMAddress_iff:
  "IsPMAddress a n st \<longleftrightarrow> (\<exists>al \<in> set (allocs st). in_allocation a (a + ucast n) al)"
  by (simp add: IsPMAddress_def list_ex_iff)

lemma shared_flag: "(flags AND 1 = 1) \<or> (flags AND 3 = (3::u64)) \<longleftrightarrow> bit flags 0"
proof -
  have "flags AND 1 = 1 \<longleftrightarrow> bit flags 0"
    by (simp add: and_one_eq odd_iff_mod_2_eq_one [symmetric] bit_0)
  moreover have "bit flags 0" if "flags AND 3 = (3::u64)"
  proof -
    have "odd (flags AND 3)" using that by simp
    then show ?thesis by (simp add: even_and_iff bit_0)
  qed
  ultimately show ?thesis by blast
qed

lemma mmap_shared_eq:
  assumes "flags AND 1 = 1" "FDPointsToPM readlink mnt (sint (ucast fd :: 32 word)) = Inr (True, path)"
  shows "SysBefore readlink mnt SYS_mmap sz flags fd prot addr st =
    Inr (st\<lparr>allocs := allocs st @ [new_PMAllocation sz path flags prot], found_alloc := True\<rparr>)"
  using assms by (simp add: SysBefore_def)

section \<open>Properties\<close>

text \<open>
  C36. The mount test, on every outcome of \<^verbatim>\<open>readlink\<close>. For a descriptor whose target is shorter than the
  1000-byte array, \<^verbatim>\<open>FDPointsToPM\<close> reads only bytes it has written, inside the array, and decides whether the
  mount point is a prefix of the target (of its characters, not of its path components). For a target of
  1000 bytes or more, and for a descriptor that cannot be resolved, the terminator is written outside the array.
\<close>
theorem FDPointsToPM_exactly:
  assumes "NUL \<notin> set mnt" "pred_option (\<lambda>path. NUL \<notin> set path) (readlink fd)"
  shows "FDPointsToPM readlink mnt fd =
    (case readlink fd of
       Some path \<Rightarrow> if length path < 1000 then Inr (prefix mnt path, path) else Inl (Undefined ''write out of bounds'')
     | None \<Rightarrow> Inl (Undefined ''write out of bounds''))"
proof (cases "readlink fd")
  case None
  then show ?thesis using FDPointsToPM_not_terminated [of readlink fd] by simp
next
  case (Some path)
  with assms FDPointsToPM_resolved [of readlink fd path mnt] FDPointsToPM_not_terminated [of readlink fd] show ?thesis by simp
qed

theorem FDPointsToPM_exactly_witness:
  "FDPointsToPM (\<lambda>_. Some ''/mnt/pmem01/x'') ''/mnt/pmem0'' 3 = Inr (True, ''/mnt/pmem01/x'') \<and>
   FDPointsToPM (\<lambda>_. Some ''/dev/shm/x'') ''/mnt/pmem0'' 3 = Inr (False, ''/dev/shm/x'') \<and>
   FDPointsToPM (\<lambda>_. None) ''/mnt/pmem0'' 3 = Inl (Undefined ''write out of bounds'')"
  using FDPointsToPM_exactly [of "''/mnt/pmem0''" "\<lambda>_. Some ''/mnt/pmem01/x''" 3]
    FDPointsToPM_exactly [of "''/mnt/pmem0''" "\<lambda>_. Some ''/dev/shm/x''" 3] FDPointsToPM_exactly [of "''/mnt/pmem0''" "\<lambda>_. None" 3]
  by simp

text \<open>
  C30. A shared mapping of a PM file, entered and left without another system call in
  between, makes exactly its own range persistent memory, and a failed one changes nothing.
\<close>
theorem mmap_tracks_range:
  assumes "flags AND 1 = 1" "FDPointsToPM readlink mnt (sint (ucast fd :: 32 word)) = Inr (True, path)"
    and "\<not> found_alloc st"
    and "SysBefore readlink mnt SYS_mmap sz flags fd prot addr st = Inr st1" and "SysAfter ret st1 = st2"
  shows "if ret = -1 then st2 = st
    else IsPMAddress a n st2 \<longleftrightarrow> IsPMAddress a n st \<or> (ret \<le> a \<and> a + ucast n \<le> ret + sz)"
proof -
  have st1: "st1 = st\<lparr>allocs := allocs st @ [new_PMAllocation sz path flags prot], found_alloc := True\<rparr>"
    using mmap_shared_eq [OF assms(1,2)] assms(4) by simp
  show ?thesis
    using assms(3,5) unfolding st1
    by (auto simp: SysAfter_def IsPMAddress_iff in_allocation_def new_PMAllocation_def set_start_def)
qed

theorem mmap_tracks_range_witness:
  "\<exists>st1 st2. SysBefore (\<lambda>_. Some ''/mnt/p'') ''/mnt'' SYS_mmap 4096 1 5 3 0 init_alloc_state = Inr st1 \<and>
     SysAfter 0x10000 st1 = st2 \<and> IsPMAddress 0x10ff8 8 st2 \<and> \<not> IsPMAddress 0x10ff9 8 st2"
proof -
  have fd: "FDPointsToPM (\<lambda>_. Some ''/mnt/p'') ''/mnt'' (sint (ucast (5 :: u64) :: 32 word)) = Inr (True, ''/mnt/p'')"
    by (simp add: FDPointsToPM_resolved)
  obtain st1 where 1: "SysBefore (\<lambda>_. Some ''/mnt/p'') ''/mnt'' SYS_mmap 4096 1 5 3 0 init_alloc_state = Inr st1"
    using mmap_shared_eq [OF _ fd, of 1] by fastforce
  have 2: "\<not> found_alloc init_alloc_state" "\<not> IsPMAddress a n init_alloc_state" for a n
    by (simp_all add: init_alloc_state_def IsPMAddress_def)
  have r: "IsPMAddress a n (SysAfter 0x10000 st1) \<longleftrightarrow> 0x10000 \<le> a \<and> a + ucast n \<le> 0x11000" for a n
    using mmap_tracks_range [OF _ fd 2(1) 1 refl, of "0x10000" a n] 2(2) by simp
  show ?thesis using 1 r by simp
qed

text \<open>
  Unmapping: a mapping stops being persistent memory exactly when \<^verbatim>\<open>munmap\<close> is called with
  its start and its size; unmapping a part of it, or it together with a neighbour, leaves
  the whole range tracked.
\<close>
lemma munmap_exact_range_only:
  assumes "SysBefore readlink mnt SYS_munmap sz flags fd prot addr st = Inr st'"
  shows "IsPMAddress a n st' \<longleftrightarrow>
    (\<exists>al \<in> set (allocs st). in_allocation a (a + ucast n) al \<and> \<not> (alloc_start al = addr \<and> alloc_size al = sz))"
  using assms by (fastforce simp: SysBefore_def IsPMAddress_iff in_allocation_def Let_def)

lemma munmap_exact_range_only_witness:
  "\<exists>st'. SysBefore (\<lambda>_. None) ''/mnt'' SYS_munmap 0x800 0 0 0 0x1000
      \<lparr>allocs = [set_start 0x1000 (new_PMAllocation 0x1000 ''/mnt/p'' 1 3)], found_alloc = False\<rparr> = Inr st' \<and>
    IsPMAddress 0x1000 8 st'"
proof -
  let ?st = "\<lparr>allocs = [set_start 0x1000 (new_PMAllocation 0x1000 ''/mnt/p'' 1 3)], found_alloc = False\<rparr>"
  obtain st' where r: "SysBefore (\<lambda>_. None) ''/mnt'' SYS_munmap 0x800 0 0 0 0x1000 ?st = Inr st'"
    by (simp add: SysBefore_def Let_def)
  from munmap_exact_range_only [OF r, of "0x1000" 8] r show ?thesis
    by (simp add: in_allocation_def set_start_def new_PMAllocation_def)
qed

text \<open>
  C37. The flag between entry and exit belongs to the process: when the exit of another
  thread's system call comes between the entry and the exit of an \<^verbatim>\<open>mmap\<close>, the mapping gets
  that call's return value as its start, and its own return value is ignored.
\<close>
theorem mmap_exit_interleaving:
  assumes "flags AND 1 = 1" "FDPointsToPM readlink mnt (sint (ucast fd :: 32 word)) = Inr (True, path)"
    and "SysBefore readlink mnt SYS_mmap sz flags fd prot addr st = Inr st1"
    and "other \<noteq> -1" "SyscallExit other st1 = st2" "SyscallExit ret st2 = st3"
  shows "st3 = st2 \<and> allocs st3 = allocs st @ [set_start other (new_PMAllocation sz path flags prot)]"
  using mmap_shared_eq [OF assms(1,2)] assms(3-6) by (auto simp: SyscallExit_def SysAfter_def)

theorem mmap_exit_interleaving_witness:
  "\<exists>st1 st3. SysBefore (\<lambda>_. Some ''/mnt/p'') ''/mnt'' SYS_mmap 4096 1 5 3 0 init_alloc_state = Inr st1 \<and>
     SyscallExit 0x10000 (SyscallExit 0 st1) = st3 \<and> \<not> IsPMAddress 0x10000 8 st3"
proof -
  have fd: "FDPointsToPM (\<lambda>_. Some ''/mnt/p'') ''/mnt'' (sint (ucast (5 :: u64) :: 32 word)) = Inr (True, ''/mnt/p'')"
    by (simp add: FDPointsToPM_resolved)
  obtain st1 where 1: "SysBefore (\<lambda>_. Some ''/mnt/p'') ''/mnt'' SYS_mmap 4096 1 5 3 0 init_alloc_state = Inr st1"
    using mmap_shared_eq [OF _ fd, of 1] by fastforce
  have "allocs (SyscallExit 0x10000 (SyscallExit 0 st1)) = [set_start 0 (new_PMAllocation 4096 ''/mnt/p'' 1 3)]"
    using conjunct2 [OF mmap_exit_interleaving [OF _ fd 1 _ refl refl, of 0 "0x10000"]]
    by (simp add: init_alloc_state_def)
  with 1 show ?thesis
    by (simp add: IsPMAddress_iff in_allocation_def set_start_def new_PMAllocation_def init_alloc_state_def)
qed

end
