(* ===== verification/Irh.thy ===== *)
theory Irh
  imports StdMap
begin

text \<open>
  Model of the initialization removal heuristic of \<^verbatim>\<open>src/src/hawkset.cpp\<close>
  (\<^verbatim>\<open>IgnoreAccess\<close>, \<^verbatim>\<open>HandleAccessByte\<close>, \<^verbatim>\<open>HandleAccess\<close>): per byte address, a 64-bit set
  of the threads that accessed it, numbered densely through \<^verbatim>\<open>variable_accessed_map\<close>; an
  access is ignored until more than \<open>n\<close> different threads have accessed the address.
  Clearing the set marks an address whose limit was reached.
\<close>

record irh_state =
  variable_accessed :: "(u64 \<times> u64) list"
  variable_accessed_map :: "(nat \<times> nat) list"

definition init_irh :: irh_state where
  "init_irh = \<lparr>variable_accessed = [], variable_accessed_map = []\<rparr>"

definition bitset_count :: "u64 \<Rightarrow> nat" where
  "bitset_count w = length (filter (bit w) [0..<64])"

text \<open>
  \<^verbatim>\<open>variable_accessed_map[tid] = variable_accessed_map.size()\<close> reads the size before it
  inserts the key (C++17 sequences the right operand of an assignment first).
\<close>

definition irh_thread_index :: "nat \<Rightarrow> irh_state \<Rightarrow> nat \<times> irh_state" where
  "irh_thread_index tid st =
     (case map_of (variable_accessed_map st) tid of
        Some i \<Rightarrow> (i, st)
      | None \<Rightarrow> (length (variable_accessed_map st),
                 st\<lparr>variable_accessed_map :=
                      sm_insert tid (length (variable_accessed_map st)) (variable_accessed_map st)\<rparr>))"

definition IgnoreAccess :: "u64 \<Rightarrow> nat \<Rightarrow> u64 \<Rightarrow> irh_state \<Rightarrow> hs_error + (bool \<times> irh_state)" where
  "IgnoreAccess use_init_removal_heuristic_n tid0 address st0 =
     (case irh_thread_index tid0 st0 of (tid, st) \<Rightarrow>
        if \<not> tid < 64 then Inl (Assertion ''tid < 64'')
        else case map_of (variable_accessed st) address of
          None \<Rightarrow> Inr (True, st\<lparr>variable_accessed := sm_insert address (set_bit tid 0) (variable_accessed st)\<rparr>)
        | Some bs \<Rightarrow>
            if bs = 0 then Inr (False, st)
            else if bit bs tid then Inr (True, st)
            else let bs' = set_bit tid bs in
              if (of_nat (bitset_count bs') :: u64) = use_init_removal_heuristic_n + 1
              then Inr (False, st\<lparr>variable_accessed := sm_insert address 0 (variable_accessed st)\<rparr>)
              else Inr (True, st\<lparr>variable_accessed := sm_insert address bs' (variable_accessed st)\<rparr>))"

definition HandleAccessByte :: "u64 \<Rightarrow> nat \<Rightarrow> u64 \<Rightarrow> irh_state \<Rightarrow> hs_error + (bool \<times> irh_state)" where
  "HandleAccessByte n tid address st =
     (if n = 0 then Inr (True, st)
      else bindE (IgnoreAccess n tid address st) (\<lambda>(ignored, st'). Inr (\<not> ignored, st')))"

text \<open>Every iteration of the loop of \<^verbatim>\<open>HandleAccess\<close> passes the same \<open>address\<close>.\<close>

definition HandleAccess :: "u64 \<Rightarrow> nat \<Rightarrow> u64 \<Rightarrow> u32 \<Rightarrow> irh_state \<Rightarrow> hs_error + (u64 \<times> irh_state)" where
  "HandleAccess n tid address sz st =
     (if \<not> sz \<le> 64 then Inl (Assertion ''size <= 64'')
      else if n = 0 then
        Inr (if sz = 64 then -1 else push_bit (unat sz) 1 - 1, st)
      else foldE (\<lambda>i (mask, st).
             bindE (IgnoreAccess n tid address st)
               (\<lambda>(ignored, st'). Inr (if \<not> ignored then set_bit i mask else unset_bit i mask, st')))
           [0..<unat sz] (0, st))"

section \<open>The specification: how many threads accessed an address\<close>

text \<open>A history is the list of (thread, address) accesses in order, oldest first.\<close>

definition accessors :: "(nat \<times> u64) list \<Rightarrow> u64 \<Rightarrow> nat set" where
  "accessors hist a = {t. (t, a) \<in> set hist}"

definition all_threads :: "(nat \<times> u64) list \<Rightarrow> nat set" where
  "all_threads hist = fst ` set hist"

fun irh_run :: "u64 \<Rightarrow> (nat \<times> u64) list \<Rightarrow> irh_state \<Rightarrow> hs_error + irh_state" where
  "irh_run n [] st = Inr st"
| "irh_run n ((t, a) # hist) st = bindE (IgnoreAccess n t a st) (\<lambda>(_, st'). irh_run n hist st')"

text \<open>
  The abstraction: thread numbers are a bijection of the seen threads onto an initial
  segment of the naturals; an address nobody accessed is absent; one with at most \<open>n\<close>
  accessing threads holds exactly their numbers; one with more holds the empty set.
\<close>

definition thread_number :: "irh_state \<Rightarrow> nat \<Rightarrow> nat" where
  "thread_number st t = the (map_of (variable_accessed_map st) t)"

definition cell_ok :: "u64 \<Rightarrow> nat set \<Rightarrow> (nat \<Rightarrow> nat) \<Rightarrow> u64 option \<Rightarrow> bool" where
  "cell_ok n A num cell \<longleftrightarrow>
     (case cell of
        None \<Rightarrow> A = {}
      | Some bs \<Rightarrow> A \<noteq> {} \<and> (if card A \<le> unat n then \<forall>i. bit bs i \<longleftrightarrow> i \<in> num ` A else bs = 0))"

definition irh_abs :: "u64 \<Rightarrow> (nat \<times> u64) list \<Rightarrow> irh_state \<Rightarrow> bool" where
  "irh_abs n hist st \<longleftrightarrow>
     sm_wf (variable_accessed_map st) \<and>
     dom (map_of (variable_accessed_map st)) = all_threads hist \<and>
     length (variable_accessed_map st) \<le> 64 \<and>
     inj_on (thread_number st) (all_threads hist) \<and>
     thread_number st ` all_threads hist = {..<length (variable_accessed_map st)} \<and>
     (\<forall>a. cell_ok n (accessors hist a) (thread_number st) (map_of (variable_accessed st) a))"

lemma irh_abs_init: "irh_abs n [] init_irh"
  by (simp add: irh_abs_def init_irh_def all_threads_def accessors_def cell_ok_def)

lemma finite_accessors [simp, intro]: "finite (accessors hist a)"
  by (rule finite_subset [of _ "fst ` set hist"]) (force simp: accessors_def)+

lemma accessors_snoc:
  "accessors (hist @ [(t, a)]) b = (if b = a then insert t (accessors hist b) else accessors hist b)"
  by (auto simp: accessors_def)

lemma accessors_subset: "accessors hist a \<subseteq> all_threads hist"
  by (force simp: accessors_def all_threads_def)

lemma all_threads_snoc [simp]: "all_threads (hist @ [(t, a)]) = insert t (all_threads hist)"
  by (auto simp: all_threads_def)

lemma bitset_count_card: "bitset_count w = card {i. bit w i}"
proof -
  have "set (filter (bit w) [0..<64]) = {i. bit w i}"
    by (auto dest: bit_imp_le_length)
  moreover have "distinct (filter (bit w) [0..<64])" by simp
  ultimately show ?thesis
    unfolding bitset_count_def by (metis distinct_card)
qed

lemma bitset_count_le: "bitset_count w \<le> 64"
  using length_filter_le [of "bit w" "[0..<64]"] by (simp add: bitset_count_def)

lemma length_sm_insert_fresh: "map_of m k = None \<Longrightarrow> sm_wf m \<Longrightarrow> length (sm_insert k v m) = Suc (length m)"
  by (induction k v m rule: sm_insert.induct) (auto simp: sm_wf_def split: if_splits)

text \<open>The numbering step: the thread gets a number, old numbers stay.\<close>

lemma irh_thread_index_spec:
  assumes abs: "irh_abs n hist st" and idx: "irh_thread_index t st = (i, st')" and lt: "i < 64"
  shows "i = thread_number st' t" "variable_accessed st' = variable_accessed st"
    "sm_wf (variable_accessed_map st')"
    "dom (map_of (variable_accessed_map st')) = insert t (all_threads hist)"
    "length (variable_accessed_map st') \<le> 64"
    "inj_on (thread_number st') (insert t (all_threads hist))"
    "thread_number st' ` insert t (all_threads hist) = {..<length (variable_accessed_map st')}"
    "\<And>u. u \<in> all_threads hist \<Longrightarrow> thread_number st' u = thread_number st u"
proof -
  let ?m = "variable_accessed_map st"
  have "i = thread_number st' t \<and> variable_accessed st' = variable_accessed st \<and>
    sm_wf (variable_accessed_map st') \<and>
    dom (map_of (variable_accessed_map st')) = insert t (all_threads hist) \<and>
    length (variable_accessed_map st') \<le> 64 \<and>
    inj_on (thread_number st') (insert t (all_threads hist)) \<and>
    thread_number st' ` insert t (all_threads hist) = {..<length (variable_accessed_map st')} \<and>
    (\<forall>u \<in> all_threads hist. thread_number st' u = thread_number st u)"
  proof (cases "map_of ?m t")
    case (Some j)
    then have "t \<in> all_threads hist" using abs by (auto simp: irh_abs_def)
    with Some idx abs show ?thesis
      by (auto simp: irh_thread_index_def irh_abs_def thread_number_def insert_absorb)
  next
    case None
    then have fresh: "t \<notin> all_threads hist"
      using abs domIff [of t "map_of ?m"] by (auto simp: irh_abs_def)
    have st': "i = length ?m" "st' = st\<lparr>variable_accessed_map := sm_insert t (length ?m) ?m\<rparr>"
      using idx None by (auto simp: irh_thread_index_def)
    have num: "thread_number st' = (thread_number st)(t := length ?m)"
      by (auto simp: thread_number_def st')
    have len: "length (variable_accessed_map st') = Suc (length ?m)"
      using None abs by (simp add: st' length_sm_insert_fresh irh_abs_def)
    have img: "thread_number st ` all_threads hist = {..<length ?m}"
      using abs by (simp add: irh_abs_def)
    have "inj_on ((thread_number st)(t := length ?m)) (all_threads hist)"
      using abs fresh by (simp add: irh_abs_def inj_on_def)
    moreover have "((thread_number st)(t := length ?m)) ` all_threads hist = {..<length ?m}"
      unfolding img [symmetric] using fresh by (intro image_cong) auto
    ultimately have "inj_on ((thread_number st)(t := length ?m)) (insert t (all_threads hist))"
      using fresh by simp
    moreover have "((thread_number st)(t := length ?m)) ` insert t (all_threads hist) = {..<Suc (length ?m)}"
      using fresh img by (auto simp: fun_upd_image lessThan_Suc)
    ultimately show ?thesis
      using st' lt abs fresh unfolding len num by (auto simp: irh_abs_def)
  qed
  then show "i = thread_number st' t" "variable_accessed st' = variable_accessed st"
    "sm_wf (variable_accessed_map st')"
    "dom (map_of (variable_accessed_map st')) = insert t (all_threads hist)"
    "length (variable_accessed_map st') \<le> 64"
    "inj_on (thread_number st') (insert t (all_threads hist))"
    "thread_number st' ` insert t (all_threads hist) = {..<length (variable_accessed_map st')}"
    "\<And>u. u \<in> all_threads hist \<Longrightarrow> thread_number st' u = thread_number st u"
    by auto
qed

text \<open>What the body of \<^verbatim>\<open>IgnoreAccess\<close> does to the cell of the address.\<close>

definition cell_step :: "u64 \<Rightarrow> nat \<Rightarrow> u64 option \<Rightarrow> bool \<times> u64" where
  "cell_step n i cell =
     (case cell of
        None \<Rightarrow> (True, set_bit i 0)
      | Some bs \<Rightarrow>
          if bs = 0 then (False, 0)
          else if bit bs i then (True, bs)
          else if (of_nat (bitset_count (set_bit i bs)) :: u64) = n + 1 then (False, 0)
          else (True, set_bit i bs))"

lemma IgnoreAccess_cell_step:
  assumes "irh_thread_index t st = (i, st1)" and "i < 64"
    and cell: "cell_step n i (map_of (variable_accessed st1) a) = (b, w)"
  shows "\<exists>st'. IgnoreAccess n t a st = Inr (b, st') \<and>
    map_of (variable_accessed st') = (map_of (variable_accessed st1))(a \<mapsto> w) \<and>
    variable_accessed_map st' = variable_accessed_map st1"
proof (cases "map_of (variable_accessed st1) a")
  case None
  with assms show ?thesis by (auto simp: IgnoreAccess_def cell_step_def)
next
  case (Some bs)
  then have upd: "(map_of (variable_accessed st1))(a \<mapsto> bs) = map_of (variable_accessed st1)"
    by (simp add: fun_upd_idem)
  show ?thesis
  proof (cases "bs = 0 \<or> bit bs i")
    case True
    then have "w = bs" "IgnoreAccess n t a st = Inr (b, st1)"
      using cell Some assms(1,2) by (auto simp: IgnoreAccess_def cell_step_def split: if_splits)
    with upd show ?thesis by simp
  next
    case False
    then have "IgnoreAccess n t a st
        = Inr (b, st1\<lparr>variable_accessed := sm_insert a w (variable_accessed st1)\<rparr>)"
      using cell Some assms(1,2)
      by (auto simp: IgnoreAccess_def cell_step_def Let_def split: if_splits)
    then show ?thesis by simp
  qed
qed

lemma of_nat_Suc_eq: "k < 2 ^ 64 \<Longrightarrow> (of_nat (Suc k) :: u64) = n + 1 \<longleftrightarrow> k = unat n"
proof -
  assume k: "k < 2 ^ 64"
  have "(of_nat (Suc k) :: u64) = n + 1 \<longleftrightarrow> (of_nat k :: u64) = n" by simp
  also have "\<dots> \<longleftrightarrow> unat (of_nat k :: u64) = unat n" by (simp only: word_unat_eq_iff)
  finally show ?thesis using k by simp
qed

lemma cell_step_ok:
  assumes ok: "cell_ok n A num cell" and fin: "finite A" and inj: "inj_on num (insert t A)"
    and bound: "num ` insert t A \<subseteq> {..<64}" and n: "n \<noteq> 0"
    and step: "cell_step n (num t) cell = (b, w)"
  shows "cell_ok n (insert t A) num (Some w)" "b \<longleftrightarrow> card (insert t A) \<le> unat n"
proof -
  have n1: "1 \<le> unat n" using n by (metis One_nat_def Suc_leI unat_gt_0)
  have bits: "bit (set_bit (num t) v) i \<longleftrightarrow> i = num t \<or> bit v i" for v :: u64 and i
    using bound by (auto simp: bit_set_bit_iff)
  have "cell_ok n (insert t A) num (Some w) \<and> (b \<longleftrightarrow> card (insert t A) \<le> unat n)"
  proof (cases cell)
    case None
    then have "A = {}" using ok by (simp add: cell_ok_def)
    with None step n1 bits [of 0] show ?thesis
      by (auto simp: cell_step_def cell_ok_def simp del: set_bit_0)
  next
    case (Some bs)
    have A: "A \<noteq> {}" using ok Some by (auto simp: cell_ok_def)
    show ?thesis
    proof (cases "card A \<le> unat n")
      case False
      then have "bs = 0" using ok Some by (auto simp: cell_ok_def)
      moreover have "card A \<le> card (insert t A)" using fin by (simp add: card_insert_le)
      ultimately show ?thesis
        using False Some step by (auto simp: cell_step_def cell_ok_def)
    next
      case True
      then have bs: "bit bs i \<longleftrightarrow> i \<in> num ` A" for i
        using ok Some by (auto simp: cell_ok_def)
      then have nz: "bs \<noteq> 0" using A by (metis all_not_in_conv bit_0_eq bot_apply bot_bool_def imageI)
      have tA: "bit bs (num t) \<longleftrightarrow> t \<in> A"
        unfolding bs using inj by (auto simp: inj_on_def)
      show ?thesis
      proof (cases "t \<in> A")
        case True
        with Some step nz tA bs ok \<open>card A \<le> unat n\<close> show ?thesis
          by (auto simp: cell_step_def cell_ok_def insert_absorb)
      next
        case False
        have setbits: "{i. bit (set_bit (num t) bs) i} = num ` insert t A"
          by (auto simp: bits bs)
        have count: "bitset_count (set_bit (num t) bs) = Suc (card A)"
          using inj fin False by (simp add: bitset_count_card setbits card_image)
        then have "card A < 2 ^ 64"
          using bitset_count_le [of "set_bit (num t) bs"] by simp
        then have eq: "(of_nat (bitset_count (set_bit (num t) bs)) :: u64) = n + 1 \<longleftrightarrow> card A = unat n"
          unfolding count by (rule of_nat_Suc_eq)
        show ?thesis
          using Some step nz tA False eq setbits fin \<open>card A \<le> unat n\<close>
          by (auto simp: cell_step_def cell_ok_def split: if_splits)
      qed
    qed
  qed
  then show "cell_ok n (insert t A) num (Some w)" "b \<longleftrightarrow> card (insert t A) \<le> unat n"
    by auto
qed

lemma cell_ok_cong:
  "(\<And>u. u \<in> A \<Longrightarrow> num u = num' u) \<Longrightarrow> cell_ok n A num cell \<longleftrightarrow> cell_ok n A num' cell"
proof -
  assume "\<And>u. u \<in> A \<Longrightarrow> num u = num' u"
  then have "num ` A = num' ` A" by (rule image_cong [OF refl])
  then show ?thesis by (simp add: cell_ok_def split: option.split)
qed

lemma IgnoreAccess_sim:
  assumes abs: "irh_abs n hist st" and n: "n \<noteq> 0"
    and idx: "irh_thread_index t st = (i, st1)" "i < 64"
  obtains b st' where "IgnoreAccess n t a st = Inr (b, st')"
    "irh_abs n (hist @ [(t, a)]) st'"
    "b \<longleftrightarrow> card (accessors (hist @ [(t, a)]) a) \<le> unat n"
proof -
  note st1 = irh_thread_index_spec [OF abs idx]
  let ?num = "thread_number st1"
  obtain b w where cell: "cell_step n i (map_of (variable_accessed st1) a) = (b, w)"
    by fastforce
  obtain st' where step: "IgnoreAccess n t a st = Inr (b, st')"
    and va: "map_of (variable_accessed st') = (map_of (variable_accessed st1))(a \<mapsto> w)"
    and vam: "variable_accessed_map st' = variable_accessed_map st1"
    using IgnoreAccess_cell_step [OF idx cell] by blast
  have num: "thread_number st' = ?num"
    by (simp add: thread_number_def vam fun_eq_iff)
  have old: "cell_ok n (accessors hist x) ?num (map_of (variable_accessed st1) x)" for x
  proof -
    have "?num u = thread_number st u" if "u \<in> accessors hist x" for u
      using st1(8) accessors_subset that by blast
    from cell_ok_cong [OF this] show ?thesis
      using abs by (simp add: irh_abs_def st1(2))
  qed
  have inj: "inj_on ?num (insert t (accessors hist a))"
    by (rule inj_on_subset [OF st1(6)]) (use accessors_subset in blast)
  have "?num ` insert t (accessors hist a) \<subseteq> ?num ` insert t (all_threads hist)"
    using accessors_subset by blast
  also have "\<dots> \<subseteq> {..<64}"
    unfolding st1(7) using st1(5) by simp
  finally have bound: "?num ` insert t (accessors hist a) \<subseteq> {..<64}" .
  have "cell_step n (?num t) (map_of (variable_accessed st1) a) = (b, w)"
    using cell st1(1) by simp
  note new = cell_step_ok [OF old finite_accessors inj bound n this]
  have "cell_ok n (accessors (hist @ [(t, a)]) x) ?num (map_of (variable_accessed st') x)" for x
    using new(1) old by (simp add: va accessors_snoc)
  then have "irh_abs n (hist @ [(t, a)]) st'"
    using st1(3-7) by (simp add: irh_abs_def num vam)
  with step new(2) that show thesis by (simp add: accessors_snoc)
qed

lemma irh_thread_index_bound:
  assumes "irh_abs n hist st" "irh_thread_index t st = (i, st1)"
  shows "i < 64 \<longleftrightarrow> card (insert t (all_threads hist)) \<le> 64"
proof -
  have fin: "finite (all_threads hist)" by (simp add: all_threads_def)
  have inj: "inj_on (thread_number st) (all_threads hist)"
    and img: "thread_number st ` all_threads hist = {..<length (variable_accessed_map st)}"
    and len: "length (variable_accessed_map st) \<le> 64"
    using assms(1) by (auto simp: irh_abs_def)
  have card: "card (all_threads hist) = length (variable_accessed_map st)"
    using card_image [OF inj] img by simp
  show ?thesis
  proof (cases "map_of (variable_accessed_map st) t")
    case (Some j)
    then have t: "t \<in> all_threads hist" using assms(1) by (auto simp: irh_abs_def)
    have "thread_number st t \<in> {..<length (variable_accessed_map st)}"
      unfolding img [symmetric] using t by simp
    then have "i < length (variable_accessed_map st)"
      using Some assms(2) by (simp add: thread_number_def irh_thread_index_def)
    with len card t show ?thesis by (simp add: insert_absorb)
  next
    case None
    then have "t \<notin> all_threads hist"
      using assms(1) domIff [of t "map_of (variable_accessed_map st)"] by (auto simp: irh_abs_def)
    with None assms(2) card fin show ?thesis
      by (auto simp: irh_thread_index_def)
  qed
qed

lemma IgnoreAccess_too_many:
  "irh_thread_index t st = (i, st1) \<Longrightarrow> \<not> i < 64 \<Longrightarrow>
   IgnoreAccess n t a st = Inl (Assertion ''tid < 64'')"
  by (simp add: IgnoreAccess_def)

section \<open>Accesses of several bytes\<close>

definition shared :: "u64 \<Rightarrow> (nat \<times> u64) list \<Rightarrow> nat \<Rightarrow> u64 \<Rightarrow> bool" where
  "shared n hist t a \<longleftrightarrow> unat n < card (insert t (accessors hist a))"

text \<open>The loop calls \<open>IgnoreAccess\<close> with one address, so all its answers agree.\<close>

lemma HandleAccess_loop:
  assumes abs: "irh_abs n hist st" and n: "n \<noteq> 0" and few: "card (insert t (all_threads hist)) \<le> 64"
    and k: "k \<le> 64"
  shows "\<exists>mask st'. foldE (\<lambda>i (mask, st).
             bindE (IgnoreAccess n t a st)
               (\<lambda>(ignored, st'). Inr (if \<not> ignored then set_bit i mask else unset_bit i mask, st')))
           [0..<k] (0::u64, st) = Inr (mask, st') \<and>
     irh_abs n (hist @ replicate k (t, a)) st' \<and> (\<forall>i. bit mask i \<longleftrightarrow> i < k \<and> shared n hist t a)"
  using k
proof (induction k)
  case 0
  with abs show ?case by simp
next
  case (Suc k)
  let ?F = "\<lambda>i (mask, st). bindE (IgnoreAccess n t a st)
     (\<lambda>(ignored, st'). Inr (if \<not> ignored then set_bit i mask else unset_bit i mask, st'))"
  let ?h = "hist @ replicate k (t, a)"
  obtain mask st1 where IH: "foldE ?F [0..<k] (0::u64, st) = Inr (mask, st1)"
    "irh_abs n ?h st1" "\<forall>i. bit mask i \<longleftrightarrow> i < k \<and> shared n hist t a"
    using Suc by auto
  obtain i st2 where idx: "irh_thread_index t st1 = (i, st2)" by fastforce
  have "all_threads ?h \<subseteq> insert t (all_threads hist)"
    by (auto simp: all_threads_def)
  then have "insert t (all_threads ?h) = insert t (all_threads hist)"
    by (auto simp: all_threads_def)
  then have "i < 64"
    using irh_thread_index_bound [OF IH(2) idx] few by simp
  from IgnoreAccess_sim [OF IH(2) n idx this]
  obtain b st' where step: "IgnoreAccess n t a st1 = Inr (b, st')"
    "irh_abs n (?h @ [(t, a)]) st'" "b \<longleftrightarrow> card (accessors (?h @ [(t, a)]) a) \<le> unat n" .
  have "accessors (?h @ [(t, a)]) a = insert t (accessors hist a)"
    by (auto simp: accessors_def)
  then have b: "b \<longleftrightarrow> \<not> shared n hist t a"
    using step(3) by (simp add: shared_def not_less)
  have "foldE ?F [0..<Suc k] (0, st) = Inr (if \<not> b then set_bit k mask else unset_bit k mask, st')"
    using IH(1) step(1) by (simp add: foldE_append)
  moreover have "irh_abs n (hist @ replicate (Suc k) (t, a)) st'"
    using step(2) by (simp add: replicate_append_same [symmetric])
  moreover have "bit (if \<not> b then set_bit k mask else unset_bit k mask) i \<longleftrightarrow> i < Suc k \<and> shared n hist t a" for i
  proof (cases b)
    case True
    then have "\<not> shared n hist t a" using b by simp
    then show ?thesis using True IH(3) by (simp add: bit_unset_bit_iff)
  next
    case False
    have "shared n hist t a" using b False by simp
    moreover have "bit (set_bit k mask) i \<longleftrightarrow> i = k \<or> i < k"
      using IH(3) \<open>shared n hist t a\<close> Suc.prems by (simp only: bit_set_bit_iff) force
    ultimately show ?thesis using False by (simp add: less_Suc_eq disj_commute)
  qed
  ultimately show ?case by (intro exI conjI allI)
qed

lemma HandleAccess_sim:
  assumes "irh_abs n hist st" "n \<noteq> 0" "card (insert t (all_threads hist)) \<le> 64" "sz \<le> 64"
  shows "\<exists>mask st'. HandleAccess n t a sz st = Inr (mask, st') \<and>
     irh_abs n (hist @ replicate (unat sz) (t, a)) st' \<and>
     (\<forall>i. bit mask i \<longleftrightarrow> i < unat sz \<and> shared n hist t a)"
proof -
  have "unat sz \<le> 64" using assms(4) by (simp add: word_le_nat_alt)
  from HandleAccess_loop [OF assms(1-3) this, of a] show ?thesis
    using assms(2,4) by (simp add: HandleAccess_def)
qed

lemma HandleAccess_off:
  assumes "sz \<le> 64"
  shows "\<exists>mask. HandleAccess 0 t a sz st = Inr (mask, st) \<and> (\<forall>i. bit mask i \<longleftrightarrow> i < unat sz)"
proof (cases "sz = 64")
  case True
  then show ?thesis
    by (auto simp: HandleAccess_def dest: bit_imp_le_length)
next
  case False
  with assms have "sz < 64" by simp
  then have "unat sz < 64" by (simp add: word_less_nat_alt)
  then have "bit (push_bit (unat sz) 1 - 1 :: u64) i \<longleftrightarrow> i < unat sz" for i
    by (auto simp: push_bit_eq_mult mask_eq_exp_minus_1 [symmetric] bit_mask_iff)
  with False assms show ?thesis by (simp add: HandleAccess_def)
qed

lemma HandleAccessByte_sim:
  assumes "irh_abs n hist st" "n \<noteq> 0" "card (insert t (all_threads hist)) \<le> 64"
  shows "\<exists>st'. HandleAccessByte n t a st = Inr (shared n hist t a, st') \<and>
     irh_abs n (hist @ [(t, a)]) st'"
proof -
  obtain i st1 where idx: "irh_thread_index t st = (i, st1)" by fastforce
  have "i < 64" using irh_thread_index_bound [OF assms(1) idx] assms(3) by simp
  from IgnoreAccess_sim [OF assms(1,2) idx this]
  obtain b st' where step: "IgnoreAccess n t a st = Inr (b, st')"
    "irh_abs n (hist @ [(t, a)]) st'" "b \<longleftrightarrow> card (accessors (hist @ [(t, a)]) a) \<le> unat n" .
  with assms(2) show ?thesis
    by (auto simp: HandleAccessByte_def accessors_snoc shared_def not_le)
qed

section \<open>Runs of the heuristic\<close>

lemma IgnoreAccess_irh:
  assumes "irh_abs n hist st" "n \<noteq> 0" "IgnoreAccess n t a st = Inr (b, st')"
  shows "irh_abs n (hist @ [(t, a)]) st'"
proof -
  obtain i st1 where i: "irh_thread_index t st = (i, st1)" by fastforce
  then have "i < 64" using IgnoreAccess_too_many [OF i] assms(3) by force
  from IgnoreAccess_sim [OF assms(1,2) i this] obtain b' st2 where
    "IgnoreAccess n t a st = Inr (b', st2)" "irh_abs n (hist @ [(t, a)]) st2" by metis
  with assms(3) show ?thesis by simp
qed

lemma irh_run_abs:
  "irh_run n hist st = Inr st' \<Longrightarrow> n \<noteq> 0 \<Longrightarrow> irh_abs n h0 st \<Longrightarrow> irh_abs n (h0 @ hist) st'"
proof (induction hist arbitrary: st h0)
  case (Cons x hist)
  obtain t a where x: "x = (t, a)" by fastforce
  with Cons.prems(1) obtain b st1 where 1: "IgnoreAccess n t a st = Inr (b, st1)" "irh_run n hist st1 = Inr st'"
    by auto
  from Cons.IH [OF 1(2) Cons.prems(2) IgnoreAccess_irh [OF Cons.prems(3,2) 1(1)]] x show ?case by simp
qed simp

lemma all_threads_append: "all_threads (xs @ ys) = all_threads xs \<union> all_threads ys"
  by (auto simp: all_threads_def)

lemma irh_run_total:
  "irh_abs n h0 st \<Longrightarrow> n \<noteq> 0 \<Longrightarrow> card (all_threads (h0 @ hist)) \<le> 64 \<Longrightarrow> \<exists>st'. irh_run n hist st = Inr st'"
proof (induction hist arbitrary: st h0)
  case (Cons x hist)
  obtain t a where x: "x = (t, a)" by fastforce
  obtain i st1 where i: "irh_thread_index t st = (i, st1)" by fastforce
  have "card (insert t (all_threads h0)) \<le> card (all_threads (h0 @ x # hist))"
    unfolding x by (rule card_mono) (auto simp: all_threads_def)
  with irh_thread_index_bound [OF Cons.prems(1) i] Cons.prems(3) have "i < 64" by simp
  from IgnoreAccess_sim [OF Cons.prems(1,2) i this] obtain b st' where
    b: "IgnoreAccess n t a st = Inr (b, st')" "irh_abs n (h0 @ [(t, a)]) st'" by metis
  from Cons.IH [OF b(2) Cons.prems(2)] Cons.prems(3) b(1) show ?case by (simp add: x)
qed simp

lemma IgnoreAccess_other:
  assumes "IgnoreAccess n t a st = Inr (b, st')" "c \<noteq> a"
  shows "map_of (variable_accessed st') c = map_of (variable_accessed st) c"
  using assms by (auto simp: IgnoreAccess_def irh_thread_index_def Let_def
      split: prod.splits if_splits option.splits)

section \<open>Properties\<close>

text \<open>
  C24. The initialization removal heuristic counts threads: after any history of accesses, an
  access is ignored exactly when, with it, at most \<open>n\<close> different threads have accessed the
  address.
\<close>
theorem IgnoreAccess_counts_threads:
  assumes "irh_run n hist init_irh = Inr st" "n \<noteq> 0" "card (insert t (all_threads hist)) \<le> 64"
  shows "\<exists>st'. IgnoreAccess n t a st = Inr (card (insert t {u. (u, a) \<in> set hist}) \<le> unat n, st') \<and>
    irh_run n (hist @ [(t, a)]) init_irh = Inr st'"
proof -
  have abs: "irh_abs n hist st" using irh_run_abs [OF assms(1,2) irh_abs_init] by simp
  obtain i st1 where i: "irh_thread_index t st = (i, st1)" by fastforce
  with irh_thread_index_bound [OF abs i] assms(3) have "i < 64" by simp
  from IgnoreAccess_sim [OF abs assms(2) i this] obtain b st' where
    b: "IgnoreAccess n t a st = Inr (b, st')" "b \<longleftrightarrow> card (accessors (hist @ [(t, a)]) a) \<le> unat n" by metis
  have app: "irh_run n (xs @ ys) s = bindE (irh_run n xs s) (irh_run n ys)" for xs ys s
  proof (induction xs arbitrary: s)
    case (Cons x xs)
    then show ?case by (cases x; cases "IgnoreAccess n (fst x) (snd x) s") auto
  qed simp
  show ?thesis
    using b assms(1) by (simp add: app accessors_snoc) (simp add: accessors_def)
qed

theorem IgnoreAccess_counts_threads_witness:
  "\<exists>st st1 st2. irh_run 1 [(7, 0x10)] init_irh = Inr st \<and>
     IgnoreAccess 1 7 0x10 st = Inr (True, st1) \<and> IgnoreAccess 1 9 0x10 st = Inr (False, st2)"
proof -
  obtain st where r: "irh_run 1 [(7, 0x10)] init_irh = Inr st"
    by (simp add: IgnoreAccess_def irh_thread_index_def init_irh_def)
  have s: "{u. (u, 0x10) \<in> set [(7 :: nat, 0x10 :: u64)]} = {7}" by auto
  from IgnoreAccess_counts_threads [OF r, of 7 "0x10"] IgnoreAccess_counts_threads [OF r, of 9 "0x10"] r
  show ?thesis unfolding s by (auto simp: all_threads_def)
qed

text \<open>
  The heuristic has room for 64 threads: the access of the 65th different thread of the
  process fails the assertion, at whatever address.
\<close>
lemma IgnoreAccess_65th_thread:
  assumes "irh_run n hist init_irh = Inr st" "n \<noteq> 0" "64 < card (insert t (all_threads hist))"
  shows "IgnoreAccess n t a st = Inl (Assertion ''tid < 64'')"
proof -
  have abs: "irh_abs n hist st" using irh_run_abs [OF assms(1,2) irh_abs_init] by simp
  obtain i st1 where i: "irh_thread_index t st = (i, st1)" by fastforce
  from irh_thread_index_bound [OF abs i] assms(3) have "\<not> i < 64" by simp
  with IgnoreAccess_too_many [OF i] show ?thesis by blast
qed

lemma IgnoreAccess_65th_thread_witness:
  "\<exists>st. irh_run 1 (map (\<lambda>t. (t, 0x10)) [0..<64]) init_irh = Inr st \<and>
     IgnoreAccess 1 64 0x20 st = Inl (Assertion ''tid < 64'')"
proof -
  have all: "all_threads (map (\<lambda>t. (t, 0x10)) [0..<64]) = {..<64}"
    by (simp add: all_threads_def image_image atLeast0LessThan)
  from irh_run_total [OF irh_abs_init, of 1 "map (\<lambda>t. (t, 0x10)) [0..<64]"] all
  obtain st where st: "irh_run 1 (map (\<lambda>t. (t, 0x10)) [0..<64]) init_irh = Inr st" by fastforce
  from IgnoreAccess_65th_thread [OF st, of 64 "0x20"] st all show ?thesis by simp
qed

text \<open>
  \<^verbatim>\<open>HandleAccess\<close> asks the heuristic about the first byte of an access only: the mask it
  returns is all or nothing, decided by the threads that accessed the first address, and
  the cells of all other bytes of the access stay as they are.
\<close>
lemma HandleAccess_first_byte_only:
  assumes "irh_run n hist init_irh = Inr st" "n \<noteq> 0" "card (insert t (all_threads hist)) \<le> 64" "sz \<le> 64"
  shows "\<exists>bits st'. HandleAccess n t a sz st = Inr (bits, st') \<and>
    (\<forall>i. bit bits i \<longleftrightarrow> i < unat sz \<and> unat n < card (insert t {u. (u, a) \<in> set hist})) \<and>
    (\<forall>c. c \<noteq> a \<longrightarrow> map_of (variable_accessed st') c = map_of (variable_accessed st) c)"
proof -
  have abs: "irh_abs n hist st" using irh_run_abs [OF assms(1,2) irh_abs_init] by simp
  from HandleAccess_sim [OF abs assms(2-4)] obtain bits st' where
    run: "HandleAccess n t a sz st = Inr (bits, st')"
    and bits: "\<forall>i. bit bits i \<longleftrightarrow> i < unat sz \<and> shared n hist t a" by blast
  have "\<forall>c. c \<noteq> a \<longrightarrow> map_of (variable_accessed (snd (bits, st'))) c = map_of (variable_accessed st) c"
  proof (rule foldE_inv [where s = "(0, st)"])
    show "foldE (\<lambda>i (m, st). bindE (IgnoreAccess n t a st)
               (\<lambda>(ignored, st'). Inr (if \<not> ignored then set_bit i m else unset_bit i m, st')))
           [0..<unat sz] (0, st) = Inr (bits, st')"
      using run assms(2,4) by (simp add: HandleAccess_def)
  qed (use IgnoreAccess_other in \<open>auto split: prod.splits\<close>)
  with run bits show ?thesis by (auto simp: shared_def accessors_def)
qed

lemma HandleAccess_first_byte_only_witness:
  "\<exists>st bits st'. irh_run 1 [(7, 0x10), (9, 0x10)] init_irh = Inr st \<and>
     HandleAccess 1 9 0x10 2 st = Inr (bits, st') \<and> bit bits 0 \<and> bit bits 1 \<and>
     map_of (variable_accessed st') 0x11 = map_of (variable_accessed st) 0x11"
proof -
  obtain st where r: "irh_run 1 [(7, 0x10), (9, 0x10)] init_irh = Inr st"
    using irh_run_total [OF irh_abs_init, of 1 "[(7, 0x10), (9, 0x10)]"] by (auto simp: all_threads_def)
  have s: "{u. (u, 0x10) \<in> set [(7 :: nat, 0x10 :: u64), (9, 0x10)]} = {7, 9}" by auto
  from HandleAccess_first_byte_only [OF r, of 9 2 "0x10"] obtain bits st' where
    run: "HandleAccess 1 9 0x10 2 st = Inr (bits, st')"
    and bits: "\<forall>i. bit bits i \<longleftrightarrow> i < 2"
    and rest: "\<forall>c. c \<noteq> 0x10 \<longrightarrow> map_of (variable_accessed st') c = map_of (variable_accessed st) c"
    unfolding s by (auto simp: all_threads_def insert_commute)
  from bits have "bit bits 0 \<and> bit bits 1" by simp
  with r run rest show ?thesis by auto
qed

end
