(* ===== verification/Instrument.thy ===== *)
theory Instrument
  imports Locksets
begin

text \<open>
  What the tool instruments. \<^verbatim>\<open>TraceInstructions\<close> (\<^verbatim>\<open>src/src/hawkset.cpp\<close>) chooses the
  analysis routine of one instruction; \<^verbatim>\<open>MutexFunctionInfo\<close> and \<^verbatim>\<open>MutexConfig\<close>
  (\<^verbatim>\<open>src/src/utils.hpp\<close>) read the synchronisation primitives from a configuration file;
  \<^verbatim>\<open>InstrumentLockRoutine\<close>, \<^verbatim>\<open>InstrumentAdqRelRoutine\<close> and \<^verbatim>\<open>ImageLoad\<close> hook them.
  PIN and libyaml are not part of the repository: the predicates of an instruction are the
  fields of the record \<open>ins\<close>, the test \<^verbatim>\<open>RTN_Valid(RTN_FindByName(img, name))\<close> is the
  parameter \<open>rtn_valid\<close>, and a loaded document is the parameter \<open>get_node\<close>
  (\<^verbatim>\<open>yaml_document_get_node\<close>, \<open>None\<close> for the null pointer). The result is the list of
  calls handed to PIN, with their argument descriptors.
\<close>

section \<open>Calls handed to PIN\<close>

datatype ipoint = IPOINT_BEFORE | IPOINT_AFTER | IPOINT_TAKEN_BRANCH

datatype afunptr =
    TraceCall_fn | TraceRet_fn | TraceRMW_fn | TraceWrite_fn | TraceFlush_fn | TraceFence_fn | TraceRead_fn
  | LockBefore_fn | WriteLockBefore_fn | ReadLockBefore_fn | TryLockBefore_fn | TryLockAfter_fn
  | UnlockBefore_fn | RWUnlockBefore_fn | TraceAdqRelBefore_fn | TraceAdqRelAfter_fn
  | PthreadCreateReplacement_fn | PthreadJoinReplacement_fn

datatype iarg =
    IARG_THREAD_ID | IARG_CONST_CONTEXT | IARG_INST_PTR | IARG_RETURN_IP | IARG_ORIG_FUNCPTR
  | IARG_ADDRINT u64 | IARG_UINT64 u64
  | IARG_MEMORYWRITE_EA | IARG_MEMORYWRITE_SIZE | IARG_MEMORYOP_EA nat
  | IARG_MEMORYREAD_EA | IARG_MEMORYREAD_SIZE | IARG_MEMORYREAD2_EA
  | IARG_FUNCARG_ENTRYPOINT_VALUE int | IARG_FUNCRET_EXITPOINT_VALUE

record inserted_call =
  ic_point :: ipoint
  ic_fun :: afunptr
  ic_args :: "iarg list"

text \<open>The number of parameters of each analysis routine, from its signature.\<close>

fun routine_arity :: "afunptr \<Rightarrow> nat" where
  "routine_arity TraceCall_fn = 3"
| "routine_arity TraceRet_fn = 2"
| "routine_arity TraceRMW_fn = 5"
| "routine_arity TraceWrite_fn = 6"
| "routine_arity TraceFlush_fn = 4"
| "routine_arity TraceFence_fn = 3"
| "routine_arity TraceRead_fn = 6"
| "routine_arity LockBefore_fn = 3"
| "routine_arity WriteLockBefore_fn = 3"
| "routine_arity ReadLockBefore_fn = 3"
| "routine_arity TryLockBefore_fn = 4"
| "routine_arity TryLockAfter_fn = 6"
| "routine_arity UnlockBefore_fn = 3"
| "routine_arity RWUnlockBefore_fn = 3"
| "routine_arity TraceAdqRelBefore_fn = 3"
| "routine_arity TraceAdqRelAfter_fn = 2"
| "routine_arity PthreadCreateReplacement_fn = 7"
| "routine_arity PthreadJoinReplacement_fn = 5"

text \<open>\<^verbatim>\<open>trace::Instruction\<close> of \<^verbatim>\<open>src/src/trace.hpp\<close>, numbered in declaration order.\<close>

datatype Instruction =
    STORE | NON_TEMPORAL_STORE | CLFLUSH | CLFLUSHOPT | CLWB | FENCE | RMW | LOAD
  | LOCK | TRY_LOCK | UNLOCK | WRLOCK | TRY_WRLOCK | RDLOCK | TRY_RDLOCK | RWUNLOCK | ERROR

definition instruction_code :: "Instruction \<Rightarrow> u64" where
  "instruction_code i = (case i of
     STORE \<Rightarrow> 0 | NON_TEMPORAL_STORE \<Rightarrow> 1 | CLFLUSH \<Rightarrow> 2 | CLFLUSHOPT \<Rightarrow> 3 | CLWB \<Rightarrow> 4 | FENCE \<Rightarrow> 5
   | RMW \<Rightarrow> 6 | LOAD \<Rightarrow> 7 | LOCK \<Rightarrow> 8 | TRY_LOCK \<Rightarrow> 9 | UNLOCK \<Rightarrow> 10 | WRLOCK \<Rightarrow> 11
   | TRY_WRLOCK \<Rightarrow> 12 | RDLOCK \<Rightarrow> 13 | TRY_RDLOCK \<Rightarrow> 14 | RWUNLOCK \<Rightarrow> 15 | ERROR \<Rightarrow> 16)"

section \<open>Instructions\<close>

text \<open>The instruction classes of XED the code names; every other class is \<open>XED_other\<close>.\<close>

datatype xed_iclass =
    MOVNTDQ | MOVNTDQA | MOVNTI | MOVNTPD | MOVNTPS | MOVNTQ | MOVNTSD | MOVNTSS
  | VMOVNTDQ | VMOVNTDQA | VMOVNTPD | VMOVNTPS
  | XED_SFENCE | XED_MFENCE | XED_CLFLUSH | XED_CLFLUSHOPT | XED_CLWB | XED_other nat

fun IsMovnt :: "xed_iclass \<Rightarrow> bool" where
  "IsMovnt MOVNTDQ = True"
| "IsMovnt MOVNTDQA = True"
| "IsMovnt MOVNTI = True"
| "IsMovnt MOVNTPD = True"
| "IsMovnt MOVNTPS = True"
| "IsMovnt MOVNTQ = True"
| "IsMovnt MOVNTSD = True"
| "IsMovnt MOVNTSS = True"
| "IsMovnt VMOVNTDQ = True"
| "IsMovnt VMOVNTDQA = True"
| "IsMovnt VMOVNTPD = True"
| "IsMovnt VMOVNTPS = True"
| "IsMovnt _ = False"

fun IsFence :: "xed_iclass \<Rightarrow> bool" where
  "IsFence XED_SFENCE = True"
| "IsFence XED_MFENCE = True"
| "IsFence _ = False"

fun GetFlushType :: "xed_iclass \<Rightarrow> Instruction" where
  "GetFlushType XED_CLFLUSH = CLFLUSH"
| "GetFlushType XED_CLFLUSHOPT = CLFLUSHOPT"
| "GetFlushType XED_CLWB = CLWB"
| "GetFlushType _ = ERROR"

record ins =
  INS_Address :: u64
  INS_Opcode :: xed_iclass
  INS_IsCall :: bool
  INS_IsRet :: bool
  INS_IsValidForIpointTakenBranch :: bool
  INS_IsAtomicUpdate :: bool
  INS_IsMemoryWrite :: bool
  INS_IsStandardMemop :: bool
  INS_IsCacheLineFlush :: bool
  INS_IsMemoryRead :: bool
  INS_HasMemoryRead2 :: bool

definition TraceInstructions :: "ins \<Rightarrow> inserted_call list" where
  "TraceInstructions i =
     (let opcode = INS_Opcode i in
      if INS_IsCall i then
        [\<lparr>ic_point = IPOINT_BEFORE, ic_fun = TraceCall_fn,
          ic_args = [IARG_THREAD_ID, IARG_CONST_CONTEXT, IARG_ADDRINT (INS_Address i)]\<rparr>]
      else if INS_IsRet i then
        [\<lparr>ic_point = (if INS_IsValidForIpointTakenBranch i then IPOINT_TAKEN_BRANCH else IPOINT_AFTER),
          ic_fun = TraceRet_fn, ic_args = [IARG_THREAD_ID, IARG_CONST_CONTEXT]\<rparr>]
      else if INS_IsAtomicUpdate i then
        [\<lparr>ic_point = IPOINT_BEFORE, ic_fun = TraceRMW_fn,
          ic_args = [IARG_THREAD_ID, IARG_CONST_CONTEXT, IARG_INST_PTR,
                     IARG_MEMORYWRITE_EA, IARG_MEMORYWRITE_SIZE]\<rparr>]
      else if INS_IsMemoryWrite i \<and> INS_IsStandardMemop i then
        [\<lparr>ic_point = IPOINT_BEFORE, ic_fun = TraceWrite_fn,
          ic_args = [IARG_THREAD_ID, IARG_CONST_CONTEXT, IARG_INST_PTR,
                     IARG_MEMORYWRITE_EA, IARG_MEMORYWRITE_SIZE,
                     IARG_UINT64 (instruction_code (if IsMovnt opcode then NON_TEMPORAL_STORE else STORE))]\<rparr>]
      else if INS_IsCacheLineFlush i then
        [\<lparr>ic_point = IPOINT_BEFORE, ic_fun = TraceFlush_fn,
          ic_args = [IARG_THREAD_ID, IARG_INST_PTR, IARG_MEMORYOP_EA 0,
                     IARG_UINT64 (instruction_code (GetFlushType opcode))]\<rparr>]
      else if IsFence opcode then
        [\<lparr>ic_point = IPOINT_BEFORE, ic_fun = TraceFence_fn,
          ic_args = [IARG_THREAD_ID, IARG_CONST_CONTEXT, IARG_INST_PTR]\<rparr>]
      else if INS_IsMemoryRead i \<and> INS_IsStandardMemop i then
        (if INS_HasMemoryRead2 i then
          [\<lparr>ic_point = IPOINT_BEFORE, ic_fun = TraceRead_fn,
            ic_args = [IARG_THREAD_ID, IARG_CONST_CONTEXT, IARG_INST_PTR,
                       IARG_MEMORYREAD_EA, IARG_MEMORYREAD_SIZE, IARG_MEMORYREAD2_EA]\<rparr>]
        else
          [\<lparr>ic_point = IPOINT_BEFORE, ic_fun = TraceRead_fn,
            ic_args = [IARG_THREAD_ID, IARG_CONST_CONTEXT, IARG_INST_PTR,
                       IARG_MEMORYREAD_EA, IARG_MEMORYREAD_SIZE, IARG_ADDRINT 0]\<rparr>])
      else [])"

section \<open>Configuration files\<close>

datatype LockType = MUTEX | WRITE | READ

text \<open>
  A function of the configuration. \<open>mf_type\<close> has no default initialiser in the code: \<open>None\<close>
  is its indeterminate value.
\<close>

record MutexFunctionInfo =
  mf_name :: string
  mutex_id_arg :: int
  result_id_arg :: int
  success_value :: int
  success_is_failure :: bool
  use_result_arg :: bool
  mf_type :: "LockType option"

definition new_MutexFunctionInfo :: "string \<Rightarrow> MutexFunctionInfo" where
  "new_MutexFunctionInfo name =
     \<lparr>mf_name = name, mutex_id_arg = -1, result_id_arg = -1, success_value = 0,
      success_is_failure = False, use_result_arg = False, mf_type = None\<rparr>"

datatype yaml_node =
    YAML_NO_NODE
  | YAML_SCALAR_NODE string
  | YAML_SEQUENCE_NODE "int list"
  | YAML_MAPPING_NODE "(int \<times> int) list"

text \<open>\<^verbatim>\<open>atoi\<close> of the C library: white space, a sign, digits; out of range is undefined.\<close>

definition digit_of :: "char \<Rightarrow> nat option" where
  "digit_of c = (let n = of_char c :: nat in if 48 \<le> n \<and> n \<le> 57 then Some (n - 48) else None)"

fun atoi_digits :: "string \<Rightarrow> int \<Rightarrow> int" where
  "atoi_digits [] acc = acc"
| "atoi_digits (c # cs) acc =
     (case digit_of c of None \<Rightarrow> acc | Some d \<Rightarrow> atoi_digits cs (10 * acc + int d))"

definition is_space :: "char \<Rightarrow> bool" where
  "is_space c \<longleftrightarrow> (let n = of_char c :: nat in n = 32 \<or> (9 \<le> n \<and> n \<le> 13))"

definition atoi :: "string \<Rightarrow> hs_error + int" where
  "atoi s =
     (let t = dropWhile is_space s;
          v = (case t of
                 [] \<Rightarrow> 0
               | c # cs \<Rightarrow> if c = CHR ''-'' then - atoi_digits cs 0
                           else if c = CHR ''+'' then atoi_digits cs 0
                           else atoi_digits (c # cs) 0)
      in if - (2 ^ 31) \<le> v \<and> v < 2 ^ 31 then Inr v else Inl (Undefined ''atoi out of range''))"

definition parseError :: "string \<Rightarrow> bool \<Rightarrow> hs_error + unit" where
  "parseError msg val = (if \<not> val then Inl (Exit msg) else Inr ())"

text \<open>\<open>operator[]\<close> of the map \<^verbatim>\<open>mutexTypes\<close> gives the first enumerator for an unknown key.\<close>

definition mutexTypes :: "string \<Rightarrow> LockType" where
  "mutexTypes s =
     (if s = ''regular'' then MUTEX
      else if s = ''read'' then READ
      else if s = ''shared'' then READ
      else if s = ''write'' then WRITE
      else if s = ''unique'' then WRITE
      else MUTEX)"

text \<open>Reading a node through the document, and the scalar of a key node.\<close>

definition node_at :: "(int \<Rightarrow> yaml_node option) \<Rightarrow> int \<Rightarrow> hs_error + yaml_node" where
  "node_at get_node i =
     (case get_node i of None \<Rightarrow> Inl (Undefined ''null yaml node'') | Some n \<Rightarrow> Inr n)"

definition scalar_of :: "yaml_node \<Rightarrow> hs_error + string" where
  "scalar_of n = (case n of YAML_SCALAR_NODE s \<Rightarrow> Inr s | _ \<Rightarrow> Inl (Undefined ''key is not a scalar''))"

definition read_field ::
  "(int \<Rightarrow> yaml_node option) \<Rightarrow> int \<times> int \<Rightarrow> MutexFunctionInfo \<Rightarrow> hs_error + MutexFunctionInfo" where
  "read_field get_node cur info =
     bindE (node_at get_node (snd cur)) (\<lambda>value_node.
       case value_node of
         YAML_SCALAR_NODE v \<Rightarrow>
           bindE (bindE (node_at get_node (fst cur)) scalar_of) (\<lambda>key.
             if key = ''mutex_id_arg'' then bindE (atoi v) (\<lambda>n. Inr (info\<lparr>mutex_id_arg := n\<rparr>))
             else if key = ''result_id_arg'' then
               bindE (atoi v) (\<lambda>n. Inr (info\<lparr>result_id_arg := n, use_result_arg := True\<rparr>))
             else if key = ''success_value'' then
               bindE (atoi v) (\<lambda>n. Inr (info\<lparr>success_value := n, success_is_failure := False\<rparr>))
             else if key = ''failure_value'' then
               bindE (atoi v) (\<lambda>n. Inr (info\<lparr>success_value := n, success_is_failure := True\<rparr>))
             else if key = ''type'' then Inr (info\<lparr>mf_type := Some (mutexTypes v)\<rparr>)
             else Inr info)
       | _ \<Rightarrow> bindE (parseError ''invalid function info'' False) (\<lambda>_. Inr info))"

definition parse_MutexFunctionInfo ::
  "(int \<Rightarrow> yaml_node option) \<Rightarrow> string \<Rightarrow> (int \<times> int) list \<Rightarrow> hs_error + MutexFunctionInfo" where
  "parse_MutexFunctionInfo get_node name pairs =
     foldE (read_field get_node) pairs (new_MutexFunctionInfo name)"

record MutexConfig =
  adquire :: "MutexFunctionInfo list"
  release :: "MutexFunctionInfo list"
  try_adquire :: "MutexFunctionInfo list"
  adq_rel :: "string list"
  mutex_id_size :: "int option"

definition new_MutexConfig :: MutexConfig where
  "new_MutexConfig = \<lparr>adquire = [], release = [], try_adquire = [], adq_rel = [], mutex_id_size = None\<rparr>"

definition ExtractFunctionList ::
  "(int \<Rightarrow> yaml_node option) \<Rightarrow> int list \<Rightarrow> string list \<Rightarrow> hs_error + string list" where
  "ExtractFunctionList get_node =
     foldE (\<lambda>cur funcs. bindE (node_at get_node cur) (\<lambda>value_node.
       case value_node of
         YAML_SCALAR_NODE v \<Rightarrow> Inr (funcs @ [v])
       | _ \<Rightarrow> bindE (parseError ''invalid function list element'' False) (\<lambda>_. Inr funcs)))"

definition PopulateFunctions ::
  "(int \<Rightarrow> yaml_node option) \<Rightarrow> (int \<times> int) list \<Rightarrow> MutexFunctionInfo list
     \<Rightarrow> hs_error + MutexFunctionInfo list" where
  "PopulateFunctions get_node =
     foldE (\<lambda>cur funcs. bindE (node_at get_node (snd cur)) (\<lambda>value_node.
       case value_node of
         YAML_MAPPING_NODE pairs \<Rightarrow>
           bindE (bindE (node_at get_node (fst cur)) scalar_of) (\<lambda>name.
             bindE (parse_MutexFunctionInfo get_node name pairs) (\<lambda>info. Inr (funcs @ [info])))
       | _ \<Rightarrow> bindE (parseError ''invalid function info element'' False) (\<lambda>_. Inr funcs)))"

definition read_entry ::
  "(int \<Rightarrow> yaml_node option) \<Rightarrow> int \<times> int \<Rightarrow> MutexConfig \<Rightarrow> hs_error + MutexConfig" where
  "read_entry get_node cur cfg =
     bindE (node_at get_node (snd cur)) (\<lambda>value_node.
       case value_node of
         YAML_SCALAR_NODE v \<Rightarrow>
           bindE (bindE (node_at get_node (fst cur)) scalar_of) (\<lambda>key.
             if key = ''mutex_id_size'' then bindE (atoi v) (\<lambda>n. Inr (cfg\<lparr>mutex_id_size := Some n\<rparr>))
             else bindE (parseError ''invalid scalar'' False) (\<lambda>_. Inr cfg))
       | YAML_MAPPING_NODE pairs \<Rightarrow>
           bindE (bindE (node_at get_node (fst cur)) scalar_of) (\<lambda>key.
             if key = ''adquire'' then
               bindE (PopulateFunctions get_node pairs (adquire cfg)) (\<lambda>fs. Inr (cfg\<lparr>adquire := fs\<rparr>))
             else if key = ''try_adquire'' then
               bindE (PopulateFunctions get_node pairs (try_adquire cfg)) (\<lambda>fs. Inr (cfg\<lparr>try_adquire := fs\<rparr>))
             else if key = ''release'' then
               bindE (PopulateFunctions get_node pairs (release cfg)) (\<lambda>fs. Inr (cfg\<lparr>release := fs\<rparr>))
             else bindE (parseError ''invalid mapping'' False) (\<lambda>_. Inr cfg))
       | YAML_SEQUENCE_NODE items \<Rightarrow>
           bindE (bindE (node_at get_node (fst cur)) scalar_of) (\<lambda>key.
             if key = ''adq_rel'' then
               bindE (ExtractFunctionList get_node items (adq_rel cfg)) (\<lambda>fs. Inr (cfg\<lparr>adq_rel := fs\<rparr>))
             else bindE (parseError ''invalid sequence'' False) (\<lambda>_. Inr cfg))
       | YAML_NO_NODE \<Rightarrow> bindE (parseError ''invalid node'' False) (\<lambda>_. Inr cfg))"

text \<open>
  The constructor: \<open>load\<close> is the outcome of opening and loading the file, \<open>None\<close> when one of
  the three calls fails and the constructor returns early, otherwise the root node and the
  document.
\<close>

definition parse_MutexConfig ::
  "(yaml_node option \<times> (int \<Rightarrow> yaml_node option)) option \<Rightarrow> hs_error + MutexConfig" where
  "parse_MutexConfig load =
     (case load of
        None \<Rightarrow> Inr new_MutexConfig
      | Some (root, get_node) \<Rightarrow>
          (case root of
             None \<Rightarrow> Inl (Undefined ''null yaml node'')
           | Some (YAML_MAPPING_NODE pairs) \<Rightarrow> foldE (read_entry get_node) pairs new_MutexConfig
           | Some _ \<Rightarrow> bindE (parseError ''root must be a mapping'' False) (\<lambda>_. Inr new_MutexConfig)))"

section \<open>Hooking an image\<close>

definition InstrumentAdqRelRoutine ::
  "(string \<Rightarrow> bool) \<Rightarrow> string \<Rightarrow> afunptr \<Rightarrow> afunptr \<Rightarrow> nat \<Rightarrow> (string \<times> inserted_call) list" where
  "InstrumentAdqRelRoutine rtn_valid name beforePtr afterPtr value_passed =
     (if rtn_valid name then
        [(name, \<lparr>ic_point = IPOINT_BEFORE, ic_fun = beforePtr,
                 ic_args = [IARG_THREAD_ID, IARG_RETURN_IP, IARG_UINT64 (of_nat value_passed)]\<rparr>),
         (name, \<lparr>ic_point = IPOINT_AFTER, ic_fun = afterPtr,
                 ic_args = [IARG_THREAD_ID, IARG_UINT64 (of_nat value_passed)]\<rparr>)]
      else [])"

definition type_code :: "LockType option \<Rightarrow> hs_error + u64" where
  "type_code t = (case t of
     None \<Rightarrow> Inl (Undefined ''MutexFunctionInfo.type'')
   | Some MUTEX \<Rightarrow> Inr 0 | Some WRITE \<Rightarrow> Inr 1 | Some READ \<Rightarrow> Inr 2)"

definition bool_code :: "bool \<Rightarrow> u64" where
  "bool_code b = (if b then 1 else 0)"

definition InstrumentLockRoutine ::
  "(string \<Rightarrow> bool) \<Rightarrow> afunptr \<Rightarrow> MutexFunctionInfo \<Rightarrow> afunptr option
     \<Rightarrow> hs_error + (string \<times> inserted_call) list" where
  "InstrumentLockRoutine rtn_valid beforePtr info afterPtr =
     (if \<not> rtn_valid (mf_name info) then Inr []
      else case afterPtr of
        None \<Rightarrow> Inr [(mf_name info, \<lparr>ic_point = IPOINT_BEFORE, ic_fun = beforePtr,
          ic_args = [IARG_THREAD_ID, IARG_RETURN_IP, IARG_FUNCARG_ENTRYPOINT_VALUE (mutex_id_arg info)]\<rparr>)]
      | Some after \<Rightarrow>
          bindE (if use_result_arg info
                 then Inr [IARG_THREAD_ID, IARG_RETURN_IP, IARG_FUNCARG_ENTRYPOINT_VALUE (mutex_id_arg info),
                           IARG_FUNCARG_ENTRYPOINT_VALUE (result_id_arg info)]
                 else bindE (type_code (mf_type info)) (\<lambda>t.
                        Inr [IARG_THREAD_ID, IARG_RETURN_IP, IARG_FUNCARG_ENTRYPOINT_VALUE (mutex_id_arg info),
                             IARG_UINT64 0, IARG_UINT64 t])) (\<lambda>before_args.
            Inr [(mf_name info, \<lparr>ic_point = IPOINT_BEFORE, ic_fun = beforePtr, ic_args = before_args\<rparr>),
                 (mf_name info, \<lparr>ic_point = IPOINT_AFTER, ic_fun = after,
                   ic_args = [IARG_THREAD_ID, IARG_FUNCRET_EXITPOINT_VALUE,
                              IARG_UINT64 (of_int (success_value info)),
                              IARG_UINT64 (bool_code (success_is_failure info)),
                              IARG_UINT64 (bool_code (use_result_arg info))]\<rparr>)]))"

definition hook_adquire ::
  "(string \<Rightarrow> bool) \<Rightarrow> MutexFunctionInfo \<Rightarrow> hs_error + (string \<times> inserted_call) list" where
  "hook_adquire rtn_valid info =
     (case mf_type info of
        None \<Rightarrow> Inl (Undefined ''MutexFunctionInfo.type'')
      | Some MUTEX \<Rightarrow> InstrumentLockRoutine rtn_valid LockBefore_fn info None
      | Some WRITE \<Rightarrow> InstrumentLockRoutine rtn_valid WriteLockBefore_fn info None
      | Some READ \<Rightarrow> InstrumentLockRoutine rtn_valid ReadLockBefore_fn info None)"

definition hook_release ::
  "(string \<Rightarrow> bool) \<Rightarrow> MutexFunctionInfo \<Rightarrow> hs_error + (string \<times> inserted_call) list" where
  "hook_release rtn_valid info =
     (case mf_type info of
        None \<Rightarrow> Inl (Undefined ''MutexFunctionInfo.type'')
      | Some MUTEX \<Rightarrow> InstrumentLockRoutine rtn_valid UnlockBefore_fn info None
      | Some _ \<Rightarrow> InstrumentLockRoutine rtn_valid RWUnlockBefore_fn info None)"

definition hook_try ::
  "(string \<Rightarrow> bool) \<Rightarrow> MutexFunctionInfo \<Rightarrow> hs_error + (string \<times> inserted_call) list" where
  "hook_try rtn_valid info =
     InstrumentLockRoutine rtn_valid TryLockBefore_fn info (Some TryLockAfter_fn)"

definition collect ::
  "('a \<Rightarrow> hs_error + 'b list) \<Rightarrow> 'a list \<Rightarrow> 'b list \<Rightarrow> hs_error + 'b list" where
  "collect f = foldE (\<lambda>x acc. bindE (f x) (\<lambda>ys. Inr (acc @ ys)))"

definition load_config ::
  "(string \<Rightarrow> bool) \<Rightarrow> MutexConfig \<Rightarrow> (string \<times> inserted_call) list \<times> LockRegistry
     \<Rightarrow> hs_error + ((string \<times> inserted_call) list \<times> LockRegistry)" where
  "load_config rtn_valid config = (\<lambda>(calls, r).
     bindE (collect (hook_adquire rtn_valid) (adquire config) calls) (\<lambda>calls1.
     bindE (collect (hook_release rtn_valid) (release config) calls1) (\<lambda>calls2.
     bindE (collect (hook_try rtn_valid) (try_adquire config) calls2) (\<lambda>calls3.
       case register_special_mutex r of (special_mutex, r1) \<Rightarrow>
         Inr (fold (\<lambda>name acc. acc @ InstrumentAdqRelRoutine rtn_valid name
                                TraceAdqRelBefore_fn TraceAdqRelAfter_fn special_mutex)
                (adq_rel config) calls3, r1)))))"

definition replace_routine ::
  "(string \<Rightarrow> bool) \<Rightarrow> string \<Rightarrow> afunptr \<Rightarrow> iarg list \<Rightarrow> (string \<times> afunptr \<times> iarg list) list" where
  "replace_routine rtn_valid name f args = (if rtn_valid name then [(name, f, args)] else [])"

definition ImageLoad ::
  "(string \<Rightarrow> bool) \<Rightarrow> MutexConfig list \<Rightarrow> LockRegistry
     \<Rightarrow> hs_error + ((string \<times> inserted_call) list \<times> (string \<times> afunptr \<times> iarg list) list \<times> LockRegistry)" where
  "ImageLoad rtn_valid configs r =
     bindE (foldE (load_config rtn_valid) configs ([], r)) (\<lambda>(calls, r1).
       Inr (calls,
            replace_routine rtn_valid ''pthread_create'' PthreadCreateReplacement_fn
              [IARG_THREAD_ID, IARG_ORIG_FUNCPTR, IARG_CONST_CONTEXT,
               IARG_FUNCARG_ENTRYPOINT_VALUE 0, IARG_FUNCARG_ENTRYPOINT_VALUE 1,
               IARG_FUNCARG_ENTRYPOINT_VALUE 2, IARG_FUNCARG_ENTRYPOINT_VALUE 3]
            @ replace_routine rtn_valid ''pthread_join'' PthreadJoinReplacement_fn
              [IARG_THREAD_ID, IARG_ORIG_FUNCPTR, IARG_CONST_CONTEXT,
               IARG_FUNCARG_ENTRYPOINT_VALUE 0, IARG_FUNCARG_ENTRYPOINT_VALUE 1],
            r1))"

section \<open>Lemmas\<close>

text \<open>Collecting hooks keeps what is there and adds the hooks of every element.\<close>

lemma collect_set:
  "collect f xs acc = Inr out \<Longrightarrow>
   (\<forall>x \<in> set xs. \<exists>ys. f x = Inr ys) \<and> set out = set acc \<union> (\<Union>x \<in> set xs. {y. \<exists>ys. f x = Inr ys \<and> y \<in> set ys})"
proof (induction xs arbitrary: acc)
  case (Cons x xs)
  from Cons.prems obtain ys where ys: "f x = Inr ys" "collect f xs (acc @ ys) = Inr out"
    by (auto simp: collect_def)
  from Cons.IH [OF ys(2)] ys(1) show ?case by auto
qed (simp add: collect_def)

definition adq_rel_hooks :: "(string \<Rightarrow> bool) \<Rightarrow> MutexConfig \<Rightarrow> nat \<Rightarrow> (string \<times> inserted_call) list" where
  "adq_rel_hooks rtn_valid cfg special =
     concat (map (\<lambda>name. InstrumentAdqRelRoutine rtn_valid name TraceAdqRelBefore_fn TraceAdqRelAfter_fn special)
       (adq_rel cfg))"

lemma fold_append_concat: "fold (\<lambda>x acc. acc @ f x) xs acc = acc @ concat (map f xs)"
  by (induction xs arbitrary: acc) auto

lemma load_config_set:
  assumes "load_config rtn_valid cfg (calls, r) = Inr (calls', r')"
  shows "set calls' = set calls \<union>
      (\<Union>x \<in> set (adquire cfg). {y. \<exists>ys. hook_adquire rtn_valid x = Inr ys \<and> y \<in> set ys}) \<union>
      (\<Union>x \<in> set (release cfg). {y. \<exists>ys. hook_release rtn_valid x = Inr ys \<and> y \<in> set ys}) \<union>
      (\<Union>x \<in> set (try_adquire cfg). {y. \<exists>ys. hook_try rtn_valid x = Inr ys \<and> y \<in> set ys}) \<union>
      set (adq_rel_hooks rtn_valid cfg (lock_counter r))"
    "(\<forall>x \<in> set (adquire cfg). \<exists>ys. hook_adquire rtn_valid x = Inr ys) \<and>
     (\<forall>x \<in> set (release cfg). \<exists>ys. hook_release rtn_valid x = Inr ys) \<and>
     (\<forall>x \<in> set (try_adquire cfg). \<exists>ys. hook_try rtn_valid x = Inr ys)"
    "r' = r\<lparr>lock_counter := lock_counter r + 1\<rparr>"
proof -
  obtain c1 c2 c3 where c: "collect (hook_adquire rtn_valid) (adquire cfg) calls = Inr c1"
    "collect (hook_release rtn_valid) (release cfg) c1 = Inr c2"
    "collect (hook_try rtn_valid) (try_adquire cfg) c2 = Inr c3"
    and calls': "calls' = c3 @ adq_rel_hooks rtn_valid cfg (lock_counter r)"
    and r': "r' = r\<lparr>lock_counter := lock_counter r + 1\<rparr>"
    using assms by (auto simp: load_config_def register_special_mutex_def fold_append_concat adq_rel_hooks_def)
  from collect_set [OF c(1)] collect_set [OF c(2)] collect_set [OF c(3)]
  show "set calls' = set calls \<union>
      (\<Union>x \<in> set (adquire cfg). {y. \<exists>ys. hook_adquire rtn_valid x = Inr ys \<and> y \<in> set ys}) \<union>
      (\<Union>x \<in> set (release cfg). {y. \<exists>ys. hook_release rtn_valid x = Inr ys \<and> y \<in> set ys}) \<union>
      (\<Union>x \<in> set (try_adquire cfg). {y. \<exists>ys. hook_try rtn_valid x = Inr ys \<and> y \<in> set ys}) \<union>
      set (adq_rel_hooks rtn_valid cfg (lock_counter r))"
    "(\<forall>x \<in> set (adquire cfg). \<exists>ys. hook_adquire rtn_valid x = Inr ys) \<and>
     (\<forall>x \<in> set (release cfg). \<exists>ys. hook_release rtn_valid x = Inr ys) \<and>
     (\<forall>x \<in> set (try_adquire cfg). \<exists>ys. hook_try rtn_valid x = Inr ys)"
    unfolding calls' by auto
  show "r' = r\<lparr>lock_counter := lock_counter r + 1\<rparr>" by (rule r')
qed

lemma load_configs_set:
  "foldE (load_config rtn_valid) cfgs (calls, r) = Inr (calls', r') \<Longrightarrow>
   set calls \<subseteq> set calls' \<and> lock_counter r' = lock_counter r + length cfgs \<and>
   (\<forall>i < length cfgs. set (adq_rel_hooks rtn_valid (cfgs ! i) (lock_counter r + i)) \<subseteq> set calls' \<and>
     (\<forall>info \<in> set (adquire (cfgs ! i)). \<exists>ys. hook_adquire rtn_valid info = Inr ys \<and> set ys \<subseteq> set calls') \<and>
     (\<forall>info \<in> set (release (cfgs ! i)). \<exists>ys. hook_release rtn_valid info = Inr ys \<and> set ys \<subseteq> set calls') \<and>
     (\<forall>info \<in> set (try_adquire (cfgs ! i)). \<exists>ys. hook_try rtn_valid info = Inr ys \<and> set ys \<subseteq> set calls'))"
proof (induction cfgs arbitrary: calls r)
  case (Cons cfg cfgs)
  from Cons.prems obtain calls1 r1 where
    1: "load_config rtn_valid cfg (calls, r) = Inr (calls1, r1)"
    and 2: "foldE (load_config rtn_valid) cfgs (calls1, r1) = Inr (calls', r')" by auto
  note l = load_config_set [OF 1]
  note ih = Cons.IH [OF 2]
  have sub: "set calls1 \<subseteq> set calls'" using ih by blast
  have first: "set (adq_rel_hooks rtn_valid cfg (lock_counter r)) \<subseteq> set calls' \<and>
     (\<forall>info \<in> set (adquire cfg). \<exists>ys. hook_adquire rtn_valid info = Inr ys \<and> set ys \<subseteq> set calls') \<and>
     (\<forall>info \<in> set (release cfg). \<exists>ys. hook_release rtn_valid info = Inr ys \<and> set ys \<subseteq> set calls') \<and>
     (\<forall>info \<in> set (try_adquire cfg). \<exists>ys. hook_try rtn_valid info = Inr ys \<and> set ys \<subseteq> set calls')"
    using l(1,2) sub by fast
  define P where "P i = (set (adq_rel_hooks rtn_valid ((cfg # cfgs) ! i) (lock_counter r + i)) \<subseteq> set calls' \<and>
     (\<forall>info \<in> set (adquire ((cfg # cfgs) ! i)). \<exists>ys. hook_adquire rtn_valid info = Inr ys \<and> set ys \<subseteq> set calls') \<and>
     (\<forall>info \<in> set (release ((cfg # cfgs) ! i)). \<exists>ys. hook_release rtn_valid info = Inr ys \<and> set ys \<subseteq> set calls') \<and>
     (\<forall>info \<in> set (try_adquire ((cfg # cfgs) ! i)). \<exists>ys. hook_try rtn_valid info = Inr ys \<and> set ys \<subseteq> set calls'))" for i
  have "P i" if i: "i < length (cfg # cfgs)" for i
  proof (cases i)
    case 0
    with first show ?thesis by (simp add: P_def)
  next
    case (Suc j)
    then have "j < length cfgs" using i by simp
    with ih Suc l(3) show ?thesis by (simp add: P_def)
  qed
  moreover have "set calls \<subseteq> set calls'" using l(1) sub by blast
  moreover have "lock_counter r' = lock_counter r + length (cfg # cfgs)" using ih l(3) by simp
  ultimately show ?case unfolding P_def by blast
qed simp

text \<open>The hooks of one function the image has.\<close>

lemma hook_adquire_calls:
  assumes "\<exists>ys. hook_adquire rtn_valid info = Inr ys \<and> set ys \<subseteq> X" "rtn_valid (mf_name info)"
  shows "\<exists>t. mf_type info = Some t \<and>
    (mf_name info, \<lparr>ic_point = IPOINT_BEFORE,
       ic_fun = (case t of MUTEX \<Rightarrow> LockBefore_fn | WRITE \<Rightarrow> WriteLockBefore_fn | READ \<Rightarrow> ReadLockBefore_fn),
       ic_args = [IARG_THREAD_ID, IARG_RETURN_IP, IARG_FUNCARG_ENTRYPOINT_VALUE (mutex_id_arg info)]\<rparr>) \<in> X"
  using assms by (auto simp: hook_adquire_def InstrumentLockRoutine_def split: option.splits LockType.splits)

lemma hook_release_calls:
  assumes "\<exists>ys. hook_release rtn_valid info = Inr ys \<and> set ys \<subseteq> X" "rtn_valid (mf_name info)"
  shows "\<exists>t. mf_type info = Some t \<and>
    (mf_name info, \<lparr>ic_point = IPOINT_BEFORE,
       ic_fun = (if t = MUTEX then UnlockBefore_fn else RWUnlockBefore_fn),
       ic_args = [IARG_THREAD_ID, IARG_RETURN_IP, IARG_FUNCARG_ENTRYPOINT_VALUE (mutex_id_arg info)]\<rparr>) \<in> X"
  using assms by (auto simp: hook_release_def InstrumentLockRoutine_def split: option.splits LockType.splits)

lemma hook_try_calls:
  assumes "\<exists>ys. hook_try rtn_valid info = Inr ys \<and> set ys \<subseteq> X" "rtn_valid (mf_name info)"
  shows "\<exists>args. (if use_result_arg info then args = [IARG_FUNCARG_ENTRYPOINT_VALUE (result_id_arg info)]
         else \<exists>t. mf_type info = Some t \<and>
           args = [IARG_UINT64 0, IARG_UINT64 (case t of MUTEX \<Rightarrow> 0 | WRITE \<Rightarrow> 1 | READ \<Rightarrow> 2)]) \<and>
      (mf_name info, \<lparr>ic_point = IPOINT_BEFORE, ic_fun = TryLockBefore_fn,
         ic_args = [IARG_THREAD_ID, IARG_RETURN_IP, IARG_FUNCARG_ENTRYPOINT_VALUE (mutex_id_arg info)] @ args\<rparr>) \<in> X"
    "(mf_name info, \<lparr>ic_point = IPOINT_AFTER, ic_fun = TryLockAfter_fn,
       ic_args = [IARG_THREAD_ID, IARG_FUNCRET_EXITPOINT_VALUE, IARG_UINT64 (of_int (success_value info)),
         IARG_UINT64 (if success_is_failure info then 1 else 0), IARG_UINT64 (if use_result_arg info then 1 else 0)]\<rparr>) \<in> X"
  using assms
  by (auto simp: hook_try_def InstrumentLockRoutine_def bool_code_def type_code_def split: option.splits LockType.splits if_splits)

text \<open>
  The special mutexes that the hooks on a function pass to a routine: those of the configurations that name it.
\<close>

definition hook_mutexes :: "(string \<times> inserted_call) list \<Rightarrow> afunptr \<Rightarrow> string \<Rightarrow> u64 list" where
  "hook_mutexes calls fn name =
     concat (map (\<lambda>(f, call). if f = name \<and> ic_fun call = fn
                              then concat (map (\<lambda>arg. case arg of IARG_UINT64 i \<Rightarrow> [i] | _ \<Rightarrow> []) (ic_args call)) else []) calls)"

definition mutexes_in :: "(string \<times> inserted_call) set \<Rightarrow> afunptr \<Rightarrow> string \<Rightarrow> u64 set" where
  "mutexes_in X fn name = {i. \<exists>call. (name, call) \<in> X \<and> ic_fun call = fn \<and> IARG_UINT64 i \<in> set (ic_args call)}"

lemma set_hook_mutexes: "set (hook_mutexes calls fn name) = mutexes_in (set calls) fn name"
  by (force simp: hook_mutexes_def mutexes_in_def split: iarg.splits if_splits)

lemma mutexes_in_Un: "mutexes_in (X \<union> Y) fn name = mutexes_in X fn name \<union> mutexes_in Y fn name"
  by (auto simp: mutexes_in_def)

lemma hook_other_routines:
  "hook_adquire rtn_valid info = Inr ys \<Longrightarrow> (f, call) \<in> set ys \<Longrightarrow> ic_fun call \<notin> {TraceAdqRelBefore_fn, TraceAdqRelAfter_fn}"
  "hook_release rtn_valid info = Inr ys \<Longrightarrow> (f, call) \<in> set ys \<Longrightarrow> ic_fun call \<notin> {TraceAdqRelBefore_fn, TraceAdqRelAfter_fn}"
  "hook_try rtn_valid info = Inr ys \<Longrightarrow> (f, call) \<in> set ys \<Longrightarrow> ic_fun call \<notin> {TraceAdqRelBefore_fn, TraceAdqRelAfter_fn}"
  by (auto simp: hook_adquire_def hook_release_def hook_try_def InstrumentLockRoutine_def
      split: option.splits LockType.splits if_splits)

lemma no_mutexes_in:
  assumes "\<And>x ys f call. x \<in> A \<Longrightarrow> h x = Inr ys \<Longrightarrow> (f, call) \<in> set ys \<Longrightarrow> ic_fun call \<notin> S" "fn \<in> S"
  shows "mutexes_in (\<Union>x \<in> A. {y. \<exists>ys. h x = Inr ys \<and> y \<in> set ys}) fn name = {}"
  using assms by (fastforce simp: mutexes_in_def)

lemma load_config_mutexes:
  assumes "load_config rtn_valid cfg (calls, r) = Inr (calls', r')" "rtn_valid name" "fn \<in> {TraceAdqRelBefore_fn, TraceAdqRelAfter_fn}"
  shows "set (hook_mutexes calls' fn name) =
    set (hook_mutexes calls fn name) \<union> (if name \<in> set (adq_rel cfg) then {of_nat (lock_counter r)} else {})"
proof -
  have special: "mutexes_in (set (adq_rel_hooks rtn_valid cfg (lock_counter r))) fn name =
      (if name \<in> set (adq_rel cfg) then {of_nat (lock_counter r)} else {})"
    using assms(2,3) by (auto simp: mutexes_in_def adq_rel_hooks_def InstrumentAdqRelRoutine_def)
  have none: "mutexes_in (\<Union>x \<in> set (adquire cfg). {y. \<exists>ys. hook_adquire rtn_valid x = Inr ys \<and> y \<in> set ys}) fn name = {}"
    "mutexes_in (\<Union>x \<in> set (release cfg). {y. \<exists>ys. hook_release rtn_valid x = Inr ys \<and> y \<in> set ys}) fn name = {}"
    "mutexes_in (\<Union>x \<in> set (try_adquire cfg). {y. \<exists>ys. hook_try rtn_valid x = Inr ys \<and> y \<in> set ys}) fn name = {}"
    by (rule no_mutexes_in [OF _ assms(3)], erule (1) hook_other_routines)+
  show ?thesis
    unfolding set_hook_mutexes load_config_set(1) [OF assms(1)] mutexes_in_Un none special by simp
qed

lemma load_configs_mutexes:
  "foldE (load_config rtn_valid) cfgs (calls, r) = Inr (calls', r') \<Longrightarrow> rtn_valid name \<Longrightarrow>
   fn \<in> {TraceAdqRelBefore_fn, TraceAdqRelAfter_fn} \<Longrightarrow>
   set (hook_mutexes calls' fn name) = set (hook_mutexes calls fn name) \<union>
     {m. \<exists>i < length cfgs. name \<in> set (adq_rel (cfgs ! i)) \<and> m = of_nat (lock_counter r + i)}"
proof (induction cfgs arbitrary: calls r)
  case (Cons cfg cfgs)
  from Cons.prems(1) obtain calls1 r1 where
    1: "load_config rtn_valid cfg (calls, r) = Inr (calls1, r1)"
    and 2: "foldE (load_config rtn_valid) cfgs (calls1, r1) = Inr (calls', r')" by auto
  have "{m :: u64. \<exists>i < length (cfg # cfgs). name \<in> set (adq_rel ((cfg # cfgs) ! i)) \<and> m = of_nat (lock_counter r + i)} =
      (if name \<in> set (adq_rel cfg) then {of_nat (lock_counter r)} else {}) \<union>
      {m. \<exists>i < length cfgs. name \<in> set (adq_rel (cfgs ! i)) \<and> m = of_nat (lock_counter r1 + i)}"
    unfolding load_config_set(3) [OF 1] length_Cons Ex_less_Suc2 by auto
  with Cons.IH [OF 2 Cons.prems(2,3)] load_config_mutexes [OF 1 Cons.prems(2,3)] show ?case by auto
qed simp

lemma ImageLoad_mutexes:
  assumes "ImageLoad rtn_valid cfgs r = Inr (calls, reps, r')" "rtn_valid name" "fn \<in> {TraceAdqRelBefore_fn, TraceAdqRelAfter_fn}"
  shows "set (hook_mutexes calls fn name) = {m. \<exists>i < length cfgs. name \<in> set (adq_rel (cfgs ! i)) \<and> m = of_nat (lock_counter r + i)}"
  using load_configs_mutexes [of rtn_valid cfgs "[]" r calls r' name fn] assms
  by (auto simp: ImageLoad_def hook_mutexes_def)

section \<open>Properties\<close>

text \<open>
  Instrumentation of an instruction: at most one call is inserted, and it passes
  exactly as many arguments as the analysis routine has parameters.
\<close>
lemma TraceInstructions_arity:
  "length (TraceInstructions i) \<le> 1 \<and>
   list_all (\<lambda>call. length (ic_args call) = routine_arity (ic_fun call)) (TraceInstructions i)"
  by (simp add: TraceInstructions_def Let_def)

text \<open>
  Which instructions are traced as loads: only those that read memory and are no call, no
  return, no atomic update, no standard store, no flush and no fence. The read half of an
  atomic update, or of an instruction that also writes memory, is not recorded.
\<close>
lemma TraceRead_only_pure_loads:
  "TraceRead_fn \<in> ic_fun ` set (TraceInstructions i) \<longleftrightarrow>
     INS_IsMemoryRead i \<and> INS_IsStandardMemop i \<and> \<not> INS_IsCall i \<and> \<not> INS_IsRet i \<and> \<not> INS_IsAtomicUpdate i \<and>
     \<not> INS_IsMemoryWrite i \<and> \<not> INS_IsCacheLineFlush i \<and> \<not> IsFence (INS_Opcode i)"
  by (auto simp: TraceInstructions_def Let_def)

text \<open>
  The hooks of a try-lock function do not fit their routines: whenever the hook is
  installed, \<^verbatim>\<open>TryLockAfter\<close> is called with five arguments although it has six parameters,
  and \<^verbatim>\<open>TryLockBefore\<close> gets the lock type as a fifth argument it does not have, unless the
  result is passed through an argument.
\<close>
lemma try_lock_hook_arguments:
  assumes "hook_try rtn_valid info = Inr calls" "rtn_valid (mf_name info)"
  shows "\<exists>before after. calls = [(mf_name info, before), (mf_name info, after)] \<and>
    ic_fun before = TryLockBefore_fn \<and> ic_fun after = TryLockAfter_fn \<and>
    length (ic_args after) = 5 \<and> routine_arity TryLockAfter_fn = 6 \<and>
    length (ic_args before) = (if use_result_arg info then 4 else 5) \<and> routine_arity TryLockBefore_fn = 4"
  using assms by (auto simp: hook_try_def InstrumentLockRoutine_def split: if_splits)

lemma try_lock_hook_arguments_witness:
  "\<exists>before after. hook_try (\<lambda>_. True) ((new_MutexFunctionInfo ''trylock'')\<lparr>mf_type := Some MUTEX\<rparr>) =
     Inr [(''trylock'', before), (''trylock'', after)] \<and> length (ic_args after) = 5"
proof -
  let ?i = "(new_MutexFunctionInfo ''trylock'')\<lparr>mf_type := Some MUTEX\<rparr>"
  obtain calls where r: "hook_try (\<lambda>_. True) ?i = Inr calls"
    by (simp add: hook_try_def InstrumentLockRoutine_def type_code_def new_MutexFunctionInfo_def)
  from try_lock_hook_arguments [OF r] r show ?thesis by (auto simp: new_MutexFunctionInfo_def)
qed

text \<open>
  C35. Hooking an image: for every configuration file, in order, each lock, unlock, try-lock and
  acquire/release function the image has is hooked with the routines of its kind, with the
  argument holding the mutex. A try-lock function is hooked at its entry, with the argument that holds its
  result when the result is not returned, and at its exit, with the value its result is compared with and whether
  equality means failure. The acquire/release functions of the \<open>i\<close>-th file all
  stand for one special mutex, the \<open>i\<close>-th index after those handed out before.
\<close>
theorem ImageLoad_hooks_configured:
  assumes "ImageLoad rtn_valid cfgs r = Inr (calls, reps, r')" and "i < length cfgs"
  shows "(\<forall>info \<in> set (adquire (cfgs ! i)). rtn_valid (mf_name info) \<longrightarrow>
      (\<exists>t. mf_type info = Some t \<and>
        (mf_name info, \<lparr>ic_point = IPOINT_BEFORE,
           ic_fun = (case t of MUTEX \<Rightarrow> LockBefore_fn | WRITE \<Rightarrow> WriteLockBefore_fn | READ \<Rightarrow> ReadLockBefore_fn),
           ic_args = [IARG_THREAD_ID, IARG_RETURN_IP, IARG_FUNCARG_ENTRYPOINT_VALUE (mutex_id_arg info)]\<rparr>) \<in> set calls)) \<and>
    (\<forall>info \<in> set (release (cfgs ! i)). rtn_valid (mf_name info) \<longrightarrow>
      (\<exists>t. mf_type info = Some t \<and>
        (mf_name info, \<lparr>ic_point = IPOINT_BEFORE,
           ic_fun = (if t = MUTEX then UnlockBefore_fn else RWUnlockBefore_fn),
           ic_args = [IARG_THREAD_ID, IARG_RETURN_IP, IARG_FUNCARG_ENTRYPOINT_VALUE (mutex_id_arg info)]\<rparr>) \<in> set calls)) \<and>
    (\<forall>info \<in> set (try_adquire (cfgs ! i)). rtn_valid (mf_name info) \<longrightarrow>
      (\<exists>args. (if use_result_arg info then args = [IARG_FUNCARG_ENTRYPOINT_VALUE (result_id_arg info)]
               else \<exists>t. mf_type info = Some t \<and>
                 args = [IARG_UINT64 0, IARG_UINT64 (case t of MUTEX \<Rightarrow> 0 | WRITE \<Rightarrow> 1 | READ \<Rightarrow> 2)]) \<and>
        (mf_name info, \<lparr>ic_point = IPOINT_BEFORE, ic_fun = TryLockBefore_fn,
           ic_args = [IARG_THREAD_ID, IARG_RETURN_IP, IARG_FUNCARG_ENTRYPOINT_VALUE (mutex_id_arg info)] @ args\<rparr>) \<in> set calls) \<and>
      (mf_name info, \<lparr>ic_point = IPOINT_AFTER, ic_fun = TryLockAfter_fn,
         ic_args = [IARG_THREAD_ID, IARG_FUNCRET_EXITPOINT_VALUE, IARG_UINT64 (of_int (success_value info)),
           IARG_UINT64 (if success_is_failure info then 1 else 0), IARG_UINT64 (if use_result_arg info then 1 else 0)]\<rparr>) \<in> set calls) \<and>
    (\<forall>name \<in> set (adq_rel (cfgs ! i)). rtn_valid name \<longrightarrow>
      (name, \<lparr>ic_point = IPOINT_BEFORE, ic_fun = TraceAdqRelBefore_fn,
         ic_args = [IARG_THREAD_ID, IARG_RETURN_IP, IARG_UINT64 (of_nat (lock_counter r + i))]\<rparr>) \<in> set calls \<and>
      (name, \<lparr>ic_point = IPOINT_AFTER, ic_fun = TraceAdqRelAfter_fn,
         ic_args = [IARG_THREAD_ID, IARG_UINT64 (of_nat (lock_counter r + i))]\<rparr>) \<in> set calls) \<and>
    lock_counter r' = lock_counter r + length cfgs"
proof -
  from assms(1) have f: "foldE (load_config rtn_valid) cfgs ([], r) = Inr (calls, r')"
    by (auto simp: ImageLoad_def)
  note s = load_configs_set [OF f]
  have a: "\<exists>ys. hook_adquire rtn_valid info = Inr ys \<and> set ys \<subseteq> set calls" if "info \<in> set (adquire (cfgs ! i))" for info
    using s assms(2) that by blast
  have b: "\<exists>ys. hook_release rtn_valid info = Inr ys \<and> set ys \<subseteq> set calls" if "info \<in> set (release (cfgs ! i))" for info
    using s assms(2) that by blast
  have t: "\<exists>ys. hook_try rtn_valid info = Inr ys \<and> set ys \<subseteq> set calls" if "info \<in> set (try_adquire (cfgs ! i))" for info
    using s assms(2) that by blast
  have c: "set (adq_rel_hooks rtn_valid (cfgs ! i) (lock_counter r + i)) \<subseteq> set calls"
    and d: "lock_counter r' = lock_counter r + length cfgs"
    using s assms(2) by blast+
  show ?thesis
    by (intro conjI ballI impI d; (drule (1) hook_adquire_calls [OF a] hook_release_calls [OF b] hook_try_calls [OF t] | use c in \<open>fastforce simp: adq_rel_hooks_def InstrumentAdqRelRoutine_def\<close>); blast?)
qed

theorem ImageLoad_hooks_configured_witness:
  "\<exists>calls reps r'. ImageLoad (\<lambda>_. True) [new_MutexConfig\<lparr>adquire := [(new_MutexFunctionInfo ''lock'')\<lparr>mutex_id_arg := 0, mf_type := Some MUTEX\<rparr>],
         try_adquire := [(new_MutexFunctionInfo ''try'')\<lparr>mutex_id_arg := 0, mf_type := Some READ\<rparr>]\<rparr>]
       init_registry = Inr (calls, reps, r') \<and>
     (''lock'', \<lparr>ic_point = IPOINT_BEFORE, ic_fun = LockBefore_fn,
        ic_args = [IARG_THREAD_ID, IARG_RETURN_IP, IARG_FUNCARG_ENTRYPOINT_VALUE 0]\<rparr>) \<in> set calls \<and>
     (''try'', \<lparr>ic_point = IPOINT_BEFORE, ic_fun = TryLockBefore_fn,
        ic_args = [IARG_THREAD_ID, IARG_RETURN_IP, IARG_FUNCARG_ENTRYPOINT_VALUE 0, IARG_UINT64 0, IARG_UINT64 2]\<rparr>) \<in> set calls"
proof -
  let ?i = "(new_MutexFunctionInfo ''lock'')\<lparr>mutex_id_arg := 0, mf_type := Some MUTEX\<rparr>"
    and ?t = "(new_MutexFunctionInfo ''try'')\<lparr>mutex_id_arg := 0, mf_type := Some READ\<rparr>"
  let ?c = "new_MutexConfig\<lparr>adquire := [?i], try_adquire := [?t]\<rparr>"
  obtain calls reps r' where r: "ImageLoad (\<lambda>_. True) [?c] init_registry = Inr (calls, reps, r')"
    by (simp add: ImageLoad_def load_config_def collect_def hook_adquire_def hook_try_def InstrumentLockRoutine_def
        type_code_def new_MutexConfig_def new_MutexFunctionInfo_def register_special_mutex_def)
  have "?i \<in> set (adquire ([?c] ! 0))" "?t \<in> set (try_adquire ([?c] ! 0))" by simp_all
  with ImageLoad_hooks_configured [OF r, of 0] r show ?thesis
    by (simp add: new_MutexFunctionInfo_def new_MutexConfig_def)
qed

end
