(* ===== verification/State.thy ===== *)
theory State
  imports Cache VectorClocks Backtraces PMAlloc Irh Instrument
begin

text \<open>
  The state of the tool (\<^verbatim>\<open>src/src/hawkset.cpp\<close>): the records \<open>StoreData\<close>,
  \<open>StoreFenceData\<close>, \<open>access_key_t\<close> and \<open>ThreadData\<close>, the per-thread array
  \<^verbatim>\<open>analysis_data_tls\<close>, and the process-wide variables, gathered in the record \<open>hawk\<close>.
  The array is a function on thread identifiers: identifiers are below \<open>TLS_MAX_SIZE\<close>,
  which \<^verbatim>\<open>TraceThreadStart\<close> asserts. The mutexes of the tool that guard the shared tables are
  held only inside a callback, which is one atomic step of the model; the mutex and the
  semaphore of thread creation are held across callbacks and are part of the state.
\<close>

definition TLS_MAX_SIZE :: nat where
  "TLS_MAX_SIZE = 1000"

datatype MemState = DIRTY | FLUSHED

record StoreData =
  timed_lockset :: pTimedLockset
  sd_backtrace :: backtrace_t

record StoreFenceData =
  common_set :: pLockset
  sfd_clock_i :: u16
  write_trace :: backtrace_t
  fence_trace :: backtrace_t
  sfd_address :: u64
  persisted :: bool
  was_flushed :: bool

record access_key_t =
  key_address :: u64
  key_backtrace :: backtrace_t
  key_clock_i :: u16
  key_mask :: u64

type_synonym lockset_set_t = "pLockset list"
type_synonym line_state = "(u64 \<times> StoreData) list"
type_synonym mem_state_t = "(u64 \<times> line_state) list"
type_synonym loads_opt_t = "(u64 \<times> ((backtrace_t \<times> u64) \<times> lockset_set_t) list) list"

record ThreadData =
  current_timedlockset :: TimedLockset
  cached_timedlockset :: "pTimedLockset option"
  vector_clocks :: "VectorClock list"
  race_likely_stores :: "StoreFenceData list"
  race_likely_loads :: "(access_key_t \<times> lockset_set_t) list"
  race_likely_loads_opt :: loads_opt_t
  mem_state :: mem_state_t
  flushed_mem_state :: mem_state_t
  td_tid :: nat
  lock_clock :: u32
  try_lock_mutex :: u64
  try_lock_return_address :: u64
  result_address :: u64
  used :: bool
  stack :: "u64 list"

definition new_ThreadData :: ThreadData where
  "new_ThreadData =
     \<lparr>current_timedlockset = new_TimedLockset, cached_timedlockset = None, vector_clocks = [],
      race_likely_stores = [], race_likely_loads = [], race_likely_loads_opt = [],
      mem_state = [], flushed_mem_state = [], td_tid = 0, lock_clock = 0,
      try_lock_mutex = 0, try_lock_return_address = 0, result_address = 0,
      used = False, stack = []\<rparr>"

record hawk =
  analysis_data_tls :: "nat \<Rightarrow> ThreadData"
  registry :: LockRegistry
  ls_heap :: lockset_heap
  tls_heap :: timedlockset_heap
  bt_heap :: backtrace_heap
  irh :: irh_state
  pm :: alloc_state
  creator_thread_clock :: VectorClock
  creator_thread_id :: int
  created_thread_id :: nat
  exit_threads_clock :: "(nat \<times> VectorClock) list"
  pthread_id_to_tid :: "(u64 \<times> nat) list"
  use_init_removal_heuristic_n :: u64
  backtrace_depth :: u64
  check_unpersisted_stores :: bool
  thread_creation_mutex :: "nat option"
  thread_creation_semaphore :: bool

definition init_hawk :: "u64 \<Rightarrow> u64 \<Rightarrow> bool \<Rightarrow> hawk" where
  "init_hawk n depth unpersisted =
     \<lparr>analysis_data_tls = (\<lambda>_. new_ThreadData), registry = init_registry,
      ls_heap = init_lockset_heap, tls_heap = init_timedlockset_heap,
      bt_heap = init_backtrace_heap, irh = init_irh, pm = init_alloc_state,
      creator_thread_clock = new_VectorClock, creator_thread_id = -1, created_thread_id = 0,
      exit_threads_clock = [], pthread_id_to_tid = [],
      use_init_removal_heuristic_n = n, backtrace_depth = depth,
      check_unpersisted_stores = unpersisted, thread_creation_mutex = None,
      thread_creation_semaphore = False\<rparr>"

abbreviation get_thread_data :: "hawk \<Rightarrow> nat \<Rightarrow> ThreadData" where
  "get_thread_data g tid \<equiv> analysis_data_tls g tid"

definition update_thread :: "nat \<Rightarrow> (ThreadData \<Rightarrow> ThreadData) \<Rightarrow> hawk \<Rightarrow> hawk" where
  "update_thread tid f g =
     g\<lparr>analysis_data_tls := (analysis_data_tls g)(tid := f (analysis_data_tls g tid))\<rparr>"

definition CACHE_LINE :: "u64 \<Rightarrow> u64" where
  "CACHE_LINE a = (a div 64) * 64"

text \<open>\<^verbatim>\<open>get_next_id\<close>: the 32-bit counter is returned and then incremented.\<close>

definition get_next_id :: "ThreadData \<Rightarrow> u32 \<times> ThreadData" where
  "get_next_id td = (lock_clock td, td\<lparr>lock_clock := lock_clock td + 1\<rparr>)"

text \<open>\<^verbatim>\<open>uint16_t clock_i = tdata->vector_clocks.size()-1\<close>.\<close>

definition current_clock_i :: "ThreadData \<Rightarrow> u16" where
  "current_clock_i td = ucast (of_nat (length (vector_clocks td)) - 1 :: u64)"

definition get_timedlockset :: "nat \<Rightarrow> hawk \<Rightarrow> pTimedLockset \<times> hawk" where
  "get_timedlockset tid g =
     (let td = get_thread_data g tid in
      case cached_timedlockset td of
        Some p \<Rightarrow> (p, g)
      | None \<Rightarrow> (case timedlockset_cache_get (current_timedlockset td) (tls_heap g) of
          (p, h) \<Rightarrow> (p, update_thread tid (\<lambda>td. td\<lparr>cached_timedlockset := Some p\<rparr>) (g\<lparr>tls_heap := h\<rparr>))))"

text \<open>The heuristic and the backtrace table on the whole state.\<close>

definition hawk_HandleAccessByte :: "nat \<Rightarrow> u64 \<Rightarrow> hawk \<Rightarrow> hs_error + (bool \<times> hawk)" where
  "hawk_HandleAccessByte tid address g =
     bindE (HandleAccessByte (use_init_removal_heuristic_n g) tid address (irh g))
       (\<lambda>(b, st). Inr (b, g\<lparr>irh := st\<rparr>))"

definition hawk_HandleAccess :: "nat \<Rightarrow> u64 \<Rightarrow> u32 \<Rightarrow> hawk \<Rightarrow> hs_error + (u64 \<times> hawk)" where
  "hawk_HandleAccess tid address sz g =
     bindE (HandleAccess (use_init_removal_heuristic_n g) tid address sz (irh g))
       (\<lambda>(mask, st). Inr (mask, g\<lparr>irh := st\<rparr>))"

definition hawk_GetBacktrace :: "u64 \<Rightarrow> nat \<Rightarrow> hawk \<Rightarrow> backtrace_t \<times> hawk" where
  "hawk_GetBacktrace ctxt tid g =
     (case GetBacktrace ctxt (backtrace_depth g) (stack (get_thread_data g tid)) (bt_heap g) of
        (b, h) \<Rightarrow> (b, g\<lparr>bt_heap := h\<rparr>))"

section \<open>Frame rules\<close>

lemma analysis_update_thread [simp]:
  "analysis_data_tls (update_thread tid f g) =
     (analysis_data_tls g)(tid := f (analysis_data_tls g tid))"
  by (simp add: update_thread_def)

lemma update_thread_frame [simp]:
  "registry (update_thread tid f g) = registry g"
  "ls_heap (update_thread tid f g) = ls_heap g"
  "tls_heap (update_thread tid f g) = tls_heap g"
  "bt_heap (update_thread tid f g) = bt_heap g"
  "irh (update_thread tid f g) = irh g"
  "pm (update_thread tid f g) = pm g"
  "creator_thread_clock (update_thread tid f g) = creator_thread_clock g"
  "creator_thread_id (update_thread tid f g) = creator_thread_id g"
  "created_thread_id (update_thread tid f g) = created_thread_id g"
  "exit_threads_clock (update_thread tid f g) = exit_threads_clock g"
  "pthread_id_to_tid (update_thread tid f g) = pthread_id_to_tid g"
  "use_init_removal_heuristic_n (update_thread tid f g) = use_init_removal_heuristic_n g"
  "backtrace_depth (update_thread tid f g) = backtrace_depth g"
  "check_unpersisted_stores (update_thread tid f g) = check_unpersisted_stores g"
  "thread_creation_mutex (update_thread tid f g) = thread_creation_mutex g"
  "thread_creation_semaphore (update_thread tid f g) = thread_creation_semaphore g"
  by (simp_all add: update_thread_def)

lemma CACHE_LINE_mask: "CACHE_LINE a = a AND NOT 63"
proof -
  have "CACHE_LINE a = push_bit 6 (drop_bit 6 a)"
    by (simp add: CACHE_LINE_def push_bit_eq_mult drop_bit_eq_div)
  also have "\<dots> = a AND NOT (mask 6)"
    by (rule bit_word_eqI) (auto simp: bit_push_bit_iff bit_drop_bit_eq bit_and_iff bit_not_iff bit_mask_iff)
  also have "mask 6 = (63 :: u64)" by (simp add: mask_eq_exp_minus_1)
  finally show ?thesis .
qed

lemma current_clock_i_mod:
  assumes "vector_clocks td \<noteq> []"
  shows "unat (current_clock_i td) = (length (vector_clocks td) - 1) mod 2 ^ 16"
proof -
  obtain m where m: "length (vector_clocks td) = Suc m"
    using assms by (cases "vector_clocks td") auto
  have "unat (current_clock_i td) = m mod 2 ^ 64 mod 2 ^ 16"
    by (simp add: current_clock_i_def m unat_ucast_mod unat_of_nat)
  also have "\<dots> = m mod 2 ^ 16" by (rule mod_mod_cancel) simp
  finally show ?thesis by (simp add: m)
qed

lemma current_clock_i_bound:
  "vector_clocks td \<noteq> [] \<Longrightarrow> unat (current_clock_i td) < length (vector_clocks td)"
  using mod_less_eq_dividend [of "length (vector_clocks td) - 1" "2 ^ 16"]
  by (cases "vector_clocks td") (auto simp: current_clock_i_mod less_Suc_eq_le)

lemma current_clock_i_exact:
  "vector_clocks td \<noteq> [] \<Longrightarrow> length (vector_clocks td) \<le> 2 ^ 16 \<Longrightarrow>
   unat (current_clock_i td) = length (vector_clocks td) - 1"
  by (cases "vector_clocks td") (auto simp: current_clock_i_mod)

end
