(* ===== verification/Handlers.thy ===== *)
theory Handlers
  imports State
begin

text \<open>
  The handlers of \<^verbatim>\<open>src/src/hawkset.cpp\<close> that every instrumented instruction and lock
  operation ends in: \<^verbatim>\<open>RegisterAccess\<close>, \<^verbatim>\<open>RegisterUnpersistedStore\<close>, \<^verbatim>\<open>ProcessFlush\<close>,
  \<^verbatim>\<open>CheckOverwrite\<close>, \<^verbatim>\<open>ProcessStore\<close>, \<^verbatim>\<open>ProcessRead\<close>, \<^verbatim>\<open>ProcessFence\<close> and
  \<^verbatim>\<open>ProcessLock\<close>. The parameter \<open>ctxt\<close> is the instruction pointer of PIN's register
  context, the only register the handlers read from it. The parameter \<open>ip\<close> of the code is
  not used by any of them in the default build and is left out.
\<close>

section \<open>Loads\<close>

definition RegisterAccess :: "nat \<Rightarrow> u64 \<Rightarrow> u32 \<Rightarrow> u64 \<Rightarrow> hawk \<Rightarrow> hs_error + hawk" where
  "RegisterAccess tid address sz ctxt g0 =
     bindE (hawk_HandleAccess tid address sz g0) (\<lambda>(mask, g1).
       if mask = 0 then Inr g1
       else case hawk_GetBacktrace ctxt tid g1 of (backtrace, g2) \<Rightarrow>
         let clock_i = current_clock_i (get_thread_data g2 tid);
             key = \<lparr>key_address = address, key_backtrace = backtrace,
                    key_clock_i = clock_i, key_mask = mask\<rparr>
         in case get_timedlockset tid g2 of (p, g3) \<Rightarrow>
              case lockset_cache_get (to_lockset (timedlockset_at (tls_heap g3) p)) (ls_heap g3) of
                (q, h) \<Rightarrow> Inr (update_thread tid
                  (\<lambda>td. td\<lparr>race_likely_loads := um_modify key [] (os_insert q) (race_likely_loads td)\<rparr>)
                  (g3\<lparr>ls_heap := h\<rparr>)))"

definition ProcessRead :: "nat \<Rightarrow> u64 \<Rightarrow> u32 \<Rightarrow> u64 \<Rightarrow> hawk \<Rightarrow> hs_error + hawk" where
  "ProcessRead tid address sz ctxt g = RegisterAccess tid address sz ctxt g"

section \<open>Stores\<close>

definition push_store :: "nat \<Rightarrow> StoreFenceData \<Rightarrow> hawk \<Rightarrow> hawk" where
  "push_store tid rlp = update_thread tid (\<lambda>td. td\<lparr>race_likely_stores := race_likely_stores td @ [rlp]\<rparr>)"

definition RegisterUnpersistedStore ::
  "nat \<Rightarrow> u64 \<Rightarrow> StoreData \<Rightarrow> pTimedLockset \<Rightarrow> backtrace_t \<Rightarrow> bool \<Rightarrow> hawk \<Rightarrow> hs_error + hawk" where
  "RegisterUnpersistedStore tid address data current trace flushed g0 =
     bindE (hawk_HandleAccessByte tid address g0) (\<lambda>(b, g1).
       if \<not> b then Inr g1
       else case intersect_timedlockset current (timed_lockset data) (tls_heap g1) (ls_heap g1) of
         (cs, h) \<Rightarrow> Inr (push_store tid
           \<lparr>common_set = cs, sfd_clock_i = current_clock_i (get_thread_data g1 tid),
            write_trace = sd_backtrace data, fence_trace = trace, sfd_address = address,
            persisted = False, was_flushed = flushed\<rparr> (g1\<lparr>ls_heap := h\<rparr>)))"

definition flush_line :: "u64 \<Rightarrow> line_state \<Rightarrow> mem_state_t \<Rightarrow> mem_state_t" where
  "flush_line cache_line line =
     fold (\<lambda>entry. um_modify cache_line [] (um_insert (fst entry) (snd entry))) line"

definition ProcessFlush :: "nat \<Rightarrow> Instruction \<Rightarrow> u64 \<Rightarrow> hawk \<Rightarrow> hawk" where
  "ProcessFlush tid flushtype address g =
     (let td = get_thread_data g tid; cache_line = CACHE_LINE address in
      if \<not> contains (mem_state td) cache_line then g
      else update_thread tid (\<lambda>td. td\<lparr>
             flushed_mem_state := flush_line cache_line (sm_get [] (mem_state td) cache_line) (flushed_mem_state td),
             mem_state := um_erase cache_line (mem_state td)\<rparr>) g)"

text \<open>\<^verbatim>\<open>CheckOverwrite\<close> takes a reference to one of the two maps of the thread.\<close>

definition mem_of :: "MemState \<Rightarrow> ThreadData \<Rightarrow> mem_state_t" where
  "mem_of m td = (case m of DIRTY \<Rightarrow> mem_state td | FLUSHED \<Rightarrow> flushed_mem_state td)"

definition set_mem_of :: "MemState \<Rightarrow> mem_state_t \<Rightarrow> ThreadData \<Rightarrow> ThreadData" where
  "set_mem_of m s td = (case m of DIRTY \<Rightarrow> td\<lparr>mem_state := s\<rparr> | FLUSHED \<Rightarrow> td\<lparr>flushed_mem_state := s\<rparr>)"

definition CheckOverwrite ::
  "nat \<Rightarrow> u64 \<Rightarrow> MemState \<Rightarrow> pTimedLockset \<Rightarrow> backtrace_t \<Rightarrow> bool \<Rightarrow> hawk \<Rightarrow> hs_error + hawk" where
  "CheckOverwrite tid address m ls trace flushed g =
     (let cl = CACHE_LINE address;
          line = sm_get [] (mem_of m (get_thread_data g tid)) cl;
          g1 = update_thread tid (\<lambda>td. set_mem_of m (um_modify cl [] id (mem_of m td)) td) g
      in case map_of line address of
           None \<Rightarrow> Inr g1
         | Some data \<Rightarrow>
             bindE (RegisterUnpersistedStore tid address data ls trace flushed g1) (\<lambda>g2.
               Inr (update_thread tid
                 (\<lambda>td. set_mem_of m (um_modify cl [] (um_erase address) (mem_of m td)) td) g2)))"

text \<open>
  The addresses of the loop \<^verbatim>\<open>for(addr = address; addr < address + size; addr++)\<close>: none when
  \<^verbatim>\<open>address + size\<close> wraps around.
\<close>

definition byte_range :: "u64 \<Rightarrow> u32 \<Rightarrow> u64 list" where
  "byte_range address sz =
     map (\<lambda>i. address + of_nat i) [0..<unat (address + ucast sz) - unat address]"

definition store_byte :: "nat \<Rightarrow> StoreData \<Rightarrow> u64 \<Rightarrow> hawk \<Rightarrow> hs_error + hawk" where
  "store_byte tid data addr g0 =
     bindE (if check_unpersisted_stores g0
            then bindE (CheckOverwrite tid addr DIRTY (timed_lockset data) (sd_backtrace data) False g0)
                   (CheckOverwrite tid addr FLUSHED (timed_lockset data) (sd_backtrace data) True)
            else Inr g0)
       (\<lambda>g. Inr (update_thread tid
          (\<lambda>td. td\<lparr>mem_state := um_modify (CACHE_LINE addr) [] (um_insert addr data) (mem_state td)\<rparr>) g))"

definition ProcessStore :: "nat \<Rightarrow> u64 \<Rightarrow> u32 \<Rightarrow> u64 \<Rightarrow> hawk \<Rightarrow> hs_error + hawk" where
  "ProcessStore tid address sz ctxt g0 =
     bindE (hawk_HandleAccess tid address sz g0) (\<lambda>(_, g1).
       case hawk_GetBacktrace ctxt tid g1 of (backtrace, g2) \<Rightarrow>
       case get_timedlockset tid g2 of (store_timedlockset, g3) \<Rightarrow>
         let data = \<lparr>timed_lockset = store_timedlockset, sd_backtrace = backtrace\<rparr>
         in foldE (store_byte tid data) (byte_range address sz) g3)"

section \<open>Fences\<close>

text \<open>One iteration of the inner loop; the second component is the variable \<^verbatim>\<open>backtrace\<close>.\<close>

definition fence_write ::
  "nat \<Rightarrow> u64 \<Rightarrow> pTimedLockset \<Rightarrow> u64 \<times> StoreData \<Rightarrow> hawk \<times> backtrace_t \<Rightarrow> hs_error + (hawk \<times> backtrace_t)" where
  "fence_write tid ctxt fence_timedlockset write = (\<lambda>(g0, bt0).
     bindE (hawk_HandleAccessByte tid (fst write) g0) (\<lambda>(b, g1).
       if \<not> b then Inr (g1, bt0)
       else case (if bt0 = None then hawk_GetBacktrace ctxt tid g1 else (bt0, g1)) of (bt, g2) \<Rightarrow>
         case intersect_timedlockset fence_timedlockset (timed_lockset (snd write)) (tls_heap g2) (ls_heap g2) of
           (cs, h) \<Rightarrow> Inr (push_store tid
             \<lparr>common_set = cs, sfd_clock_i = current_clock_i (get_thread_data g2 tid),
              write_trace = sd_backtrace (snd write), fence_trace = bt, sfd_address = fst write,
              persisted = True, was_flushed = True\<rparr> (g2\<lparr>ls_heap := h\<rparr>), bt)))"

definition ProcessFence :: "nat \<Rightarrow> bool \<Rightarrow> u64 \<Rightarrow> u64 \<Rightarrow> u32 \<Rightarrow> hawk \<Rightarrow> hs_error + hawk" where
  "ProcessFence tid is_rmw ctxt address sz g0 =
     bindE (if is_rmw \<and> sz \<noteq> 0 then ProcessStore tid address sz ctxt g0 else Inr g0) (\<lambda>g1.
       case get_timedlockset tid g1 of (fence_timedlockset, g2) \<Rightarrow>
         let mem = flushed_mem_state (get_thread_data g2 tid) in
         if mem = [] then Inr g2
         else bindE (foldE (\<lambda>cache_line. foldE (fence_write tid ctxt fence_timedlockset) (snd cache_line)) mem (g2, None))
                (\<lambda>(g3, _). Inr (update_thread tid (\<lambda>td. td\<lparr>flushed_mem_state := []\<rparr>) g3)))"

section \<open>Locks\<close>

definition lock_current :: "nat \<Rightarrow> u64 \<Rightarrow> bool \<Rightarrow> hawk \<Rightarrow> hawk" where
  "lock_current tid mutex special g =
     (let td = get_thread_data g tid in
      case get_next_id td of (ts, td1) \<Rightarrow>
        if special then update_thread tid (\<lambda>_. td1\<lparr>current_timedlockset :=
            TimedLockset_lock_special (unat mutex) (ucast ts) (current_timedlockset td1)\<rparr>) g
        else case TimedLockset_lock mutex (ucast ts) (current_timedlockset td1, registry g) of (t, r) \<Rightarrow>
          update_thread tid (\<lambda>_. td1\<lparr>current_timedlockset := t\<rparr>) (g\<lparr>registry := r\<rparr>))"

definition unlock_current :: "nat \<Rightarrow> u64 \<Rightarrow> bool \<Rightarrow> hawk \<Rightarrow> hawk" where
  "unlock_current tid mutex special g =
     (let td = get_thread_data g tid in
      if special then update_thread tid (\<lambda>_. td\<lparr>current_timedlockset :=
          TimedLockset_unlock_special (unat mutex) (current_timedlockset td)\<rparr>) g
      else case TimedLockset_unlock mutex (current_timedlockset td, registry g) of (t, r) \<Rightarrow>
        update_thread tid (\<lambda>_. td\<lparr>current_timedlockset := t\<rparr>) (g\<lparr>registry := r\<rparr>))"

fun is_acquire :: "Instruction \<Rightarrow> bool" where
  "is_acquire TRY_LOCK = True"
| "is_acquire TRY_WRLOCK = True"
| "is_acquire TRY_RDLOCK = True"
| "is_acquire LOCK = True"
| "is_acquire WRLOCK = True"
| "is_acquire RDLOCK = True"
| "is_acquire _ = False"

fun is_release :: "Instruction \<Rightarrow> bool" where
  "is_release RWUNLOCK = True"
| "is_release UNLOCK = True"
| "is_release _ = False"

definition ProcessLock :: "nat \<Rightarrow> Instruction \<Rightarrow> u64 \<Rightarrow> bool \<Rightarrow> hawk \<Rightarrow> hawk" where
  "ProcessLock tid locktype mutex special g =
     (let g1 = update_thread tid (\<lambda>td. td\<lparr>cached_timedlockset := None\<rparr>) g in
      if is_acquire locktype then lock_current tid mutex special g1
      else if is_release locktype then unlock_current tid mutex special g1
      else g1)"

section \<open>Threads\<close>

definition vectors_back :: "ThreadData \<Rightarrow> hs_error + VectorClock" where
  "vectors_back td =
     (if vector_clocks td = [] then Inl (Undefined ''vector_clocks.back()'')
      else Inr (last (vector_clocks td)))"

definition push_clock :: "nat \<Rightarrow> VectorClock \<Rightarrow> hawk \<Rightarrow> hawk" where
  "push_clock tid c = update_thread tid (\<lambda>td. td\<lparr>vector_clocks := vector_clocks td @ [c]\<rparr>)"

definition ProcessThreadCreate :: "nat \<Rightarrow> hawk \<Rightarrow> hs_error + hawk" where
  "ProcessThreadCreate tid g =
     bindE (vectors_back (get_thread_data g tid)) (\<lambda>clock0.
       let clock1 = vc_tick tid clock0;
           clock2 = vc_tick tid clock1
       in Inr (push_clock tid clock2 (g\<lparr>creator_thread_clock := clock1\<rparr>)))"

definition ProcessThreadInit :: "nat \<Rightarrow> int \<Rightarrow> hawk \<Rightarrow> hawk" where
  "ProcessThreadInit tid creator_tid g =
     (let creator_clock = (if creator_tid \<noteq> -1 then creator_thread_clock g else new_VectorClock)
      in push_clock tid (vc_tick tid (vc_tick tid creator_clock))
           (update_thread tid (\<lambda>td. td\<lparr>td_tid := tid\<rparr>) g))"

definition ProcessThreadJoin :: "nat \<Rightarrow> nat \<Rightarrow> hawk \<Rightarrow> hs_error + hawk" where
  "ProcessThreadJoin tid exit_tid g =
     bindE (vectors_back (get_thread_data g tid)) (\<lambda>clock0.
       let clock1 = vc_tick tid clock0;
           exits = sm_modify exit_tid new_VectorClock id (exit_threads_clock g);
           clock2 = vc_update (sm_get new_VectorClock exits exit_tid) clock1
       in Inr (push_clock tid clock2 (g\<lparr>exit_threads_clock := exits\<rparr>)))"

definition exit_stores :: "nat \<Rightarrow> bool \<Rightarrow> mem_state_t \<Rightarrow> hawk \<Rightarrow> hs_error + hawk" where
  "exit_stores tid flushed mem =
     foldE (\<lambda>entry_cl. foldE (\<lambda>entry_data g.
       case get_timedlockset tid g of (p, g1) \<Rightarrow>
         RegisterUnpersistedStore tid (fst entry_data) (snd entry_data) p None flushed g1) (snd entry_cl)) mem"

definition ProcessThreadExit :: "nat \<Rightarrow> hawk \<Rightarrow> hs_error + hawk" where
  "ProcessThreadExit tid g0 =
     bindE (if check_unpersisted_stores g0
            then bindE (exit_stores tid False (mem_state (get_thread_data g0 tid)) g0)
                   (\<lambda>g. exit_stores tid True (flushed_mem_state (get_thread_data g tid)) g)
            else Inr g0) (\<lambda>g1.
       bindE (vectors_back (get_thread_data g1 tid)) (\<lambda>clock0.
         let clock1 = vc_tick tid clock0;
             g2 = push_clock tid clock1 g1
         in Inr (g2\<lparr>exit_threads_clock := sm_insert tid clock1 (exit_threads_clock g2)\<rparr>)))"

end
