(* ===== verification/Invariant.thy ===== *)
theory Invariant
  imports Handlers
begin

text \<open>
  The well-formedness invariant of the tool's state and its preservation by every memory,
  lock and thread handler. It says that every stored pointer is valid and denotes what the
  code assumes: a cached timed lockset is the current one, recorded clock indices are in
  range, a persisted store has a fence backtrace, cache lines hold only their own
  addresses. \<open>mem_frame\<close> records what a handler of one thread leaves alone: the other
  threads, every vector clock, the configuration, and all objects behind existing
  pointers.
\<close>

section \<open>Definitions\<close>

definition store_data_ok :: "timedlockset_heap \<Rightarrow> backtrace_heap \<Rightarrow> StoreData \<Rightarrow> bool" where
  "store_data_ok th bh d \<longleftrightarrow>
     tls_valid th (timed_lockset d) \<and> bt_valid bh (sd_backtrace d) \<and> sd_backtrace d \<noteq> None"

definition line_ok :: "timedlockset_heap \<Rightarrow> backtrace_heap \<Rightarrow> u64 \<Rightarrow> line_state \<Rightarrow> bool" where
  "line_ok th bh cl line \<longleftrightarrow>
     um_wf line \<and> (\<forall>e \<in> set line. CACHE_LINE (fst e) = cl \<and> store_data_ok th bh (snd e))"

definition mem_ok :: "timedlockset_heap \<Rightarrow> backtrace_heap \<Rightarrow> mem_state_t \<Rightarrow> bool" where
  "mem_ok th bh m \<longleftrightarrow> um_wf m \<and> (\<forall>e \<in> set m. line_ok th bh (fst e) (snd e))"

definition store_ok :: "lockset_heap \<Rightarrow> backtrace_heap \<Rightarrow> nat \<Rightarrow> StoreFenceData \<Rightarrow> bool" where
  "store_ok lh bh n s \<longleftrightarrow>
     ls_valid lh (common_set s) \<and> bt_valid bh (write_trace s) \<and> write_trace s \<noteq> None \<and>
     bt_valid bh (fence_trace s) \<and> (persisted s \<longrightarrow> fence_trace s \<noteq> None \<and> was_flushed s) \<and>
     unat (sfd_clock_i s) < n"

definition load_ok :: "lockset_heap \<Rightarrow> backtrace_heap \<Rightarrow> nat \<Rightarrow> access_key_t \<times> lockset_set_t \<Rightarrow> bool" where
  "load_ok lh bh n e \<longleftrightarrow>
     bt_valid bh (key_backtrace (fst e)) \<and> key_backtrace (fst e) \<noteq> None \<and>
     unat (key_clock_i (fst e)) < n \<and> key_mask (fst e) \<noteq> 0 \<and> (\<forall>p \<in> set (snd e). ls_valid lh p)"

definition cache_ok :: "timedlockset_heap \<Rightarrow> ThreadData \<Rightarrow> bool" where
  "cache_ok th td \<longleftrightarrow>
     (\<forall>p. cached_timedlockset td = Some p \<longrightarrow>
        tls_valid th p \<and> timedlockset_at th p = current_timedlockset td)"

definition td_ok :: "lockset_heap \<Rightarrow> timedlockset_heap \<Rightarrow> backtrace_heap \<Rightarrow> ThreadData \<Rightarrow> bool" where
  "td_ok lh th bh td \<longleftrightarrow>
     tls_wf (current_timedlockset td) \<and> cache_ok th td \<and>
     (\<forall>c \<in> set (vector_clocks td). vc_wf c) \<and>
     (\<forall>s \<in> set (race_likely_stores td). store_ok lh bh (length (vector_clocks td)) s) \<and>
     um_wf (race_likely_loads td) \<and>
     (\<forall>e \<in> set (race_likely_loads td). load_ok lh bh (length (vector_clocks td)) e) \<and>
     mem_ok th bh (mem_state td) \<and> mem_ok th bh (flushed_mem_state td) \<and>
     (used td \<longrightarrow> vector_clocks td \<noteq> [])"

definition hawk_inv :: "hawk \<Rightarrow> bool" where
  "hawk_inv g \<longleftrightarrow>
     ls_heap_wf (ls_heap g) \<and> tls_heap_wf (tls_heap g) \<and> bt_heap_wf (bt_heap g) \<and>
     registry_wf {} (registry g) \<and>
     (\<forall>t. td_ok (ls_heap g) (tls_heap g) (bt_heap g) (get_thread_data g t)) \<and>
     vc_wf (creator_thread_clock g) \<and>
     (\<forall>t c. map_of (exit_threads_clock g) t = Some c \<longrightarrow> vc_wf c)"

definition mem_frame :: "nat \<Rightarrow> hawk \<Rightarrow> hawk \<Rightarrow> bool" where
  "mem_frame tid g g' \<longleftrightarrow>
     (\<forall>t. t \<noteq> tid \<longrightarrow> get_thread_data g' t = get_thread_data g t) \<and>
     vector_clocks (get_thread_data g' tid) = vector_clocks (get_thread_data g tid) \<and>
     used (get_thread_data g' tid) = used (get_thread_data g tid) \<and>
     stack (get_thread_data g' tid) = stack (get_thread_data g tid) \<and>
     race_likely_loads_opt (get_thread_data g' tid) = race_likely_loads_opt (get_thread_data g tid) \<and>
     creator_thread_clock g' = creator_thread_clock g \<and>
     creator_thread_id g' = creator_thread_id g \<and>
     created_thread_id g' = created_thread_id g \<and>
     exit_threads_clock g' = exit_threads_clock g \<and>
     pthread_id_to_tid g' = pthread_id_to_tid g \<and> pm g' = pm g \<and>
     use_init_removal_heuristic_n g' = use_init_removal_heuristic_n g \<and>
     backtrace_depth g' = backtrace_depth g \<and>
     check_unpersisted_stores g' = check_unpersisted_stores g \<and>
     thread_creation_mutex g' = thread_creation_mutex g \<and>
     thread_creation_semaphore g' = thread_creation_semaphore g \<and>
     ls_extends (ls_heap g) (ls_heap g') \<and> tls_extends (tls_heap g) (tls_heap g') \<and>
     bt_extends (bt_heap g) (bt_heap g')"

lemma mem_frame_refl [simp, intro]: "mem_frame tid g g"
  by (simp add: mem_frame_def)

lemma mem_frame_trans [trans]: "mem_frame tid a b \<Longrightarrow> mem_frame tid b c \<Longrightarrow> mem_frame tid a c"
  by (simp add: mem_frame_def) (blast intro: ls_extends_trans tls_extends_trans bt_extends_trans)

section \<open>Growing heaps keep everything valid\<close>

lemma mem_ok_mono:
  "mem_ok th bh m \<Longrightarrow> tls_extends th th' \<Longrightarrow> bt_extends bh bh' \<Longrightarrow> mem_ok th' bh' m"
  unfolding mem_ok_def line_ok_def store_data_ok_def
  by (meson bt_extends_valid tls_extends_valid)

lemma store_ok_mono:
  "store_ok lh bh n s \<Longrightarrow> ls_extends lh lh' \<Longrightarrow> bt_extends bh bh' \<Longrightarrow> n \<le> n' \<Longrightarrow> store_ok lh' bh' n' s"
  unfolding store_ok_def by (meson bt_extends_valid ls_extends_valid less_le_trans)

lemma load_ok_mono:
  "load_ok lh bh n e \<Longrightarrow> ls_extends lh lh' \<Longrightarrow> bt_extends bh bh' \<Longrightarrow> n \<le> n' \<Longrightarrow> load_ok lh' bh' n' e"
  unfolding load_ok_def by (meson bt_extends_valid ls_extends_valid less_le_trans)

lemma cache_ok_mono: "cache_ok th td \<Longrightarrow> tls_extends th th' \<Longrightarrow> cache_ok th' td"
  unfolding cache_ok_def by (metis tls_extends_at tls_extends_valid)

lemma td_ok_mono:
  assumes "td_ok lh th bh td" "ls_extends lh lh'" "tls_extends th th'" "bt_extends bh bh'"
  shows "td_ok lh' th' bh' td"
  using assms unfolding td_ok_def
  by (meson cache_ok_mono mem_ok_mono store_ok_mono load_ok_mono order_refl)

lemma hawk_inv_td: "hawk_inv g \<Longrightarrow> td_ok (ls_heap g) (tls_heap g) (bt_heap g) (get_thread_data g t)"
  by (simp add: hawk_inv_def)

lemma hawk_inv_update_thread:
  "hawk_inv g \<Longrightarrow> td_ok (ls_heap g) (tls_heap g) (bt_heap g) (f (get_thread_data g tid)) \<Longrightarrow>
   hawk_inv (update_thread tid f g)"
  by (simp add: hawk_inv_def)

lemma hawk_inv_ls_heap:
  "hawk_inv g \<Longrightarrow> ls_heap_wf h \<Longrightarrow> ls_extends (ls_heap g) h \<Longrightarrow> hawk_inv (g\<lparr>ls_heap := h\<rparr>)"
  by (auto simp: hawk_inv_def intro: td_ok_mono)

lemma hawk_inv_tls_heap:
  "hawk_inv g \<Longrightarrow> tls_heap_wf h \<Longrightarrow> tls_extends (tls_heap g) h \<Longrightarrow> hawk_inv (g\<lparr>tls_heap := h\<rparr>)"
  by (auto simp: hawk_inv_def intro: td_ok_mono)

lemma hawk_inv_bt_heap:
  "hawk_inv g \<Longrightarrow> bt_heap_wf h \<Longrightarrow> bt_extends (bt_heap g) h \<Longrightarrow> hawk_inv (g\<lparr>bt_heap := h\<rparr>)"
  by (auto simp: hawk_inv_def intro: td_ok_mono)

lemma hawk_inv_irh [simp]: "hawk_inv (g\<lparr>irh := st\<rparr>) = hawk_inv g"
  by (simp add: hawk_inv_def)

lemma mem_frame_irh [simp]: "mem_frame tid g (g\<lparr>irh := st\<rparr>)"
  by (simp add: mem_frame_def)

lemma mem_frame_ls_heap: "ls_extends (ls_heap g) h \<Longrightarrow> mem_frame tid g (g\<lparr>ls_heap := h\<rparr>)"
  by (simp add: mem_frame_def)

lemma mem_frame_tls_heap: "tls_extends (tls_heap g) h \<Longrightarrow> mem_frame tid g (g\<lparr>tls_heap := h\<rparr>)"
  by (simp add: mem_frame_def)

lemma mem_frame_bt_heap: "bt_extends (bt_heap g) h \<Longrightarrow> mem_frame tid g (g\<lparr>bt_heap := h\<rparr>)"
  by (simp add: mem_frame_def)

lemma mem_frame_update_thread:
  "(\<And>td. vector_clocks (f td) = vector_clocks td \<and> used (f td) = used td \<and> stack (f td) = stack td
      \<and> race_likely_loads_opt (f td) = race_likely_loads_opt td) \<Longrightarrow>
   mem_frame tid g (update_thread tid f g)"
  by (simp add: mem_frame_def)

section \<open>The primitives\<close>

lemma get_timedlockset_spec:
  assumes inv: "hawk_inv g" and get: "get_timedlockset tid g = (p, g')"
  shows "hawk_inv g'" "mem_frame tid g g'" "tls_valid (tls_heap g') p"
    "timedlockset_at (tls_heap g') p = current_timedlockset (get_thread_data g tid)"
    "\<exists>c. get_thread_data g' tid = (get_thread_data g tid)\<lparr>cached_timedlockset := c\<rparr>"
    "ls_heap g' = ls_heap g" "bt_heap g' = bt_heap g" "irh g' = irh g" "registry g' = registry g"
proof -
  let ?td = "get_thread_data g tid"
  have td: "td_ok (ls_heap g) (tls_heap g) (bt_heap g) ?td" using inv by (rule hawk_inv_td)
  have "hawk_inv g' \<and> mem_frame tid g g' \<and> tls_valid (tls_heap g') p \<and>
    timedlockset_at (tls_heap g') p = current_timedlockset ?td \<and>
    (\<exists>c. get_thread_data g' tid = ?td\<lparr>cached_timedlockset := c\<rparr>) \<and>
    ls_heap g' = ls_heap g \<and> bt_heap g' = bt_heap g \<and> irh g' = irh g \<and> registry g' = registry g"
  proof (cases "cached_timedlockset ?td")
    case (Some q)
    then have "p = q" "g' = g" using get by (auto simp: get_timedlockset_def Let_def)
    moreover have "?td = ?td\<lparr>cached_timedlockset := Some q\<rparr>" using Some by simp
    ultimately show ?thesis using Some td inv by (auto simp: td_ok_def cache_ok_def intro: exI [of _ "Some q"])
  next
    case None
    obtain h where h: "timedlockset_cache_get (current_timedlockset ?td) (tls_heap g) = (p, h)"
      and g': "g' = update_thread tid (\<lambda>td. td\<lparr>cached_timedlockset := Some p\<rparr>) (g\<lparr>tls_heap := h\<rparr>)"
      using get None by (auto simp: get_timedlockset_def Let_def split: prod.splits)
    have th: "tls_heap_wf (tls_heap g)" "tls_wf (current_timedlockset ?td)"
      using inv td by (auto simp: hawk_inv_def td_ok_def)
    note spec = timedlockset_cache_get_spec [OF th h]
    have inv1: "hawk_inv (g\<lparr>tls_heap := h\<rparr>)"
      using hawk_inv_tls_heap [OF inv] spec by blast
    have "td_ok (ls_heap g) h (bt_heap g) (?td\<lparr>cached_timedlockset := Some p\<rparr>)"
      using td_ok_mono [OF td ls_extends_refl spec(2) bt_extends_refl] spec(3,4)
      by (simp add: td_ok_def cache_ok_def)
    then have "hawk_inv g'"
      unfolding g' by (intro hawk_inv_update_thread inv1) simp
    moreover have "mem_frame tid g g'"
      using spec(2) by (simp add: g' mem_frame_def)
    ultimately show ?thesis using spec(3,4) by (auto simp: g')
  qed
  then show "hawk_inv g'" "mem_frame tid g g'" "tls_valid (tls_heap g') p"
    "timedlockset_at (tls_heap g') p = current_timedlockset (get_thread_data g tid)"
    "\<exists>c. get_thread_data g' tid = (get_thread_data g tid)\<lparr>cached_timedlockset := c\<rparr>"
    "ls_heap g' = ls_heap g" "bt_heap g' = bt_heap g" "irh g' = irh g" "registry g' = registry g" by auto
qed

lemma hawk_GetBacktrace_spec:
  assumes inv: "hawk_inv g" and get: "hawk_GetBacktrace ctxt tid g = (b, g')"
  shows "hawk_inv g'" "mem_frame tid g g'" "bt_valid (bt_heap g') b" "b \<noteq> None"
    "\<exists>p. b = Some p \<and> frames_at (bt_heap g') p = Frames (ctxt # rev (stack (get_thread_data g tid)))"
    "analysis_data_tls g' = analysis_data_tls g" "ls_heap g' = ls_heap g" "tls_heap g' = tls_heap g"
    "irh g' = irh g" "registry g' = registry g"
proof -
  obtain h where h: "GetBacktrace ctxt (backtrace_depth g) (stack (get_thread_data g tid)) (bt_heap g) = (b, h)"
    and g': "g' = g\<lparr>bt_heap := h\<rparr>"
    using get by (auto simp: hawk_GetBacktrace_def split: prod.splits)
  have "bt_heap_wf (bt_heap g)" using inv by (simp add: hawk_inv_def)
  note spec = GetBacktrace_spec [OF this h]
  show "hawk_inv g'" "mem_frame tid g g'" "bt_valid (bt_heap g') b" "b \<noteq> None"
    "\<exists>p. b = Some p \<and> frames_at (bt_heap g') p = Frames (ctxt # rev (stack (get_thread_data g tid)))"
    "analysis_data_tls g' = analysis_data_tls g" "ls_heap g' = ls_heap g" "tls_heap g' = tls_heap g"
    "irh g' = irh g" "registry g' = registry g"
    using spec hawk_inv_bt_heap [OF inv] mem_frame_bt_heap by (auto simp: g')
qed

lemma hawk_HandleAccess_spec:
  "hawk_HandleAccess tid a sz g = Inr (m, g') \<Longrightarrow> \<exists>st. g' = g\<lparr>irh := st\<rparr>"
  "hawk_HandleAccessByte tid a g = Inr (b, g') \<Longrightarrow> \<exists>st. g' = g\<lparr>irh := st\<rparr>"
  by (auto simp: hawk_HandleAccess_def hawk_HandleAccessByte_def bindE_Inr_iff)

section \<open>The memory handlers\<close>

definition keeps :: "nat \<Rightarrow> hawk \<Rightarrow> hawk \<Rightarrow> bool" where
  "keeps tid g g' \<longleftrightarrow> hawk_inv g' \<and> mem_frame tid g g'"

lemma keeps_refl: "hawk_inv g \<Longrightarrow> keeps tid g g"
  by (simp add: keeps_def)

lemma keeps_trans [trans]: "keeps tid a b \<Longrightarrow> keeps tid b c \<Longrightarrow> keeps tid a c"
  unfolding keeps_def using mem_frame_trans by blast

lemma keeps_clocks: "keeps tid g g' \<Longrightarrow> vector_clocks (get_thread_data g' tid) = vector_clocks (get_thread_data g tid)"
  by (simp add: keeps_def mem_frame_def)

lemma keeps_HandleAccess:
  "hawk_inv g \<Longrightarrow> hawk_HandleAccess tid a sz g = Inr (m, g') \<Longrightarrow> keeps tid g g'"
  "hawk_inv g \<Longrightarrow> hawk_HandleAccessByte tid a g = Inr (b, g') \<Longrightarrow> keeps tid g g'"
  by (auto simp: keeps_def dest!: hawk_HandleAccess_spec)

lemma keeps_get_timedlockset:
  "hawk_inv g \<Longrightarrow> get_timedlockset tid g = (p, g') \<Longrightarrow> keeps tid g g'"
  by (simp add: keeps_def get_timedlockset_spec)

lemma keeps_GetBacktrace:
  "hawk_inv g \<Longrightarrow> hawk_GetBacktrace ctxt tid g = (b, g') \<Longrightarrow> keeps tid g g'"
  by (simp add: keeps_def hawk_GetBacktrace_spec)

lemma keeps_ls_heap:
  "hawk_inv g \<Longrightarrow> ls_heap_wf h \<Longrightarrow> ls_extends (ls_heap g) h \<Longrightarrow> keeps tid g (g\<lparr>ls_heap := h\<rparr>)"
  by (simp add: keeps_def hawk_inv_ls_heap mem_frame_ls_heap)

lemma keeps_update_thread:
  assumes "hawk_inv g"
    and "td_ok (ls_heap g) (tls_heap g) (bt_heap g) (f (get_thread_data g tid))"
    and "vector_clocks (f (get_thread_data g tid)) = vector_clocks (get_thread_data g tid)"
    and "used (f (get_thread_data g tid)) = used (get_thread_data g tid)"
    and "stack (f (get_thread_data g tid)) = stack (get_thread_data g tid)"
    and "race_likely_loads_opt (f (get_thread_data g tid)) = race_likely_loads_opt (get_thread_data g tid)"
  shows "keeps tid g (update_thread tid f g)"
  using assms by (simp add: keeps_def hawk_inv_update_thread) (simp add: mem_frame_def)

lemma RegisterAccess_keeps:
  assumes inv: "hawk_inv g" and vc: "vector_clocks (get_thread_data g tid) \<noteq> []"
    and run: "RegisterAccess tid address sz ctxt g = Inr g'"
  shows "keeps tid g g'"
proof -
  obtain mask g1 where 1: "hawk_HandleAccess tid address sz g = Inr (mask, g1)"
    using run by (auto simp: RegisterAccess_def)
  note k1 = keeps_HandleAccess(1) [OF inv 1]
  show ?thesis
  proof (cases "mask = 0")
    case True
    with run 1 k1 show ?thesis by (simp add: RegisterAccess_def)
  next
    case False
    obtain bt g2 where 2: "hawk_GetBacktrace ctxt tid g1 = (bt, g2)" by fastforce
    obtain p g3 where 3: "get_timedlockset tid g2 = (p, g3)" by fastforce
    obtain q h where 4: "lockset_cache_get (to_lockset (timedlockset_at (tls_heap g3) p)) (ls_heap g3) = (q, h)"
      by fastforce
    let ?key = "\<lparr>key_address = address, key_backtrace = bt,
                    key_clock_i = current_clock_i (get_thread_data g2 tid), key_mask = mask\<rparr>"
    let ?f = "\<lambda>td. td\<lparr>race_likely_loads := um_modify ?key [] (os_insert q) (race_likely_loads td)\<rparr>"
    have g': "g' = update_thread tid ?f (g3\<lparr>ls_heap := h\<rparr>)"
      using run 1 2 3 4 False by (simp add: RegisterAccess_def Let_def)
    have inv1: "hawk_inv g1" using k1 by (simp add: keeps_def)
    note bt = hawk_GetBacktrace_spec [OF inv1 2]
    note tl = get_timedlockset_spec [OF bt(1) 3]
    have lh: "ls_heap_wf (ls_heap g3)" using tl(1) by (simp add: hawk_inv_def)
    note lc = lockset_cache_get_spec [OF lh 4]
    have k3: "keeps tid g g3"
      using k1 keeps_GetBacktrace [OF inv1 2] keeps_get_timedlockset [OF bt(1) 3] keeps_trans by blast
    have k4: "keeps tid g3 (g3\<lparr>ls_heap := h\<rparr>)"
      by (rule keeps_ls_heap) (use tl lc in auto)
    let ?g4 = "g3\<lparr>ls_heap := h\<rparr>" and ?td = "get_thread_data (g3\<lparr>ls_heap := h\<rparr>) tid"
    have inv4: "hawk_inv ?g4" using k4 by (simp add: keeps_def)
    have td: "td_ok h (tls_heap g3) (bt_heap g3) ?td"
      using hawk_inv_td [OF inv4, of tid] by simp
    have clk: "vector_clocks ?td = vector_clocks (get_thread_data g2 tid)"
      "vector_clocks (get_thread_data g2 tid) \<noteq> []"
      using tl(5) keeps_clocks [OF k3] vc by auto
    have new: "load_ok h (bt_heap g3) (length (vector_clocks ?td)) (?key, os_insert q L)"
      if "L = [] \<or> (?key, L) \<in> set (race_likely_loads ?td)" for L
    proof -
      have "\<forall>r \<in> set L. ls_valid h r"
        using that td by (auto simp: td_ok_def load_ok_def)
      then show ?thesis
        using False bt(3,4) tl(7) lc(3) clk current_clock_i_bound [OF clk(2)]
        by (simp add: load_ok_def)
    qed
    have wf: "um_wf (race_likely_loads ?td)" using td by (simp add: td_ok_def)
    have "load_ok h (bt_heap g3) (length (vector_clocks ?td)) e"
      if "e \<in> set (um_modify ?key [] (os_insert q) (race_likely_loads ?td))" for e
    proof -
      from that consider "e = (?key, os_insert q (sm_get [] (race_likely_loads ?td) ?key))"
        | "e \<in> set (race_likely_loads ?td)"
        unfolding um_modify_def um.set_put [OF wf] by blast
      then show ?thesis
      proof cases
        case 1
        have "sm_get [] (race_likely_loads ?td) ?key = [] \<or>
            (?key, sm_get [] (race_likely_loads ?td) ?key) \<in> set (race_likely_loads ?td)"
          by (cases "map_of (race_likely_loads ?td) ?key") (auto dest: map_of_SomeD)
        with new 1 show ?thesis by blast
      qed (use td in \<open>auto simp: td_ok_def\<close>)
    qed
    then have "td_ok h (tls_heap g3) (bt_heap g3) (?f ?td)"
      using td wf by (simp add: td_ok_def cache_ok_def um_wf_modify)
    then have "keeps tid ?g4 g'"
      unfolding g' by (intro keeps_update_thread inv4) simp_all
    with k3 k4 show ?thesis using keeps_trans by blast
  qed
qed

lemma store_ok_push:
  assumes inv: "hawk_inv g" and s: "store_ok (ls_heap g) (bt_heap g) (length (vector_clocks (get_thread_data g tid))) s"
  shows "keeps tid g (push_store tid s g)"
  unfolding push_store_def
  using hawk_inv_td [OF inv, of tid] s
  by (intro keeps_update_thread inv) (auto simp: td_ok_def cache_ok_def)

lemma RegisterUnpersistedStore_keeps:
  assumes inv: "hawk_inv g" and vc: "vector_clocks (get_thread_data g tid) \<noteq> []"
    and d: "store_data_ok (tls_heap g) (bt_heap g) d" and ls: "tls_valid (tls_heap g) ls"
    and tr: "bt_valid (bt_heap g) tr"
    and run: "RegisterUnpersistedStore tid address d ls tr fl g = Inr g'"
  shows "keeps tid g g'"
    "mem_state (get_thread_data g' tid) = mem_state (get_thread_data g tid)"
    "flushed_mem_state (get_thread_data g' tid) = flushed_mem_state (get_thread_data g tid)"
    "tls_heap g' = tls_heap g"
proof -
  obtain b g1 where 1: "hawk_HandleAccessByte tid address g = Inr (b, g1)"
    using run by (auto simp: RegisterUnpersistedStore_def)
  obtain st where g1: "g1 = g\<lparr>irh := st\<rparr>" using hawk_HandleAccess_spec(2) [OF 1] by blast
  note k1 = keeps_HandleAccess(2) [OF inv 1]
  have "keeps tid g g' \<and> mem_state (get_thread_data g' tid) = mem_state (get_thread_data g tid) \<and>
    flushed_mem_state (get_thread_data g' tid) = flushed_mem_state (get_thread_data g tid) \<and>
    tls_heap g' = tls_heap g"
  proof (cases b)
    case False
    then have "g' = g1" using run 1 by (simp add: RegisterUnpersistedStore_def)
    with k1 g1 show ?thesis by simp
  next
    case True
    obtain cs h where 2: "intersect_timedlockset ls (timed_lockset d) (tls_heap g1) (ls_heap g1) = (cs, h)"
      by fastforce
    let ?s = "\<lparr>common_set = cs, sfd_clock_i = current_clock_i (get_thread_data g1 tid),
            write_trace = sd_backtrace d, fence_trace = tr, sfd_address = address,
            persisted = False, was_flushed = fl\<rparr>"
    have g': "g' = push_store tid ?s (g1\<lparr>ls_heap := h\<rparr>)"
      using run 1 2 True by (simp add: RegisterUnpersistedStore_def)
    have inv1: "hawk_inv g1" using k1 by (simp add: keeps_def)
    have hw: "ls_heap_wf (ls_heap g1)" "tls_heap_wf (tls_heap g1)" using inv1 by (auto simp: hawk_inv_def)
    have v: "tls_valid (tls_heap g1) ls" "tls_valid (tls_heap g1) (timed_lockset d)"
      using ls d by (auto simp: g1 store_data_ok_def)
    note isx = intersect_timedlockset_spec [OF hw v 2]
    have k2: "keeps tid g1 (g1\<lparr>ls_heap := h\<rparr>)" by (rule keeps_ls_heap [OF inv1 isx(1,2)])
    have "store_ok h (bt_heap g1) (length (vector_clocks (get_thread_data g1 tid))) ?s"
      using isx(3) d tr vc current_clock_i_bound by (simp add: store_ok_def store_data_ok_def g1)
    then have "keeps tid (g1\<lparr>ls_heap := h\<rparr>) g'"
      unfolding g' using k2 by (intro store_ok_push) (auto simp: keeps_def)
    with k1 k2 have "keeps tid g g'" using keeps_trans by blast
    then show ?thesis by (simp add: g' push_store_def g1)
  qed
  then show "keeps tid g g'"
    "mem_state (get_thread_data g' tid) = mem_state (get_thread_data g tid)"
    "flushed_mem_state (get_thread_data g' tid) = flushed_mem_state (get_thread_data g tid)"
    "tls_heap g' = tls_heap g" by auto
qed

text \<open>Updates of the two memory maps.\<close>

lemma line_ok_insert:
  "line_ok th bh (CACHE_LINE a) line \<Longrightarrow> store_data_ok th bh d \<Longrightarrow>
   line_ok th bh (CACHE_LINE a) (um_insert a d line)"
  unfolding line_ok_def using um.set_put [of line a d] by auto

lemma line_ok_erase: "line_ok th bh cl line \<Longrightarrow> line_ok th bh cl (um_erase a line)"
  unfolding line_ok_def using um.set_del [of line a] by auto

lemma line_ok_Nil [simp]: "line_ok th bh cl []"
  by (simp add: line_ok_def)

lemma mem_ok_Nil [simp]: "mem_ok th bh []"
  by (simp add: mem_ok_def)

lemma mem_ok_line: "mem_ok th bh m \<Longrightarrow> line_ok th bh cl (sm_get [] m cl)"
  by (cases "map_of m cl") (auto simp: mem_ok_def dest: map_of_ball [where P = "line_ok th bh"])

lemma mem_ok_modify:
  assumes "mem_ok th bh m" and "\<And>line. line_ok th bh cl line \<Longrightarrow> line_ok th bh cl (f line)"
  shows "mem_ok th bh (um_modify cl [] f m)"
proof -
  have wf: "um_wf m" using assms(1) by (simp add: mem_ok_def)
  have "line_ok th bh (fst e) (snd e)" if "e \<in> set (um_modify cl [] f m)" for e
    using that assms mem_ok_line [OF assms(1), of cl]
    unfolding um_modify_def um.set_put [OF wf] by (auto simp: mem_ok_def)
  then show ?thesis using wf by (simp add: mem_ok_def um_wf_modify)
qed

lemma mem_ok_erase: "mem_ok th bh m \<Longrightarrow> mem_ok th bh (um_erase cl m)"
  unfolding mem_ok_def using um.set_del [of m cl] by auto

lemma mem_ok_flush_line:
  assumes "mem_ok th bh m" "line_ok th bh cl line"
  shows "mem_ok th bh (flush_line cl line m)"
  unfolding flush_line_def
proof (rule fold_inv)
  fix e t assume e: "e \<in> set line" and t: "mem_ok th bh t"
  have "cl = CACHE_LINE (fst e)" "store_data_ok th bh (snd e)"
    using assms(2) e by (auto simp: line_ok_def)
  then show "mem_ok th bh (um_modify cl [] (um_insert (fst e) (snd e)) t)"
    using t by (auto intro: mem_ok_modify line_ok_insert)
qed (rule assms(1))

lemma ProcessFlush_keeps:
  assumes inv: "hawk_inv g"
  shows "keeps tid g (ProcessFlush tid ft address g)"
proof -
  have td: "td_ok (ls_heap g) (tls_heap g) (bt_heap g) (get_thread_data g tid)"
    using inv by (rule hawk_inv_td)
  show ?thesis
  proof (cases "contains (mem_state (get_thread_data g tid)) (CACHE_LINE address)")
    case False
    then show ?thesis by (simp add: ProcessFlush_def Let_def keeps_refl inv)
  next
    case True
    then show ?thesis
      unfolding ProcessFlush_def Let_def
      by (simp only: not_True_eq_False if_False, intro keeps_update_thread inv)
         (use td in \<open>auto simp: td_ok_def cache_ok_def intro: mem_ok_erase mem_ok_flush_line mem_ok_line\<close>)
  qed
qed

lemma set_mem_of_simps [simp]:
  "vector_clocks (set_mem_of m s td) = vector_clocks td" "used (set_mem_of m s td) = used td"
  "stack (set_mem_of m s td) = stack td"
  "race_likely_loads_opt (set_mem_of m s td) = race_likely_loads_opt td"
  by (cases m; simp add: set_mem_of_def)+

lemma mem_of_ok: "td_ok lh th bh td \<Longrightarrow> mem_ok th bh (mem_of m td)"
  by (cases m) (auto simp: mem_of_def td_ok_def)

lemma td_ok_set_mem_of: "td_ok lh th bh td \<Longrightarrow> mem_ok th bh s \<Longrightarrow> td_ok lh th bh (set_mem_of m s td)"
  by (cases m) (auto simp: set_mem_of_def td_ok_def cache_ok_def)

lemma keeps_set_mem_of:
  assumes "hawk_inv g" and "\<And>line. line_ok (tls_heap g) (bt_heap g) cl line \<Longrightarrow> line_ok (tls_heap g) (bt_heap g) cl (f line)"
  shows "keeps tid g (update_thread tid (\<lambda>td. set_mem_of m (um_modify cl [] f (mem_of m td)) td) g)"
  using assms hawk_inv_td [OF assms(1), of tid]
  by (intro keeps_update_thread) (auto intro: td_ok_set_mem_of mem_ok_modify mem_of_ok)

lemma CheckOverwrite_keeps:
  assumes inv: "hawk_inv g" and vc: "vector_clocks (get_thread_data g tid) \<noteq> []"
    and ls: "tls_valid (tls_heap g) ls" and tr: "bt_valid (bt_heap g) tr"
    and run: "CheckOverwrite tid address m ls tr fl g = Inr g'"
  shows "keeps tid g g'" "tls_heap g' = tls_heap g"
proof -
  let ?cl = "CACHE_LINE address"
  let ?g1 = "update_thread tid (\<lambda>td. set_mem_of m (um_modify ?cl [] id (mem_of m td)) td) g"
  let ?line = "sm_get [] (mem_of m (get_thread_data g tid)) ?cl"
  have k1: "keeps tid g ?g1" by (rule keeps_set_mem_of [OF inv]) simp
  then have inv1: "hawk_inv ?g1" by (simp add: keeps_def)
  have "keeps tid g g' \<and> tls_heap g' = tls_heap g"
  proof (cases "map_of ?line address")
    case None
    with run k1 show ?thesis by (auto simp: CheckOverwrite_def Let_def)
  next
    case (Some d)
    obtain g2 where 2: "RegisterUnpersistedStore tid address d ls tr fl ?g1 = Inr g2"
      and g': "g' = update_thread tid (\<lambda>td. set_mem_of m (um_modify ?cl [] (um_erase address) (mem_of m td)) td) g2"
      using run Some by (auto simp: CheckOverwrite_def Let_def)
    have "line_ok (tls_heap g) (bt_heap g) ?cl ?line"
      using hawk_inv_td [OF inv] by (intro mem_ok_line mem_of_ok)
    then have d: "store_data_ok (tls_heap ?g1) (bt_heap ?g1) d"
      using map_of_ball [OF Some, of "\<lambda>_. store_data_ok (tls_heap g) (bt_heap g)"]
      by (simp add: line_ok_def)
    have vc1: "vector_clocks (get_thread_data ?g1 tid) \<noteq> []" using vc by simp
    note r = RegisterUnpersistedStore_keeps [OF inv1 vc1 d _ _ 2]
    have k2: "keeps tid ?g1 g2" and th: "tls_heap g2 = tls_heap ?g1"
      using r(1,4) ls tr by auto
    have "keeps tid g2 g'"
      unfolding g' using k2 by (intro keeps_set_mem_of line_ok_erase) (auto simp: keeps_def)
    with k1 k2 have "keeps tid g g'" using keeps_trans by blast
    with th show ?thesis by (simp add: g')
  qed
  then show "keeps tid g g'" "tls_heap g' = tls_heap g" by auto
qed

lemma keeps_valid:
  assumes "keeps tid g g'"
  shows "tls_valid (tls_heap g) p \<Longrightarrow> tls_valid (tls_heap g') p"
    "bt_valid (bt_heap g) b \<Longrightarrow> bt_valid (bt_heap g') b"
    "ls_valid (ls_heap g) q \<Longrightarrow> ls_valid (ls_heap g') q"
    "store_data_ok (tls_heap g) (bt_heap g) d \<Longrightarrow> store_data_ok (tls_heap g') (bt_heap g') d"
  using assms tls_extends_valid bt_extends_valid ls_extends_valid
  by (auto simp: keeps_def mem_frame_def store_data_ok_def)

lemma store_byte_keeps:
  assumes inv: "hawk_inv g" and vc: "vector_clocks (get_thread_data g tid) \<noteq> []"
    and d: "store_data_ok (tls_heap g) (bt_heap g) data"
    and run: "store_byte tid data addr g = Inr g'"
  shows "keeps tid g g'"
proof -
  obtain g2 where k2: "keeps tid g g2"
    and g': "g' = update_thread tid
          (\<lambda>td. td\<lparr>mem_state := um_modify (CACHE_LINE addr) [] (um_insert addr data) (mem_state td)\<rparr>) g2"
  proof (cases "check_unpersisted_stores g")
    case False
    then show thesis using run by (intro that [of g] keeps_refl inv) (simp add: store_byte_def)
  next
    case True
    then obtain g1 g2 where 1: "CheckOverwrite tid addr DIRTY (timed_lockset data) (sd_backtrace data) False g = Inr g1"
      and 2: "CheckOverwrite tid addr FLUSHED (timed_lockset data) (sd_backtrace data) True g1 = Inr g2"
      and g': "g' = update_thread tid
          (\<lambda>td. td\<lparr>mem_state := um_modify (CACHE_LINE addr) [] (um_insert addr data) (mem_state td)\<rparr>) g2"
      using run by (auto simp: store_byte_def)
    have k1: "keeps tid g g1"
      using CheckOverwrite_keeps(1) [OF inv vc _ _ 1] d by (simp add: store_data_ok_def)
    then have "hawk_inv g1" "vector_clocks (get_thread_data g1 tid) \<noteq> []"
      "store_data_ok (tls_heap g1) (bt_heap g1) data"
      using keeps_clocks [OF k1] vc keeps_valid(4) [OF k1 d] by (simp_all add: keeps_def)
    then have "keeps tid g1 g2"
      using CheckOverwrite_keeps(1) [OF _ _ _ _ 2] by (simp add: store_data_ok_def)
    with k1 g' that show thesis using keeps_trans by blast
  qed
  have inv2: "hawk_inv g2" using k2 by (simp add: keeps_def)
  note td = hawk_inv_td [OF inv2, of tid]
  have "keeps tid g2 g'"
    unfolding g' using td keeps_valid(4) [OF k2 d]
    by (intro keeps_update_thread inv2)
       (auto simp: td_ok_def cache_ok_def intro!: mem_ok_modify line_ok_insert)
  with k2 show ?thesis by (rule keeps_trans)
qed

text \<open>The loop rule for handlers of one thread.\<close>

lemma foldE_keeps:
  assumes "foldE f xs g = Inr g'" "hawk_inv g" "vector_clocks (get_thread_data g tid) \<noteq> []"
    and "\<And>x h h'. x \<in> set xs \<Longrightarrow> keeps tid g h \<Longrightarrow> f x h = Inr h' \<Longrightarrow> keeps tid h h'"
  shows "keeps tid g g'"
  using assms(1) keeps_refl [OF assms(2)]
proof (rule foldE_inv)
  fix x h h' assume "x \<in> set xs" "keeps tid g h" "f x h = Inr h'"
  with assms(4) show "keeps tid g h'" using keeps_trans by blast
qed

lemma keeps_ready:
  "keeps tid g h \<Longrightarrow> vector_clocks (get_thread_data g tid) \<noteq> [] \<Longrightarrow>
   hawk_inv h \<and> vector_clocks (get_thread_data h tid) \<noteq> []"
  using keeps_clocks by (fastforce simp: keeps_def)

lemma ProcessStore_keeps:
  assumes inv: "hawk_inv g" and vc: "vector_clocks (get_thread_data g tid) \<noteq> []"
    and run: "ProcessStore tid address sz ctxt g = Inr g'"
  shows "keeps tid g g'"
proof -
  obtain mask g1 where 1: "hawk_HandleAccess tid address sz g = Inr (mask, g1)"
    using run by (auto simp: ProcessStore_def)
  obtain bt g2 where 2: "hawk_GetBacktrace ctxt tid g1 = (bt, g2)" by fastforce
  obtain p g3 where 3: "get_timedlockset tid g2 = (p, g3)" by fastforce
  let ?d = "\<lparr>timed_lockset = p, sd_backtrace = bt\<rparr>"
  have loop: "foldE (store_byte tid ?d) (byte_range address sz) g3 = Inr g'"
    using run 1 2 3 by (simp add: ProcessStore_def)
  note k1 = keeps_HandleAccess(1) [OF inv 1]
  then have inv1: "hawk_inv g1" by (simp add: keeps_def)
  note b = hawk_GetBacktrace_spec [OF inv1 2]
  note t = get_timedlockset_spec [OF b(1) 3]
  have k3: "keeps tid g g3"
    using k1 keeps_GetBacktrace [OF inv1 2] keeps_get_timedlockset [OF b(1) 3] keeps_trans by blast
  have d: "store_data_ok (tls_heap g3) (bt_heap g3) ?d"
    using b(3,4) t(3,7) by (simp add: store_data_ok_def)
  have "keeps tid g3 g'"
  proof (rule foldE_keeps [OF loop])
    fix x h h' assume "keeps tid g3 h" "store_byte tid ?d x h = Inr h'"
    then show "keeps tid h h'"
      using store_byte_keeps keeps_ready [of tid g3 h] keeps_ready [OF k3 vc] keeps_valid(4) d by blast
  qed (use keeps_ready [OF k3 vc] in auto)
  with k3 show ?thesis by (rule keeps_trans)
qed

lemma fence_write_keeps:
  assumes inv: "hawk_inv g" and vc: "vector_clocks (get_thread_data g tid) \<noteq> []"
    and bt0: "bt_valid (bt_heap g) bt0"
    and p: "tls_valid (tls_heap g) p" and d: "store_data_ok (tls_heap g) (bt_heap g) (snd w)"
    and run: "fence_write tid ctxt p w (g, bt0) = Inr (g', bt')"
  shows "keeps tid g g'" "bt_valid (bt_heap g') bt'"
    "mem_state (get_thread_data g' tid) = mem_state (get_thread_data g tid)"
    "current_timedlockset (get_thread_data g' tid) = current_timedlockset (get_thread_data g tid)"
proof -
  obtain b g1 where 1: "hawk_HandleAccessByte tid (fst w) g = Inr (b, g1)"
    using run by (auto simp: fence_write_def)
  obtain st where g1: "g1 = g\<lparr>irh := st\<rparr>" using hawk_HandleAccess_spec(2) [OF 1] by blast
  note k1 = keeps_HandleAccess(2) [OF inv 1]
  have inv1: "hawk_inv g1" using k1 by (simp add: keeps_def)
  have "keeps tid g g' \<and> bt_valid (bt_heap g') bt' \<and>
    mem_state (get_thread_data g' tid) = mem_state (get_thread_data g tid) \<and>
    current_timedlockset (get_thread_data g' tid) = current_timedlockset (get_thread_data g tid)"
  proof (cases b)
    case False
    then have "g' = g1" "bt' = bt0" using run 1 by (simp_all add: fence_write_def)
    with k1 bt0 g1 show ?thesis by simp
  next
    case True
    obtain bt g2 where 2: "(if bt0 = None then hawk_GetBacktrace ctxt tid g1 else (bt0, g1)) = (bt, g2)"
      by fastforce
    have g2: "keeps tid g1 g2" "bt_valid (bt_heap g2) bt" "bt \<noteq> None"
      "ls_heap g2 = ls_heap g1" "tls_heap g2 = tls_heap g1" "analysis_data_tls g2 = analysis_data_tls g1"
      using 2 hawk_GetBacktrace_spec [OF inv1, of ctxt tid bt g2] keeps_GetBacktrace [OF inv1, of ctxt tid bt g2]
        bt0 keeps_refl [OF inv1] by (auto simp: g1 split: if_splits)
    obtain cs h where 3: "intersect_timedlockset p (timed_lockset (snd w)) (tls_heap g2) (ls_heap g2) = (cs, h)"
      by fastforce
    let ?s = "\<lparr>common_set = cs, sfd_clock_i = current_clock_i (get_thread_data g2 tid),
              write_trace = sd_backtrace (snd w), fence_trace = bt, sfd_address = fst w,
              persisted = True, was_flushed = True\<rparr>"
    have "(g', bt') = (push_store tid ?s (g2\<lparr>ls_heap := h\<rparr>), bt)"
      using run unfolding fence_write_def by (auto simp: 1 2 3 True)
    then have g': "g' = push_store tid ?s (g2\<lparr>ls_heap := h\<rparr>)" and bt': "bt' = bt" by simp_all
    have k2: "keeps tid g g2" using k1 g2(1) by (rule keeps_trans)
    have inv2: "hawk_inv g2" and d2: "store_data_ok (tls_heap g2) (bt_heap g2) (snd w)"
      and vc2: "vector_clocks (get_thread_data g2 tid) \<noteq> []"
      using keeps_ready [OF k2 vc] keeps_valid(4) [OF k2 d] by auto
    have hw: "ls_heap_wf (ls_heap g2)" "tls_heap_wf (tls_heap g2)" using inv2 by (auto simp: hawk_inv_def)
    have v: "tls_valid (tls_heap g2) p" "tls_valid (tls_heap g2) (timed_lockset (snd w))"
      using keeps_valid(1) [OF k2 p] d2 by (auto simp: store_data_ok_def)
    note isx = intersect_timedlockset_spec [OF hw v 3]
    have k3: "keeps tid g2 (g2\<lparr>ls_heap := h\<rparr>)" by (rule keeps_ls_heap [OF inv2 isx(1,2)])
    have "store_ok h (bt_heap g2) (length (vector_clocks (get_thread_data g2 tid))) ?s"
      using isx(3) d2 g2(2,3) current_clock_i_bound [OF vc2] by (simp add: store_ok_def store_data_ok_def)
    then have "keeps tid (g2\<lparr>ls_heap := h\<rparr>) g'"
      unfolding g' using k3 by (intro store_ok_push) (auto simp: keeps_def)
    with k2 k3 have "keeps tid g g'" using keeps_trans by blast
    then show ?thesis using g2 by (simp add: g' bt' push_store_def g1)
  qed
  then show "keeps tid g g'" "bt_valid (bt_heap g') bt'"
    "mem_state (get_thread_data g' tid) = mem_state (get_thread_data g tid)"
    "current_timedlockset (get_thread_data g' tid) = current_timedlockset (get_thread_data g tid)" by auto
qed

text \<open>The two nested loops are one loop over all entries of the map.\<close>

definition mem_entries :: "mem_state_t \<Rightarrow> (u64 \<times> StoreData) list" where
  "mem_entries m = concat (map snd m)"

lemma foldE_nested: "foldE (\<lambda>x. foldE f (h x)) xs s = foldE f (concat (map h xs)) s"
proof (induction xs arbitrary: s)
  case (Cons x xs)
  then show ?case by (cases "foldE f (h x) s") (auto simp: foldE_append)
qed simp

lemma mem_entries_ok:
  "mem_ok th bh m \<Longrightarrow> e \<in> set (mem_entries m) \<Longrightarrow> store_data_ok th bh (snd e)"
  by (fastforce simp: mem_entries_def mem_ok_def line_ok_def)

lemma fence_loop_keeps:
  assumes run: "foldE (fence_write tid ctxt p) ws (g, None) = Inr (g', bt')"
    and inv: "hawk_inv g" and vc: "vector_clocks (get_thread_data g tid) \<noteq> []"
    and p: "tls_valid (tls_heap g) p"
    and ws: "\<And>w. w \<in> set ws \<Longrightarrow> store_data_ok (tls_heap g) (bt_heap g) (snd w)"
  shows "keeps tid g g' \<and> mem_state (get_thread_data g' tid) = mem_state (get_thread_data g tid)"
proof -
  let ?P = "\<lambda>(h, bt). keeps tid g h \<and> bt_valid (bt_heap h) bt \<and>
      mem_state (get_thread_data h tid) = mem_state (get_thread_data g tid)"
  have "?P (g', bt')"
  proof (rule foldE_inv [OF run, of ?P])
    show "?P (g, None)" by (simp add: keeps_refl inv bt_valid_def)
  next
    fix w t t' assume w: "w \<in> set ws" and P: "?P t" and step: "fence_write tid ctxt p w t = Inr t'"
    obtain h bt h' bt' where t: "t = (h, bt)" "t' = (h', bt')" by (cases t; cases t')
    have k: "keeps tid g h" using P t by simp
    note r = keeps_ready [OF k vc]
    note f = fence_write_keeps [of h tid bt p w ctxt h' bt']
    show "?P t'"
      using f P step t r keeps_valid(1) [OF k p] keeps_valid(4) [OF k ws [OF w]] keeps_trans [OF k]
      by simp
  qed
  then show ?thesis by simp
qed

lemma ProcessFence_keeps:
  assumes inv: "hawk_inv g" and vc: "vector_clocks (get_thread_data g tid) \<noteq> []"
    and run: "ProcessFence tid rmw ctxt address sz g = Inr g'"
  shows "keeps tid g g'"
proof -
  obtain g1 where 1: "(if rmw \<and> sz \<noteq> 0 then ProcessStore tid address sz ctxt g else Inr g) = Inr g1"
    using run by (auto simp: ProcessFence_def)
  have k1: "keeps tid g g1"
    using 1 ProcessStore_keeps [OF inv vc, of address sz ctxt g1] keeps_refl [OF inv]
    by (auto split: if_splits)
  note r1 = keeps_ready [OF k1 vc]
  obtain p g2 where 2: "get_timedlockset tid g1 = (p, g2)" by fastforce
  note t = get_timedlockset_spec [OF conjunct1 [OF r1] 2]
  have k12: "keeps tid g1 g2" by (rule keeps_get_timedlockset [OF conjunct1 [OF r1] 2])
  have k2: "keeps tid g g2" using k1 k12 by (rule keeps_trans)
  note r2 = keeps_ready [OF k2 vc]
  let ?mem = "flushed_mem_state (get_thread_data g2 tid)"
  show ?thesis
  proof (cases "?mem = []")
    case True
    then have "g' = g2" using run 1 2 by (simp add: ProcessFence_def Let_def)
    with k2 show ?thesis by simp
  next
    case False
    obtain g3 bt where 3: "foldE (\<lambda>cache_line. foldE (fence_write tid ctxt p) (snd cache_line)) ?mem (g2, None) = Inr (g3, bt)"
      and g': "g' = update_thread tid (\<lambda>td. td\<lparr>flushed_mem_state := []\<rparr>) g3"
      using run 1 2 False by (auto simp: ProcessFence_def Let_def)
    have ok: "mem_ok (tls_heap g2) (bt_heap g2) ?mem"
      using hawk_inv_td [of g2 tid] r2 by (simp add: td_ok_def)
    have k3: "keeps tid g2 g3"
      using fence_loop_keeps [of tid ctxt p "mem_entries ?mem" g2 g3 bt] 3 r2 t(3) mem_entries_ok [OF ok]
      by (simp add: foldE_nested mem_entries_def)
    have inv3: "hawk_inv g3" using k3 by (simp add: keeps_def)
    have "keeps tid g3 g'"
      unfolding g' using hawk_inv_td [OF inv3, of tid]
      by (intro keeps_update_thread inv3) (auto simp: td_ok_def cache_ok_def)
    with k2 k3 show ?thesis using keeps_trans by blast
  qed
qed

section \<open>Locks\<close>

lemma registry_wf_mono: "registry_wf S r \<Longrightarrow> registry_wf {} r"
  by (simp add: registry_wf_def)

lemma TimedLockset_lock_unlock_spec:
  "TimedLockset_lock m ts (t, r) = (t', r') \<Longrightarrow>
     r' = register_mutex m r \<and> (\<exists>i. map_of (lock_index r') m = Some i \<and>
       t' = t\<lparr>timestamps := sm_insert i ts (timestamps t)\<rparr>)"
  "TimedLockset_unlock m (t, r) = (t', r') \<Longrightarrow>
     r' = register_mutex m r \<and> (\<exists>i. map_of (lock_index r') m = Some i \<and>
       t' = t\<lparr>timestamps := sm_erase i (timestamps t)\<rparr>)"
  using get_index_registered [OF register_mutex_registers, of m r]
  by (auto simp: TimedLockset_lock_def TimedLockset_unlock_def split: prod.splits)

lemma hawk_inv_registry: "hawk_inv g \<Longrightarrow> hawk_inv (g\<lparr>registry := register_mutex m (registry g)\<rparr>)"
  by (simp add: hawk_inv_def registry_wf_register_mutex)

lemma lock_current_keeps:
  assumes inv: "hawk_inv g" and c: "cached_timedlockset (get_thread_data g tid) = None"
  shows "keeps tid g (lock_current tid m special g)"
proof -
  have td: "td_ok (ls_heap g) (tls_heap g) (bt_heap g) (get_thread_data g tid)"
    by (rule hawk_inv_td [OF inv])
  show ?thesis
  proof (cases special)
    case True
    then show ?thesis
      unfolding lock_current_def get_next_id_def Let_def
      using td c by (simp, intro keeps_update_thread inv) (auto simp: td_ok_def cache_ok_def)
  next
    case False
    let ?td = "get_thread_data g tid"
    obtain t r where l: "TimedLockset_lock m (ucast (lock_clock ?td)) (current_timedlockset ?td, registry g) = (t, r)"
      by fastforce
    note l' = TimedLockset_lock_unlock_spec(1) [OF l]
    let ?g1 = "g\<lparr>registry := r\<rparr>"
    let ?f = "\<lambda>_. ?td\<lparr>lock_clock := lock_clock ?td + 1, current_timedlockset := t\<rparr>"
    have eq: "lock_current tid m special g = update_thread tid ?f ?g1"
      using False l by (simp add: lock_current_def get_next_id_def Let_def)
    have inv1: "hawk_inv ?g1" using hawk_inv_registry [OF inv] l' by simp
    have "keeps tid ?g1 (update_thread tid ?f ?g1)"
      using td c l' by (intro keeps_update_thread inv1) (auto simp: td_ok_def cache_ok_def tls_wf_def)
    moreover have "keeps tid g ?g1" using inv1 by (simp add: keeps_def mem_frame_def)
    ultimately show ?thesis unfolding eq using keeps_trans by blast
  qed
qed

lemma unlock_current_keeps:
  assumes inv: "hawk_inv g" and c: "cached_timedlockset (get_thread_data g tid) = None"
  shows "keeps tid g (unlock_current tid m special g)"
proof -
  have td: "td_ok (ls_heap g) (tls_heap g) (bt_heap g) (get_thread_data g tid)"
    by (rule hawk_inv_td [OF inv])
  show ?thesis
  proof (cases special)
    case True
    then show ?thesis
      unfolding unlock_current_def Let_def
      using td c by (simp, intro keeps_update_thread inv) (auto simp: td_ok_def cache_ok_def)
  next
    case False
    let ?td = "get_thread_data g tid"
    obtain t r where l: "TimedLockset_unlock m (current_timedlockset ?td, registry g) = (t, r)"
      by fastforce
    note l' = TimedLockset_lock_unlock_spec(2) [OF l]
    let ?g1 = "g\<lparr>registry := r\<rparr>"
    let ?f = "\<lambda>_. ?td\<lparr>current_timedlockset := t\<rparr>"
    have eq: "unlock_current tid m special g = update_thread tid ?f ?g1"
      using False l by (simp add: unlock_current_def Let_def)
    have inv1: "hawk_inv ?g1" using hawk_inv_registry [OF inv] l' by simp
    have "keeps tid ?g1 (update_thread tid ?f ?g1)"
      using td c l' by (intro keeps_update_thread inv1) (auto simp: td_ok_def cache_ok_def tls_wf_def)
    moreover have "keeps tid g ?g1" using inv1 by (simp add: keeps_def mem_frame_def)
    ultimately show ?thesis unfolding eq using keeps_trans by blast
  qed
qed

lemma ProcessLock_keeps:
  assumes inv: "hawk_inv g"
  shows "keeps tid g (ProcessLock tid lt m special g)"
proof -
  let ?g1 = "update_thread tid (\<lambda>td. td\<lparr>cached_timedlockset := None\<rparr>) g"
  have k1: "keeps tid g ?g1"
    using hawk_inv_td [OF inv, of tid]
    by (intro keeps_update_thread inv) (auto simp: td_ok_def cache_ok_def)
  then have inv1: "hawk_inv ?g1" by (simp add: keeps_def)
  have "keeps tid ?g1 (ProcessLock tid lt m special g)"
    using lock_current_keeps [OF inv1, of tid m special] unlock_current_keeps [OF inv1, of tid m special]
      keeps_refl [OF inv1] by (simp add: ProcessLock_def Let_def)
  with k1 show ?thesis by (rule keeps_trans)
qed

end
