(* ===== verification/Threads.thy ===== *)
theory Threads
  imports Invariant
begin

text \<open>
  The thread handlers keep the invariant, and what each of them does to the clocks. Creation
  advances the creator's component twice and passes the clock between the two on to the new
  thread; start-up advances the new thread's own component twice; exit advances it once and
  publishes the clock; join advances the joiner's component and merges the published clock.
\<close>

lemma td_ok_push_clock:
  "td_ok lh th bh td \<Longrightarrow> vc_wf c \<Longrightarrow> td_ok lh th bh (td\<lparr>vector_clocks := vector_clocks td @ [c]\<rparr>)"
  unfolding td_ok_def
  by (auto simp: cache_ok_def elim!: store_ok_mono load_ok_mono
)

lemma push_clock_inv: "hawk_inv g \<Longrightarrow> vc_wf c \<Longrightarrow> hawk_inv (push_clock tid c g)"
  unfolding push_clock_def using hawk_inv_td td_ok_push_clock by (blast intro: hawk_inv_update_thread)

lemma hawk_inv_creator: "hawk_inv g \<Longrightarrow> vc_wf c \<Longrightarrow> hawk_inv (g\<lparr>creator_thread_clock := c\<rparr>)"
  by (simp add: hawk_inv_def)

lemma hawk_inv_exits:
  "hawk_inv g \<Longrightarrow> (\<And>t c. map_of m t = Some c \<Longrightarrow> vc_wf c) \<Longrightarrow> hawk_inv (g\<lparr>exit_threads_clock := m\<rparr>)"
  by (simp add: hawk_inv_def)

lemma vectors_back_spec:
  assumes "hawk_inv g" "vectors_back (get_thread_data g tid) = Inr c"
  shows "vc_wf c" "vector_clocks (get_thread_data g tid) \<noteq> []" "c = last (vector_clocks (get_thread_data g tid))"
  using assms hawk_inv_td [of g tid] by (auto simp: vectors_back_def td_ok_def split: if_splits)

lemma ProcessThreadCreate_inv:
  "hawk_inv g \<Longrightarrow> ProcessThreadCreate tid g = Inr g' \<Longrightarrow> hawk_inv g'"
  by (auto simp: ProcessThreadCreate_def Let_def
      dest: vectors_back_spec(1) intro!: push_clock_inv hawk_inv_creator)

lemma ProcessThreadInit_inv: "hawk_inv g \<Longrightarrow> hawk_inv (ProcessThreadInit tid c g)"
proof -
  assume inv: "hawk_inv g"
  have "hawk_inv (update_thread tid (\<lambda>td. td\<lparr>td_tid := tid\<rparr>) g)"
    using hawk_inv_td [OF inv, of tid] by (intro hawk_inv_update_thread inv) (simp add: td_ok_def cache_ok_def)
  moreover have "vc_wf (creator_thread_clock g)" using inv by (simp add: hawk_inv_def)
  ultimately show ?thesis
    by (auto simp: ProcessThreadInit_def Let_def intro!: push_clock_inv)
qed

lemma ProcessThreadJoin_inv:
  assumes inv: "hawk_inv g" and run: "ProcessThreadJoin tid et g = Inr g'"
  shows "hawk_inv g'"
proof -
  obtain c where c: "vectors_back (get_thread_data g tid) = Inr c"
    using run by (auto simp: ProcessThreadJoin_def)
  let ?x = "sm_modify et new_VectorClock id (exit_threads_clock g)"
  have ex: "vc_wf v" if "map_of ?x t = Some v" for t v
    using that inv by (auto simp: hawk_inv_def sm_get_def split: if_splits option.splits)
  have "hawk_inv (g\<lparr>exit_threads_clock := ?x\<rparr>)" using ex by (rule hawk_inv_exits [OF inv])
  moreover have "g' = push_clock tid (vc_update (sm_get new_VectorClock ?x et) (vc_tick tid c))
      (g\<lparr>exit_threads_clock := ?x\<rparr>)"
    using run c by (auto simp: ProcessThreadJoin_def Let_def)
  ultimately show ?thesis
    using vectors_back_spec(1) [OF inv c] by (simp add: push_clock_inv vc_wf_update vc_wf_tick)
qed

lemma exit_stores_keeps:
  assumes inv: "hawk_inv g" and vc: "vector_clocks (get_thread_data g tid) \<noteq> []"
    and m: "mem_ok (tls_heap g) (bt_heap g) m"
    and run: "exit_stores tid fl m g = Inr g'"
  shows "keeps tid g g'"
proof -
  let ?f = "\<lambda>e h. case get_timedlockset tid h of (p, h1) \<Rightarrow> RegisterUnpersistedStore tid (fst e) (snd e) p None fl h1"
  have "foldE ?f (mem_entries m) g = Inr g'"
    using run by (simp add: exit_stores_def mem_entries_def foldE_nested)
  then show ?thesis
  proof (rule foldE_keeps [OF _ inv vc])
    fix e h h' assume e: "e \<in> set (mem_entries m)" and k: "keeps tid g h" and f: "?f e h = Inr h'"
    obtain p h1 where p: "get_timedlockset tid h = (p, h1)" by fastforce
    note r = keeps_ready [OF k vc]
    have k1: "keeps tid h h1" using keeps_get_timedlockset r p by blast
    note r1 = keeps_ready [OF k1 conjunct2 [OF r]]
    have d: "store_data_ok (tls_heap h1) (bt_heap h1) (snd e)"
      using keeps_valid(4) [OF k1] keeps_valid(4) [OF k] mem_entries_ok [OF m e] by blast
    have "keeps tid h1 h'"
      using RegisterUnpersistedStore_keeps(1) [OF conjunct1 [OF r1] conjunct2 [OF r1] d, of p None "fst e" fl h']
        get_timedlockset_spec(3) [OF conjunct1 [OF r] p] f p by (simp add: bt_valid_def)
    with k1 show "keeps tid h h'" by (rule keeps_trans)
  qed
qed

lemma ProcessThreadExit_cases:
  assumes inv: "hawk_inv g" and vc: "vector_clocks (get_thread_data g tid) \<noteq> []"
    and run: "ProcessThreadExit tid g = Inr g'"
  obtains g1 c where "keeps tid g g1" "c = vc_tick tid (last (vector_clocks (get_thread_data g tid)))"
    "g' = (push_clock tid c g1)\<lparr>exit_threads_clock := sm_insert tid c (exit_threads_clock g1)\<rparr>"
proof -
  obtain g1 where g1: "keeps tid g g1"
    and b: "bindE (vectors_back (get_thread_data g1 tid)) (\<lambda>clock0.
         let clock1 = vc_tick tid clock0; g2 = push_clock tid clock1 g1
         in Inr (g2\<lparr>exit_threads_clock := sm_insert tid clock1 (exit_threads_clock g2)\<rparr>)) = Inr g'"
  proof (cases "check_unpersisted_stores g")
    case False
    with run show thesis by (intro that [of g] keeps_refl inv) (simp add: ProcessThreadExit_def)
  next
    case True
    then obtain g1 g2 where 1: "exit_stores tid False (mem_state (get_thread_data g tid)) g = Inr g1"
      and 2: "exit_stores tid True (flushed_mem_state (get_thread_data g1 tid)) g1 = Inr g2"
      and b: "bindE (vectors_back (get_thread_data g2 tid)) (\<lambda>clock0.
         let clock1 = vc_tick tid clock0; g3 = push_clock tid clock1 g2
         in Inr (g3\<lparr>exit_threads_clock := sm_insert tid clock1 (exit_threads_clock g3)\<rparr>)) = Inr g'"
      using run unfolding ProcessThreadExit_def by (simp only: if_True bindE_Inr_iff) blast
    have k: "keeps tid g g1"
      using exit_stores_keeps [OF inv vc _ 1] hawk_inv_td [OF inv, of tid] by (simp add: td_ok_def)
    note r = keeps_ready [OF k vc]
    have "keeps tid g1 g2"
      using exit_stores_keeps [OF conjunct1 [OF r] conjunct2 [OF r] _ 2]
        hawk_inv_td [OF conjunct1 [OF r], of tid] by (simp add: td_ok_def)
    from that [OF keeps_trans [OF k this] b] show thesis .
  qed
  show thesis
    using b that [OF g1 refl] keeps_clocks [OF g1] vc
    by (auto simp: vectors_back_def Let_def push_clock_def)
qed

lemma ProcessThreadExit_inv:
  assumes inv: "hawk_inv g" and vc: "vector_clocks (get_thread_data g tid) \<noteq> []"
    and run: "ProcessThreadExit tid g = Inr g'"
  shows "hawk_inv g'"
proof -
  obtain g1 c where k: "keeps tid g g1" and c: "c = vc_tick tid (last (vector_clocks (get_thread_data g tid)))"
    and g': "g' = (push_clock tid c g1)\<lparr>exit_threads_clock := sm_insert tid c (exit_threads_clock g1)\<rparr>"
    by (rule ProcessThreadExit_cases [OF assms])
  have wc: "vc_wf c" using hawk_inv_td [OF inv, of tid] vc by (auto simp: c td_ok_def)
  have inv1: "hawk_inv g1" using k by (simp add: keeps_def)
  show ?thesis
    unfolding g' using inv1 wc
    by (intro hawk_inv_exits push_clock_inv) (auto simp: hawk_inv_def split: if_splits)
qed

end
