(* ===== verification/Events.thy ===== *)
theory Events
  imports Threads
begin

text \<open>
  The callbacks PIN makes (\<^verbatim>\<open>src/src/hawkset.cpp\<close>, section INSTRUMENTATION) and the
  behaviour of the whole tool as a sequence of them. A callback that waits for the
  application (\<^verbatim>\<open>PthreadCreateReplacement\<close>) is two steps, before and after the call of the
  original function. \<open>event\<close> lists the callbacks with the values PIN passes, \<open>hawk_step\<close>
  runs one, and \<open>enabled\<close> says when one can happen: PIN calls a thread's callbacks between
  its start and its end and gives every thread a new identifier, a mutex is acquired only
  when free, and a semaphore is passed only when set.
\<close>

section \<open>Memory instructions\<close>

definition TraceWrite :: "nat \<Rightarrow> u64 \<Rightarrow> u64 \<Rightarrow> u32 \<Rightarrow> Instruction \<Rightarrow> hawk \<Rightarrow> hs_error + hawk" where
  "TraceWrite tid ctxt address sz type g =
     (if IsPMAddress address sz (pm g) then
        if type = NON_TEMPORAL_STORE then Inr (ProcessFlush tid CLFLUSHOPT address g)
        else ProcessStore tid address sz ctxt g
      else Inr g)"

definition TraceFlush :: "nat \<Rightarrow> u64 \<Rightarrow> Instruction \<Rightarrow> hawk \<Rightarrow> hawk" where
  "TraceFlush tid address flushtype g =
     (if IsPMAddress address 0 (pm g) then ProcessFlush tid flushtype address g else g)"

definition TraceFence :: "nat \<Rightarrow> u64 \<Rightarrow> hawk \<Rightarrow> hs_error + hawk" where
  "TraceFence tid ctxt g = ProcessFence tid False ctxt 0 0 g"

definition TraceRMW :: "nat \<Rightarrow> u64 \<Rightarrow> u64 \<Rightarrow> u32 \<Rightarrow> hawk \<Rightarrow> hs_error + hawk" where
  "TraceRMW tid ctxt address sz g =
     (if IsPMAddress address sz (pm g) then ProcessFence tid True ctxt address sz g
      else ProcessFence tid True ctxt 0 0 g)"

definition TraceRead :: "nat \<Rightarrow> u64 \<Rightarrow> u64 \<Rightarrow> u32 \<Rightarrow> u64 \<Rightarrow> hawk \<Rightarrow> hs_error + hawk" where
  "TraceRead tid ctxt address sz address2 g =
     (if IsPMAddress address sz (pm g) then ProcessRead tid address sz ctxt g
      else if address2 \<noteq> 0 \<and> IsPMAddress address2 sz (pm g) then ProcessRead tid address2 sz ctxt g
      else Inr g)"

definition TraceCall :: "nat \<Rightarrow> u64 \<Rightarrow> hawk \<Rightarrow> hawk" where
  "TraceCall tid address = update_thread tid (\<lambda>td. td\<lparr>stack := stack td @ [address]\<rparr>)"

definition TraceRet :: "nat \<Rightarrow> hawk \<Rightarrow> hs_error + hawk" where
  "TraceRet tid g =
     (if stack (get_thread_data g tid) = [] then Inl (Undefined ''stack.pop_back()'')
      else Inr (update_thread tid (\<lambda>td. td\<lparr>stack := butlast (stack td)\<rparr>) g))"

section \<open>Lock functions\<close>

definition LockBefore :: "nat \<Rightarrow> u64 \<Rightarrow> hawk \<Rightarrow> hawk" where
  "LockBefore tid mutexAddress = ProcessLock tid LOCK mutexAddress False"

definition WriteLockBefore :: "nat \<Rightarrow> u64 \<Rightarrow> hawk \<Rightarrow> hawk" where
  "WriteLockBefore tid mutexAddress = ProcessLock tid WRLOCK mutexAddress False"

definition ReadLockBefore :: "nat \<Rightarrow> u64 \<Rightarrow> hawk \<Rightarrow> hawk" where
  "ReadLockBefore tid mutexAddress = ProcessLock tid RDLOCK mutexAddress False"

definition TryLockBefore :: "nat \<Rightarrow> u64 \<Rightarrow> u64 \<Rightarrow> u64 \<Rightarrow> hawk \<Rightarrow> hawk" where
  "TryLockBefore tid retAddr mutexAddress resultAddress =
     update_thread tid (\<lambda>td. td\<lparr>try_lock_mutex := mutexAddress, result_address := resultAddress,
                                try_lock_return_address := retAddr\<rparr>)"

text \<open>
  \<open>app_bool\<close> is the application's memory read as \<^verbatim>\<open>bool\<close>; \<open>locktype\<close> is \<open>None\<close> for a value
  outside the enumeration, which selects no case of the switch.
\<close>

definition try_lock_check :: "(u64 \<Rightarrow> bool) \<Rightarrow> ThreadData \<Rightarrow> u64 \<Rightarrow> u64 \<Rightarrow> u64 \<Rightarrow> u64 \<Rightarrow> bool" where
  "try_lock_check app_bool td result0 success negate use_arg =
     (let result = (if use_arg \<noteq> 0 then (if app_bool (result_address td) then 1 else 0) else result0);
          check = (result = success)
      in if negate \<noteq> 0 then \<not> check else check)"

definition TryLockAfter ::
  "(u64 \<Rightarrow> bool) \<Rightarrow> nat \<Rightarrow> u64 \<Rightarrow> u64 \<Rightarrow> u64 \<Rightarrow> u64 \<Rightarrow> LockType option \<Rightarrow> hawk \<Rightarrow> hawk" where
  "TryLockAfter app_bool tid result0 success negate use_arg locktype g =
     (let td = get_thread_data g tid
      in if try_lock_check app_bool td result0 success negate use_arg then
           (case locktype of
              Some MUTEX \<Rightarrow> ProcessLock tid TRY_LOCK (try_lock_mutex td) False g
            | Some WRITE \<Rightarrow> ProcessLock tid TRY_WRLOCK (try_lock_mutex td) False g
            | Some READ \<Rightarrow> ProcessLock tid TRY_RDLOCK (try_lock_mutex td) False g
            | None \<Rightarrow> g)
         else g)"

definition UnlockBefore :: "nat \<Rightarrow> u64 \<Rightarrow> hawk \<Rightarrow> hawk" where
  "UnlockBefore tid mutexAddress = ProcessLock tid UNLOCK mutexAddress False"

definition RWUnlockBefore :: "nat \<Rightarrow> u64 \<Rightarrow> hawk \<Rightarrow> hawk" where
  "RWUnlockBefore tid mutexAddress = ProcessLock tid RWUNLOCK mutexAddress False"

definition TraceAdqRelBefore :: "nat \<Rightarrow> u64 \<Rightarrow> hawk \<Rightarrow> hawk" where
  "TraceAdqRelBefore tid i = ProcessLock tid LOCK i True"

definition TraceAdqRelAfter :: "nat \<Rightarrow> u64 \<Rightarrow> hawk \<Rightarrow> hawk" where
  "TraceAdqRelAfter tid i = ProcessLock tid UNLOCK i True"

section \<open>Threads\<close>

text \<open>
  \<^verbatim>\<open>PthreadCreateReplacement\<close> up to the call of \<^verbatim>\<open>pthread_create\<close>, and from its return:
  \<open>result\<close> is what it returned and \<open>pthread_id\<close> what it stored at \<^verbatim>\<open>*pid\<close>.
\<close>

definition PthreadCreate_call :: "nat \<Rightarrow> hawk \<Rightarrow> hs_error + hawk" where
  "PthreadCreate_call tid g =
     ProcessThreadCreate tid (g\<lparr>thread_creation_mutex := Some tid, creator_thread_id := int tid\<rparr>)"

definition PthreadCreate_return :: "int \<Rightarrow> u64 \<Rightarrow> hawk \<Rightarrow> hawk" where
  "PthreadCreate_return result pthread_id g =
     (let g1 = (if result = 0
                then g\<lparr>thread_creation_semaphore := False,
                       pthread_id_to_tid := sm_insert pthread_id (created_thread_id g) (pthread_id_to_tid g)\<rparr>
                else g)
      in g1\<lparr>thread_creation_mutex := None\<rparr>)"

definition TraceThreadStart_signal :: "nat \<Rightarrow> hawk \<Rightarrow> hawk" where
  "TraceThreadStart_signal tid g =
     (let g1 = g\<lparr>created_thread_id := tid\<rparr>
      in if tid \<noteq> 0 then g1\<lparr>thread_creation_semaphore := True\<rparr> else g1)"

definition TraceThreadStart_init :: "nat \<Rightarrow> hawk \<Rightarrow> hs_error + hawk" where
  "TraceThreadStart_init tid g =
     (if \<not> tid < TLS_MAX_SIZE then Inl (Assertion ''tid < TLS_MAX_SIZE'')
      else Inr (ProcessThreadInit tid (creator_thread_id g) (update_thread tid (\<lambda>td. td\<lparr>used := True\<rparr>) g)))"

definition TraceThreadStart :: "nat \<Rightarrow> hawk \<Rightarrow> hs_error + hawk" where
  "TraceThreadStart tid g = TraceThreadStart_init tid (TraceThreadStart_signal tid g)"

definition PthreadJoin_return :: "nat \<Rightarrow> int \<Rightarrow> u64 \<Rightarrow> hawk \<Rightarrow> hs_error + hawk" where
  "PthreadJoin_return tid result pid g =
     (if result = 0
      then ProcessThreadJoin tid (sm_get 0 (pthread_id_to_tid g) pid)
             (g\<lparr>pthread_id_to_tid := sm_modify pid 0 id (pthread_id_to_tid g)\<rparr>)
      else Inr g)"

definition TraceThreadExit :: "nat \<Rightarrow> hawk \<Rightarrow> hs_error + hawk" where
  "TraceThreadExit tid g = ProcessThreadExit tid g"

section \<open>The tool as a transition system\<close>

datatype event =
    EvWrite nat u64 u64 u32 Instruction
  | EvFlush nat u64 Instruction
  | EvFence nat u64
  | EvRMW nat u64 u64 u32
  | EvRead nat u64 u64 u32 u64
  | EvCall nat u64
  | EvRet nat
  | EvLock nat u64
  | EvWriteLock nat u64
  | EvReadLock nat u64
  | EvTryLockBefore nat u64 u64 u64
  | EvTryLockAfter "u64 \<Rightarrow> bool" nat u64 u64 u64 u64 "LockType option"
  | EvUnlock nat u64
  | EvRWUnlock nat u64
  | EvAdqRelBefore nat u64
  | EvAdqRelAfter nat u64
  | EvCreateCall nat
  | EvCreateReturn nat int u64
  | EvThreadStart nat
  | EvJoin nat int u64
  | EvThreadExit nat
  | EvSyscallEntry "int \<Rightarrow> string option" nat syscall "nat \<Rightarrow> u64"
  | EvSyscallExit nat u64
  | EvImageLoad "string \<Rightarrow> bool"

record config =
  pm_mount :: string
  configs :: "MutexConfig list"

fun hawk_step :: "config \<Rightarrow> event \<Rightarrow> hawk \<Rightarrow> hs_error + hawk" where
  "hawk_step c (EvWrite tid ctxt a sz type) g = TraceWrite tid ctxt a sz type g"
| "hawk_step c (EvFlush tid a type) g = Inr (TraceFlush tid a type g)"
| "hawk_step c (EvFence tid ctxt) g = TraceFence tid ctxt g"
| "hawk_step c (EvRMW tid ctxt a sz) g = TraceRMW tid ctxt a sz g"
| "hawk_step c (EvRead tid ctxt a sz a2) g = TraceRead tid ctxt a sz a2 g"
| "hawk_step c (EvCall tid a) g = Inr (TraceCall tid a g)"
| "hawk_step c (EvRet tid) g = TraceRet tid g"
| "hawk_step c (EvLock tid m) g = Inr (LockBefore tid m g)"
| "hawk_step c (EvWriteLock tid m) g = Inr (WriteLockBefore tid m g)"
| "hawk_step c (EvReadLock tid m) g = Inr (ReadLockBefore tid m g)"
| "hawk_step c (EvTryLockBefore tid ret m res) g = Inr (TryLockBefore tid ret m res g)"
| "hawk_step c (EvTryLockAfter mem tid res success neg use_arg lt) g =
     Inr (TryLockAfter mem tid res success neg use_arg lt g)"
| "hawk_step c (EvUnlock tid m) g = Inr (UnlockBefore tid m g)"
| "hawk_step c (EvRWUnlock tid m) g = Inr (RWUnlockBefore tid m g)"
| "hawk_step c (EvAdqRelBefore tid i) g = Inr (TraceAdqRelBefore tid i g)"
| "hawk_step c (EvAdqRelAfter tid i) g = Inr (TraceAdqRelAfter tid i g)"
| "hawk_step c (EvCreateCall tid) g = PthreadCreate_call tid g"
| "hawk_step c (EvCreateReturn tid result pid) g = Inr (PthreadCreate_return result pid g)"
| "hawk_step c (EvThreadStart tid) g = TraceThreadStart tid g"
| "hawk_step c (EvJoin tid result pid) g = PthreadJoin_return tid result pid g"
| "hawk_step c (EvThreadExit tid) g = TraceThreadExit tid g"
| "hawk_step c (EvSyscallEntry readlink tid num arg) g =
     bindE (SyscallEntry readlink (pm_mount c) num arg (pm g)) (\<lambda>st. Inr (g\<lparr>pm := st\<rparr>))"
| "hawk_step c (EvSyscallExit tid ret) g = Inr (g\<lparr>pm := SyscallExit ret (pm g)\<rparr>)"
| "hawk_step c (EvImageLoad rtn_valid) g =
     bindE (ImageLoad rtn_valid (configs c) (registry g)) (\<lambda>(_, _, r). Inr (g\<lparr>registry := r\<rparr>))"

text \<open>The thread of a callback; loading an image belongs to none.\<close>

fun thread_of :: "event \<Rightarrow> nat option" where
  "thread_of (EvWrite tid ctxt a sz type) = Some tid"
| "thread_of (EvFlush tid a type) = Some tid"
| "thread_of (EvFence tid ctxt) = Some tid"
| "thread_of (EvRMW tid ctxt a sz) = Some tid"
| "thread_of (EvRead tid ctxt a sz a2) = Some tid"
| "thread_of (EvCall tid a) = Some tid"
| "thread_of (EvRet tid) = Some tid"
| "thread_of (EvLock tid m) = Some tid"
| "thread_of (EvWriteLock tid m) = Some tid"
| "thread_of (EvReadLock tid m) = Some tid"
| "thread_of (EvTryLockBefore tid ret m res) = Some tid"
| "thread_of (EvTryLockAfter mem tid res success neg use_arg lt) = Some tid"
| "thread_of (EvUnlock tid m) = Some tid"
| "thread_of (EvRWUnlock tid m) = Some tid"
| "thread_of (EvAdqRelBefore tid i) = Some tid"
| "thread_of (EvAdqRelAfter tid i) = Some tid"
| "thread_of (EvCreateCall tid) = Some tid"
| "thread_of (EvCreateReturn tid result pid) = Some tid"
| "thread_of (EvThreadStart tid) = Some tid"
| "thread_of (EvJoin tid result pid) = Some tid"
| "thread_of (EvThreadExit tid) = Some tid"
| "thread_of (EvSyscallEntry readlink tid num arg) = Some tid"
| "thread_of (EvSyscallExit tid ret) = Some tid"
| "thread_of (EvImageLoad rtn_valid) = None"

definition started :: "hawk \<Rightarrow> nat \<Rightarrow> bool" where
  "started g tid \<longleftrightarrow> used (get_thread_data g tid)"

definition enabled :: "event \<Rightarrow> hawk \<Rightarrow> bool" where
  "enabled e g =
     (case e of
        EvThreadStart tid \<Rightarrow> \<not> started g tid
      | EvImageLoad rtn_valid \<Rightarrow> True
      | EvCreateCall tid \<Rightarrow> started g tid \<and> thread_creation_mutex g = None
      | EvCreateReturn tid result pid \<Rightarrow>
          started g tid \<and> thread_creation_mutex g = Some tid \<and> (result = 0 \<longrightarrow> thread_creation_semaphore g)
      | _ \<Rightarrow> (case thread_of e of None \<Rightarrow> True | Some tid \<Rightarrow> started g tid))"

inductive reachable :: "config \<Rightarrow> hawk \<Rightarrow> hawk \<Rightarrow> bool" for c g0 where
  reachable_init: "reachable c g0 g0"
| reachable_step: "reachable c g0 g \<Longrightarrow> enabled e g \<Longrightarrow> hawk_step c e g = Inr g' \<Longrightarrow> reachable c g0 g'"

inductive_cases reachable_stepE: "reachable c g0 g"

text \<open>A run as a list of events, with the intermediate states computed.\<close>

fun hawk_run :: "config \<Rightarrow> event list \<Rightarrow> hawk \<Rightarrow> hs_error + hawk" where
  "hawk_run c [] g = Inr g"
| "hawk_run c (e # es) g =
     (if enabled e g then bindE (hawk_step c e g) (hawk_run c es)
      else Inl (Undefined ''event not enabled''))"

lemma hawk_run_reachable: "hawk_run c es g = Inr g' \<Longrightarrow> reachable c g0 g \<Longrightarrow> reachable c g0 g'"
  by (induction es arbitrary: g) (auto split: if_splits intro: reachable_step)

end
