(* ===== verification/Reach.thy ===== *)
theory Reach
  imports Events
begin

text \<open>
  The invariant along every run: each callback keeps \<open>hawk_inv\<close>, so it holds in every
  reachable state.
\<close>

lemma hawk_inv_other_fields [simp]:
  "hawk_inv (g\<lparr>pm := p\<rparr>) = hawk_inv g"
  "hawk_inv (g\<lparr>creator_thread_id := i\<rparr>) = hawk_inv g"
  "hawk_inv (g\<lparr>created_thread_id := n\<rparr>) = hawk_inv g"
  "hawk_inv (g\<lparr>pthread_id_to_tid := m\<rparr>) = hawk_inv g"
  "hawk_inv (g\<lparr>thread_creation_mutex := o1\<rparr>) = hawk_inv g"
  "hawk_inv (g\<lparr>thread_creation_semaphore := b\<rparr>) = hawk_inv g"
  by (simp_all add: hawk_inv_def)

lemma hawk_inv_init: "hawk_inv (init_hawk n d u)"
  by (simp add: hawk_inv_def init_hawk_def new_ThreadData_def td_ok_def cache_ok_def
      registry_wf_init tls_wf_def new_TimedLockset_def ls_heap_wf_init tls_heap_wf_init bt_heap_wf_init)

lemma ready: "hawk_inv g \<Longrightarrow> started g tid \<Longrightarrow> vector_clocks (get_thread_data g tid) \<noteq> []"
  using hawk_inv_td [of g tid] by (simp add: td_ok_def started_def)

lemma hawk_inv_bookkeeping:
  assumes "hawk_inv g"
    and "\<And>td. td_ok (ls_heap g) (tls_heap g) (bt_heap g) td \<Longrightarrow> td_ok (ls_heap g) (tls_heap g) (bt_heap g) (f td)"
  shows "hawk_inv (update_thread tid f g)"
  using assms hawk_inv_td by (blast intro: hawk_inv_update_thread)

lemma TraceThreadStart_inv:
  assumes inv: "hawk_inv g" and run: "TraceThreadStart tid g = Inr g'"
  shows "hawk_inv g'"
proof -
  let ?g1 = "TraceThreadStart_signal tid g"
  let ?c = "vc_tick tid (vc_tick tid (if creator_thread_id ?g1 \<noteq> -1 then creator_thread_clock ?g1 else new_VectorClock))"
  have inv1: "hawk_inv ?g1" using inv by (simp add: TraceThreadStart_signal_def Let_def)
  then have c: "vc_wf ?c" by (auto simp: hawk_inv_def)
  have "g' = update_thread tid (\<lambda>td. td\<lparr>used := True, td_tid := tid,
      vector_clocks := vector_clocks td @ [?c]\<rparr>) ?g1"
    using run by (auto simp: TraceThreadStart_def TraceThreadStart_init_def ProcessThreadInit_def
        push_clock_def update_thread_def Let_def split: if_splits)
  also have "hawk_inv \<dots>"
  proof (rule hawk_inv_bookkeeping [OF inv1])
    fix td assume "td_ok (ls_heap ?g1) (tls_heap ?g1) (bt_heap ?g1) td"
    then have "td_ok (ls_heap ?g1) (tls_heap ?g1) (bt_heap ?g1) (td\<lparr>vector_clocks := vector_clocks td @ [?c]\<rparr>)"
      using c by (rule td_ok_push_clock)
    then show "td_ok (ls_heap ?g1) (tls_heap ?g1) (bt_heap ?g1)
        (td\<lparr>used := True, td_tid := tid, vector_clocks := vector_clocks td @ [?c]\<rparr>)"
      by (simp add: td_ok_def cache_ok_def)
  qed
  finally show ?thesis .
qed

lemma load_config_registry:
  assumes "load_config v cfg (calls, r) = Inr (calls', r')"
  shows "r' = snd (register_special_mutex r)"
  using assms by (auto simp: load_config_def register_special_mutex_def split: prod.splits)

lemma load_configs_registry:
  "foldE (load_config v) cfgs (c0, r) = Inr (c1, r') \<Longrightarrow>
   r' = ((\<lambda>r. snd (register_special_mutex r)) ^^ length cfgs) r"
proof (induction cfgs arbitrary: c0 r)
  case (Cons cfg cfgs)
  then obtain c2 r2 where 1: "load_config v cfg (c0, r) = Inr (c2, r2)"
    and 2: "foldE (load_config v) cfgs (c2, r2) = Inr (c1, r')" by auto
  show ?case
    using Cons.IH [OF 2] load_config_registry [OF 1] by (simp add: funpow_Suc_right del: funpow.simps)
qed simp

lemma ImageLoad_registry:
  assumes "ImageLoad v cfgs r = Inr (calls, reps, r')"
  shows "r' = ((\<lambda>r. snd (register_special_mutex r)) ^^ length cfgs) r"
  using assms load_configs_registry by (auto simp: ImageLoad_def)

lemma registry_wf_specials:
  "registry_wf {} r \<Longrightarrow> registry_wf {} (((\<lambda>r. snd (register_special_mutex r)) ^^ n) r)"
proof (induction n)
  case (Suc n)
  then show ?case
    using registry_wf_mono registry_wf_special(1) [of "{}"] by (fastforce simp: prod_eq_iff)
qed simp

lemma ImageLoad_inv:
  "hawk_inv g \<Longrightarrow> ImageLoad v cfgs (registry g) = Inr (calls, reps, r) \<Longrightarrow> hawk_inv (g\<lparr>registry := r\<rparr>)"
  using ImageLoad_registry registry_wf_specials by (fastforce simp: hawk_inv_def)

lemma keeps_inv: "keeps tid g g' \<Longrightarrow> hawk_inv g'"
  by (simp add: keeps_def)

lemma TryLockAfter_cases:
  "TryLockAfter mem tid res success neg use_arg lt g = g \<or>
   (\<exists>i. TryLockAfter mem tid res success neg use_arg lt g =
      ProcessLock tid i (try_lock_mutex (get_thread_data g tid)) False g)"
  unfolding TryLockAfter_def Let_def by (auto split: option.splits LockType.splits)

lemma hawk_step_inv:
  assumes inv: "hawk_inv g" and en: "enabled e g" and run: "hawk_step c e g = Inr g'"
  shows "hawk_inv g'"
proof -
  note store = keeps_inv [OF ProcessStore_keeps [OF inv ready [OF inv]]]
    and fence = keeps_inv [OF ProcessFence_keeps [OF inv ready [OF inv]]]
    and load = keeps_inv [OF RegisterAccess_keeps [OF inv ready [OF inv]]]
    and flush = keeps_inv [OF ProcessFlush_keeps [OF inv]]
    and locks = keeps_inv [OF ProcessLock_keeps [OF inv]]
  show ?thesis
  proof (cases e)
    case (EvWrite tid ctxt a sz type)
    then show ?thesis
      using run en inv by (auto simp: TraceWrite_def enabled_def split: if_splits intro: store flush)
  next
    case (EvFlush tid a type)
    then show ?thesis using run inv by (auto simp: TraceFlush_def split: if_splits intro: flush)
  next
    case (EvFence tid ctxt)
    then show ?thesis using run en by (auto simp: TraceFence_def enabled_def intro: fence)
  next
    case (EvRMW tid ctxt a sz)
    then show ?thesis using run en by (auto simp: TraceRMW_def enabled_def split: if_splits intro: fence)
  next
    case (EvRead tid ctxt a sz a2)
    then show ?thesis
      using run en inv by (auto simp: TraceRead_def ProcessRead_def enabled_def split: if_splits intro: load)
  next
    case (EvCall tid a)
    then show ?thesis
      using run by (auto simp: TraceCall_def td_ok_def cache_ok_def intro!: hawk_inv_bookkeeping [OF inv])
  next
    case (EvRet tid)
    then show ?thesis
      using run by (auto simp: TraceRet_def td_ok_def cache_ok_def split: if_splits
          intro!: hawk_inv_bookkeeping [OF inv])
  next
    case (EvTryLockBefore tid ret m res)
    then show ?thesis
      using run by (auto simp: TryLockBefore_def td_ok_def cache_ok_def intro!: hawk_inv_bookkeeping [OF inv])
  next
    case (EvTryLockAfter mem tid res success neg use_arg lt)
    then show ?thesis
      using run inv locks TryLockAfter_cases [of mem tid res success neg use_arg lt g] by auto
  next
    case (EvCreateCall tid)
    then show ?thesis
      using run ProcessThreadCreate_inv [of "g\<lparr>thread_creation_mutex := Some tid, creator_thread_id := int tid\<rparr>"] inv
      by (simp add: PthreadCreate_call_def)
  next
    case (EvCreateReturn tid result pid)
    then show ?thesis using run inv by (auto simp: PthreadCreate_return_def Let_def)
  next
    case (EvThreadStart tid)
    then show ?thesis using run TraceThreadStart_inv [OF inv] by simp
  next
    case (EvJoin tid result pid)
    then show ?thesis
      using run inv by (auto simp: PthreadJoin_return_def split: if_splits intro: ProcessThreadJoin_inv [rotated])
  next
    case (EvThreadExit tid)
    then show ?thesis
      using run en ProcessThreadExit_inv [OF inv ready [OF inv]] by (auto simp: TraceThreadExit_def enabled_def)
  next
    case (EvImageLoad v)
    then show ?thesis using run ImageLoad_inv [OF inv] by auto
  qed (use run inv locks in \<open>auto simp: LockBefore_def WriteLockBefore_def ReadLockBefore_def
      UnlockBefore_def RWUnlockBefore_def TraceAdqRelBefore_def TraceAdqRelAfter_def\<close>)
qed

lemma reachable_hawk_inv: "reachable c (init_hawk n d u) g \<Longrightarrow> hawk_inv g"
  by (induction rule: reachable.induct) (auto intro: hawk_inv_init hawk_step_inv)

end
