(* ===== verification/Analysis.thy ===== *)
theory Analysis
  imports Reach
begin

text \<open>
  The analysis that runs when the traced program ends: \<^verbatim>\<open>CheckPMRacesPerThread\<close> and
  \<^verbatim>\<open>CheckPMRaces\<close> of \<^verbatim>\<open>src/src/hawkset.cpp\<close>. The loops build two nested hash maps (loads
  by byte address, stores by address, lockset and clock) and two ordered report maps. The
  specification is the predicate \<open>race\<close> on one recorded store and one recorded load.
  The writes of progress messages and of timing counters are not modelled; the vector
  indices are in range by the invariant of the state.
\<close>

section \<open>Containers keyed by content\<close>

text \<open>An unordered map with a user-defined key equality keeps the key inserted first.\<close>

fun um_modify_by :: "('k \<Rightarrow> 'k \<Rightarrow> bool) \<Rightarrow> 'k \<Rightarrow> 'v \<Rightarrow> ('v \<Rightarrow> 'v) \<Rightarrow> ('k \<times> 'v) list \<Rightarrow> ('k \<times> 'v) list" where
  "um_modify_by eq k d f [] = [(k, f d)]"
| "um_modify_by eq k d f ((k', v) # m) =
     (if eq k' k then (k', f v) # m else (k', v) # um_modify_by eq k d f m)"

definition us_insert :: "'a \<Rightarrow> 'a list \<Rightarrow> 'a list" where
  "us_insert x xs = (if x \<in> set xs then xs else xs @ [x])"

text \<open>\<^verbatim>\<open>std::hash<pLockset>\<close> and \<^verbatim>\<open>std::equal_to<pLockset>\<close> compare the objects.\<close>

definition pLockset_equal :: "lockset_heap \<Rightarrow> pLockset \<Rightarrow> pLockset \<Rightarrow> bool" where
  "pLockset_equal h p q \<longleftrightarrow>
     hash_Lockset (lockset_at h p) = hash_Lockset (lockset_at h q) \<and> Lockset_eq (lockset_at h p) (lockset_at h q)"

section \<open>The code\<close>

type_synonym stores_opt_t =
  "((u64 \<times> bool \<times> bool) \<times> (pLockset \<times> (u16 \<times> (backtrace_t \<times> backtrace_t) list) list) list) list"
type_synonym reports_t = "((backtrace_t \<times> backtrace_t \<times> bool) \<times> backtrace_t list) list"

definition add_load :: "access_key_t \<times> lockset_set_t \<Rightarrow> loads_opt_t \<Rightarrow> loads_opt_t" where
  "add_load access_iterator =
     (let key = fst access_iterator; locksets = snd access_iterator in
      fold (\<lambda>i opt. if bit (key_mask key) i
                    then um_modify (key_address key + of_nat i) []
                           (um_modify (key_backtrace key, ucast (key_clock_i key)) [] (fold os_insert locksets)) opt
                    else opt) [0..<64])"

definition build_loads_opt :: "hawk \<Rightarrow> hawk" where
  "build_loads_opt =
     fold (\<lambda>tid g. if used (get_thread_data g tid)
                   then update_thread tid (\<lambda>td. td\<lparr>race_likely_loads_opt :=
                          fold add_load (race_likely_loads td) (race_likely_loads_opt td)\<rparr>) g
                   else g) [0..<TLS_MAX_SIZE]"

definition check_load_entry ::
  "lockset_heap \<Rightarrow> VectorClock list \<Rightarrow> pLockset \<Rightarrow> VectorClock
     \<Rightarrow> (backtrace_t \<times> u64) \<times> lockset_set_t \<Rightarrow> backtrace_t list \<Rightarrow> backtrace_t list" where
  "check_load_entry h clocks write_set write_clock load_entry racy_loads =
     (case fst load_entry of (backtrace, clock_i) \<Rightarrow>
        if backtrace \<in> set racy_loads then racy_loads
        else if \<not> is_concurrent (clocks ! unat clock_i) write_clock then racy_loads
        else if list_ex (\<lambda>ls. \<not> pLockset_short_intersect h ls write_set) (snd load_entry)
             then os_insert backtrace racy_loads else racy_loads)"

definition CheckPMRacesPerThread ::
  "hawk \<Rightarrow> nat \<Rightarrow> u64 \<Rightarrow> pLockset \<Rightarrow> VectorClock \<Rightarrow> backtrace_t list" where
  "CheckPMRacesPerThread g tid write_address write_set write_clock =
     fold (\<lambda>load_tid racy_loads.
       let thread_data = get_thread_data g load_tid; loads = race_likely_loads_opt thread_data in
       if \<not> used thread_data then racy_loads
       else if load_tid = tid then racy_loads
       else if \<not> contains loads write_address then racy_loads
       else fold (check_load_entry (ls_heap g) (vector_clocks thread_data) write_set write_clock)
              (sm_get [] loads write_address) racy_loads)
     [0..<TLS_MAX_SIZE] []"

definition add_store :: "lockset_heap \<Rightarrow> StoreFenceData \<Rightarrow> stores_opt_t \<Rightarrow> stores_opt_t" where
  "add_store h rls =
     um_modify (sfd_address rls, persisted rls, was_flushed rls) []
       (um_modify_by (pLockset_equal h) (common_set rls) []
         (um_modify (sfd_clock_i rls) [] (us_insert (write_trace rls, fence_trace rls))))"

definition add_reports ::
  "u64 \<times> bool \<times> bool \<Rightarrow> backtrace_t list \<Rightarrow> backtrace_t \<times> backtrace_t \<Rightarrow> reports_t \<times> reports_t \<Rightarrow> reports_t \<times> reports_t" where
  "add_reports adr racy_loads trace = (\<lambda>(races, unpersisted).
     let key = (fst trace, snd trace, snd (snd adr)) in
     if fst (snd adr) then (sm_modify key [] (fold os_insert racy_loads) races, unpersisted)
     else (races, sm_modify key [] (fold os_insert racy_loads) unpersisted))"

definition check_thread :: "hawk \<Rightarrow> nat \<Rightarrow> reports_t \<times> reports_t \<Rightarrow> reports_t \<times> reports_t" where
  "check_thread g tid =
     (let thread_data = get_thread_data g tid;
          race_likely_stores_opt = fold (add_store (ls_heap g)) (race_likely_stores thread_data) [] in
      fold (\<lambda>entry_adr. fold (\<lambda>entry_ls. fold (\<lambda>entry_vc reports.
        let racy_loads = CheckPMRacesPerThread g tid (fst (fst entry_adr)) (fst entry_ls)
                           (vector_clocks thread_data ! unat (fst entry_vc))
        in if racy_loads = [] then reports
           else fold (add_reports (fst entry_adr) racy_loads) (snd entry_vc) reports)
        (snd entry_ls)) (snd entry_adr)) race_likely_stores_opt)"

definition CheckPMRaces :: "hawk \<Rightarrow> reports_t \<times> reports_t" where
  "CheckPMRaces g0 =
     (let g = build_loads_opt g0 in
      fold (\<lambda>tid reports. if used (get_thread_data g tid) then check_thread g tid reports else reports)
        [0..<TLS_MAX_SIZE] ([], []))"

section \<open>The specification\<close>

text \<open>A recorded load touches a byte when the address is one of the tracked ones of its mask.\<close>

definition touches :: "access_key_t \<Rightarrow> u64 \<Rightarrow> bool" where
  "touches key a \<longleftrightarrow> (\<exists>i<64. bit (key_mask key) i \<and> a = key_address key + of_nat i)"

text \<open>
  A recorded store \<open>s\<close> of thread \<open>st\<close> and a recorded load of thread \<open>lt\<close> race: different
  threads, same byte, concurrent clocks, and some lockset of the load disjoint from the
  effective lockset of the store.
\<close>

definition race :: "hawk \<Rightarrow> nat \<Rightarrow> StoreFenceData \<Rightarrow> nat \<Rightarrow> access_key_t \<times> lockset_set_t \<Rightarrow> bool" where
  "race g st s lt l \<longleftrightarrow>
     st \<noteq> lt \<and> touches (fst l) (sfd_address s) \<and>
     is_concurrent (vector_clocks (get_thread_data g lt) ! unat (key_clock_i (fst l)))
       (vector_clocks (get_thread_data g st) ! unat (sfd_clock_i s)) \<and>
     (\<exists>p \<in> set (snd l). members (lockset_at (ls_heap g) p) \<inter> members (lockset_at (ls_heap g) (common_set s)) = {})"

definition recorded_store :: "hawk \<Rightarrow> nat \<Rightarrow> StoreFenceData \<Rightarrow> bool" where
  "recorded_store g t s \<longleftrightarrow>
     t < TLS_MAX_SIZE \<and> used (get_thread_data g t) \<and> s \<in> set (race_likely_stores (get_thread_data g t))"

definition recorded_load :: "hawk \<Rightarrow> nat \<Rightarrow> access_key_t \<times> lockset_set_t \<Rightarrow> bool" where
  "recorded_load g t l \<longleftrightarrow>
     t < TLS_MAX_SIZE \<and> used (get_thread_data g t) \<and> l \<in> set (race_likely_loads (get_thread_data g t))"

section \<open>Contents of nested maps\<close>

definition entries :: "('k \<Rightarrow> 'j) \<Rightarrow> ('v \<Rightarrow> 'a set) \<Rightarrow> ('k \<times> 'v) list \<Rightarrow> ('j \<times> 'a) set" where
  "entries h g m = (\<Union>e \<in> set m. {h (fst e)} \<times> g (snd e))"

lemma entries_Nil [simp]: "entries h g [] = {}"
  by (simp add: entries_def)

lemma entries_modify_by:
  assumes eq: "\<And>a b. eq a b \<longleftrightarrow> h a = h b" and d: "g d = {}" and f: "\<And>v. g (f v) = X \<union> g v"
  shows "entries h g (um_modify_by eq k d f m) = ({h k} \<times> X) \<union> entries h g m"
proof (induction m)
  case (Cons e m)
  then show ?case by (cases e) (auto simp: entries_def assms)
qed (simp add: entries_def assms)

lemma um_modify_by_eq: "um_modify k d f m = um_modify_by (=) k d f m"
proof (induction m)
  case (Cons e m)
  then show ?case by (cases e) (auto simp: um_modify_def um_insert_def sm_get_def)
qed (simp add: um_modify_def um_insert_def sm_get_def)

lemma entries_modify:
  "g d = {} \<Longrightarrow> (\<And>v. g (f v) = X \<union> g v) \<Longrightarrow>
   entries id g (um_modify k d f m) = ({k} \<times> X) \<union> entries id g m"
  unfolding um_modify_by_eq using entries_modify_by [of "(=)" id g d f X k m] by simp

lemma set_us_insert [simp]: "set (us_insert x xs) = {x} \<union> set xs"
  by (auto simp: us_insert_def)

lemma pLockset_equal_iff:
  "pLockset_equal h p q \<longleftrightarrow> members (lockset_at h p) = members (lockset_at h q)"
  unfolding pLockset_equal_def by (metis Lockset_eq_iff hash_Lockset_members)

lemma fold_mem:
  assumes "\<And>x m. x \<in> set xs \<Longrightarrow> Q (f x m) \<longleftrightarrow> Q m \<or> P x"
  shows "Q (fold f xs m) \<longleftrightarrow> Q m \<or> (\<exists>x \<in> set xs. P x)"
  using assms by (induction xs arbitrary: m) auto

lemma entries_at:
  "um_wf m \<Longrightarrow> g d = {} \<Longrightarrow> x \<in> g (sm_get d m k) \<longleftrightarrow> (k, x) \<in> entries id g m"
  using um.entry_iff [of m k] by (force simp: entries_def sm_get_def split: option.splits)

section \<open>Loads\<close>

definition opt_set :: "loads_opt_t \<Rightarrow> (u64 \<times> (backtrace_t \<times> u64) \<times> pLockset) set" where
  "opt_set = entries id (entries id set)"

definition load_set :: "access_key_t \<times> lockset_set_t \<Rightarrow> (u64 \<times> (backtrace_t \<times> u64) \<times> pLockset) set" where
  "load_set l = {a. touches (fst l) a} \<times> {(key_backtrace (fst l), ucast (key_clock_i (fst l)))} \<times> set (snd l)"

lemma opt_set_add_load: "opt_set (add_load l opt) = load_set l \<union> opt_set opt"
proof -
  let ?key = "fst l" and ?ls = "snd l"
  let ?k = "(key_backtrace ?key, ucast (key_clock_i ?key) :: u64)"
  have step: "opt_set (um_modify a [] (um_modify ?k [] (fold os_insert ?ls)) m)
      = ({a} \<times> {?k} \<times> set ?ls) \<union> opt_set m" for a m
    unfolding opt_set_def by (intro entries_modify entries_Nil) (auto intro!: entries_modify)
  have "x \<in> opt_set (add_load l opt) \<longleftrightarrow> x \<in> opt_set opt \<or>
      (\<exists>i \<in> set [0..<64]. bit (key_mask ?key) i \<and> x \<in> {key_address ?key + of_nat i} \<times> {?k} \<times> set ?ls)" for x
    unfolding add_load_def Let_def by (rule fold_mem) (auto simp: step)
  moreover have "(\<exists>i \<in> set [0..<64]. bit (key_mask ?key) i \<and> x \<in> {key_address ?key + of_nat i} \<times> {?k} \<times> set ?ls)
      \<longleftrightarrow> x \<in> load_set l" for x
    unfolding load_set_def touches_def set_upt mem_Times_iff Bex_def by auto
  ultimately have "x \<in> opt_set (add_load l opt) \<longleftrightarrow> x \<in> opt_set opt \<or> x \<in> load_set l" for x
    by (simp only:)
  then show ?thesis by (intro set_eqI) (simp only: Un_iff disj_commute)
qed

lemma opt_set_add_loads: "opt_set (fold add_load ls opt) = (\<Union>l \<in> set ls. load_set l) \<union> opt_set opt"
proof -
  have "x \<in> opt_set (fold add_load ls opt) \<longleftrightarrow> x \<in> opt_set opt \<or> (\<exists>l \<in> set ls. x \<in> load_set l)" for x
    by (rule fold_mem) (auto simp: opt_set_add_load)
  then show ?thesis by auto
qed

lemma um_wf_add_load: "um_wf opt \<Longrightarrow> um_wf (add_load l opt)"
  unfolding add_load_def Let_def by (rule fold_inv) auto

lemma um_wf_add_loads: "um_wf opt \<Longrightarrow> um_wf (fold add_load ls opt)"
  by (rule fold_inv) (auto intro: um_wf_add_load)

lemma fold_threads:
  assumes "distinct ts"
  shows "get_thread_data (fold (\<lambda>t g. if P (get_thread_data g t) then update_thread t f g else g) ts g) u =
    (if u \<in> set ts \<and> P (get_thread_data g u) then f (get_thread_data g u) else get_thread_data g u)"
  using assms by (induction ts arbitrary: g) auto

lemma ls_heap_fold_threads:
  "ls_heap (fold (\<lambda>t g. if P (get_thread_data g t) then update_thread t f g else g) ts g) = ls_heap g"
  by (rule fold_id_on) auto

lemma build_loads_opt_thread:
  "get_thread_data (build_loads_opt g) t =
     (let td = get_thread_data g t in
      if t < TLS_MAX_SIZE \<and> used td
      then td\<lparr>race_likely_loads_opt := fold add_load (race_likely_loads td) (race_likely_loads_opt td)\<rparr> else td)"
  unfolding build_loads_opt_def by (simp add: fold_threads Let_def)

lemma build_loads_opt_heap [simp]: "ls_heap (build_loads_opt g) = ls_heap g"
  unfolding build_loads_opt_def by (rule ls_heap_fold_threads)

lemma check_load_entry_mem:
  "lb \<in> set (check_load_entry h clocks ws wc e racy) \<longleftrightarrow> lb \<in> set racy \<or>
     (fst (fst e) = lb \<and> is_concurrent (clocks ! unat (snd (fst e))) wc \<and>
      (\<exists>p \<in> set (snd e). members (lockset_at h p) \<inter> members (lockset_at h ws) = {}))"
proof -
  obtain b c s where "e = ((b, c), s)" by (metis surj_pair)
  then show ?thesis by (auto simp: check_load_entry_def heap_simps list_ex_iff)
qed

lemma CheckPMRacesPerThread_mem:
  assumes wf: "\<And>t. um_wf (race_likely_loads_opt (get_thread_data g t))"
  shows "lb \<in> set (CheckPMRacesPerThread g tid a ws wc) \<longleftrightarrow>
    (\<exists>lt<TLS_MAX_SIZE. used (get_thread_data g lt) \<and> lt \<noteq> tid \<and>
      (\<exists>c p. (a, (lb, c), p) \<in> opt_set (race_likely_loads_opt (get_thread_data g lt)) \<and>
        is_concurrent (vector_clocks (get_thread_data g lt) ! unat c) wc \<and>
        members (lockset_at (ls_heap g) p) \<inter> members (lockset_at (ls_heap g) ws) = {}))"
proof -
  let ?P = "\<lambda>lt. used (get_thread_data g lt) \<and> lt \<noteq> tid \<and>
      (\<exists>c p. (a, (lb, c), p) \<in> opt_set (race_likely_loads_opt (get_thread_data g lt)) \<and>
        is_concurrent (vector_clocks (get_thread_data g lt) ! unat c) wc \<and>
        members (lockset_at (ls_heap g) p) \<inter> members (lockset_at (ls_heap g) ws) = {})"
  have at: "(a, x) \<in> opt_set (race_likely_loads_opt (get_thread_data g t)) \<longleftrightarrow>
      x \<in> entries id set (sm_get [] (race_likely_loads_opt (get_thread_data g t)) a)" for t x
    unfolding opt_set_def by (rule entries_at [symmetric, OF wf]) simp
  have "lb \<in> set (CheckPMRacesPerThread g tid a ws wc) \<longleftrightarrow>
      lb \<in> set [] \<or> (\<exists>lt \<in> set [0..<TLS_MAX_SIZE]. ?P lt)"
    unfolding CheckPMRacesPerThread_def
  proof (rule fold_mem)
    fix lt and racy :: "backtrace_t list"
    let ?td = "get_thread_data g lt"
    let ?line = "sm_get [] (race_likely_loads_opt ?td) a"
    have "lb \<in> set (fold (check_load_entry (ls_heap g) (vector_clocks ?td) ws wc) ?line racy) \<longleftrightarrow>
        lb \<in> set racy \<or> (\<exists>e \<in> set ?line. fst (fst e) = lb \<and>
          is_concurrent (vector_clocks ?td ! unat (snd (fst e))) wc \<and>
          (\<exists>p \<in> set (snd e). members (lockset_at (ls_heap g) p) \<inter> members (lockset_at (ls_heap g) ws) = {}))"
      by (rule fold_mem) (rule check_load_entry_mem)
    also have "\<dots> \<longleftrightarrow> lb \<in> set racy \<or> (\<exists>c p. ((lb, c), p) \<in> entries id set ?line \<and>
          is_concurrent (vector_clocks ?td ! unat c) wc \<and>
          members (lockset_at (ls_heap g) p) \<inter> members (lockset_at (ls_heap g) ws) = {})"
      by (fastforce simp: entries_def)
    finally show "lb \<in> set (let thread_data = ?td; loads = race_likely_loads_opt thread_data
        in if \<not> used thread_data then racy else if lt = tid then racy
           else if \<not> contains loads a then racy
           else fold (check_load_entry (ls_heap g) (vector_clocks thread_data) ws wc) (sm_get [] loads a) racy)
      \<longleftrightarrow> lb \<in> set racy \<or> ?P lt"
      by (cases "map_of (race_likely_loads_opt ?td) a") (simp_all add: at contains_def Let_def)
  qed
  then show ?thesis by (simp add: Bex_def)
qed

section \<open>Stores and reports\<close>

definition stores_set ::
  "lockset_heap \<Rightarrow> stores_opt_t \<Rightarrow> ((u64 \<times> bool \<times> bool) \<times> nat set \<times> u16 \<times> backtrace_t \<times> backtrace_t) set" where
  "stores_set h = entries id (entries (\<lambda>p. members (lockset_at h p)) (entries id set))"

definition store_tuple ::
  "lockset_heap \<Rightarrow> StoreFenceData \<Rightarrow> (u64 \<times> bool \<times> bool) \<times> nat set \<times> u16 \<times> backtrace_t \<times> backtrace_t" where
  "store_tuple h s = ((sfd_address s, persisted s, was_flushed s), members (lockset_at h (common_set s)),
     sfd_clock_i s, write_trace s, fence_trace s)"

lemma stores_set_add: "stores_set h (add_store h s m) = {store_tuple h s} \<union> stores_set h m"
proof -
  have 1: "entries id set (um_modify (sfd_clock_i s) [] (us_insert x) v) = ({sfd_clock_i s} \<times> {x}) \<union> entries id set v"
    for x :: "backtrace_t \<times> backtrace_t" and v
    by (rule entries_modify) auto
  have 2: "entries (\<lambda>p. members (lockset_at h p)) (entries id set)
        (um_modify_by (pLockset_equal h) p [] (um_modify (sfd_clock_i s) [] (us_insert x)) v)
      = ({members (lockset_at h p)} \<times> {sfd_clock_i s} \<times> {x}) \<union> entries (\<lambda>p. members (lockset_at h p)) (entries id set) v"
    for p and x :: "backtrace_t \<times> backtrace_t" and v
    by (rule entries_modify_by) (auto simp: pLockset_equal_iff 1)
  have "stores_set h (add_store h s m) =
      ({(sfd_address s, persisted s, was_flushed s)} \<times> {members (lockset_at h (common_set s))} \<times>
        {sfd_clock_i s} \<times> {(write_trace s, fence_trace s)}) \<union> stores_set h m"
    unfolding stores_set_def add_store_def by (rule entries_modify) (auto simp: 2)
  then show ?thesis by (simp add: store_tuple_def)
qed

lemma stores_set_all: "stores_set h (fold (add_store h) ss []) = store_tuple h ` set ss"
proof -
  have "x \<in> stores_set h (fold (add_store h) ss []) \<longleftrightarrow> x \<in> stores_set h [] \<or> (\<exists>s \<in> set ss. x = store_tuple h s)" for x
    by (rule fold_mem) (auto simp: stores_set_add)
  moreover have "stores_set h [] = {}" by (simp add: stores_set_def)
  ultimately show ?thesis by blast
qed

text \<open>Backtrace \<open>lb\<close> is reported for \<open>key\<close>, among the persisted or the unpersisted stores.\<close>

definition reported ::
  "reports_t \<times> reports_t \<Rightarrow> bool \<Rightarrow> backtrace_t \<times> backtrace_t \<times> bool \<Rightarrow> backtrace_t \<Rightarrow> bool" where
  "reported r ps key lb \<longleftrightarrow> lb \<in> set (sm_get [] (if ps then fst r else snd r) key)"

lemma sm_get_modify: "sm_get d (sm_modify k d f m) k' = (if k' = k then f (sm_get d m k) else sm_get d m k')"
  by (simp add: sm_get_def)

lemma reported_add:
  "reported (add_reports adr racy tr r) ps key lb \<longleftrightarrow>
   reported r ps key lb \<or> (ps = fst (snd adr) \<and> key = (fst tr, snd tr, snd (snd adr)) \<and> lb \<in> set racy)"
  by (cases r) (auto simp: reported_def add_reports_def Let_def sm_get_modify)

lemma check_thread_mem:
  fixes g t
  defines "clks \<equiv> vector_clocks (get_thread_data g t)"
  assumes cong: "\<And>a p q c. members (lockset_at (ls_heap g) p) = members (lockset_at (ls_heap g) q) \<Longrightarrow>
      set (CheckPMRacesPerThread g t a p c) = set (CheckPMRacesPerThread g t a q c)"
  shows "reported (check_thread g t r) ps key lb \<longleftrightarrow> reported r ps key lb \<or>
    (\<exists>s \<in> set (race_likely_stores (get_thread_data g t)).
       ps = persisted s \<and> key = (write_trace s, fence_trace s, was_flushed s) \<and>
       lb \<in> set (CheckPMRacesPerThread g t (sfd_address s) (common_set s) (clks ! unat (sfd_clock_i s))))"
proof -
  let ?h = "ls_heap g"
  let ?mem = "\<lambda>p. members (lockset_at ?h p)"
  let ?opt = "fold (add_store ?h) (race_likely_stores (get_thread_data g t)) []"
  let ?racy = "\<lambda>ea el ev. CheckPMRacesPerThread g t (fst (fst ea)) (fst el) (clks ! unat (fst ev))"
  let ?C = "\<lambda>ea el ev tr. ps = fst (snd (fst ea)) \<and> key = (fst tr, snd tr, snd (snd (fst ea))) \<and> lb \<in> set (?racy ea el ev)"
  have 1: "reported (fold (add_reports (fst ea) (?racy ea el ev)) (snd ev) r) ps key lb \<longleftrightarrow>
      reported r ps key lb \<or> (\<exists>tr \<in> set (snd ev). ?C ea el ev tr)" for r ea el ev
    by (rule fold_mem) (simp add: reported_add)
  let ?step = "\<lambda>ea el ev reports. let racy_loads = ?racy ea el ev in
      if racy_loads = [] then reports else fold (add_reports (fst ea) racy_loads) (snd ev) reports"
  have 2: "reported (?step ea el ev r) ps key lb \<longleftrightarrow>
      reported r ps key lb \<or> (\<exists>tr \<in> set (snd ev). ?C ea el ev tr)" for r ea el ev
    unfolding Let_def using 1 [of ea el ev r] by (cases "?racy ea el ev = []") simp_all
  have 3: "reported (fold (?step ea el) (snd el) r) ps key lb \<longleftrightarrow>
      reported r ps key lb \<or> (\<exists>ev \<in> set (snd el). \<exists>tr \<in> set (snd ev). ?C ea el ev tr)" for r ea el
    by (rule fold_mem) (rule 2)
  have 4: "reported (fold (\<lambda>el. fold (?step ea el) (snd el)) (snd ea) r) ps key lb \<longleftrightarrow>
      reported r ps key lb \<or> (\<exists>el \<in> set (snd ea). \<exists>ev \<in> set (snd el). \<exists>tr \<in> set (snd ev). ?C ea el ev tr)" for r ea
    by (rule fold_mem) (rule 3)
  have 5: "reported (check_thread g t r) ps key lb \<longleftrightarrow>
      reported r ps key lb \<or> (\<exists>ea \<in> set ?opt. \<exists>el \<in> set (snd ea). \<exists>ev \<in> set (snd el). \<exists>tr \<in> set (snd ev). ?C ea el ev tr)"
    unfolding check_thread_def clks_def [symmetric] Let_def [of "get_thread_data g t"] Let_def [of ?opt]
    by (rule fold_mem) (rule 4)
  let ?D = "\<lambda>a M c w f. \<exists>q. ?mem q = M \<and> lb \<in> set (CheckPMRacesPerThread g t a q (clks ! unat c))"
  have D: "?D a (?mem q) c w f \<longleftrightarrow> lb \<in> set (CheckPMRacesPerThread g t a q (clks ! unat c))" for a q c w f
    using cong by blast
  have "(\<exists>ea \<in> set ?opt. \<exists>el \<in> set (snd ea). \<exists>ev \<in> set (snd el). \<exists>tr \<in> set (snd ev). ?C ea el ev tr) \<longleftrightarrow>
      (\<exists>x \<in> stores_set ?h ?opt. case x of ((a, p, f), M, c, w, ft) \<Rightarrow> ps = p \<and> key = (w, ft, f) \<and> ?D a M c w ft)"
    unfolding stores_set_def entries_def by (simp add: split_beta D)
  also have "\<dots> \<longleftrightarrow> (\<exists>s \<in> set (race_likely_stores (get_thread_data g t)).
       ps = persisted s \<and> key = (write_trace s, fence_trace s, was_flushed s) \<and>
       lb \<in> set (CheckPMRacesPerThread g t (sfd_address s) (common_set s) (clks ! unat (sfd_clock_i s))))"
    unfolding stores_set_all store_tuple_def by (simp add: D)
  finally show ?thesis using 5 by simp
qed

section \<open>The reports are the races\<close>

lemma unat_u16_u64: "unat (ucast (c :: u16) :: u64) = unat c"
  using unsigned_less [of c, where ?'a = nat] by (simp add: unat_ucast_mod)

lemma CheckPMRaces_reported:
  assumes fresh: "\<And>t. race_likely_loads_opt (get_thread_data g t) = []"
  shows "reported (CheckPMRaces g) ps key lb \<longleftrightarrow>
    (\<exists>st s lt l. recorded_store g st s \<and> recorded_load g lt l \<and> race g st s lt l \<and>
       ps = persisted s \<and> key = (write_trace s, fence_trace s, was_flushed s) \<and> lb = key_backtrace (fst l))"
proof -
  let ?g = "build_loads_opt g"
  have td: "used (get_thread_data ?g t) = used (get_thread_data g t)"
    "vector_clocks (get_thread_data ?g t) = vector_clocks (get_thread_data g t)"
    "race_likely_stores (get_thread_data ?g t) = race_likely_stores (get_thread_data g t)" for t
    by (simp_all add: build_loads_opt_thread Let_def)
  have opt: "opt_set (race_likely_loads_opt (get_thread_data ?g t)) =
      (\<Union>l \<in> set (race_likely_loads (get_thread_data g t)). load_set l)"
    if "t < TLS_MAX_SIZE" "used (get_thread_data g t)" for t
    using that by (simp add: build_loads_opt_thread Let_def opt_set_add_loads fresh) (simp add: opt_set_def)
  have wf: "um_wf (race_likely_loads_opt (get_thread_data ?g t))" for t
    by (simp add: build_loads_opt_thread Let_def um_wf_add_loads fresh)
  have per: "lb \<in> set (CheckPMRacesPerThread ?g st (sfd_address s) (common_set s)
        (vector_clocks (get_thread_data g st) ! unat (sfd_clock_i s))) \<longleftrightarrow>
      (\<exists>lt l. recorded_load g lt l \<and> race g st s lt l \<and> lb = key_backtrace (fst l))" for st s
  proof -
    have load: "(\<exists>c p. (sfd_address s, (lb, c), p) \<in> opt_set (race_likely_loads_opt (get_thread_data ?g lt)) \<and>
          is_concurrent (vector_clocks (get_thread_data g lt) ! unat c)
            (vector_clocks (get_thread_data g st) ! unat (sfd_clock_i s)) \<and>
          members (lockset_at (ls_heap g) p) \<inter> members (lockset_at (ls_heap g) (common_set s)) = {}) \<and> lt \<noteq> st
        \<longleftrightarrow> (\<exists>l \<in> set (race_likely_loads (get_thread_data g lt)). race g st s lt l \<and> lb = key_backtrace (fst l))"
      if "lt < TLS_MAX_SIZE" "used (get_thread_data g lt)" for lt
    proof -
      have mem: "(sfd_address s, (lb, c), p) \<in> opt_set (race_likely_loads_opt (get_thread_data ?g lt)) \<longleftrightarrow>
          (\<exists>l \<in> set (race_likely_loads (get_thread_data g lt)). touches (fst l) (sfd_address s) \<and>
             lb = key_backtrace (fst l) \<and> c = ucast (key_clock_i (fst l)) \<and> p \<in> set (snd l))" for c p
        by (simp add: opt [OF that] load_set_def)
      show ?thesis unfolding mem race_def by (metis unat_u16_u64)
    qed
    show ?thesis
      unfolding CheckPMRacesPerThread_mem [OF wf] td build_loads_opt_heap recorded_load_def
      using load by blast
  qed
  have cong: "set (CheckPMRacesPerThread ?g t a p c) = set (CheckPMRacesPerThread ?g t a q c)"
    if "members (lockset_at (ls_heap ?g) p) = members (lockset_at (ls_heap ?g) q)" for t a p q c
    using that by (simp add: set_eq_iff CheckPMRacesPerThread_mem [OF wf])
  have ct: "reported (check_thread ?g st r) ps key lb \<longleftrightarrow> reported r ps key lb \<or>
      (\<exists>s \<in> set (race_likely_stores (get_thread_data g st)).
         ps = persisted s \<and> key = (write_trace s, fence_trace s, was_flushed s) \<and>
         (\<exists>lt l. recorded_load g lt l \<and> race g st s lt l \<and> lb = key_backtrace (fst l)))" for st r
    using check_thread_mem [OF cong, of st r ps key lb] unfolding td per .
  have "reported (CheckPMRaces g) ps key lb \<longleftrightarrow> reported ([], []) ps key lb \<or>
      (\<exists>st \<in> set [0..<TLS_MAX_SIZE]. \<exists>s. recorded_store g st s \<and>
         ps = persisted s \<and> key = (write_trace s, fence_trace s, was_flushed s) \<and>
         (\<exists>lt l. recorded_load g lt l \<and> race g st s lt l \<and> lb = key_backtrace (fst l)))"
    unfolding CheckPMRaces_def Let_def
  proof (rule fold_mem)
    fix st r assume "st \<in> set [0..<TLS_MAX_SIZE]"
    then show "reported (if used (get_thread_data ?g st) then check_thread ?g st r else r) ps key lb \<longleftrightarrow>
      reported r ps key lb \<or> (\<exists>s. recorded_store g st s \<and>
         ps = persisted s \<and> key = (write_trace s, fence_trace s, was_flushed s) \<and>
         (\<exists>lt l. recorded_load g lt l \<and> race g st s lt l \<and> lb = key_backtrace (fst l)))"
      using ct [of st r] by (simp add: td recorded_store_def) blast
  qed
  moreover have "\<not> reported ([], []) ps key lb" by (simp add: reported_def)
  moreover have "recorded_store g st s \<Longrightarrow> st \<in> set [0..<TLS_MAX_SIZE]" for st s
    by (simp add: recorded_store_def)
  ultimately show ?thesis by blast
qed

end
