(* ===== verification/StdText.thy ===== *)
theory StdText
  imports Prelude
begin

text \<open>
  Text written to a stream of the C++ standard library: the end of a line and the decimal
  digits of an unsigned number (\<^verbatim>\<open>std::to_string\<close> and \<^verbatim>\<open>operator<<\<close>), with the lemma that the
  digits determine the number.
\<close>

definition endl :: string where
  "endl = [CHR 0x0A]"

definition digit_char :: "nat \<Rightarrow> char" where
  "digit_char d = char_of (48 + d)"

fun nat_text :: "nat \<Rightarrow> string" where
  "nat_text n = (if n < 10 then [digit_char n] else nat_text (n div 10) @ [digit_char (n mod 10)])"

declare nat_text.simps [simp del]

lemma nat_text_Cons: "\<exists>d cs. d < 10 \<and> nat_text n = digit_char d # cs"
proof (induction n rule: nat_text.induct)
  case (1 n)
  show ?case
  proof (cases "n < 10")
    case True
    then show ?thesis by (subst nat_text.simps) auto
  next
    case False
    with 1 show ?thesis by (subst nat_text.simps) auto
  qed
qed

definition digit_value :: "char \<Rightarrow> nat" where
  "digit_value c = of_char c - 48"

lemma digit_value_digit_char [simp]: "d < 10 \<Longrightarrow> digit_value (digit_char d) = d"
  by (simp add: digit_value_def digit_char_def)

text \<open>The value of a text, and that printing is injective.\<close>

definition text_value :: "string \<Rightarrow> nat" where
  "text_value = foldl (\<lambda>n c. 10 * n + digit_value c) 0"

lemma text_value_nat_text [simp]: "text_value (nat_text n) = n"
proof (induction n rule: nat_text.induct)
  case (1 n)
  show ?case
  proof (cases "n < 10")
    case False
    with 1 show ?thesis by (subst nat_text.simps) (simp add: text_value_def)
  qed (subst nat_text.simps, simp add: text_value_def)
qed

lemma nat_text_eq_iff [simp]: "nat_text m = nat_text n \<longleftrightarrow> m = n"
  by (metis text_value_nat_text)

lemma digit_char_letters [simp]:
  "d < 10 \<Longrightarrow> digit_char d \<noteq> CHR ''S'' \<and> digit_char d \<noteq> CHR ''N'' \<and> CHR ''S'' \<noteq> digit_char d \<and> CHR ''N'' \<noteq> digit_char d"
proof -
  assume "d < 10"
  then have "of_char (digit_char d) = (48 + d :: nat)" by (simp add: digit_char_def)
  then have "digit_char d \<noteq> CHR ''S''" "digit_char d \<noteq> CHR ''N''" using \<open>d < 10\<close> by auto
  then show ?thesis by (auto dest: sym)
qed

lemma nat_text_letters [simp]:
  "nat_text n \<noteq> CHR ''S'' # cs" "nat_text n \<noteq> CHR ''N'' # cs" "CHR ''S'' # cs \<noteq> nat_text n" "CHR ''N'' # cs \<noteq> nat_text n"
  using nat_text_Cons [of n] digit_char_letters by auto

text \<open>Signed numbers.\<close>

definition int_text :: "int \<Rightarrow> string" where
  "int_text i = (if i < 0 then ''-'' @ nat_text (nat (- i)) else nat_text (nat i))"

end
