(* ===== verification/Report.thy ===== *)
theory Report
  imports Analysis StdText
begin

text \<open>
  The bug report: \<^verbatim>\<open>OutputRaces\<close> of \<^verbatim>\<open>src/src/hawkset.cpp\<close> and \<^verbatim>\<open>GetBacktraceSymbols\<close> of
  \<^verbatim>\<open>src/src/utils.hpp\<close>. The output stream is the text written; \<^verbatim>\<open>backtrace_symbols\<close> of the C
  library is the parameter \<open>symbols\<close>, \<open>None\<close> for its null result. The entries of the maps come
  in the order of the pointers in their keys, which is the order of allocation here and
  arbitrary in the program. Dereferencing a null or stale backtrace is an error value.
\<close>

section \<open>The code\<close>

definition BacktraceSymbols :: "(u64 list \<Rightarrow> string list option) \<Rightarrow> u64 list \<Rightarrow> string" where
  "BacktraceSymbols symbols addresses =
     (case symbols addresses of
        None \<Rightarrow> ''(no symbols found)''
      | Some strings \<Rightarrow> concat (map (\<lambda>i. strings ! i @ endl) [0..<length addresses]))"

definition GetBacktraceSymbols ::
  "(u64 list \<Rightarrow> string list option) \<Rightarrow> backtrace_heap \<Rightarrow> backtrace_t \<Rightarrow> hs_error + string" where
  "GetBacktraceSymbols symbols h trace =
     (case trace of
        None \<Rightarrow> Inl (Undefined ''null backtrace'')
      | Some p \<Rightarrow>
          if p < length (bt_objects h) then Inr (BacktraceSymbols symbols (frame_list (frames_at h p)))
          else Inl (Undefined ''dangling backtrace''))"

text \<open>The loop over the access traces; the flag is the variable \<^verbatim>\<open>start\<close>.\<close>

fun output_accesses ::
  "(u64 list \<Rightarrow> string list option) \<Rightarrow> backtrace_heap \<Rightarrow> bool \<Rightarrow> backtrace_t list \<Rightarrow> hs_error + string" where
  "output_accesses symbols h start [] = Inr []"
| "output_accesses symbols h start (access_trace # races) =
     bindE (GetBacktraceSymbols symbols h access_trace) (\<lambda>access_symbols.
     bindE (output_accesses symbols h False races) (\<lambda>rest.
       Inr ((if \<not> start then ''---'' @ endl else []) @ access_symbols @ rest)))"

definition output_persisted ::
  "(u64 list \<Rightarrow> string list option) \<Rightarrow> backtrace_heap
     \<Rightarrow> (backtrace_t \<times> backtrace_t \<times> bool) \<times> backtrace_t list \<Rightarrow> hs_error + string" where
  "output_persisted symbols h entry =
     (case fst entry of (t0, t1, t2) \<Rightarrow>
       bindE (GetBacktraceSymbols symbols h t0) (\<lambda>write_symbols.
       bindE (GetBacktraceSymbols symbols h t1) (\<lambda>fence_symbols.
       bindE (output_accesses symbols h True (snd entry)) (\<lambda>accesses.
         Inr (''PM address written in:'' @ endl @ write_symbols @ endl @
              ''flushed in:'' @ endl @ fence_symbols @ endl @
              ''can be acessed concurrently in: '' @ endl @ accesses @ endl)))))"

definition output_unpersisted ::
  "(u64 list \<Rightarrow> string list option) \<Rightarrow> backtrace_heap
     \<Rightarrow> (backtrace_t \<times> backtrace_t \<times> bool) \<times> backtrace_t list \<Rightarrow> hs_error + string" where
  "output_unpersisted symbols h entry =
     (case fst entry of (t0, t1, t2) \<Rightarrow>
       bindE (GetBacktraceSymbols symbols h t0) (\<lambda>write_symbols.
       bindE (if t1 = None then Inr (''<THREAD_EXIT>'' @ endl) else GetBacktraceSymbols symbols h t1) (\<lambda>ignore_symbols.
       bindE (output_accesses symbols h True (snd entry)) (\<lambda>accesses.
         Inr (''PM address written in:'' @ endl @ write_symbols @ endl @
              (if t2 then ''ignored by (marked for flush):'' @ endl else ''ignored by:'' @ endl) @
              ignore_symbols @ endl @
              ''can be acessed concurrently in: '' @ endl @ accesses @ endl)))))"

definition OutputRaces ::
  "(u64 list \<Rightarrow> string list option) \<Rightarrow> backtrace_heap \<Rightarrow> reports_t \<times> reports_t \<Rightarrow> hs_error + string" where
  "OutputRaces symbols h = (\<lambda>(races_per_rlp, unpersisted_races_per_rlp).
     bindE (foldE (\<lambda>entry out. bindE (output_persisted symbols h entry) (\<lambda>s. Inr (out @ s))) races_per_rlp [])
       (foldE (\<lambda>entry out. bindE (output_unpersisted symbols h entry) (\<lambda>s. Inr (out @ s))) unpersisted_races_per_rlp))"

section \<open>Reports with valid traces are printed\<close>

definition trace_ok :: "backtrace_heap \<Rightarrow> backtrace_t \<Rightarrow> bool" where
  "trace_ok h b \<longleftrightarrow> b \<noteq> None \<and> bt_valid h b"

definition symbols_of :: "(u64 list \<Rightarrow> string list option) \<Rightarrow> backtrace_heap \<Rightarrow> backtrace_t \<Rightarrow> string" where
  "symbols_of symbols h b = (case b of None \<Rightarrow> ''<THREAD_EXIT>'' @ endl | Some p \<Rightarrow> BacktraceSymbols symbols (frame_list (frames_at h p)))"

lemma GetBacktraceSymbols_ok:
  "trace_ok h b \<Longrightarrow> GetBacktraceSymbols symbols h b = Inr (symbols_of symbols h b)"
  by (auto simp: trace_ok_def GetBacktraceSymbols_def bt_valid_def symbols_of_def)

definition accesses_text :: "(u64 list \<Rightarrow> string list option) \<Rightarrow> backtrace_heap \<Rightarrow> backtrace_t list \<Rightarrow> string" where
  "accesses_text symbols h bs =
     concat (case map (symbols_of symbols h) bs of [] \<Rightarrow> [] | x # xs \<Rightarrow> x # map (\<lambda>y. ''---'' @ endl @ y) xs)"

lemma output_accesses_ok:
  assumes "\<forall>b \<in> set bs. trace_ok h b"
  shows "output_accesses symbols h start bs =
    Inr (if start then accesses_text symbols h bs
         else concat (map (\<lambda>b. ''---'' @ endl @ symbols_of symbols h b) bs))"
  using assms
proof (induction bs arbitrary: start)
  case (Cons b bs)
  then show ?case by (simp add: GetBacktraceSymbols_ok accesses_text_def comp_def)
qed (simp add: accesses_text_def)

text \<open>What one entry prints, for persisted (\<open>ps\<close>) and for unpersisted stores.\<close>

definition entry_text ::
  "(u64 list \<Rightarrow> string list option) \<Rightarrow> backtrace_heap \<Rightarrow> bool
     \<Rightarrow> (backtrace_t \<times> backtrace_t \<times> bool) \<times> backtrace_t list \<Rightarrow> string" where
  "entry_text symbols h ps entry =
     (case entry of ((w, f, fl), bs) \<Rightarrow>
       ''PM address written in:'' @ endl @ symbols_of symbols h w @ endl @
       (if ps then ''flushed in:'' else if fl then ''ignored by (marked for flush):'' else ''ignored by:'') @ endl @
       symbols_of symbols h f @ endl @
       ''can be acessed concurrently in: '' @ endl @ accesses_text symbols h bs @ endl)"

definition entry_ok :: "backtrace_heap \<Rightarrow> bool \<Rightarrow> (backtrace_t \<times> backtrace_t \<times> bool) \<times> backtrace_t list \<Rightarrow> bool" where
  "entry_ok h ps entry \<longleftrightarrow>
     (case entry of ((w, f, fl), bs) \<Rightarrow>
       trace_ok h w \<and> bt_valid h f \<and> (ps \<longrightarrow> f \<noteq> None) \<and> (\<forall>b \<in> set bs. trace_ok h b))"

lemma output_entry_ok:
  "entry_ok h True entry \<Longrightarrow> output_persisted symbols h entry = Inr (entry_text symbols h True entry)"
  "entry_ok h False entry \<Longrightarrow> output_unpersisted symbols h entry = Inr (entry_text symbols h False entry)"
proof -
  obtain w f fl bs where e: "entry = ((w, f, fl), bs)" by (metis prod.exhaust)
  have f: "GetBacktraceSymbols symbols h f = Inr (symbols_of symbols h f)" if "bt_valid h f" "f \<noteq> None"
    using that by (intro GetBacktraceSymbols_ok) (simp add: trace_ok_def)
  show "entry_ok h True entry \<Longrightarrow> output_persisted symbols h entry = Inr (entry_text symbols h True entry)"
    by (simp add: e entry_ok_def output_persisted_def entry_text_def GetBacktraceSymbols_ok output_accesses_ok f)
  show "entry_ok h False entry \<Longrightarrow> output_unpersisted symbols h entry = Inr (entry_text symbols h False entry)"
    by (cases "f = None")
       (simp_all add: e entry_ok_def output_unpersisted_def entry_text_def GetBacktraceSymbols_ok output_accesses_ok f,
        simp_all add: symbols_of_def)
qed

lemma output_loop_ok:
  assumes "\<And>entry. entry \<in> set es \<Longrightarrow> f entry = Inr (t entry)"
  shows "foldE (\<lambda>entry out. bindE (f entry) (\<lambda>s. Inr (out @ s))) es out = Inr (out @ concat (map t es))"
  using assms by (induction es arbitrary: out) auto

lemma OutputRaces_ok:
  assumes "\<forall>e \<in> set r1. entry_ok h True e" "\<forall>e \<in> set r2. entry_ok h False e"
  shows "OutputRaces symbols h (r1, r2) =
    Inr (concat (map (entry_text symbols h True) r1) @ concat (map (entry_text symbols h False) r2))"
proof -
  have "foldE (\<lambda>entry out. bindE (output_persisted symbols h entry) (\<lambda>s. Inr (out @ s))) r1 [] =
      Inr ([] @ concat (map (entry_text symbols h True) r1))"
    by (rule output_loop_ok) (use assms(1) output_entry_ok(1) in blast)
  moreover have "foldE (\<lambda>entry out. bindE (output_unpersisted symbols h entry) (\<lambda>s. Inr (out @ s))) r2 out =
      Inr (out @ concat (map (entry_text symbols h False) r2))" for out
    by (rule output_loop_ok) (use assms(2) output_entry_ok(2) in blast)
  ultimately show ?thesis by (simp add: OutputRaces_def)
qed

section \<open>The reports of the analysis\<close>

definition reports_wf :: "reports_t \<Rightarrow> bool" where
  "reports_wf r \<longleftrightarrow> sm_wf r \<and> (\<forall>e \<in> set r. snd e \<noteq> [])"

lemma sm_wf_map_of: "sm_wf m \<Longrightarrow> e \<in> set m \<longleftrightarrow> map_of m (fst e) = Some (snd e)"
  by (metis map_of_distinct_iff prod.collapse sm_wf_distinct)

lemma reports_wf_modify:
  assumes "reports_wf r" "racy \<noteq> []"
  shows "reports_wf (sm_modify key [] (fold os_insert racy) r)"
proof -
  have wf: "sm_wf (sm_modify key [] (fold os_insert racy) r)" using assms(1) by (auto simp: reports_wf_def)
  have ne: "fold os_insert racy xs \<noteq> []" for xs
    using assms(2) set_fold_os_insert [of racy xs] by (metis set_empty2 sup_eq_bot_iff)
  have "snd e \<noteq> []" if "e \<in> set (sm_modify key [] (fold os_insert racy) r)" for e
    using that assms(1) ne sm_wf_map_of [of r] unfolding sm_wf_map_of [OF wf]
    by (cases "fst e = key") (auto simp: reports_wf_def dest: map_of_SomeD)
  with wf show ?thesis by (simp add: reports_wf_def)
qed

lemma add_reports_wf:
  assumes "reports_wf (fst r) \<and> reports_wf (snd r)" "racy \<noteq> []"
  shows "reports_wf (fst (add_reports adr racy tr r)) \<and> reports_wf (snd (add_reports adr racy tr r))"
  using assms reports_wf_modify by (cases r) (simp add: add_reports_def Let_def)

lemma CheckPMRaces_wf: "reports_wf (fst (CheckPMRaces g)) \<and> reports_wf (snd (CheckPMRaces g))"
proof -
  have thread: "reports_wf (fst (check_thread g t r)) \<and> reports_wf (snd (check_thread g t r))"
    if "reports_wf (fst r) \<and> reports_wf (snd r)" for g t r
    unfolding check_thread_def Let_def
    by (intro fold_inv [where P = "\<lambda>r. reports_wf (fst r) \<and> reports_wf (snd r)"] that)
       (auto intro!: add_reports_wf fold_inv [where P = "\<lambda>r. reports_wf (fst r) \<and> reports_wf (snd r)"])
  have "reports_wf []" by (simp add: reports_wf_def sm_wf_def)
  then show ?thesis
    unfolding CheckPMRaces_def Let_def
    by (intro fold_inv [where P = "\<lambda>r. reports_wf (fst r) \<and> reports_wf (snd r)"])
       (simp_all add: thread)
qed

text \<open>The traces of a report are those of recorded stores and loads.\<close>

lemma CheckPMRaces_entries:
  assumes inv: "hawk_inv g" and fresh: "\<And>t. race_likely_loads_opt (get_thread_data g t) = []"
    and e: "e \<in> set (if ps then fst (CheckPMRaces g) else snd (CheckPMRaces g))"
  shows "entry_ok (bt_heap g) ps e"
proof -
  obtain w f fl bs where e': "e = ((w, f, fl), bs)" by (metis prod.exhaust)
  have wf: "reports_wf (if ps then fst (CheckPMRaces g) else snd (CheckPMRaces g))"
    using CheckPMRaces_wf by simp
  have "sm_get [] (if ps then fst (CheckPMRaces g) else snd (CheckPMRaces g)) (w, f, fl) = bs"
    using wf e e' by (auto simp: reports_wf_def sm_get_def sm_wf_map_of split: if_splits)
  then have rep: "reported (CheckPMRaces g) ps (w, f, fl) lb \<longleftrightarrow> lb \<in> set bs" for lb
    by (simp add: reported_def)
  have "bs \<noteq> []" using wf e e' by (auto simp: reports_wf_def split: if_splits)
  moreover have "trace_ok (bt_heap g) w \<and> bt_valid (bt_heap g) f \<and> (ps \<longrightarrow> f \<noteq> None) \<and> trace_ok (bt_heap g) lb"
    if "lb \<in> set bs" for lb
  proof -
    from that obtain st s lt l where r: "recorded_store g st s" "recorded_load g lt l" "ps = persisted s"
      "(w, f, fl) = (write_trace s, fence_trace s, was_flushed s)" "lb = key_backtrace (fst l)"
      unfolding rep [symmetric] CheckPMRaces_reported [OF fresh] by blast
    have "store_ok (ls_heap g) (bt_heap g) (length (vector_clocks (get_thread_data g st))) s"
      "load_ok (ls_heap g) (bt_heap g) (length (vector_clocks (get_thread_data g lt))) l"
      using hawk_inv_td [OF inv] r(1,2) by (auto simp: td_ok_def recorded_store_def recorded_load_def)
    with r(3-5) show ?thesis by (auto simp: store_ok_def load_ok_def trace_ok_def)
  qed
  ultimately have "trace_ok (bt_heap g) w \<and> bt_valid (bt_heap g) f \<and> (ps \<longrightarrow> f \<noteq> None)"
    "\<forall>lb \<in> set bs. trace_ok (bt_heap g) lb"
    using hd_in_set by blast+
  then show ?thesis by (simp add: e' entry_ok_def)
qed

text \<open>So the report of every analysed state is printed, entry by entry.\<close>

lemma OutputRaces_CheckPMRaces:
  assumes inv: "hawk_inv g" and fresh: "\<And>t. race_likely_loads_opt (get_thread_data g t) = []"
  shows "OutputRaces symbols (bt_heap g) (CheckPMRaces g) =
    Inr (concat (map (entry_text symbols (bt_heap g) True) (fst (CheckPMRaces g))) @
         concat (map (entry_text symbols (bt_heap g) False) (snd (CheckPMRaces g))))"
proof -
  have "OutputRaces symbols (bt_heap g) (fst (CheckPMRaces g), snd (CheckPMRaces g)) =
    Inr (concat (map (entry_text symbols (bt_heap g) True) (fst (CheckPMRaces g))) @
         concat (map (entry_text symbols (bt_heap g) False) (snd (CheckPMRaces g))))"
    by (rule OutputRaces_ok)
       (use CheckPMRaces_entries [OF inv fresh, of _ True] CheckPMRaces_entries [OF inv fresh, of _ False] in auto)
  then show ?thesis by simp
qed

end
