(* ===== verification/ClockMachine.thy ===== *)
theory ClockMachine
  imports VectorClocks
begin

text \<open>
  The clocks of the tool on their own. An epoch \<open>(t, i)\<close> is the time thread \<open>t\<close> spends with
  its \<open>i\<close>-th vector clock; the accesses of an epoch are recorded with its index. The
  machine has the part of the tool's state that the clock computations read and write,
  and records beside it the edges that thread creation and joining establish. The theorem
  of this theory is that the vector clocks decide happens-before: one clock is below
  another exactly when there is a path of program order, create and join edges.
\<close>

type_synonym epoch = "nat \<times> nat"

definition program_order :: "(nat \<Rightarrow> VectorClock list) \<Rightarrow> (epoch \<times> epoch) set" where
  "program_order clks = {((t, i), (t, Suc i)) | t i. Suc i < length (clks t)}"

definition happens_before :: "(nat \<Rightarrow> VectorClock list) \<Rightarrow> (epoch \<times> epoch) set \<Rightarrow> (epoch \<times> epoch) set" where
  "happens_before clks edges = (program_order clks \<union> edges)\<^sup>*"

definition is_epoch :: "(nat \<Rightarrow> VectorClock list) \<Rightarrow> epoch \<Rightarrow> bool" where
  "is_epoch clks e \<longleftrightarrow> snd e < length (clks (fst e))"

definition epoch_clock :: "(nat \<Rightarrow> VectorClock list) \<Rightarrow> epoch \<Rightarrow> VectorClock" where
  "epoch_clock clks e = clks (fst e) ! snd e"

section \<open>What the clocks of all epochs satisfy\<close>

text \<open>The highest own component of a thread, 0 before it starts.\<close>

definition top_of :: "(nat \<Rightarrow> VectorClock list) \<Rightarrow> nat \<Rightarrow> nat" where
  "top_of clks t = (if clks t = [] then 0 else vc_nat (last (clks t)) t)"

definition clocks_core :: "nat \<Rightarrow> (nat \<Rightarrow> VectorClock list) \<Rightarrow> (epoch \<times> epoch) set \<Rightarrow> bool" where
  "clocks_core n clks edges \<longleftrightarrow>
     (\<forall>t. top_of clks t \<le> 2 * n) \<and>
     (\<forall>e. is_epoch clks e \<longrightarrow>
        vc_wf (epoch_clock clks e) \<and> vc_pos (epoch_clock clks e) \<and>
        0 < vc_nat (epoch_clock clks e) (fst e) \<and>
        (\<forall>u. vc_nat (epoch_clock clks e) u \<le> top_of clks u)) \<and>
     (\<forall>t i. Suc i < length (clks t) \<longrightarrow>
        vc_nat (clks t ! i) t < vc_nat (clks t ! Suc i) t \<and>
        (\<forall>u. vc_nat (clks t ! i) u \<le> vc_nat (clks t ! Suc i) u)) \<and>
     (\<forall>(a, b) \<in> edges. is_epoch clks a \<and> is_epoch clks b \<and>
        (\<forall>u. vc_nat (epoch_clock clks a) u \<le> vc_nat (epoch_clock clks b) u)) \<and>
     (\<forall>a b. is_epoch clks a \<longrightarrow> is_epoch clks b \<longrightarrow>
        vc_nat (epoch_clock clks a) (fst a) \<le> vc_nat (epoch_clock clks b) (fst a) \<longrightarrow>
        (a, b) \<in> happens_before clks edges)"

lemma clocks_coreD:
  assumes "clocks_core n clks edges"
  shows "top_of clks t \<le> 2 * n"
    "is_epoch clks e \<Longrightarrow> vc_wf (epoch_clock clks e)"
    "is_epoch clks e \<Longrightarrow> vc_pos (epoch_clock clks e)"
    "is_epoch clks e \<Longrightarrow> 0 < vc_nat (epoch_clock clks e) (fst e)"
    "is_epoch clks e \<Longrightarrow> vc_nat (epoch_clock clks e) u \<le> top_of clks u"
    "Suc i < length (clks t) \<Longrightarrow> vc_nat (clks t ! i) t < vc_nat (clks t ! Suc i) t"
    "Suc i < length (clks t) \<Longrightarrow> vc_nat (clks t ! i) u \<le> vc_nat (clks t ! Suc i) u"
    "(a, b) \<in> edges \<Longrightarrow> is_epoch clks a \<and> is_epoch clks b"
    "(a, b) \<in> edges \<Longrightarrow> vc_nat (epoch_clock clks a) u \<le> vc_nat (epoch_clock clks b) u"
    "is_epoch clks a \<Longrightarrow> is_epoch clks b \<Longrightarrow>
       vc_nat (epoch_clock clks a) (fst a) \<le> vc_nat (epoch_clock clks b) (fst a) \<Longrightarrow>
       (a, b) \<in> happens_before clks edges"
  using assms unfolding clocks_core_def by (blast | force)+

lemma clocks_core_init: "clocks_core n (\<lambda>_. []) {}"
  by (simp add: clocks_core_def top_of_def is_epoch_def)

text \<open>A path can only increase a clock.\<close>

lemma happens_before_le:
  assumes core: "clocks_core n clks edges" and hb: "(a, b) \<in> happens_before clks edges"
  shows "vc_nat (epoch_clock clks a) u \<le> vc_nat (epoch_clock clks b) u"
  using hb unfolding happens_before_def
proof (induction rule: rtrancl_induct)
  case (step b c)
  have "vc_nat (epoch_clock clks b) u \<le> vc_nat (epoch_clock clks c) u"
    using step(2) clocks_coreD(7,9) [OF core] by (auto simp: program_order_def epoch_clock_def)
  with step(3) show ?case by simp
qed simp

lemma clock_le_iff_happens_before:
  assumes core: "clocks_core n clks edges" and e: "is_epoch clks a" "is_epoch clks b"
  shows "vc_le (epoch_clock clks a) (epoch_clock clks b) \<longleftrightarrow> (a, b) \<in> happens_before clks edges"
  unfolding vc_le_nat [OF clocks_coreD(3) [OF core e(1)]]
  using happens_before_le [OF core] clocks_coreD(10) [OF core e] by blast

lemma own_strict_mono:
  assumes core: "clocks_core n clks edges" and "i < j" "j < length (clks t)"
  shows "vc_nat (clks t ! i) t < vc_nat (clks t ! j) t"
  using assms(2,3)
proof (induction j)
  case (Suc j)
  have "vc_nat (clks t ! j) t < vc_nat (clks t ! Suc j) t"
    using clocks_coreD(6) [OF core] Suc.prems by blast
  with Suc show ?case by (cases "i = j") auto
qed simp

section \<open>Appending a clock\<close>

lemma happens_before_mono:
  assumes "\<And>t. \<exists>ys. clks' t = clks t @ ys" "edges \<subseteq> edges'"
  shows "happens_before clks edges \<subseteq> happens_before clks' edges'"
proof -
  have "Suc i < length (clks' t)" if "Suc i < length (clks t)" for t i
    using assms(1) [of t] that by auto
  then have "program_order clks \<subseteq> program_order clks'"
    by (auto simp: program_order_def)
  then show ?thesis
    unfolding happens_before_def using assms(2) by (intro rtrancl_mono) auto
qed

lemma append_core:
  fixes clks edges u V X
  defines "clks' \<equiv> clks(u := clks u @ [V])" and "new \<equiv> (u, length (clks u))"
  assumes core: "clocks_core n clks edges"
    and V: "vc_wf V" "vc_pos V"
    and top: "top_of clks u < vc_nat V u" "vc_nat V u \<le> top_of clks u + 2"
    and others: "\<And>c. c \<noteq> u \<Longrightarrow> vc_nat V c \<le> top_of clks c"
    and last: "\<And>c. clks u \<noteq> [] \<Longrightarrow> vc_nat (last (clks u)) c \<le> vc_nat V c"
    and X: "\<And>a b. (a, b) \<in> X \<Longrightarrow> is_epoch clks a \<and> b = new \<and> (\<forall>c. vc_nat (epoch_clock clks a) c \<le> vc_nat V c)"
    and know: "\<And>a. is_epoch clks a \<Longrightarrow> fst a \<noteq> u \<Longrightarrow> vc_nat (epoch_clock clks a) (fst a) \<le> vc_nat V (fst a) \<Longrightarrow>
        (\<exists>b. (a, b) \<in> happens_before clks edges \<and> (b, new) \<in> program_order clks' \<union> X)"
  shows "clocks_core (Suc n) clks' (edges \<union> X)"
proof -
  have grow: "\<exists>ys. clks' t = clks t @ ys" for t by (simp add: clks'_def)
  have old: "is_epoch clks' e \<and> epoch_clock clks' e = epoch_clock clks e" if "is_epoch clks e" for e
    using that by (auto simp: clks'_def is_epoch_def epoch_clock_def nth_append)
  have new: "is_epoch clks' new" "epoch_clock clks' new = V"
    by (simp_all add: clks'_def new_def is_epoch_def epoch_clock_def)
  have split: "is_epoch clks e \<or> e = new" if "is_epoch clks' e" for e
    using that by (cases e) (auto simp: clks'_def new_def is_epoch_def split: if_splits)
  have top': "top_of clks' t = (if t = u then vc_nat V u else top_of clks t)" for t
    by (simp add: clks'_def top_of_def)
  have top_mono: "top_of clks t \<le> top_of clks' t" for t using top(1) by (simp add: top')
  have mono: "happens_before clks edges \<subseteq> happens_before clks' (edges \<union> X)"
    by (rule happens_before_mono [OF grow]) simp
  have "top_of clks' t \<le> 2 * Suc n" for t
    using clocks_coreD(1) [OF core, of t] top(2) by (auto simp: top')
  moreover have "vc_wf (epoch_clock clks' e) \<and> vc_pos (epoch_clock clks' e) \<and>
      0 < vc_nat (epoch_clock clks' e) (fst e) \<and> (\<forall>c. vc_nat (epoch_clock clks' e) c \<le> top_of clks' c)"
    if "is_epoch clks' e" for e
    using split [OF that]
  proof
    assume e: "is_epoch clks e"
    show ?thesis
      using old [OF e] clocks_coreD(2,3,4,5) [OF core e] order_trans [OF _ top_mono] by fastforce
  next
    assume e: "e = new"
    have u: "fst new = u" by (simp add: new_def)
    show ?thesis
      unfolding e new(2) u using V top(1) others by (simp add: top')
  qed
  moreover have "vc_nat (clks' t ! i) t < vc_nat (clks' t ! Suc i) t \<and>
      (\<forall>c. vc_nat (clks' t ! i) c \<le> vc_nat (clks' t ! Suc i) c)" if i: "Suc i < length (clks' t)" for t i
  proof (cases "Suc i < length (clks t)")
    case True
    then show ?thesis
      using clocks_coreD(6,7) [OF core True] by (auto simp: clks'_def nth_append)
  next
    case False
    then have t: "t = u" "Suc i = length (clks u)" "clks u \<noteq> []"
      using i by (auto simp: clks'_def split: if_splits)
    have "i = length (clks u) - 1" using t(2) by simp
    then have "clks u ! i = List.last (clks u)" using t(3) by (simp add: last_conv_nth)
    then show ?thesis
      using t last top(1) by (simp add: clks'_def nth_append top_of_def)
  qed
  moreover have "is_epoch clks' a \<and> is_epoch clks' b \<and>
      (\<forall>c. vc_nat (epoch_clock clks' a) c \<le> vc_nat (epoch_clock clks' b) c)" if ab: "(a, b) \<in> edges \<union> X" for a b
  proof (cases "(a, b) \<in> edges")
    case True
    then show ?thesis using clocks_coreD(8,9) [OF core True] old by auto
  next
    case False
    then have "(a, b) \<in> X" using ab by simp
    with X old new show ?thesis by fastforce
  qed
  moreover have "(a, b) \<in> happens_before clks' (edges \<union> X)"
    if ab: "is_epoch clks' a" "is_epoch clks' b"
      "vc_nat (epoch_clock clks' a) (fst a) \<le> vc_nat (epoch_clock clks' b) (fst a)" for a b
  proof (cases "b = new")
    case False
    then have b: "is_epoch clks b" using split ab by blast
    have "a \<noteq> new"
      using ab(3) new old [OF b] clocks_coreD(5) [OF core b, of u] top(1) by (auto simp: new_def)
    then have "is_epoch clks a" using split ab by blast
    then show ?thesis
      using clocks_coreD(10) [OF core _ b] ab(3) old b mono by fastforce
  next
    case b: True
    show ?thesis
    proof (cases "a = new")
      case True
      with b show ?thesis by (simp add: happens_before_def)
    next
      case False
      then have a: "is_epoch clks a" using split ab by blast
      have "\<exists>c. (a, c) \<in> happens_before clks edges \<and> (c, new) \<in> program_order clks' \<union> X"
      proof (cases "fst a = u")
        case False
        then show ?thesis using know [OF a] ab(3) b new(2) old [OF a] by simp
      next
        case True
        let ?l = "(u, length (clks u) - 1)"
        have ne: "clks u \<noteq> []" and l: "is_epoch clks ?l" using a True by (auto simp: is_epoch_def)
        have "vc_nat (epoch_clock clks a) u \<le> vc_nat (epoch_clock clks ?l) u"
          using clocks_coreD(5) [OF core a, of u] ne by (simp add: top_of_def epoch_clock_def last_conv_nth)
        then have "(a, ?l) \<in> happens_before clks edges"
          using clocks_coreD(10) [OF core a l] True by simp
        moreover have "(?l, new) \<in> program_order clks'"
          using ne by (auto simp: program_order_def clks'_def new_def)
        ultimately show ?thesis by blast
      qed
      then obtain c where c: "(a, c) \<in> happens_before clks' (edges \<union> X)" "(c, new) \<in> program_order clks' \<union> X"
        using mono by blast
      then show ?thesis
        unfolding b happens_before_def by (meson UnCI Un_iff rtrancl.rtrancl_into_rtrancl)
    qed
  qed
  ultimately show ?thesis unfolding clocks_core_def by blast
qed

section \<open>The machine\<close>

text \<open>
  \<open>cs_clocks\<close>, \<open>cs_creator\<close>, \<open>cs_has_creator\<close> and \<open>cs_exits\<close> are the tool's vectors,
  \<^verbatim>\<open>creator_thread_clock\<close>, the test \<^verbatim>\<open>creator_tid != -1\<close> and \<^verbatim>\<open>exit_threads_clock\<close>.
  The ghost fields record the epoch a creation or an exit ended, and the edges so far.
\<close>

record clock_state =
  cs_clocks :: "nat \<Rightarrow> VectorClock list"
  cs_creator :: VectorClock
  cs_has_creator :: bool
  cs_exits :: "(nat \<times> VectorClock) list"
  gh_creator :: epoch
  gh_exit :: "nat \<Rightarrow> nat option"
  gh_edges :: "(epoch \<times> epoch) set"

definition init_clock_state :: clock_state where
  "init_clock_state =
     \<lparr>cs_clocks = (\<lambda>_. []), cs_creator = new_VectorClock, cs_has_creator = False, cs_exits = [],
      gh_creator = (0, 0), gh_exit = (\<lambda>_. None), gh_edges = {}\<rparr>"

datatype clock_event = CE_none | CE_create nat | CE_start nat | CE_exit nat | CE_join nat nat

definition append_clock :: "nat \<Rightarrow> VectorClock \<Rightarrow> clock_state \<Rightarrow> clock_state" where
  "append_clock t c s = s\<lparr>cs_clocks := (cs_clocks s)(t := cs_clocks s t @ [c])\<rparr>"

fun clock_step :: "clock_event \<Rightarrow> clock_state \<Rightarrow> clock_state" where
  "clock_step CE_none s = s"
| "clock_step (CE_create t) s =
     (let c1 = vc_tick t (last (cs_clocks s t))
      in append_clock t (vc_tick t c1)
           (s\<lparr>cs_creator := c1, cs_has_creator := True, gh_creator := (t, length (cs_clocks s t) - 1)\<rparr>))"
| "clock_step (CE_start t) s =
     (let c = (if cs_has_creator s then cs_creator s else new_VectorClock)
      in append_clock t (vc_tick t (vc_tick t c))
           (s\<lparr>gh_edges := gh_edges s \<union> (if cs_has_creator s then {(gh_creator s, (t, length (cs_clocks s t)))} else {})\<rparr>))"
| "clock_step (CE_exit t) s =
     (let c = vc_tick t (last (cs_clocks s t))
      in append_clock t c
           (s\<lparr>cs_exits := sm_insert t c (cs_exits s), gh_exit := (gh_exit s)(t := Some (length (cs_clocks s t)))\<rparr>))"
| "clock_step (CE_join t e) s =
     (let c1 = vc_tick t (last (cs_clocks s t));
          exits = sm_modify e new_VectorClock id (cs_exits s)
      in append_clock t (vc_update (sm_get new_VectorClock exits e) c1)
           (s\<lparr>cs_exits := exits,
              gh_edges := gh_edges s \<union> (case gh_exit s e of None \<Rightarrow> {} | Some x \<Rightarrow> {((e, x), (t, length (cs_clocks s t)))})\<rparr>))"

text \<open>A thread starts once, and does everything else after it started.\<close>

fun clock_enabled :: "clock_event \<Rightarrow> clock_state \<Rightarrow> bool" where
  "clock_enabled CE_none s = True"
| "clock_enabled (CE_start t) s = (cs_clocks s t = [])"
| "clock_enabled (CE_create t) s = (cs_clocks s t \<noteq> [])"
| "clock_enabled (CE_exit t) s = (cs_clocks s t \<noteq> [])"
| "clock_enabled (CE_join t e) s = (cs_clocks s t \<noteq> [])"

definition creator_ok :: "clock_state \<Rightarrow> bool" where
  "creator_ok s \<longleftrightarrow> (cs_has_creator s \<longrightarrow>
     (case gh_creator s of (t, k) \<Rightarrow>
        Suc k < length (cs_clocks s t) \<and> vc_wf (cs_creator s) \<and> vc_pos (cs_creator s) \<and>
        (\<forall>u. vc_nat (cs_creator s) u = (if u = t then 1 else 0) + vc_nat (cs_clocks s t ! k) u) \<and>
        vc_nat (cs_creator s) t < vc_nat (cs_clocks s t ! Suc k) t))"

fun exit_entry :: "VectorClock list \<Rightarrow> VectorClock \<Rightarrow> nat option \<Rightarrow> bool" where
  "exit_entry cs c None = (c = new_VectorClock)"
| "exit_entry cs c (Some x) = (x < length cs \<and> c = cs ! x)"

definition exits_ok :: "clock_state \<Rightarrow> bool" where
  "exits_ok s \<longleftrightarrow>
     (\<forall>e. exit_entry (cs_clocks s e) (sm_get new_VectorClock (cs_exits s) e) (gh_exit s e))"

lemma exit_entry_append: "exit_entry cs c x \<Longrightarrow> exit_entry (cs @ [v]) c x"
  by (cases x) (auto simp: nth_append)

definition clock_inv :: "nat \<Rightarrow> clock_state \<Rightarrow> bool" where
  "clock_inv n s \<longleftrightarrow> clocks_core n (cs_clocks s) (gh_edges s) \<and> creator_ok s \<and> exits_ok s"

lemma clock_inv_init: "clock_inv n init_clock_state"
  by (simp add: clock_inv_def init_clock_state_def clocks_core_init creator_ok_def exits_ok_def)

lemma clocks_core_mono: "clocks_core n clks edges \<Longrightarrow> n \<le> m \<Longrightarrow> clocks_core m clks edges"
  unfolding clocks_core_def by (meson order_trans mult_le_mono2)

text \<open>The facts about the last clock of a running thread that every step uses.\<close>

lemma last_clock:
  assumes core: "clocks_core n clks edges" and ne: "clks t \<noteq> []" and n: "n < 2 ^ 62"
  shows "vc_wf (last (clks t))" "vc_pos (last (clks t))" "vc_nat (last (clks t)) u \<le> top_of clks u"
    "vc_nat (last (clks t)) t = top_of clks t" "vc_nat (last (clks t)) t < 2 ^ 63"
    "is_epoch clks (t, length (clks t) - 1)" "epoch_clock clks (t, length (clks t) - 1) = last (clks t)"
proof -
  show e: "is_epoch clks (t, length (clks t) - 1)" using ne by (simp add: is_epoch_def)
  show l: "epoch_clock clks (t, length (clks t) - 1) = last (clks t)"
    using ne by (simp add: epoch_clock_def last_conv_nth)
  show "vc_wf (last (clks t))" "vc_pos (last (clks t))" "vc_nat (last (clks t)) u \<le> top_of clks u"
    using clocks_coreD(2,3,5) [OF core e] l by auto
  show t: "vc_nat (last (clks t)) t = top_of clks t" using ne by (simp add: top_of_def)
  show "vc_nat (last (clks t)) t < 2 ^ 63"
    unfolding t using clocks_coreD(1) [OF core, of t] n by simp
qed

lemma append_clock_clocks [simp]:
  "cs_clocks (append_clock t c s) = (cs_clocks s)(t := cs_clocks s t @ [c])"
  "cs_creator (append_clock t c s) = cs_creator s"
  "cs_has_creator (append_clock t c s) = cs_has_creator s"
  "cs_exits (append_clock t c s) = cs_exits s"
  "gh_creator (append_clock t c s) = gh_creator s"
  "gh_exit (append_clock t c s) = gh_exit s"
  "gh_edges (append_clock t c s) = gh_edges s"
  by (simp_all add: append_clock_def)

text \<open>Appending keeps what the snapshots say.\<close>

lemma creator_ok_append: "creator_ok s \<Longrightarrow> creator_ok (append_clock t c s)"
  by (auto simp: creator_ok_def nth_append split: prod.splits)

lemma exits_ok_append: "exits_ok s \<Longrightarrow> exits_ok (append_clock t c s)"
  by (simp add: exits_ok_def exit_entry_append)

section \<open>Every step keeps the invariant\<close>

lemma sm_get_insert: "sm_get d (sm_insert k v m) k' = (if k' = k then v else sm_get d m k')"
  by (simp add: sm_get_def)

text \<open>Create and exit append an advanced copy of the thread's own last clock.\<close>

lemma own_append_core:
  assumes core: "clocks_core n clks edges" and ne: "clks t \<noteq> []"
    and V: "vc_wf V" "vc_pos V" "\<And>u. u \<noteq> t \<Longrightarrow> vc_nat V u = vc_nat (last (clks t)) u"
      "vc_nat (last (clks t)) t < vc_nat V t" "vc_nat V t \<le> vc_nat (last (clks t)) t + 2"
  shows "clocks_core (Suc n) (clks(t := clks t @ [V])) edges"
proof -
  let ?l = "(t, length (clks t) - 1)"
  have l: "is_epoch clks ?l" "epoch_clock clks ?l = last (clks t)"
    using ne by (simp_all add: is_epoch_def epoch_clock_def last_conv_nth)
  have t: "vc_nat (last (clks t)) t = top_of clks t" using ne by (simp add: top_of_def)
  have po: "(?l, (t, length (clks t))) \<in> program_order (clks(t := clks t @ [V]))"
    using ne by (auto simp: program_order_def)
  have "clocks_core (Suc n) (clks(t := clks t @ [V])) (edges \<union> {})"
  proof (rule append_core [OF core])
    fix a assume a: "is_epoch clks a" "fst a \<noteq> t" "vc_nat (epoch_clock clks a) (fst a) \<le> vc_nat V (fst a)"
    then have "(a, ?l) \<in> happens_before clks edges"
      using clocks_coreD(10) [OF core a(1) l(1)] V(3) [of "fst a"] l(2) by simp
    with po show "\<exists>b. (a, b) \<in> happens_before clks edges \<and>
        (b, (t, length (clks t))) \<in> program_order (clks(t := clks t @ [V])) \<union> {}" by blast
  next
    fix c assume "c \<noteq> t"
    then show "vc_nat V c \<le> top_of clks c"
      using V(3) clocks_coreD(5) [OF core l(1), of c] l(2) by simp
  next
    fix c show "vc_nat (last (clks t)) c \<le> vc_nat V c"
      using V(3) [of c] V(4) by (cases "c = t") auto
  qed (use V t in auto)
  then show ?thesis by simp
qed

lemma tick_facts:
  assumes "vc_wf c" "vc_pos c" "vc_nat c t < 2 ^ 63"
  shows "vc_wf (vc_tick t c)" "vc_pos (vc_tick t c)"
    "vc_nat (vc_tick t c) u = (if u = t then vc_nat c u + 1 else vc_nat c u)"
    "vc_wf (vc_tick t (vc_tick t c))" "vc_pos (vc_tick t (vc_tick t c))"
    "vc_nat (vc_tick t (vc_tick t c)) u = (if u = t then vc_nat c u + 2 else vc_nat c u)"
proof -
  have 1: "vc_nat (vc_tick t c) u = (if u = t then vc_nat c u + 1 else vc_nat c u)" for u
    using assms(3) by (subst vc_nat_tick) auto
  show "vc_wf (vc_tick t c)" "vc_wf (vc_tick t (vc_tick t c))" using assms(1) by auto
  show p: "vc_pos (vc_tick t c)" using assms by (intro vc_pos_tick) auto
  show "vc_nat (vc_tick t c) u = (if u = t then vc_nat c u + 1 else vc_nat c u)" by (rule 1)
  show "vc_pos (vc_tick t (vc_tick t c))" using 1 [of t] assms(3) by (intro vc_pos_tick [OF p]) simp
  show "vc_nat (vc_tick t (vc_tick t c)) u = (if u = t then vc_nat c u + 2 else vc_nat c u)"
    using 1 [of t] 1 [of u] assms(3) by (subst vc_nat_tick) auto
qed

lemma create_inv:
  assumes inv: "clock_inv n s" and en: "clock_enabled (CE_create t) s" and n: "n < 2 ^ 62"
  shows "clock_inv (Suc n) (clock_step (CE_create t) s)"
proof -
  have core: "clocks_core n (cs_clocks s) (gh_edges s)" and ex: "exits_ok s"
    using inv by (auto simp: clock_inv_def)
  have ne: "cs_clocks s t \<noteq> []" using en by simp
  note l = last_clock [where t = t, OF core ne n]
  note f = tick_facts [OF l(1,2,5)]
  let ?s' = "clock_step (CE_create t) s"
  have "clocks_core (Suc n) (cs_clocks ?s') (gh_edges ?s')"
    using own_append_core [OF core ne f(4,5)] by (simp add: Let_def f(6))
  moreover have "exits_ok ?s'"
  proof -
    have "exits_ok (s\<lparr>cs_creator := c, cs_has_creator := b, gh_creator := e\<rparr>)" for c b e
      using ex by (simp add: exits_ok_def)
    then show ?thesis by (simp add: Let_def exits_ok_append)
  qed
  moreover have "creator_ok ?s'"
    using ne f by (simp add: creator_ok_def Let_def nth_append last_conv_nth)
  ultimately show ?thesis by (simp add: clock_inv_def)
qed

lemma exit_inv:
  assumes inv: "clock_inv n s" and en: "clock_enabled (CE_exit t) s" and n: "n < 2 ^ 62"
  shows "clock_inv (Suc n) (clock_step (CE_exit t) s)"
proof -
  have core: "clocks_core n (cs_clocks s) (gh_edges s)" and ex: "exits_ok s" and cr: "creator_ok s"
    using inv by (auto simp: clock_inv_def)
  have ne: "cs_clocks s t \<noteq> []" using en by simp
  note l = last_clock [where t = t, OF core ne n]
  note f = tick_facts [OF l(1,2,5)]
  let ?s' = "clock_step (CE_exit t) s"
  have "clocks_core (Suc n) (cs_clocks ?s') (gh_edges ?s')"
    using own_append_core [OF core ne f(1,2)] by (simp add: Let_def f(3))
  moreover have "exits_ok ?s'"
    using ex by (simp add: exits_ok_def Let_def sm_get_insert exit_entry_append)
  moreover have "creator_ok ?s'"
  proof -
    have "creator_ok (s\<lparr>cs_exits := e, gh_exit := x\<rparr>)" for e x
      using cr by (simp add: creator_ok_def)
    then show ?thesis by (simp add: Let_def creator_ok_append)
  qed
  ultimately show ?thesis by (simp add: clock_inv_def)
qed

text \<open>A new thread starts from the creator's snapshot.\<close>

lemma start_inv:
  assumes inv: "clock_inv n s" and en: "clock_enabled (CE_start t) s" and n: "n < 2 ^ 62"
  shows "clock_inv (Suc n) (clock_step (CE_start t) s)"
proof -
  have core: "clocks_core n (cs_clocks s) (gh_edges s)" and ex: "exits_ok s" and cr: "creator_ok s"
    using inv by (auto simp: clock_inv_def)
  have fresh: "cs_clocks s t = []" using en by simp
  then have top: "top_of (cs_clocks s) t = 0" by (simp add: top_of_def)
  obtain ct k where g: "gh_creator s = (ct, k)" by fastforce
  let ?c = "if cs_has_creator s then cs_creator s else new_VectorClock"
  let ?new = "(t, length (cs_clocks s t))"
  let ?X = "if cs_has_creator s then {(gh_creator s, ?new)} else {}"
  let ?V = "vc_tick t (vc_tick t ?c)"
  let ?s' = "clock_step (CE_start t) s"
  have has: "Suc k < length (cs_clocks s ct)" "vc_wf (cs_creator s)" "vc_pos (cs_creator s)"
      "\<And>u. vc_nat (cs_creator s) u = (if u = ct then 1 else 0) + vc_nat (cs_clocks s ct ! k) u"
      "vc_nat (cs_creator s) ct < vc_nat (cs_clocks s ct ! Suc k) ct" if "cs_has_creator s"
    using cr that g by (auto simp: creator_ok_def)
  have ek: "is_epoch (cs_clocks s) (ct, k)" "is_epoch (cs_clocks s) (ct, Suc k)" if "cs_has_creator s"
    using has(1) [OF that] by (simp_all add: is_epoch_def)
  have c_top: "vc_nat ?c u \<le> top_of (cs_clocks s) u" for u
  proof (cases "cs_has_creator s")
    case True
    show ?thesis
      using has(4,5) [OF True] clocks_coreD(5) [OF core ek(1) [OF True], of u]
        clocks_coreD(5) [OF core ek(2) [OF True], of u] True
      by (cases "u = ct") (simp_all add: epoch_clock_def)
  qed simp
  have c: "vc_wf ?c" "vc_pos ?c" "vc_nat ?c t < 2 ^ 63"
    using has(2,3) c_top [of t] top by auto
  note f = tick_facts [OF c]
  have "clocks_core (Suc n) ((cs_clocks s)(t := cs_clocks s t @ [?V])) (gh_edges s \<union> ?X)"
  proof (rule append_core [OF core f(4,5)])
    show "top_of (cs_clocks s) t < vc_nat ?V t" "vc_nat ?V t \<le> top_of (cs_clocks s) t + 2"
      using f(6) [of t] c_top [of t] top by simp_all
    show "vc_nat ?V u \<le> top_of (cs_clocks s) u" if "u \<noteq> t" for u
      using f(6) [of u] c_top [of u] that by simp
    show "vc_nat (last (cs_clocks s t)) u \<le> vc_nat ?V u" if "cs_clocks s t \<noteq> []" for u
      using that fresh by simp
  next
    fix a b assume ab: "(a, b) \<in> ?X"
    then have h: "cs_has_creator s" "a = (ct, k)" "b = ?new" using g by (auto split: if_splits)
    have "vc_nat (cs_clocks s ct ! k) u \<le> vc_nat ?V u" for u
      using has(4) [OF h(1), of u] f(6) [of u] h(1) by (auto split: if_splits)
    with h ek show "is_epoch (cs_clocks s) a \<and> b = ?new \<and> (\<forall>u. vc_nat (epoch_clock (cs_clocks s) a) u \<le> vc_nat ?V u)"
      by (simp add: epoch_clock_def)
  next
    fix a assume a: "is_epoch (cs_clocks s) a" "fst a \<noteq> t"
      "vc_nat (epoch_clock (cs_clocks s) a) (fst a) \<le> vc_nat ?V (fst a)"
    have le: "vc_nat (epoch_clock (cs_clocks s) a) (fst a) \<le> vc_nat ?c (fst a)"
      using a(2,3) f(6) [of "fst a"] by simp
    have h: "cs_has_creator s"
      using le clocks_coreD(4) [OF core a(1)] by (auto split: if_splits)
    have "(a, (ct, k)) \<in> happens_before (cs_clocks s) (gh_edges s)"
    proof (cases "fst a = ct")
      case True
      obtain i where ai: "a = (ct, i)" using True by (cases a) auto
      have "\<not> k < i"
      proof
        assume "k < i"
        then have "vc_nat (cs_clocks s ct ! Suc k) ct \<le> vc_nat (cs_clocks s ct ! i) ct"
          using own_strict_mono [OF core, of "Suc k" i ct] a(1) ai
          by (cases "Suc k = i") (auto simp: is_epoch_def)
        with has(5) [OF h] le ai h show False by (simp add: epoch_clock_def)
      qed
      then have "vc_nat (cs_clocks s ct ! i) ct \<le> vc_nat (cs_clocks s ct ! k) ct"
        using own_strict_mono [OF core, of i k ct] has(1) [OF h] by (cases "i = k") auto
      then show ?thesis
        using clocks_coreD(10) [OF core a(1) ek(1) [OF h]] ai by (simp add: epoch_clock_def)
    next
      case False
      then show ?thesis
        using clocks_coreD(10) [OF core a(1) ek(1) [OF h]] le h has(4) [OF h, of "fst a"]
        by (simp add: epoch_clock_def)
    qed
    then show "\<exists>b. (a, b) \<in> happens_before (cs_clocks s) (gh_edges s) \<and>
        (b, ?new) \<in> program_order ((cs_clocks s)(t := cs_clocks s t @ [?V])) \<union> ?X"
      using h g by auto
  qed
  moreover have "exits_ok (s\<lparr>gh_edges := e\<rparr>)" "creator_ok (s\<lparr>gh_edges := e\<rparr>)" for e
    using ex cr by (simp_all add: exits_ok_def creator_ok_def)
  ultimately show ?thesis
    by (simp add: clock_inv_def Let_def exits_ok_append creator_ok_append)
qed

text \<open>A join merges the clock the exited thread published.\<close>

lemma join_inv:
  assumes inv: "clock_inv n s" and en: "clock_enabled (CE_join t e) s" and n: "n < 2 ^ 62"
  shows "clock_inv (Suc n) (clock_step (CE_join t e) s)"
proof -
  have core: "clocks_core n (cs_clocks s) (gh_edges s)" and ex: "exits_ok s" and cr: "creator_ok s"
    using inv by (auto simp: clock_inv_def)
  have ne: "cs_clocks s t \<noteq> []" using en by simp
  note l = last_clock [where t = t, OF core ne n]
  note f = tick_facts [OF l(1,2,5)]
  let ?clks = "cs_clocks s"
  let ?exits = "sm_modify e new_VectorClock id (cs_exits s)"
  let ?c = "sm_get new_VectorClock (cs_exits s) e"
  let ?new = "(t, length (?clks t))"
  let ?X = "case gh_exit s e of None \<Rightarrow> {} | Some x \<Rightarrow> {((e, x), ?new)}"
  let ?V = "vc_update ?c (vc_tick t (last (?clks t)))"
  let ?l = "(t, length (?clks t) - 1)"
  let ?s' = "clock_step (CE_join t e) s"
  have get: "sm_get new_VectorClock ?exits u = sm_get new_VectorClock (cs_exits s) u" for u
    by (simp add: sm_get_def split: option.splits)
  have exit: "gh_exit s e = None \<and> ?c = new_VectorClock \<or>
      (\<exists>x. gh_exit s e = Some x \<and> is_epoch ?clks (e, x) \<and> ?c = epoch_clock ?clks (e, x))"
    using spec [OF ex [unfolded exits_ok_def], of e]
    by (cases "gh_exit s e") (auto simp: is_epoch_def epoch_clock_def)
  have c: "vc_wf ?c" "vc_pos ?c" "\<And>u. vc_nat ?c u \<le> top_of ?clks u"
    using exit clocks_coreD(2,3,5) [OF core] by auto
  have V: "vc_nat ?V u = max (if u = t then top_of ?clks t + 1 else vc_nat (last (?clks t)) u) (vc_nat ?c u)" for u
    using vc_nat_update [OF c(1), of "vc_tick t (last (?clks t))" u] f(3) [of u] l(4) by simp
  have "clocks_core (Suc n) (?clks(t := ?clks t @ [?V])) (gh_edges s \<union> ?X)"
  proof (rule append_core [OF core])
    show "vc_wf ?V" "vc_pos ?V" using f(1,2) c(1,2) by (auto intro: vc_pos_update)
    show "top_of ?clks t < vc_nat ?V t" "vc_nat ?V t \<le> top_of ?clks t + 2"
      using V [of t] c(3) [of t] by simp_all
    show "vc_nat ?V u \<le> top_of ?clks u" if "u \<noteq> t" for u
      using V [of u] c(3) [of u] l(3) [of u] that by simp
    show "vc_nat (last (?clks t)) u \<le> vc_nat ?V u" for u
      using V [of u] l(4) by (simp add: max_def)
  next
    fix a b assume "(a, b) \<in> ?X"
    then obtain x where x: "gh_exit s e = Some x" "a = (e, x)" "b = ?new" by (auto split: option.splits)
    then show "is_epoch ?clks a \<and> b = ?new \<and> (\<forall>u. vc_nat (epoch_clock ?clks a) u \<le> vc_nat ?V u)"
      using exit V by auto
  next
    fix a assume a: "is_epoch ?clks a" "fst a \<noteq> t" "vc_nat (epoch_clock ?clks a) (fst a) \<le> vc_nat ?V (fst a)"
    then consider "vc_nat (epoch_clock ?clks a) (fst a) \<le> vc_nat (last (?clks t)) (fst a)"
      | "vc_nat (epoch_clock ?clks a) (fst a) \<le> vc_nat ?c (fst a)"
      using V [of "fst a"] by (auto simp: max_def split: if_splits)
    then show "\<exists>b. (a, b) \<in> happens_before ?clks (gh_edges s) \<and>
        (b, ?new) \<in> program_order (?clks(t := ?clks t @ [?V])) \<union> ?X"
    proof cases
      case 1
      then have "(a, ?l) \<in> happens_before ?clks (gh_edges s)"
        using clocks_coreD(10) [OF core a(1) l(6)] l(7) by simp
      moreover have "(?l, ?new) \<in> program_order (?clks(t := ?clks t @ [?V]))"
        using ne by (auto simp: program_order_def)
      ultimately show ?thesis by blast
    next
      case 2
      then obtain x where x: "gh_exit s e = Some x" "is_epoch ?clks (e, x)" "?c = epoch_clock ?clks (e, x)"
        using exit clocks_coreD(4) [OF core a(1)] by auto
      then have "(a, (e, x)) \<in> happens_before ?clks (gh_edges s)"
        using clocks_coreD(10) [OF core a(1) x(2)] 2 by simp
      with x(1) show ?thesis by auto
    qed
  qed
  moreover have "exits_ok (s\<lparr>cs_exits := ?exits, gh_edges := ed\<rparr>)" for ed
    using ex by (simp add: exits_ok_def get)
  moreover have "creator_ok (s\<lparr>cs_exits := x, gh_edges := ed\<rparr>)" for x ed
    using cr by (simp add: creator_ok_def)
  ultimately show ?thesis
    by (simp add: clock_inv_def Let_def exits_ok_append creator_ok_append get)
qed

lemma clock_step_inv:
  "clock_inv n s \<Longrightarrow> clock_enabled e s \<Longrightarrow> n < 2 ^ 62 \<Longrightarrow> clock_inv (Suc n) (clock_step e s)"
proof (cases e)
  case CE_none
  assume "clock_inv n s"
  then show ?thesis using clocks_core_mono by (auto simp: CE_none clock_inv_def)
qed (use create_inv start_inv exit_inv join_inv in blast)+

end
