(* ===== verification/History.thy ===== *)
theory History
  imports Reach ClockMachine
begin

text \<open>
  What each callback leaves alone, and the clocks of a run. \<open>clock_frame\<close> says that only the
  interning tables grew and that what only the thread callbacks change is unchanged; those act on it as the steps of the clock machine.
  \<open>clock_history\<close> runs the machine beside the tool, so its edges are the happens-before
  edges of the run.
\<close>

definition clock_frame :: "hawk \<Rightarrow> hawk \<Rightarrow> bool" where
  "clock_frame g g' \<longleftrightarrow>
     (\<forall>t. vector_clocks (get_thread_data g' t) = vector_clocks (get_thread_data g t) \<and>
          used (get_thread_data g' t) = used (get_thread_data g t) \<and>
          race_likely_loads_opt (get_thread_data g' t) = race_likely_loads_opt (get_thread_data g t)) \<and>
     creator_thread_clock g' = creator_thread_clock g \<and> creator_thread_id g' = creator_thread_id g \<and>
     exit_threads_clock g' = exit_threads_clock g \<and>
     ls_extends (ls_heap g) (ls_heap g') \<and> tls_extends (tls_heap g) (tls_heap g') \<and>
     bt_extends (bt_heap g) (bt_heap g') \<and>
     use_init_removal_heuristic_n g' = use_init_removal_heuristic_n g \<and>
     check_unpersisted_stores g' = check_unpersisted_stores g"

lemma clock_frame_refl [simp, intro]: "clock_frame g g"
  by (simp add: clock_frame_def)

lemma keeps_clock_frame: "keeps tid g g' \<Longrightarrow> clock_frame g g'"
  unfolding keeps_def mem_frame_def clock_frame_def by metis

lemma clock_frame_bookkeeping:
  assumes "\<And>td. vector_clocks (f td) = vector_clocks td \<and> used (f td) = used td \<and>
    race_likely_loads_opt (f td) = race_likely_loads_opt td"
  shows "clock_frame g (update_thread tid f g)"
  using assms by (simp add: clock_frame_def)

lemma clock_frame_other [simp]:
  "clock_frame g (g\<lparr>pm := p\<rparr>)" "clock_frame g (g\<lparr>registry := r\<rparr>)"
  "clock_frame g (g\<lparr>thread_creation_mutex := m\<rparr>)"
  "clock_frame g (g\<lparr>thread_creation_semaphore := b, pthread_id_to_tid := x, thread_creation_mutex := m\<rparr>)"
  by (simp_all add: clock_frame_def)

fun clock_event_of :: "event \<Rightarrow> hawk \<Rightarrow> clock_event" where
  "clock_event_of (EvCreateCall tid) g = CE_create tid"
| "clock_event_of (EvThreadStart tid) g = CE_start tid"
| "clock_event_of (EvThreadExit tid) g = CE_exit tid"
| "clock_event_of (EvJoin tid result pid) g =
     (if result = 0 then CE_join tid (sm_get 0 (pthread_id_to_tid g) pid) else CE_none)"
| "clock_event_of e g = CE_none"

lemma hawk_step_clock_frame:
  assumes inv: "hawk_inv g" and en: "enabled e g" and run: "hawk_step c e g = Inr g'"
    and none: "clock_event_of e g = CE_none"
  shows "clock_frame g g'"
proof -
  note store = keeps_clock_frame [OF ProcessStore_keeps [OF inv ready [OF inv]]]
    and fence = keeps_clock_frame [OF ProcessFence_keeps [OF inv ready [OF inv]]]
    and load = keeps_clock_frame [OF RegisterAccess_keeps [OF inv ready [OF inv]]]
    and flush = keeps_clock_frame [OF ProcessFlush_keeps [OF inv]]
    and locks = keeps_clock_frame [OF ProcessLock_keeps [OF inv]]
  show ?thesis
  proof (cases e)
    case (EvWrite tid ctxt a sz type)
    then show ?thesis
      using run en by (auto simp: TraceWrite_def enabled_def split: if_splits intro: store flush)
  next
    case (EvFlush tid a type)
    then show ?thesis using run by (auto simp: TraceFlush_def split: if_splits intro: flush)
  next
    case (EvFence tid ctxt)
    then show ?thesis using run en by (auto simp: TraceFence_def enabled_def intro: fence)
  next
    case (EvRMW tid ctxt a sz)
    then show ?thesis using run en by (auto simp: TraceRMW_def enabled_def split: if_splits intro: fence)
  next
    case (EvRead tid ctxt a sz a2)
    then show ?thesis
      using run en by (auto simp: TraceRead_def ProcessRead_def enabled_def split: if_splits intro: load)
  next
    case (EvCall tid a)
    then show ?thesis using run by (auto simp: TraceCall_def intro!: clock_frame_bookkeeping)
  next
    case (EvRet tid)
    then show ?thesis using run by (auto simp: TraceRet_def split: if_splits intro!: clock_frame_bookkeeping)
  next
    case (EvTryLockBefore tid ret m res)
    then show ?thesis using run by (auto simp: TryLockBefore_def intro!: clock_frame_bookkeeping)
  next
    case (EvTryLockAfter mem tid res success neg use_arg lt)
    then show ?thesis
      using run locks TryLockAfter_cases [of mem tid res success neg use_arg lt g] by auto
  next
    case (EvJoin tid result pid)
    then show ?thesis using run none by (auto simp: PthreadJoin_return_def split: if_splits)
  next
    case (EvCreateReturn tid result pid)
    then show ?thesis using run by (auto simp: PthreadCreate_return_def Let_def)
  next
    case (EvImageLoad v)
    then show ?thesis using run by auto
  qed (use run none locks in \<open>auto simp: LockBefore_def WriteLockBefore_def ReadLockBefore_def
      UnlockBefore_def RWUnlockBefore_def TraceAdqRelBefore_def TraceAdqRelAfter_def\<close>)
qed

section \<open>The tool simulates the clock machine\<close>

definition clocks_match :: "hawk \<Rightarrow> clock_state \<Rightarrow> bool" where
  "clocks_match g s \<longleftrightarrow>
     (\<forall>t. cs_clocks s t = vector_clocks (get_thread_data g t)) \<and>
     (\<forall>t. used (get_thread_data g t) \<longleftrightarrow> vector_clocks (get_thread_data g t) \<noteq> []) \<and>
     cs_creator s = creator_thread_clock g \<and> (cs_has_creator s \<longleftrightarrow> creator_thread_id g \<noteq> -1) \<and>
     cs_exits s = exit_threads_clock g"

lemma clocks_match_init: "clocks_match (init_hawk n d u) init_clock_state"
  by (simp add: clocks_match_def init_hawk_def init_clock_state_def new_ThreadData_def)

lemma clocks_match_frame: "clocks_match g s \<Longrightarrow> clock_frame g g' \<Longrightarrow> clocks_match g' s"
  by (simp add: clocks_match_def clock_frame_def)

lemma clocks_match_append:
  assumes "clocks_match g s" "used (get_thread_data g t)"
  shows "clocks_match (push_clock t c g) (append_clock t c s)"
  using assms by (auto simp: clocks_match_def push_clock_def)

lemma hawk_step_match:
  assumes inv: "hawk_inv g" and m: "clocks_match g s" and en: "enabled e g" and run: "hawk_step c e g = Inr g'"
  shows "clocks_match g' (clock_step (clock_event_of e g) s)" "clock_enabled (clock_event_of e g) s"
proof -
  have ne: "cs_clocks s t \<noteq> [] \<and> vectors_back (get_thread_data g t) = Inr (last (cs_clocks s t))
      \<and> used (get_thread_data g t)" if "started g t" for t
    using m that ready [OF inv that] by (auto simp: clocks_match_def started_def vectors_back_def)
  have "clocks_match g' (clock_step (clock_event_of e g) s) \<and> clock_enabled (clock_event_of e g) s"
  proof (cases "clock_event_of e g = CE_none")
    case True
    then show ?thesis
      using clocks_match_frame [OF m hawk_step_clock_frame [OF inv en run]] by simp
  next
    case False
    then show ?thesis
    proof (cases e)
      case (EvCreateCall t)
      then have n: "cs_clocks s t \<noteq> []" "vectors_back (get_thread_data g t) = Inr (last (cs_clocks s t))"
        "used (get_thread_data g t)" using ne en by (auto simp: enabled_def)
      let ?c = "vc_tick t (last (cs_clocks s t))"
      have g': "g' = push_clock t (vc_tick t ?c) (g\<lparr>thread_creation_mutex := Some t,
          creator_thread_id := int t, creator_thread_clock := ?c\<rparr>)"
        using run EvCreateCall n by (simp add: PthreadCreate_call_def ProcessThreadCreate_def Let_def)
      show ?thesis
        unfolding g' EvCreateCall using m n
        by (simp add: Let_def) (rule clocks_match_append, auto simp: clocks_match_def)
    next
      case (EvThreadStart t)
      then have fresh: "vector_clocks (get_thread_data g t) = []" "\<not> used (get_thread_data g t)"
        using m en by (auto simp: clocks_match_def enabled_def started_def)
      show ?thesis
        using m fresh run EvThreadStart
        by (auto simp: clocks_match_def TraceThreadStart_def TraceThreadStart_signal_def
            TraceThreadStart_init_def ProcessThreadInit_def push_clock_def Let_def append_clock_def split: if_splits)
    next
      case (EvThreadExit t)
      then have n: "cs_clocks s t \<noteq> []" "used (get_thread_data g t)" "vector_clocks (get_thread_data g t) \<noteq> []"
        using ne ready [OF inv] en by (auto simp: enabled_def)
      obtain g1 c where k: "keeps t g g1" and c: "c = vc_tick t (last (vector_clocks (get_thread_data g t)))"
        and g': "g' = (push_clock t c g1)\<lparr>exit_threads_clock := sm_insert t c (exit_threads_clock g1)\<rparr>"
        using ProcessThreadExit_cases [OF inv n(3), of g'] run EvThreadExit by (auto simp: TraceThreadExit_def)
      have m1: "clocks_match g1 s" by (rule clocks_match_frame [OF m keeps_clock_frame [OF k]])
      have "c = vc_tick t (last (cs_clocks s t))" using c m by (simp add: clocks_match_def)
      then show ?thesis
        unfolding g' EvThreadExit using m1 n(1) by (auto simp: clocks_match_def push_clock_def Let_def append_clock_def)
    next
      case (EvJoin t result pid)
      then have r: "result = 0" using False by (auto split: if_splits)
      then have n: "cs_clocks s t \<noteq> []" "vectors_back (get_thread_data g t) = Inr (last (cs_clocks s t))"
        "used (get_thread_data g t)" using ne en EvJoin by (auto simp: enabled_def)
      let ?e = "sm_get 0 (pthread_id_to_tid g) pid"
      let ?x = "sm_modify ?e new_VectorClock id (exit_threads_clock g)"
      let ?V = "vc_update (sm_get new_VectorClock ?x ?e) (vc_tick t (last (cs_clocks s t)))"
      have g': "g' = push_clock t ?V (g\<lparr>pthread_id_to_tid := sm_modify pid 0 id (pthread_id_to_tid g),
          exit_threads_clock := ?x\<rparr>)"
        using run r EvJoin n by (simp add: PthreadJoin_return_def ProcessThreadJoin_def Let_def)
      have x: "cs_exits s = exit_threads_clock g" using m by (simp add: clocks_match_def)
      show ?thesis
        unfolding g' EvJoin using m n r
        by (simp add: Let_def x) (rule clocks_match_append, auto simp: clocks_match_def)
    qed auto
  qed
  then show "clocks_match g' (clock_step (clock_event_of e g) s)" "clock_enabled (clock_event_of e g) s" by auto
qed

fun clock_history :: "config \<Rightarrow> event list \<Rightarrow> hawk \<Rightarrow> clock_state \<Rightarrow> clock_state" where
  "clock_history c [] g s = s"
| "clock_history c (e # es) g s =
     (case hawk_step c e g of
        Inl err \<Rightarrow> s
      | Inr g' \<Rightarrow> clock_history c es g' (clock_step (clock_event_of e g) s))"

lemma hawk_run_clocks:
  assumes "hawk_run c es g = Inr g'" "hawk_inv g" "clocks_match g s" "clock_inv k s" "k + length es \<le> 2 ^ 62"
  shows "hawk_inv g' \<and> clocks_match g' (clock_history c es g s) \<and> clock_inv (k + length es) (clock_history c es g s)"
  using assms
proof (induction es arbitrary: g s k)
  case (Cons e es)
  then obtain g1 where en: "enabled e g" and step: "hawk_step c e g = Inr g1" and rest: "hawk_run c es g1 = Inr g'"
    by (auto split: if_splits)
  note m = hawk_step_match [OF Cons.prems(2,3) en step]
  have "clock_inv (Suc k) (clock_step (clock_event_of e g) s)"
    using clock_step_inv [OF Cons.prems(4) m(2)] Cons.prems(5) by simp
  then show ?case
    using Cons.IH [OF rest hawk_step_inv [OF Cons.prems(2) en step] m(1), of "Suc k"] Cons.prems(5) step by simp
qed simp

definition run_happens_before :: "config \<Rightarrow> event list \<Rightarrow> hawk \<Rightarrow> (epoch \<times> epoch) set" where
  "run_happens_before c es g0 =
     (let s = clock_history c es g0 init_clock_state in happens_before (cs_clocks s) (gh_edges s))"

lemma run_clock_le:
  assumes run: "hawk_run c es (init_hawk n d u) = Inr g" and len: "length es \<le> 2 ^ 62"
    and i: "i < length (vector_clocks (get_thread_data g t))"
    and j: "j < length (vector_clocks (get_thread_data g v))"
  shows "vc_le (vector_clocks (get_thread_data g t) ! i) (vector_clocks (get_thread_data g v) ! j)
      \<longleftrightarrow> ((t, i), (v, j)) \<in> run_happens_before c es (init_hawk n d u)"
    "vc_wf (vector_clocks (get_thread_data g t) ! i)"
proof -
  let ?s = "clock_history c es (init_hawk n d u) init_clock_state"
  have "clocks_match g ?s \<and> clock_inv (0 + length es) ?s"
    using hawk_run_clocks [OF run hawk_inv_init clocks_match_init clock_inv_init, of 0] len by simp
  then have m: "\<And>t. cs_clocks ?s t = vector_clocks (get_thread_data g t)"
    and core: "clocks_core (length es) (cs_clocks ?s) (gh_edges ?s)"
    by (auto simp: clocks_match_def clock_inv_def)
  have e: "is_epoch (cs_clocks ?s) (t, i)" "is_epoch (cs_clocks ?s) (v, j)"
    using i j m by (simp_all add: is_epoch_def)
  show "vc_le (vector_clocks (get_thread_data g t) ! i) (vector_clocks (get_thread_data g v) ! j)
      \<longleftrightarrow> ((t, i), (v, j)) \<in> run_happens_before c es (init_hawk n d u)"
    using clock_le_iff_happens_before [OF core e] m by (simp add: epoch_clock_def run_happens_before_def Let_def)
  show "vc_wf (vector_clocks (get_thread_data g t) ! i)"
    using clocks_coreD(2) [OF core e(1)] m by (simp add: epoch_clock_def)
qed

text \<open>What holds of every step, thread callbacks included.\<close>

definition step_frame :: "hawk \<Rightarrow> hawk \<Rightarrow> bool" where
  "step_frame g g' \<longleftrightarrow>
     (\<forall>t. race_likely_loads_opt (get_thread_data g' t) = race_likely_loads_opt (get_thread_data g t) \<and>
          (started g t \<longrightarrow> started g' t)) \<and>
     ls_extends (ls_heap g) (ls_heap g') \<and> tls_extends (tls_heap g) (tls_heap g') \<and>
     bt_extends (bt_heap g) (bt_heap g') \<and>
     use_init_removal_heuristic_n g' = use_init_removal_heuristic_n g \<and>
     check_unpersisted_stores g' = check_unpersisted_stores g"

lemma clock_frame_step_frame: "clock_frame g g' \<Longrightarrow> step_frame g g'"
  by (simp add: clock_frame_def step_frame_def started_def)

lemma step_frame_refl [simp, intro]: "step_frame g g"
  by (simp add: step_frame_def)

lemma step_frame_trans: "step_frame a b \<Longrightarrow> step_frame b c \<Longrightarrow> step_frame a c"
  unfolding step_frame_def using ls_extends_trans tls_extends_trans bt_extends_trans by metis

lemma hawk_step_frame:
  assumes inv: "hawk_inv g" and en: "enabled e g" and run: "hawk_step c e g = Inr g'"
  shows "step_frame g g'"
proof (cases "clock_event_of e g = CE_none")
  case True
  show ?thesis using hawk_step_clock_frame [OF inv en run True] by (rule clock_frame_step_frame)
next
  case False
  then show ?thesis
  proof (cases e)
    case (EvThreadExit tid)
    then have ne: "vector_clocks (get_thread_data g tid) \<noteq> []" and r: "ProcessThreadExit tid g = Inr g'"
      using ready [OF inv] en run by (simp_all add: enabled_def TraceThreadExit_def)
    obtain g1 c where k: "keeps tid g g1"
      and g': "g' = (push_clock tid c g1)\<lparr>exit_threads_clock := sm_insert tid c (exit_threads_clock g1)\<rparr>"
      by (rule ProcessThreadExit_cases [OF inv ne r])
    then show ?thesis
      using keeps_clock_frame [OF k] by (simp add: clock_frame_def step_frame_def started_def push_clock_def)
  qed (use run in \<open>auto simp: PthreadCreate_call_def ProcessThreadCreate_def TraceThreadStart_def
      TraceThreadStart_signal_def TraceThreadStart_init_def ProcessThreadInit_def PthreadJoin_return_def
      ProcessThreadJoin_def push_clock_def step_frame_def started_def Let_def split: if_splits\<close>)
qed

lemma hawk_run_frame:
  "hawk_run c es g = Inr g' \<Longrightarrow> hawk_inv g \<Longrightarrow> hawk_inv g' \<and> step_frame g g'"
proof (induction es arbitrary: g)
  case (Cons e es)
  then obtain g1 where en: "enabled e g" and step: "hawk_step c e g = Inr g1" and rest: "hawk_run c es g1 = Inr g'"
    by (auto split: if_splits)
  show ?case
    using Cons.IH [OF rest hawk_step_inv [OF Cons.prems(2) en step]]
      step_frame_trans [OF hawk_step_frame [OF Cons.prems(2) en step]] by blast
qed simp

lemma reachable_loads_opt:
  assumes "reachable c (init_hawk n d u) g"
  shows "hawk_inv g \<and> race_likely_loads_opt (get_thread_data g t) = []"
  using assms
proof (induction rule: reachable.induct)
  case reachable_init
  show ?case by (simp add: hawk_inv_init) (simp add: init_hawk_def new_ThreadData_def)
next
  case (reachable_step g e g')
  then show ?case by (metis hawk_step_inv hawk_step_frame step_frame_def)
qed

end
