(* ===== verification/Startup.thy ===== *)
theory Startup
  imports Report History
begin

text \<open>
  The command line and the whole tool (\<^verbatim>\<open>KNOB\<close> variables, \<^verbatim>\<open>HandleKnobs\<close> and \<^verbatim>\<open>main\<close> of
  \<^verbatim>\<open>src/src/hawkset.cpp\<close>): the options give the initial state and the configuration, the
  callbacks of the traced program run, and the analysis at the end prints its report.
  \<open>load\<close> is what opening and loading a configuration file returns.
\<close>

record knobs =
  KnobOutPath :: string
  KnobPMMount :: string
  KnobInitRemoval :: int
  KnobBacktraceDepth :: int
  KnobConfigFiles :: "string list"
  KnobCheckUnpersistedWrites :: bool

definition default_knobs :: knobs where
  "default_knobs = \<lparr>KnobOutPath = [], KnobPMMount = ''/mnt/pmem0/'', KnobInitRemoval = 1,
     KnobBacktraceDepth = 50, KnobConfigFiles = [], KnobCheckUnpersistedWrites = False\<rparr>"

type_synonym yaml_load = "string \<Rightarrow> (yaml_node option \<times> (int \<Rightarrow> yaml_node option)) option"

text \<open>The casts \<^verbatim>\<open>(uint64_t)\<close> of the two \<^verbatim>\<open>int\<close> options extend the sign.\<close>

definition HandleKnobs :: "yaml_load \<Rightarrow> knobs \<Rightarrow> hs_error + (config \<times> hawk)" where
  "HandleKnobs load k =
     bindE (foldE (\<lambda>file cfgs. bindE (parse_MutexConfig (load file)) (\<lambda>cfg. Inr (cfgs @ [cfg])))
              (KnobConfigFiles k) [])
       (\<lambda>cfgs. Inr (\<lparr>pm_mount = KnobPMMount k, configs = cfgs\<rparr>,
          init_hawk (of_int (KnobInitRemoval k)) (of_int (KnobBacktraceDepth k)) (KnobCheckUnpersistedWrites k)))"

definition hawk_main ::
  "yaml_load \<Rightarrow> (u64 list \<Rightarrow> string list option) \<Rightarrow> knobs \<Rightarrow> event list \<Rightarrow> hs_error + string" where
  "hawk_main load symbols k events =
     bindE (HandleKnobs load k) (\<lambda>(c, g0).
       bindE (hawk_run c events g0) (\<lambda>g. OutputRaces symbols (bt_heap g) (CheckPMRaces g)))"

lemma HandleKnobs_init:
  assumes "HandleKnobs load k = Inr (c, g0)"
  shows "g0 = init_hawk (of_int (KnobInitRemoval k)) (of_int (KnobBacktraceDepth k)) (KnobCheckUnpersistedWrites k)"
  using assms by (auto simp: HandleKnobs_def)

lemma hawk_run_init:
  assumes "hawk_run c es (init_hawk n d u) = Inr g"
  shows "reachable c (init_hawk n d u) g" "hawk_inv g" "race_likely_loads_opt (get_thread_data g t) = []"
proof -
  show r: "reachable c (init_hawk n d u) g" by (rule hawk_run_reachable [OF assms reachable_init])
  from reachable_loads_opt [OF r, of t] show "hawk_inv g" "race_likely_loads_opt (get_thread_data g t) = []" by simp_all
qed

text \<open>A run that succeeds is always followed by a printed report.\<close>

lemma hawk_main_text:
  assumes "HandleKnobs load k = Inr (c, g0)" "hawk_run c events g0 = Inr g"
  shows "hawk_main load symbols k events =
    Inr (concat (map (entry_text symbols (bt_heap g) True) (fst (CheckPMRaces g))) @
         concat (map (entry_text symbols (bt_heap g) False) (snd (CheckPMRaces g))))"
proof -
  note r = hawk_run_init [OF assms(2) [unfolded HandleKnobs_init [OF assms(1)]]]
  show ?thesis using OutputRaces_CheckPMRaces [OF r(2,3)] assms by (simp add: hawk_main_def)
qed

end
