(* ===== verification/HandlerFrame.thy ===== *)
theory HandlerFrame
  imports Threads
begin

text \<open>
  A rule for properties of the handlers. The memory and thread handlers touch the threads'
  locks not at all and the initialization heuristic only through \<^verbatim>\<open>HandleAccess\<close> and
  \<^verbatim>\<open>HandleAccessByte\<close>, and they only add to what is recorded. The locale \<open>handler_base\<close> is the
  contract of a relation between the states before and after a handler of one thread: it is
  transitive, holds of every change that leaves the locks and the heuristic alone and adds to
  the records, and holds of the two calls into the heuristic. Any such relation holds of every
  handler but that of loads; \<open>handler_frame\<close> adds what that one needs.
\<close>

section \<open>Records are only added\<close>

definition td_grow :: "ThreadData \<Rightarrow> ThreadData \<Rightarrow> bool" where
  "td_grow td td' \<longleftrightarrow>
     prefix (race_likely_stores td) (race_likely_stores td') \<and> prefix (vector_clocks td) (vector_clocks td') \<and>
     (\<forall>k ps. map_of (race_likely_loads td) k = Some ps \<longrightarrow>
        (\<exists>ps'. map_of (race_likely_loads td') k = Some ps' \<and> set ps \<subseteq> set ps'))"

lemma td_grow_refl [simp, intro]: "td_grow td td"
  by (auto simp: td_grow_def)

lemma td_grow_trans: "td_grow a b \<Longrightarrow> td_grow b c \<Longrightarrow> td_grow a c"
  unfolding td_grow_def by (meson prefix_order.trans subset_trans)

lemma td_grow_same:
  "race_likely_stores td' = race_likely_stores td \<Longrightarrow> vector_clocks td' = vector_clocks td \<Longrightarrow>
   race_likely_loads td' = race_likely_loads td \<Longrightarrow> td_grow td td'"
  by (simp add: td_grow_def)

lemma td_grow_add [simp]:
  "td_grow td (td\<lparr>race_likely_stores := race_likely_stores td @ ss\<rparr>)"
  "td_grow td (td\<lparr>vector_clocks := vector_clocks td @ cs\<rparr>)"
  "td_grow td (td\<lparr>race_likely_loads := um_modify key [] (os_insert q) (race_likely_loads td)\<rparr>)"
  by (auto simp: td_grow_def sm_get_def)

lemma td_grow_other [simp]:
  "td_grow td (td\<lparr>mem_state := m\<rparr>)" "td_grow td (td\<lparr>flushed_mem_state := f, mem_state := m\<rparr>)"
  "td_grow td (td\<lparr>flushed_mem_state := f\<rparr>)" "td_grow td (td\<lparr>cached_timedlockset := p\<rparr>)"
  "td_grow td (td\<lparr>td_tid := t\<rparr>)" "td_grow td (td\<lparr>used := b\<rparr>)" "td_grow td (td\<lparr>stack := st\<rparr>)"
  by (simp_all add: td_grow_def)

definition records_grow :: "hawk \<Rightarrow> hawk \<Rightarrow> bool" where
  "records_grow g g' \<longleftrightarrow> (\<forall>t. td_grow (get_thread_data g t) (get_thread_data g' t))"

lemma records_grow_refl [simp, intro]: "records_grow g g"
  by (simp add: records_grow_def)

lemma records_grow_trans: "records_grow a b \<Longrightarrow> records_grow b c \<Longrightarrow> records_grow a c"
  unfolding records_grow_def using td_grow_trans by blast

lemma records_grow_update: "(\<And>td. td_grow td (f td)) \<Longrightarrow> records_grow g (update_thread tid f g)"
  by (simp add: records_grow_def)

section \<open>The rule\<close>

definition untouched :: "hawk \<Rightarrow> hawk \<Rightarrow> bool" where
  "untouched g g' \<longleftrightarrow>
     (\<forall>t. current_timedlockset (get_thread_data g' t) = current_timedlockset (get_thread_data g t) \<and>
          lock_clock (get_thread_data g' t) = lock_clock (get_thread_data g t) \<and>
          stack (get_thread_data g' t) = stack (get_thread_data g t)) \<and>
     irh g' = irh g \<and> registry g' = registry g \<and> pm g' = pm g \<and>
     thread_creation_mutex g' = thread_creation_mutex g \<and> thread_creation_semaphore g' = thread_creation_semaphore g \<and>
     check_unpersisted_stores g' = check_unpersisted_stores g \<and>
     use_init_removal_heuristic_n g' = use_init_removal_heuristic_n g \<and> records_grow g g' \<and>
     (\<forall>t. race_likely_loads (get_thread_data g' t) = race_likely_loads (get_thread_data g t))"

lemma untouched_refl [simp, intro]: "untouched g g"
  by (simp add: untouched_def)

lemma untouched_update:
  "(\<And>td. current_timedlockset (f td) = current_timedlockset td \<and> lock_clock (f td) = lock_clock td \<and>
      stack (f td) = stack td \<and> td_grow td (f td) \<and> race_likely_loads (f td) = race_likely_loads td) \<Longrightarrow>
   untouched g (update_thread tid f g)"
  by (simp add: untouched_def records_grow_update)

lemma untouched_GetBacktrace: "hawk_GetBacktrace ctxt tid g = (b, g') \<Longrightarrow> untouched g g'"
  by (auto simp: hawk_GetBacktrace_def untouched_def records_grow_def split: prod.splits)

lemma untouched_get_timedlockset: "get_timedlockset tid g = (p, g') \<Longrightarrow> untouched g g'"
  by (auto simp: get_timedlockset_def Let_def untouched_def records_grow_def split: option.splits prod.splits)

lemma untouched_ProcessFlush: "untouched g (ProcessFlush tid t a g)"
  by (auto simp: ProcessFlush_def Let_def intro!: untouched_update)

lemma untouched_set_mem_of: "untouched g (update_thread tid (\<lambda>td. set_mem_of m (f td) td) g)"
  by (rule untouched_update) (cases m; simp add: set_mem_of_def)

locale handler_base =
  fixes F :: "nat \<Rightarrow> hawk \<Rightarrow> hawk \<Rightarrow> bool"
  assumes F_trans: "F tid a b \<Longrightarrow> F tid b c \<Longrightarrow> F tid a c"
    and F_untouched: "untouched a b \<Longrightarrow> F tid a b"
    and F_access: "hawk_HandleAccess tid adr sz a = Inr (m, b) \<Longrightarrow> F tid a b"
    and F_access_byte: "hawk_HandleAccessByte tid adr a = Inr (y, b) \<Longrightarrow> F tid a b"
begin

lemma F_refl: "F tid g g"
  by (rule F_untouched) simp

lemma F_then: "F tid a b \<Longrightarrow> untouched b c \<Longrightarrow> F tid a c"
  by (rule F_trans [OF _ F_untouched])

lemma F_fold:
  assumes "foldE f xs g = Inr g'" and "\<And>x h h'. f x h = Inr h' \<Longrightarrow> F tid h h'"
  shows "F tid g g'"
  using assms(1) by (rule foldE_inv) (use assms(2) F_trans F_refl in blast)+

lemma F_RegisterUnpersistedStore:
  assumes "RegisterUnpersistedStore tid a d ls tr fl g = Inr g'"
  shows "F tid g g'"
proof -
  obtain b g1 where 1: "hawk_HandleAccessByte tid a g = Inr (b, g1)"
    using assms by (auto simp: RegisterUnpersistedStore_def)
  have "untouched g1 g'"
    using assms 1 by (auto simp: RegisterUnpersistedStore_def push_store_def untouched_def records_grow_def
        split: if_splits prod.splits)
  with F_access_byte [OF 1] show ?thesis by (rule F_then)
qed

lemma F_CheckOverwrite:
  assumes "CheckOverwrite tid a m ls tr fl g = Inr g'"
  shows "F tid g g'"
proof -
  let ?g1 = "update_thread tid (\<lambda>td. set_mem_of m (um_modify (CACHE_LINE a) [] id (mem_of m td)) td) g"
  have g1: "F tid g ?g1" by (rule F_untouched [OF untouched_set_mem_of])
  from assms consider "g' = ?g1"
    | d h where "RegisterUnpersistedStore tid a d ls tr fl ?g1 = Inr h"
        "g' = update_thread tid (\<lambda>td. set_mem_of m (um_modify (CACHE_LINE a) [] (um_erase a) (mem_of m td)) td) h"
    by (auto simp: CheckOverwrite_def Let_def split: option.splits)
  then show ?thesis
  proof cases
    case 1
    with g1 show ?thesis by simp
  next
    case 2
    from F_then [OF F_trans [OF g1 F_RegisterUnpersistedStore [OF 2(1)]] untouched_set_mem_of]
    show ?thesis unfolding 2(2) .
  qed
qed

lemma F_store_byte:
  assumes run: "store_byte tid d a g = Inr g'"
  shows "F tid g g'"
proof -
  obtain g1 where g1: "F tid g g1"
    and g': "g' = update_thread tid (\<lambda>td. td\<lparr>mem_state := um_modify (CACHE_LINE a) [] (um_insert a d) (mem_state td)\<rparr>) g1"
  proof (cases "check_unpersisted_stores g")
    case False
    with run that [of g] show thesis by (simp add: store_byte_def F_refl)
  next
    case True
    obtain h h' where 1: "CheckOverwrite tid a DIRTY (timed_lockset d) (sd_backtrace d) False g = Inr h"
      and 2: "CheckOverwrite tid a FLUSHED (timed_lockset d) (sd_backtrace d) True h = Inr h'"
      and 3: "g' = update_thread tid (\<lambda>td. td\<lparr>mem_state := um_modify (CACHE_LINE a) [] (um_insert a d) (mem_state td)\<rparr>) h'"
      using run True by (auto simp: store_byte_def)
    show thesis by (rule that [OF F_trans [OF F_CheckOverwrite [OF 1] F_CheckOverwrite [OF 2]] 3])
  qed
  show ?thesis unfolding g' by (rule F_then [OF g1 untouched_update]) simp
qed

lemma F_ProcessStore:
  assumes "ProcessStore tid a sz ctxt g = Inr g'"
  shows "F tid g g'"
proof -
  obtain m g1 where 1: "hawk_HandleAccess tid a sz g = Inr (m, g1)"
    using assms by (auto simp: ProcessStore_def)
  obtain bt g2 where 2: "hawk_GetBacktrace ctxt tid g1 = (bt, g2)" by fastforce
  obtain p g3 where 3: "get_timedlockset tid g2 = (p, g3)" by fastforce
  have "F tid g3 g'"
    by (rule F_fold [of "store_byte tid \<lparr>timed_lockset = p, sd_backtrace = bt\<rparr>" "byte_range a sz"])
       (use assms 1 2 3 F_store_byte in \<open>auto simp: ProcessStore_def\<close>)
  from F_trans [OF F_then [OF F_then [OF F_access [OF 1] untouched_GetBacktrace [OF 2]]
        untouched_get_timedlockset [OF 3]] this]
  show ?thesis .
qed

lemma F_fence_write:
  assumes "fence_write tid ctxt p w (g, bt) = Inr (g', bt')"
  shows "F tid g g'"
proof -
  obtain b g1 where 1: "hawk_HandleAccessByte tid (fst w) g = Inr (b, g1)"
    using assms by (auto simp: fence_write_def)
  obtain bt1 g2 where 2: "(if bt = None then hawk_GetBacktrace ctxt tid g1 else (bt, g1)) = (bt1, g2)" by fastforce
  have g2: "untouched g1 g2" using 2 untouched_GetBacktrace by (auto split: if_splits)
  have "g' = g1 \<or> untouched g2 g'"
    using assms 1 2 by (auto simp: fence_write_def push_store_def untouched_def records_grow_def split: if_splits prod.splits)
  then show ?thesis
    using F_access_byte [OF 1] F_then [OF F_then [OF F_access_byte [OF 1] g2]] by blast
qed

lemma F_ProcessFence:
  assumes "ProcessFence tid rmw ctxt a sz g = Inr g'"
  shows "F tid g g'"
proof -
  obtain g1 where 1: "(if rmw \<and> sz \<noteq> 0 then ProcessStore tid a sz ctxt g else Inr g) = Inr g1"
    using assms by (auto simp: ProcessFence_def)
  obtain p g2 where 2: "get_timedlockset tid g1 = (p, g2)" by fastforce
  let ?mem = "flushed_mem_state (get_thread_data g2 tid)"
  have rest: "F tid g2 g'"
  proof (cases "?mem = []")
    case True
    then show ?thesis using assms 1 2 by (simp add: ProcessFence_def Let_def F_refl)
  next
    case False
    obtain g3 bt where 3: "foldE (fence_write tid ctxt p) (concat (map snd ?mem)) (g2, None) = Inr (g3, bt)"
      and g': "g' = update_thread tid (\<lambda>td. td\<lparr>flushed_mem_state := []\<rparr>) g3"
      using assms 1 2 False by (auto simp: ProcessFence_def Let_def foldE_nested)
    have "F tid g2 (fst (g3, bt))"
    proof (rule foldE_inv [OF 3, where P = "\<lambda>s. F tid g2 (fst s)"])
      fix x t t'
      assume "F tid g2 (fst t)" "fence_write tid ctxt p x t = Inr t'"
      then show "F tid g2 (fst t')"
        using F_trans F_fence_write [of tid ctxt p x "fst t" "snd t" "fst t'" "snd t'"] by simp
    qed (simp add: F_refl)
    then show ?thesis unfolding g' by (intro F_then [OF _ untouched_update]) simp_all
  qed
  have "F tid g g1" using 1 F_ProcessStore F_refl by (auto split: if_splits)
  from F_trans [OF F_then [OF this untouched_get_timedlockset [OF 2]] rest] show ?thesis .
qed

lemma F_exit_stores:
  assumes "exit_stores tid fl mem g = Inr g'"
  shows "F tid g g'"
  using assms unfolding exit_stores_def foldE_nested
proof (rule F_fold)
  fix e :: "u64 \<times> StoreData" and x x'
  assume run: "(case get_timedlockset tid x of (p, g1) \<Rightarrow>
      RegisterUnpersistedStore tid (fst e) (snd e) p None fl g1) = Inr x'"
  obtain p x1 where p: "get_timedlockset tid x = (p, x1)" by fastforce
  from run p have "RegisterUnpersistedStore tid (fst e) (snd e) p None fl x1 = Inr x'" by simp
  from F_trans [OF F_untouched [OF untouched_get_timedlockset [OF p]] F_RegisterUnpersistedStore [OF this]]
  show "F tid x x'" .
qed

lemma F_ProcessThreadExit:
  assumes "ProcessThreadExit tid g = Inr g'"
  shows "F tid g g'"
proof -
  obtain g1 where g1: "F tid g g1"
    and b: "bindE (vectors_back (get_thread_data g1 tid)) (\<lambda>clock0.
         let clock1 = vc_tick tid clock0; g2 = push_clock tid clock1 g1
         in Inr (g2\<lparr>exit_threads_clock := sm_insert tid clock1 (exit_threads_clock g2)\<rparr>)) = Inr g'"
  proof (cases "check_unpersisted_stores g")
    case False
    with assms that [of g] show thesis by (simp add: ProcessThreadExit_def F_refl)
  next
    case True
    obtain h h' where 1: "exit_stores tid False (mem_state (get_thread_data g tid)) g = Inr h"
      and 2: "exit_stores tid True (flushed_mem_state (get_thread_data h tid)) h = Inr h'"
      and 3: "bindE (vectors_back (get_thread_data h' tid)) (\<lambda>clock0.
         let clock1 = vc_tick tid clock0; g2 = push_clock tid clock1 h'
         in Inr (g2\<lparr>exit_threads_clock := sm_insert tid clock1 (exit_threads_clock g2)\<rparr>)) = Inr g'"
      using assms True unfolding ProcessThreadExit_def by (simp only: if_True bindE_Inr_iff) blast
    show thesis by (rule that [OF F_trans [OF F_exit_stores [OF 1] F_exit_stores [OF 2]] 3])
  qed
  have "untouched g1 g'"
    using b by (auto simp: push_clock_def untouched_def records_grow_def Let_def)
  with g1 show ?thesis by (rule F_then)
qed

end

text \<open>With loads: the relation also holds of the addition of a lockset to a recorded load.\<close>

locale handler_frame = handler_base +
  assumes F_load: "F tid g (update_thread tid
      (\<lambda>td. td\<lparr>race_likely_loads := um_modify key [] (os_insert q) (race_likely_loads td)\<rparr>) g)"
begin

lemma F_RegisterAccess:
  assumes "RegisterAccess tid a sz ctxt g = Inr g'"
  shows "F tid g g'"
proof -
  obtain m g1 where 1: "hawk_HandleAccess tid a sz g = Inr (m, g1)"
    using assms by (auto simp: RegisterAccess_def)
  obtain bt g2 where 2: "hawk_GetBacktrace ctxt tid g1 = (bt, g2)" by fastforce
  obtain p g3 where 3: "get_timedlockset tid g2 = (p, g3)" by fastforce
  obtain q h where 4: "lockset_cache_get (to_lockset (timedlockset_at (tls_heap g3) p)) (ls_heap g3) = (q, h)" by fastforce
  have F3: "F tid g (g3\<lparr>ls_heap := h\<rparr>)"
    using F_then [OF F_then [OF F_then [OF F_access [OF 1] untouched_GetBacktrace [OF 2]] untouched_get_timedlockset [OF 3]],
        of "g3\<lparr>ls_heap := h\<rparr>"] by (simp add: untouched_def records_grow_def)
  show ?thesis
  proof (cases "m = 0")
    case True
    then show ?thesis using assms 1 F_access [OF 1] by (simp add: RegisterAccess_def)
  next
    case False
    then show ?thesis
      using assms 1 2 3 4 F_trans [OF F3 F_load] by (auto simp: RegisterAccess_def Let_def)
  qed
qed

end

end
