(* ===== verification/MemSpec.thy ===== *)
theory MemSpec
  imports Reach
begin

text \<open>
  The specification of the cache model. A thread's two maps abstract to functions from byte
  addresses to the last write of that byte (\<open>mem_at\<close>): dirty writes and writes flushed but
  not fenced. A store makes the bytes of its range dirty, a flush moves exactly one cache
  line, a fence records every flushed write another thread could see and empties the map.
\<close>

section \<open>The byte view of a map\<close>

definition mem_at :: "mem_state_t \<Rightarrow> u64 \<Rightarrow> StoreData option" where
  "mem_at m a = map_of (sm_get [] m (CACHE_LINE a)) a"

lemma um_get_modify: "sm_get d (um_modify k d f m) k' = (if k' = k then f (sm_get d m k) else sm_get d m k')"
  by (simp add: sm_get_def)

lemma um_get_erase: "sm_get d (um_erase k m) k' = (if k' = k then d else sm_get d m k')"
  by (simp add: sm_get_def)

lemma mem_at_Nil [simp]: "mem_at [] a = None"
  by (simp add: mem_at_def sm_get_def)

lemma mem_at_store [simp]:
  "mem_at (um_modify (CACHE_LINE b) [] (um_insert b d) m) = (mem_at m)(b \<mapsto> d)"
  by (auto simp: mem_at_def um_get_modify fun_eq_iff)

lemma mem_at_touch [simp]: "mem_at (um_modify cl [] id m) = mem_at m"
  by (auto simp: mem_at_def um_get_modify fun_eq_iff)

lemma mem_at_remove [simp]:
  "mem_at (um_modify (CACHE_LINE b) [] (um_erase b) m) = (mem_at m)(b := None)"
  by (auto simp: mem_at_def um_get_modify fun_eq_iff)

lemma mem_at_erase_line: "mem_at (um_erase cl m) a = (if CACHE_LINE a = cl then None else mem_at m a)"
  by (simp add: mem_at_def um_get_erase)

lemma get_fold_insert:
  "distinct (map fst line) \<Longrightarrow>
   map_of (sm_get [] (flush_line cl line m) k) a =
     (if k = cl then (map_of (sm_get [] m cl) ++ map_of line) a else map_of (sm_get [] m k) a)"
proof -
  assume d: "distinct (map fst line)"
  have "sm_get [] (flush_line cl line m) k =
      (if k = cl then fold (\<lambda>e. um_insert (fst e) (snd e)) line (sm_get [] m cl) else sm_get [] m k)"
    unfolding flush_line_def by (induction line arbitrary: m) (auto simp: um_get_modify)
  then show ?thesis using um.lookup_fold_put [OF d] by simp
qed

lemma mem_at_flush_line:
  assumes "mem_ok th bh d"
  shows "mem_at (flush_line cl (sm_get [] d cl) f) a =
    (if CACHE_LINE a = cl \<and> mem_at d a \<noteq> None then mem_at d a else mem_at f a)"
proof -
  have "distinct (map fst (sm_get [] d cl))"
    using mem_ok_line [OF assms, of cl] by (simp add: line_ok_def um_wf_def)
  from get_fold_insert [OF this] show ?thesis
    by (auto simp: mem_at_def map_add_def split: option.splits)
qed

text \<open>The entries of the nested maps are the graph of the view.\<close>

lemma mem_entries_iff:
  assumes "mem_ok th bh m"
  shows "(a, d) \<in> set (mem_entries m) \<longleftrightarrow> mem_at m a = Some d"
proof -
  have "(a, d) \<in> set (mem_entries m) \<longleftrightarrow> (\<exists>cl line. (cl, line) \<in> set m \<and> (a, d) \<in> set line)"
    by (force simp: mem_entries_def)
  also have "\<dots> \<longleftrightarrow> (\<exists>line. (CACHE_LINE a, line) \<in> set m \<and> (a, d) \<in> set line)"
    using assms by (force simp: mem_ok_def line_ok_def)
  also have "\<dots> \<longleftrightarrow> (\<exists>line. map_of m (CACHE_LINE a) = Some line \<and> map_of line a = Some d)"
  proof -
    have wf: "um_wf m" and line: "\<And>k line. (k, line) \<in> set m \<Longrightarrow> um_wf line"
      using assms by (auto simp: mem_ok_def line_ok_def)
    show ?thesis using um.entry_iff [OF wf] um.entry_iff [OF line] by metis
  qed
  finally show ?thesis by (simp add: mem_at_def sm_get_def split: option.splits)
qed

lemma distinct_concat_keys:
  assumes "distinct (map fst m)" and "\<And>e. e \<in> set m \<Longrightarrow> distinct (map fst (snd e))"
    and "\<And>e x. e \<in> set m \<Longrightarrow> x \<in> set (snd e) \<Longrightarrow> h (fst x) = fst e"
  shows "distinct (map fst (concat (map snd m)))"
  using assms
proof (induction m)
  case (Cons e m)
  have "fst x \<noteq> fst y" if "x \<in> set (snd e)" "e' \<in> set m" "y \<in> set (snd e')" for x e' y
  proof -
    have "h (fst x) = fst e" "h (fst y) = fst e'" using Cons.prems(3) that by auto
    moreover have "fst e \<noteq> fst e'" using Cons.prems(1) that(2) by auto
    ultimately show ?thesis by metis
  qed
  moreover have "distinct (map fst (concat (map snd m)))"
    using Cons.IH Cons.prems by fastforce
  moreover have "distinct (map fst (snd e))" using Cons.prems(2) by simp
  ultimately show ?case by fastforce
qed simp

lemma distinct_mem_entries: "mem_ok th bh m \<Longrightarrow> distinct (map fst (mem_entries m))"
  unfolding mem_entries_def
  by (rule distinct_concat_keys [where h = CACHE_LINE]) (auto simp: mem_ok_def line_ok_def um_wf_def)

lemma ProcessFlush_view:
  fixes g tid
  defines "td \<equiv> get_thread_data g tid"
  assumes inv: "hawk_inv g" and td': "td' = get_thread_data (ProcessFlush tid t address g) tid"
  shows "mem_at (mem_state td') a = (if CACHE_LINE a = CACHE_LINE address then None else mem_at (mem_state td) a)"
    "mem_at (flushed_mem_state td') a =
       (if CACHE_LINE a = CACHE_LINE address \<and> mem_at (mem_state td) a \<noteq> None
        then mem_at (mem_state td) a else mem_at (flushed_mem_state td) a)"
proof -
  have ok: "mem_ok (tls_heap g) (bt_heap g) (mem_state td)"
    using hawk_inv_td [OF inv, of tid] by (simp add: td_def td_ok_def)
  have "mem_at (mem_state td') a = (if CACHE_LINE a = CACHE_LINE address then None else mem_at (mem_state td) a) \<and>
    mem_at (flushed_mem_state td') a =
       (if CACHE_LINE a = CACHE_LINE address \<and> mem_at (mem_state td) a \<noteq> None
        then mem_at (mem_state td) a else mem_at (flushed_mem_state td) a)"
  proof (cases "contains (mem_state td) (CACHE_LINE address)")
    case True
    then show ?thesis
      by (simp add: td' ProcessFlush_def Let_def mem_at_erase_line mem_at_flush_line [OF ok] flip: td_def)
  next
    case False
    then have "mem_at (mem_state td) a = None" if "CACHE_LINE a = CACHE_LINE address"
      using that by (simp add: contains_def mem_at_def)
    with False show ?thesis by (simp add: td' ProcessFlush_def Let_def td_def)
  qed
  then show "mem_at (mem_state td') a = (if CACHE_LINE a = CACHE_LINE address then None else mem_at (mem_state td) a)"
    "mem_at (flushed_mem_state td') a =
       (if CACHE_LINE a = CACHE_LINE address \<and> mem_at (mem_state td) a \<noteq> None
        then mem_at (mem_state td) a else mem_at (flushed_mem_state td) a)" by auto
qed

section \<open>The decision of the heuristic\<close>

text \<open>
  Within one handler a thread's own accesses do not change what the heuristic decides for
  it, so the decision is a function of the history before the handler.
\<close>

definition decides :: "u64 \<Rightarrow> (nat \<times> u64) list \<Rightarrow> nat \<Rightarrow> u64 \<Rightarrow> bool" where
  "decides n hist t a \<longleftrightarrow> n = 0 \<or> shared n hist t a"

definition irh_ready :: "u64 \<Rightarrow> (nat \<times> u64) list \<Rightarrow> nat \<Rightarrow> irh_state \<Rightarrow> bool" where
  "irh_ready n hist t st \<longleftrightarrow> n = 0 \<or> (irh_abs n hist st \<and> card (insert t (all_threads hist)) \<le> 64)"

lemma decides_own [simp]: "decides n (hist @ [(t, b)]) t a = decides n hist t a"
  by (simp add: decides_def shared_def accessors_snoc)

lemma decides_own_many [simp]: "decides n (hist @ replicate k (t, b)) t a = decides n hist t a"
proof (induction k arbitrary: hist)
  case (Suc k)
  show ?case using Suc [of "hist @ [(t, b)]"] by simp
qed simp

lemma HandleAccessByte_ready:
  assumes "irh_ready n hist t st"
  obtains st' hist' where "HandleAccessByte n t a st = Inr (decides n hist t a, st')"
    "irh_ready n hist' t st'" "\<And>b. decides n hist' t b = decides n hist t b"
proof (cases "n = 0")
  case True
  then show thesis by (intro that [of st hist]) (simp_all add: HandleAccessByte_def decides_def irh_ready_def)
next
  case False
  then have abs: "irh_abs n hist st" and few: "card (insert t (all_threads hist)) \<le> 64"
    using assms by (auto simp: irh_ready_def)
  obtain st' where st': "HandleAccessByte n t a st = Inr (shared n hist t a, st')" "irh_abs n (hist @ [(t, a)]) st'"
    using HandleAccessByte_sim [OF abs False few, of a] by blast
  show thesis
  proof (rule that [of st' "hist @ [(t, a)]"])
    show "decides n (hist @ [(t, a)]) t b = decides n hist t b" for b by simp
  qed (use st' few False in \<open>simp_all add: decides_def irh_ready_def insert_absorb2\<close>)
qed

lemma HandleAccess_ready:
  assumes "irh_ready n hist t st" "sz \<le> 64"
  obtains mask st' hist' where "HandleAccess n t a sz st = Inr (mask, st')"
    "\<And>i. bit mask i \<longleftrightarrow> i < unat sz \<and> decides n hist t a"
    "irh_ready n hist' t st'" "\<And>b. decides n hist' t b = decides n hist t b"
proof (cases "n = 0")
  case True
  obtain mask where "HandleAccess 0 t a sz st = Inr (mask, st)" "\<And>i. bit mask i \<longleftrightarrow> i < unat sz"
    using HandleAccess_off [OF assms(2), of t a st] by blast
  then show thesis using True by (intro that [of mask st hist]) (simp_all add: decides_def irh_ready_def)
next
  case False
  then have abs: "irh_abs n hist st" and few: "card (insert t (all_threads hist)) \<le> 64"
    using assms by (auto simp: irh_ready_def)
  obtain mask st' where st': "HandleAccess n t a sz st = Inr (mask, st')"
    "irh_abs n (hist @ replicate (unat sz) (t, a)) st'" "\<And>i. bit mask i \<longleftrightarrow> i < unat sz \<and> shared n hist t a"
    using HandleAccess_sim [OF abs False few assms(2), of a] by blast
  have "insert t (all_threads (hist @ replicate k (t, a))) = insert t (all_threads hist)" for k
    by (auto simp: all_threads_def)
  then show thesis
  proof (intro that [of mask st' "hist @ replicate (unat sz) (t, a)"])
    show "decides n (hist @ replicate (unat sz) (t, a)) t b = decides n hist t b" for b by simp
  qed (use st' few False in \<open>simp_all add: decides_def irh_ready_def\<close>)
qed

end
