(* ===== verification/HandlerSpec.thy ===== *)
theory HandlerSpec
  imports MemSpec
begin

text \<open>
  What the store, load and fence handlers do, as total functions of the state before: they
  succeed whenever the heuristic has a number for the thread and the access has at most 64
  bytes, they record exactly the accesses the heuristic lets through, and every record holds
  the backtrace, the clock index and the locks the definitions of the paper ask for.
\<close>

definition trace_is :: "backtrace_heap \<Rightarrow> backtrace_t \<Rightarrow> u64 list \<Rightarrow> bool" where
  "trace_is h b fs \<longleftrightarrow> (\<exists>p. b = Some p \<and> p < length (bt_objects h) \<and> frames_at h p = Frames fs)"

lemma trace_is_mono: "trace_is h b fs \<Longrightarrow> bt_extends h h' \<Longrightarrow> trace_is h' b fs"
  by (auto simp: trace_is_def bt_extends_def frames_at_def nth_append)

lemma trace_is_valid: "trace_is h b fs \<Longrightarrow> bt_valid h b \<and> b \<noteq> None"
  by (auto simp: trace_is_def bt_valid_def)

text \<open>The frames a handler of thread \<open>tid\<close> records: the instruction, then the shadow stack.\<close>

definition call_trace :: "hawk \<Rightarrow> nat \<Rightarrow> u64 \<Rightarrow> u64 list" where
  "call_trace g tid ctxt = ctxt # rev (stack (get_thread_data g tid))"

lemma hawk_GetBacktrace_trace:
  assumes "hawk_inv g" "hawk_GetBacktrace ctxt tid g = (b, g')"
  shows "trace_is (bt_heap g') b (call_trace g tid ctxt)"
  using hawk_GetBacktrace_spec [OF assms] by (auto simp: trace_is_def call_trace_def bt_valid_def)

lemma keeps_facts:
  assumes "keeps tid g g'"
  shows "hawk_inv g'" "stack (get_thread_data g' tid) = stack (get_thread_data g tid)"
    "call_trace g' tid ctxt = call_trace g tid ctxt"
    "use_init_removal_heuristic_n g' = use_init_removal_heuristic_n g"
    "current_clock_i (get_thread_data g' tid) = current_clock_i (get_thread_data g tid)"
    "check_unpersisted_stores g' = check_unpersisted_stores g"
    "trace_is (bt_heap g) b fs \<Longrightarrow> trace_is (bt_heap g') b fs"
    "tls_valid (tls_heap g) p \<Longrightarrow> timedlockset_at (tls_heap g') p = timedlockset_at (tls_heap g) p"
    "ls_valid (ls_heap g) q \<Longrightarrow> lockset_at (ls_heap g') q = lockset_at (ls_heap g) q"
    "tid' \<noteq> tid \<Longrightarrow> get_thread_data g' tid' = get_thread_data g tid'"
  using assms trace_is_mono tls_extends_at ls_extends_at
  by (auto simp: keeps_def mem_frame_def call_trace_def current_clock_i_def)

text \<open>
  A recorded store: \<open>d\<close> is the data of the write, \<open>lset\<close> the lockset when the write stopped
  being visible.
\<close>

definition store_record ::
  "hawk \<Rightarrow> nat \<Rightarrow> TimedLockset \<Rightarrow> u64 \<times> StoreData \<Rightarrow> bool \<Rightarrow> bool \<Rightarrow> StoreFenceData \<Rightarrow> bool" where
  "store_record g tid lset w pers flushed s \<longleftrightarrow>
     sfd_address s = fst w \<and> write_trace s = sd_backtrace (snd w) \<and>
     sfd_clock_i s = current_clock_i (get_thread_data g tid) \<and>
     persisted s = pers \<and> was_flushed s = flushed \<and> ls_valid (ls_heap g) (common_set s) \<and>
     members (lockset_at (ls_heap g) (common_set s)) =
       common_locks lset (timedlockset_at (tls_heap g) (timed_lockset (snd w)))"

lemma store_record_mono:
  assumes "store_record g tid lset w pers flushed s" "keeps tid g g'" "store_data_ok (tls_heap g) (bt_heap g) (snd w)"
  shows "store_record g' tid lset w pers flushed s"
  using assms keeps_facts(5,8,9) [OF assms(2)] keeps_valid(3) [OF assms(2)]
  by (simp add: store_record_def store_data_ok_def)

section \<open>Fences\<close>

lemma hawk_HandleAccessByte_ready:
  assumes "irh_ready (use_init_removal_heuristic_n g) hist tid (irh g)"
  obtains st hist' where
    "hawk_HandleAccessByte tid a g = Inr (decides (use_init_removal_heuristic_n g) hist tid a, g\<lparr>irh := st\<rparr>)"
    "irh_ready (use_init_removal_heuristic_n g) hist' tid st"
    "\<And>b. decides (use_init_removal_heuristic_n g) hist' tid b = decides (use_init_removal_heuristic_n g) hist tid b"
  by (rule HandleAccessByte_ready [OF assms, of a]) (auto simp: hawk_HandleAccessByte_def intro: that)

lemma fence_write_spec:
  fixes g tid hist
  defines "n \<equiv> use_init_removal_heuristic_n g"
  assumes inv: "hawk_inv g" and vc: "vector_clocks (get_thread_data g tid) \<noteq> []"
    and irh: "irh_ready n hist tid (irh g)" and p: "tls_valid (tls_heap g) p"
    and d: "store_data_ok (tls_heap g) (bt_heap g) (snd w)"
    and bt0: "bt0 = None \<or> trace_is (bt_heap g) bt0 (call_trace g tid ctxt)"
  obtains g' bt' hist' new where "fence_write tid ctxt p w (g, bt0) = Inr (g', bt')" "keeps tid g g'"
    "irh_ready n hist' tid (irh g')" "\<And>a. decides n hist' tid a = decides n hist tid a"
    "bt' = None \<or> trace_is (bt_heap g') bt' (call_trace g tid ctxt)"
    "get_thread_data g' tid = (get_thread_data g tid)\<lparr>race_likely_stores := race_likely_stores (get_thread_data g tid) @ new\<rparr>"
    "list_all2 (\<lambda>w s. store_record g' tid (timedlockset_at (tls_heap g) p) w True True s \<and>
        trace_is (bt_heap g') (fence_trace s) (call_trace g tid ctxt)) (if decides n hist tid (fst w) then [w] else []) new"
proof -
  obtain st hist' where 1: "hawk_HandleAccessByte tid (fst w) g = Inr (decides n hist tid (fst w), g\<lparr>irh := st\<rparr>)"
    and irh': "irh_ready n hist' tid st" "\<And>b. decides n hist' tid b = decides n hist tid b"
    using hawk_HandleAccessByte_ready irh unfolding n_def by blast
  let ?g1 = "g\<lparr>irh := st\<rparr>"
  have k1: "keeps tid g ?g1" by (rule keeps_HandleAccess(2) [OF inv 1])
  have inv1: "hawk_inv ?g1" using inv by simp
  show thesis
  proof (cases "decides n hist tid (fst w)")
    case False
    show thesis
    proof (rule that [of ?g1 bt0 hist' "[]"])
      show "fence_write tid ctxt p w (g, bt0) = Inr (?g1, bt0)"
        using 1 False by (simp add: fence_write_def)
    qed (use k1 irh' bt0 False in auto)
  next
    case True
    obtain bt g2 where 2: "(if bt0 = None then hawk_GetBacktrace ctxt tid ?g1 else (bt0, ?g1)) = (bt, g2)"
      by fastforce
    have g2: "keeps tid ?g1 g2" "trace_is (bt_heap g2) bt (call_trace g tid ctxt)"
      "ls_heap g2 = ls_heap g" "tls_heap g2 = tls_heap g" "analysis_data_tls g2 = analysis_data_tls g" "irh g2 = st"
      using 2 hawk_GetBacktrace_spec [OF inv1, of ctxt tid bt g2] keeps_GetBacktrace [OF inv1, of ctxt tid bt g2]
        hawk_GetBacktrace_trace [OF inv1, of ctxt tid bt g2] bt0 keeps_refl [OF inv1]
      by (auto simp: call_trace_def split: if_splits)
    obtain cs h where 3: "intersect_timedlockset p (timed_lockset (snd w)) (tls_heap g2) (ls_heap g2) = (cs, h)"
      by fastforce
    let ?s = "\<lparr>common_set = cs, sfd_clock_i = current_clock_i (get_thread_data g2 tid),
              write_trace = sd_backtrace (snd w), fence_trace = bt, sfd_address = fst w,
              persisted = True, was_flushed = True\<rparr>"
    let ?g' = "push_store tid ?s (g2\<lparr>ls_heap := h\<rparr>)"
    have run: "fence_write tid ctxt p w (g, bt0) = Inr (?g', bt)"
      using 1 2 3 True by (simp add: fence_write_def)
    have btv: "bt_valid (bt_heap g) bt0" using bt0 trace_is_valid by (auto simp: bt_valid_def)
    have k: "keeps tid g ?g'" by (rule fence_write_keeps(1) [OF inv vc btv p d run])
    have hw: "ls_heap_wf (ls_heap g2)" "tls_heap_wf (tls_heap g2)"
      using g2(1) by (auto simp: keeps_def hawk_inv_def)
    have v: "tls_valid (tls_heap g2) p" "tls_valid (tls_heap g2) (timed_lockset (snd w))"
      using p d g2(4) by (auto simp: store_data_ok_def)
    note isx = intersect_timedlockset_spec [OF hw v 3]
    show thesis
    proof (rule that [OF run k _ irh'(2)])
      show "irh_ready n hist' tid (irh ?g')" using irh' g2(6) by (simp add: push_store_def)
      show "bt = None \<or> trace_is (bt_heap ?g') bt (call_trace g tid ctxt)"
        using g2(2) by (simp add: push_store_def)
      show "get_thread_data ?g' tid = (get_thread_data g tid)\<lparr>race_likely_stores :=
          race_likely_stores (get_thread_data g tid) @ [?s]\<rparr>"
        using g2(5) by (simp add: push_store_def)
      show "list_all2 (\<lambda>w s. store_record ?g' tid (timedlockset_at (tls_heap g) p) w True True s \<and>
          trace_is (bt_heap ?g') (fence_trace s) (call_trace g tid ctxt))
          (if decides n hist tid (fst w) then [w] else []) [?s]"
        using True isx g2 by (simp add: store_record_def push_store_def current_clock_i_def)
    qed
  qed
qed

lemma fence_loop_spec:
  assumes "hawk_inv g" "vector_clocks (get_thread_data g tid) \<noteq> []"
    and "irh_ready (use_init_removal_heuristic_n g) hist tid (irh g)" and "tls_valid (tls_heap g) p"
    and "\<And>w. w \<in> set ws \<Longrightarrow> store_data_ok (tls_heap g) (bt_heap g) (snd w)"
    and "bt0 = None \<or> trace_is (bt_heap g) bt0 (call_trace g tid ctxt)"
  shows "\<exists>g' bt' new. foldE (fence_write tid ctxt p) ws (g, bt0) = Inr (g', bt') \<and> keeps tid g g' \<and>
    get_thread_data g' tid =
      (get_thread_data g tid)\<lparr>race_likely_stores := race_likely_stores (get_thread_data g tid) @ new\<rparr> \<and>
    list_all2 (\<lambda>w s. store_record g' tid (timedlockset_at (tls_heap g) p) w True True s \<and>
        trace_is (bt_heap g') (fence_trace s) (call_trace g tid ctxt))
      (filter (\<lambda>w. decides (use_init_removal_heuristic_n g) hist tid (fst w)) ws) new"
  using assms
proof (induction ws arbitrary: g bt0 hist)
  case Nil
  then show ?case by (intro exI [of _ g] exI [of _ bt0] exI [of _ "[]"]) (simp add: keeps_refl)
next
  case (Cons w ws)
  let ?n = "use_init_removal_heuristic_n g"
  let ?P = "\<lambda>g' w s. store_record g' tid (timedlockset_at (tls_heap g) p) w True True s \<and>
        trace_is (bt_heap g') (fence_trace s) (call_trace g tid ctxt)"
  obtain g1 bt1 hist1 new1 where 1: "fence_write tid ctxt p w (g, bt0) = Inr (g1, bt1)" "keeps tid g g1"
    "irh_ready ?n hist1 tid (irh g1)" "\<And>a. decides ?n hist1 tid a = decides ?n hist tid a"
    "bt1 = None \<or> trace_is (bt_heap g1) bt1 (call_trace g tid ctxt)"
    "get_thread_data g1 tid = (get_thread_data g tid)\<lparr>race_likely_stores := race_likely_stores (get_thread_data g tid) @ new1\<rparr>"
    "list_all2 (?P g1) (if decides ?n hist tid (fst w) then [w] else []) new1"
    by (rule fence_write_spec [OF Cons.prems(1,2,3,4) Cons.prems(5) [OF list.set_intros(1)] Cons.prems(6)], rule that)
  note f = keeps_facts [OF 1(2)]
  have ok: "store_data_ok (tls_heap g1) (bt_heap g1) (snd x)" if "x \<in> set (w # ws)" for x
    using keeps_valid(4) [OF 1(2) Cons.prems(5)] that by auto
  have irh1: "irh_ready (use_init_removal_heuristic_n g1) hist1 tid (irh g1)" using 1(3) f(4) by simp
  have bt1: "bt1 = None \<or> trace_is (bt_heap g1) bt1 (call_trace g1 tid ctxt)" using 1(5) f(3) by simp
  note r = keeps_ready [OF 1(2) Cons.prems(2)]
  obtain g' bt' new where 2: "foldE (fence_write tid ctxt p) ws (g1, bt1) = Inr (g', bt')" "keeps tid g1 g'"
    "get_thread_data g' tid = (get_thread_data g1 tid)\<lparr>race_likely_stores := race_likely_stores (get_thread_data g1 tid) @ new\<rparr>"
    "list_all2 (?P g') (filter (\<lambda>w. decides ?n hist tid (fst w)) ws) new"
    using Cons.IH [OF conjunct1 [OF r] conjunct2 [OF r] irh1 keeps_valid(1) [OF 1(2) Cons.prems(4)] ok bt1]
    unfolding f(3,4) f(8) [OF Cons.prems(4)] 1(4) by auto
  have new1: "list_all2 (?P g') (if decides ?n hist tid (fst w) then [w] else []) new1"
    using 1(7) store_record_mono [OF _ 2(2) ok [of w]] keeps_facts(7) [OF 2(2)]
    by (cases "decides ?n hist tid (fst w)") (auto simp: list_all2_Cons1)
  have all: "list_all2 (?P g') (filter (\<lambda>w. decides ?n hist tid (fst w)) (w # ws)) (new1 @ new)"
    using list_all2_appendI [OF new1 2(4)] by (simp split: if_splits)
  show ?case
    by (intro exI [of _ g'] exI [of _ bt'] exI [of _ "new1 @ new"] conjI all keeps_trans [OF 1(2) 2(2)])
       (use 1(1,6) 2(1,3) in simp_all)
qed

text \<open>The fence of a thread, without the store part of a read-modify-write.\<close>

lemma ProcessFence_spec:
  fixes g tid
  defines "n \<equiv> use_init_removal_heuristic_n g" and "td \<equiv> get_thread_data g tid"
  assumes inv: "hawk_inv g" and vc: "vector_clocks td \<noteq> []" and irh: "irh_ready n hist tid (irh g)"
  obtains g' new where "ProcessFence tid False ctxt a sz g = Inr g'" "keeps tid g g'"
    "flushed_mem_state (get_thread_data g' tid) = []" "mem_state (get_thread_data g' tid) = mem_state td"
    "race_likely_stores (get_thread_data g' tid) = race_likely_stores td @ new"
    "list_all2 (\<lambda>w s. store_record g' tid (current_timedlockset td) w True True s \<and>
        trace_is (bt_heap g') (fence_trace s) (call_trace g tid ctxt))
      (filter (\<lambda>w. decides n hist tid (fst w)) (mem_entries (flushed_mem_state td))) new"
proof -
  obtain p g2 where 2: "get_timedlockset tid g = (p, g2)" by fastforce
  note t = get_timedlockset_spec [OF inv 2]
  have k2: "keeps tid g g2" by (rule keeps_get_timedlockset [OF inv 2])
  note f = keeps_facts [OF k2]
  let ?mem = "flushed_mem_state td"
  have mem2: "flushed_mem_state (get_thread_data g2 tid) = ?mem" "mem_state (get_thread_data g2 tid) = mem_state td"
    "race_likely_stores (get_thread_data g2 tid) = race_likely_stores td"
    using t(5) by (auto simp: td_def)
  have ok: "store_data_ok (tls_heap g2) (bt_heap g2) (snd w)" if "w \<in> set (mem_entries ?mem)" for w
    using hawk_inv_td [OF f(1), of tid] mem_entries_ok [of _ _ ?mem w] that mem2(1) by (simp add: td_ok_def)
  obtain g3 bt new where 3: "foldE (fence_write tid ctxt p) (mem_entries ?mem) (g2, None) = Inr (g3, bt)"
    "keeps tid g2 g3"
    "get_thread_data g3 tid = (get_thread_data g2 tid)\<lparr>race_likely_stores := race_likely_stores (get_thread_data g2 tid) @ new\<rparr>"
    "list_all2 (\<lambda>w s. store_record g3 tid (timedlockset_at (tls_heap g2) p) w True True s \<and>
        trace_is (bt_heap g3) (fence_trace s) (call_trace g2 tid ctxt)) (filter (\<lambda>w. decides n hist tid (fst w)) (mem_entries ?mem)) new"
  proof -
    have v: "vector_clocks (get_thread_data g2 tid) \<noteq> []" using vc keeps_clocks [OF k2] by (simp add: td_def)
    have i: "irh_ready (use_init_removal_heuristic_n g2) hist tid (irh g2)"
      using irh f(4) t(8) by (simp add: n_def)
    show thesis
      using fence_loop_spec [OF f(1) v i t(3) ok, of "mem_entries ?mem" None ctxt] that f(4) by (auto simp: n_def)
  qed
  let ?g' = "update_thread tid (\<lambda>td. td\<lparr>flushed_mem_state := []\<rparr>) g3"
  have run: "ProcessFence tid False ctxt a sz g = Inr (if ?mem = [] then g2 else ?g')"
    using 2 3(1) mem2(1) by (simp add: ProcessFence_def Let_def foldE_nested mem_entries_def)
  have k: "keeps tid g (if ?mem = [] then g2 else ?g')"
    by (rule ProcessFence_keeps [OF inv _ run]) (use vc in \<open>simp add: td_def\<close>)
  have empty: "new = []" if "?mem = []" using 3(4) that by (simp add: mem_entries_def)
  have rec: "store_record ?g' tid l w b c s = store_record g3 tid l w b c s" for l w b c s
    by (simp add: store_record_def current_clock_i_def)
  show thesis
  proof (rule that [OF run k])
    show "list_all2 (\<lambda>w s. store_record (if ?mem = [] then g2 else ?g') tid (current_timedlockset td) w True True s \<and>
        trace_is (bt_heap (if ?mem = [] then g2 else ?g')) (fence_trace s) (call_trace g tid ctxt))
      (filter (\<lambda>w. decides n hist tid (fst w)) (mem_entries ?mem)) new"
      using 3(4) t(4) f(3) empty by (simp add: rec td_def mem_entries_def)
  qed (use 3(3) mem2 empty in auto)
qed

section \<open>Stores\<close>

lemma RegisterUnpersistedStore_spec:
  fixes g tid
  defines "n \<equiv> use_init_removal_heuristic_n g" and "td \<equiv> get_thread_data g tid"
  assumes inv: "hawk_inv g" and vc: "vector_clocks td \<noteq> []" and irh: "irh_ready n hist tid (irh g)"
    and d: "store_data_ok (tls_heap g) (bt_heap g) d" and ls: "tls_valid (tls_heap g) ls"
    and tr: "bt_valid (bt_heap g) tr"
  shows "\<exists>g' hist' new. RegisterUnpersistedStore tid a d ls tr fl g = Inr g' \<and> keeps tid g g' \<and>
    irh_ready n hist' tid (irh g') \<and> (\<forall>b. decides n hist' tid b = decides n hist tid b) \<and>
    get_thread_data g' tid = td\<lparr>race_likely_stores := race_likely_stores td @ new\<rparr> \<and>
    list_all2 (\<lambda>w s. store_record g' tid (timedlockset_at (tls_heap g) ls) w False fl s \<and> fence_trace s = tr)
      (if decides n hist tid a then [(a, d)] else []) new"
proof -
  obtain st hist' where 1: "hawk_HandleAccessByte tid a g = Inr (decides n hist tid a, g\<lparr>irh := st\<rparr>)"
    and irh': "irh_ready n hist' tid st" "\<And>b. decides n hist' tid b = decides n hist tid b"
    using hawk_HandleAccessByte_ready irh unfolding n_def by blast
  let ?g1 = "g\<lparr>irh := st\<rparr>"
  have k1: "keeps tid g ?g1" by (rule keeps_HandleAccess(2) [OF inv 1])
  show ?thesis
  proof (cases "decides n hist tid a")
    case False
    have "RegisterUnpersistedStore tid a d ls tr fl g = Inr ?g1"
      using 1 False by (simp add: RegisterUnpersistedStore_def)
    then show ?thesis
      using k1 irh' False by (intro exI [of _ ?g1] exI [of _ hist'] exI [of _ "[]"]) (simp add: td_def)
  next
    case True
    obtain cs h where 2: "intersect_timedlockset ls (timed_lockset d) (tls_heap g) (ls_heap g) = (cs, h)"
      by fastforce
    let ?s = "\<lparr>common_set = cs, sfd_clock_i = current_clock_i (get_thread_data ?g1 tid),
            write_trace = sd_backtrace d, fence_trace = tr, sfd_address = a,
            persisted = False, was_flushed = fl\<rparr>"
    let ?g' = "push_store tid ?s (?g1\<lparr>ls_heap := h\<rparr>)"
    have run: "RegisterUnpersistedStore tid a d ls tr fl g = Inr ?g'"
      using 1 2 True by (simp add: RegisterUnpersistedStore_def)
    have k: "keeps tid g ?g'"
      by (rule RegisterUnpersistedStore_keeps(1) [OF inv vc [unfolded td_def] d ls tr run])
    have hw: "ls_heap_wf (ls_heap g)" "tls_heap_wf (tls_heap g)" using inv by (auto simp: hawk_inv_def)
    have v: "tls_valid (tls_heap g) (timed_lockset d)" using d by (simp add: store_data_ok_def)
    note isx = intersect_timedlockset_spec [OF hw ls v 2]
    show ?thesis
      by (intro exI [of _ ?g'] exI [of _ hist'] exI [of _ "[?s]"] conjI run k)
         (use irh' True isx in \<open>simp_all add: push_store_def td_def store_record_def current_clock_i_def\<close>)
  qed
qed

definition mem_entry :: "mem_state_t \<Rightarrow> u64 \<Rightarrow> (u64 \<times> StoreData) list" where
  "mem_entry m b = (case mem_at m b of None \<Rightarrow> [] | Some d \<Rightarrow> [(b, d)])"

lemma mem_entry_ok:
  "mem_ok th bh m \<Longrightarrow> w \<in> set (mem_entry m b) \<Longrightarrow> store_data_ok th bh (snd w)"
  using mem_entries_iff [of th bh m "fst w" "snd w"] mem_entries_ok [of th bh m w]
  by (auto simp: mem_entry_def split: option.splits)

fun other_mem :: "MemState \<Rightarrow> MemState" where
  "other_mem DIRTY = FLUSHED"
| "other_mem FLUSHED = DIRTY"

lemma mem_of_set [simp]:
  "mem_of m (set_mem_of m s td) = s" "mem_of (other_mem m) (set_mem_of m s td) = mem_of (other_mem m) td"
  "race_likely_stores (set_mem_of m s td) = race_likely_stores td"
  "mem_of m (td\<lparr>race_likely_stores := x\<rparr>) = mem_of m td"
  by (cases m; simp add: mem_of_def set_mem_of_def)+

lemma CheckOverwrite_spec:
  fixes g tid
  defines "n \<equiv> use_init_removal_heuristic_n g" and "td \<equiv> get_thread_data g tid"
  assumes inv: "hawk_inv g" and vc: "vector_clocks td \<noteq> []" and irh: "irh_ready n hist tid (irh g)"
    and ls: "tls_valid (tls_heap g) ls" and tr: "bt_valid (bt_heap g) tr"
  shows "\<exists>g' hist' new. CheckOverwrite tid b m ls tr fl g = Inr g' \<and> keeps tid g g' \<and>
    irh_ready n hist' tid (irh g') \<and> (\<forall>a. decides n hist' tid a = decides n hist tid a) \<and>
    mem_at (mem_of m (get_thread_data g' tid)) = (mem_at (mem_of m td))(b := None) \<and>
    mem_of (other_mem m) (get_thread_data g' tid) = mem_of (other_mem m) td \<and>
    race_likely_stores (get_thread_data g' tid) = race_likely_stores td @ new \<and>
    list_all2 (\<lambda>w s. store_record g' tid (timedlockset_at (tls_heap g) ls) w False fl s \<and> fence_trace s = tr)
      (filter (\<lambda>w. decides n hist tid (fst w)) (mem_entry (mem_of m td) b)) new"
proof -
  let ?cl = "CACHE_LINE b"
  let ?g1 = "update_thread tid (\<lambda>td. set_mem_of m (um_modify ?cl [] id (mem_of m td)) td) g"
  have at: "map_of (sm_get [] (mem_of m td) ?cl) b = mem_at (mem_of m td) b" by (simp add: mem_at_def)
  have k1: "keeps tid g ?g1" by (rule keeps_set_mem_of [OF inv]) simp
  then have inv1: "hawk_inv ?g1" by (simp add: keeps_def)
  show ?thesis
  proof (cases "mem_at (mem_of m td) b")
    case None
    then have run: "CheckOverwrite tid b m ls tr fl g = Inr ?g1"
      using at by (simp add: CheckOverwrite_def Let_def td_def)
    have "(mem_at (mem_of m td))(b := None) = mem_at (mem_of m td)" using None by (simp add: fun_upd_idem)
    then show ?thesis
      by (intro exI [of _ ?g1] exI [of _ hist] exI [of _ "[]"] conjI run k1)
         (use irh None in \<open>simp_all add: td_def mem_entry_def\<close>)
  next
    case (Some d)
    have mok: "mem_ok (tls_heap g) (bt_heap g) (mem_of m td)"
      using hawk_inv_td [OF inv] unfolding td_def by (intro mem_of_ok)
    have d: "store_data_ok (tls_heap ?g1) (bt_heap ?g1) d"
      using mem_entry_ok [OF mok, of "(b, d)" b] Some by (simp add: mem_entry_def)
    obtain g2 hist' new where 2: "RegisterUnpersistedStore tid b d ls tr fl ?g1 = Inr g2" "keeps tid ?g1 g2"
      "irh_ready n hist' tid (irh g2)" "\<And>a. decides n hist' tid a = decides n hist tid a"
      "get_thread_data g2 tid = (get_thread_data ?g1 tid)\<lparr>race_likely_stores := race_likely_stores (get_thread_data ?g1 tid) @ new\<rparr>"
      "list_all2 (\<lambda>w s. store_record g2 tid (timedlockset_at (tls_heap g) ls) w False fl s \<and> fence_trace s = tr)
        (if decides n hist tid b then [(b, d)] else []) new"
      using RegisterUnpersistedStore_spec [OF inv1, of tid hist d ls tr b fl] vc irh d ls tr
      by (auto simp: n_def td_def)
    let ?g' = "update_thread tid (\<lambda>td. set_mem_of m (um_modify ?cl [] (um_erase b) (mem_of m td)) td) g2"
    have run: "CheckOverwrite tid b m ls tr fl g = Inr ?g'"
      using at Some 2(1) by (simp add: CheckOverwrite_def Let_def td_def)
    have k: "keeps tid g ?g'"
      by (rule CheckOverwrite_keeps(1) [OF inv vc [unfolded td_def] ls tr run])
    have rec: "store_record ?g' tid l w x c s = store_record g2 tid l w x c s" for l w x c s
      by (simp add: store_record_def current_clock_i_def)
    show ?thesis
      by (intro exI [of _ ?g'] exI [of _ hist'] exI [of _ new] conjI run k)
         (use 2 Some in \<open>simp_all add: td_def mem_entry_def rec split: if_splits\<close>)
  qed
qed

text \<open>The writes byte \<open>b\<close> overwrites, with the flag telling dirty from flushed ones.\<close>

definition overwritten :: "ThreadData \<Rightarrow> u64 \<Rightarrow> ((u64 \<times> StoreData) \<times> bool) list" where
  "overwritten td b = map (\<lambda>w. (w, False)) (mem_entry (mem_state td) b) @
                      map (\<lambda>w. (w, True)) (mem_entry (flushed_mem_state td) b)"

definition overwrite_record ::
  "hawk \<Rightarrow> nat \<Rightarrow> TimedLockset \<Rightarrow> backtrace_t \<Rightarrow> (u64 \<times> StoreData) \<times> bool \<Rightarrow> StoreFenceData \<Rightarrow> bool" where
  "overwrite_record g tid lset tr w s \<longleftrightarrow>
     store_record g tid lset (fst w) False (snd w) s \<and> fence_trace s = tr"

lemma filter_map_pair: "filter (\<lambda>w. P (fst (fst w))) (map (\<lambda>w. (w, c)) xs) = map (\<lambda>w. (w, c)) (filter (\<lambda>w. P (fst w)) xs)"
  by (induction xs) auto

lemma store_byte_spec:
  fixes g tid
  defines "n \<equiv> use_init_removal_heuristic_n g" and "td \<equiv> get_thread_data g tid"
  assumes inv: "hawk_inv g" and vc: "vector_clocks td \<noteq> []" and irh: "irh_ready n hist tid (irh g)"
    and data: "store_data_ok (tls_heap g) (bt_heap g) data"
  shows "\<exists>g' hist' new. store_byte tid data b g = Inr g' \<and> keeps tid g g' \<and>
    irh_ready n hist' tid (irh g') \<and> (\<forall>a. decides n hist' tid a = decides n hist tid a) \<and>
    mem_at (mem_state (get_thread_data g' tid)) = (mem_at (mem_state td))(b \<mapsto> data) \<and>
    mem_at (flushed_mem_state (get_thread_data g' tid)) =
      (if check_unpersisted_stores g then (mem_at (flushed_mem_state td))(b := None) else mem_at (flushed_mem_state td)) \<and>
    race_likely_stores (get_thread_data g' tid) = race_likely_stores td @ new \<and>
    list_all2 (overwrite_record g' tid (timedlockset_at (tls_heap g) (timed_lockset data)) (sd_backtrace data))
      (filter (\<lambda>w. decides n hist tid (fst (fst w))) (if check_unpersisted_stores g then overwritten td b else [])) new"
proof (cases "check_unpersisted_stores g")
  case False
  let ?g' = "update_thread tid (\<lambda>td. td\<lparr>mem_state := um_modify (CACHE_LINE b) [] (um_insert b data) (mem_state td)\<rparr>) g"
  have run: "store_byte tid data b g = Inr ?g'" using False by (simp add: store_byte_def)
  have k: "keeps tid g ?g'" by (rule store_byte_keeps [OF inv vc [unfolded td_def] data run])
  show ?thesis
    by (intro exI [of _ ?g'] exI [of _ hist] exI [of _ "[]"] conjI run k)
       (use irh False in \<open>simp_all add: td_def\<close>)
next
  case True
  let ?ls = "timed_lockset data" and ?tr = "sd_backtrace data"
  have v: "tls_valid (tls_heap g) ?ls" "bt_valid (bt_heap g) ?tr" using data by (auto simp: store_data_ok_def)
  obtain g1 hist1 new1 where 1: "CheckOverwrite tid b DIRTY ?ls ?tr False g = Inr g1" "keeps tid g g1"
    "irh_ready n hist1 tid (irh g1)" "\<And>a. decides n hist1 tid a = decides n hist tid a"
    "mem_at (mem_of DIRTY (get_thread_data g1 tid)) = (mem_at (mem_of DIRTY td))(b := None)"
    "mem_of (other_mem DIRTY) (get_thread_data g1 tid) = mem_of (other_mem DIRTY) td"
    "race_likely_stores (get_thread_data g1 tid) = race_likely_stores td @ new1"
    "list_all2 (\<lambda>w s. store_record g1 tid (timedlockset_at (tls_heap g) ?ls) w False False s \<and> fence_trace s = ?tr)
      (filter (\<lambda>w. decides n hist tid (fst w)) (mem_entry (mem_of DIRTY td) b)) new1"
    using CheckOverwrite_spec [OF inv vc [unfolded td_def] irh [unfolded n_def] v, of b DIRTY False]
    unfolding n_def td_def by auto
  note f = keeps_facts [OF 1(2)]
  have vc1: "vector_clocks (get_thread_data g1 tid) \<noteq> []" using vc keeps_clocks [OF 1(2)] by (simp add: td_def)
  have irh1: "irh_ready (use_init_removal_heuristic_n g1) hist1 tid (irh g1)" using 1(3) f(4) by (simp add: n_def)
  obtain g2 hist2 new2 where 2: "CheckOverwrite tid b FLUSHED ?ls ?tr True g1 = Inr g2" "keeps tid g1 g2"
    "irh_ready n hist2 tid (irh g2)" "\<And>a. decides n hist2 tid a = decides n hist tid a"
    "mem_at (mem_of FLUSHED (get_thread_data g2 tid)) = (mem_at (mem_of FLUSHED (get_thread_data g1 tid)))(b := None)"
    "mem_of (other_mem FLUSHED) (get_thread_data g2 tid) = mem_of (other_mem FLUSHED) (get_thread_data g1 tid)"
    "race_likely_stores (get_thread_data g2 tid) = race_likely_stores (get_thread_data g1 tid) @ new2"
    "list_all2 (\<lambda>w s. store_record g2 tid (timedlockset_at (tls_heap g1) ?ls) w False True s \<and> fence_trace s = ?tr)
      (filter (\<lambda>w. decides n hist tid (fst w)) (mem_entry (mem_of FLUSHED (get_thread_data g1 tid)) b)) new2"
    using CheckOverwrite_spec [OF f(1) vc1 irh1 keeps_valid(1,2) [OF 1(2)], OF v, of b FLUSHED True]
    unfolding f(4) n_def [symmetric] 1(4) by auto
  let ?g' = "update_thread tid (\<lambda>td. td\<lparr>mem_state := um_modify (CACHE_LINE b) [] (um_insert b data) (mem_state td)\<rparr>) g2"
  have run: "store_byte tid data b g = Inr ?g'" using True 1(1) 2(1) by (simp add: store_byte_def)
  have k: "keeps tid g ?g'" by (rule store_byte_keeps [OF inv vc [unfolded td_def] data run])
  have rec: "store_record ?g' tid l w x c s = store_record g2 tid l w x c s" for l w x c s
    by (simp add: store_record_def current_clock_i_def)
  have mok: "mem_ok (tls_heap g) (bt_heap g) (mem_state td)"
    using hawk_inv_td [OF inv, of tid] by (simp add: td_def td_ok_def)
  let ?l = "timedlockset_at (tls_heap g) ?ls"
  have new1: "list_all2 (\<lambda>w s. store_record g2 tid ?l w False False s \<and> fence_trace s = ?tr)
      (filter (\<lambda>w. decides n hist tid (fst w)) (mem_entry (mem_state td) b)) new1"
    using 1(8) unfolding mem_of_def MemState.case
    by (rule list.rel_mono_strong)
       (use store_record_mono [OF _ 2(2)] keeps_valid(4) [OF 1(2) mem_entry_ok [OF mok]] in auto)
  have "list_all2 (overwrite_record ?g' tid ?l ?tr)
      (filter (\<lambda>w. decides n hist tid (fst (fst w))) (overwritten td b)) (new1 @ new2)"
    unfolding overwritten_def filter_append filter_map_pair
    using new1 2(8) 1(6) f(8) [OF v(1)]
    by (intro list_all2_appendI) (simp_all add: list_all2_map1 overwrite_record_def rec mem_of_def)
  then show ?thesis
    by (intro exI [of _ ?g'] exI [of _ hist2] exI [of _ "new1 @ new2"] conjI run k)
       (use 1 2 True in \<open>simp_all add: mem_of_def\<close>)
qed

lemma overwritten_cong:
  "mem_at (mem_state td') b = mem_at (mem_state td) b \<Longrightarrow>
   mem_at (flushed_mem_state td') b = mem_at (flushed_mem_state td) b \<Longrightarrow> overwritten td' b = overwritten td b"
  by (simp add: overwritten_def mem_entry_def)

lemma store_loop_spec:
  assumes "hawk_inv g" "vector_clocks (get_thread_data g tid) \<noteq> []"
    and "irh_ready (use_init_removal_heuristic_n g) hist tid (irh g)"
    and "store_data_ok (tls_heap g) (bt_heap g) data" and "distinct bs"
  shows "\<exists>g' new. foldE (store_byte tid data) bs g = Inr g' \<and> keeps tid g g' \<and>
    (\<forall>a. mem_at (mem_state (get_thread_data g' tid)) a =
       (if a \<in> set bs then Some data else mem_at (mem_state (get_thread_data g tid)) a)) \<and>
    (\<forall>a. mem_at (flushed_mem_state (get_thread_data g' tid)) a =
       (if check_unpersisted_stores g \<and> a \<in> set bs then None
        else mem_at (flushed_mem_state (get_thread_data g tid)) a)) \<and>
    race_likely_stores (get_thread_data g' tid) = race_likely_stores (get_thread_data g tid) @ new \<and>
    list_all2 (overwrite_record g' tid (timedlockset_at (tls_heap g) (timed_lockset data)) (sd_backtrace data))
      (filter (\<lambda>w. decides (use_init_removal_heuristic_n g) hist tid (fst (fst w)))
        (if check_unpersisted_stores g then concat (map (overwritten (get_thread_data g tid)) bs) else [])) new"
  using assms
proof (induction bs arbitrary: g hist)
  case Nil
  then show ?case by (intro exI [of _ g] exI [of _ "[]"]) (simp add: keeps_refl)
next
  case (Cons b bs)
  let ?n = "use_init_removal_heuristic_n g" and ?td = "get_thread_data g tid"
  let ?l = "timedlockset_at (tls_heap g) (timed_lockset data)" and ?tr = "sd_backtrace data"
  let ?D = "filter (\<lambda>w. decides ?n hist tid (fst (fst w)))"
  obtain g1 hist1 new1 where 1: "store_byte tid data b g = Inr g1" "keeps tid g g1"
    "irh_ready ?n hist1 tid (irh g1)" "\<And>a. decides ?n hist1 tid a = decides ?n hist tid a"
    "mem_at (mem_state (get_thread_data g1 tid)) = (mem_at (mem_state ?td))(b \<mapsto> data)"
    "mem_at (flushed_mem_state (get_thread_data g1 tid)) =
      (if check_unpersisted_stores g then (mem_at (flushed_mem_state ?td))(b := None) else mem_at (flushed_mem_state ?td))"
    "race_likely_stores (get_thread_data g1 tid) = race_likely_stores ?td @ new1"
    "list_all2 (overwrite_record g1 tid ?l ?tr) (?D (if check_unpersisted_stores g then overwritten ?td b else [])) new1"
    using store_byte_spec [OF Cons.prems(1-4), of b] by auto
  note f = keeps_facts [OF 1(2)] and r = keeps_ready [OF 1(2) Cons.prems(2)]
  have data1: "store_data_ok (tls_heap g1) (bt_heap g1) data" by (rule keeps_valid(4) [OF 1(2) Cons.prems(4)])
  have ls: "tls_valid (tls_heap g) (timed_lockset data)" using Cons.prems(4) by (simp add: store_data_ok_def)
  have irh1: "irh_ready (use_init_removal_heuristic_n g1) hist1 tid (irh g1)" using 1(3) f(4) by simp
  have same: "overwritten (get_thread_data g1 tid) a = overwritten ?td a" if "a \<in> set bs" for a
    using that Cons.prems(5) 1(5,6) by (intro overwritten_cong) auto
  obtain g' new where 2: "foldE (store_byte tid data) bs g1 = Inr g'" "keeps tid g1 g'"
    "\<And>a. mem_at (mem_state (get_thread_data g' tid)) a =
       (if a \<in> set bs then Some data else mem_at (mem_state (get_thread_data g1 tid)) a)"
    "\<And>a. mem_at (flushed_mem_state (get_thread_data g' tid)) a =
       (if check_unpersisted_stores g1 \<and> a \<in> set bs then None
        else mem_at (flushed_mem_state (get_thread_data g1 tid)) a)"
    "race_likely_stores (get_thread_data g' tid) = race_likely_stores (get_thread_data g1 tid) @ new"
    "list_all2 (overwrite_record g' tid ?l ?tr)
      (?D (if check_unpersisted_stores g then concat (map (overwritten ?td) bs) else [])) new"
  proof -
    have d: "distinct bs" using Cons.prems(5) by simp
    have map: "map (overwritten (get_thread_data g1 tid)) bs = map (overwritten ?td) bs" using same by simp
    show thesis
      using Cons.IH [OF conjunct1 [OF r] conjunct2 [OF r] irh1 data1 d] that
      unfolding f(4) f(6) f(8) [OF ls] 1(4) map by auto
  qed
  have mok: "mem_ok (tls_heap g) (bt_heap g) (mem_state ?td)" "mem_ok (tls_heap g) (bt_heap g) (flushed_mem_state ?td)"
    using hawk_inv_td [OF Cons.prems(1), of tid] by (simp_all add: td_ok_def)
  have ok: "store_data_ok (tls_heap g1) (bt_heap g1) (snd (fst w))" if "w \<in> set (overwritten ?td b)" for w
    using that mem_entry_ok [OF mok(1)] mem_entry_ok [OF mok(2)] keeps_valid(4) [OF 1(2)]
    by (auto simp: overwritten_def)
  have new1: "list_all2 (overwrite_record g' tid ?l ?tr) (?D (if check_unpersisted_stores g then overwritten ?td b else [])) new1"
    using 1(8)
  proof (rule list.rel_mono_strong)
    fix w s assume "w \<in> set (?D (if check_unpersisted_stores g then overwritten ?td b else []))"
      "overwrite_record g1 tid ?l ?tr w s"
    then show "overwrite_record g' tid ?l ?tr w s"
      using store_record_mono [OF _ 2(2) ok] by (auto simp: overwrite_record_def split: if_splits)
  qed
  show ?case
    by (intro exI [of _ g'] exI [of _ "new1 @ new"] conjI keeps_trans [OF 1(2) 2(2)])
       (use 1(1,5,6,7) 2(1,3,4,5) f(6) list_all2_appendI [OF new1 2(6)] in \<open>auto split: if_splits\<close>)
qed

lemma distinct_byte_range: "distinct (byte_range address sz)"
proof -
  let ?k = "unat (address + ucast sz) - unat address"
  have k: "?k < 2 ^ 64" using unsigned_less [of "address + ucast sz", where ?'a = nat] by simp
  have "inj_on (\<lambda>i. address + of_nat i) {0..<?k}"
  proof (rule inj_onI)
    fix i j assume ij: "i \<in> {0..<?k}" "j \<in> {0..<?k}" "address + of_nat i = address + of_nat j"
    show "i = j"
      by (rule of_nat_inj_bounded [where 'a = 64]) (use k ij in simp_all)
  qed
  then show ?thesis by (simp add: byte_range_def distinct_map)
qed

lemma mem_byte_range:
  assumes "unat address + unat sz < 2 ^ 64"
  shows "a \<in> set (byte_range address sz) \<longleftrightarrow> unat address \<le> unat a \<and> unat a < unat address + unat sz"
proof -
  have "unat (ucast sz :: u64) = unat sz"
    using unsigned_less [of sz, where ?'a = nat] by (simp add: unat_ucast_mod)
  then have s: "unat (address + ucast sz) = unat address + unat sz"
    using assms by (simp add: unat_plus_no_wrap)
  have "a \<in> set (byte_range address sz) \<longleftrightarrow> (\<exists>i<unat sz. a = address + of_nat i)"
    by (auto simp: byte_range_def s)
  also have "\<dots> \<longleftrightarrow> unat address \<le> unat a \<and> unat a < unat address + unat sz"
  proof
    assume "\<exists>i<unat sz. a = address + of_nat i"
    then obtain i where i: "i < unat sz" "a = address + of_nat i" by blast
    have "unat (of_nat i :: u64) = i" using i(1) assms by simp
    then have "unat a = unat address + i"
      using i assms by (simp add: unat_plus_no_wrap)
    with i(1) show "unat address \<le> unat a \<and> unat a < unat address + unat sz" by simp
  next
    assume a: "unat address \<le> unat a \<and> unat a < unat address + unat sz"
    have "a = address + of_nat (unat a - unat address)"
      using a by (simp add: of_nat_diff)
    then show "\<exists>i<unat sz. a = address + of_nat i" using a by (intro exI [of _ "unat a - unat address"]) auto
  qed
  finally show ?thesis .
qed

lemma ProcessStore_spec:
  fixes g tid
  defines "n \<equiv> use_init_removal_heuristic_n g" and "td \<equiv> get_thread_data g tid"
  assumes inv: "hawk_inv g" and vc: "vector_clocks td \<noteq> []" and irh: "irh_ready n hist tid (irh g)"
    and sz: "sz \<le> 64"
  shows "\<exists>g' data new. ProcessStore tid address sz ctxt g = Inr g' \<and> keeps tid g g' \<and>
    store_data_ok (tls_heap g') (bt_heap g') data \<and>
    timedlockset_at (tls_heap g') (timed_lockset data) = current_timedlockset td \<and>
    trace_is (bt_heap g') (sd_backtrace data) (call_trace g tid ctxt) \<and>
    (\<forall>a. mem_at (mem_state (get_thread_data g' tid)) a =
       (if a \<in> set (byte_range address sz) then Some data else mem_at (mem_state td) a)) \<and>
    (\<forall>a. mem_at (flushed_mem_state (get_thread_data g' tid)) a =
       (if check_unpersisted_stores g \<and> a \<in> set (byte_range address sz) then None
        else mem_at (flushed_mem_state td) a)) \<and>
    race_likely_stores (get_thread_data g' tid) = race_likely_stores td @ new \<and>
    list_all2 (overwrite_record g' tid (current_timedlockset td) (sd_backtrace data))
      (filter (\<lambda>w. decides n hist tid (fst (fst w)))
        (if check_unpersisted_stores g then concat (map (overwritten td) (byte_range address sz)) else [])) new"
proof -
  obtain mask st hist1 where h: "HandleAccess n tid address sz (irh g) = Inr (mask, st)"
    "irh_ready n hist1 tid st" "\<And>b. decides n hist1 tid b = decides n hist tid b"
    using HandleAccess_ready [OF irh sz, of address] by metis
  let ?g1 = "g\<lparr>irh := st\<rparr>"
  have 1: "hawk_HandleAccess tid address sz g = Inr (mask, ?g1)"
    using h(1) by (simp add: hawk_HandleAccess_def n_def)
  have k1: "keeps tid g ?g1" by (rule keeps_HandleAccess(1) [OF inv 1])
  have inv1: "hawk_inv ?g1" using inv by simp
  obtain bt g2 where 2: "hawk_GetBacktrace ctxt tid ?g1 = (bt, g2)" by fastforce
  note b = hawk_GetBacktrace_spec [OF inv1 2]
  obtain p g3 where 3: "get_timedlockset tid g2 = (p, g3)" by fastforce
  note t = get_timedlockset_spec [OF b(1) 3]
  have k3: "keeps tid g g3"
    using k1 keeps_GetBacktrace [OF inv1 2] keeps_get_timedlockset [OF b(1) 3] keeps_trans by blast
  note f = keeps_facts [OF k3]
  let ?d = "\<lparr>timed_lockset = p, sd_backtrace = bt\<rparr>"
  have td3: "mem_state (get_thread_data g3 tid) = mem_state td"
    "flushed_mem_state (get_thread_data g3 tid) = flushed_mem_state td"
    "race_likely_stores (get_thread_data g3 tid) = race_likely_stores td"
    using t(5) b(6) by (auto simp: td_def)
  have at: "timedlockset_at (tls_heap g3) p = current_timedlockset td" using t(4) b(6) by (simp add: td_def)
  have d: "store_data_ok (tls_heap g3) (bt_heap g3) ?d"
    using b(3,4) t(3,7) by (simp add: store_data_ok_def)
  have tr: "trace_is (bt_heap g3) bt (call_trace g tid ctxt)"
    using hawk_GetBacktrace_trace [OF inv1 2] t(7) by (simp add: call_trace_def)
  have irh3: "irh_ready (use_init_removal_heuristic_n g3) hist1 tid (irh g3)"
    using h(2) f(4) t(8) b(9) by (simp add: n_def)
  have over: "overwritten (get_thread_data g3 tid) = overwritten td"
    by (simp add: fun_eq_iff overwritten_def td3)
  note r = keeps_ready [OF k3 vc [unfolded td_def]]
  obtain g' new where 4: "foldE (store_byte tid ?d) (byte_range address sz) g3 = Inr g'" "keeps tid g3 g'"
    "\<forall>a. mem_at (mem_state (get_thread_data g' tid)) a =
       (if a \<in> set (byte_range address sz) then Some ?d else mem_at (mem_state td) a)"
    "\<forall>a. mem_at (flushed_mem_state (get_thread_data g' tid)) a =
       (if check_unpersisted_stores g \<and> a \<in> set (byte_range address sz) then None
        else mem_at (flushed_mem_state td) a)"
    "race_likely_stores (get_thread_data g' tid) = race_likely_stores td @ new"
    "list_all2 (overwrite_record g' tid (current_timedlockset td) bt)
      (filter (\<lambda>w. decides n hist tid (fst (fst w)))
        (if check_unpersisted_stores g then concat (map (overwritten td) (byte_range address sz)) else [])) new"
    using store_loop_spec [OF conjunct1 [OF r] conjunct2 [OF r] irh3 d distinct_byte_range, of address sz]
    unfolding f(4,6) td3 over n_def [symmetric] h(3) StoreData.simps at by auto
  have run: "ProcessStore tid address sz ctxt g = Inr g'"
    using 1 2 3 4(1) by (simp add: ProcessStore_def)
  show ?thesis
    by (intro exI [of _ g'] exI [of _ ?d] exI [of _ new] conjI run keeps_trans [OF k3 4(2)])
       (use 4 keeps_valid(4) [OF 4(2) d] keeps_facts(7) [OF 4(2) tr] keeps_facts(8) [OF 4(2) t(3)] at in simp_all)
qed

section \<open>Loads\<close>

text \<open>
  The access point of a load: it is recorded when the heuristic lets the access through,
  with the locks the thread holds, under the key of address, trace, clock and byte mask.
\<close>

lemma ProcessRead_spec:
  fixes g tid
  defines "n \<equiv> use_init_removal_heuristic_n g" and "td \<equiv> get_thread_data g tid"
  assumes inv: "hawk_inv g" and vc: "vector_clocks td \<noteq> []" and irh: "irh_ready n hist tid (irh g)"
    and sz: "0 < sz" "sz \<le> 64"
  shows "\<exists>g'. ProcessRead tid address sz ctxt g = Inr g' \<and> keeps tid g g' \<and>
    (if decides n hist tid address
     then \<exists>key p. key_address key = address \<and> trace_is (bt_heap g') (key_backtrace key) (call_trace g tid ctxt) \<and>
         key_clock_i key = current_clock_i td \<and> (\<forall>i. bit (key_mask key) i \<longleftrightarrow> i < unat sz) \<and>
         ls_valid (ls_heap g') p \<and> members (lockset_at (ls_heap g') p) = held (current_timedlockset td) \<and>
         race_likely_loads (get_thread_data g' tid) = um_modify key [] (os_insert p) (race_likely_loads td)
     else race_likely_loads (get_thread_data g' tid) = race_likely_loads td)"
proof -
  obtain mask st hist1 where h: "HandleAccess n tid address sz (irh g) = Inr (mask, st)"
    "\<And>i. bit mask i \<longleftrightarrow> i < unat sz \<and> decides n hist tid address"
    using HandleAccess_ready [OF irh sz(2), of address] by metis
  let ?g1 = "g\<lparr>irh := st\<rparr>"
  have 1: "hawk_HandleAccess tid address sz g = Inr (mask, ?g1)"
    using h(1) by (simp add: hawk_HandleAccess_def n_def)
  have k1: "keeps tid g ?g1" by (rule keeps_HandleAccess(1) [OF inv 1])
  have "0 < unat sz" using sz(1) by (simp add: unat_gt_0 word_neq_0_conv)
  then have mask: "mask = 0 \<longleftrightarrow> \<not> decides n hist tid address"
    using h(2) by (metis bit_0_eq bot_apply bot_bool_def bit_eq_iff)
  show ?thesis
  proof (cases "decides n hist tid address")
    case False
    then have "ProcessRead tid address sz ctxt g = Inr ?g1"
      using 1 mask by (simp add: ProcessRead_def RegisterAccess_def)
    then show ?thesis using k1 False by (intro exI [of _ ?g1]) (simp add: td_def)
  next
    case True
    have inv1: "hawk_inv ?g1" using inv by simp
    obtain bt g2 where 2: "hawk_GetBacktrace ctxt tid ?g1 = (bt, g2)" by fastforce
    note b = hawk_GetBacktrace_spec [OF inv1 2]
    obtain p g3 where 3: "get_timedlockset tid g2 = (p, g3)" by fastforce
    note t = get_timedlockset_spec [OF b(1) 3]
    obtain q h' where 4: "lockset_cache_get (to_lockset (timedlockset_at (tls_heap g3) p)) (ls_heap g3) = (q, h')"
      by fastforce
    let ?key = "\<lparr>key_address = address, key_backtrace = bt,
                 key_clock_i = current_clock_i (get_thread_data g2 tid), key_mask = mask\<rparr>"
    let ?g' = "update_thread tid (\<lambda>td. td\<lparr>race_likely_loads := um_modify ?key [] (os_insert q) (race_likely_loads td)\<rparr>)
        (g3\<lparr>ls_heap := h'\<rparr>)"
    have run: "RegisterAccess tid address sz ctxt g = Inr ?g'"
      using 1 2 3 4 mask True by (simp add: RegisterAccess_def Let_def)
    have k: "keeps tid g ?g'" by (rule RegisterAccess_keeps [OF inv vc [unfolded td_def] run])
    have "ls_heap_wf (ls_heap g3)" using t(1) by (simp add: hawk_inv_def)
    note ls = lockset_cache_get_spec [OF this 4]
    have at: "timedlockset_at (tls_heap g3) p = current_timedlockset td" using t(4) b(6) by (simp add: td_def)
    have loads: "race_likely_loads (get_thread_data g3 tid) = race_likely_loads td"
      using t(5) b(6) by (auto simp: td_def)
    have tr: "trace_is (bt_heap g3) bt (call_trace g tid ctxt)"
      using hawk_GetBacktrace_trace [OF inv1 2] t(7) by (simp add: call_trace_def)
    show ?thesis
      by (intro exI [of _ ?g'] conjI k)
         (use run True in \<open>simp_all add: ProcessRead_def\<close>, intro exI [of _ ?key],
          use tr h(2) True ls loads at b(6) in
            \<open>simp add: td_def members_to_lockset current_clock_i_def, intro exI [of _ q], simp\<close>)
  qed
qed

end
