(* ===== verification/LockSpec.thy ===== *)
theory LockSpec
  imports HandlerFrame HandlerSpec History
begin

text \<open>
  Locks along a run. \<open>lock_op_of\<close> reads a callback as the acquisition or release of one lock
  index by one thread; every other callback leaves a thread's timed lockset and its lock
  clock alone. Because each acquisition takes a new time stamp, two snapshots of a thread's
  locks agree on an index exactly when the thread held it at the first snapshot and neither
  acquired nor released it since: the effective lockset of a store and its fence.
\<close>

section \<open>What leaves the locks alone\<close>

definition lock_frame :: "hawk \<Rightarrow> hawk \<Rightarrow> bool" where
  "lock_frame g g' \<longleftrightarrow>
     (\<forall>t. current_timedlockset (get_thread_data g' t) = current_timedlockset (get_thread_data g t) \<and>
          lock_clock (get_thread_data g' t) = lock_clock (get_thread_data g t))"

lemma lock_frame_refl [simp, intro]: "lock_frame g g"
  by (simp add: lock_frame_def)

lemma lock_frame_trans: "lock_frame a b \<Longrightarrow> lock_frame b c \<Longrightarrow> lock_frame a c"
  by (simp add: lock_frame_def)

lemma lock_frame_analysis: "analysis_data_tls g' = analysis_data_tls g \<Longrightarrow> lock_frame g g'"
  by (simp add: lock_frame_def)

lemma lock_frame_update:
  "(\<And>td. current_timedlockset (f td) = current_timedlockset td \<and> lock_clock (f td) = lock_clock td) \<Longrightarrow>
   lock_frame g h \<Longrightarrow> lock_frame g (update_thread tid f h)"
  by (simp add: lock_frame_def)

text \<open>No handler but \<^verbatim>\<open>ProcessLock\<close> changes a thread's locks.\<close>

interpretation lf: handler_frame "\<lambda>_. lock_frame"
proof
  show "lock_frame a b" if "hawk_HandleAccess tid adr sz a = Inr (m, b)" for tid adr sz a m b
    using hawk_HandleAccess_spec(1) [OF that] by (auto intro!: lock_frame_analysis)
  show "lock_frame a b" if "hawk_HandleAccessByte tid adr a = Inr (y, b)" for tid adr a y b
    using hawk_HandleAccess_spec(2) [OF that] by (auto intro!: lock_frame_analysis)
qed (auto simp: lock_frame_def untouched_def)

lemma lock_frame_ProcessFlush: "lock_frame g (ProcessFlush tid t a g)"
  by (rule lf.F_untouched [OF untouched_ProcessFlush])

section \<open>Callbacks as lock operations\<close>

datatype lock_op = Acquire nat | Release nat

definition mutex_index :: "u64 \<Rightarrow> hawk \<Rightarrow> nat" where
  "mutex_index m g = fst (get_index m (register_mutex m (registry g)))"

fun lock_op_of :: "event \<Rightarrow> hawk \<Rightarrow> (nat \<times> lock_op) option" where
  "lock_op_of (EvLock tid m) g = Some (tid, Acquire (mutex_index m g))"
| "lock_op_of (EvWriteLock tid m) g = Some (tid, Acquire (mutex_index m g))"
| "lock_op_of (EvReadLock tid m) g = Some (tid, Acquire (mutex_index m g))"
| "lock_op_of (EvTryLockAfter mem tid res success neg use_arg lt) g =
     (let td = get_thread_data g tid
      in if try_lock_check mem td res success neg use_arg \<and> lt \<noteq> None
         then Some (tid, Acquire (mutex_index (try_lock_mutex td) g)) else None)"
| "lock_op_of (EvUnlock tid m) g = Some (tid, Release (mutex_index m g))"
| "lock_op_of (EvRWUnlock tid m) g = Some (tid, Release (mutex_index m g))"
| "lock_op_of (EvAdqRelBefore tid i) g = Some (tid, Acquire (unat i))"
| "lock_op_of (EvAdqRelAfter tid i) g = Some (tid, Release (unat i))"
| "lock_op_of e g = None"

fun apply_lock_op :: "lock_op \<Rightarrow> TimedLockset \<times> u32 \<Rightarrow> TimedLockset \<times> u32" where
  "apply_lock_op (Acquire i) (t, c) = (t\<lparr>timestamps := sm_insert i (ucast c) (timestamps t)\<rparr>, c + 1)"
| "apply_lock_op (Release i) (t, c) = (t\<lparr>timestamps := sm_erase i (timestamps t)\<rparr>, c)"

definition locks_of :: "hawk \<Rightarrow> nat \<Rightarrow> TimedLockset \<times> u32" where
  "locks_of g t = (current_timedlockset (get_thread_data g t), lock_clock (get_thread_data g t))"

definition ops_for :: "nat \<Rightarrow> (nat \<times> lock_op) option \<Rightarrow> lock_op list" where
  "ops_for t x = (case x of None \<Rightarrow> [] | Some (t', oper) \<Rightarrow> if t' = t then [oper] else [])"

lemma lock_frame_locks: "lock_frame g g' \<Longrightarrow> locks_of g' t = locks_of g t"
  by (simp add: lock_frame_def locks_of_def)

lemma TimedLockset_lock_index:
  "TimedLockset_lock m ts (t, r) =
     (t\<lparr>timestamps := sm_insert (fst (get_index m (register_mutex m r))) ts (timestamps t)\<rparr>, register_mutex m r)"
  "TimedLockset_unlock m (t, r) =
     (t\<lparr>timestamps := sm_erase (fst (get_index m (register_mutex m r))) (timestamps t)\<rparr>, register_mutex m r)"
  using get_index_registered [OF register_mutex_registers, of m r]
  by (auto simp: TimedLockset_lock_def TimedLockset_unlock_def)

lemma ProcessLock_locks:
  fixes m special g
  defines "i \<equiv> (if special then unat m else mutex_index m g)"
  shows "locks_of (ProcessLock tid lt m special g) t =
    (if t \<noteq> tid then locks_of g t
     else if is_acquire lt then apply_lock_op (Acquire i) (locks_of g t)
     else if is_release lt then apply_lock_op (Release i) (locks_of g t)
     else locks_of g t)"
  by (simp add: ProcessLock_def lock_current_def unlock_current_def get_next_id_def Let_def locks_of_def
      i_def mutex_index_def TimedLockset_lock_index TimedLockset_lock_special_def TimedLockset_unlock_special_def
      flip: update_thread_def)

lemma hawk_step_locks:
  assumes run: "hawk_step c e g = Inr g'"
  shows "locks_of g' t = fold apply_lock_op (ops_for t (lock_op_of e g)) (locks_of g t)"
proof (cases "lock_op_of e g")
  case None
  have "lock_frame g g'"
  proof (cases e)
    case (EvWrite tid ctxt a sz type)
    then show ?thesis
      using run lf.F_ProcessStore lock_frame_ProcessFlush by (auto simp: TraceWrite_def split: if_splits)
  next
    case (EvFlush tid a type)
    then show ?thesis using run lock_frame_ProcessFlush by (auto simp: TraceFlush_def)
  next
    case (EvFence tid ctxt)
    then show ?thesis using run lf.F_ProcessFence by (auto simp: TraceFence_def)
  next
    case (EvRMW tid ctxt a sz)
    then show ?thesis using run lf.F_ProcessFence by (auto simp: TraceRMW_def split: if_splits)
  next
    case (EvRead tid ctxt a sz a2)
    then show ?thesis
      using run lf.F_RegisterAccess by (auto simp: TraceRead_def ProcessRead_def split: if_splits)
  next
    case (EvTryLockAfter mem tid res success neg use_arg lt)
    then show ?thesis
      using run None by (auto simp: TryLockAfter_def Let_def split: if_splits option.splits)
  next
    case (EvThreadExit tid)
    then show ?thesis using run lf.F_ProcessThreadExit by (simp add: TraceThreadExit_def)
  qed (use run None in \<open>auto simp: TraceCall_def TraceRet_def TryLockBefore_def PthreadCreate_call_def
      ProcessThreadCreate_def PthreadCreate_return_def TraceThreadStart_def TraceThreadStart_signal_def
      TraceThreadStart_init_def ProcessThreadInit_def PthreadJoin_return_def ProcessThreadJoin_def
      push_clock_def lock_frame_def Let_def split: if_splits\<close>)
  then show ?thesis using None by (simp add: ops_for_def lock_frame_locks)
next
  case (Some x)
  then show ?thesis
  proof (cases e)
    case (EvTryLockAfter mem tid res success neg use_arg lt)
    then show ?thesis
      using run Some by (auto simp: TryLockAfter_def ProcessLock_locks ops_for_def Let_def
          split: if_splits option.splits LockType.splits)
  qed (use run Some in \<open>auto simp: LockBefore_def WriteLockBefore_def ReadLockBefore_def UnlockBefore_def
      RWUnlockBefore_def TraceAdqRelBefore_def TraceAdqRelAfter_def ProcessLock_locks ops_for_def\<close>)
qed

text \<open>The lock operations thread \<open>t\<close> performs in a run.\<close>

fun thread_lock_ops :: "config \<Rightarrow> event list \<Rightarrow> hawk \<Rightarrow> nat \<Rightarrow> lock_op list" where
  "thread_lock_ops c [] g t = []"
| "thread_lock_ops c (e # es) g t =
     (case hawk_step c e g of
        Inl err \<Rightarrow> []
      | Inr g' \<Rightarrow> ops_for t (lock_op_of e g) @ thread_lock_ops c es g' t)"

lemma hawk_run_locks:
  "hawk_run c es g = Inr g' \<Longrightarrow> locks_of g' t = fold apply_lock_op (thread_lock_ops c es g t) (locks_of g t)"
proof (induction es arbitrary: g)
  case (Cons e es)
  then obtain g1 where "hawk_step c e g = Inr g1" "hawk_run c es g1 = Inr g'" by (auto split: if_splits)
  with Cons.IH hawk_step_locks show ?case by simp
qed simp

section \<open>Snapshots agree on the locks held throughout\<close>

definition ts_below :: "TimedLockset \<Rightarrow> u32 \<Rightarrow> bool" where
  "ts_below t c \<longleftrightarrow> (\<forall>i ts. map_of (timestamps t) i = Some ts \<longrightarrow> unat ts < unat c)"

fun is_Acquire :: "lock_op \<Rightarrow> bool" where
  "is_Acquire (Acquire i) = True"
| "is_Acquire (Release i) = False"

definition acquisitions :: "lock_op list \<Rightarrow> nat" where
  "acquisitions ops = length (filter is_Acquire ops)"

definition touched :: "lock_op list \<Rightarrow> nat set" where
  "touched ops = {i. Acquire i \<in> set ops \<or> Release i \<in> set ops}"

lemma unat_u32_u64: "unat (ucast (c :: u32) :: u64) = unat c"
  using unsigned_less [of c, where ?'a = nat] by (simp add: unat_ucast_mod)

lemma fold_lock_ops:
  assumes below: "ts_below t c" and few: "unat c + acquisitions ops < 2 ^ 32"
    and run: "fold apply_lock_op ops (t, c) = (t', c')"
  shows "unat c' = unat c + acquisitions ops \<and> ts_below t' c' \<and> common_locks t t' = held t - touched ops"
  using few run
proof (induction ops arbitrary: t' c' rule: rev_induct)
  case Nil
  then show ?case using below by (simp add: acquisitions_def touched_def)
next
  case (snoc x ops)
  obtain t1 c1 where 1: "fold apply_lock_op ops (t, c) = (t1, c1)" by fastforce
  have IH: "unat c1 = unat c + acquisitions ops" "ts_below t1 c1" "common_locks t t1 = held t - touched ops"
    using snoc.IH [OF _ 1] snoc.prems(1) by (auto simp: acquisitions_def)
  have step: "apply_lock_op x (t1, c1) = (t', c')" using snoc.prems(2) 1 by simp
  show ?case
  proof (cases x)
    case (Acquire i)
    have c1: "unat c1 + 1 < 2 ^ 32" using snoc.prems(1) IH(1) Acquire by (simp add: acquisitions_def)
    have c': "c' = c1 + 1" and t': "t' = t1\<lparr>timestamps := sm_insert i (ucast c1) (timestamps t1)\<rparr>"
      using step Acquire by auto
    have u: "unat c' = unat c1 + 1" using c1 by (simp add: c' unat_plus_no_wrap)
    have "map_of (timestamps t) i \<noteq> Some (ucast c1)"
    proof
      assume "map_of (timestamps t) i = Some (ucast c1)"
      then have "unat (ucast c1 :: u64) < unat c" using below by (simp only: ts_below_def)
      then show False using IH(1) by (simp only: unat_u32_u64)
    qed
    then have "common_locks t t' = common_locks t t1 - {i}"
      by (auto simp: common_locks_def t')
    moreover have "ts_below t' c'"
      using IH(2) u by (auto simp: ts_below_def t' unat_u32_u64 less_Suc_eq)
    ultimately show ?thesis
      using IH(1,3) u Acquire by (auto simp: acquisitions_def touched_def)
  next
    case (Release i)
    have c': "c' = c1" and t': "t' = t1\<lparr>timestamps := sm_erase i (timestamps t1)\<rparr>"
      using step Release by auto
    have "common_locks t t' = common_locks t t1 - {i}" by (auto simp: common_locks_def t')
    moreover have "ts_below t' c'" using IH(2) by (auto simp: ts_below_def t' c')
    ultimately show ?thesis
      using IH(1,3) c' Release by (auto simp: acquisitions_def touched_def)
  qed
qed

lemma run_common_locks:
  assumes run: "hawk_run c es g = Inr g'"
    and below: "ts_below (current_timedlockset (get_thread_data g t)) (lock_clock (get_thread_data g t))"
    and few: "unat (lock_clock (get_thread_data g t)) + acquisitions (thread_lock_ops c es g t) < 2 ^ 32"
  shows "common_locks (current_timedlockset (get_thread_data g t)) (current_timedlockset (get_thread_data g' t)) =
      held (current_timedlockset (get_thread_data g t)) - touched (thread_lock_ops c es g t)"
    "ts_below (current_timedlockset (get_thread_data g' t)) (lock_clock (get_thread_data g' t))"
    "unat (lock_clock (get_thread_data g' t)) =
      unat (lock_clock (get_thread_data g t)) + acquisitions (thread_lock_ops c es g t)"
proof -
  have "fold apply_lock_op (thread_lock_ops c es g t)
      (current_timedlockset (get_thread_data g t), lock_clock (get_thread_data g t)) =
    (current_timedlockset (get_thread_data g' t), lock_clock (get_thread_data g' t))"
    using hawk_run_locks [OF run, of t] by (simp add: locks_of_def)
  note f = fold_lock_ops [OF below few this]
  show "common_locks (current_timedlockset (get_thread_data g t)) (current_timedlockset (get_thread_data g' t)) =
      held (current_timedlockset (get_thread_data g t)) - touched (thread_lock_ops c es g t)"
    "ts_below (current_timedlockset (get_thread_data g' t)) (lock_clock (get_thread_data g' t))"
    "unat (lock_clock (get_thread_data g' t)) =
      unat (lock_clock (get_thread_data g t)) + acquisitions (thread_lock_ops c es g t)"
    using f by blast+
qed

end
