(* ===== verification/IrhRun.thy ===== *)
theory IrhRun
  imports LockSpec
begin

text \<open>
  The initialization heuristic along a run: its state is always the one some history of
  accesses by the started threads leads to, so that in a process of at most 64 threads it
  has a number for every thread and its assertion holds.
\<close>

definition irh_frame :: "nat \<Rightarrow> hawk \<Rightarrow> hawk \<Rightarrow> bool" where
  "irh_frame tid g g' \<longleftrightarrow>
     use_init_removal_heuristic_n g' = use_init_removal_heuristic_n g \<and>
     (\<forall>hist. use_init_removal_heuristic_n g \<noteq> 0 \<longrightarrow>
        irh_abs (use_init_removal_heuristic_n g) hist (irh g) \<longrightarrow>
        (\<exists>as. irh_abs (use_init_removal_heuristic_n g) (hist @ map (Pair tid) as) (irh g')))"

lemma HandleAccess_irh:
  assumes abs: "irh_abs n hist st" and n: "n \<noteq> 0" and run: "HandleAccess n t a sz st = Inr (msk, st')"
  shows "\<exists>as. irh_abs n (hist @ map (Pair t) as) st'"
proof -
  have f: "foldE (\<lambda>i (mask, st). bindE (IgnoreAccess n t a st)
               (\<lambda>(ignored, st'). Inr (if \<not> ignored then set_bit i mask else unset_bit i mask, st')))
           [0..<unat sz] (0, st) = Inr (msk, st')"
    using run n by (simp add: HandleAccess_def split: if_splits)
  have "\<exists>as. irh_abs n (hist @ map (Pair t) as) (snd (msk, st'))"
  proof (rule foldE_inv [OF f, where P = "\<lambda>s. \<exists>as. irh_abs n (hist @ map (Pair t) as) (snd s)"])
    show "\<exists>as. irh_abs n (hist @ map (Pair t) as) (snd (0, st))"
      using abs by (intro exI [of _ "[]"]) simp
  next
    fix x s s'
    assume "\<exists>as. irh_abs n (hist @ map (Pair t) as) (snd s)"
      and step: "(case s of (m, st) \<Rightarrow> bindE (IgnoreAccess n t a st)
               (\<lambda>(ignored, st'). Inr (if \<not> ignored then set_bit x m else unset_bit x m, st'))) = Inr s'"
    then obtain as where as: "irh_abs n (hist @ map (Pair t) as) (snd s)" by blast
    from step obtain b where "IgnoreAccess n t a (snd s) = Inr (b, snd s')"
      by (auto split: prod.splits)
    from IgnoreAccess_irh [OF as n this]
    show "\<exists>as. irh_abs n (hist @ map (Pair t) as) (snd s')"
      by (intro exI [of _ "as @ [a]"]) simp
  qed
  then show ?thesis by simp
qed

interpretation hf: handler_frame irh_frame
proof
  fix tid a b c
  assume ab: "irh_frame tid a b" and bc: "irh_frame tid b c"
  show "irh_frame tid a c"
    unfolding irh_frame_def
  proof (intro conjI allI impI)
    fix hist
    let ?n = "use_init_removal_heuristic_n a"
    assume n: "?n \<noteq> 0" "irh_abs ?n hist (irh a)"
    then obtain as where "irh_abs ?n (hist @ map (Pair tid) as) (irh b)"
      using ab by (auto simp: irh_frame_def)
    then obtain as' where "irh_abs ?n ((hist @ map (Pair tid) as) @ map (Pair tid) as') (irh c)"
      using ab bc n by (auto simp: irh_frame_def)
    then show "\<exists>as. irh_abs ?n (hist @ map (Pair tid) as) (irh c)"
      by (intro exI [of _ "as @ as'"]) simp
  qed (use ab bc in \<open>simp add: irh_frame_def\<close>)
next
  fix tid a b
  assume "untouched a b"
  then show "irh_frame tid a b"
    by (auto simp: untouched_def irh_frame_def intro: exI [of _ "[]"])
next
  fix tid adr sz a m b
  assume "hawk_HandleAccess tid adr sz a = Inr (m, b)"
  then show "irh_frame tid a b"
    by (auto simp: hawk_HandleAccess_def irh_frame_def dest: HandleAccess_irh)
next
  fix tid adr a y b
  assume run: "hawk_HandleAccessByte tid adr a = Inr (y, b)"
  show "irh_frame tid a b"
    unfolding irh_frame_def
  proof (intro conjI allI impI)
    fix hist
    let ?n = "use_init_removal_heuristic_n a"
    assume n: "?n \<noteq> 0" "irh_abs ?n hist (irh a)"
    from run n(1) obtain i where "IgnoreAccess ?n tid adr (irh a) = Inr (i, irh b)"
      by (auto simp: hawk_HandleAccessByte_def HandleAccessByte_def)
    from IgnoreAccess_irh [OF n(2,1) this] show "\<exists>as. irh_abs ?n (hist @ map (Pair tid) as) (irh b)"
      by (intro exI [of _ "[adr]"]) simp
  qed (use run in \<open>auto simp: hawk_HandleAccessByte_def\<close>)
qed (auto simp: irh_frame_def intro: exI [of _ "[]"])

text \<open>A callback of a thread extends the history by accesses of that thread.\<close>

lemma hawk_step_irh_frame:
  assumes run: "hawk_step c e g = Inr g'"
  shows "case thread_of e of None \<Rightarrow> irh g' = irh g \<and> use_init_removal_heuristic_n g' = use_init_removal_heuristic_n g
    | Some tid \<Rightarrow> irh_frame tid g g'"
proof (cases e)
  case (EvWrite tid ctxt a sz type)
  then show ?thesis
    using run hf.F_ProcessStore hf.F_untouched [OF untouched_ProcessFlush] hf.F_refl
    by (auto simp: TraceWrite_def split: if_splits)
next
  case (EvFlush tid a type)
  then show ?thesis
    using run hf.F_untouched [OF untouched_ProcessFlush] hf.F_refl by (auto simp: TraceFlush_def)
next
  case (EvFence tid ctxt)
  then show ?thesis using run hf.F_ProcessFence by (auto simp: TraceFence_def)
next
  case (EvRMW tid ctxt a sz)
  then show ?thesis using run hf.F_ProcessFence by (auto simp: TraceRMW_def split: if_splits)
next
  case (EvRead tid ctxt a sz a2)
  then show ?thesis
    using run hf.F_RegisterAccess hf.F_refl by (auto simp: TraceRead_def ProcessRead_def split: if_splits)
next
  case (EvThreadExit tid)
  then show ?thesis using run hf.F_ProcessThreadExit by (auto simp: TraceThreadExit_def)
next
  case (EvImageLoad v)
  then show ?thesis using run by auto
next
  case (EvTryLockAfter mem tid res success neg use_arg lt)
  have "irh g' = irh g \<and> use_init_removal_heuristic_n g' = use_init_removal_heuristic_n g"
    using run EvTryLockAfter
    by (auto simp: TryLockAfter_def Let_def ProcessLock_def lock_current_def unlock_current_def
        split: if_splits option.splits LockType.splits prod.splits)
  then show ?thesis using EvTryLockAfter by (auto simp: irh_frame_def intro: exI [of _ "[]"])
qed (use run in \<open>auto simp: irh_frame_def LockBefore_def WriteLockBefore_def ReadLockBefore_def UnlockBefore_def
    RWUnlockBefore_def TraceAdqRelBefore_def TraceAdqRelAfter_def ProcessLock_def lock_current_def unlock_current_def
    Let_def TraceCall_def TraceRet_def TryLockBefore_def PthreadCreate_call_def push_clock_def
    ProcessThreadCreate_def PthreadCreate_return_def TraceThreadStart_def TraceThreadStart_signal_def
    TraceThreadStart_init_def ProcessThreadInit_def PthreadJoin_return_def ProcessThreadJoin_def
    split: if_splits prod.splits intro: exI [of _ "[]"]\<close>)

text \<open>Only its start-up callback starts a thread.\<close>

lemma hawk_step_started:
  assumes inv: "hawk_inv g" and en: "enabled e g" and run: "hawk_step c e g = Inr g'"
  shows "started g' t \<longleftrightarrow> started g t \<or> e = EvThreadStart t"
proof (cases "clock_event_of e g = CE_none")
  case True
  from hawk_step_clock_frame [OF inv en run True] have "started g' t = started g t"
    by (simp add: clock_frame_def started_def)
  moreover have "e \<noteq> EvThreadStart t" using True by auto
  ultimately show ?thesis by simp
next
  case False
  show ?thesis
  proof (cases e)
    case (EvThreadExit tid)
    have "vector_clocks (get_thread_data g tid) \<noteq> []"
      using ready [OF inv] en EvThreadExit by (simp add: enabled_def)
    from ProcessThreadExit_cases [OF inv this] run EvThreadExit
    obtain g1 c1 where "keeps tid g g1"
      "g' = (push_clock tid c1 g1)\<lparr>exit_threads_clock := sm_insert tid c1 (exit_threads_clock g1)\<rparr>"
      by (metis TraceThreadExit_def hawk_step.simps(21))
    then show ?thesis
      using EvThreadExit by (cases "t = tid") (auto simp: started_def push_clock_def keeps_def mem_frame_def)
  next
    case (EvCreateCall tid)
    then show ?thesis
      using run by (cases "t = tid") (auto simp: started_def PthreadCreate_call_def push_clock_def ProcessThreadCreate_def Let_def)
  next
    case (EvThreadStart tid)
    then show ?thesis
      using run by (cases "t = tid") (auto simp: started_def TraceThreadStart_def TraceThreadStart_signal_def Let_def push_clock_def
          TraceThreadStart_init_def ProcessThreadInit_def split: if_splits)
  next
    case (EvJoin tid result pid)
    then show ?thesis
      using run by (cases "t = tid") (auto simp: started_def PthreadJoin_return_def push_clock_def ProcessThreadJoin_def Let_def
          split: if_splits)
  qed (use False in simp_all)
qed

lemma started_bound:
  assumes run: "reachable c (init_hawk n d u) g"
  shows "started g t \<Longrightarrow> t < TLS_MAX_SIZE"
  using run
proof (induction arbitrary: t)
  case reachable_init
  then show ?case by (simp add: started_def init_hawk_def new_ThreadData_def)
next
  case (reachable_step g e g')
  have "hawk_inv g" using reachable_step.hyps(1) by (rule reachable_hawk_inv)
  from hawk_step_started [OF this reachable_step.hyps(2,3), of t] reachable_step.prems
  consider "started g t" | "e = EvThreadStart t" by blast
  then show ?case
  proof cases
    case 2
    then show ?thesis
      using reachable_step.hyps(3) by (auto simp: TraceThreadStart_def TraceThreadStart_init_def split: if_splits)
  qed (rule reachable_step.IH)
qed

lemma finite_started:
  assumes "reachable c (init_hawk n d u) g"
  shows "finite {t. started g t}"
  by (rule finite_subset [of _ "{..<TLS_MAX_SIZE}"]) (use started_bound [OF assms] in auto)

lemma reachable_irh:
  assumes "reachable c (init_hawk n d u) g" and n: "n \<noteq> 0"
  shows "use_init_removal_heuristic_n g = n \<and>
    (\<exists>hist. irh_abs n hist (irh g) \<and> all_threads hist \<subseteq> {t. started g t})"
  using assms(1)
proof (induction)
  case reachable_init
  have "irh_abs n [] (irh (init_hawk n d u)) \<and> all_threads [] \<subseteq> {t. started (init_hawk n d u) t}"
    using irh_abs_init [of n] by (simp add: init_hawk_def all_threads_def)
  then show ?case by (auto simp: init_hawk_def)
next
  case (reachable_step g e g')
  from reachable_step.IH obtain hist where
    un: "use_init_removal_heuristic_n g = n" and hist: "irh_abs n hist (irh g)" "all_threads hist \<subseteq> {t. started g t}"
    by blast
  have inv: "hawk_inv g" using reachable_step.hyps(1) by (rule reachable_hawk_inv)
  note st = hawk_step_started [OF inv reachable_step.hyps(2,3)]
  show ?case
  proof (cases "thread_of e")
    case None
    then show ?thesis
      using hawk_step_irh_frame [OF reachable_step.hyps(3)] un hist st by auto
  next
    case (Some tid)
    have "irh_frame tid g g'" using hawk_step_irh_frame [OF reachable_step.hyps(3)] Some by simp
    then obtain as where as: "irh_abs n (hist @ map (Pair tid) as) (irh g')"
      and un': "use_init_removal_heuristic_n g' = n"
      using un n hist by (auto simp: irh_frame_def)
    have "started g tid \<or> e = EvThreadStart tid"
      using reachable_step.hyps(2) Some by (cases e) (auto simp: enabled_def)
    then have "started g' tid" using st by blast
    moreover have "all_threads (hist @ map (Pair tid) as) \<subseteq> insert tid (all_threads hist)"
      by (auto simp: all_threads_def)
    ultimately have "all_threads (hist @ map (Pair tid) as) \<subseteq> {t. started g' t}"
      using hist(2) st by blast
    with as un' show ?thesis by blast
  qed
qed

lemma reachable_irh_ready:
  assumes run: "reachable c (init_hawk n d u) g" and few: "card {t. started g t} \<le> 64" and t: "started g tid"
  shows "use_init_removal_heuristic_n g = n \<and> (\<exists>hist. irh_ready n hist tid (irh g))"
proof (cases "n = 0")
  case True
  have "use_init_removal_heuristic_n g = n"
    using run
  proof (induction)
    case (reachable_step g e g')
    then show ?case
      using hawk_step_frame [OF reachable_hawk_inv [OF reachable_step.hyps(1)] reachable_step.hyps(2,3)]
      by (simp add: step_frame_def)
  qed (simp add: init_hawk_def)
  with True show ?thesis by (simp add: irh_ready_def)
next
  case False
  from reachable_irh [OF run this] obtain hist where
    un: "use_init_removal_heuristic_n g = n" and hist: "irh_abs n hist (irh g)" "all_threads hist \<subseteq> {t. started g t}"
    by blast
  have "card (insert tid (all_threads hist)) \<le> card {t. started g t}"
    using hist(2) t by (intro card_mono finite_started [OF run]) auto
  with few un hist show ?thesis by (auto simp: irh_ready_def)
qed

end
