(* ===== verification/ExitSpec.thy ===== *)
theory ExitSpec
  imports IrhRun
begin

text \<open>
  What the end of a thread and an atomic read-modify-write do, and that no memory callback
  of a process of at most 64 threads fails an assertion.
\<close>

text \<open>The accesses of a thread do not change what the heuristic decides for it.\<close>

lemma irh_frame_ready:
  assumes ready: "irh_ready n hist tid (irh g)" and fr: "irh_frame tid g g'"
    and n: "use_init_removal_heuristic_n g = n"
  obtains hist' where "irh_ready n hist' tid (irh g')" "\<And>a. decides n hist' tid a = decides n hist tid a"
proof (cases "n = 0")
  case True
  with that [of hist] show thesis by (simp add: irh_ready_def)
next
  case False
  with ready fr n obtain as where as: "irh_abs n (hist @ map (Pair tid) as) (irh g')"
    and few: "card (insert tid (all_threads hist)) \<le> 64"
    by (auto simp: irh_ready_def irh_frame_def)
  let ?h = "hist @ map (Pair tid) as"
  have "insert tid (all_threads ?h) = insert tid (all_threads hist)"
    "insert tid (accessors ?h a) = insert tid (accessors hist a)" for a
    by (auto simp: all_threads_def accessors_def)
  with as few show thesis
    by (intro that [of ?h]) (simp_all add: irh_ready_def decides_def shared_def)
qed

definition exit_record :: "hawk \<Rightarrow> nat \<Rightarrow> TimedLockset \<Rightarrow> bool \<Rightarrow> u64 \<times> StoreData \<Rightarrow> StoreFenceData \<Rightarrow> bool" where
  "exit_record g tid lset flushed w s \<longleftrightarrow> store_record g tid lset w False flushed s \<and> fence_trace s = None"

lemma exit_loop_spec:
  assumes "hawk_inv g" "vector_clocks (get_thread_data g tid) \<noteq> []"
    and "irh_ready (use_init_removal_heuristic_n g) hist tid (irh g)"
    and "\<And>w. w \<in> set ws \<Longrightarrow> store_data_ok (tls_heap g) (bt_heap g) (snd w)"
  shows "\<exists>g' new c. foldE (\<lambda>entry_data g.
       case get_timedlockset tid g of (p, g1) \<Rightarrow>
         RegisterUnpersistedStore tid (fst entry_data) (snd entry_data) p None fl g1) ws g = Inr g' \<and>
    keeps tid g g' \<and>
    get_thread_data g' tid = (get_thread_data g tid)\<lparr>cached_timedlockset := c,
       race_likely_stores := race_likely_stores (get_thread_data g tid) @ new\<rparr> \<and>
    list_all2 (exit_record g' tid (current_timedlockset (get_thread_data g tid)) fl)
      (filter (\<lambda>w. decides (use_init_removal_heuristic_n g) hist tid (fst w)) ws) new"
  using assms
proof (induction ws arbitrary: g hist)
  case Nil
  then show ?case by (intro exI [of _ g] exI [of _ "[]"] exI [of _ "cached_timedlockset (get_thread_data g tid)"])
      (simp add: keeps_refl)
next
  case (Cons w ws)
  let ?n = "use_init_removal_heuristic_n g" and ?l = "current_timedlockset (get_thread_data g tid)"
  obtain p g1 where 1: "get_timedlockset tid g = (p, g1)" by fastforce
  note p = get_timedlockset_spec [OF Cons.prems(1) 1]
  have k1: "keeps tid g g1" using p(1,2) by (simp add: keeps_def)
  note f1 = keeps_facts [OF k1]
  from p(5) obtain c1 where c1: "get_thread_data g1 tid = (get_thread_data g tid)\<lparr>cached_timedlockset := c1\<rparr>" ..
  have ok1: "store_data_ok (tls_heap g1) (bt_heap g1) (snd x)" if "x \<in> set (w # ws)" for x
    using keeps_valid(4) [OF k1 Cons.prems(4)] that by auto
  have vc1: "vector_clocks (get_thread_data g1 tid) \<noteq> []" using Cons.prems(2) c1 by simp
  have irh1: "irh_ready (use_init_removal_heuristic_n g1) hist tid (irh g1)" using Cons.prems(3) f1(4) p(8) by simp
  obtain g2 hist2 new2 where 2: "RegisterUnpersistedStore tid (fst w) (snd w) p None fl g1 = Inr g2" "keeps tid g1 g2"
    "irh_ready ?n hist2 tid (irh g2)" "\<forall>b. decides ?n hist2 tid b = decides ?n hist tid b"
    "get_thread_data g2 tid = (get_thread_data g1 tid)\<lparr>race_likely_stores := race_likely_stores (get_thread_data g1 tid) @ new2\<rparr>"
    "list_all2 (\<lambda>w s. store_record g2 tid (timedlockset_at (tls_heap g1) p) w False fl s \<and> fence_trace s = None)
      (if decides ?n hist tid (fst w) then [(fst w, snd w)] else []) new2"
    using RegisterUnpersistedStore_spec [OF p(1) vc1 irh1 ok1 [OF list.set_intros(1)] p(3), of None "fst w" fl]
    unfolding f1(4) bt_valid_def by blast
  have k2: "keeps tid g g2" by (rule keeps_trans [OF k1 2(2)])
  note f2 = keeps_facts [OF k2]
  have ok2: "store_data_ok (tls_heap g2) (bt_heap g2) (snd x)" if "x \<in> set (w # ws)" for x
    using keeps_valid(4) [OF k2 Cons.prems(4)] that by auto
  have vc2: "vector_clocks (get_thread_data g2 tid) \<noteq> []" using vc1 2(5) by simp
  have irh2: "irh_ready (use_init_removal_heuristic_n g2) hist2 tid (irh g2)" using 2(3) f2(4) by simp
  have l2: "current_timedlockset (get_thread_data g2 tid) = ?l" using 2(5) c1 by simp
  obtain g' new c where 3: "foldE (\<lambda>entry_data g.
       case get_timedlockset tid g of (p, g1) \<Rightarrow>
         RegisterUnpersistedStore tid (fst entry_data) (snd entry_data) p None fl g1) ws g2 = Inr g'"
    "keeps tid g2 g'"
    "get_thread_data g' tid = (get_thread_data g2 tid)\<lparr>cached_timedlockset := c,
       race_likely_stores := race_likely_stores (get_thread_data g2 tid) @ new\<rparr>"
    "list_all2 (exit_record g' tid ?l fl) (filter (\<lambda>w. decides ?n hist tid (fst w)) ws) new"
    using Cons.IH [OF f2(1) vc2 irh2 ok2] 2(4) f2(4) unfolding l2 by auto
  have new2: "list_all2 (exit_record g' tid ?l fl) (if decides ?n hist tid (fst w) then [w] else []) new2"
    using 2(6) store_record_mono [OF _ 3(2) ok2 [of w]] p(4)
    by (cases "decides ?n hist tid (fst w)") (auto simp: list_all2_Cons1 exit_record_def)
  have all: "list_all2 (exit_record g' tid ?l fl) (filter (\<lambda>w. decides ?n hist tid (fst w)) (w # ws)) (new2 @ new)"
    using list_all2_appendI [OF new2 3(4)] by (simp split: if_splits)
  show ?case
    by (intro exI [of _ g'] exI [of _ "new2 @ new"] exI [of _ c] conjI all keeps_trans [OF k2 3(2)])
       (use 1 2(1) 3(1) 2(5) c1 3(3) in simp_all)
qed

text \<open>The writes of a thread that are not persistent: still dirty, or flushed but not fenced.\<close>

definition pending :: "ThreadData \<Rightarrow> ((u64 \<times> StoreData) \<times> bool) list" where
  "pending td = map (\<lambda>w. (w, False)) (mem_entries (mem_state td)) @
                map (\<lambda>w. (w, True)) (mem_entries (flushed_mem_state td))"

lemma exit_record_mono:
  "exit_record g tid l fl w s \<Longrightarrow> keeps tid g g' \<Longrightarrow> store_data_ok (tls_heap g) (bt_heap g) (snd w) \<Longrightarrow>
   exit_record g' tid l fl w s"
  unfolding exit_record_def by (metis store_record_mono)

lemma exit_stores_spec:
  assumes inv: "hawk_inv g" and vc: "vector_clocks (get_thread_data g tid) \<noteq> []"
    and irh: "irh_ready (use_init_removal_heuristic_n g) hist tid (irh g)"
    and m: "mem_ok (tls_heap g) (bt_heap g) m"
  shows "\<exists>g' new c. exit_stores tid fl m g = Inr g' \<and> keeps tid g g' \<and>
    get_thread_data g' tid = (get_thread_data g tid)\<lparr>cached_timedlockset := c,
       race_likely_stores := race_likely_stores (get_thread_data g tid) @ new\<rparr> \<and>
    list_all2 (exit_record g' tid (current_timedlockset (get_thread_data g tid)) fl)
      (filter (\<lambda>w. decides (use_init_removal_heuristic_n g) hist tid (fst w)) (mem_entries m)) new"
  unfolding exit_stores_def foldE_nested
  using exit_loop_spec [OF inv vc irh, of "mem_entries m"] mem_entries_ok [OF m]
  by (auto simp: mem_entries_def)

lemma hawk_inv_mem:
  assumes "hawk_inv g"
  shows "mem_ok (tls_heap g) (bt_heap g) (mem_state (get_thread_data g t))"
    "mem_ok (tls_heap g) (bt_heap g) (flushed_mem_state (get_thread_data g t))"
  using hawk_inv_td [OF assms] by (simp_all add: td_ok_def)

lemma exit_both_spec:
  fixes g tid
  defines "n \<equiv> use_init_removal_heuristic_n g" and "td \<equiv> get_thread_data g tid"
  assumes inv: "hawk_inv g" and vc: "vector_clocks td \<noteq> []" and irh: "irh_ready n hist tid (irh g)"
  shows "\<exists>g' new c. bindE (exit_stores tid False (mem_state td) g)
         (\<lambda>g. exit_stores tid True (flushed_mem_state (get_thread_data g tid)) g) = Inr g' \<and> keeps tid g g' \<and>
    get_thread_data g' tid = td\<lparr>cached_timedlockset := c, race_likely_stores := race_likely_stores td @ new\<rparr> \<and>
    list_all2 (\<lambda>w. exit_record g' tid (current_timedlockset td) (snd w) (fst w))
      (filter (\<lambda>w. decides n hist tid (fst (fst w))) (pending td)) new"
proof -
  obtain g1 new1 c1 where 1: "exit_stores tid False (mem_state td) g = Inr g1" "keeps tid g g1"
    "get_thread_data g1 tid = td\<lparr>cached_timedlockset := c1, race_likely_stores := race_likely_stores td @ new1\<rparr>"
    "list_all2 (exit_record g1 tid (current_timedlockset td) False)
      (filter (\<lambda>w. decides n hist tid (fst w)) (mem_entries (mem_state td))) new1"
    using exit_stores_spec [OF inv vc [unfolded td_def] irh [unfolded n_def] hawk_inv_mem(1) [OF inv, of tid], of False]
    unfolding n_def td_def by blast
  note f = keeps_facts [OF 1(2)]
  have vc1: "vector_clocks (get_thread_data g1 tid) \<noteq> []" using vc 1(3) by simp
  have fl1: "flushed_mem_state (get_thread_data g1 tid) = flushed_mem_state td"
    "current_timedlockset (get_thread_data g1 tid) = current_timedlockset td" using 1(3) by simp_all
  obtain hist1 where irh1: "irh_ready n hist1 tid (irh g1)" "\<And>a. decides n hist1 tid a = decides n hist tid a"
    using irh_frame_ready [OF irh hf.F_exit_stores [OF 1(1)]] n_def by blast
  obtain g2 new2 c2 where 2: "exit_stores tid True (flushed_mem_state td) g1 = Inr g2" "keeps tid g1 g2"
    "get_thread_data g2 tid = (get_thread_data g1 tid)\<lparr>cached_timedlockset := c2,
       race_likely_stores := race_likely_stores (get_thread_data g1 tid) @ new2\<rparr>"
    "list_all2 (exit_record g2 tid (current_timedlockset td) True)
      (filter (\<lambda>w. decides n hist tid (fst w)) (mem_entries (flushed_mem_state td))) new2"
    using exit_stores_spec [OF f(1) vc1 _ hawk_inv_mem(2) [OF f(1), of tid], of hist1 True] irh1 f(4)
    unfolding fl1 n_def by auto
  have ok: "store_data_ok (tls_heap g1) (bt_heap g1) (snd w)" if "w \<in> set (mem_entries (mem_state td))" for w
    using keeps_valid(4) [OF 1(2) mem_entries_ok [OF hawk_inv_mem(1) [OF inv]]] that by (simp add: td_def)
  have new1: "list_all2 (exit_record g2 tid (current_timedlockset td) False)
      (filter (\<lambda>w. decides n hist tid (fst w)) (mem_entries (mem_state td))) new1"
    using 1(4) by (rule list.rel_mono_strong) (use exit_record_mono [OF _ 2(2) ok] in auto)
  have all: "list_all2 (\<lambda>w. exit_record g2 tid (current_timedlockset td) (snd w) (fst w))
      (filter (\<lambda>w. decides n hist tid (fst (fst w))) (pending td)) (new1 @ new2)"
    unfolding pending_def filter_append filter_map_pair
    by (intro list_all2_appendI) (use new1 2(4) in \<open>simp_all add: list.rel_map\<close>)
  show ?thesis
    by (intro exI [of _ g2] exI [of _ "new1 @ new2"] exI [of _ c2] conjI all keeps_trans [OF 1(2) 2(2)])
       (use 1(1,3) 2(1,3) fl1 in simp_all)
qed

text \<open>
  The end of a thread: with the option on, every pending write the heuristic lets through is
  recorded as an unpersisted store; then the thread's clock is advanced and published.
\<close>

lemma ProcessThreadExit_spec:
  fixes g tid
  defines "n \<equiv> use_init_removal_heuristic_n g" and "td \<equiv> get_thread_data g tid"
  assumes inv: "hawk_inv g" and vc: "vector_clocks td \<noteq> []" and irh: "irh_ready n hist tid (irh g)"
  shows "\<exists>g' new. ProcessThreadExit tid g = Inr g' \<and> hawk_inv g' \<and>
    vector_clocks (get_thread_data g' tid) = vector_clocks td @ [vc_tick tid (last (vector_clocks td))] \<and>
    map_of (exit_threads_clock g') tid = Some (vc_tick tid (last (vector_clocks td))) \<and>
    race_likely_stores (get_thread_data g' tid) = race_likely_stores td @ new \<and>
    list_all2 (\<lambda>(w, fl) s. sfd_address s = fst w \<and> write_trace s = sd_backtrace (snd w) \<and> fence_trace s = None \<and>
        sfd_clock_i s = current_clock_i td \<and> \<not> persisted s \<and> was_flushed s = fl \<and>
        members (lockset_at (ls_heap g') (common_set s)) =
          common_locks (current_timedlockset td) (timedlockset_at (tls_heap g') (timed_lockset (snd w))))
      (filter (\<lambda>(w, fl). decides n hist tid (fst w)) (if check_unpersisted_stores g then pending td else [])) new \<and>
    mem_state (get_thread_data g' tid) = mem_state td \<and> flushed_mem_state (get_thread_data g' tid) = flushed_mem_state td \<and>
    (\<forall>t. t \<noteq> tid \<longrightarrow> get_thread_data g' t = get_thread_data g t)"
proof -
  obtain g1 new c where 1: "(if check_unpersisted_stores g
       then bindE (exit_stores tid False (mem_state (get_thread_data g tid)) g)
              (\<lambda>g. exit_stores tid True (flushed_mem_state (get_thread_data g tid)) g)
       else Inr g) = Inr g1" "keeps tid g g1"
    "get_thread_data g1 tid = td\<lparr>cached_timedlockset := c, race_likely_stores := race_likely_stores td @ new\<rparr>"
    "list_all2 (\<lambda>w. exit_record g1 tid (current_timedlockset td) (snd w) (fst w))
      (filter (\<lambda>w. decides n hist tid (fst (fst w))) (if check_unpersisted_stores g then pending td else [])) new"
  proof (cases "check_unpersisted_stores g")
    case True
    with that exit_both_spec [OF inv vc [unfolded td_def] irh [unfolded n_def]] show thesis
      unfolding n_def td_def by auto
  next
    case False
    then show thesis
      by (intro that [of g "[]" "cached_timedlockset td"] keeps_refl [OF inv]) (simp_all add: td_def)
  qed
  let ?c = "vc_tick tid (last (vector_clocks td))"
  let ?g' = "(push_clock tid ?c g1)\<lparr>exit_threads_clock := sm_insert tid ?c (exit_threads_clock g1)\<rparr>"
  have run: "ProcessThreadExit tid g = Inr ?g'"
    using 1(1,3) vc by (simp add: ProcessThreadExit_def vectors_back_def Let_def push_clock_def)
  have clk: "current_clock_i (get_thread_data g1 tid) = current_clock_i td"
    using 1(3) by (simp add: current_clock_i_def)
  show ?thesis
  proof (intro exI [of _ ?g'] exI [of _ new] conjI run)
    show "hawk_inv ?g'" by (rule ProcessThreadExit_inv [OF inv _ run]) (use vc td_def in simp)
    show "list_all2 (\<lambda>(w, fl) s. sfd_address s = fst w \<and> write_trace s = sd_backtrace (snd w) \<and> fence_trace s = None \<and>
        sfd_clock_i s = current_clock_i td \<and> \<not> persisted s \<and> was_flushed s = fl \<and>
        members (lockset_at (ls_heap ?g') (common_set s)) =
          common_locks (current_timedlockset td) (timedlockset_at (tls_heap ?g') (timed_lockset (snd w))))
      (filter (\<lambda>(w, fl). decides n hist tid (fst w)) (if check_unpersisted_stores g then pending td else [])) new"
      using 1(4) unfolding case_prod_beta
      by (rule list_all2_mono) (auto simp: exit_record_def store_record_def clk push_clock_def)
  qed (use 1(3) keeps_facts(10) [OF 1(2)] in \<open>simp_all add: push_clock_def\<close>)
qed

end
