(* ===== verification/Persistency.thy ===== *)
theory Persistency
  imports ExitSpec
begin

text \<open>
  Stores, fences and loads in a run. In a process of at most 64 threads every memory
  callback succeeds, so the specifications of the handlers hold in every reachable state
  without further hypotheses; and the locks a fence records for a write are the ones held at
  the write and not touched in between.
\<close>

lemma ProcessFence_rmw:
  "ProcessFence tid True ctxt a sz g =
     (if sz \<noteq> 0 then bindE (ProcessStore tid a sz ctxt g) (ProcessFence tid False ctxt a sz)
      else ProcessFence tid False ctxt a sz g)"
  by (cases "ProcessStore tid a sz ctxt g") (simp_all add: ProcessFence_def)

lemma ProcessFence_args: "ProcessFence tid False ctxt a sz g = ProcessFence tid False ctxt 0 0 g"
  by (simp add: ProcessFence_def)

lemma fence_total:
  assumes "hawk_inv g" "vector_clocks (get_thread_data g tid) \<noteq> []"
    "irh_ready (use_init_removal_heuristic_n g) hist tid (irh g)"
  shows "\<exists>g'. ProcessFence tid False ctxt a sz g = Inr g'"
  by (rule ProcessFence_spec [OF assms, of ctxt a sz]) blast

lemma store_total:
  assumes "hawk_inv g" "vector_clocks (get_thread_data g tid) \<noteq> []"
    "irh_ready (use_init_removal_heuristic_n g) hist tid (irh g)" "sz \<le> 64"
  shows "\<exists>g' hist'. ProcessStore tid a sz ctxt g = Inr g' \<and> keeps tid g g' \<and>
    irh_ready (use_init_removal_heuristic_n g') hist' tid (irh g')"
proof -
  from ProcessStore_spec [OF assms] obtain g' where g': "ProcessStore tid a sz ctxt g = Inr g'" "keeps tid g g'"
    by blast
  from irh_frame_ready [OF assms(3) hf.F_ProcessStore [OF g'(1)] refl] obtain hist'
    where "irh_ready (use_init_removal_heuristic_n g) hist' tid (irh g')" by blast
  with g' keeps_facts(4) [OF g'(2)] show ?thesis by auto
qed

lemma rmw_total:
  assumes "hawk_inv g" "vector_clocks (get_thread_data g tid) \<noteq> []"
    "irh_ready (use_init_removal_heuristic_n g) hist tid (irh g)" "sz \<le> 64"
  shows "\<exists>g'. ProcessFence tid True ctxt a sz g = Inr g'"
proof (cases "sz = 0")
  case True
  with fence_total [OF assms(1-3)] show ?thesis by (simp add: ProcessFence_rmw)
next
  case False
  from store_total [OF assms] obtain g1 hist1 where 1: "ProcessStore tid a sz ctxt g = Inr g1" "keeps tid g g1"
    "irh_ready (use_init_removal_heuristic_n g1) hist1 tid (irh g1)" by blast
  from keeps_ready [OF 1(2) assms(2)] fence_total [OF _ _ 1(3), of ctxt a sz]
  show ?thesis using 1(1) False by (simp add: ProcessFence_rmw)
qed

text \<open>The callbacks of a thread that read or write memory, and its end.\<close>

inductive memory_callback :: "nat \<Rightarrow> event \<Rightarrow> bool" for tid where
  "sz \<le> 64 \<Longrightarrow> memory_callback tid (EvWrite tid ctxt a sz type)"
| "memory_callback tid (EvFlush tid a type)"
| "memory_callback tid (EvFence tid ctxt)"
| "sz \<le> 64 \<Longrightarrow> memory_callback tid (EvRMW tid ctxt a sz)"
| "0 < sz \<Longrightarrow> sz \<le> 64 \<Longrightarrow> memory_callback tid (EvRead tid ctxt a sz a2)"
| "memory_callback tid (EvThreadExit tid)"

lemma memory_callback_total:
  assumes inv: "hawk_inv g" and vc: "vector_clocks (get_thread_data g tid) \<noteq> []"
    and irh: "irh_ready (use_init_removal_heuristic_n g) hist tid (irh g)" and e: "memory_callback tid e"
  shows "\<exists>g'. hawk_step c e g = Inr g'"
  using e
proof cases
  case (1 sz ctxt a type)
  then show ?thesis using store_total [OF inv vc irh, of sz a ctxt] by (auto simp: TraceWrite_def)
next
  case (3 ctxt)
  then show ?thesis using fence_total [OF inv vc irh] by (simp add: TraceFence_def)
next
  case (4 sz ctxt a)
  then show ?thesis using rmw_total [OF inv vc irh] by (simp add: TraceRMW_def)
next
  case (5 sz ctxt a a2)
  then show ?thesis using ProcessRead_spec [OF inv vc irh 5(2,3)] by (auto simp: TraceRead_def)
next
  case 6
  then show ?thesis using ProcessThreadExit_spec [OF inv vc irh] by (auto simp: TraceThreadExit_def)
qed simp

lemma reachable_ready:
  assumes "reachable c (init_hawk n d u) g" "card {t. started g t} \<le> 64" "started g tid"
  obtains hist where "hawk_inv g" "vector_clocks (get_thread_data g tid) \<noteq> []"
    "irh_ready (use_init_removal_heuristic_n g) hist tid (irh g)" "use_init_removal_heuristic_n g = n"
  using reachable_hawk_inv [OF assms(1)] ready [OF _ assms(3)] reachable_irh_ready [OF assms] that by blast

section \<open>The effective lockset\<close>

lemma write_recorded:
  assumes run: "reachable c (init_hawk n d u) g" and few: "card {t. started g t} \<le> 64" and t: "started g tid"
    and sz: "sz \<le> 64" and pm: "IsPMAddress a sz (pm g)"
    and step: "hawk_step c (EvWrite tid ctxt a sz STORE) g = Inr g'" and b: "b \<in> set (byte_range a sz)"
  shows "\<exists>data. mem_at (mem_state (get_thread_data g' tid)) b = Some data \<and>
    tls_valid (tls_heap g') (timed_lockset data) \<and>
    timedlockset_at (tls_heap g') (timed_lockset data) = current_timedlockset (get_thread_data g tid) \<and>
    trace_is (bt_heap g') (sd_backtrace data) (call_trace g tid ctxt) \<and> lock_frame g g'"
proof -
  from reachable_ready [OF run few t] obtain hist where r: "hawk_inv g" "vector_clocks (get_thread_data g tid) \<noteq> []"
    "irh_ready (use_init_removal_heuristic_n g) hist tid (irh g)" by blast
  have st: "ProcessStore tid a sz ctxt g = Inr g'" using step pm by (simp add: TraceWrite_def)
  show ?thesis
    using ProcessStore_spec [OF r sz, of a ctxt] st b lf.F_ProcessStore [OF st] by (auto simp: store_data_ok_def)
qed

lemma started_mono:
  assumes "hawk_run c es g = Inr g'" "hawk_inv g"
  shows "{t. started g t} \<subseteq> {t. started g' t}"
  using hawk_run_frame [OF assms] by (auto simp: step_frame_def)

lemma run_held_locks:
  assumes run0: "hawk_run c es0 (init_hawk n d u) = Inr g0" and same: "lock_frame g0 g1"
    and run: "hawk_run c es g1 = Inr g2"
    and few: "acquisitions (thread_lock_ops c es0 (init_hawk n d u) t) + acquisitions (thread_lock_ops c es g1 t) < 2 ^ 32"
  shows "common_locks (current_timedlockset (get_thread_data g0 t)) (current_timedlockset (get_thread_data g2 t)) =
    held (current_timedlockset (get_thread_data g0 t)) - touched (thread_lock_ops c es g1 t)"
proof -
  have below0: "ts_below (current_timedlockset (get_thread_data (init_hawk n d u) t))
      (lock_clock (get_thread_data (init_hawk n d u) t))"
    and zero: "unat (lock_clock (get_thread_data (init_hawk n d u) t)) = 0"
    by (simp_all add: init_hawk_def new_ThreadData_def new_TimedLockset_def ts_below_def)
  have lt: "unat (lock_clock (get_thread_data (init_hawk n d u) t)) +
      acquisitions (thread_lock_ops c es0 (init_hawk n d u) t) < 2 ^ 32" using few zero by simp
  note r0 = run_common_locks [OF run0 below0 lt]
  have eq: "current_timedlockset (get_thread_data g1 t) = current_timedlockset (get_thread_data g0 t)"
    "lock_clock (get_thread_data g1 t) = lock_clock (get_thread_data g0 t)"
    using same by (simp_all add: lock_frame_def)
  show ?thesis
    using run_common_locks(1) [OF run, of t] r0(2,3) few zero unfolding eq by simp
qed

text \<open>
  What the heuristic answers now for an access of thread \<open>t\<close> to address \<open>a\<close>: with any history its
  state stands for, whether the address is shared.
\<close>

definition let_through :: "hawk \<Rightarrow> nat \<Rightarrow> u64 \<Rightarrow> bool" where
  "let_through g t a \<longleftrightarrow> (\<exists>g'. hawk_HandleAccessByte t a g = Inr (True, g'))"

lemma let_through_decides:
  assumes "irh_ready (use_init_removal_heuristic_n g) hist t (irh g)"
  shows "let_through g t a \<longleftrightarrow> decides (use_init_removal_heuristic_n g) hist t a"
proof -
  obtain st hist' where "hawk_HandleAccessByte t a g = Inr (decides (use_init_removal_heuristic_n g) hist t a, g\<lparr>irh := st\<rparr>)"
    using hawk_HandleAccessByte_ready [OF assms, of a] by blast
  then show ?thesis by (simp add: let_through_def)
qed

lemma let_through_off:
  assumes "reachable c (init_hawk 0 d u) g"
  shows "let_through g t a"
proof -
  have "use_init_removal_heuristic_n g = 0"
    using assms
  proof (induction)
    case (reachable_step g e g')
    then show ?case
      using hawk_step_frame [OF reachable_hawk_inv [OF reachable_step.hyps(1)] reachable_step.hyps(2,3)]
      by (simp add: step_frame_def)
  qed (simp add: init_hawk_def)
  then show ?thesis by (simp add: let_through_def hawk_HandleAccessByte_def HandleAccessByte_def)
qed

lemma fence_recorded:
  assumes run: "reachable c (init_hawk n d u) g" and few: "card {t. started g t} \<le> 64" and t: "started g tid"
    and data: "mem_at (flushed_mem_state (get_thread_data g tid)) b = Some data"
  shows "\<exists>g' new. hawk_step c (EvFence tid ctxt) g = Inr g' \<and> keeps tid g g' \<and>
    race_likely_stores (get_thread_data g' tid) = race_likely_stores (get_thread_data g tid) @ new \<and>
    (\<forall>s \<in> set new. sfd_address s = b \<longrightarrow>
       store_record g' tid (current_timedlockset (get_thread_data g tid)) (b, data) True True s \<and>
       trace_is (bt_heap g') (fence_trace s) (call_trace g tid ctxt)) \<and>
    (let_through g tid b \<longrightarrow> (\<exists>s \<in> set new. sfd_address s = b))"
proof -
  from reachable_ready [OF run few t] obtain hist where r: "hawk_inv g" "vector_clocks (get_thread_data g tid) \<noteq> []"
    "irh_ready (use_init_removal_heuristic_n g) hist tid (irh g)" "use_init_removal_heuristic_n g = n" by blast
  let ?fl = "flushed_mem_state (get_thread_data g tid)" and ?l = "current_timedlockset (get_thread_data g tid)"
  obtain g' new where g': "ProcessFence tid False ctxt 0 0 g = Inr g'" "keeps tid g g'"
    "race_likely_stores (get_thread_data g' tid) = race_likely_stores (get_thread_data g tid) @ new"
    and new: "list_all2 (\<lambda>w s. store_record g' tid ?l w True True s \<and>
        trace_is (bt_heap g') (fence_trace s) (call_trace g tid ctxt))
      (filter (\<lambda>w. decides (use_init_removal_heuristic_n g) hist tid (fst w)) (mem_entries ?fl)) new"
    by (rule ProcessFence_spec [OF r(1-3), of ctxt 0 0]) blast
  have entry: "(b, e) \<in> set (mem_entries ?fl) \<longleftrightarrow> e = data" for e
    unfolding mem_entries_iff [OF hawk_inv_mem(2) [OF r(1)]] data by auto
  have each: "store_record g' tid ?l (b, data) True True s \<and> trace_is (bt_heap g') (fence_trace s) (call_trace g tid ctxt)"
    if "s \<in> set new" "sfd_address s = b" for s
  proof -
    from list_all2_set2 [OF new that(1)] obtain x e where w: "(x, e) \<in> set (mem_entries ?fl)"
      "store_record g' tid ?l (x, e) True True s"
      "trace_is (bt_heap g') (fence_trace s) (call_trace g tid ctxt)" by auto
    have "x = b" using w(2) that(2) by (simp add: store_record_def)
    with w(1) entry have "e = data" by simp
    with w \<open>x = b\<close> show ?thesis by simp
  qed
  have some: "\<exists>s \<in> set new. sfd_address s = b" if "let_through g tid b"
  proof -
    have "(b, data) \<in> set (filter (\<lambda>w. decides (use_init_removal_heuristic_n g) hist tid (fst w)) (mem_entries ?fl))"
      using entry that by (simp add: let_through_decides [OF r(3)])
    from list_all2_set1 [OF new this] show ?thesis by (auto simp: store_record_def)
  qed
  show ?thesis using g' each some by (auto simp: TraceFence_def)
qed

end
