(* ===== verification/EndToEnd.thy ===== *)
theory EndToEnd
  imports Startup Persistency
begin

text \<open>
  From callbacks to the report. Recorded accesses and clocks are only added along a run
  (\<open>records_grow\<close>), so a write that a fence made persistent and a load are still recorded when
  the analysis runs; with the specifications of the handlers and of the analysis this gives
  what the tool promises about an execution: two unordered accesses without a common lock are
  reported, with the traces of the write, the fence and the load.
\<close>

section \<open>Records along a run\<close>

interpretation rf: handler_frame "\<lambda>_. records_grow"
proof
  show "records_grow a b" if "hawk_HandleAccess tid adr sz a = Inr (m, b)" for tid adr sz a m b
    using hawk_HandleAccess_spec(1) [OF that] by (auto simp: records_grow_def)
  show "records_grow a b" if "hawk_HandleAccessByte tid adr a = Inr (y, b)" for tid adr a y b
    using hawk_HandleAccess_spec(2) [OF that] by (auto simp: records_grow_def)
qed (auto simp: untouched_def intro: records_grow_trans records_grow_update)

lemma records_grow_ProcessLock: "records_grow g (ProcessLock tid lt m special g)"
  by (auto simp: ProcessLock_def lock_current_def unlock_current_def records_grow_def get_next_id_def
      Let_def td_grow_same split: prod.splits)

lemma hawk_step_records:
  assumes run: "hawk_step c e g = Inr g'"
  shows "records_grow g g'"
proof (cases e)
  case (EvWrite tid ctxt a sz type)
  then show ?thesis
    using run rf.F_ProcessStore rf.F_untouched [OF untouched_ProcessFlush]
    by (auto simp: TraceWrite_def split: if_splits)
next
  case (EvFlush tid a type)
  then show ?thesis using run rf.F_untouched [OF untouched_ProcessFlush] by (auto simp: TraceFlush_def)
next
  case (EvFence tid ctxt)
  then show ?thesis using run rf.F_ProcessFence by (auto simp: TraceFence_def)
next
  case (EvRMW tid ctxt a sz)
  then show ?thesis using run rf.F_ProcessFence by (auto simp: TraceRMW_def split: if_splits)
next
  case (EvRead tid ctxt a sz a2)
  then show ?thesis using run rf.F_RegisterAccess by (auto simp: TraceRead_def ProcessRead_def split: if_splits)
next
  case (EvTryLockAfter mem tid res success neg use_arg lt)
  then show ?thesis
    using run records_grow_ProcessLock TryLockAfter_cases [of mem tid res success neg use_arg lt g] by auto
next
  case (EvThreadExit tid)
  then show ?thesis using run rf.F_ProcessThreadExit by (auto simp: TraceThreadExit_def)
next
  case (EvImageLoad v)
  then show ?thesis using run by (auto simp: records_grow_def)
qed (use run records_grow_ProcessLock in \<open>auto simp: LockBefore_def WriteLockBefore_def ReadLockBefore_def
    UnlockBefore_def RWUnlockBefore_def TraceAdqRelBefore_def TraceAdqRelAfter_def TraceCall_def TraceRet_def
    TryLockBefore_def PthreadCreate_call_def ProcessThreadCreate_def PthreadCreate_return_def TraceThreadStart_def
    TraceThreadStart_signal_def TraceThreadStart_init_def ProcessThreadInit_def PthreadJoin_return_def
    ProcessThreadJoin_def push_clock_def records_grow_def td_grow_same Let_def td_grow_def split: if_splits\<close>)

lemma hawk_run_records: "hawk_run c es g = Inr g' \<Longrightarrow> records_grow g g'"
proof (induction es arbitrary: g)
  case (Cons e es)
  then obtain g1 where "hawk_step c e g = Inr g1" "hawk_run c es g1 = Inr g'" by (auto split: if_splits)
  from records_grow_trans [OF hawk_step_records [OF this(1)] Cons.IH [OF this(2)]] show ?case .
qed simp

lemma hawk_run_append:
  "hawk_run c (es @ fs) g = Inr g' \<longleftrightarrow> (\<exists>h. hawk_run c es g = Inr h \<and> hawk_run c fs h = Inr g')"
  by (induction es arbitrary: g) (auto split: if_splits)

lemma hawk_run_Cons:
  "hawk_run c (e # es) g = Inr g' \<longleftrightarrow> enabled e g \<and> (\<exists>h. hawk_step c e g = Inr h \<and> hawk_run c es h = Inr g')"
  by auto

text \<open>What a run leaves of the state at one of its points.\<close>

lemma run_keeps_records:
  assumes "hawk_run c es g = Inr g'" "hawk_inv g"
  shows "s \<in> set (race_likely_stores (get_thread_data g t)) \<Longrightarrow> s \<in> set (race_likely_stores (get_thread_data g' t))"
    and "map_of (race_likely_loads (get_thread_data g t)) k = Some ps \<Longrightarrow> p \<in> set ps \<Longrightarrow>
      \<exists>ps'. map_of (race_likely_loads (get_thread_data g' t)) k = Some ps' \<and> p \<in> set ps'"
    and "started g t \<Longrightarrow> started g' t"
    and "trace_is (bt_heap g) b fs \<Longrightarrow> trace_is (bt_heap g') b fs"
    and "ls_valid (ls_heap g) q \<Longrightarrow> lockset_at (ls_heap g') q = lockset_at (ls_heap g) q"
    and "tls_valid (tls_heap g) x \<Longrightarrow> tls_valid (tls_heap g') x \<and> timedlockset_at (tls_heap g') x = timedlockset_at (tls_heap g) x"
proof -
  have f: "step_frame g g'" using hawk_run_frame [OF assms] by simp
  have r: "td_grow (get_thread_data g t) (get_thread_data g' t)"
    using hawk_run_records [OF assms(1)] by (simp add: records_grow_def)
  show "s \<in> set (race_likely_stores (get_thread_data g t)) \<Longrightarrow> s \<in> set (race_likely_stores (get_thread_data g' t))"
    using r set_mono_prefix by (auto simp: td_grow_def)
  show "map_of (race_likely_loads (get_thread_data g t)) k = Some ps \<Longrightarrow> p \<in> set ps \<Longrightarrow>
      \<exists>ps'. map_of (race_likely_loads (get_thread_data g' t)) k = Some ps' \<and> p \<in> set ps'"
    using r unfolding td_grow_def by blast
  show "started g t \<Longrightarrow> started g' t" "trace_is (bt_heap g) b fs \<Longrightarrow> trace_is (bt_heap g') b fs"
    "ls_valid (ls_heap g) q \<Longrightarrow> lockset_at (ls_heap g') q = lockset_at (ls_heap g) q"
    "tls_valid (tls_heap g) x \<Longrightarrow> tls_valid (tls_heap g') x \<and> timedlockset_at (tls_heap g') x = timedlockset_at (tls_heap g) x"
    using f trace_is_mono ls_extends_at tls_extends_at tls_extends_valid by (auto simp: step_frame_def)
qed

section \<open>A write and its fence\<close>

lemma fence_after_write:
  assumes run0: "hawk_run c es0 (init_hawk n d u) = Inr g0" and t: "started g0 tid"
    and sz: "sz \<le> 64" and pm: "IsPMAddress a sz (pm g0)" and b: "b \<in> set (byte_range a sz)"
    and store: "hawk_step c (EvWrite tid ctxt a sz STORE) g0 = Inr g1"
    and run: "hawk_run c es g1 = Inr g2" and few: "card {t. started g2 t} \<le> 64"
    and pending: "mem_at (flushed_mem_state (get_thread_data g2 tid)) b = mem_at (mem_state (get_thread_data g1 tid)) b"
    and wrap: "acquisitions (thread_lock_ops c es0 (init_hawk n d u) tid) + acquisitions (thread_lock_ops c es g1 tid) < 2 ^ 32"
  shows "\<exists>g3 new. hawk_step c (EvFence tid ctxt') g2 = Inr g3 \<and>
    race_likely_stores (get_thread_data g3 tid) = race_likely_stores (get_thread_data g2 tid) @ new \<and>
    (\<forall>s \<in> set new. sfd_address s = b \<longrightarrow> persisted s \<and> was_flushed s \<and>
       sfd_clock_i s = current_clock_i (get_thread_data g2 tid) \<and> ls_valid (ls_heap g3) (common_set s) \<and>
       trace_is (bt_heap g3) (write_trace s) (call_trace g0 tid ctxt) \<and>
       trace_is (bt_heap g3) (fence_trace s) (call_trace g2 tid ctxt') \<and>
       members (lockset_at (ls_heap g3) (common_set s)) =
         held (current_timedlockset (get_thread_data g0 tid)) - touched (thread_lock_ops c es g1 tid)) \<and>
    (let_through g2 tid b \<longrightarrow> (\<exists>s \<in> set new. sfd_address s = b))"
proof -
  have r0: "reachable c (init_hawk n d u) g0" by (rule hawk_run_reachable [OF run0 reachable_init])
  have en: "enabled (EvWrite tid ctxt a sz STORE) g0" using t by (simp add: enabled_def)
  have r1: "reachable c (init_hawk n d u) g1" by (rule reachable_step [OF r0 en store])
  have r2: "reachable c (init_hawk n d u) g2" by (rule hawk_run_reachable [OF run r1])
  have i0: "hawk_inv g0" and i1: "hawk_inv g1" by (rule reachable_hawk_inv, fact)+
  note k = run_keeps_records [OF run i1]
  have f01: "step_frame g0 g1" by (rule hawk_step_frame [OF i0 en store])
  have sub: "{t. started g0 t} \<subseteq> {t. started g2 t}" and t2: "started g2 tid"
    using f01 k(3) t by (auto simp: step_frame_def)
  have few0: "card {t. started g0 t} \<le> 64" using card_mono [OF finite_started [OF r2] sub] few by simp
  from write_recorded [OF r0 few0 t sz pm store b] obtain data where
    data: "mem_at (mem_state (get_thread_data g1 tid)) b = Some data" "tls_valid (tls_heap g1) (timed_lockset data)"
      "timedlockset_at (tls_heap g1) (timed_lockset data) = current_timedlockset (get_thread_data g0 tid)"
      "trace_is (bt_heap g1) (sd_backtrace data) (call_trace g0 tid ctxt)" "lock_frame g0 g1" by blast
  have locks: "common_locks (current_timedlockset (get_thread_data g2 tid)) (current_timedlockset (get_thread_data g0 tid)) =
      held (current_timedlockset (get_thread_data g0 tid)) - touched (thread_lock_ops c es g1 tid)"
    using run_held_locks [OF run0 data(5) run wrap] by (simp add: common_locks_sym)
  from fence_recorded [OF r2 few t2 trans [OF pending data(1)], of ctxt'] obtain g3 new where
    g3: "hawk_step c (EvFence tid ctxt') g2 = Inr g3" "keeps tid g2 g3"
      "race_likely_stores (get_thread_data g3 tid) = race_likely_stores (get_thread_data g2 tid) @ new"
    and new: "\<forall>s \<in> set new. sfd_address s = b \<longrightarrow>
       store_record g3 tid (current_timedlockset (get_thread_data g2 tid)) (b, data) True True s \<and>
       trace_is (bt_heap g3) (fence_trace s) (call_trace g2 tid ctxt')"
      "let_through g2 tid b \<longrightarrow> (\<exists>s \<in> set new. sfd_address s = b)" by blast
  show ?thesis
    using g3(1,3) new k(6) [OF data(2)] k(4) [OF data(4)] data(3) locks keeps_facts(5,7,8) [OF g3(2)]
    by (auto simp: store_record_def)
qed

section \<open>A load\<close>

lemma load_recorded:
  assumes run: "reachable c (init_hawk n d u) g" and few: "card {t. started g t} \<le> 64" and t: "started g tid"
    and sz: "0 < sz" "sz \<le> 64" and pm: "IsPMAddress a sz (pm g)" and through: "let_through g tid a"
  shows "\<exists>g' key ps p. hawk_step c (EvRead tid ctxt a sz a2) g = Inr g' \<and>
    map_of (race_likely_loads (get_thread_data g' tid)) key = Some ps \<and> p \<in> set ps \<and>
    key_address key = a \<and> (\<forall>i. bit (key_mask key) i \<longleftrightarrow> i < unat sz) \<and>
    trace_is (bt_heap g') (key_backtrace key) (call_trace g tid ctxt) \<and>
    key_clock_i key = current_clock_i (get_thread_data g tid) \<and> ls_valid (ls_heap g') p \<and>
    members (lockset_at (ls_heap g') p) = held (current_timedlockset (get_thread_data g tid))"
proof -
  from reachable_ready [OF run few t] obtain hist where r: "hawk_inv g" "vector_clocks (get_thread_data g tid) \<noteq> []"
    "irh_ready (use_init_removal_heuristic_n g) hist tid (irh g)" by blast
  have "decides (use_init_removal_heuristic_n g) hist tid a" using through let_through_decides [OF r(3)] by simp
  with ProcessRead_spec [OF r(1-3) sz, of a ctxt] obtain g' key p where
    "ProcessRead tid a sz ctxt g = Inr g'" "key_address key = a"
    "trace_is (bt_heap g') (key_backtrace key) (call_trace g tid ctxt)"
    "key_clock_i key = current_clock_i (get_thread_data g tid)" "\<forall>i. bit (key_mask key) i \<longleftrightarrow> i < unat sz"
    "ls_valid (ls_heap g') p" "members (lockset_at (ls_heap g') p) = held (current_timedlockset (get_thread_data g tid))"
    "race_likely_loads (get_thread_data g' tid) = um_modify key [] (os_insert p) (race_likely_loads (get_thread_data g tid))"
    by auto
  then show ?thesis
    using pm by (intro exI [of _ g'] exI [of _ key] exI [of _ p] exI [of _ "os_insert p _"]) (auto simp: TraceRead_def)
qed

section \<open>Races and happens-before\<close>

lemma race_iff_unordered:
  assumes run: "hawk_run c es (init_hawk n d u) = Inr g" and len: "length es \<le> 2 ^ 62"
    and s: "recorded_store g st s" and l: "recorded_load g lt l"
  shows "race g st s lt l \<longleftrightarrow> st \<noteq> lt \<and> touches (fst l) (sfd_address s) \<and>
     ((lt, unat (key_clock_i (fst l))), (st, unat (sfd_clock_i s))) \<notin> run_happens_before c es (init_hawk n d u) \<and>
     ((st, unat (sfd_clock_i s)), (lt, unat (key_clock_i (fst l)))) \<notin> run_happens_before c es (init_hawk n d u) \<and>
     (\<exists>p \<in> set (snd l). members (lockset_at (ls_heap g) p) \<inter> members (lockset_at (ls_heap g) (common_set s)) = {})"
proof -
  have i: "unat (key_clock_i (fst l)) < length (vector_clocks (get_thread_data g lt))"
    "unat (sfd_clock_i s) < length (vector_clocks (get_thread_data g st))"
    using hawk_inv_td [OF hawk_run_init(2) [OF run]] s l
    by (auto simp: td_ok_def recorded_store_def recorded_load_def store_ok_def load_ok_def)
  show ?thesis
    using run_clock_le(1) [OF run len i] run_clock_le(1) [OF run len i(2,1)]
      is_concurrent_iff [OF run_clock_le(2) [OF run len i] run_clock_le(2) [OF run len i(2,1)]]
    by (simp add: race_def)
qed

text \<open>The epoch a thread is in: the index of its last clock.\<close>

definition epoch_of :: "hawk \<Rightarrow> nat \<Rightarrow> epoch" where
  "epoch_of g t = (t, length (vector_clocks (get_thread_data g t)) - 1)"

lemma few_before:
  assumes "hawk_run c es g = Inr g'" "reachable c (init_hawk n d u) g" "card {t. started g' t} \<le> 64"
  shows "card {t. started g t} \<le> 64"
proof -
  have "{t. started g t} \<subseteq> {t. started g' t}"
    using run_keeps_records(3) [OF assms(1) reachable_hawk_inv [OF assms(2)]] by blast
  from card_mono [OF finite_started [OF hawk_run_reachable [OF assms(1,2)]] this] assms(3) show ?thesis by simp
qed

text \<open>The callbacks that make the flushed writes of thread \<open>w\<close> persistent and do nothing else.\<close>

definition fence_event :: "(u64 \<Rightarrow> u32 \<Rightarrow> bool) \<Rightarrow> nat \<Rightarrow> u64 \<Rightarrow> event \<Rightarrow> bool" where
  "fence_event is_pm w ctxt F \<longleftrightarrow> F = EvFence w ctxt \<or> (\<exists>a sz. F = EvRMW w ctxt a sz \<and> \<not> is_pm a sz)"

lemma fence_event_step:
  assumes "fence_event (\<lambda>a sz. IsPMAddress a sz (pm g)) w ctxt F"
  shows "hawk_step c F g = hawk_step c (EvFence w ctxt) g" "enabled F g \<longleftrightarrow> started g w" "thread_of F = Some w"
  using assms by (auto simp: fence_event_def TraceRMW_def TraceFence_def ProcessFence_rmw enabled_def)

text \<open>A fenced write as the analysis at the end of the run finds it.\<close>

lemma fenced_write_in_final_state:
  assumes run: "hawk_run c (e1 @ EvWrite w ctxt a sz STORE # e2 @ F # e3) (init_hawk n d u) = Inr g"
    and few: "card {t. started g t} \<le> 64"
    and states: "hawk_run c e1 (init_hawk n d u) = Inr g0" "hawk_step c (EvWrite w ctxt a sz STORE) g0 = Inr g1"
      "hawk_run c e2 g1 = Inr g2"
    and fence: "fence_event (\<lambda>a sz. IsPMAddress a sz (pm g2)) w ctxt' F"
    and write_ok: "sz \<le> 64" "IsPMAddress a sz (pm g0)" "b \<in> set (byte_range a sz)"
    and through: "let_through g2 w b"
    and pending: "mem_at (flushed_mem_state (get_thread_data g2 w)) b = mem_at (mem_state (get_thread_data g1 w)) b"
    and small: "length (vector_clocks (get_thread_data g2 w)) \<le> 2 ^ 16"
    and wrap: "acquisitions (thread_lock_ops c e1 (init_hawk n d u) w) + acquisitions (thread_lock_ops c e2 g1 w) < 2 ^ 32"
  shows "\<exists>s. recorded_store g w s \<and> sfd_address s = b \<and> persisted s \<and> was_flushed s \<and>
    (w, unat (sfd_clock_i s)) = epoch_of g2 w \<and>
    trace_is (bt_heap g) (write_trace s) (call_trace g0 w ctxt) \<and>
    trace_is (bt_heap g) (fence_trace s) (call_trace g2 w ctxt') \<and>
    members (lockset_at (ls_heap g) (common_set s)) =
      held (current_timedlockset (get_thread_data g0 w)) - touched (thread_lock_ops c e2 g1 w)"
proof -
  note F = fence_event_step [OF fence]
  obtain g3 where f3: "enabled F g2" "hawk_step c F g2 = Inr g3" "hawk_run c e3 g3 = Inr g"
    and en0: "enabled (EvWrite w ctxt a sz STORE) g0"
    using run states by (auto simp: hawk_run_append hawk_run_Cons simp del: hawk_run.simps)
  have st0: "started g0 w" and st2: "started g2 w" using f3(1) en0 F(2) by (simp_all add: enabled_def)
  have r1: "reachable c (init_hawk n d u) g1"
    using hawk_run_reachable [OF states(1) reachable_init] en0 states(2) by (rule reachable_step)
  have r2: "reachable c (init_hawk n d u) g2" by (rule hawk_run_reachable [OF states(3) r1])
  have r3: "reachable c (init_hawk n d u) g3" by (rule reachable_step [OF r2 f3(1,2)])
  have run2: "hawk_run c (F # e3) g2 = Inr g" using f3 by simp
  note k = run_keeps_records [OF f3(3) reachable_hawk_inv [OF r3]]
  from fence_after_write [OF states(1) st0 write_ok states(2,3) few_before [OF run2 r2 few] pending wrap, of ctxt'] f3(2) F(1) through
  obtain new s where
    new: "race_likely_stores (get_thread_data g3 w) = race_likely_stores (get_thread_data g2 w) @ new" "s \<in> set new"
      "sfd_address s = b"
    and s: "persisted s" "was_flushed s"
      "sfd_clock_i s = current_clock_i (get_thread_data g2 w)" "ls_valid (ls_heap g3) (common_set s)"
      "trace_is (bt_heap g3) (write_trace s) (call_trace g0 w ctxt)"
      "trace_is (bt_heap g3) (fence_trace s) (call_trace g2 w ctxt')"
      "members (lockset_at (ls_heap g3) (common_set s)) =
         held (current_timedlockset (get_thread_data g0 w)) - touched (thread_lock_ops c e2 g1 w)" by auto
  have "recorded_store g w s"
    using k(1) [of s w] new run_keeps_records(3) [OF run2 reachable_hawk_inv [OF r2] st2]
      started_bound [OF hawk_run_reachable [OF run reachable_init]]
    by (simp add: recorded_store_def started_def)
  then show ?thesis
    using new(3) s k(4) [OF s(5)] k(4) [OF s(6)] k(5) [OF s(4)]
      current_clock_i_exact [OF ready [OF reachable_hawk_inv [OF r2] st2] small]
    by (intro exI [of _ s]) (simp add: epoch_of_def)
qed

lemma write_in_final_state:
  assumes "hawk_run c (e1 @ EvWrite w ctxt a sz STORE # e2 @ EvFence w ctxt' # e3) (init_hawk 0 d u) = Inr g"
    and "card {t. started g t} \<le> 64"
    and "hawk_run c e1 (init_hawk 0 d u) = Inr g0" "hawk_step c (EvWrite w ctxt a sz STORE) g0 = Inr g1"
      "hawk_run c e2 g1 = Inr g2"
    and "sz \<le> 64" "IsPMAddress a sz (pm g0)" "b \<in> set (byte_range a sz)"
    and "mem_at (flushed_mem_state (get_thread_data g2 w)) b = mem_at (mem_state (get_thread_data g1 w)) b"
    and "length (vector_clocks (get_thread_data g2 w)) \<le> 2 ^ 16"
    and "acquisitions (thread_lock_ops c e1 (init_hawk 0 d u) w) + acquisitions (thread_lock_ops c e2 g1 w) < 2 ^ 32"
  shows "\<exists>s. recorded_store g w s \<and> sfd_address s = b \<and> persisted s \<and> was_flushed s \<and>
    (w, unat (sfd_clock_i s)) = epoch_of g2 w \<and>
    trace_is (bt_heap g) (write_trace s) (call_trace g0 w ctxt) \<and>
    trace_is (bt_heap g) (fence_trace s) (call_trace g2 w ctxt') \<and>
    members (lockset_at (ls_heap g) (common_set s)) =
      held (current_timedlockset (get_thread_data g0 w)) - touched (thread_lock_ops c e2 g1 w)"
proof -
  have fence: "fence_event (\<lambda>a sz. IsPMAddress a sz (pm g2)) w ctxt' (EvFence w ctxt')" by (simp add: fence_event_def)
  have en: "enabled (EvWrite w ctxt a sz STORE) g0"
    using assms(1,3) by (auto simp: hawk_run_append hawk_run_Cons simp del: hawk_run.simps)
  have "reachable c (init_hawk 0 d u) g2"
    by (rule hawk_run_reachable [OF assms(5) reachable_step [OF hawk_run_reachable [OF assms(3) reachable_init] en assms(4)]])
  from fenced_write_in_final_state [OF assms(1-5) fence assms(6-8) let_through_off [OF this] assms(9-)] show ?thesis .
qed

lemma load_in_final_state:
  assumes run: "hawk_run c (l1 @ EvRead r ctxt a sz a2 # l2) (init_hawk n d u) = Inr g" and few: "card {t. started g t} \<le> 64"
    and state: "hawk_run c l1 (init_hawk n d u) = Inr gl"
    and load: "0 < sz" "sz \<le> 64" "IsPMAddress a sz (pm gl)"
    and through: "let_through gl r a"
    and small: "length (vector_clocks (get_thread_data gl r)) \<le> 2 ^ 16"
  shows "\<exists>key ps p. recorded_load g r (key, ps) \<and> p \<in> set ps \<and> key_address key = a \<and>
    (\<forall>i. bit (key_mask key) i \<longleftrightarrow> i < unat sz) \<and> (r, unat (key_clock_i key)) = epoch_of gl r \<and>
    trace_is (bt_heap g) (key_backtrace key) (call_trace gl r ctxt) \<and>
    members (lockset_at (ls_heap g) p) = held (current_timedlockset (get_thread_data gl r))"
proof -
  obtain gm where lm: "enabled (EvRead r ctxt a sz a2) gl" "hawk_step c (EvRead r ctxt a sz a2) gl = Inr gm"
    "hawk_run c l2 gm = Inr g"
    using run state by (auto simp: hawk_run_append hawk_run_Cons simp del: hawk_run.simps)
  have st: "started gl r" using lm(1) by (simp add: enabled_def)
  have rl: "reachable c (init_hawk n d u) gl" by (rule hawk_run_reachable [OF state reachable_init])
  have rm: "reachable c (init_hawk n d u) gm" by (rule reachable_step [OF rl lm(1,2)])
  have run2: "hawk_run c (EvRead r ctxt a sz a2 # l2) gl = Inr g" using lm by simp
  note k = run_keeps_records [OF lm(3) reachable_hawk_inv [OF rm]]
  from load_recorded [OF rl few_before [OF run2 rl few] st load through, of ctxt a2] lm(2) obtain key ps p where
    l: "map_of (race_likely_loads (get_thread_data gm r)) key = Some ps" "p \<in> set ps" "key_address key = a"
      "\<forall>i. bit (key_mask key) i \<longleftrightarrow> i < unat sz" "trace_is (bt_heap gm) (key_backtrace key) (call_trace gl r ctxt)"
      "key_clock_i key = current_clock_i (get_thread_data gl r)" "ls_valid (ls_heap gm) p"
      "members (lockset_at (ls_heap gm) p) = held (current_timedlockset (get_thread_data gl r))" by auto
  obtain ps' where ps': "map_of (race_likely_loads (get_thread_data g r)) key = Some ps'" "p \<in> set ps'"
    using k(2) [OF l(1,2)] by blast
  have "recorded_load g r (key, ps')"
    using run_keeps_records(3) [OF run2 reachable_hawk_inv [OF rl] st] map_of_SomeD [OF ps'(1)]
      started_bound [OF hawk_run_reachable [OF run reachable_init]]
    by (simp add: recorded_load_def started_def)
  then show ?thesis
    using ps'(2) l k(4) [OF l(5)] k(5) [OF l(7)]
      current_clock_i_exact [OF ready [OF reachable_hawk_inv [OF rl] st] small]
    by (intro exI [of _ key] exI [of _ ps'] exI [of _ p]) (simp add: epoch_of_def)
qed

lemma read_in_final_state:
  assumes run: "hawk_run c (l1 @ EvRead r ctxt a sz a2 # l2) (init_hawk 0 d u) = Inr g" and few: "card {t. started g t} \<le> 64"
    and state: "hawk_run c l1 (init_hawk 0 d u) = Inr gl"
    and load: "0 < sz" "sz \<le> 64" "IsPMAddress a sz (pm gl)"
    and small: "length (vector_clocks (get_thread_data gl r)) \<le> 2 ^ 16"
  shows "\<exists>key ps p. recorded_load g r (key, ps) \<and> p \<in> set ps \<and> key_address key = a \<and>
    (\<forall>i. bit (key_mask key) i \<longleftrightarrow> i < unat sz) \<and> (r, unat (key_clock_i key)) = epoch_of gl r \<and>
    trace_is (bt_heap g) (key_backtrace key) (call_trace gl r ctxt) \<and>
    members (lockset_at (ls_heap g) p) = held (current_timedlockset (get_thread_data gl r))"
  using load_in_final_state [OF run few state load let_through_off small] hawk_run_reachable [OF state reachable_init] by blast

text \<open>A recorded store and a recorded load in unordered epochs with no lock in common are reported.\<close>

lemma race_reported:
  assumes run: "hawk_run c es (init_hawk n d u) = Inr g" and len: "length es \<le> 2 ^ 62"
    and s: "recorded_store g w s" and l: "recorded_load g r (key, ps)" "p \<in> set ps"
    and byte: "touches key (sfd_address s)" and ne: "w \<noteq> r"
    and epochs: "(w, unat (sfd_clock_i s)) = a" "(r, unat (key_clock_i key)) = b"
    and unordered: "(a, b) \<notin> run_happens_before c es (init_hawk n d u)" "(b, a) \<notin> run_happens_before c es (init_hawk n d u)"
    and locks: "members (lockset_at (ls_heap g) p) \<inter> members (lockset_at (ls_heap g) (common_set s)) = {}"
  shows "reported (CheckPMRaces g) (persisted s) (write_trace s, fence_trace s, was_flushed s) (key_backtrace key)"
proof -
  have "race g w s r (key, ps)"
    using unordered ne byte l(2) locks
    by (auto simp: race_iff_unordered [OF run len s(1) l(1)] epochs intro!: bexI [of _ p])
  then show ?thesis
    unfolding CheckPMRaces_reported [OF hawk_run_init(3) [OF run]] using s l(1) by force
qed

end
