(* ===== verification/Provenance.thy ===== *)
theory Provenance
  imports EndToEnd
begin

text \<open>
  What one callback adds to the recorded accesses. \<open>writes_byte\<close> and
  \<open>loads_byte\<close> say what a callback does to memory, \<open>ends_window\<close> when a pending write is persisted,
  overwritten or lost; only such a callback adds a pending write, a recorded store or a load
  (\<open>hawk_step_adds\<close>, \<open>hawk_step_loads\<close>).
\<close>

section \<open>What a callback does to memory\<close>

fun writes_byte :: "event \<Rightarrow> hawk \<Rightarrow> nat \<Rightarrow> u64 \<Rightarrow> u64 \<Rightarrow> bool" where
  "writes_byte (EvWrite tid ctxt a sz type) g t x b \<longleftrightarrow>
     tid = t \<and> ctxt = x \<and> type \<noteq> NON_TEMPORAL_STORE \<and> IsPMAddress a sz (pm g) \<and> b \<in> set (byte_range a sz)"
| "writes_byte (EvRMW tid ctxt a sz) g t x b \<longleftrightarrow>
     tid = t \<and> ctxt = x \<and> IsPMAddress a sz (pm g) \<and> b \<in> set (byte_range a sz)"
| "writes_byte e g t x b \<longleftrightarrow> False"

fun loads_byte :: "event \<Rightarrow> hawk \<Rightarrow> nat \<Rightarrow> u64 \<Rightarrow> u64 \<Rightarrow> bool" where
  "loads_byte (EvRead tid ctxt a sz a2) g t x b \<longleftrightarrow>
     tid = t \<and> ctxt = x \<and>
     (\<exists>i < unat sz. if IsPMAddress a sz (pm g) then b = a + of_nat i
        else a2 \<noteq> 0 \<and> IsPMAddress a2 sz (pm g) \<and> b = a2 + of_nat i)"
| "loads_byte e g t x b \<longleftrightarrow> False"

section \<open>Loads\<close>

definition loads_same :: "hawk \<Rightarrow> hawk \<Rightarrow> bool" where
  "loads_same g g' \<longleftrightarrow> (\<forall>t. race_likely_loads (get_thread_data g' t) = race_likely_loads (get_thread_data g t))"

interpretation ls: handler_base "\<lambda>_. loads_same"
proof
  show "loads_same a b" if "hawk_HandleAccess tid adr sz a = Inr (m, b)" for tid adr sz a m b
    using hawk_HandleAccess_spec(1) [OF that] by (auto simp: loads_same_def)
  show "loads_same a b" if "hawk_HandleAccessByte tid adr a = Inr (y, b)" for tid adr a y b
    using hawk_HandleAccess_spec(2) [OF that] by (auto simp: loads_same_def)
qed (auto simp: loads_same_def untouched_def)

text \<open>Every callback but a load leaves the recorded loads alone.\<close>

lemma hawk_step_loads_same:
  assumes run: "hawk_step c e g = Inr g'" and e: "\<forall>tid ctxt a sz a2. e \<noteq> EvRead tid ctxt a sz a2"
  shows "loads_same g g'"
proof (cases e)
  case (EvWrite tid ctxt a sz type)
  then show ?thesis
    using run ls.F_ProcessStore ls.F_untouched [OF untouched_ProcessFlush] ls.F_refl
    by (auto simp: TraceWrite_def split: if_splits)
next
  case (EvFlush tid a type)
  then show ?thesis using run ls.F_untouched [OF untouched_ProcessFlush] ls.F_refl by (auto simp: TraceFlush_def)
next
  case (EvFence tid ctxt)
  then show ?thesis using run ls.F_ProcessFence by (auto simp: TraceFence_def)
next
  case (EvRMW tid ctxt a sz)
  then show ?thesis using run ls.F_ProcessFence by (auto simp: TraceRMW_def split: if_splits)
next
  case (EvRead tid ctxt a sz a2)
  then show ?thesis using e by blast
next
  case (EvTryLockAfter mem tid res success neg use_arg lt)
  then show ?thesis
    using run TryLockAfter_cases [of mem tid res success neg use_arg lt g]
    by (auto simp: loads_same_def ProcessLock_def lock_current_def unlock_current_def get_next_id_def Let_def split: prod.splits)
next
  case (EvThreadExit tid)
  then show ?thesis using run ls.F_ProcessThreadExit by (auto simp: TraceThreadExit_def)
next
  case (EvImageLoad v)
  then show ?thesis using run by (auto simp: loads_same_def)
qed (use run in \<open>auto simp: LockBefore_def WriteLockBefore_def ReadLockBefore_def
    UnlockBefore_def RWUnlockBefore_def TraceAdqRelBefore_def TraceAdqRelAfter_def TraceCall_def TraceRet_def
    TryLockBefore_def PthreadCreate_call_def ProcessThreadCreate_def PthreadCreate_return_def TraceThreadStart_def
    TraceThreadStart_signal_def TraceThreadStart_init_def ProcessThreadInit_def PthreadJoin_return_def
    ProcessThreadJoin_def push_clock_def loads_same_def ProcessLock_def lock_current_def unlock_current_def
    get_next_id_def Let_def split: if_splits prod.splits\<close>)

lemma ProcessRead_empty:
  assumes "ProcessRead tid a 0 ctxt g = Inr g'"
  shows "loads_same g g'"
proof -
  obtain m g1 where 1: "hawk_HandleAccess tid a 0 g = Inr (m, g1)"
    using assms by (auto simp: ProcessRead_def RegisterAccess_def)
  then have "m = 0" by (auto simp: hawk_HandleAccess_def HandleAccess_def split: if_splits)
  with assms 1 hawk_HandleAccess_spec(1) [OF 1] show ?thesis
    by (auto simp: ProcessRead_def RegisterAccess_def loads_same_def)
qed

lemma HandleAccess_size: "hawk_HandleAccess tid a sz g = Inr (m, g') \<Longrightarrow> sz \<le> 64"
  by (auto simp: hawk_HandleAccess_def HandleAccess_def split: if_splits)

text \<open>A load adds one lockset under one key.\<close>

definition load_added :: "hawk \<Rightarrow> hawk \<Rightarrow> nat \<Rightarrow> u64 \<Rightarrow> u64 \<Rightarrow> u32 \<Rightarrow> bool" where
  "load_added g g' tid ctxt a sz \<longleftrightarrow>
     (\<exists>key p. key_address key = a \<and> (\<forall>i. bit (key_mask key) i \<longleftrightarrow> i < unat sz) \<and>
        trace_is (bt_heap g') (key_backtrace key) (call_trace g tid ctxt) \<and>
        key_clock_i key = current_clock_i (get_thread_data g tid) \<and> ls_valid (ls_heap g') p \<and>
        members (lockset_at (ls_heap g') p) = held (current_timedlockset (get_thread_data g tid)) \<and>
        race_likely_loads (get_thread_data g' tid) = um_modify key [] (os_insert p) (race_likely_loads (get_thread_data g tid)))"

lemma ProcessRead_loads:
  assumes run: "reachable c (init_hawk n d u) g" and few: "card {t. started g t} \<le> 64" and t: "started g tid"
    and step: "ProcessRead tid a sz ctxt g = Inr g'"
  shows "loads_same g g' \<or> (load_added g g' tid ctxt a sz \<and> (\<forall>t. t \<noteq> tid \<longrightarrow> get_thread_data g' t = get_thread_data g t))"
proof (cases "sz = 0")
  case True
  then show ?thesis using ProcessRead_empty step by simp
next
  case False
  have sz: "sz \<le> 64" using step HandleAccess_size by (auto simp: ProcessRead_def RegisterAccess_def)
  from reachable_ready [OF run few t] obtain hist where r: "hawk_inv g" "vector_clocks (get_thread_data g tid) \<noteq> []"
    "irh_ready (use_init_removal_heuristic_n g) hist tid (irh g)" by blast
  have "0 < sz" using False by (simp add: word_gt_0)
  from ProcessRead_spec [OF r this sz, of a ctxt] step
  have k: "keeps tid g g'" and
    l: "if decides (use_init_removal_heuristic_n g) hist tid a then load_added g g' tid ctxt a sz
      else race_likely_loads (get_thread_data g' tid) = race_likely_loads (get_thread_data g tid)"
    unfolding load_added_def by (auto split: if_splits)
  have "\<forall>t. t \<noteq> tid \<longrightarrow> get_thread_data g' t = get_thread_data g t" using keeps_facts(10) [OF k] by blast
  with l show ?thesis unfolding loads_same_def by (metis)
qed

section \<open>Pending writes and recorded stores\<close>

text \<open>A write in the map of flushed or of dirty writes, and in either.\<close>

definition pending_in :: "hawk \<Rightarrow> nat \<Rightarrow> bool \<Rightarrow> u64 \<Rightarrow> StoreData \<Rightarrow> bool" where
  "pending_in g t fl b d \<longleftrightarrow>
     mem_at (if fl then flushed_mem_state (get_thread_data g t) else mem_state (get_thread_data g t)) b = Some d"

definition pending_at :: "hawk \<Rightarrow> nat \<Rightarrow> u64 \<Rightarrow> StoreData \<Rightarrow> bool" where
  "pending_at g t b d \<longleftrightarrow> (\<exists>fl. pending_in g t fl b d)"

lemma pending_at_alt: "pending_at g t b d \<longleftrightarrow> pending_in g t True b d \<or> pending_in g t False b d"
  unfolding pending_at_def by (metis (full_types))

text \<open>The data of a write of thread \<open>t\<close> in state \<open>g\<close>, kept in a later state \<open>g'\<close>.\<close>

definition write_data :: "hawk \<Rightarrow> hawk \<Rightarrow> nat \<Rightarrow> u64 \<Rightarrow> StoreData \<Rightarrow> bool" where
  "write_data g g' t x d \<longleftrightarrow>
     tls_valid (tls_heap g') (timed_lockset d) \<and>
     timedlockset_at (tls_heap g') (timed_lockset d) = current_timedlockset (get_thread_data g t) \<and>
     trace_is (bt_heap g') (sd_backtrace d) (call_trace g t x)"

text \<open>
  What ends the time a pending write of byte \<open>b\<close> is visible and not persistent: a fence, which
  makes it persistent, another write of the byte, or the end of the thread; with the trace
  that is recorded for it.
\<close>

fun ends_window :: "event \<Rightarrow> hawk \<Rightarrow> nat \<Rightarrow> u64 \<Rightarrow> bool \<Rightarrow> u64 list option \<Rightarrow> bool" where
  "ends_window (EvFence tid ctxt) g t b pers tr \<longleftrightarrow> tid = t \<and> pers \<and> tr = Some (call_trace g t ctxt)"
| "ends_window (EvWrite tid ctxt a sz type) g t b pers tr \<longleftrightarrow>
     \<not> pers \<and> writes_byte (EvWrite tid ctxt a sz type) g t ctxt b \<and> tr = Some (call_trace g t ctxt)"
| "ends_window (EvRMW tid ctxt a sz) g t b pers tr \<longleftrightarrow>
     tid = t \<and> (\<not> pers \<longrightarrow> writes_byte (EvRMW tid ctxt a sz) g t ctxt b) \<and> tr = Some (call_trace g t ctxt)"
| "ends_window (EvThreadExit tid) g t b pers tr \<longleftrightarrow> tid = t \<and> \<not> pers \<and> tr = None"
| "ends_window e g t b pers tr \<longleftrightarrow> False"

text \<open>The recorded trace: none at the end of a thread.\<close>

definition trace_opt :: "backtrace_heap \<Rightarrow> backtrace_t \<Rightarrow> u64 list option \<Rightarrow> bool" where
  "trace_opt h b tr \<longleftrightarrow> (case tr of None \<Rightarrow> b = None | Some fs \<Rightarrow> trace_is h b fs)"

lemma trace_opt_simps [simp]: "trace_opt h b None \<longleftrightarrow> b = None" "trace_opt h b (Some fs) \<longleftrightarrow> trace_is h b fs"
  by (simp_all add: trace_opt_def)

text \<open>The store that thread \<open>t\<close> records in state \<open>g\<close> for its pending write \<open>d\<close>.\<close>

definition record_data :: "hawk \<Rightarrow> hawk \<Rightarrow> nat \<Rightarrow> u64 list option \<Rightarrow> StoreData \<Rightarrow> StoreFenceData \<Rightarrow> bool" where
  "record_data g g' t tr d s \<longleftrightarrow>
     write_trace s = sd_backtrace d \<and> trace_opt (bt_heap g') (fence_trace s) tr \<and>
     sfd_clock_i s = current_clock_i (get_thread_data g t) \<and> ls_valid (ls_heap g') (common_set s) \<and>
     members (lockset_at (ls_heap g') (common_set s)) =
       common_locks (current_timedlockset (get_thread_data g t)) (timedlockset_at (tls_heap g') (timed_lockset d))"

text \<open>No change of pending writes or recorded stores, in any thread.\<close>

definition mem_calm :: "hawk \<Rightarrow> hawk \<Rightarrow> bool" where
  "mem_calm g g' \<longleftrightarrow>
     (\<forall>t. mem_state (get_thread_data g' t) = mem_state (get_thread_data g t) \<and>
          flushed_mem_state (get_thread_data g' t) = flushed_mem_state (get_thread_data g t) \<and>
          race_likely_stores (get_thread_data g' t) = race_likely_stores (get_thread_data g t))"

lemma mem_calm_refl [simp, intro]: "mem_calm g g"
  by (simp add: mem_calm_def)

lemma mem_calm_trans: "mem_calm a b \<Longrightarrow> mem_calm b c \<Longrightarrow> mem_calm a c"
  unfolding mem_calm_def by metis

lemma mem_calm_analysis: "analysis_data_tls g' = analysis_data_tls g \<Longrightarrow> mem_calm g g'"
  by (simp add: mem_calm_def)

lemma mem_calm_HandleAccess:
  "hawk_HandleAccess tid a sz g = Inr (m, g') \<Longrightarrow> mem_calm g g'"
  "hawk_HandleAccessByte tid a g = Inr (b, g') \<Longrightarrow> mem_calm g g'"
  by (auto dest!: hawk_HandleAccess_spec intro!: mem_calm_analysis)

lemma mem_calm_get:
  "get_timedlockset tid g = (p, g') \<Longrightarrow> mem_calm g g'"
  "hawk_GetBacktrace ctxt tid g = (bt, g') \<Longrightarrow> mem_calm g g'"
  by (auto simp: get_timedlockset_def hawk_GetBacktrace_def mem_calm_def Let_def split: option.splits prod.splits if_splits)

lemma mem_calm_RegisterAccess:
  assumes "RegisterAccess tid a sz ctxt g = Inr g'"
  shows "mem_calm g g'"
proof -
  obtain m g1 where 1: "hawk_HandleAccess tid a sz g = Inr (m, g1)"
    using assms by (auto simp: RegisterAccess_def)
  obtain bt g2 where 2: "hawk_GetBacktrace ctxt tid g1 = (bt, g2)" by fastforce
  obtain p g3 where 3: "get_timedlockset tid g2 = (p, g3)" by fastforce
  have "g' = g1 \<or> mem_calm g3 g'"
    using assms 1 2 3 by (auto simp: RegisterAccess_def mem_calm_def Let_def split: if_splits prod.splits)
  then show ?thesis
    using mem_calm_HandleAccess(1) [OF 1] mem_calm_get(2) [OF 2] mem_calm_get(1) [OF 3] mem_calm_trans by blast
qed

text \<open>Callbacks that write, flush or fence, and the end of a thread.\<close>

fun mem_event :: "event \<Rightarrow> bool" where
  "mem_event (EvWrite tid ctxt a sz type) = True"
| "mem_event (EvFlush tid a type) = True"
| "mem_event (EvFence tid ctxt) = True"
| "mem_event (EvRMW tid ctxt a sz) = True"
| "mem_event (EvThreadExit tid) = True"
| "mem_event e = False"

lemma hawk_step_mem_calm:
  assumes run: "hawk_step c e g = Inr g'" and e: "\<not> mem_event e"
  shows "mem_calm g g'"
proof (cases e)
  case (EvRead tid ctxt a sz a2)
  then show ?thesis
    using run mem_calm_RegisterAccess by (auto simp: TraceRead_def ProcessRead_def split: if_splits)
next
  case (EvTryLockAfter mem tid res success neg use_arg lt)
  then show ?thesis
    using run TryLockAfter_cases [of mem tid res success neg use_arg lt g]
    by (auto simp: mem_calm_def ProcessLock_def lock_current_def unlock_current_def get_next_id_def Let_def split: prod.splits if_splits)
next
  case (EvImageLoad v)
  then show ?thesis using run by (auto simp: mem_calm_def)
qed (use run e in \<open>auto simp: LockBefore_def WriteLockBefore_def ReadLockBefore_def
    UnlockBefore_def RWUnlockBefore_def TraceAdqRelBefore_def TraceAdqRelAfter_def TraceCall_def TraceRet_def
    TryLockBefore_def PthreadCreate_call_def ProcessThreadCreate_def PthreadCreate_return_def TraceThreadStart_def
    TraceThreadStart_signal_def TraceThreadStart_init_def ProcessThreadInit_def PthreadJoin_return_def
    ProcessThreadJoin_def push_clock_def mem_calm_def ProcessLock_def lock_current_def unlock_current_def
    get_next_id_def Let_def split: if_splits prod.splits\<close>)

section \<open>What one callback adds\<close>

definition adds_only :: "event \<Rightarrow> hawk \<Rightarrow> hawk \<Rightarrow> bool" where
  "adds_only e g g' \<longleftrightarrow>
     (\<forall>t b d. pending_at g' t b d \<longrightarrow> pending_at g t b d \<or> (\<exists>x. writes_byte e g t x b \<and> write_data g g' t x d)) \<and>
     (\<forall>t s. s \<in> set (race_likely_stores (get_thread_data g' t)) \<longrightarrow>
        s \<in> set (race_likely_stores (get_thread_data g t)) \<or>
        (\<exists>tr d. ends_window e g t (sfd_address s) (persisted s) tr \<and>
           pending_in g t (was_flushed s) (sfd_address s) d \<and> record_data g g' t tr d s))"

lemma adds_onlyI:
  assumes "\<And>t b d. pending_at g' t b d \<Longrightarrow> pending_at g t b d \<or> (\<exists>x. writes_byte e g t x b \<and> write_data g g' t x d)"
    and "\<And>t s. s \<in> set (race_likely_stores (get_thread_data g' t)) \<Longrightarrow>
        s \<in> set (race_likely_stores (get_thread_data g t)) \<or>
        (\<exists>tr d. ends_window e g t (sfd_address s) (persisted s) tr \<and>
           pending_in g t (was_flushed s) (sfd_address s) d \<and> record_data g g' t tr d s)"
  shows "adds_only e g g'"
  using assms unfolding adds_only_def by blast

lemma mem_calm_adds: "mem_calm g g' \<Longrightarrow> adds_only e g g'"
  by (rule adds_onlyI) (simp_all add: mem_calm_def pending_at_alt pending_in_def)

lemma ProcessFlush_adds:
  assumes "hawk_inv g"
  shows "adds_only e g (ProcessFlush tid type a g)"
proof (rule adds_onlyI)
  let ?g = "ProcessFlush tid type a g"
  have other: "get_thread_data ?g t = get_thread_data g t" if "t \<noteq> tid" for t
    using that by (simp add: ProcessFlush_def Let_def)
  have "pending_at g tid b d" if "pending_at ?g tid b d" for b d
    using that unfolding pending_at_alt pending_in_def
    by (auto simp: ProcessFlush_view [OF assms refl] split: if_splits)
  then show "pending_at ?g t b d \<Longrightarrow> pending_at g t b d \<or> (\<exists>x. writes_byte e g t x b \<and> write_data g ?g t x d)" for t b d
    using other [of t] by (cases "t = tid") (simp_all add: pending_at_alt pending_in_def)
  have "race_likely_stores (get_thread_data ?g t) = race_likely_stores (get_thread_data g t)" for t
    by (simp add: ProcessFlush_def Let_def)
  then show "s \<in> set (race_likely_stores (get_thread_data ?g t)) \<Longrightarrow> s \<in> set (race_likely_stores (get_thread_data g t)) \<or>
      (\<exists>tr d. ends_window e g t (sfd_address s) (persisted s) tr \<and>
         pending_in g t (was_flushed s) (sfd_address s) d \<and> record_data g ?g t tr d s)" for t s by simp
qed

lemma pending_valid:
  assumes "pending_in g t fl b d" "hawk_inv g"
  shows "tls_valid (tls_heap g) (timed_lockset d)"
proof -
  have "store_data_ok (tls_heap g) (bt_heap g) (snd (b, d))"
    using assms(1) mem_entries_ok [OF hawk_inv_mem(1) [OF assms(2), of t], of "(b, d)"]
      mem_entries_ok [OF hawk_inv_mem(2) [OF assms(2), of t], of "(b, d)"]
      mem_entries_iff [OF hawk_inv_mem(1) [OF assms(2), of t]] mem_entries_iff [OF hawk_inv_mem(2) [OF assms(2), of t]]
    by (auto simp: pending_in_def split: if_splits)
  then show ?thesis by (simp add: store_data_ok_def)
qed

text \<open>A recorded store of the specifications of the handlers, as a record of a pending write.\<close>

lemma store_record_data:
  assumes s: "store_record g' t (current_timedlockset (get_thread_data g t)) (b, d) pers fl s"
    and tr: "trace_opt (bt_heap g') (fence_trace s) tr" and clk: "current_clock_i (get_thread_data g' t) = current_clock_i (get_thread_data g t)"
    and d: "pending_in g t fl b d"
  shows "persisted s = pers \<and> pending_in g t (was_flushed s) (sfd_address s) d \<and> record_data g g' t tr d s"
  using assms by (simp add: store_record_def record_data_def)

text \<open>A store adds one write to the bytes of its range, flushes nothing and records what it overwrites.\<close>

lemma ProcessStore_adds:
  assumes inv: "hawk_inv g" and vc: "vector_clocks (get_thread_data g tid) \<noteq> []"
    and irh: "irh_ready (use_init_removal_heuristic_n g) hist tid (irh g)"
    and step: "ProcessStore tid a sz ctxt g = Inr g'"
  shows "keeps tid g g'"
    and "pending_at g' t b d \<Longrightarrow> pending_at g t b d \<or> (t = tid \<and> b \<in> set (byte_range a sz) \<and> write_data g g' t ctxt d)"
    and "pending_in g' t True b d \<Longrightarrow> pending_in g t True b d"
    and "s \<in> set (race_likely_stores (get_thread_data g' t)) \<Longrightarrow> s \<in> set (race_likely_stores (get_thread_data g t)) \<or>
      (t = tid \<and> \<not> persisted s \<and> sfd_address s \<in> set (byte_range a sz) \<and>
       (\<exists>d. pending_in g t (was_flushed s) (sfd_address s) d \<and> record_data g g' t (Some (call_trace g t ctxt)) d s))"
proof -
  have sz: "sz \<le> 64" using step HandleAccess_size by (auto simp: ProcessStore_def)
  let ?td = "get_thread_data g tid"
  obtain data new where k: "keeps tid g g'" and ok: "store_data_ok (tls_heap g') (bt_heap g') data"
    "timedlockset_at (tls_heap g') (timed_lockset data) = current_timedlockset ?td"
    "trace_is (bt_heap g') (sd_backtrace data) (call_trace g tid ctxt)"
    and mem: "\<And>c. mem_at (mem_state (get_thread_data g' tid)) c =
       (if c \<in> set (byte_range a sz) then Some data else mem_at (mem_state ?td) c)"
    "\<And>c. mem_at (flushed_mem_state (get_thread_data g' tid)) c =
       (if check_unpersisted_stores g \<and> c \<in> set (byte_range a sz) then None
        else mem_at (flushed_mem_state ?td) c)"
    and new: "race_likely_stores (get_thread_data g' tid) = race_likely_stores ?td @ new"
      "list_all2 (overwrite_record g' tid (current_timedlockset ?td) (sd_backtrace data))
        (filter (\<lambda>w. decides (use_init_removal_heuristic_n g) hist tid (fst (fst w)))
          (if check_unpersisted_stores g then concat (map (overwritten ?td) (byte_range a sz)) else [])) new"
    using ProcessStore_spec [OF inv vc irh sz, of a ctxt] step by auto
  note other = keeps_facts(10) [OF k]
  show "keeps tid g g'" by (rule k)
  have "write_data g g' tid ctxt data" using ok by (simp add: write_data_def store_data_ok_def)
  then show "pending_at g' t b d \<Longrightarrow> pending_at g t b d \<or> (t = tid \<and> b \<in> set (byte_range a sz) \<and> write_data g g' t ctxt d)"
    using mem other by (cases "t = tid") (auto simp: pending_at_alt pending_in_def split: if_splits)
  show "pending_in g' t True b d \<Longrightarrow> pending_in g t True b d"
    using mem other by (cases "t = tid") (auto simp: pending_in_def split: if_splits)
  have "\<not> persisted s \<and> sfd_address s \<in> set (byte_range a sz) \<and>
      (\<exists>d. pending_in g tid (was_flushed s) (sfd_address s) d \<and> record_data g g' tid (Some (call_trace g tid ctxt)) d s)"
    if "s \<in> set new" for s
  proof -
    from list_all2_set2 [OF new(2) that] obtain x where
      "x \<in> set (concat (map (overwritten ?td) (byte_range a sz)))"
      "overwrite_record g' tid (current_timedlockset ?td) (sd_backtrace data) x s"
      by (auto split: if_splits)
    moreover obtain b d fl where "x = ((b, d), fl)" by (metis surj_pair)
    ultimately have w: "b \<in> set (byte_range a sz)" "((b, d), fl) \<in> set (overwritten ?td b)"
      "overwrite_record g' tid (current_timedlockset ?td) (sd_backtrace data) ((b, d), fl) s"
      by (auto simp: overwritten_def mem_entry_def split: option.splits)
    have p: "pending_in g tid fl b d"
      using w(2) by (auto simp: overwritten_def mem_entry_def pending_in_def split: option.splits)
    from w(3) have s: "store_record g' tid (current_timedlockset ?td) (b, d) False fl s" "fence_trace s = sd_backtrace data"
      by (simp_all add: overwrite_record_def)
    from store_record_data [OF s(1) _ keeps_facts(5) [OF k] p, of "Some (call_trace g tid ctxt)"] s ok(3) w(1)
    show ?thesis by (auto simp: store_record_def)
  qed
  then show "s \<in> set (race_likely_stores (get_thread_data g' t)) \<Longrightarrow> s \<in> set (race_likely_stores (get_thread_data g t)) \<or>
      (t = tid \<and> \<not> persisted s \<and> sfd_address s \<in> set (byte_range a sz) \<and>
       (\<exists>d. pending_in g t (was_flushed s) (sfd_address s) d \<and> record_data g g' t (Some (call_trace g t ctxt)) d s))"
    using new(1) other by (cases "t = tid") auto
qed

text \<open>A fence records flushed writes and adds no pending one.\<close>

lemma ProcessFence_adds:
  assumes inv: "hawk_inv g" and vc: "vector_clocks (get_thread_data g tid) \<noteq> []"
    and irh: "irh_ready (use_init_removal_heuristic_n g) hist tid (irh g)"
    and step: "ProcessFence tid False ctxt a sz g = Inr g'"
  shows "pending_at g' t b d \<Longrightarrow> pending_at g t b d"
    and "s \<in> set (race_likely_stores (get_thread_data g' t)) \<Longrightarrow> s \<in> set (race_likely_stores (get_thread_data g t)) \<or>
      (t = tid \<and> persisted s \<and> was_flushed s \<and> (\<exists>d. pending_in g t True (sfd_address s) d \<and>
         record_data g g' t (Some (call_trace g t ctxt)) d s))"
    and "keeps tid g g'"
proof -
  let ?td = "get_thread_data g tid"
  obtain new where k: "keeps tid g g'" and
    mem: "flushed_mem_state (get_thread_data g' tid) = []" "mem_state (get_thread_data g' tid) = mem_state ?td"
    and new: "race_likely_stores (get_thread_data g' tid) = race_likely_stores ?td @ new"
    "list_all2 (\<lambda>w s. store_record g' tid (current_timedlockset ?td) w True True s \<and>
        trace_is (bt_heap g') (fence_trace s) (call_trace g tid ctxt))
      (filter (\<lambda>w. decides (use_init_removal_heuristic_n g) hist tid (fst w)) (mem_entries (flushed_mem_state ?td))) new"
    using ProcessFence_spec [OF inv vc irh, of ctxt a sz thesis] step by auto
  note other = keeps_facts(10) [OF k]
  show "keeps tid g g'" by (rule k)
  show "pending_at g' t b d \<Longrightarrow> pending_at g t b d"
    using mem other by (cases "t = tid") (auto simp: pending_at_alt pending_in_def)
  have "persisted s \<and> was_flushed s \<and> (\<exists>d. pending_in g tid True (sfd_address s) d \<and> record_data g g' tid (Some (call_trace g tid ctxt)) d s)"
    if "s \<in> set new" for s
  proof -
    from list_all2_set2 [OF new(2) that] obtain b d where w: "(b, d) \<in> set (mem_entries (flushed_mem_state ?td))"
      "store_record g' tid (current_timedlockset ?td) (b, d) True True s"
      "trace_is (bt_heap g') (fence_trace s) (call_trace g tid ctxt)" by auto
    have p: "pending_in g tid True b d"
      using w(1) mem_entries_iff [OF hawk_inv_mem(2) [OF inv, of tid]] by (simp add: pending_in_def)
    from store_record_data [OF w(2) _ keeps_facts(5) [OF k] p, of "Some (call_trace g tid ctxt)"] w(2,3)
    show ?thesis by (auto simp: store_record_def)
  qed
  then show "s \<in> set (race_likely_stores (get_thread_data g' t)) \<Longrightarrow> s \<in> set (race_likely_stores (get_thread_data g t)) \<or>
      (t = tid \<and> persisted s \<and> was_flushed s \<and> (\<exists>d. pending_in g t True (sfd_address s) d \<and>
         record_data g g' t (Some (call_trace g t ctxt)) d s))"
    using new(1) other by (cases "t = tid") auto
qed

text \<open>The end of a thread records its pending writes.\<close>

lemma ProcessThreadExit_adds:
  assumes inv: "hawk_inv g" and vc: "vector_clocks (get_thread_data g tid) \<noteq> []"
    and irh: "irh_ready (use_init_removal_heuristic_n g) hist tid (irh g)"
    and step: "ProcessThreadExit tid g = Inr g'"
  shows "adds_only (EvThreadExit tid) g g'"
proof (rule adds_onlyI)
  let ?td = "get_thread_data g tid"
  obtain new where inv': "hawk_inv g'"
    and new: "race_likely_stores (get_thread_data g' tid) = race_likely_stores ?td @ new"
    and each: "list_all2 (\<lambda>(w, fl) s. sfd_address s = fst w \<and> write_trace s = sd_backtrace (snd w) \<and> fence_trace s = None \<and>
        sfd_clock_i s = current_clock_i ?td \<and> \<not> persisted s \<and> was_flushed s = fl \<and>
        members (lockset_at (ls_heap g') (common_set s)) =
          common_locks (current_timedlockset ?td) (timedlockset_at (tls_heap g') (timed_lockset (snd w))))
      (filter (\<lambda>(w, fl). decides (use_init_removal_heuristic_n g) hist tid (fst w))
        (if check_unpersisted_stores g then pending ?td else [])) new"
    and mem: "mem_state (get_thread_data g' tid) = mem_state ?td" "flushed_mem_state (get_thread_data g' tid) = flushed_mem_state ?td"
    and other: "\<forall>t. t \<noteq> tid \<longrightarrow> get_thread_data g' t = get_thread_data g t"
    using ProcessThreadExit_spec [OF inv vc irh] step by auto
  show "pending_at g' t b d \<Longrightarrow> pending_at g t b d \<or> (\<exists>x. writes_byte (EvThreadExit tid) g t x b \<and> write_data g g' t x d)" for t b d
    using mem other by (cases "t = tid") (auto simp: pending_at_alt pending_in_def)
  have "\<not> persisted s \<and> (\<exists>d. pending_in g tid (was_flushed s) (sfd_address s) d \<and> record_data g g' tid None d s)"
    if s: "s \<in> set new" for s
  proof -
    have "ls_valid (ls_heap g') (common_set s)"
      using hawk_inv_td [OF inv', of tid] s new by (simp add: td_ok_def store_ok_def)
    moreover from list_all2_set2 [OF each s] obtain b d where "((b, d), was_flushed s) \<in> set (pending ?td)" "sfd_address s = b"
      "write_trace s = sd_backtrace d" "fence_trace s = None" "sfd_clock_i s = current_clock_i ?td" "\<not> persisted s"
      "members (lockset_at (ls_heap g') (common_set s)) =
         common_locks (current_timedlockset ?td) (timedlockset_at (tls_heap g') (timed_lockset d))"
      by (auto split: if_splits)
    moreover from this(1) have "pending_in g tid (was_flushed s) b d"
      using mem_entries_iff [OF hawk_inv_mem(1) [OF inv, of tid]] mem_entries_iff [OF hawk_inv_mem(2) [OF inv, of tid]]
      by (auto simp: pending_def pending_in_def)
    ultimately show ?thesis by (auto simp: record_data_def)
  qed
  then show "s \<in> set (race_likely_stores (get_thread_data g' t)) \<Longrightarrow> s \<in> set (race_likely_stores (get_thread_data g t)) \<or>
      (\<exists>tr d. ends_window (EvThreadExit tid) g t (sfd_address s) (persisted s) tr \<and>
         pending_in g t (was_flushed s) (sfd_address s) d \<and> record_data g g' t tr d s)" for t s
    using new other by (cases "t = tid") auto
qed

text \<open>A fence, and the fence of a read-modify-write after its store.\<close>

lemma fence_event_adds:
  assumes "hawk_inv g" "vector_clocks (get_thread_data g tid) \<noteq> []"
    "irh_ready (use_init_removal_heuristic_n g) hist tid (irh g)"
    and "ProcessFence tid False ctxt a sz g = Inr g'" and e: "\<And>b. ends_window e g tid b True (Some (call_trace g tid ctxt))"
  shows "adds_only e g g'"
proof (rule adds_onlyI)
  note f = ProcessFence_adds [OF assms(1-4)]
  show "pending_at g' t b d \<Longrightarrow> pending_at g t b d \<or> (\<exists>x. writes_byte e g t x b \<and> write_data g g' t x d)" for t b d
    using f(1) by blast
  fix t s assume s: "s \<in> set (race_likely_stores (get_thread_data g' t))"
  from f(2) [OF this] show "s \<in> set (race_likely_stores (get_thread_data g t)) \<or>
      (\<exists>tr d. ends_window e g t (sfd_address s) (persisted s) tr \<and>
         pending_in g t (was_flushed s) (sfd_address s) d \<and> record_data g g' t tr d s)"
    using e [of "sfd_address s"] by auto
qed

lemma rmw_event_adds:
  assumes r: "hawk_inv g" "vector_clocks (get_thread_data g tid) \<noteq> []"
      "irh_ready (use_init_removal_heuristic_n g) hist tid (irh g)"
    and run: "ProcessStore tid a sz ctxt g = Inr g1" "ProcessFence tid False ctxt a sz g1 = Inr g'"
    and pm: "IsPMAddress a sz (pm g)"
  shows "adds_only (EvRMW tid ctxt a sz) g g'"
proof (rule adds_onlyI)
  note s = ProcessStore_adds [OF r run(1)]
  have sz: "sz \<le> 64" using run(1) HandleAccess_size by (auto simp: ProcessStore_def)
  from store_total [OF r sz, of a ctxt] run(1) obtain hist1 where
    i1: "irh_ready (use_init_removal_heuristic_n g1) hist1 tid (irh g1)" by auto
  from keeps_ready [OF s(1) r(2)] have r1: "hawk_inv g1" "vector_clocks (get_thread_data g1 tid) \<noteq> []" by auto
  note f = ProcessFence_adds [OF r1 i1 run(2)]
  have lk: "current_timedlockset (get_thread_data g1 t) = current_timedlockset (get_thread_data g t)" for t
    using lf.F_ProcessStore [OF run(1)] by (simp add: lock_frame_def)
  show "pending_at g' t b d \<Longrightarrow> pending_at g t b d \<or>
      (\<exists>x. writes_byte (EvRMW tid ctxt a sz) g t x b \<and> write_data g g' t x d)" for t b d
    using s(2) [OF f(1), of t b d] pm keeps_facts(7,8) [OF f(3)] keeps_valid(1) [OF f(3)]
    by (auto simp: write_data_def)
  fix t s assume "s \<in> set (race_likely_stores (get_thread_data g' t))"
  with f(2) [OF this] s(4) [of s t] consider "s \<in> set (race_likely_stores (get_thread_data g t))"
    | d where "t = tid" "persisted s" "was_flushed s" "pending_in g1 t True (sfd_address s) d"
        "record_data g1 g' t (Some (call_trace g1 t ctxt)) d s"
    | d where "s \<in> set (race_likely_stores (get_thread_data g1 t))" "t = tid" "\<not> persisted s" "sfd_address s \<in> set (byte_range a sz)"
        "pending_in g t (was_flushed s) (sfd_address s) d" "record_data g g1 t (Some (call_trace g t ctxt)) d s" by blast
  then show "s \<in> set (race_likely_stores (get_thread_data g t)) \<or>
      (\<exists>tr d. ends_window (EvRMW tid ctxt a sz) g t (sfd_address s) (persisted s) tr \<and>
         pending_in g t (was_flushed s) (sfd_address s) d \<and> record_data g g' t tr d s)"
  proof cases
    case 2
    have "record_data g g' t (Some (call_trace g t ctxt)) d s"
      using 2(1,5) keeps_facts(3,5) [OF s(1)] by (simp add: record_data_def lk)
    then show ?thesis using 2(1-3) s(3) [OF 2(4)] by auto
  next
    case 3
    have d: "tls_valid (tls_heap g1) (timed_lockset d)"
      by (rule keeps_valid(1) [OF s(1) pending_valid [OF 3(5) r(1)]])
    have "record_data g g' t (Some (call_trace g t ctxt)) d s"
      using 3(6) keeps_facts(7,8,9) [OF f(3)] keeps_valid(3) [OF f(3)] d by (simp add: record_data_def)
    then show ?thesis using 3(2-5) pm by auto
  qed simp
qed

lemma hawk_step_adds:
  assumes run: "reachable c (init_hawk n d u) g" and few: "card {t. started g t} \<le> 64"
    and en: "enabled e g" and step: "hawk_step c e g = Inr g'"
  shows "adds_only e g g'"
proof (cases "mem_event e")
  case False
  then show ?thesis using hawk_step_mem_calm [OF step] mem_calm_adds by blast
next
  case True
  then obtain tid where tid: "started g tid" "thread_of e = Some tid"
    using en by (cases e) (auto simp: enabled_def)
  from reachable_ready [OF run few tid(1)] obtain hist where r: "hawk_inv g" "vector_clocks (get_thread_data g tid) \<noteq> []"
    "irh_ready (use_init_removal_heuristic_n g) hist tid (irh g)" by blast
  show ?thesis
  proof (cases e)
    case (EvWrite t ctxt a sz type)
    then have t: "t = tid" using tid(2) by simp
    consider "g' = g" | "g' = ProcessFlush tid CLFLUSHOPT a g"
      | "ProcessStore tid a sz ctxt g = Inr g'" "type \<noteq> NON_TEMPORAL_STORE" "IsPMAddress a sz (pm g)"
      using step unfolding EvWrite t
      by (cases "IsPMAddress a sz (pm g)"; cases "type = NON_TEMPORAL_STORE") (simp_all add: TraceWrite_def)
    then show ?thesis
    proof cases
      case 3
      note s = ProcessStore_adds [OF r 3(1)]
      show ?thesis
        by (rule adds_onlyI) (use s(2,4) 3(2,3) in \<open>fastforce simp: EvWrite t\<close>)+
    qed (use r(1) ProcessFlush_adds mem_calm_adds in auto)
  next
    case (EvFlush t a type)
    then show ?thesis using step r(1) ProcessFlush_adds mem_calm_adds by (auto simp: TraceFlush_def)
  next
    case (EvFence t ctxt)
    then have "t = tid" using tid(2) by simp
    with fence_event_adds [OF r, of ctxt 0 0 g' e] step show ?thesis by (simp add: EvFence TraceFence_def)
  next
    case (EvRMW t ctxt a sz)
    then have t: "t = tid" using tid(2) by simp
    have "(\<exists>a' sz'. ProcessFence tid False ctxt a' sz' g = Inr g') \<or>
        IsPMAddress a sz (pm g) \<and> (\<exists>g1. ProcessStore tid a sz ctxt g = Inr g1 \<and> ProcessFence tid False ctxt a sz g1 = Inr g')"
      using step by (auto simp: EvRMW t TraceRMW_def ProcessFence_rmw bindE_Inr_iff split: if_splits)
    then show ?thesis
      using fence_event_adds [OF r, of ctxt _ _ g' e] rmw_event_adds [OF r, of a sz ctxt _ g'] by (auto simp: EvRMW t)
  next
    case (EvThreadExit t)
    then have "t = tid" using tid(2) by simp
    with ProcessThreadExit_adds [OF r] step show ?thesis by (simp add: EvThreadExit TraceThreadExit_def)
  qed (use True in auto)
qed

section \<open>The load callback\<close>

lemma hawk_step_loads:
  assumes run: "reachable c (init_hawk n d u) g" and few: "card {t. started g t} \<le> 64"
    and en: "enabled e g" and step: "hawk_step c e g = Inr g'"
  shows "loads_same g g' \<or> (\<exists>tid x a sz a2. e = EvRead tid x a sz a2 \<and>
    (\<exists>a'. (if IsPMAddress a sz (pm g) then a' = a else a2 \<noteq> 0 \<and> IsPMAddress a2 sz (pm g) \<and> a' = a2) \<and>
       load_added g g' tid x a' sz) \<and> (\<forall>t. t \<noteq> tid \<longrightarrow> get_thread_data g' t = get_thread_data g t))"
proof (cases "\<exists>tid x a sz a2. e = EvRead tid x a sz a2")
  case False
  then show ?thesis using hawk_step_loads_same [OF step] by blast
next
  case True
  then obtain tid x a sz a2 where e: "e = EvRead tid x a sz a2" by blast
  have tid: "started g tid" using en by (simp add: e enabled_def)
  have "g' = g \<or> (\<exists>a'. (if IsPMAddress a sz (pm g) then a' = a else a2 \<noteq> 0 \<and> IsPMAddress a2 sz (pm g) \<and> a' = a2) \<and>
      ProcessRead tid a' sz x g = Inr g')"
    using step unfolding e by (cases "IsPMAddress a sz (pm g)") (auto simp: TraceRead_def split: if_splits)
  then show ?thesis
    using ProcessRead_loads [OF run few tid, of _ sz x g'] unfolding e
    by (elim disjE) (simp add: loads_same_def, blast)
qed

end
