(* ===== verification/Origins.thy ===== *)
theory Origins
  imports Provenance
begin

text \<open>
  Where the records come from. Along a run every pending write goes back to a write callback,
  every recorded store to a write and to the later fence, overwriting write or end of the same
  thread, and every recorded load to a load callback, with the clocks, locks and call traces of those callbacks: the
  converse of \<open>EndToEnd\<close>.
\<close>

section \<open>Points of a run\<close>

text \<open>
  \<open>at_point c es g0 g es1 e es2 h h'\<close>: the run of \<open>es\<close> from \<open>g0\<close> to \<open>g\<close> has the callback
  \<open>e\<close> between \<open>es1\<close> and \<open>es2\<close>, and \<open>e\<close> takes the state \<open>h\<close> to \<open>h'\<close>.
\<close>

definition at_point ::
  "config \<Rightarrow> event list \<Rightarrow> hawk \<Rightarrow> hawk \<Rightarrow> event list \<Rightarrow> event \<Rightarrow> event list \<Rightarrow> hawk \<Rightarrow> hawk \<Rightarrow> bool" where
  "at_point c es g0 g es1 e es2 h h' \<longleftrightarrow>
     es = es1 @ e # es2 \<and> hawk_run c es1 g0 = Inr h \<and> enabled e h \<and> hawk_step c e h = Inr h' \<and> hawk_run c es2 h' = Inr g"

lemma at_point_last:
  "hawk_run c es g0 = Inr g \<Longrightarrow> enabled e g \<Longrightarrow> hawk_step c e g = Inr g' \<Longrightarrow> at_point c (es @ [e]) g0 g' es e [] g g'"
  by (simp add: at_point_def)

lemma at_point_snoc:
  "at_point c es g0 g es1 e es2 h h' \<Longrightarrow> enabled e' g \<Longrightarrow> hawk_step c e' g = Inr g' \<Longrightarrow>
   at_point c (es @ [e']) g0 g' es1 e (es2 @ [e']) h h'"
  by (auto simp: at_point_def hawk_run_append)

text \<open>The last callback of a run, and what the inductions below need of the state before it.\<close>

lemma run_snocE:
  assumes "hawk_run c (es @ [e]) (init_hawk n d u) = Inr g" "card {t. started g t} \<le> 64"
  obtains h where "hawk_run c es (init_hawk n d u) = Inr h" "enabled e h" "hawk_step c e h = Inr g"
    "reachable c (init_hawk n d u) h" "hawk_inv h" "hawk_run c [e] h = Inr g" "card {t. started h t} \<le> 64"
proof -
  from assms(1) obtain h where h: "hawk_run c es (init_hawk n d u) = Inr h" "enabled e h" "hawk_step c e h = Inr g"
    by (auto simp: hawk_run_append split: if_splits)
  have r: "reachable c (init_hawk n d u) h" by (rule hawk_run_reachable [OF h(1) reachable_init])
  have one: "hawk_run c [e] h = Inr g" using h by simp
  show thesis by (rule that [OF h r reachable_hawk_inv [OF r] one few_before [OF one r assms(2)]])
qed

lemma init_hawk_empty [simp]:
  "race_likely_stores (get_thread_data (init_hawk n d u) t) = []"
  "race_likely_loads (get_thread_data (init_hawk n d u) t) = []"
  "mem_state (get_thread_data (init_hawk n d u) t) = []"
  "flushed_mem_state (get_thread_data (init_hawk n d u) t) = []"
  by (simp_all add: init_hawk_def new_ThreadData_def)

section \<open>Pending writes come from writes\<close>

lemma write_data_run:
  assumes "write_data h g t x d" "hawk_run c es g = Inr g'" "hawk_inv g"
  shows "write_data h g' t x d"
  using assms(1) run_keeps_records(4,6) [OF assms(2,3)] by (auto simp: write_data_def)

text \<open>The write \<open>d\<close> of byte \<open>b\<close> is pending in every state of the run of \<open>es\<close> from \<open>g\<close>.\<close>

definition pending_during :: "config \<Rightarrow> event list \<Rightarrow> hawk \<Rightarrow> nat \<Rightarrow> u64 \<Rightarrow> StoreData \<Rightarrow> bool" where
  "pending_during c es g t b d \<longleftrightarrow>
     (\<forall>es1 es2 k. es = es1 @ es2 \<and> hawk_run c es1 g = Inr k \<longrightarrow> pending_at k t b d)"

lemma pending_during_Nil [simp]: "pending_during c [] g t b d \<longleftrightarrow> pending_at g t b d"
  by (simp add: pending_during_def)

lemma pending_during_snoc:
  assumes "pending_during c es g t b d" "hawk_run c (es @ [e]) g = Inr g'" "pending_at g' t b d"
  shows "pending_during c (es @ [e]) g t b d"
  unfolding pending_during_def
proof (intro allI impI, elim conjE)
  fix es1 es2 k
  assume split: "es @ [e] = es1 @ es2" and k: "hawk_run c es1 g = Inr k"
  show "pending_at k t b d"
  proof (cases es2 rule: rev_cases)
    case Nil
    with split k assms(2,3) show ?thesis by simp
  next
    case (snoc es3 e')
    with split k assms(1) show ?thesis by (auto simp: pending_during_def)
  qed
qed

lemma pending_origin:
  assumes "hawk_run c es (init_hawk n d u) = Inr g" "card {t. started g t} \<le> 64" "pending_at g t b sd"
  shows "\<exists>es1 e es2 h h' x. at_point c es (init_hawk n d u) g es1 e es2 h h' \<and> writes_byte e h t x b \<and>
    write_data h g t x sd \<and> pending_during c es2 h' t b sd"
  using assms
proof (induction es arbitrary: g rule: rev_induct)
  case Nil
  then have "g = init_hawk n d u" by simp
  with Nil show ?case by (simp add: pending_at_alt pending_in_def)
next
  case (snoc e es)
  from snoc.prems(1,2) obtain h where h: "hawk_run c es (init_hawk n d u) = Inr h" "enabled e h" "hawk_step c e h = Inr g"
    and r: "reachable c (init_hawk n d u) h" and inv: "hawk_inv h" and one: "hawk_run c [e] h = Inr g"
    and few: "card {t. started h t} \<le> 64" by (rule run_snocE)
  from hawk_step_adds [OF r few h(2,3)] snoc.prems(3) consider "pending_at h t b sd"
    | x where "writes_byte e h t x b" "write_data h g t x sd" unfolding adds_only_def by blast
  then show ?case
  proof cases
    case 1
    from snoc.IH [OF h(1) few 1] obtain es1 w es2 k k' x where
      w: "at_point c es (init_hawk n d u) h es1 w es2 k k'" "writes_byte w k t x b" "write_data k h t x sd"
        "pending_during c es2 k' t b sd" by blast
    note at = at_point_snoc [OF w(1) h(2,3)]
    have "hawk_run c (es2 @ [e]) k' = Inr g" using at by (simp add: at_point_def)
    from pending_during_snoc [OF w(4) this snoc.prems(3)] show ?thesis
      using at w(2) write_data_run [OF w(3) one inv] by blast
  next
    case 2
    moreover have "pending_during c [] g t b sd" using snoc.prems(3) by simp
    ultimately show ?thesis using at_point_last [OF h] by blast
  qed
qed

section \<open>Recorded stores come from a write and what ended its window\<close>

definition stored_by ::
  "config \<Rightarrow> event list \<Rightarrow> hawk \<Rightarrow> hawk \<Rightarrow> nat \<Rightarrow> StoreFenceData \<Rightarrow> bool" where
  "stored_by c es g0 g t s \<longleftrightarrow>
     (\<exists>fs1 f fs2 h h' tr es1 w es2 k k' x d.
        at_point c es g0 g fs1 f fs2 h h' \<and> ends_window f h t (sfd_address s) (persisted s) tr \<and>
        at_point c fs1 g0 h es1 w es2 k k' \<and> writes_byte w k t x (sfd_address s) \<and>
        pending_in h t (was_flushed s) (sfd_address s) d \<and> pending_during c es2 k' t (sfd_address s) d \<and>
        write_trace s = sd_backtrace d \<and>
        sfd_clock_i s = current_clock_i (get_thread_data h t) \<and>
        trace_is (bt_heap g) (write_trace s) (call_trace k t x) \<and> trace_opt (bt_heap g) (fence_trace s) tr \<and>
        ls_valid (ls_heap g) (common_set s) \<and>
        members (lockset_at (ls_heap g) (common_set s)) =
          common_locks (current_timedlockset (get_thread_data h t)) (current_timedlockset (get_thread_data k t)))"

lemma trace_opt_run:
  "trace_opt (bt_heap g) b tr \<Longrightarrow> hawk_run c es g = Inr g' \<Longrightarrow> hawk_inv g \<Longrightarrow> trace_opt (bt_heap g') b tr"
  using run_keeps_records(4) by (cases tr) auto

lemma stored_by_snoc:
  assumes "stored_by c es g0 g t s" and e: "enabled e g" "hawk_step c e g = Inr g'" and inv: "hawk_inv g"
  shows "stored_by c (es @ [e]) g0 g' t s"
proof -
  have one: "hawk_run c [e] g = Inr g'" using e by simp
  have "ls_valid (ls_heap g') q" if "ls_valid (ls_heap g) q" for q
    using hawk_run_frame [OF one inv] that ls_extends_valid by (auto simp: step_frame_def)
  with assms(1) show ?thesis
    using at_point_snoc [OF _ e] run_keeps_records(4,5) [OF one inv] trace_opt_run [OF _ one inv] unfolding stored_by_def
    by (elim exE conjE) (intro exI conjI; (assumption | blast)?; simp)
qed

lemma store_origin:
  assumes "hawk_run c es (init_hawk n d u) = Inr g" "card {t. started g t} \<le> 64"
    and "s \<in> set (race_likely_stores (get_thread_data g t))"
  shows "stored_by c es (init_hawk n d u) g t s"
  using assms
proof (induction es arbitrary: g rule: rev_induct)
  case Nil
  then have "g = init_hawk n d u" by simp
  with Nil show ?case by simp
next
  case (snoc e es)
  from snoc.prems(1,2) obtain h where h: "hawk_run c es (init_hawk n d u) = Inr h" "enabled e h" "hawk_step c e h = Inr g"
    and r: "reachable c (init_hawk n d u) h" and inv: "hawk_inv h" and one: "hawk_run c [e] h = Inr g"
    and few: "card {t. started h t} \<le> 64" by (rule run_snocE)
  from hawk_step_adds [OF r few h(2,3)] snoc.prems(3) consider "s \<in> set (race_likely_stores (get_thread_data h t))"
    | tr sd where "ends_window e h t (sfd_address s) (persisted s) tr" "pending_in h t (was_flushed s) (sfd_address s) sd"
        "record_data h g t tr sd s"
    unfolding adds_only_def by blast
  then show ?case
  proof cases
    case 1
    from snoc.IH [OF h(1) few 1] show ?thesis by (rule stored_by_snoc [OF _ h(2,3) inv])
  next
    case 2
    have "pending_at h t (sfd_address s) sd" using 2(2) by (auto simp: pending_at_def)
    from pending_origin [OF h(1) few this] obtain es1 w es2 k k' x where
      w: "at_point c es (init_hawk n d u) h es1 w es2 k k'" "writes_byte w k t x (sfd_address s)" "write_data k h t x sd"
        "pending_during c es2 k' t (sfd_address s) sd" by blast
    have d: "write_data k g t x sd" by (rule write_data_run [OF w(3) one inv])
    have "write_trace s = sd_backtrace sd" "sfd_clock_i s = current_clock_i (get_thread_data h t)"
      "ls_valid (ls_heap g) (common_set s)"
      "trace_is (bt_heap g) (write_trace s) (call_trace k t x)" "trace_opt (bt_heap g) (fence_trace s) tr"
      "members (lockset_at (ls_heap g) (common_set s)) =
        common_locks (current_timedlockset (get_thread_data h t)) (current_timedlockset (get_thread_data k t))"
      using 2(3) d by (simp_all add: record_data_def write_data_def)
    then show ?thesis unfolding stored_by_def using at_point_last [OF h] 2(1,2) w(1,2,4) by blast
  qed
qed

section \<open>Recorded loads come from loads\<close>

definition loaded_by :: "config \<Rightarrow> event list \<Rightarrow> hawk \<Rightarrow> hawk \<Rightarrow> nat \<Rightarrow> access_key_t \<Rightarrow> pLockset \<Rightarrow> bool" where
  "loaded_by c es g0 g t key p \<longleftrightarrow>
     (\<exists>es1 e es2 h h' x.
        at_point c es g0 g es1 e es2 h h' \<and> (\<forall>b. touches key b \<longrightarrow> loads_byte e h t x b) \<and>
        key_clock_i key = current_clock_i (get_thread_data h t) \<and> trace_is (bt_heap g) (key_backtrace key) (call_trace h t x) \<and>
        ls_valid (ls_heap g) p \<and> members (lockset_at (ls_heap g) p) = held (current_timedlockset (get_thread_data h t)))"

lemma loaded_by_snoc:
  assumes "loaded_by c es g0 g t key p" and e: "enabled e g" "hawk_step c e g = Inr g'" and inv: "hawk_inv g"
  shows "loaded_by c (es @ [e]) g0 g' t key p"
proof -
  have one: "hawk_run c [e] g = Inr g'" using e by simp
  have "ls_valid (ls_heap g') q" if "ls_valid (ls_heap g) q" for q
    using hawk_run_frame [OF one inv] that ls_extends_valid by (auto simp: step_frame_def)
  with assms(1) show ?thesis
    using at_point_snoc [OF _ e] run_keeps_records(4,5) [OF one inv] unfolding loaded_by_def
    by (elim exE conjE) (intro exI conjI; (assumption | blast)?; simp)
qed

lemma load_added_entry:
  assumes "load_added g g' t x a sz" "(key, ps) \<in> set (race_likely_loads (get_thread_data g' t))" "p \<in> set ps" "hawk_inv g"
    and old: "\<And>ps0. (key, ps0) \<in> set (race_likely_loads (get_thread_data g t)) \<Longrightarrow> p \<notin> set ps0"
  shows "key_address key = a \<and> (\<forall>i. bit (key_mask key) i \<longleftrightarrow> i < unat sz) \<and>
    trace_is (bt_heap g') (key_backtrace key) (call_trace g t x) \<and>
    key_clock_i key = current_clock_i (get_thread_data g t) \<and> ls_valid (ls_heap g') p \<and>
    members (lockset_at (ls_heap g') p) = held (current_timedlockset (get_thread_data g t))"
proof -
  from assms(1) obtain k q where k: "key_address k = a" "\<forall>i. bit (key_mask k) i \<longleftrightarrow> i < unat sz"
    "trace_is (bt_heap g') (key_backtrace k) (call_trace g t x)"
    "key_clock_i k = current_clock_i (get_thread_data g t)" "ls_valid (ls_heap g') q"
    "members (lockset_at (ls_heap g') q) = held (current_timedlockset (get_thread_data g t))"
    and m: "race_likely_loads (get_thread_data g' t) = um_modify k [] (os_insert q) (race_likely_loads (get_thread_data g t))"
    unfolding load_added_def by blast
  have wf: "um_wf (race_likely_loads (get_thread_data g t))" using hawk_inv_td [OF assms(4), of t] by (simp add: td_ok_def)
  have "(key, ps) = (k, os_insert q (sm_get [] (race_likely_loads (get_thread_data g t)) k))"
    using assms(2,3) old unfolding m um_modify_def um.set_put [OF wf] by auto
  moreover have "p \<notin> set (sm_get [] (race_likely_loads (get_thread_data g t)) k)" if "key = k"
    using old that by (cases "map_of (race_likely_loads (get_thread_data g t)) k") (auto simp: sm_get_def dest: map_of_SomeD)
  ultimately have "key = k" "p = q" using assms(3) by (auto simp: os_insert_def set_insort_key split: if_splits)
  with k show ?thesis by simp
qed

lemma load_origin:
  assumes "hawk_run c es (init_hawk n d u) = Inr g" "card {t. started g t} \<le> 64"
    and "(key, ps) \<in> set (race_likely_loads (get_thread_data g t))" "p \<in> set ps"
  shows "loaded_by c es (init_hawk n d u) g t key p"
  using assms
proof (induction es arbitrary: g ps rule: rev_induct)
  case Nil
  then have "g = init_hawk n d u" by simp
  with Nil show ?case by simp
next
  case (snoc e es)
  from snoc.prems(1,2) obtain h where h: "hawk_run c es (init_hawk n d u) = Inr h" "enabled e h" "hawk_step c e h = Inr g"
    and r: "reachable c (init_hawk n d u) h" and inv: "hawk_inv h" and one: "hawk_run c [e] h = Inr g"
    and few: "card {t. started h t} \<le> 64" by (rule run_snocE)
  show ?case
  proof (cases "\<exists>ps0. (key, ps0) \<in> set (race_likely_loads (get_thread_data h t)) \<and> p \<in> set ps0")
    case True
    with snoc.IH [OF h(1) few] show ?thesis using loaded_by_snoc [OF _ h(2,3) inv] by blast
  next
    case False
    then have "race_likely_loads (get_thread_data g t) \<noteq> race_likely_loads (get_thread_data h t)"
      using snoc.prems(3,4) by auto
    with hawk_step_loads [OF r few h(2,3)] obtain x a sz a2 a' where
      e: "e = EvRead t x a sz a2" "if IsPMAddress a sz (pm h) then a' = a else a2 \<noteq> 0 \<and> IsPMAddress a2 sz (pm h) \<and> a' = a2"
        "load_added h g t x a' sz" unfolding loads_same_def by metis
    from load_added_entry [OF e(3) snoc.prems(3,4) inv] False have
      k: "key_address key = a'" "\<forall>i. bit (key_mask key) i \<longleftrightarrow> i < unat sz"
        "trace_is (bt_heap g) (key_backtrace key) (call_trace h t x)"
        "key_clock_i key = current_clock_i (get_thread_data h t)" "ls_valid (ls_heap g) p"
        "members (lockset_at (ls_heap g) p) = held (current_timedlockset (get_thread_data h t))" by blast+
    have "loads_byte e h t x b" if "touches key b" for b
      using that e(1,2) k(1,2) by (auto simp: touches_def split: if_splits)
    with k(3-6) show ?thesis unfolding loaded_by_def using at_point_last [OF h] by blast
  qed
qed

section \<open>The origin of a record in terms of epochs and locks\<close>

lemma acquisitions_le_length: "acquisitions (thread_lock_ops c es g t) \<le> length es"
proof (induction es arbitrary: g)
  case (Cons e es)
  have "acquisitions (ops_for t x) \<le> 1" for x
    by (auto simp: ops_for_def acquisitions_def split: option.split)
  from add_mono [OF this Cons.IH] show ?case
    by (auto simp: acquisitions_def split: sum.split)
qed (simp add: acquisitions_def)

lemma thread_lock_ops_append:
  "hawk_run c es g = Inr h \<Longrightarrow> thread_lock_ops c (es @ fs) g t = thread_lock_ops c es g t @ thread_lock_ops c fs h t"
  by (induction es arbitrary: g) (auto split: if_splits)

lemma acquisitions_append [simp]: "acquisitions (xs @ ys) = acquisitions xs + acquisitions ys"
  by (simp add: acquisitions_def)

lemma at_point_reachable:
  assumes "at_point c es (init_hawk n d u) g es1 e es2 h h'"
  shows "reachable c (init_hawk n d u) h" "reachable c (init_hawk n d u) h'" "reachable c (init_hawk n d u) g"
proof -
  have p: "hawk_run c es1 (init_hawk n d u) = Inr h" "enabled e h" "hawk_step c e h = Inr h'" "hawk_run c es2 h' = Inr g"
    using assms by (simp_all add: at_point_def)
  show h: "reachable c (init_hawk n d u) h" by (rule hawk_run_reachable [OF p(1) reachable_init])
  show h': "reachable c (init_hawk n d u) h'" by (rule reachable_step [OF h p(2,3)])
  show "reachable c (init_hawk n d u) g" by (rule hawk_run_reachable [OF p(4) h'])
qed

lemma at_point_epoch:
  assumes p: "at_point c es (init_hawk n d u) g es1 e es2 h h'" and t: "started h t"
    and small: "length (vector_clocks (get_thread_data g t)) \<le> 2 ^ 16"
  shows "(t, unat (current_clock_i (get_thread_data h t))) = epoch_of h t"
proof -
  have "hawk_run c (e # es2) h = Inr g" using p by (simp add: at_point_def)
  from hawk_run_records [OF this]
  have "prefix (vector_clocks (get_thread_data h t)) (vector_clocks (get_thread_data g t))"
    by (simp add: records_grow_def td_grow_def)
  then have "length (vector_clocks (get_thread_data h t)) \<le> 2 ^ 16" using small prefix_length_le le_trans by blast
  from current_clock_i_exact [OF ready [OF reachable_hawk_inv [OF at_point_reachable(1) [OF p]] t] this]
  show ?thesis by (simp add: epoch_of_def)
qed

text \<open>A callback that writes memory changes no lock.\<close>

lemma writes_byte_lock_frame:
  assumes "writes_byte e g t x b" "hawk_step c e g = Inr g'"
  shows "lock_frame g g'"
  using assms lf.F_ProcessStore lf.F_ProcessFence
  by (cases e) (auto simp: TraceWrite_def TraceRMW_def)

lemma common_locks_at_points:
  assumes f: "at_point c es (init_hawk n d u) g fs1 f fs2 h h'" and w: "at_point c fs1 (init_hawk n d u) h es1 e es2 k k'"
    and wb: "writes_byte e k t x b"
    and wrap: "acquisitions (thread_lock_ops c es (init_hawk n d u) t) < 2 ^ 32"
  shows "common_locks (current_timedlockset (get_thread_data h t)) (current_timedlockset (get_thread_data k t)) =
    held (current_timedlockset (get_thread_data k t)) - touched (thread_lock_ops c es2 k' t)"
proof -
  have p: "hawk_run c es1 (init_hawk n d u) = Inr k" "hawk_step c e k = Inr k'" "hawk_run c es2 k' = Inr h"
    and es: "es = es1 @ e # es2 @ f # fs2"
    using f w by (simp_all add: at_point_def)
  have "acquisitions (thread_lock_ops c es1 (init_hawk n d u) t) + acquisitions (thread_lock_ops c es2 k' t) < 2 ^ 32"
    using wrap p unfolding es thread_lock_ops_append [OF p(1)]
    by (simp add: thread_lock_ops_append [OF p(3)])
  from run_held_locks [OF p(1) writes_byte_lock_frame [OF wb p(2)] p(3) this]
  show ?thesis by (simp add: common_locks_sym)
qed

lemma ends_window_started: "ends_window e g t b pers tr \<Longrightarrow> enabled e g \<Longrightarrow> started g t"
  by (cases e) (auto simp: enabled_def)

lemma loads_byte_started: "loads_byte e g t x b \<Longrightarrow> enabled e g \<Longrightarrow> started g t"
  by (cases e) (auto simp: enabled_def)

end
