(* ===== verification/LockIndex.thy ===== *)
theory LockIndex
  imports Origins
begin

text \<open>
  The index of a mutex along a run. The registry only grows, so a mutex keeps the index its
  first lock callback gives it; and the lock operations of a thread can be read off its own
  callbacks, whatever the other threads do.
\<close>

section \<open>The registry grows\<close>

definition settings_same :: "hawk \<Rightarrow> hawk \<Rightarrow> bool" where
  "settings_same g g' \<longleftrightarrow>
     registry g' = registry g \<and> pm g' = pm g \<and> check_unpersisted_stores g' = check_unpersisted_stores g"

definition registry_grows :: "hawk \<Rightarrow> hawk \<Rightarrow> bool" where
  "registry_grows g g' \<longleftrightarrow> map_of (lock_index (registry g)) \<subseteq>\<^sub>m map_of (lock_index (registry g'))"

lemma registry_grows_refl [simp, intro]: "registry_grows g g"
  by (simp add: registry_grows_def)

lemma registry_grows_trans: "registry_grows a b \<Longrightarrow> registry_grows b c \<Longrightarrow> registry_grows a c"
  unfolding registry_grows_def by (rule map_le_trans)

interpretation gf: handler_frame "\<lambda>_. settings_same"
proof
  show "settings_same a b" if "hawk_HandleAccess tid adr sz a = Inr (m, b)" for tid adr sz a m b
    using hawk_HandleAccess_spec(1) [OF that] by (auto simp: settings_same_def)
  show "settings_same a b" if "hawk_HandleAccessByte tid adr a = Inr (y, b)" for tid adr a y b
    using hawk_HandleAccess_spec(2) [OF that] by (auto simp: settings_same_def)
qed (auto simp: settings_same_def untouched_def)

lemma registry_ProcessLock:
  "registry (ProcessLock tid lt m special g) =
     (if special \<or> \<not> (is_acquire lt \<or> is_release lt) then registry g else register_mutex m (registry g))"
  "pm (ProcessLock tid lt m special g) = pm g"
  "check_unpersisted_stores (ProcessLock tid lt m special g) = check_unpersisted_stores g"
  by (simp_all add: ProcessLock_def lock_current_def unlock_current_def get_next_id_def Let_def
      TimedLockset_lock_index split: prod.split)

lemma register_mutex_grows: "map_of (lock_index r) \<subseteq>\<^sub>m map_of (lock_index (register_mutex m r))"
  by (auto simp: register_mutex_def map_le_def contains_def)

lemma register_mutex_index: "map_of (lock_index (register_mutex m (registry g))) m = Some (mutex_index m g)"
  using get_index_registered [OF register_mutex_registers, of m "registry g"] by (auto simp: mutex_index_def)

lemma specials_lock_index: "lock_index (((\<lambda>r. snd (register_special_mutex r)) ^^ n) r) = lock_index r"
  by (induction n) (simp_all add: register_special_mutex_def)

text \<open>
  The registry grows, the option never changes, and what is persistent memory changes only
  with a shared mapping or an unmapping.
\<close>

fun map_event :: "event \<Rightarrow> bool" where
  "map_event (EvSyscallEntry readlink tid num arg) \<longleftrightarrow> num = SYS_munmap \<or> (num = SYS_mmap \<and> bit (arg 3) 0)"
| "map_event e \<longleftrightarrow> False"

definition settings_step :: "event \<Rightarrow> hawk \<Rightarrow> hawk \<Rightarrow> bool" where
  "settings_step e g g' \<longleftrightarrow> registry_grows g g' \<and> check_unpersisted_stores g' = check_unpersisted_stores g \<and>
     (\<not> map_event e \<and> \<not> found_alloc (pm g) \<longrightarrow> pm g' = pm g)"

lemma settings_same_step: "settings_same g g' \<Longrightarrow> settings_step e g g'"
  by (simp add: settings_same_def settings_step_def registry_grows_def)

lemma settings_step_refl [simp]: "settings_step e g g"
  by (simp add: settings_step_def)

lemma settings_step_ProcessLock: "settings_step e g (ProcessLock tid lt m special g)"
  by (simp add: settings_step_def registry_grows_def registry_ProcessLock register_mutex_grows)

lemma hawk_step_settings:
  assumes run: "hawk_step c e g = Inr g'"
  shows "settings_step e g g'"
proof (cases e)
  case (EvWrite tid ctxt a sz type)
  then show ?thesis
    using run gf.F_ProcessStore gf.F_untouched [OF untouched_ProcessFlush] settings_same_step
    by (auto simp: TraceWrite_def split: if_splits)
next
  case (EvFlush tid a type)
  then show ?thesis
    using run gf.F_untouched [OF untouched_ProcessFlush] settings_same_step
    by (auto simp: TraceFlush_def)
next
  case (EvFence tid ctxt)
  then show ?thesis using run gf.F_ProcessFence settings_same_step by (auto simp: TraceFence_def)
next
  case (EvRMW tid ctxt a sz)
  then show ?thesis using run gf.F_ProcessFence settings_same_step by (auto simp: TraceRMW_def split: if_splits)
next
  case (EvRead tid ctxt a sz a2)
  then show ?thesis
    using run gf.F_RegisterAccess settings_same_step
    by (auto simp: TraceRead_def ProcessRead_def split: if_splits)
next
  case (EvTryLockAfter mem tid res success neg use_arg lt)
  then show ?thesis
    using run settings_step_ProcessLock TryLockAfter_cases [of mem tid res success neg use_arg lt g] by auto
next
  case (EvThreadExit tid)
  then show ?thesis using run gf.F_ProcessThreadExit settings_same_step by (auto simp: TraceThreadExit_def)
next
  case (EvSyscallEntry readlink tid num arg)
  then show ?thesis
    using run by (auto simp: settings_step_def registry_grows_def SyscallEntry_def SysBefore_def shared_flag Let_def split: if_splits)
next
  case (EvSyscallExit tid ret)
  then show ?thesis
    using run by (auto simp: settings_step_def registry_grows_def SyscallExit_def SysAfter_def)
next
  case (EvImageLoad v)
  then show ?thesis
    using run by (auto simp: settings_step_def registry_grows_def specials_lock_index dest!: ImageLoad_registry split: sum.splits)
qed (use run in \<open>auto simp: registry_ProcessLock register_mutex_grows LockBefore_def WriteLockBefore_def ReadLockBefore_def
    UnlockBefore_def RWUnlockBefore_def TraceAdqRelBefore_def TraceAdqRelAfter_def TraceCall_def TraceRet_def
    TryLockBefore_def PthreadCreate_call_def ProcessThreadCreate_def PthreadCreate_return_def TraceThreadStart_def
    TraceThreadStart_signal_def TraceThreadStart_init_def ProcessThreadInit_def PthreadJoin_return_def
    ProcessThreadJoin_def push_clock_def settings_step_def registry_grows_def Let_def split: if_splits\<close>)

lemma hawk_run_settings:
  "hawk_run c es g = Inr g' \<Longrightarrow> registry_grows g g' \<and> check_unpersisted_stores g' = check_unpersisted_stores g \<and>
     (filter map_event es = [] \<and> \<not> found_alloc (pm g) \<longrightarrow> pm g' = pm g)"
proof (induction es arbitrary: g)
  case (Cons e es)
  then obtain g1 where 1: "hawk_step c e g = Inr g1" "hawk_run c es g1 = Inr g'" by (auto split: if_splits)
  from hawk_step_settings [OF 1(1)] Cons.IH [OF 1(2)] show ?case
    unfolding settings_step_def using registry_grows_trans by auto
qed simp

section \<open>Critical sections\<close>

text \<open>
  The callbacks of thread \<open>t\<close> that can acquire or release mutex \<open>m\<close>: those naming it, a
  successful try-lock, which takes its mutex from an earlier callback, and the acquire and
  release instructions configured by index.
\<close>

fun concerns :: "nat \<Rightarrow> u64 \<Rightarrow> event \<Rightarrow> bool" where
  "concerns t m (EvLock t' m') \<longleftrightarrow> t' = t \<and> m' = m"
| "concerns t m (EvWriteLock t' m') \<longleftrightarrow> t' = t \<and> m' = m"
| "concerns t m (EvReadLock t' m') \<longleftrightarrow> t' = t \<and> m' = m"
| "concerns t m (EvUnlock t' m') \<longleftrightarrow> t' = t \<and> m' = m"
| "concerns t m (EvRWUnlock t' m') \<longleftrightarrow> t' = t \<and> m' = m"
| "concerns t m (EvTryLockAfter _ t' _ _ _ _ _) \<longleftrightarrow> t' = t"
| "concerns t m (EvAdqRelBefore t' _) \<longleftrightarrow> t' = t"
| "concerns t m (EvAdqRelAfter t' _) \<longleftrightarrow> t' = t"
| "concerns t m e \<longleftrightarrow> False"

text \<open>Thread \<open>t\<close> is in a critical section of \<open>m\<close>: the last such callback locked it.\<close>

definition in_section :: "nat \<Rightarrow> u64 \<Rightarrow> event list \<Rightarrow> bool" where
  "in_section t m es \<longleftrightarrow>
     (let fs = filter (concerns t m) es
      in fs \<noteq> [] \<and> last fs \<in> {EvLock t m, EvWriteLock t m, EvReadLock t m})"

lemma in_section_Nil [simp]: "\<not> in_section t m []"
  by (simp add: in_section_def)

lemma in_section_snoc [simp]:
  "in_section t m (es @ [e]) \<longleftrightarrow>
     (if concerns t m e then e \<in> {EvLock t m, EvWriteLock t m, EvReadLock t m} else in_section t m es)"
  by (simp add: in_section_def Let_def)

lemma in_section_append: "filter (concerns t m) fs = [] \<Longrightarrow> in_section t m (es @ fs) \<longleftrightarrow> in_section t m es"
  by (simp add: in_section_def)

text \<open>The index of a mutex.\<close>

definition index_in :: "hawk \<Rightarrow> u64 \<Rightarrow> nat \<Rightarrow> bool" where
  "index_in g m i \<longleftrightarrow> map_of (lock_index (registry g)) m = Some i"

lemma index_in_inject: "hawk_inv g \<Longrightarrow> index_in g m i \<Longrightarrow> index_in g m' i \<Longrightarrow> m = m'"
  unfolding index_in_def hawk_inv_def registry_wf_def by (metis domI inj_on_def)

lemma index_in_run: "index_in g m i \<Longrightarrow> hawk_run c es g = Inr g' \<Longrightarrow> index_in g' m i"
  using hawk_run_settings [of c es g g'] unfolding index_in_def registry_grows_def map_le_def by (metis domI)

lemma index_in_step: "index_in g m i \<Longrightarrow> hawk_step c e g = Inr g' \<Longrightarrow> index_in g' m i"
  using hawk_step_settings [of c e g g'] unfolding settings_step_def index_in_def registry_grows_def map_le_def by (metis domI)

text \<open>The mutex a lock operation names has its index in the registry after the callback.\<close>

lemma index_in_lock:
  assumes "hawk_step c e g = Inr g'"
    "e \<in> {EvLock t m, EvWriteLock t m, EvReadLock t m, EvUnlock t m, EvRWUnlock t m}"
  shows "index_in g' m (mutex_index m g)"
  using assms
  by (auto simp: index_in_def LockBefore_def WriteLockBefore_def ReadLockBefore_def UnlockBefore_def RWUnlockBefore_def
      registry_ProcessLock register_mutex_index)

text \<open>Another callback of the thread is no operation on the index of the mutex.\<close>

lemma ops_for_unconcerned:
  assumes step: "hawk_step c e g = Inr g1" and run: "hawk_run c es g1 = Inr g'" and inv: "hawk_inv g'"
    and i: "index_in g' m i" and e: "\<not> concerns t m e"
  shows "i \<notin> touched (ops_for t (lock_op_of e g))"
proof -
  have "mutex_index m' g \<noteq> i" if "m' \<noteq> m" "e \<in> {EvLock t m', EvWriteLock t m', EvReadLock t m', EvUnlock t m', EvRWUnlock t m'}" for m'
    using index_in_inject [OF inv i, of m'] index_in_run [OF index_in_lock [OF step that(2)] run] that(1) by auto
  then show ?thesis
    using e by (cases e) (auto simp: ops_for_def touched_def Let_def)
qed

lemma touched_append [simp]: "touched (xs @ ys) = touched xs \<union> touched ys"
  by (auto simp: touched_def)

lemma untouched_index:
  assumes "hawk_run c es g = Inr g'" "hawk_inv g'" "index_in g' m i" "filter (concerns t m) es = []"
  shows "i \<notin> touched (thread_lock_ops c es g t)"
  using assms
proof (induction es arbitrary: g)
  case (Cons e es)
  then obtain g1 where step: "hawk_step c e g = Inr g1" and rest: "hawk_run c es g1 = Inr g'" by (auto split: if_splits)
  from Cons.prems(4) have "\<not> concerns t m e" "filter (concerns t m) es = []" by (auto split: if_splits)
  with ops_for_unconcerned [OF step rest Cons.prems(2,3)] Cons.IH [OF rest Cons.prems(2,3)] step show ?case by simp
qed (simp add: touched_def)

text \<open>In a critical section the thread holds the index of the mutex.\<close>

lemma fold_untouched:
  "i \<notin> touched ops \<Longrightarrow> i \<in> held (fst lc) \<Longrightarrow> i \<in> held (fst (fold apply_lock_op ops lc))"
proof (induction ops arbitrary: lc)
  case (Cons oper ops)
  then show ?case by (cases oper; cases lc) (auto simp: touched_def lockset_simps)
qed simp

lemma section_held:
  assumes "hawk_run c es (init_hawk n d u) = Inr g" "in_section t m es"
  shows "\<exists>i. index_in g m i \<and> i \<in> held (current_timedlockset (get_thread_data g t))"
  using assms
proof (induction es arbitrary: g rule: rev_induct)
  case (snoc e es)
  then obtain h where run: "hawk_run c es (init_hawk n d u) = Inr h" and step: "hawk_step c e h = Inr g"
    by (auto simp: hawk_run_append split: if_splits)
  have inv: "hawk_inv g" using reachable_hawk_inv [OF hawk_run_reachable [OF snoc.prems(1) reachable_init]] .
  note after = hawk_step_locks [OF step, of t]
  show ?case
  proof (cases "concerns t m e")
    case True
    with snoc.prems(2) have e: "e \<in> {EvLock t m, EvWriteLock t m, EvReadLock t m}" by simp
    then have "index_in g m (mutex_index m h)" by (intro index_in_lock [OF step]) auto
    moreover have "mutex_index m h \<in> held (fst (locks_of g t))"
      using e unfolding after by (cases "locks_of h t") (auto simp: ops_for_def lockset_simps)
    ultimately show ?thesis by (auto simp: locks_of_def)
  next
    case False
    with snoc.IH [OF run] snoc.prems(2) obtain i where i: "index_in h m i" "i \<in> held (fst (locks_of h t))"
      by (auto simp: locks_of_def)
    have g: "index_in g m i" using index_in_step [OF i(1) step] .
    have "hawk_run c [] g = Inr g" by simp
    from fold_untouched [OF ops_for_unconcerned [OF step this inv g False] i(2)]
    have "i \<in> held (fst (locks_of g t))" unfolding after .
    with g show ?thesis by (auto simp: locks_of_def)
  qed
qed simp

end
