(* ===== verification/PersistSpec.thy ===== *)
theory PersistSpec
  imports Origins
begin

text \<open>
  An abstract machine of persistency. The state of a thread is two sets of bytes: those written
  and not flushed since, and those flushed and not fenced since. The two maps of a thread's data
  implement it exactly, callback by callback, whatever the other threads do.
\<close>

section \<open>The machine\<close>

type_synonym byte_sets = "u64 set \<times> u64 set"

definition line_of :: "u64 \<Rightarrow> u64 set" where
  "line_of a = {b. CACHE_LINE b = CACHE_LINE a}"

fun flush_bytes :: "u64 \<Rightarrow> byte_sets \<Rightarrow> byte_sets" where
  "flush_bytes a (dirty, flushed) = (dirty - line_of a, flushed \<union> (dirty \<inter> line_of a))"

text \<open>
  \<open>is_pm\<close> is the test for persistent memory, \<open>unpersisted\<close> the option that makes the tool look
  for overwritten and lost writes: with it a byte written again is dirty only.
\<close>

fun persist_step :: "bool \<Rightarrow> (u64 \<Rightarrow> u32 \<Rightarrow> bool) \<Rightarrow> nat \<Rightarrow> event \<Rightarrow> byte_sets \<Rightarrow> byte_sets" where
  "persist_step unpersisted is_pm t (EvWrite t' ctxt a sz type) (dirty, flushed) =
     (if t' \<noteq> t \<or> \<not> is_pm a sz then (dirty, flushed)
      else if type = NON_TEMPORAL_STORE then flush_bytes a (dirty, flushed)
      else (dirty \<union> set (byte_range a sz), if unpersisted then flushed - set (byte_range a sz) else flushed))"
| "persist_step unpersisted is_pm t (EvFlush t' a type) s =
     (if t' \<noteq> t \<or> \<not> is_pm a 0 then s else flush_bytes a s)"
| "persist_step unpersisted is_pm t (EvFence t' ctxt) (dirty, flushed) =
     (dirty, if t' \<noteq> t then flushed else {})"
| "persist_step unpersisted is_pm t (EvRMW t' ctxt a sz) (dirty, flushed) =
     (if t' \<noteq> t then (dirty, flushed)
      else (if is_pm a sz then dirty \<union> set (byte_range a sz) else dirty, {}))"
| "persist_step unpersisted is_pm t e s = s"

text \<open>The sets of bytes the two maps of a thread stand for.\<close>

definition pending_bytes :: "hawk \<Rightarrow> nat \<Rightarrow> byte_sets" where
  "pending_bytes g t =
     (dom (mem_at (mem_state (get_thread_data g t))), dom (mem_at (flushed_mem_state (get_thread_data g t))))"

lemma pending_bytes_iff:
  "b \<in> fst (pending_bytes g t) \<union> snd (pending_bytes g t) \<longleftrightarrow> (\<exists>d. pending_at g t b d)"
  by (auto simp: pending_bytes_def pending_at_alt pending_in_def)

lemma dom_mem_at_Nil [simp]: "dom (mem_at []) = {}"
  by (simp add: fun_eq_iff)

lemma pending_bytes_init [simp]: "pending_bytes (init_hawk n d u) t = ({}, {})"
  by (simp add: pending_bytes_def del: dom_eq_empty_conv)

lemma pending_bytes_calm: "mem_calm g g' \<Longrightarrow> pending_bytes g' t = pending_bytes g t"
  by (simp add: pending_bytes_def mem_calm_def)

lemma persist_step_calm: "\<not> mem_event e \<Longrightarrow> persist_step u p t e s = s"
  by (cases e) auto

lemma persist_step_other: "thread_of e \<noteq> Some t \<Longrightarrow> persist_step u p t e s = s"
  by (cases e; cases s) auto

section \<open>The handlers implement it\<close>

lemma ProcessFlush_bytes:
  assumes "hawk_inv g"
  shows "pending_bytes (ProcessFlush tid type a g) t =
    (if t = tid then flush_bytes a (pending_bytes g t) else pending_bytes g t)"
proof (cases "t = tid")
  case True
  have "mem_at (mem_state (get_thread_data (ProcessFlush tid type a g) tid)) =
      (\<lambda>b. if CACHE_LINE b = CACHE_LINE a then None else mem_at (mem_state (get_thread_data g tid)) b)"
    "mem_at (flushed_mem_state (get_thread_data (ProcessFlush tid type a g) tid)) =
      (\<lambda>b. if CACHE_LINE b = CACHE_LINE a \<and> mem_at (mem_state (get_thread_data g tid)) b \<noteq> None
        then mem_at (mem_state (get_thread_data g tid)) b else mem_at (flushed_mem_state (get_thread_data g tid)) b)"
    using ProcessFlush_view [OF assms refl] by blast+
  with True show ?thesis by (auto simp: pending_bytes_def line_of_def split: if_splits)
qed (simp add: pending_bytes_def ProcessFlush_def Let_def)

lemma ProcessStore_bytes:
  assumes "hawk_inv g" "vector_clocks (get_thread_data g tid) \<noteq> []"
    "irh_ready (use_init_removal_heuristic_n g) hist tid (irh g)" and step: "ProcessStore tid a sz ctxt g = Inr g'"
  shows "pending_bytes g' tid =
      (fst (pending_bytes g tid) \<union> set (byte_range a sz),
       if check_unpersisted_stores g then snd (pending_bytes g tid) - set (byte_range a sz) else snd (pending_bytes g tid))"
proof -
  let ?td = "get_thread_data g tid"
  have sz: "sz \<le> 64" using step HandleAccess_size by (auto simp: ProcessStore_def)
  obtain data where mem:
    "\<And>c. mem_at (mem_state (get_thread_data g' tid)) c =
       (if c \<in> set (byte_range a sz) then Some data else mem_at (mem_state ?td) c)"
    "\<And>c. mem_at (flushed_mem_state (get_thread_data g' tid)) c =
       (if check_unpersisted_stores g \<and> c \<in> set (byte_range a sz) then None
        else mem_at (flushed_mem_state ?td) c)"
    using ProcessStore_spec [OF assms(1-3) sz, of a ctxt] step by auto
  show ?thesis by (auto simp: pending_bytes_def dom_def mem)
qed

lemma ProcessFence_bytes:
  assumes "hawk_inv g" "vector_clocks (get_thread_data g tid) \<noteq> []"
    "irh_ready (use_init_removal_heuristic_n g) hist tid (irh g)" and step: "ProcessFence tid False ctxt a sz g = Inr g'"
  shows "pending_bytes g' tid = (fst (pending_bytes g tid), {})" "keeps tid g g'"
proof -
  obtain "keeps tid g g'" "flushed_mem_state (get_thread_data g' tid) = []"
      "mem_state (get_thread_data g' tid) = mem_state (get_thread_data g tid)"
    by (rule ProcessFence_spec [OF assms(1-3), of ctxt a sz thesis]) (use step in auto)
  then show "pending_bytes g' tid = (fst (pending_bytes g tid), {})" "keeps tid g g'"
    by (simp_all add: pending_bytes_def del: dom_eq_empty_conv)
qed

lemma keeps_bytes: "keeps tid g g' \<Longrightarrow> t \<noteq> tid \<Longrightarrow> pending_bytes g' t = pending_bytes g t"
  using keeps_facts(10) by (simp add: pending_bytes_def)

lemma ProcessRMW_bytes:
  assumes r: "hawk_inv g" "vector_clocks (get_thread_data g tid) \<noteq> []"
    "irh_ready (use_init_removal_heuristic_n g) hist tid (irh g)" and step: "ProcessFence tid True ctxt a sz g = Inr g'"
  shows "pending_bytes g' tid = (fst (pending_bytes g tid) \<union> set (byte_range a sz), {})" "keeps tid g g'"
proof -
  have "pending_bytes g' tid = (fst (pending_bytes g tid) \<union> set (byte_range a sz), {}) \<and> keeps tid g g'"
  proof (cases "sz = 0")
    case True
    with step ProcessFence_bytes [OF r] show ?thesis by (simp add: ProcessFence_rmw byte_range_def)
  next
    case False
    with step obtain g1 where 1: "ProcessStore tid a sz ctxt g = Inr g1" "ProcessFence tid False ctxt a sz g1 = Inr g'"
      by (auto simp: ProcessFence_rmw bindE_Inr_iff)
    have "sz \<le> 64" using 1(1) HandleAccess_size by (auto simp: ProcessStore_def)
    from store_total [OF r this, of a ctxt] 1(1) obtain hist1 where
      k: "keeps tid g g1" and i: "irh_ready (use_init_removal_heuristic_n g1) hist1 tid (irh g1)" by auto
    from keeps_ready [OF k r(2)] have r1: "hawk_inv g1" "vector_clocks (get_thread_data g1 tid) \<noteq> []" by auto
    note f = ProcessFence_bytes [OF r1 i 1(2)]
    show ?thesis using f(1) ProcessStore_bytes [OF r 1(1)] keeps_trans [OF k f(2)] by simp
  qed
  then show "pending_bytes g' tid = (fst (pending_bytes g tid) \<union> set (byte_range a sz), {})" "keeps tid g g'" by simp_all
qed

lemma ProcessThreadExit_bytes:
  assumes r: "hawk_inv g" "vector_clocks (get_thread_data g tid) \<noteq> []"
    "irh_ready (use_init_removal_heuristic_n g) hist tid (irh g)" and step: "ProcessThreadExit tid g = Inr g'"
  shows "pending_bytes g' t = pending_bytes g t"
  using ProcessThreadExit_spec [OF r] step by (cases "t = tid") (auto simp: pending_bytes_def)

text \<open>Every callback of a run is a step of the machine of each thread.\<close>

lemma hawk_step_bytes:
  assumes run: "reachable c (init_hawk n d u) g" and few: "card {t. started g t} \<le> 64"
    and en: "enabled e g" and step: "hawk_step c e g = Inr g'"
  shows "pending_bytes g' t =
    persist_step (check_unpersisted_stores g) (\<lambda>a sz. IsPMAddress a sz (pm g)) t e (pending_bytes g t)"
proof (cases "mem_event e")
  case False
  then show ?thesis using pending_bytes_calm [OF hawk_step_mem_calm [OF step]] persist_step_calm by simp
next
  case True
  then obtain tid where tid: "started g tid" "thread_of e = Some tid"
    using en by (cases e) (auto simp: enabled_def)
  from reachable_ready [OF run few tid(1)] obtain hist where r: "hawk_inv g" "vector_clocks (get_thread_data g tid) \<noteq> []"
    "irh_ready (use_init_removal_heuristic_n g) hist tid (irh g)" by blast
  obtain D F where s: "pending_bytes g t = (D, F)" by fastforce
  show ?thesis
  proof (cases e)
    case (EvWrite t' ctxt a sz type)
    then have t: "t' = tid" using tid(2) by simp
    consider "\<not> IsPMAddress a sz (pm g)" "g' = g"
      | "IsPMAddress a sz (pm g)" "type = NON_TEMPORAL_STORE" "g' = ProcessFlush tid CLFLUSHOPT a g"
      | "IsPMAddress a sz (pm g)" "type \<noteq> NON_TEMPORAL_STORE" "ProcessStore tid a sz ctxt g = Inr g'"
      using step unfolding EvWrite t by (auto simp: TraceWrite_def split: if_splits)
    then show ?thesis
    proof cases
      case 3
      note k = ProcessStore_adds(1) [OF r 3(3)]
      show ?thesis
        using 3 ProcessStore_bytes [OF r 3(3)] keeps_bytes [OF k, of t] s by (cases "t = tid") (simp_all add: EvWrite t)
    qed (simp_all add: EvWrite t s ProcessFlush_bytes [OF r(1)])
  next
    case (EvFlush t' a type)
    then have "t' = tid" using tid(2) by simp
    with step show ?thesis by (auto simp: EvFlush TraceFlush_def ProcessFlush_bytes [OF r(1)])
  next
    case (EvFence t' ctxt)
    then have t: "t' = tid" using tid(2) by simp
    have "ProcessFence tid False ctxt 0 0 g = Inr g'" using step by (simp add: EvFence t TraceFence_def)
    note f = ProcessFence_bytes [OF r this]
    show ?thesis using f(1) keeps_bytes [OF f(2), of t] s by (cases "t = tid") (simp_all add: EvFence t)
  next
    case (EvRMW t' ctxt a sz)
    then have t: "t' = tid" using tid(2) by simp
    let ?a = "if IsPMAddress a sz (pm g) then a else 0" and ?sz = "if IsPMAddress a sz (pm g) then sz else 0"
    have "ProcessFence tid True ctxt ?a ?sz g = Inr g'" using step by (auto simp: EvRMW t TraceRMW_def split: if_splits)
    note f = ProcessRMW_bytes [OF r this]
    show ?thesis
      using f(1) keeps_bytes [OF f(2), of t] s by (cases "t = tid") (simp_all add: EvRMW t byte_range_def)
  next
    case (EvThreadExit t')
    then have "t' = tid" using tid(2) by simp
    with ProcessThreadExit_bytes [OF r] step show ?thesis by (simp add: EvThreadExit TraceThreadExit_def)
  qed (use True in auto)
qed

end
