(* ===== verification/Discipline.thy ===== *)
theory Discipline
  imports LockIndex PersistSpec
begin

text \<open>
  What the analysis promises a program that keeps to a discipline. Every entry of the report goes
  back to the callbacks it names (\<open>reported_origin\<close>); so a program in which every byte of
  persistent memory has a mutex, held at each access and not released while a write of the byte
  is pending, gets an empty report (\<open>guarded_unreported\<close>).
\<close>

section \<open>Entries of the report\<close>

definition reported_from ::
  "config \<Rightarrow> event list \<Rightarrow> hawk \<Rightarrow> hawk \<Rightarrow> bool \<Rightarrow> backtrace_t \<times> backtrace_t \<times> bool \<Rightarrow> backtrace_t \<Rightarrow> bool" where
  "reported_from c es i g pers k lb \<longleftrightarrow>
     (\<exists>w r b e1 W e2 F e3 g0 g1 g2 g3 l1 L l2 gl gm x z tr data. w \<noteq> r \<and>
        at_point c es i g (e1 @ W # e2) F e3 g2 g3 \<and> at_point c (e1 @ W # e2) i g2 e1 W e2 g0 g1 \<and>
        at_point c es i g l1 L l2 gl gm \<and> writes_byte W g0 w x b \<and> pending_during c e2 g1 w b data \<and>
        pending_in g2 w (snd (snd k)) b data \<and> fst k = sd_backtrace data \<and> ends_window F g2 w b pers tr \<and>
        loads_byte L gl r z b \<and> trace_is (bt_heap g) (fst k) (call_trace g0 w x) \<and>
        trace_opt (bt_heap g) (fst (snd k)) tr \<and> trace_is (bt_heap g) lb (call_trace gl r z) \<and>
        (epoch_of g2 w, epoch_of gl r) \<notin> run_happens_before c es i \<and>
        (epoch_of gl r, epoch_of g2 w) \<notin> run_happens_before c es i \<and>
        held (current_timedlockset (get_thread_data gl r)) \<inter>
          (held (current_timedlockset (get_thread_data g0 w)) - touched (thread_lock_ops c e2 g1 w)) = {})"

lemma reported_origin:
  assumes run: "hawk_run c es (init_hawk n d u) = Inr g" and len: "length es \<le> 2 ^ 62" and few: "card {t. started g t} \<le> 64"
    and small: "\<forall>t. started g t \<longrightarrow> length (vector_clocks (get_thread_data g t)) \<le> 2 ^ 16"
    and wrap: "\<And>t. acquisitions (thread_lock_ops c es (init_hawk n d u) t) < 2 ^ 32"
    and rep: "reported (CheckPMRaces g) pers (wt, ft, fl) lb"
  shows "reported_from c es (init_hawk n d u) g pers (wt, ft, fl) lb"
proof -
  from iffD1 [OF CheckPMRaces_reported [OF hawk_run_init(3) [OF run]] rep] obtain w s r l where
    s: "recorded_store g w s" "pers = persisted s" "wt = write_trace s" "ft = fence_trace s" "fl = was_flushed s"
    and l: "recorded_load g r l" "lb = key_backtrace (fst l)" and race: "race g w s r l" by auto
  from iffD1 [OF race_iff_unordered [OF run len s(1) l(1)] race] obtain p where
    ne: "w \<noteq> r" and touch: "touches (fst l) (sfd_address s)" and p: "p \<in> set (snd l)"
    and hb: "((r, unat (key_clock_i (fst l))), (w, unat (sfd_clock_i s))) \<notin> run_happens_before c es (init_hawk n d u)"
      "((w, unat (sfd_clock_i s)), (r, unat (key_clock_i (fst l)))) \<notin> run_happens_before c es (init_hawk n d u)"
    and disj: "members (lockset_at (ls_heap g) p) \<inter> members (lockset_at (ls_heap g) (common_set s)) = {}" by blast
  have started: "started g w" "started g r" using s(1) l(1) by (simp_all add: recorded_store_def recorded_load_def started_def)
  have "stored_by c es (init_hawk n d u) g w s"
    using s(1) by (intro store_origin [OF run few]) (simp add: recorded_store_def)
  then obtain fs1 F e3 g2 g3 tr e1 W e2 g0 g1 x data where
    F: "at_point c es (init_hawk n d u) g fs1 F e3 g2 g3" "ends_window F g2 w (sfd_address s) (persisted s) tr"
    and W: "at_point c fs1 (init_hawk n d u) g2 e1 W e2 g0 g1" "writes_byte W g0 w x (sfd_address s)"
    and sf: "pending_in g2 w (was_flushed s) (sfd_address s) data" "write_trace s = sd_backtrace data"
      "sfd_clock_i s = current_clock_i (get_thread_data g2 w)"
      "trace_is (bt_heap g) (write_trace s) (call_trace g0 w x)" "trace_opt (bt_heap g) (fence_trace s) tr"
      "members (lockset_at (ls_heap g) (common_set s)) =
         common_locks (current_timedlockset (get_thread_data g2 w)) (current_timedlockset (get_thread_data g0 w))"
    and during: "pending_during c e2 g1 w (sfd_address s) data"
    unfolding stored_by_def by blast
  have "loaded_by c es (init_hawk n d u) g r (fst l) p"
    using l(1) p by (intro load_origin [OF run few, of "fst l" "snd l"]) (simp_all add: recorded_load_def)
  then obtain l1 L l2 gl gm z where
    L: "at_point c es (init_hawk n d u) g l1 L l2 gl gm" "loads_byte L gl r z (sfd_address s)"
      "key_clock_i (fst l) = current_clock_i (get_thread_data gl r)" "trace_is (bt_heap g) (key_backtrace (fst l)) (call_trace gl r z)"
      "members (lockset_at (ls_heap g) p) = held (current_timedlockset (get_thread_data gl r))"
    unfolding loaded_by_def using touch by blast
  have fs1: "fs1 = e1 @ W # e2" using W(1) by (simp add: at_point_def)
  have ew: "(w, unat (sfd_clock_i s)) = epoch_of g2 w"
    using at_point_epoch [OF F(1) ends_window_started [OF F(2)] small [rule_format, OF started(1)]] F(1) sf(3) by (simp add: at_point_def)
  have er: "(r, unat (key_clock_i (fst l))) = epoch_of gl r"
    using at_point_epoch [OF L(1) loads_byte_started [OF L(2)] small [rule_format, OF started(2)]] L(1,3) by (simp add: at_point_def)
  have locks: "held (current_timedlockset (get_thread_data gl r)) \<inter>
      (held (current_timedlockset (get_thread_data g0 w)) - touched (thread_lock_ops c e2 g1 w)) = {}"
    using disj unfolding L(5) sf(6) common_locks_at_points [OF F(1) W(1,2) wrap] .
  note res = ne F(1) [unfolded fs1] W(1) [unfolded fs1] L(1) W(2) during sf(1,2) F(2) L(2) sf(4,5) L(4) hb(2,1) [unfolded ew er] locks
  show ?thesis unfolding reported_from_def fst_conv snd_conv s(2-5) l(2) by (intro exI conjI) (rule res)+
qed

section \<open>A mutex for every byte\<close>

text \<open>
  \<open>guard b\<close> is the mutex of byte \<open>b\<close>: a thread is in a critical section of it when it writes or
  loads the byte, and has no write of the byte pending when it locks or releases the mutex.
\<close>

definition guarded :: "config \<Rightarrow> event list \<Rightarrow> hawk \<Rightarrow> hawk \<Rightarrow> (u64 \<Rightarrow> u64) \<Rightarrow> bool" where
  "guarded c es i g guard \<longleftrightarrow>
     (\<forall>es1 e es2 h h' t b. at_point c es i g es1 e es2 h h' \<longrightarrow>
        (\<forall>x. writes_byte e h t x b \<or> loads_byte e h t x b \<longrightarrow> in_section t (guard b) es1) \<and>
        (concerns t (guard b) e \<longrightarrow> (\<forall>d. \<not> pending_at h t b d)))"

lemma at_point_inner:
  assumes F: "at_point c es i g (e1 @ W # e2) F e3 g2 g3" and W: "at_point c (e1 @ W # e2) i g2 e1 W e2 g0 g1"
    and split: "e2 = f1 @ f # f2"
  shows "\<exists>k k'. at_point c es i g (e1 @ W # f1) f (f2 @ F # e3) k k' \<and> hawk_run c f1 g1 = Inr k"
proof -
  from W obtain k k' where k: "hawk_run c (e1 @ W # f1) i = Inr k" "hawk_run c f1 g1 = Inr k" "enabled f k"
    "hawk_step c f k = Inr k'" "hawk_run c f2 k' = Inr g2"
    unfolding at_point_def split by (auto simp: hawk_run_append split: if_splits)
  have "at_point c es i g (e1 @ W # f1) f (f2 @ F # e3) k k'"
    using F k unfolding at_point_def split by (simp add: hawk_run_append)
  with k(2) show ?thesis by blast
qed

lemma guarded_unreported:
  assumes run: "hawk_run c es (init_hawk n d u) = Inr g" and entry: "reported_from c es (init_hawk n d u) g pers k lb"
  shows "\<not> guarded c es (init_hawk n d u) g guard"
proof
  assume guarded: "guarded c es (init_hawk n d u) g guard"
  from entry obtain w r b e1 W e2 F e3 g0 g1 g2 g3 l1 L l2 gl gm x z data where
    F: "at_point c es (init_hawk n d u) g (e1 @ W # e2) F e3 g2 g3"
    and W: "at_point c (e1 @ W # e2) (init_hawk n d u) g2 e1 W e2 g0 g1" "writes_byte W g0 w x b"
    and L: "at_point c es (init_hawk n d u) g l1 L l2 gl gm" "loads_byte L gl r z b"
    and pending: "pending_during c e2 g1 w b data"
    and disj: "held (current_timedlockset (get_thread_data gl r)) \<inter>
      (held (current_timedlockset (get_thread_data g0 w)) - touched (thread_lock_ops c e2 g1 w)) = {}"
    unfolding reported_from_def by (elim exE conjE) (rule that)
  have W': "at_point c es (init_hawk n d u) g e1 W (e2 @ F # e3) g0 g1"
    using F W(1) by (auto simp: at_point_def hawk_run_append)
  have sections: "in_section w (guard b) e1" "in_section r (guard b) l1"
    using guarded W' W(2) L unfolding guarded_def by blast+
  obtain i where i: "index_in g0 (guard b) i" "i \<in> held (current_timedlockset (get_thread_data g0 w))"
    using section_held [OF _ sections(1)] W' unfolding at_point_def by blast
  obtain j where j: "index_in gl (guard b) j" "j \<in> held (current_timedlockset (get_thread_data gl r))"
    using section_held [OF _ sections(2)] L(1) unfolding at_point_def by blast
  have "index_in g (guard b) i" "index_in g (guard b) j" "index_in g2 (guard b) i"
    using index_in_run [OF index_in_step] i(1) j(1) W' L(1) W(1) unfolding at_point_def by blast+
  then have ij: "i = j" and g2: "index_in g2 (guard b) i" by (simp_all add: index_in_def)
  have "filter (concerns w (guard b)) e2 = []"
  proof (rule ccontr)
    assume "filter (concerns w (guard b)) e2 \<noteq> []"
    then obtain f1 f f2 where f: "e2 = f1 @ f # f2" "concerns w (guard b) f"
      by (auto simp: filter_empty_conv dest!: split_list)
    from at_point_inner [OF F W(1) f(1)] obtain k k' where
      k: "at_point c es (init_hawk n d u) g (e1 @ W # f1) f (f2 @ F # e3) k k'" "hawk_run c f1 g1 = Inr k" by blast
    have "pending_at k w b data" using pending k(2) f(1) by (auto simp: pending_during_def)
    with guarded k(1) f(2) show False unfolding guarded_def by blast
  qed
  moreover have "hawk_inv g2" using W(1) reachable_hawk_inv [OF at_point_reachable(1) [OF F]] by simp
  ultimately have "i \<notin> touched (thread_lock_ops c e2 g1 w)"
    using W(1) g2 by (intro untouched_index) (auto simp: at_point_def)
  with disj i(2) j(2) ij show False by blast
qed

section \<open>Bounds of a run\<close>

text \<open>A thread has at most one clock for each of its callbacks, and has started only if it has one.\<close>

lemma clock_event_thread:
  "clock_event_of e g \<in> {CE_create t, CE_start t, CE_exit t, CE_join t x} \<Longrightarrow> thread_of e = Some t"
  by (cases e) (auto split: if_splits)

lemma step_clocks_length:
  assumes m: "clocks_match g s" and e: "hawk_inv g" "enabled e g" "hawk_step c e g = Inr g'"
  shows "length (vector_clocks (get_thread_data g' t)) \<le>
    length (vector_clocks (get_thread_data g t)) + (if thread_of e = Some t then 1 else 0)"
proof -
  have "length (cs_clocks (clock_step ce s) t) \<le> length (cs_clocks s t) + (if thread_of e = Some t then 1 else 0)"
    if "clock_event_of e g = ce" for ce
    using clock_event_thread [of e g] that by (cases ce) (fastforce simp: Let_def)+
  then show ?thesis
    using hawk_step_match(1) [OF e(1) m e(2,3)] m by (simp add: clocks_match_def)
qed

lemma run_clocks_length:
  assumes "hawk_run c es (init_hawk n d u) = Inr g" "length es \<le> 2 ^ 62"
  shows "length (vector_clocks (get_thread_data g t)) \<le> length (filter (\<lambda>e. thread_of e = Some t) es) \<and>
    (started g t \<longrightarrow> vector_clocks (get_thread_data g t) \<noteq> [])"
  using assms
proof (induction es arbitrary: g rule: rev_induct)
  case Nil
  then have "g = init_hawk n d u" by simp
  then show ?case by (simp add: init_hawk_def new_ThreadData_def started_def)
next
  case (snoc e es)
  then obtain h where h: "hawk_run c es (init_hawk n d u) = Inr h" "enabled e h" "hawk_step c e h = Inr g"
    by (auto simp: hawk_run_append split: if_splits)
  from hawk_run_clocks [OF h(1) hawk_inv_init clocks_match_init clock_inv_init, of 0] snoc.prems(2)
  have m: "hawk_inv h" "clocks_match h (clock_history c es (init_hawk n d u) init_clock_state)" by auto
  from hawk_step_match(1) [OF m h(2,3)]
  have "started g t \<longrightarrow> vector_clocks (get_thread_data g t) \<noteq> []" by (simp add: clocks_match_def started_def)
  with step_clocks_length [OF m(2,1) h(2,3), of t] snoc.IH [OF h(1)] snoc.prems(2) show ?case by auto
qed

text \<open>The bounds the theorems on reports ask for, for a run of few callbacks of few threads.\<close>

lemma short_run:
  assumes run: "hawk_run c es (init_hawk n d u) = Inr g" and len: "length es \<le> 2 ^ 16"
    and threads: "\<And>e t. e \<in> set es \<Longrightarrow> thread_of e = Some t \<Longrightarrow> t \<in> T" and T: "finite T" "card T \<le> 64"
  shows "length es \<le> 2 ^ 62" "card {t. started g t} \<le> 64"
    "\<forall>t. started g t \<longrightarrow> length (vector_clocks (get_thread_data g t)) \<le> 2 ^ 16"
    "acquisitions (thread_lock_ops c es (init_hawk n d u) t) < 2 ^ 32"
proof -
  show len62: "length es \<le> 2 ^ 62" using len by simp
  note clocks = run_clocks_length [OF run len62]
  have "t \<in> T" if "started g t" for t
  proof -
    have "filter (\<lambda>e. thread_of e = Some t) es \<noteq> []" using clocks [of t] that by auto
    with threads show ?thesis by (auto simp: filter_empty_conv)
  qed
  then have "{t. started g t} \<subseteq> T" by blast
  from card_mono [OF T(1) this] T(2) show "card {t. started g t} \<le> 64" by simp
  show "\<forall>t. started g t \<longrightarrow> length (vector_clocks (get_thread_data g t)) \<le> 2 ^ 16"
  proof (intro allI impI)
    fix t
    have "length (filter (\<lambda>e. thread_of e = Some t) es) \<le> length es" by simp
    with clocks [of t] len show "length (vector_clocks (get_thread_data g t)) \<le> 2 ^ 16" by linarith
  qed
  show "acquisitions (thread_lock_ops c es (init_hawk n d u) t) < 2 ^ 32"
    by (rule le_less_trans [OF acquisitions_le_length]) (use len in simp)
qed

section \<open>What a thread has pending\<close>

lemma fold_own: "fold (persist_step u p t) es s = fold (persist_step u p t) (filter (\<lambda>e. thread_of e = Some t) es) s"
  by (induction es arbitrary: s) (auto simp: persist_step_other)

text \<open>Between changes of the mappings, what a thread has pending is what its own callbacks make of it.\<close>

lemma run_bytes:
  assumes "hawk_run c es g = Inr g'" "reachable c (init_hawk n d u) g" "card {t. started g' t} \<le> 64"
    "filter map_event es = []" "\<not> found_alloc (pm g)"
  shows "pending_bytes g' t = fold (persist_step (check_unpersisted_stores g) (\<lambda>a sz. IsPMAddress a sz (pm g)) t)
    (filter (\<lambda>e. thread_of e = Some t) es) (pending_bytes g t)"
  unfolding fold_own [symmetric] using assms
proof (induction es arbitrary: g)
  case (Cons e es)
  then obtain g1 where e: "enabled e g" "hawk_step c e g = Inr g1" and rest: "hawk_run c es g1 = Inr g'"
    by (auto split: if_splits)
  have r1: "reachable c (init_hawk n d u) g1" using Cons.prems(2) e by (rule reachable_step)
  have few: "card {t. started g t} \<le> 64" by (rule few_before [OF Cons.prems(1,2,3)])
  have no_map: "\<not> map_event e" "filter map_event es = []" using Cons.prems(4) by (auto split: if_splits)
  with hawk_step_settings [OF e(2)] Cons.prems(5)
  have same: "pm g1 = pm g" "check_unpersisted_stores g1 = check_unpersisted_stores g" by (simp_all add: settings_step_def)
  show ?case
    using Cons.IH [OF rest r1 Cons.prems(3) no_map(2)] Cons.prems(5) hawk_step_bytes [OF Cons.prems(2) few e, of t]
    by (simp add: same)
qed simp

section \<open>Programs as scripts\<close>

text \<open>
  When the callbacks of each thread are known, the discipline is checked thread by thread:
  before each access the thread is in a critical section, and before each operation on the
  mutex the persistency machine has nothing pending. \<open>before\<close> is what the thread has done.
\<close>

fun accesses :: "(u64 \<Rightarrow> u32 \<Rightarrow> bool) \<Rightarrow> event \<Rightarrow> bool" where
  "accesses is_pm (EvWrite tid ctxt a sz type) \<longleftrightarrow> is_pm a sz"
| "accesses is_pm (EvRMW tid ctxt a sz) \<longleftrightarrow> is_pm a sz"
| "accesses is_pm (EvRead tid ctxt a sz a2) \<longleftrightarrow> is_pm a sz \<or> (a2 \<noteq> 0 \<and> is_pm a2 sz)"
| "accesses is_pm e \<longleftrightarrow> False"

fun disciplined ::
  "bool \<Rightarrow> (u64 \<Rightarrow> u32 \<Rightarrow> bool) \<Rightarrow> nat \<Rightarrow> u64 \<Rightarrow> event list \<Rightarrow> event list \<Rightarrow> bool" where
  "disciplined u is_pm t m before [] \<longleftrightarrow> True"
| "disciplined u is_pm t m before (e # es) \<longleftrightarrow>
     (accesses is_pm e \<longrightarrow> in_section t m before) \<and>
     (concerns t m e \<longrightarrow> fold (persist_step u is_pm t) before ({}, {}) = ({}, {})) \<and>
     disciplined u is_pm t m (before @ [e]) es"

lemma disciplined_append:
  "disciplined u p t m before (xs @ ys) \<longleftrightarrow> disciplined u p t m before xs \<and> disciplined u p t m (before @ xs) ys"
proof (induction xs arbitrary: before)
  case (Cons x xs)
  then show ?case unfolding append.simps disciplined.simps Cons.IH by (simp only: append_assoc append.simps conj_assoc)
qed simp

lemma disciplined_split:
  assumes "disciplined u p t m [] (es1 @ e # es2)"
  shows "(accesses p e \<longrightarrow> in_section t m es1) \<and>
     (concerns t m e \<longrightarrow> fold (persist_step u p t) es1 ({}, {}) = ({}, {}))"
  using assms unfolding disciplined_append by simp

text \<open>
  Before the pool is mapped the main thread has started and made system calls. (What it did to
  memory before, there was no persistent memory, so the tool ignored it.)
\<close>

fun pool_event :: "event \<Rightarrow> bool" where
  "pool_event (EvThreadStart tid) \<longleftrightarrow> tid = 0"
| "pool_event (EvSyscallEntry readlink tid num arg) \<longleftrightarrow> tid = 0"
| "pool_event (EvSyscallExit tid ret) \<longleftrightarrow> tid = 0"
| "pool_event e \<longleftrightarrow> False"

lemma pool_event_calm:
  assumes "pool_event e"
  shows "thread_of e = Some 0" "\<not> mem_event e" "\<not> accesses p e" "\<not> concerns t m e"
  using assms by (cases e; simp)+

lemma concerns_thread: "concerns t m e \<Longrightarrow> thread_of e = Some t"
  by (cases e) auto

lemma access_thread:
  assumes "writes_byte e g t x b \<or> loads_byte e g t x b" "p = (\<lambda>a sz. IsPMAddress a sz (pm g))"
  shows "thread_of e = Some t \<and> accesses p e"
  using assms by (cases e) (auto split: if_splits)

lemma in_section_own: "in_section t m (filter (\<lambda>e. thread_of e = Some t) es) \<longleftrightarrow> in_section t m es"
proof -
  have "filter (concerns t m) (filter (\<lambda>e. thread_of e = Some t) es) = filter (concerns t m) es"
    using concerns_thread by (auto intro: filter_cong)
  then show ?thesis by (simp add: in_section_def)
qed

lemma in_section_after: "filter (concerns t m) es = [] \<Longrightarrow> in_section t m (es @ fs) \<longleftrightarrow> in_section t m fs"
  by (simp add: in_section_def)

lemma pool_bytes:
  assumes "hawk_run c es (init_hawk n d u) = Inr g" "list_all pool_event es"
  shows "pending_bytes g t = ({}, {})"
  using assms
proof (induction es arbitrary: g rule: rev_induct)
  case (snoc e es)
  then obtain h where h: "hawk_run c es (init_hawk n d u) = Inr h" "hawk_step c e h = Inr g"
    by (auto simp: hawk_run_append split: if_splits)
  have "\<not> mem_event e" "list_all pool_event es" using snoc.prems(2) by (simp_all add: pool_event_calm)
  with pending_bytes_calm [OF hawk_step_mem_calm [OF h(2)]] snoc.IH [OF h(1)] show ?case by simp
qed simp

lemma scripts_guarded:
  assumes run: "hawk_run c (pool @ zs) (init_hawk n d u) = Inr g" and few: "card {t. started g t} \<le> 64"
    and pool: "list_all pool_event pool" and maps: "filter map_event zs = []" "\<And>k. hawk_run c pool (init_hawk n d u) = Inr k \<Longrightarrow> \<not> found_alloc (pm k)"
    and check: "\<And>k t. hawk_run c pool (init_hawk n d u) = Inr k \<Longrightarrow>
      disciplined u (\<lambda>a sz. IsPMAddress a sz (pm k)) t m [] (filter (\<lambda>e. thread_of e = Some t) zs)"
  shows "guarded c (pool @ zs) (init_hawk n d u) g (\<lambda>_. m)"
  unfolding guarded_def
proof (intro allI impI)
  fix es1 e es2 h h' t b
  assume at: "at_point c (pool @ zs) (init_hawk n d u) g es1 e es2 h h'"
  let ?own = "filter (\<lambda>e. thread_of e = Some t)"
  have split: "pool @ zs = es1 @ e # es2" and h: "hawk_run c es1 (init_hawk n d u) = Inr h" using at by (simp_all add: at_point_def)
  then consider p2 where "pool = es1 @ e # p2" | z1 where "es1 = pool @ z1" "zs = z1 @ e # es2"
    by (auto simp: append_eq_append_conv2 Cons_eq_append_conv append_eq_Cons_conv)
  then show "(\<forall>x. writes_byte e h t x b \<or> loads_byte e h t x b \<longrightarrow> in_section t m es1) \<and>
      (concerns t m e \<longrightarrow> (\<forall>d. \<not> pending_at h t b d))"
  proof cases
    case 1
    then have "pool_event e" using pool by simp
    then show ?thesis using access_thread [OF _ refl, of e h t _ b] pool_event_calm [of e] by auto
  next
    case 2
    obtain k where k: "hawk_run c pool (init_hawk n d u) = Inr k" "hawk_run c z1 k = Inr h"
      using h unfolding 2(1) by (auto simp: hawk_run_append split: if_splits)
    have rk: "reachable c (init_hawk n d u) k" by (rule hawk_run_reachable [OF k(1) reachable_init])
    have rh: "reachable c (init_hawk n d u) h" by (rule hawk_run_reachable [OF h reachable_init])
    have few_h: "card {t. started h t} \<le> 64"
      using at few_before [OF _ rh few, of "e # es2"] by (simp add: at_point_def)
    have u: "check_unpersisted_stores k = u" using hawk_run_settings [OF k(1)] by (simp add: init_hawk_def)
    have z1: "filter map_event z1 = []" using maps(1) by (simp add: 2(2))
    have pm: "pm h = pm k" using hawk_run_settings [OF k(2)] z1 maps(2) [OF k(1)] by simp
    note bytes = run_bytes [OF k(2) rk few_h z1 maps(2) [OF k(1)], of t, unfolded pool_bytes [OF k(1) pool] u]
    note access = access_thread [OF _ refl, of e h t _ b, unfolded pm]
    have none: "filter (concerns t m) pool = []"
      using pool pool_event_calm(4) by (auto simp: list_all_iff filter_empty_conv)
    show ?thesis
    proof (cases "thread_of e = Some t")
      case False
      then show ?thesis using access concerns_thread [of t m e] by blast
    next
      case True
      from check [OF k(1), of t] True
      have "disciplined u (\<lambda>a sz. IsPMAddress a sz (pm k)) t m [] (?own z1 @ e # ?own es2)" by (simp add: 2(2))
      from disciplined_split [OF this] have d: "accesses (\<lambda>a sz. IsPMAddress a sz (pm k)) e \<longrightarrow> in_section t m z1"
        "concerns t m e \<longrightarrow> pending_bytes h t = ({}, {})"
        using bytes by (simp_all add: in_section_own)
      show ?thesis
        using d access pending_bytes_iff [of b h t] unfolding 2(1) in_section_after [OF none] by auto
    qed
  qed
qed

end
