(* ===== verification/Schedules.thy ===== *)
theory Schedules
  imports Discipline
begin

text \<open>
  Programs of two threads: the main thread creates one worker, and may join it. Which callbacks
  are ordered by thread creation and joining then does not depend on the schedule, and neither
  do the locks a thread holds and its call stack, which follow from its own callbacks.
\<close>

section \<open>Epochs of two threads\<close>

text \<open>The callbacks that start a new epoch.\<close>

fun clock_change :: "event \<Rightarrow> bool" where
  "clock_change (EvCreateCall tid) = True"
| "clock_change (EvThreadStart tid) = True"
| "clock_change (EvThreadExit tid) = True"
| "clock_change (EvJoin tid result pid) = (result = 0)"
| "clock_change e = False"

abbreviation by_thread :: "nat \<Rightarrow> event list \<Rightarrow> event list" where
  "by_thread t \<equiv> filter (\<lambda>e. thread_of e = Some t)"

lemma clock_change_cases:
  assumes "clock_change e" "thread_of e = Some t"
  obtains "e = EvCreateCall t" "clock_event_of e g = CE_create t"
    | "e = EvThreadStart t" "clock_event_of e g = CE_start t"
    | "e = EvThreadExit t" "clock_event_of e g = CE_exit t"
    | pid where "e = EvJoin t 0 pid" "clock_event_of e g = CE_join t (sm_get 0 (pthread_id_to_tid g) pid)"
  using assms by (cases e) auto

lemma clock_change_none: "\<not> clock_change e \<Longrightarrow> clock_event_of e g = CE_none"
  by (cases e) auto

text \<open>
  The main thread creates one thread and then only joins and ends; the worker only starts and
  ends. \<open>two_threads\<close> says so of the callbacks after the start of the main thread.
\<close>

definition two_threads :: "event list \<Rightarrow> bool" where
  "two_threads es \<longleftrightarrow>
     (\<forall>e \<in> set es. thread_of e \<in> {Some 0, Some 1}) \<and>
     (\<exists>js. filter clock_change (by_thread 0 es) = EvCreateCall 0 # js \<and>
        (\<forall>e \<in> set js. (\<exists>pid. e = EvJoin 0 0 pid) \<or> e = EvThreadExit 0)) \<and>
     (\<exists>ks. filter clock_change (by_thread 1 es) = EvThreadStart 1 # ks \<and> (\<forall>e \<in> set ks. e = EvThreadExit 1))"

definition two_thread_edges :: "(epoch \<times> epoch) set" where
  "two_thread_edges = {((0, 0), (1, 0))} \<union> {(a, (0, k)) | a k. 2 \<le> k}"

definition epochs_ok :: "event list \<Rightarrow> clock_state \<Rightarrow> bool" where
  "epochs_ok ps s \<longleftrightarrow>
     length (cs_clocks s 0) = Suc (length (filter clock_change (by_thread 0 ps))) \<and>
     length (cs_clocks s 1) = length (filter clock_change (by_thread 1 ps)) \<and>
     (cs_has_creator s \<longrightarrow> gh_creator s = (0, 0)) \<and> gh_edges s \<subseteq> two_thread_edges"

lemma clock_history_snoc:
  "hawk_run c es g = Inr h \<Longrightarrow> hawk_step c e h = Inr h' \<Longrightarrow>
   clock_history c (es @ [e]) g s = clock_step (clock_event_of e h) (clock_history c es g s)"
  by (induction es arbitrary: g s) (auto split: if_splits)

text \<open>A callback of the main thread that starts an epoch is the creation or comes after it.\<close>

lemma two_threads_next:
  assumes two: "two_threads (ps @ e # qs)" and e: "clock_change e"
  shows "thread_of e = Some 0 \<Longrightarrow>
      (if filter clock_change (by_thread 0 ps) = [] then e = EvCreateCall 0
       else e = EvThreadExit 0 \<or> (\<exists>pid. e = EvJoin 0 0 pid))"
    "thread_of e = Some 1 \<Longrightarrow>
      (if filter clock_change (by_thread 1 ps) = [] then e = EvThreadStart 1 else e = EvThreadExit 1)"
proof -
  obtain js where js: "filter clock_change (by_thread 0 (ps @ e # qs)) = EvCreateCall 0 # js"
      "\<forall>e \<in> set js. (\<exists>pid. e = EvJoin 0 0 pid) \<or> e = EvThreadExit 0"
    using two by (auto simp: two_threads_def)
  obtain ks where ks: "filter clock_change (by_thread 1 (ps @ e # qs)) = EvThreadStart 1 # ks"
      "\<forall>e \<in> set ks. e = EvThreadExit 1"
    using two by (auto simp: two_threads_def)
  show "if filter clock_change (by_thread 0 ps) = [] then e = EvCreateCall 0
       else e = EvThreadExit 0 \<or> (\<exists>pid. e = EvJoin 0 0 pid)" if "thread_of e = Some 0"
    using js that e by (cases "filter clock_change (by_thread 0 ps)") auto
  show "if filter clock_change (by_thread 1 ps) = [] then e = EvThreadStart 1 else e = EvThreadExit 1"
    if "thread_of e = Some 1"
    using ks that e by (cases "filter clock_change (by_thread 1 ps)") auto
qed

lemma epochs_ok_step:
  assumes ok: "epochs_ok ps s" and two: "two_threads (ps @ e # qs)"
  shows "epochs_ok (ps @ [e]) (clock_step (clock_event_of e h) s)"
proof (cases "clock_change e")
  case False
  with ok show ?thesis by (simp add: clock_change_none epochs_ok_def)
next
  case True
  from two consider "thread_of e = Some 0" | "thread_of e = Some 1" by (auto simp: two_threads_def)
  then show ?thesis
  proof cases
    case 1
    note next0 = two_threads_next(1) [OF two True 1]
    show ?thesis
    proof (cases "filter clock_change (by_thread 0 ps) = []")
      case True
      with next0 have "e = EvCreateCall 0" by simp
      with ok True show ?thesis by (simp add: epochs_ok_def Let_def)
    next
      case False
      then obtain n where n: "length (cs_clocks s 0) = Suc (Suc n)" using ok by (cases "filter clock_change (by_thread 0 ps)") (auto simp: epochs_ok_def)
      from False next0 consider "e = EvThreadExit 0" | pid where "e = EvJoin 0 0 pid" by auto
      then show ?thesis
        by cases (use ok n in \<open>auto simp: epochs_ok_def two_thread_edges_def Let_def split: option.splits\<close>)
    qed
  next
    case 2
    note next1 = two_threads_next(2) [OF two True 2]
    show ?thesis
    proof (cases "filter clock_change (by_thread 1 ps) = []")
      case True
      with next1 have "e = EvThreadStart 1" by simp
      with ok True show ?thesis by (auto simp: epochs_ok_def two_thread_edges_def Let_def)
    next
      case False
      with next1 have "e = EvThreadExit 1" by simp
      with ok show ?thesis by (auto simp: epochs_ok_def Let_def)
    qed
  qed
qed

text \<open>What a callback does to the call stack of thread \<open>t\<close>.\<close>

fun stack_step :: "nat \<Rightarrow> event \<Rightarrow> u64 list \<Rightarrow> u64 list" where
  "stack_step t (EvCall t' a) st = (if t' = t then st @ [a] else st)"
| "stack_step t (EvRet t') st = (if t' = t then butlast st else st)"
| "stack_step t e st = st"

text \<open>Lock operations that do not name their mutex: try-locks, and acquire and release by index.\<close>

fun unnamed_lock :: "nat \<Rightarrow> event \<Rightarrow> bool" where
  "unnamed_lock t (EvTryLockAfter _ t' _ _ _ _ _) \<longleftrightarrow> t' = t"
| "unnamed_lock t (EvAdqRelBefore t' _) \<longleftrightarrow> t' = t"
| "unnamed_lock t (EvAdqRelAfter t' _) \<longleftrightarrow> t' = t"
| "unnamed_lock t e \<longleftrightarrow> False"

text \<open>The pool is mapped by system calls of the main thread.\<close>

definition pool_run :: "event list \<Rightarrow> bool" where
  "pool_run pool \<longleftrightarrow> (\<exists>sys. pool = EvThreadStart 0 # sys \<and> (\<forall>e \<in> set sys. pool_event e \<and> \<not> clock_change e))"

lemma pool_run_events: "pool_run pool \<Longrightarrow> list_all pool_event pool"
  by (auto simp: pool_run_def list_all_iff)

lemma pool_event_other:
  assumes "pool_event e"
  shows "\<not> clock_change e \<Longrightarrow> clock_event_of e g = CE_none" "stack_step t e st = st" "\<not> unnamed_lock t e"
  using assms by (cases e; simp)+

lemma pool_epochs:
  assumes "pool_run pool" "hawk_run c pool (init_hawk n d u) = Inr h"
  shows "epochs_ok [] (clock_history c pool (init_hawk n d u) init_clock_state)"
proof -
  obtain sys where pool: "pool = EvThreadStart 0 # sys" "\<forall>e \<in> set sys. pool_event e \<and> \<not> clock_change e"
    using assms(1) by (auto simp: pool_run_def)
  have same: "\<forall>e \<in> set sys. pool_event e \<and> \<not> clock_change e \<Longrightarrow> clock_history c sys k s = s" for k s
    by (induction sys arbitrary: k) (auto simp: pool_event_other split: sum.splits)
  obtain k where "hawk_step c (EvThreadStart 0) (init_hawk n d u) = Inr k" using assms(2) by (auto simp: pool(1) split: if_splits)
  then show ?thesis
    by (simp add: pool(1) same [OF pool(2)] epochs_ok_def init_clock_state_def Let_def)
qed

lemma run_epochs:
  assumes "pool_run pool" "hawk_run c (pool @ ps) (init_hawk n d u) = Inr h" "two_threads (ps @ qs)"
  shows "epochs_ok ps (clock_history c (pool @ ps) (init_hawk n d u) init_clock_state)"
  using assms(2,3)
proof (induction ps arbitrary: h qs rule: rev_induct)
  case Nil
  with pool_epochs [OF assms(1)] show ?case by simp
next
  case (snoc e ps)
  then obtain k where k: "hawk_run c (pool @ ps) (init_hawk n d u) = Inr k" "hawk_step c e k = Inr h"
    by (auto simp: hawk_run_append split: if_splits)
  have two: "two_threads (ps @ e # qs)" using snoc.prems(2) by simp
  from epochs_ok_step [OF snoc.IH [OF k(1) two] two] clock_history_snoc [OF k] show ?case by simp
qed

lemma epoch_at:
  assumes "pool_run pool" "hawk_run c (pool @ ps) (init_hawk n d u) = Inr h" "two_threads (ps @ qs)" "length (pool @ ps) \<le> 2 ^ 62"
  shows "epoch_of h 0 = (0, length (filter clock_change (by_thread 0 ps)))"
    "epoch_of h 1 = (1, length (filter clock_change (by_thread 1 ps)) - 1)"
proof -
  have "clocks_match h (clock_history c (pool @ ps) (init_hawk n d u) init_clock_state)"
    using hawk_run_clocks [OF assms(2) hawk_inv_init clocks_match_init clock_inv_init, of 0] assms(4) by simp
  with run_epochs [OF assms(1-3)] show "epoch_of h 0 = (0, length (filter clock_change (by_thread 0 ps)))"
    "epoch_of h 1 = (1, length (filter clock_change (by_thread 1 ps)) - 1)"
    by (simp_all add: epoch_of_def epochs_ok_def clocks_match_def)
qed

text \<open>The worker's first epoch and the main thread's epoch after the creation are unordered.\<close>

lemma predecessors_closed:
  assumes "(a, b) \<in> R\<^sup>*" "b \<in> S" "\<And>x y. (x, y) \<in> R \<Longrightarrow> y \<in> S \<Longrightarrow> x \<in> S"
  shows "a \<in> S"
  using assms(1,2) by (induction rule: converse_rtrancl_induct) (use assms(3) in blast)+

lemma two_thread_unordered:
  assumes "E \<subseteq> two_thread_edges"
  shows "((1, 0), (0, 1)) \<notin> happens_before clks E" "((0, 1), (1, 0)) \<notin> happens_before clks E"
proof -
  let ?R = "program_order clks \<union> E"
  have pred: "(\<exists>t i. x = (t, i) \<and> y = (t, Suc i)) \<or> y = (1, 0) \<and> x = (0, 0) \<or> (\<exists>k. y = (0, k) \<and> 2 \<le> k)"
    if "(x, y) \<in> ?R" for x y
    using that assms by (auto simp: program_order_def two_thread_edges_def)
  have main: "x \<in> {(0, 0), (0, 1)}" if "(x, y) \<in> ?R" "y \<in> {(0, 0), (0, 1)}" for x y
    using pred [OF that(1)] that(2) by auto
  have worker: "x \<in> {(0, 0), (1, 0)}" if "(x, y) \<in> ?R" "y \<in> {(0, 0), (1, 0)}" for x y
    using pred [OF that(1)] that(2) by auto
  show "((1, 0), (0, 1)) \<notin> happens_before clks E"
  proof
    assume "((1, 0), (0, 1)) \<in> happens_before clks E"
    from predecessors_closed [OF this [unfolded happens_before_def] _ main] show False by simp
  qed
  show "((0, 1), (1, 0)) \<notin> happens_before clks E"
  proof
    assume "((0, 1), (1, 0)) \<in> happens_before clks E"
    from predecessors_closed [OF this [unfolded happens_before_def] _ worker] show False by simp
  qed
qed

lemma run_unordered:
  assumes "pool_run pool" "hawk_run c (pool @ zs) (init_hawk n d u) = Inr g" "two_threads zs"
  shows "((1, 0), (0, 1)) \<notin> run_happens_before c (pool @ zs) (init_hawk n d u)"
    "((0, 1), (1, 0)) \<notin> run_happens_before c (pool @ zs) (init_hawk n d u)"
  using run_epochs [OF assms(1,2), of "[]"] assms(3) two_thread_unordered
  by (auto simp: run_happens_before_def epochs_ok_def Let_def)

section \<open>Exactly the locks of the critical sections\<close>

lemma held_section:
  assumes "hawk_run c es (init_hawk n d u) = Inr g" "filter (unnamed_lock t) es = []"
    "i \<in> held (current_timedlockset (get_thread_data g t))"
  shows "\<exists>m. index_in g m i \<and> in_section t m es"
  using assms
proof (induction es arbitrary: g rule: rev_induct)
  case Nil
  then have "g = init_hawk n d u" by simp
  with Nil show ?case by (simp add: init_hawk_def new_ThreadData_def new_TimedLockset_def)
next
  case (snoc e es)
  then obtain h where run: "hawk_run c es (init_hawk n d u) = Inr h" and step: "hawk_step c e h = Inr g"
    by (auto simp: hawk_run_append split: if_splits)
  have named: "\<not> unnamed_lock t e" "filter (unnamed_lock t) es = []" using snoc.prems(2) by (auto split: if_splits)
  have old: "\<exists>m. index_in g m i \<and> in_section t m es" if "i \<in> held (fst (locks_of h t))"
    using snoc.IH [OF run named(2)] that index_in_step [OF _ step] by (auto simp: locks_of_def)
  have i: "i \<in> held (fst (fold apply_lock_op (ops_for t (lock_op_of e h)) (locks_of h t)))"
    using snoc.prems(3) unfolding hawk_step_locks [OF step, of t, symmetric] by (simp add: locks_of_def)
  obtain T k where tk: "locks_of h t = (T, k)" by fastforce
  consider m where "e \<in> {EvLock t m, EvWriteLock t m, EvReadLock t m}"
      "ops_for t (lock_op_of e h) = [Acquire (mutex_index m h)]"
    | m where "e \<in> {EvUnlock t m, EvRWUnlock t m}" "ops_for t (lock_op_of e h) = [Release (mutex_index m h)]"
    | "\<forall>m. \<not> concerns t m e" "ops_for t (lock_op_of e h) = []"
    using named(1) by (cases e) (auto simp: ops_for_def Let_def)
  then show ?case
  proof cases
    case 1
    have new: "index_in g m (mutex_index m h)" using 1(1) by (intro index_in_lock [OF step]) auto
    show ?thesis
    proof (cases "i = mutex_index m h")
      case True
      with 1(1) new show ?thesis by (intro exI [of _ m]) auto
    next
      case False
      with i 1(2) tk have "i \<in> held T" by (simp add: lockset_simps)
      with old tk obtain m' where m': "index_in g m' i" "in_section t m' es" by auto
      with new False have "m' \<noteq> m" by (auto simp: index_in_def)
      with 1(1) m' show ?thesis by (intro exI [of _ m']) auto
    qed
  next
    case 2
    have new: "index_in g m (mutex_index m h)" using 2(1) by (intro index_in_lock [OF step]) auto
    from i 2(2) tk have i': "i \<in> held T" "i \<noteq> mutex_index m h" by (simp_all add: lockset_simps)
    with old tk obtain m' where m': "index_in g m' i" "in_section t m' es" by auto
    with new i'(2) have "m' \<noteq> m" by (auto simp: index_in_def)
    with 2(1) m' show ?thesis by (intro exI [of _ m']) auto
  next
    case 3
    with i old tk show ?thesis by auto
  qed
qed

lemma touched_section:
  assumes "hawk_run c es g = Inr g'" "e \<in> set es" "concerns t m e" "filter (unnamed_lock t) es = []"
  shows "\<exists>i. index_in g' m i \<and> i \<in> touched (thread_lock_ops c es g t)"
  using assms
proof (induction es arbitrary: g)
  case (Cons e' es)
  then obtain g1 where step: "hawk_step c e' g = Inr g1" and rest: "hawk_run c es g1 = Inr g'" by (auto split: if_splits)
  have named: "\<not> unnamed_lock t e'" "filter (unnamed_lock t) es = []" using Cons.prems(4) by (auto split: if_splits)
  show ?case
  proof (cases "e = e'")
    case True
    with Cons.prems(3) named(1) have e: "e' \<in> {EvLock t m, EvWriteLock t m, EvReadLock t m, EvUnlock t m, EvRWUnlock t m}"
      by (cases e) auto
    have "index_in g' m (mutex_index m g)" by (rule index_in_run [OF index_in_lock [OF step e] rest])
    moreover have "mutex_index m g \<in> touched (ops_for t (lock_op_of e' g))" using e by (auto simp: ops_for_def touched_def)
    ultimately show ?thesis using step by auto
  next
    case False
    with Cons.IH [OF rest _ Cons.prems(3) named(2)] Cons.prems(2) step show ?thesis by auto
  qed
qed simp

section \<open>Call stacks\<close>

definition stacks_same :: "hawk \<Rightarrow> hawk \<Rightarrow> bool" where
  "stacks_same g g' \<longleftrightarrow> (\<forall>t. stack (get_thread_data g' t) = stack (get_thread_data g t))"

interpretation sf: handler_frame "\<lambda>_. stacks_same"
proof
  show "stacks_same a b" if "hawk_HandleAccess tid adr sz a = Inr (m, b)" for tid adr sz a m b
    using hawk_HandleAccess_spec(1) [OF that] by (auto simp: stacks_same_def)
  show "stacks_same a b" if "hawk_HandleAccessByte tid adr a = Inr (y, b)" for tid adr a y b
    using hawk_HandleAccess_spec(2) [OF that] by (auto simp: stacks_same_def)
qed (auto simp: stacks_same_def untouched_def)

lemma stacks_same_refl [simp]: "stacks_same g g"
  by (simp add: stacks_same_def)

lemma stacks_same_ProcessLock: "stacks_same g (ProcessLock tid lt m special g)"
  by (simp add: stacks_same_def ProcessLock_def lock_current_def unlock_current_def get_next_id_def Let_def split: prod.split)

lemma hawk_step_stacks_same:
  assumes run: "hawk_step c e g = Inr g'" and e: "\<forall>t a. e \<noteq> EvCall t a" "\<forall>t. e \<noteq> EvRet t"
  shows "stacks_same g g'"
proof (cases e)
  case (EvWrite tid ctxt a sz type)
  then show ?thesis
    using run sf.F_ProcessStore sf.F_untouched [OF untouched_ProcessFlush] by (auto simp: TraceWrite_def split: if_splits)
next
  case (EvFlush tid a type)
  then show ?thesis using run sf.F_untouched [OF untouched_ProcessFlush] by (auto simp: TraceFlush_def)
next
  case (EvFence tid ctxt)
  then show ?thesis using run sf.F_ProcessFence by (auto simp: TraceFence_def)
next
  case (EvRMW tid ctxt a sz)
  then show ?thesis using run sf.F_ProcessFence by (auto simp: TraceRMW_def split: if_splits)
next
  case (EvRead tid ctxt a sz a2)
  then show ?thesis using run sf.F_RegisterAccess by (auto simp: TraceRead_def ProcessRead_def split: if_splits)
next
  case (EvTryLockAfter mem tid res success neg use_arg lt)
  then show ?thesis
    using run stacks_same_ProcessLock TryLockAfter_cases [of mem tid res success neg use_arg lt g] by auto
next
  case (EvThreadExit tid)
  then show ?thesis using run sf.F_ProcessThreadExit by (auto simp: TraceThreadExit_def)
qed (use run e stacks_same_ProcessLock in \<open>auto simp: LockBefore_def WriteLockBefore_def ReadLockBefore_def
    UnlockBefore_def RWUnlockBefore_def TraceAdqRelBefore_def TraceAdqRelAfter_def
    TryLockBefore_def PthreadCreate_call_def ProcessThreadCreate_def PthreadCreate_return_def TraceThreadStart_def
    TraceThreadStart_signal_def TraceThreadStart_init_def ProcessThreadInit_def PthreadJoin_return_def
    ProcessThreadJoin_def push_clock_def stacks_same_def Let_def split: if_splits sum.splits\<close>)

lemma hawk_step_stack:
  assumes "hawk_step c e g = Inr g'"
  shows "stack (get_thread_data g' t) = stack_step t e (stack (get_thread_data g t))"
  using assms hawk_step_stacks_same [OF assms]
  by (cases e) (auto simp: stacks_same_def TraceCall_def TraceRet_def split: if_splits)

lemma stack_step_other: "thread_of e \<noteq> Some t \<Longrightarrow> stack_step t e st = st"
  by (cases e) auto

text \<open>The stack of a thread along a run is what its own callbacks make of it.\<close>

lemma run_stack:
  "hawk_run c es (init_hawk n d u) = Inr g \<Longrightarrow> stack (get_thread_data g t) = fold (stack_step t) (by_thread t es) []"
proof (induction es arbitrary: g rule: rev_induct)
  case Nil
  then have "g = init_hawk n d u" by simp
  then show ?case by (simp add: init_hawk_def new_ThreadData_def)
next
  case (snoc e es)
  then obtain h where "hawk_run c es (init_hawk n d u) = Inr h" "hawk_step c e h = Inr g"
    by (auto simp: hawk_run_append split: if_splits)
  with snoc.IH [OF this(1)] hawk_step_stack [OF this(2), of t] stack_step_other [of e t] show ?case by simp
qed

end
