(* ===== verification/SpecialLocks.thy ===== *)
theory SpecialLocks
  imports Schedules
begin

text \<open>
  Acquire and release functions. A function that a configuration lists under \<^verbatim>\<open>adq_rel\<close> holds a special mutex from its
  entry to its exit; the index of the mutex comes with the callbacks, not from the registry. A thread with no other
  locks holds at most the special mutexes it has acquired (\<open>special_held\<close>), and a program whose accesses all happen under
  one special mutex, with nothing pending when it is acquired or released, gets an empty report
  (\<open>special_unreported\<close>).
\<close>

section \<open>The special mutexes a thread holds\<close>

text \<open>
  A thread whose only locks are the special mutexes of acquire and release functions: the indices come with the callbacks,
  so it holds no others than those it has acquired.
\<close>

definition special_only :: "nat \<Rightarrow> event list \<Rightarrow> bool" where
  "special_only t es \<longleftrightarrow> (\<forall>e \<in> set es. (\<exists>m. concerns t m e) \<longrightarrow> (\<exists>i. e = EvAdqRelBefore t i \<or> e = EvAdqRelAfter t i))"

definition specials :: "nat \<Rightarrow> event list \<Rightarrow> u64 set" where
  "specials t es = {i. EvAdqRelBefore t i \<in> set es}"

lemma special_held:
  assumes "hawk_run c es (init_hawk n d u) = Inr g" "special_only t es"
  shows "held (current_timedlockset (get_thread_data g t)) \<subseteq> unat ` specials t es"
  using assms
proof (induction es arbitrary: g rule: rev_induct)
  case Nil
  then have "g = init_hawk n d u" by simp
  then show ?case by (simp add: init_hawk_def new_ThreadData_def new_TimedLockset_def)
next
  case (snoc e es)
  then obtain h where run: "hawk_run c es (init_hawk n d u) = Inr h" and step: "hawk_step c e h = Inr g"
    by (auto simp: hawk_run_append split: if_splits)
  have only: "special_only t es" and last: "(\<exists>m. concerns t m e) \<longrightarrow> (\<exists>i. e = EvAdqRelBefore t i \<or> e = EvAdqRelAfter t i)"
    using snoc.prems(2) by (simp_all add: special_only_def)
  note IH = snoc.IH [OF run only]
  have locks: "locks_of g t = fold apply_lock_op (ops_for t (lock_op_of e h)) (locks_of h t)" by (rule hawk_step_locks [OF step])
  obtain T k where tk: "locks_of h t = (T, k)" by fastforce
  have T: "held T \<subseteq> unat ` specials t es" using IH tk by (simp add: locks_of_def)
  consider i where "e = EvAdqRelBefore t i" | i where "e = EvAdqRelAfter t i" | "\<forall>m. \<not> concerns t m e"
    using last by blast
  moreover have "ops_for t (lock_op_of e h) = []" if "\<forall>m. \<not> concerns t m e"
    using that by (cases e) (auto simp: ops_for_def Let_def)
  ultimately have "held (fst (locks_of g t)) \<subseteq> unat ` specials t (es @ [e])"
    unfolding locks tk by cases (use T in \<open>auto simp: ops_for_def lockset_simps specials_def\<close>)
  then show ?case by (simp add: locks_of_def)
qed

lemma script_specials:
  assumes "pool_run pool" "hawk_run c (pool @ es) (init_hawk n d u) = Inr g" "special_only t (by_thread t es)"
  shows "held (current_timedlockset (get_thread_data g t)) \<subseteq> unat ` specials t (by_thread t es)"
proof -
  have pool: "\<not> concerns t m e" "e \<noteq> EvAdqRelBefore t i" if "e \<in> set pool" for e m i
    using pool_run_events [OF assms(1)] pool_event_calm(4) [of e t m] that by (auto simp: list_all_iff)
  have "special_only t (pool @ es)"
    using assms(3) pool(1) concerns_thread by (fastforce simp: special_only_def)
  from special_held [OF assms(2) this] have "held (current_timedlockset (get_thread_data g t)) \<subseteq> unat ` specials t (pool @ es)" .
  also have "specials t (pool @ es) = specials t (by_thread t es)" using pool(2) by (auto simp: specials_def)
  finally show ?thesis .
qed

section \<open>Programs under one special mutex\<close>

text \<open>Thread \<open>t\<close> is between the acquisition and the release of the special mutex \<open>s\<close>.\<close>

definition special_event :: "nat \<Rightarrow> u64 \<Rightarrow> event \<Rightarrow> bool" where
  "special_event t s e \<longleftrightarrow> e \<in> {EvAdqRelBefore t s, EvAdqRelAfter t s}"

definition in_special :: "nat \<Rightarrow> u64 \<Rightarrow> event list \<Rightarrow> bool" where
  "in_special t s es \<longleftrightarrow> (let fs = filter (special_event t s) es in fs \<noteq> [] \<and> last fs = EvAdqRelBefore t s)"

lemma in_special_snoc [simp]:
  "in_special t s (es @ [e]) \<longleftrightarrow> (if special_event t s e then e = EvAdqRelBefore t s else in_special t s es)"
  by (simp add: in_special_def Let_def)

lemma in_special_own: "in_special t s (by_thread t es) \<longleftrightarrow> in_special t s es"
proof -
  have "filter (special_event t s) (by_thread t es) = filter (special_event t s) es"
    unfolding filter_filter by (rule filter_cong) (auto simp: special_event_def)
  then show ?thesis by (simp add: in_special_def)
qed

lemma special_section_held:
  assumes "hawk_run c es (init_hawk n d u) = Inr g" "special_only t es" "in_special t s es"
  shows "unat s \<in> held (current_timedlockset (get_thread_data g t))"
  using assms
proof (induction es arbitrary: g rule: rev_induct)
  case Nil
  then show ?case by (simp add: in_special_def)
next
  case (snoc e es)
  then obtain h where run: "hawk_run c es (init_hawk n d u) = Inr h" and step: "hawk_step c e h = Inr g"
    by (auto simp: hawk_run_append split: if_splits)
  have only: "special_only t es" and last: "(\<exists>m. concerns t m e) \<longrightarrow> (\<exists>i. e = EvAdqRelBefore t i \<or> e = EvAdqRelAfter t i)"
    using snoc.prems(2) by (simp_all add: special_only_def)
  have locks: "locks_of g t = fold apply_lock_op (ops_for t (lock_op_of e h)) (locks_of h t)" by (rule hawk_step_locks [OF step])
  obtain T k where tk: "locks_of h t = (T, k)" by fastforce
  have T: "unat s \<in> held T" if "\<not> special_event t s e"
    using snoc.IH [OF run only] snoc.prems(3) that tk by (simp add: locks_of_def)
  have enter: "e \<noteq> EvAdqRelAfter t s" using snoc.prems(3) by (auto simp: special_event_def)
  consider i where "e = EvAdqRelBefore t i" | i where "e = EvAdqRelAfter t i" "i \<noteq> s" | "\<forall>m. \<not> concerns t m e"
    using last enter by blast
  then have "unat s \<in> held (fst (locks_of g t))"
  proof cases
    case (1 i)
    with T show ?thesis unfolding locks tk by (cases "i = s") (auto simp: ops_for_def lockset_simps special_event_def)
  next
    case (2 i)
    with T show ?thesis unfolding locks tk
      by (auto simp: ops_for_def lockset_simps special_event_def dest!: iffD2 [OF word_unat_eq_iff])
  next
    case 3
    then have "ops_for t (lock_op_of e h) = []" "\<not> special_event t s e" by (cases e; auto simp: ops_for_def Let_def special_event_def)+
    with T show ?thesis unfolding locks tk by simp
  qed
  then show ?case by (simp add: locks_of_def)
qed

text \<open>An operation of a thread on an index is one of its callbacks.\<close>

lemma touched_split:
  "i \<in> touched (thread_lock_ops c es g t) \<Longrightarrow> hawk_run c es g = Inr g' \<Longrightarrow>
   \<exists>f1 f f2 k. es = f1 @ f # f2 \<and> hawk_run c f1 g = Inr k \<and> i \<in> touched (ops_for t (lock_op_of f k))"
proof (induction es arbitrary: g)
  case (Cons e es)
  then obtain g1 where step: "enabled e g" "hawk_step c e g = Inr g1" "hawk_run c es g1 = Inr g'" by (auto split: if_splits)
  show ?case
  proof (cases "i \<in> touched (ops_for t (lock_op_of e g))")
    case True
    then show ?thesis by (intro exI [of _ "[]"] exI [of _ e] exI [of _ es]) simp
  next
    case False
    with Cons.prems(1) step(2) have "i \<in> touched (thread_lock_ops c es g1 t)" by simp
    from Cons.IH [OF this step(3)] obtain f1 f f2 k where
      "es = f1 @ f # f2" "hawk_run c f1 g1 = Inr k" "i \<in> touched (ops_for t (lock_op_of f k))" by blast
    with step show ?thesis by (intro exI [of _ "e # f1"] exI [of _ f] exI [of _ f2] exI [of _ k]) simp
  qed
qed (simp add: touched_def)

text \<open>A lock index that every access holds, and that no thread takes or releases with a write pending, leaves no entry.\<close>

lemma index_unreported:
  assumes held: "\<And>es1 e es2 h h' t x b. at_point c es (init_hawk n d u) g es1 e es2 h h' \<Longrightarrow>
      writes_byte e h t x b \<or> loads_byte e h t x b \<Longrightarrow> i \<in> held (current_timedlockset (get_thread_data h t))"
    and calm: "\<And>es1 e es2 h h' t b d'. at_point c es (init_hawk n d u) g es1 e es2 h h' \<Longrightarrow>
      i \<in> touched (ops_for t (lock_op_of e h)) \<Longrightarrow> \<not> pending_at h t b d'"
  shows "\<not> reported_from c es (init_hawk n d u) g pers k lb"
proof
  assume "reported_from c es (init_hawk n d u) g pers k lb"
  then obtain w r b e1 W e2 F e3 g0 g1 g2 g3 l1 L l2 gl gm x z data where
    F: "at_point c es (init_hawk n d u) g (e1 @ W # e2) F e3 g2 g3"
    and W: "at_point c (e1 @ W # e2) (init_hawk n d u) g2 e1 W e2 g0 g1" "writes_byte W g0 w x b"
    and L: "at_point c es (init_hawk n d u) g l1 L l2 gl gm" "loads_byte L gl r z b"
    and pending: "pending_during c e2 g1 w b data"
    and disj: "held (current_timedlockset (get_thread_data gl r)) \<inter>
      (held (current_timedlockset (get_thread_data g0 w)) - touched (thread_lock_ops c e2 g1 w)) = {}"
    unfolding reported_from_def by (elim exE conjE) (rule that)
  have W': "at_point c es (init_hawk n d u) g e1 W (e2 @ F # e3) g0 g1"
    using F W(1) by (auto simp: at_point_def hawk_run_append)
  have locks: "i \<in> held (current_timedlockset (get_thread_data g0 w))" "i \<in> held (current_timedlockset (get_thread_data gl r))"
    using held [OF W'] held [OF L(1)] W(2) L(2) by blast+
  have "i \<notin> touched (thread_lock_ops c e2 g1 w)"
  proof
    assume "i \<in> touched (thread_lock_ops c e2 g1 w)"
    with W(1) obtain f1 f f2 k where f: "e2 = f1 @ f # f2" "hawk_run c f1 g1 = Inr k" "i \<in> touched (ops_for w (lock_op_of f k))"
      using touched_split [of i c e2 g1 w g2] by (auto simp: at_point_def)
    from at_point_inner [OF F W(1) f(1)] f(2) obtain k' where
      "at_point c es (init_hawk n d u) g (e1 @ W # f1) f (f2 @ F # e3) k k'" by fastforce
    with calm f(3) have "\<not> pending_at k w b data" by blast
    with pending f(1,2) show False by (auto simp: pending_during_def)
  qed
  with disj locks show False by blast
qed

text \<open>The same, checked on the script of each thread.\<close>

fun special_disciplined ::
  "bool \<Rightarrow> (u64 \<Rightarrow> u32 \<Rightarrow> bool) \<Rightarrow> nat \<Rightarrow> u64 \<Rightarrow> event list \<Rightarrow> event list \<Rightarrow> bool" where
  "special_disciplined u is_pm t s before [] \<longleftrightarrow> True"
| "special_disciplined u is_pm t s before (e # es) \<longleftrightarrow>
     (accesses is_pm e \<longrightarrow> in_special t s before) \<and>
     (special_event t s e \<longrightarrow> fold (persist_step u is_pm t) before ({}, {}) = ({}, {})) \<and>
     special_disciplined u is_pm t s (before @ [e]) es"

lemma special_disciplined_append:
  "special_disciplined u p t s before (xs @ ys) \<longleftrightarrow>
     special_disciplined u p t s before xs \<and> special_disciplined u p t s (before @ xs) ys"
proof (induction xs arbitrary: before)
  case (Cons x xs)
  then show ?case unfolding append.simps special_disciplined.simps Cons.IH by (simp only: append_assoc append.simps conj_assoc)
qed simp

lemma special_only_op:
  assumes "special_only t es" "e \<in> set es" "unat s \<in> touched (ops_for t (lock_op_of e h))"
  shows "special_event t s e"
proof -
  consider i where "e = EvAdqRelBefore t i" | i where "e = EvAdqRelAfter t i" | "\<forall>m. \<not> concerns t m e"
    using assms(1,2) unfolding special_only_def by blast
  then show ?thesis
  proof cases
    case 3
    then have "ops_for t (lock_op_of e h) = []" by (cases e) (auto simp: ops_for_def Let_def)
    with assms(3) show ?thesis by (simp add: touched_def)
  qed (use assms(3) in \<open>auto simp: ops_for_def touched_def special_event_def dest!: iffD2 [OF word_unat_eq_iff]\<close>)
qed

lemma special_unreported:
  assumes run: "hawk_run c (pool @ zs) (init_hawk n d u) = Inr g" and len: "length (pool @ zs) \<le> 2 ^ 16"
    and threads: "\<And>e t. e \<in> set (pool @ zs) \<Longrightarrow> thread_of e = Some t \<Longrightarrow> t \<in> T" "finite T" "card T \<le> 64"
    and pool: "pool_run pool" "hawk_run c pool (init_hawk n d u) = Inr k" "\<not> found_alloc (pm k)"
    and maps: "filter map_event zs = []" and only: "\<And>t. special_only t (by_thread t zs)"
    and check: "\<And>t. special_disciplined u (\<lambda>a sz. IsPMAddress a sz (pm k)) t s [] (by_thread t zs)"
  shows "\<not> reported (CheckPMRaces g) pers (wt, ft, fl) lb"
proof -
  let ?i = "init_hawk n d u"
  have short: "length (pool @ zs) \<le> 2 ^ 62" "card {t. started g t} \<le> 64"
      "\<forall>t. started g t \<longrightarrow> length (vector_clocks (get_thread_data g t)) \<le> 2 ^ 16"
      "acquisitions (thread_lock_ops c (pool @ zs) ?i t) < 2 ^ 32" for t
    by (rule short_run [OF run len _ threads(2,3)], erule (1) threads(1))+
  have only': "special_only t es1" if "pool @ zs = es1 @ es2" for t es1 es2
  proof -
    have "\<not> concerns t m e" if "e \<in> set pool" for e m
      using pool_run_events [OF pool(1)] pool_event_calm(4) [of e t m] that by (auto simp: list_all_iff)
    then have "special_only t (pool @ zs)" using only [of t] concerns_thread by (fastforce simp: special_only_def)
    with that show ?thesis by (simp add: special_only_def)
  qed
  have point: "(writes_byte e h t x b \<or> loads_byte e h t x b \<longrightarrow> unat s \<in> held (current_timedlockset (get_thread_data h t))) \<and>
      (unat s \<in> touched (ops_for t (lock_op_of e h)) \<longrightarrow> \<not> pending_at h t b d')"
    if at: "at_point c (pool @ zs) ?i g es1 e es2 h h'" for es1 e es2 h h' t x b d'
  proof -
    have split: "pool @ zs = es1 @ e # es2" and h: "hawk_run c es1 ?i = Inr h" using at by (simp_all add: at_point_def)
    from split consider p2 where "pool = es1 @ e # p2" | z1 where "es1 = pool @ z1" "zs = z1 @ e # es2"
      by (auto simp: append_eq_append_conv2 Cons_eq_append_conv append_eq_Cons_conv)
    then show ?thesis
    proof cases
      case 1
      then have "pool_event e" using pool_run_events [OF pool(1)] by simp
      moreover from this have "\<not> special_event t s e" by (auto simp: special_event_def)
      moreover have "special_only t (es1 @ [e])" using only' [of "es1 @ [e]" es2] split by simp
      ultimately show ?thesis
        using access_thread [OF _ refl, of e h t x b] pool_event_calm(3) [of e] special_only_op [of t "es1 @ [e]" e s h] by auto
    next
      case 2
      have k: "hawk_run c z1 k = Inr h" using h pool(2) unfolding 2(1) by (simp add: hawk_run_append)
      have rk: "reachable c ?i k" by (rule hawk_run_reachable [OF pool(2) reachable_init])
      have rh: "reachable c ?i h" by (rule hawk_run_reachable [OF h reachable_init])
      have few: "card {t. started h t} \<le> 64"
        using at few_before [OF _ rh short(2), of "e # es2"] by (simp add: at_point_def)
      have u: "check_unpersisted_stores k = u" using hawk_run_settings [OF pool(2)] by (simp add: init_hawk_def)
      have z1: "filter map_event z1 = []" using maps by (simp add: 2(2))
      have pm: "pm h = pm k" using hawk_run_settings [OF k] z1 pool(3) by simp
      note bytes = run_bytes [OF k rk few z1 pool(3), of t, unfolded pool_bytes [OF pool(2) pool_run_events [OF pool(1)]] u]
      note access = access_thread [OF _ refl, of e h t x b, unfolded pm]
      have op: "special_event t s e" if "unat s \<in> touched (ops_for t (lock_op_of e h))"
        using special_only_op [OF only' [of "es1 @ [e]" es2 t] _ that] split by simp
      show ?thesis
      proof (cases "thread_of e = Some t")
        case False
        then show ?thesis using access op by (auto simp: special_event_def)
      next
        case True
        from check [of t] True
        have d: "accesses (\<lambda>a sz. IsPMAddress a sz (pm k)) e \<longrightarrow> in_special t s (by_thread t z1)"
          "special_event t s e \<longrightarrow> pending_bytes h t = ({}, {})"
          by (simp_all add: 2(2) special_disciplined_append bytes)
        have "in_special t s es1" if "in_special t s (by_thread t z1)"
        proof -
          have "filter (special_event t s) pool = []"
            using pool_run_events [OF pool(1)] by (auto simp: filter_empty_conv list_all_iff special_event_def)
          with that show ?thesis by (simp add: in_special_own 2(1)) (simp add: in_special_def)
        qed
        with d access op special_section_held [OF h only' [OF split]] pending_bytes_iff [of b h t] show ?thesis by auto
      qed
    qed
  qed
  have "\<not> reported_from c (pool @ zs) ?i g pers (wt, ft, fl) lb"
    by (rule index_unreported [where i = "unat s"]) (use point in blast)+
  then show ?thesis using reported_origin [OF run short(1-4)] by blast
qed

end
