(* ===== verification/LostWrites.thy ===== *)
theory LostWrites
  imports Provenance
begin

text \<open>
  Writes that are never persisted. A write still pending at the end of its thread is recorded, when the
  tool looks for lost writes, with the locks of the write that the thread has not touched since,
  and the record is there when the analysis runs.
\<close>

lemma exit_after_write:
  assumes run0: "hawk_run c es0 (init_hawk n d u) = Inr g0" and t: "started g0 tid"
    and sz: "sz \<le> 64" and pm: "IsPMAddress a sz (pm g0)" and b: "b \<in> set (byte_range a sz)"
    and store: "hawk_step c (EvWrite tid ctxt a sz STORE) g0 = Inr g1"
    and run: "hawk_run c es g1 = Inr g2" and few: "card {t. started g2 t} \<le> 64"
    and pending: "mem_at (mem_state (get_thread_data g1 tid)) b = Some w" "pending_in g2 tid fl b w"
    and wrap: "acquisitions (thread_lock_ops c es0 (init_hawk n d u) tid) + acquisitions (thread_lock_ops c es g1 tid) < 2 ^ 32"
    and unpersisted: "check_unpersisted_stores g2" and through: "let_through g2 tid b"
  shows "\<exists>g3 s. hawk_step c (EvThreadExit tid) g2 = Inr g3 \<and> s \<in> set (race_likely_stores (get_thread_data g3 tid)) \<and>
    sfd_address s = b \<and> \<not> persisted s \<and> was_flushed s = fl \<and> fence_trace s = None \<and>
    sfd_clock_i s = current_clock_i (get_thread_data g2 tid) \<and> ls_valid (ls_heap g3) (common_set s) \<and>
    trace_is (bt_heap g3) (write_trace s) (call_trace g0 tid ctxt) \<and>
    members (lockset_at (ls_heap g3) (common_set s)) =
      held (current_timedlockset (get_thread_data g0 tid)) - touched (thread_lock_ops c es g1 tid)"
proof -
  have r0: "reachable c (init_hawk n d u) g0" by (rule hawk_run_reachable [OF run0 reachable_init])
  have en: "enabled (EvWrite tid ctxt a sz STORE) g0" using t by (simp add: enabled_def)
  have r1: "reachable c (init_hawk n d u) g1" by (rule reachable_step [OF r0 en store])
  have r2: "reachable c (init_hawk n d u) g2" by (rule hawk_run_reachable [OF run r1])
  have i0: "hawk_inv g0" and i1: "hawk_inv g1" by (rule reachable_hawk_inv, fact)+
  note k = run_keeps_records [OF run i1]
  have f01: "step_frame g0 g1" by (rule hawk_step_frame [OF i0 en store])
  have sub: "{t. started g0 t} \<subseteq> {t. started g2 t}" and t2: "started g2 tid"
    using f01 k(3) t by (auto simp: step_frame_def)
  have few0: "card {t. started g0 t} \<le> 64" using card_mono [OF finite_started [OF r2] sub] few by simp
  from write_recorded [OF r0 few0 t sz pm store b] pending(1) have
    data: "tls_valid (tls_heap g1) (timed_lockset w)"
      "timedlockset_at (tls_heap g1) (timed_lockset w) = current_timedlockset (get_thread_data g0 tid)"
      "trace_is (bt_heap g1) (sd_backtrace w) (call_trace g0 tid ctxt)" "lock_frame g0 g1" by auto
  have locks: "common_locks (current_timedlockset (get_thread_data g2 tid)) (current_timedlockset (get_thread_data g0 tid)) =
      held (current_timedlockset (get_thread_data g0 tid)) - touched (thread_lock_ops c es g1 tid)"
    using run_held_locks [OF run0 data(4) run wrap] by (simp add: common_locks_sym)
  from reachable_ready [OF r2 few t2] obtain hist where r: "hawk_inv g2" "vector_clocks (get_thread_data g2 tid) \<noteq> []"
    "irh_ready (use_init_removal_heuristic_n g2) hist tid (irh g2)" by blast
  from ProcessThreadExit_spec [OF r] obtain g3 new where
    g3: "ProcessThreadExit tid g2 = Inr g3" "hawk_inv g3"
      "race_likely_stores (get_thread_data g3 tid) = race_likely_stores (get_thread_data g2 tid) @ new"
    and new: "list_all2 (\<lambda>(w, fl) s. sfd_address s = fst w \<and> write_trace s = sd_backtrace (snd w) \<and> fence_trace s = None \<and>
        sfd_clock_i s = current_clock_i (get_thread_data g2 tid) \<and> \<not> persisted s \<and> was_flushed s = fl \<and>
        members (lockset_at (ls_heap g3) (common_set s)) =
          common_locks (current_timedlockset (get_thread_data g2 tid)) (timedlockset_at (tls_heap g3) (timed_lockset (snd w))))
      (filter (\<lambda>(w, fl). decides (use_init_removal_heuristic_n g2) hist tid (fst w)) (pending (get_thread_data g2 tid))) new"
    using unpersisted by auto
  have step: "hawk_step c (EvThreadExit tid) g2 = Inr g3" using g3(1) by (simp add: TraceThreadExit_def)
  have one: "hawk_run c [EvThreadExit tid] g2 = Inr g3" using step t2 by (simp add: enabled_def)
  note k3 = run_keeps_records [OF one r(1)]
  have "((b, w), fl) \<in> set (pending (get_thread_data g2 tid))"
    using pending(2) mem_entries_iff [OF hawk_inv_mem(1) [OF r(1)]] mem_entries_iff [OF hawk_inv_mem(2) [OF r(1)]]
    by (auto simp: pending_def pending_in_def split: if_splits)
  then have "((b, w), fl) \<in> set (filter (\<lambda>(w, fl). decides (use_init_removal_heuristic_n g2) hist tid (fst w)) (pending (get_thread_data g2 tid)))"
    using through by (simp add: let_through_decides [OF r(3)])
  from list_all2_set1 [OF new this] obtain s where s: "s \<in> set new" "sfd_address s = b" "write_trace s = sd_backtrace w"
    "fence_trace s = None" "sfd_clock_i s = current_clock_i (get_thread_data g2 tid)" "\<not> persisted s" "was_flushed s = fl"
    "members (lockset_at (ls_heap g3) (common_set s)) =
       common_locks (current_timedlockset (get_thread_data g2 tid)) (timedlockset_at (tls_heap g3) (timed_lockset w))" by auto
  have in3: "s \<in> set (race_likely_stores (get_thread_data g3 tid))" using s(1) g3(3) by simp
  have "ls_valid (ls_heap g3) (common_set s)" using hawk_inv_td [OF g3(2)] in3 by (auto simp: td_ok_def store_ok_def)
  moreover have "timedlockset_at (tls_heap g3) (timed_lockset w) = current_timedlockset (get_thread_data g0 tid)"
    using k(6) [OF data(1)] k3(6) data(2) by simp
  ultimately show ?thesis
    using step in3 s locks k3(4) [OF k(4) [OF data(3)]] by (intro exI [of _ g3] exI [of _ s]) simp
qed

text \<open>A lost write as the analysis finds it.\<close>

lemma lost_write_in_final_state:
  assumes run: "hawk_run c (e1 @ EvWrite w ctxt a sz STORE # e2 @ EvThreadExit w # e3) (init_hawk n d u) = Inr g"
    and few: "card {t. started g t} \<le> 64"
    and states: "hawk_run c e1 (init_hawk n d u) = Inr g0" "hawk_step c (EvWrite w ctxt a sz STORE) g0 = Inr g1"
      "hawk_run c e2 g1 = Inr g2"
    and write_ok: "sz \<le> 64" "IsPMAddress a sz (pm g0)" "b \<in> set (byte_range a sz)"
    and through: "let_through g2 w b" and unpersisted: "check_unpersisted_stores g2"
    and pending: "mem_at (mem_state (get_thread_data g1 w)) b = Some x" "pending_in g2 w fl b x"
    and small: "length (vector_clocks (get_thread_data g2 w)) \<le> 2 ^ 16"
    and wrap: "acquisitions (thread_lock_ops c e1 (init_hawk n d u) w) + acquisitions (thread_lock_ops c e2 g1 w) < 2 ^ 32"
  shows "\<exists>s. recorded_store g w s \<and> sfd_address s = b \<and> \<not> persisted s \<and> was_flushed s = fl \<and> fence_trace s = None \<and>
    (w, unat (sfd_clock_i s)) = epoch_of g2 w \<and>
    trace_is (bt_heap g) (write_trace s) (call_trace g0 w ctxt) \<and>
    members (lockset_at (ls_heap g) (common_set s)) =
      held (current_timedlockset (get_thread_data g0 w)) - touched (thread_lock_ops c e2 g1 w)"
proof -
  obtain g3 where f3: "enabled (EvThreadExit w) g2" "hawk_step c (EvThreadExit w) g2 = Inr g3" "hawk_run c e3 g3 = Inr g"
    and en0: "enabled (EvWrite w ctxt a sz STORE) g0"
    using run states by (auto simp: hawk_run_append hawk_run_Cons simp del: hawk_run.simps)
  have st0: "started g0 w" and st2: "started g2 w" using f3(1) en0 by (simp_all add: enabled_def)
  have r1: "reachable c (init_hawk n d u) g1"
    using hawk_run_reachable [OF states(1) reachable_init] en0 states(2) by (rule reachable_step)
  have r2: "reachable c (init_hawk n d u) g2" by (rule hawk_run_reachable [OF states(3) r1])
  have r3: "reachable c (init_hawk n d u) g3" by (rule reachable_step [OF r2 f3(1,2)])
  have run2: "hawk_run c (EvThreadExit w # e3) g2 = Inr g" using f3 by simp
  note k = run_keeps_records [OF f3(3) reachable_hawk_inv [OF r3]]
  from exit_after_write [OF states(1) st0 write_ok states(2,3) few_before [OF run2 r2 few] pending wrap unpersisted through] f3(2)
  obtain s where s: "s \<in> set (race_likely_stores (get_thread_data g3 w))" "sfd_address s = b" "\<not> persisted s"
      "was_flushed s = fl" "fence_trace s = None" "sfd_clock_i s = current_clock_i (get_thread_data g2 w)"
      "ls_valid (ls_heap g3) (common_set s)" "trace_is (bt_heap g3) (write_trace s) (call_trace g0 w ctxt)"
      "members (lockset_at (ls_heap g3) (common_set s)) =
         held (current_timedlockset (get_thread_data g0 w)) - touched (thread_lock_ops c e2 g1 w)" by auto
  have "recorded_store g w s"
    using k(1) [OF s(1)] run_keeps_records(3) [OF run2 reachable_hawk_inv [OF r2] st2]
      started_bound [OF hawk_run_reachable [OF run reachable_init]]
    by (simp add: recorded_store_def started_def)
  then show ?thesis
    using s k(4) [OF s(8)] k(5) [OF s(7)] current_clock_i_exact [OF ready [OF reachable_hawk_inv [OF r2] st2] small]
    by (intro exI [of _ s]) (simp add: epoch_of_def)
qed

end
