(* ===== verification/ScriptRaces.thy ===== *)
theory ScriptRaces
  imports SpecialLocks LostWrites
begin

text \<open>
  Races read off the scripts of two threads. Whether a write is persisted, and with which locks it and
  a load are recorded, follows from the callbacks of their threads alone; so two accesses
  of unordered epochs that share no lock are reported in every interleaving: a write that
  a fence persists (\<open>racy_access\<close>), and one that is never persisted (\<open>lost_access\<close>).
\<close>

section \<open>A write is pending from its callback on\<close>

fun overwrites :: "(u64 \<Rightarrow> u32 \<Rightarrow> bool) \<Rightarrow> u64 \<Rightarrow> event \<Rightarrow> bool" where
  "overwrites is_pm b (EvWrite tid ctxt a sz type) \<longleftrightarrow> type \<noteq> NON_TEMPORAL_STORE \<and> is_pm a sz \<and> b \<in> set (byte_range a sz)"
| "overwrites is_pm b (EvRMW tid ctxt a sz) \<longleftrightarrow> is_pm a sz \<and> b \<in> set (byte_range a sz)"
| "overwrites is_pm b e \<longleftrightarrow> False"

lemma overwrites_accesses: "\<not> accesses p e \<Longrightarrow> \<not> overwrites p b e"
  by (cases e) auto

lemma writes_byte_overwrites:
  "writes_byte e g t x b \<Longrightarrow> thread_of e = Some t \<and> overwrites (\<lambda>a sz. IsPMAddress a sz (pm g)) b e"
  by (cases e) auto

lemma pending_back:
  assumes "hawk_run c es g = Inr g'" "reachable c (init_hawk n dl u) g" "card {t. started g' t} \<le> 64"
    "pending_at g' t b d" "filter map_event es = []" "\<not> found_alloc (pm g)"
    "\<forall>e \<in> set (by_thread t es). \<not> overwrites (\<lambda>a sz. IsPMAddress a sz (pm g)) b e"
  shows "pending_at g t b d"
  using assms
proof (induction es arbitrary: g)
  case (Cons e es)
  then obtain g1 where e: "enabled e g" "hawk_step c e g = Inr g1" and rest: "hawk_run c es g1 = Inr g'"
    by (auto split: if_splits)
  have r1: "reachable c (init_hawk n dl u) g1" using Cons.prems(2) e by (rule reachable_step)
  have few: "card {t. started g t} \<le> 64" by (rule few_before [OF Cons.prems(1,2,3)])
  have no_map: "\<not> map_event e" "filter map_event es = []" using Cons.prems(5) by (auto split: if_splits)
  with hawk_step_settings [OF e(2)] Cons.prems(6) have same: "pm g1 = pm g" by (simp add: settings_step_def)
  have "\<forall>e \<in> set (by_thread t es). \<not> overwrites (\<lambda>a sz. IsPMAddress a sz (pm g)) b e" using Cons.prems(7) by simp
  with Cons.IH [OF rest r1 Cons.prems(3,4) no_map(2)] Cons.prems(6) have "pending_at g1 t b d" by (simp add: same)
  moreover have "\<not> writes_byte e g t x b" for x
    using writes_byte_overwrites [of e g t x b] Cons.prems(7) by auto
  ultimately show ?case using hawk_step_adds [OF Cons.prems(2) few e] unfolding adds_only_def by blast
qed simp

section \<open>Reported in every schedule\<close>

lemma filter_split:
  "filter P es = s1 @ e # s2 \<Longrightarrow> \<exists>es1 es2. es = es1 @ e # es2 \<and> filter P es1 = s1 \<and> filter P es2 = s2"
proof (induction es arbitrary: s1)
  case (Cons a es)
  show ?case
  proof (cases "P a \<and> s1 = []")
    case True
    with Cons.prems show ?thesis by (intro exI [of _ "[]"] exI [of _ es]) simp
  next
    case False
    with Cons.prems obtain s1' where "filter P es = s1' @ e # s2" "s1 = (if P a then a # s1' else s1')"
      by (cases s1) (auto split: if_splits)
    with Cons.IH [OF this(1)] obtain es1 es2 where "es = es1 @ e # es2" "filter P es1 = s1'" "filter P es2 = s2" by blast
    with \<open>s1 = _\<close> show ?thesis by (intro exI [of _ "a # es1"] exI [of _ es2]) simp
  qed
qed simp

lemma filter_own:
  assumes "\<And>e. P e \<Longrightarrow> thread_of e = Some t"
  shows "filter P (by_thread t es) = filter P es"
  unfolding filter_filter by (rule filter_cong) (use assms in auto)

lemma unnamed_lock_thread: "unnamed_lock t e \<Longrightarrow> thread_of e = Some t"
  by (cases e) auto

lemma pool_unnamed: "pool_run pool \<Longrightarrow> filter (unnamed_lock t) pool = []"
  using pool_event_other(3) by (auto simp: pool_run_def filter_empty_conv)

text \<open>A critical section of a thread in a run, seen in the script of the thread.\<close>

lemma script_held:
  assumes "pool_run pool" "hawk_run c (pool @ es) (init_hawk n d u) = Inr g" "filter (unnamed_lock t) (by_thread t es) = []"
    "i \<in> held (current_timedlockset (get_thread_data g t))"
  shows "\<exists>m. index_in g m i \<and> in_section t m (by_thread t es)"
proof -
  have "filter (unnamed_lock t) (pool @ es) = []"
    using assms(3) pool_unnamed [OF assms(1)] filter_own [OF unnamed_lock_thread] by simp
  from held_section [OF assms(2) this assms(4)] obtain m where m: "index_in g m i" "in_section t m (pool @ es)" by blast
  have "filter (concerns t m) pool = []"
    using pool_run_events [OF assms(1)] pool_event_calm(4) by (auto simp: list_all_iff filter_empty_conv)
  with m show ?thesis by (auto simp: in_section_own in_section_after)
qed

text \<open>
  The write of byte \<open>b\<close> is dirty after its callback and still the one that is flushed and not
  fenced after the callbacks \<open>es\<close>, in which the thread does not write it again.
\<close>

lemma write_still_flushed:
  assumes run: "reachable c (init_hawk n dl u) g0" "enabled (EvWrite t ctxt a sz STORE) g0"
      "hawk_step c (EvWrite t ctxt a sz STORE) g0 = Inr g1" "hawk_run c es g1 = Inr g2" "card {t. started g2 t} \<le> 64"
    and store: "sz \<le> 64" "IsPMAddress a sz (pm g0)" "b \<in> set (byte_range a sz)"
    and silent: "filter map_event es = []" "\<not> found_alloc (pm g0)"
      "\<forall>e \<in> set (by_thread t es). \<not> overwrites (\<lambda>a sz. IsPMAddress a sz (pm g0)) b e"
    and bytes: "b \<notin> snd (pending_bytes g0 t)" "b \<in> snd (pending_bytes g2 t)"
  shows "mem_at (flushed_mem_state (get_thread_data g2 t)) b = mem_at (mem_state (get_thread_data g1 t)) b"
proof -
  have r1: "reachable c (init_hawk n dl u) g1" using run(1-3) by (rule reachable_step)
  have few1: "card {t. started g1 t} \<le> 64" by (rule few_before [OF run(4) r1 run(5)])
  have one: "hawk_run c [EvWrite t ctxt a sz STORE] g0 = Inr g1" using run(2,3) by simp
  have few0: "card {t. started g0 t} \<le> 64" by (rule few_before [OF one run(1) few1])
  have st: "started g0 t" using run(2) by (simp add: enabled_def)
  obtain D F where s: "pending_bytes g0 t = (D, F)" by fastforce
  have "b \<notin> snd (pending_bytes g1 t)"
    using hawk_step_bytes [OF run(1) few0 run(2,3), of t] bytes(1) by (auto simp: s split: if_splits)
  then have none: "mem_at (flushed_mem_state (get_thread_data g1 t)) b = None" by (auto simp: pending_bytes_def)
  obtain x where x: "mem_at (mem_state (get_thread_data g1 t)) b = Some x"
    using write_recorded [OF run(1) few0 st store(1,2) run(3) store(3)] by blast
  obtain y where y: "mem_at (flushed_mem_state (get_thread_data g2 t)) b = Some y"
    using bytes(2) by (auto simp: pending_bytes_def)
  then have "pending_at g2 t b y" by (auto simp: pending_at_alt pending_in_def)
  moreover have "pm g1 = pm g0" using hawk_step_settings [OF run(3)] silent(2) by (simp add: settings_step_def)
  ultimately have "pending_at g1 t b y" using pending_back [OF run(4) r1 run(5) _ silent(1)] silent(2,3) by simp
  with none x y show ?thesis by (auto simp: pending_at_alt pending_in_def)
qed

text \<open>With the search for lost writes it is the one that is pending after \<open>es\<close>, flushed or not.\<close>

lemma write_still_pending:
  assumes run: "reachable c (init_hawk n dl True) g0" "enabled (EvWrite t ctxt a sz STORE) g0"
      "hawk_step c (EvWrite t ctxt a sz STORE) g0 = Inr g1" "hawk_run c es g1 = Inr g2" "card {t. started g2 t} \<le> 64"
    and store: "sz \<le> 64" "IsPMAddress a sz (pm g0)" "b \<in> set (byte_range a sz)"
    and silent: "filter map_event es = []" "\<not> found_alloc (pm g0)"
      "\<forall>e \<in> set (by_thread t es). \<not> overwrites (\<lambda>a sz. IsPMAddress a sz (pm g0)) b e"
    and unpersisted: "check_unpersisted_stores g0"
    and bytes: "b \<in> (if fl then snd (pending_bytes g2 t) else fst (pending_bytes g2 t))"
  obtains x where "mem_at (mem_state (get_thread_data g1 t)) b = Some x" "pending_in g2 t fl b x"
proof -
  have r1: "reachable c (init_hawk n dl True) g1" using run(1-3) by (rule reachable_step)
  have few1: "card {t. started g1 t} \<le> 64" by (rule few_before [OF run(4) r1 run(5)])
  have one: "hawk_run c [EvWrite t ctxt a sz STORE] g0 = Inr g1" using run(2,3) by simp
  have few0: "card {t. started g0 t} \<le> 64" by (rule few_before [OF one run(1) few1])
  have st: "started g0 t" using run(2) by (simp add: enabled_def)
  obtain D F where s: "pending_bytes g0 t = (D, F)" by fastforce
  have "b \<notin> snd (pending_bytes g1 t)"
    using hawk_step_bytes [OF run(1) few0 run(2,3), of t] store unpersisted by (auto simp: s)
  then have none: "mem_at (flushed_mem_state (get_thread_data g1 t)) b = None" by (auto simp: pending_bytes_def)
  obtain x where x: "mem_at (mem_state (get_thread_data g1 t)) b = Some x"
    using write_recorded [OF run(1) few0 st store(1,2) run(3) store(3)] by blast
  obtain y where y: "pending_in g2 t fl b y"
    using bytes by (auto simp: pending_bytes_def pending_in_def split: if_splits)
  then have "pending_at g2 t b y" by (auto simp: pending_at_def)
  moreover have "pm g1 = pm g0" using hawk_step_settings [OF run(3)] silent(2) by (simp add: settings_step_def)
  ultimately have "pending_at g1 t b y" using pending_back [OF run(4) r1 run(5) _ silent(1)] silent(2,3) by simp
  with none x have "y = x" by (auto simp: pending_at_alt pending_in_def)
  with that [OF x] y show thesis by simp
qed

text \<open>
  Two scripts that share no lock: no critical section of a mutex is common to both, or their
  only locks are special mutexes and none is common to both.
\<close>

definition apart :: "nat \<Rightarrow> event list \<Rightarrow> nat \<Rightarrow> event list \<Rightarrow> event list \<Rightarrow> bool" where
  "apart r x1 w y1 y2 \<longleftrightarrow>
     (filter (unnamed_lock r) x1 = [] \<and> filter (unnamed_lock w) (y1 @ y2) = [] \<and>
      (\<forall>m. in_section r m x1 \<and> in_section w m y1 \<longrightarrow> (\<exists>e \<in> set y2. concerns w m e))) \<or>
     (special_only r x1 \<and> special_only w y1 \<and> specials r x1 \<inter> specials w y1 = {})"

lemma apartI:
  "filter (unnamed_lock r) x1 = [] \<Longrightarrow> filter (unnamed_lock w) (y1 @ y2) = [] \<Longrightarrow>
   \<forall>m. in_section r m x1 \<and> in_section w m y1 \<longrightarrow> (\<exists>e \<in> set y2. concerns w m e) \<Longrightarrow> apart r x1 w y1 y2"
  by (simp add: apart_def)

text \<open>Two such accesses share no lock, in every schedule.\<close>

lemma sections_disjoint:
  assumes pool: "pool_run pool" and inv: "hawk_inv g"
    and load: "hawk_run c (pool @ b1) (init_hawk n d u) = Inr gl" "hawk_run c b2 gl = Inr g"
    and store: "hawk_run c (pool @ a1) (init_hawk n d u) = Inr g0" "hawk_step c W g0 = Inr g1" "hawk_run c a2 g1 = Inr g2"
      "hawk_run c a3 g2 = Inr g"
    and named: "filter (unnamed_lock r) (by_thread r b1) = []" "filter (unnamed_lock w) (by_thread w a1) = []"
      "filter (unnamed_lock w) (by_thread w a2) = []"
    and apart: "\<forall>m. in_section r m (by_thread r b1) \<and> in_section w m (by_thread w a1) \<longrightarrow>
      (\<exists>e \<in> set (by_thread w a2). concerns w m e)"
  shows "held (current_timedlockset (get_thread_data gl r)) \<inter>
    (held (current_timedlockset (get_thread_data g0 w)) - touched (thread_lock_ops c a2 g1 w)) = {}"
proof (rule equals0I)
  fix i assume "i \<in> held (current_timedlockset (get_thread_data gl r)) \<inter>
    (held (current_timedlockset (get_thread_data g0 w)) - touched (thread_lock_ops c a2 g1 w))"
  then have i: "i \<in> held (current_timedlockset (get_thread_data gl r))" "i \<in> held (current_timedlockset (get_thread_data g0 w))"
    "i \<notin> touched (thread_lock_ops c a2 g1 w)" by auto
  obtain m where m: "index_in gl m i" "in_section r m (by_thread r b1)" using script_held [OF pool load(1) named(1) i(1)] by blast
  obtain m' where m': "index_in g0 m' i" "in_section w m' (by_thread w a1)" using script_held [OF pool store(1) named(2) i(2)] by blast
  have last: "index_in g m i" "index_in g m' i"
    using index_in_run [OF m(1) load(2)] index_in_run [OF index_in_run [OF index_in_step [OF m'(1) store(2)] store(3)] store(4)] by auto
  with inv have "m' = m" using index_in_inject by blast
  with apart m(2) m'(2) obtain e where e: "e \<in> set a2" "concerns w m e" by auto
  have "filter (unnamed_lock w) a2 = []" using named(3) filter_own [OF unnamed_lock_thread] by simp
  from touched_section [OF store(3) e this] obtain j where j: "index_in g2 m j" "j \<in> touched (thread_lock_ops c a2 g1 w)" by blast
  with index_in_run [OF j(1) store(4)] last(1) i(3) show False by (simp add: index_in_def)
qed

lemma scripts_disjoint:
  assumes pool: "pool_run pool" and inv: "hawk_inv g"
    and load: "hawk_run c (pool @ b1) (init_hawk n d u) = Inr gl" "hawk_run c b2 gl = Inr g"
    and store: "hawk_run c (pool @ a1) (init_hawk n d u) = Inr g0" "hawk_step c W g0 = Inr g1" "hawk_run c a2 g1 = Inr g2"
      "hawk_run c a3 g2 = Inr g"
    and apart: "apart r (by_thread r b1) w (by_thread w a1) (by_thread w a2)"
  shows "held (current_timedlockset (get_thread_data gl r)) \<inter>
    (held (current_timedlockset (get_thread_data g0 w)) - touched (thread_lock_ops c a2 g1 w)) = {}"
  using apart unfolding apart_def
proof (elim disjE conjE)
  assume "special_only r (by_thread r b1)" "special_only w (by_thread w a1)"
    "specials r (by_thread r b1) \<inter> specials w (by_thread w a1) = {}"
  moreover from this(3) have "unat ` specials r (by_thread r b1) \<inter> unat ` specials w (by_thread w a1) = {}" by (auto dest!: iffD2 [OF word_unat_eq_iff])
  ultimately show ?thesis using script_specials [OF pool load(1), of r] script_specials [OF pool store(1), of w] by blast
next
  assume "filter (unnamed_lock r) (by_thread r b1) = []" "filter (unnamed_lock w) (by_thread w a1 @ by_thread w a2) = []"
    and common: "\<forall>m. in_section r m (by_thread r b1) \<and> in_section w m (by_thread w a1) \<longrightarrow> (\<exists>e \<in> set (by_thread w a2). concerns w m e)"
  then have named: "filter (unnamed_lock r) (by_thread r b1) = []" "filter (unnamed_lock w) (by_thread w a1) = []"
    "filter (unnamed_lock w) (by_thread w a2) = []" by (simp_all only: filter_append append_is_Nil_conv)
  show ?thesis by (rule sections_disjoint [OF pool inv load store named common])
qed

text \<open>
  The scripts of two threads: \<open>r\<close> has done \<open>x1\<close> when it loads, and \<open>w\<close> has done \<open>y1\<close> when it writes byte \<open>b\<close>,
  which it flushes in \<open>y2\<close> and then fences; they share no lock. \<open>is_pm\<close> is the test for
  persistent memory once the pool is mapped.
\<close>

definition racy_window ::
  "(u64 \<Rightarrow> u32 \<Rightarrow> bool) \<Rightarrow> nat \<Rightarrow> event list \<Rightarrow> u64 \<Rightarrow> u32 \<Rightarrow> nat \<Rightarrow> event list \<Rightarrow> event \<Rightarrow> event list \<Rightarrow> u64 \<Rightarrow> bool" where
  "racy_window is_pm r x1 la lsz w y1 W y2 b \<longleftrightarrow>
     0 < lsz \<and> lsz \<le> 64 \<and> is_pm la lsz \<and> (\<exists>i < unat lsz. b = la + of_nat i) \<and>
     (\<exists>ctxt a sz. W = EvWrite w ctxt a sz STORE \<and> sz \<le> 64 \<and> is_pm a sz \<and> b \<in> set (byte_range a sz)) \<and>
     (\<forall>e \<in> set y2. \<not> overwrites is_pm b e) \<and>
     apart r x1 w y1 y2"

definition racy_access ::
  "bool \<Rightarrow> (u64 \<Rightarrow> u32 \<Rightarrow> bool) \<Rightarrow> nat \<Rightarrow> event list \<Rightarrow> u64 \<Rightarrow> u32 \<Rightarrow> nat \<Rightarrow> event list \<Rightarrow> event \<Rightarrow> event list \<Rightarrow> u64 \<Rightarrow> bool" where
  "racy_access u is_pm r x1 la lsz w y1 W y2 b \<longleftrightarrow>
     racy_window is_pm r x1 la lsz w y1 W y2 b \<and>
     b \<notin> snd (fold (persist_step u is_pm w) y1 ({}, {})) \<and>
     b \<in> snd (fold (persist_step u is_pm w) (y1 @ W # y2) ({}, {}))"

text \<open>The same with a write that is not persisted when \<open>w\<close> ends after \<open>y2\<close>: dirty, or (\<open>fl\<close>) flushed only.\<close>

definition lost_access ::
  "bool \<Rightarrow> (u64 \<Rightarrow> u32 \<Rightarrow> bool) \<Rightarrow> nat \<Rightarrow> event list \<Rightarrow> u64 \<Rightarrow> u32 \<Rightarrow> nat \<Rightarrow> event list \<Rightarrow> event \<Rightarrow> event list \<Rightarrow> u64 \<Rightarrow> bool" where
  "lost_access fl is_pm r x1 la lsz w y1 W y2 b \<longleftrightarrow>
     racy_window is_pm r x1 la lsz w y1 W y2 b \<and>
     b \<in> (if fl then snd else fst) (fold (persist_step True is_pm w) (y1 @ W # y2) ({}, {}))"

text \<open>The epoch a thread is in after a part of its script; the start of the main thread is not part of it.\<close>

definition script_epoch :: "nat \<Rightarrow> event list \<Rightarrow> epoch" where
  "script_epoch t xs = (t, length (filter clock_change xs) - (if t = 0 then 0 else 1))"

text \<open>What the run is at the callbacks of the scripts: the load, and the write with its fence.\<close>

lemma script_load:
  assumes pool: "pool_run pool" "hawk_run c pool (init_hawk n d u) = Inr k"
    and run: "hawk_run c (pool @ zs) (init_hawk n d u) = Inr g" and len: "length (pool @ zs) \<le> 2 ^ 16"
    and few: "card {t. started g t} \<le> 64" and maps: "filter map_event zs = []" "\<not> found_alloc (pm k)"
    and main: "zs = b1 @ EvRead r lctxt la lsz la2 # b2"
    and epoch: "\<And>h. hawk_run c (pool @ b1) (init_hawk n d u) = Inr h \<Longrightarrow> epoch_of h r = er"
    and through: "\<And>h. hawk_run c (pool @ b1) (init_hawk n d u) = Inr h \<Longrightarrow> let_through h r la"
    and load: "0 < lsz" "lsz \<le> 64" "IsPMAddress la lsz (pm k)"
  obtains gl key ps p where "hawk_run c (pool @ b1) (init_hawk n d u) = Inr gl"
    "hawk_run c (EvRead r lctxt la lsz la2 # b2) gl = Inr g"
    "recorded_load g r (key, ps)" "p \<in> set ps" "key_address key = la" "\<forall>i. bit (key_mask key) i \<longleftrightarrow> i < unat lsz"
    "(r, unat (key_clock_i key)) = er"
    "trace_is (bt_heap g) (key_backtrace key) (lctxt # rev (fold (stack_step r) (by_thread r (pool @ b1)) []))"
    "members (lockset_at (ls_heap g) p) = held (current_timedlockset (get_thread_data gl r))"
proof -
  have es: "pool @ zs = (pool @ b1) @ EvRead r lctxt la lsz la2 # b2" by (simp add: main)
  obtain gl where gl: "hawk_run c (pool @ b1) (init_hawk n d u) = Inr gl" "hawk_run c (EvRead r lctxt la lsz la2 # b2) gl = Inr g"
    using run unfolding es by (auto simp: hawk_run_append simp del: hawk_run.simps split: if_splits)
  have "hawk_run c b1 k = Inr gl" using gl(1) pool(2) by (simp add: hawk_run_append)
  then have pm: "IsPMAddress la lsz (pm gl)"
    using hawk_run_settings [of c b1 k gl] maps load(3) by (simp add: main)
  have len1: "length (pool @ b1) \<le> 2 ^ 62" using len by (simp add: main)
  have "length (filter (\<lambda>e. thread_of e = Some r) (pool @ b1)) \<le> length (pool @ b1)" by (rule length_filter_le)
  then have small: "length (vector_clocks (get_thread_data gl r)) \<le> 2 ^ 16"
    using run_clocks_length [OF gl(1) len1, of r] len by (simp add: main)
  have trace: "call_trace gl r lctxt = lctxt # rev (fold (stack_step r) (by_thread r (pool @ b1)) [])"
    by (simp add: call_trace_def run_stack [OF gl(1)])
  from load_in_final_state [OF run [unfolded es] few gl(1) load(1,2) pm through [OF gl(1)] small] gl show thesis
    unfolding epoch [OF gl(1)] trace by (elim exE conjE) (rule that)
qed

lemma script_write:
  assumes pool: "pool_run pool" "hawk_run c pool (init_hawk n d u) = Inr k"
    and run: "hawk_run c (pool @ zs) (init_hawk n d u) = Inr g" and len: "length (pool @ zs) \<le> 2 ^ 16"
    and few: "card {t. started g t} \<le> 64" and maps: "filter map_event zs = []" "\<not> found_alloc (pm k)"
    and worker: "zs = a1 @ EvWrite w ctxt a sz STORE # a2 @ F # a3"
    and fence: "fence_event (\<lambda>a sz. IsPMAddress a sz (pm k)) w ctxt' F"
    and epoch: "\<And>h. hawk_run c (pool @ a1 @ EvWrite w ctxt a sz STORE # a2) (init_hawk n d u) = Inr h \<Longrightarrow> epoch_of h w = ew"
    and through: "\<And>h. hawk_run c (pool @ a1 @ EvWrite w ctxt a sz STORE # a2) (init_hawk n d u) = Inr h \<Longrightarrow> let_through h w b"
    and store: "sz \<le> 64" "IsPMAddress a sz (pm k)" "b \<in> set (byte_range a sz)"
    and bytes: "b \<notin> snd (fold (persist_step u (\<lambda>a sz. IsPMAddress a sz (pm k)) w) (by_thread w a1) ({}, {}))"
      "b \<in> snd (fold (persist_step u (\<lambda>a sz. IsPMAddress a sz (pm k)) w)
         (by_thread w (a1 @ EvWrite w ctxt a sz STORE # a2)) ({}, {}))"
    and silent: "\<forall>e \<in> set (by_thread w a2). \<not> overwrites (\<lambda>a sz. IsPMAddress a sz (pm k)) b e"
  obtains g0 g1 g2 s where "hawk_run c (pool @ a1) (init_hawk n d u) = Inr g0"
    "hawk_step c (EvWrite w ctxt a sz STORE) g0 = Inr g1" "hawk_run c a2 g1 = Inr g2"
    "hawk_run c (F # a3) g2 = Inr g"
    "recorded_store g w s" "sfd_address s = b" "persisted s" "was_flushed s" "(w, unat (sfd_clock_i s)) = ew"
    "trace_is (bt_heap g) (write_trace s) (ctxt # rev (fold (stack_step w) (by_thread w (pool @ a1)) []))"
    "trace_is (bt_heap g) (fence_trace s) (ctxt' # rev (fold (stack_step w) (by_thread w (pool @ a1 @ a2)) []))"
    "members (lockset_at (ls_heap g) (common_set s)) =
       held (current_timedlockset (get_thread_data g0 w)) - touched (thread_lock_ops c a2 g1 w)"
proof -
  let ?W = "EvWrite w ctxt a sz STORE"
  have es: "pool @ zs = (pool @ a1) @ ?W # a2 @ F # a3" by (simp add: worker)
  obtain g0 g1 g2 where st: "hawk_run c (pool @ a1) (init_hawk n d u) = Inr g0" "enabled ?W g0" "hawk_step c ?W g0 = Inr g1"
    "hawk_run c a2 g1 = Inr g2" "hawk_run c (F # a3) g2 = Inr g"
    using run unfolding es by (auto simp: hawk_run_append hawk_run_Cons simp del: hawk_run.simps split: if_splits)
  have k0: "hawk_run c a1 k = Inr g0" using st(1) pool(2) by (simp add: hawk_run_append)
  have k2: "hawk_run c (a1 @ ?W # a2) k = Inr g2" using k0 st(2-4) by (simp add: hawk_run_append)
  have run2: "hawk_run c (pool @ a1 @ ?W # a2) (init_hawk n d u) = Inr g2"
    using pool(2) k2 by (simp add: hawk_run_append [of c pool] del: hawk_run.simps)
  have rk: "reachable c (init_hawk n d u) k" by (rule hawk_run_reachable [OF pool(2) reachable_init])
  have r0: "reachable c (init_hawk n d u) g0" by (rule hawk_run_reachable [OF st(1) reachable_init])
  have r2: "reachable c (init_hawk n d u) g2" by (rule hawk_run_reachable [OF run2 reachable_init])
  have few2: "card {t. started g2 t} \<le> 64" by (rule few_before [OF st(5) r2 few])
  have few0: "card {t. started g0 t} \<le> 64"
    by (rule few_before [OF _ r0 few2, of "?W # a2"]) (use st(2-4) in simp)
  have quiet1: "filter map_event a1 = []" "filter map_event (a1 @ ?W # a2) = []" "filter map_event a2 = []"
    using maps(1) by (simp_all add: worker)
  have same: "pm g0 = pm k" using hawk_run_settings [OF k0] quiet1 maps(2) by simp
  have "pm g2 = pm k" using hawk_run_settings [OF k2] quiet1 maps(2) by simp
  then have fence2: "fence_event (\<lambda>a sz. IsPMAddress a sz (pm g2)) w ctxt' F" using fence by simp
  have pm: "IsPMAddress a sz (pm g0)" using store(2) by (simp add: same)
  have u: "check_unpersisted_stores k = u" using hawk_run_settings [OF pool(2)] by (simp add: init_hawk_def)
  note none = pool_bytes [OF pool(2) pool_run_events [OF pool(1)]]
  note pend = write_still_flushed [OF r0 st(2-4) few2 store(1) pm store(3) quiet1(3), unfolded same, OF maps(2) silent]
  have still: "mem_at (flushed_mem_state (get_thread_data g2 w)) b = mem_at (mem_state (get_thread_data g1 w)) b"
    by (rule pend) (use bytes run_bytes [OF k0 rk few0 quiet1(1) maps(2), of w] run_bytes [OF k2 rk few2 quiet1(2) maps(2), of w] in
      \<open>simp_all add: none u\<close>)
  have len2: "length (pool @ a1 @ ?W # a2) \<le> 2 ^ 62" using len by (simp add: worker)
  have "length (filter (\<lambda>e. thread_of e = Some w) (pool @ a1 @ ?W # a2)) \<le> length (pool @ a1 @ ?W # a2)"
    by (rule length_filter_le)
  then have small: "length (vector_clocks (get_thread_data g2 w)) \<le> 2 ^ 16"
    using run_clocks_length [OF run2 len2, of w] len by (simp add: worker)
  have wrap: "acquisitions (thread_lock_ops c (pool @ a1) (init_hawk n d u) w) + acquisitions (thread_lock_ops c a2 g1 w) < 2 ^ 32"
    using acquisitions_le_length [of c "pool @ a1" "init_hawk n d u" w] acquisitions_le_length [of c a2 g1 w] len
    by (simp add: worker)
  have traces: "call_trace g0 w ctxt = ctxt # rev (fold (stack_step w) (by_thread w (pool @ a1)) [])"
    "call_trace g2 w ctxt' = ctxt' # rev (fold (stack_step w) (by_thread w (pool @ a1 @ a2)) [])"
    by (simp_all add: call_trace_def run_stack [OF st(1)] run_stack [OF run2])
  from fenced_write_in_final_state [OF run [unfolded es] few st(1,3,4) fence2 store(1) pm store(3) through [OF run2] still small wrap] st(1,3-5) show thesis
    unfolding epoch [OF run2] traces by (elim exE conjE) (rule that)
qed

lemma script_lost_write:
  assumes pool: "pool_run pool" "hawk_run c pool (init_hawk n d True) = Inr k"
    and run: "hawk_run c (pool @ zs) (init_hawk n d True) = Inr g" and len: "length (pool @ zs) \<le> 2 ^ 16"
    and few: "card {t. started g t} \<le> 64" and maps: "filter map_event zs = []" "\<not> found_alloc (pm k)"
    and worker: "zs = a1 @ EvWrite w ctxt a sz STORE # a2 @ EvThreadExit w # a3"
    and epoch: "\<And>h. hawk_run c (pool @ a1 @ EvWrite w ctxt a sz STORE # a2) (init_hawk n d True) = Inr h \<Longrightarrow> epoch_of h w = ew"
    and through: "\<And>h. hawk_run c (pool @ a1 @ EvWrite w ctxt a sz STORE # a2) (init_hawk n d True) = Inr h \<Longrightarrow> let_through h w b"
    and store: "sz \<le> 64" "IsPMAddress a sz (pm k)" "b \<in> set (byte_range a sz)"
    and bytes: "b \<in> (if fl then snd else fst) (fold (persist_step True (\<lambda>a sz. IsPMAddress a sz (pm k)) w)
         (by_thread w (a1 @ EvWrite w ctxt a sz STORE # a2)) ({}, {}))"
    and silent: "\<forall>e \<in> set (by_thread w a2). \<not> overwrites (\<lambda>a sz. IsPMAddress a sz (pm k)) b e"
  obtains g0 g1 g2 s where "hawk_run c (pool @ a1) (init_hawk n d True) = Inr g0"
    "hawk_step c (EvWrite w ctxt a sz STORE) g0 = Inr g1" "hawk_run c a2 g1 = Inr g2"
    "hawk_run c (EvThreadExit w # a3) g2 = Inr g"
    "recorded_store g w s" "sfd_address s = b" "\<not> persisted s" "was_flushed s = fl" "fence_trace s = None"
    "(w, unat (sfd_clock_i s)) = ew"
    "trace_is (bt_heap g) (write_trace s) (ctxt # rev (fold (stack_step w) (by_thread w (pool @ a1)) []))"
    "members (lockset_at (ls_heap g) (common_set s)) =
       held (current_timedlockset (get_thread_data g0 w)) - touched (thread_lock_ops c a2 g1 w)"
proof -
  let ?W = "EvWrite w ctxt a sz STORE"
  have es: "pool @ zs = (pool @ a1) @ ?W # a2 @ EvThreadExit w # a3" by (simp add: worker)
  obtain g0 g1 g2 where st: "hawk_run c (pool @ a1) (init_hawk n d True) = Inr g0" "enabled ?W g0" "hawk_step c ?W g0 = Inr g1"
    "hawk_run c a2 g1 = Inr g2" "hawk_run c (EvThreadExit w # a3) g2 = Inr g"
    using run unfolding es by (auto simp: hawk_run_append hawk_run_Cons simp del: hawk_run.simps split: if_splits)
  have k0: "hawk_run c a1 k = Inr g0" using st(1) pool(2) by (simp add: hawk_run_append)
  have k2: "hawk_run c (a1 @ ?W # a2) k = Inr g2" using k0 st(2-4) by (simp add: hawk_run_append)
  have run2: "hawk_run c (pool @ a1 @ ?W # a2) (init_hawk n d True) = Inr g2"
    using pool(2) k2 by (simp add: hawk_run_append [of c pool] del: hawk_run.simps)
  have rk: "reachable c (init_hawk n d True) k" by (rule hawk_run_reachable [OF pool(2) reachable_init])
  have r0: "reachable c (init_hawk n d True) g0" by (rule hawk_run_reachable [OF st(1) reachable_init])
  have r2: "reachable c (init_hawk n d True) g2" by (rule hawk_run_reachable [OF run2 reachable_init])
  have few2: "card {t. started g2 t} \<le> 64" by (rule few_before [OF st(5) r2 few])
  have quiet: "filter map_event a1 = []" "filter map_event (a1 @ ?W # a2) = []" "filter map_event a2 = []"
    using maps(1) by (simp_all add: worker)
  note set0 = hawk_run_settings [OF k0] and set2 = hawk_run_settings [OF k2] and setk = hawk_run_settings [OF pool(2)]
  have same: "pm g0 = pm k" and u: "check_unpersisted_stores k" "check_unpersisted_stores g0" "check_unpersisted_stores g2"
    using set0 set2 setk quiet maps(2) by (auto simp: init_hawk_def)
  have pm: "IsPMAddress a sz (pm g0)" using store(2) by (simp add: same)
  note none = pool_bytes [OF pool(2) pool_run_events [OF pool(1)]]
  have dirty: "b \<in> (if fl then snd (pending_bytes g2 w) else fst (pending_bytes g2 w))"
    using bytes run_bytes [OF k2 rk few2 quiet(2) maps(2), of w] by (simp add: none u split: if_splits)
  obtain x where x: "mem_at (mem_state (get_thread_data g1 w)) b = Some x" "pending_in g2 w fl b x"
    by (rule write_still_pending [OF r0 st(2-4) few2 store(1) pm store(3) quiet(3), unfolded same, OF maps(2) silent u(2) dirty])
  have len2: "length (pool @ a1 @ ?W # a2) \<le> 2 ^ 62" using len by (simp add: worker)
  have "length (filter (\<lambda>e. thread_of e = Some w) (pool @ a1 @ ?W # a2)) \<le> length (pool @ a1 @ ?W # a2)"
    by (rule length_filter_le)
  then have small: "length (vector_clocks (get_thread_data g2 w)) \<le> 2 ^ 16"
    using run_clocks_length [OF run2 len2, of w] len by (simp add: worker)
  have wrap: "acquisitions (thread_lock_ops c (pool @ a1) (init_hawk n d True) w) + acquisitions (thread_lock_ops c a2 g1 w) < 2 ^ 32"
    using acquisitions_le_length [of c "pool @ a1" "init_hawk n d True" w] acquisitions_le_length [of c a2 g1 w] len
    by (simp add: worker)
  have trace: "call_trace g0 w ctxt = ctxt # rev (fold (stack_step w) (by_thread w (pool @ a1)) [])"
    by (simp add: call_trace_def run_stack [OF st(1)])
  from lost_write_in_final_state [OF run [unfolded es] few st(1,3,4) store(1) pm store(3) through [OF run2] u(3) x small wrap] st(1,3-5)
  show thesis
    unfolding epoch [OF run2] trace by (elim exE conjE) (rule that)
qed

lemma pool_stack:
  assumes "pool_run pool"
  shows "fold (stack_step t) (by_thread t (pool @ es)) [] = fold (stack_step t) (by_thread t es) []"
proof -
  have "fold (stack_step t) (by_thread t sys) st = st" if "\<forall>e \<in> set sys. pool_event e" for sys st
    using that by (induction sys) (auto simp: pool_event_other)
  from this [of pool "[]"] pool_run_events [OF assms] show ?thesis by (simp add: list_all_iff)
qed

text \<open>A store recorded for the write and a load of the other script match when their epochs are unordered.\<close>

lemma scripts_match:
  assumes pool: "pool_run pool" "hawk_run c pool (init_hawk n d u) = Inr k"
    and run: "hawk_run c (pool @ zs) (init_hawk n d u) = Inr g" and len: "length (pool @ zs) \<le> 2 ^ 16"
    and few: "card {t. started g t} \<le> 64" and maps: "filter map_event zs = []" "\<not> found_alloc (pm k)"
    and reader: "by_thread r zs = x1 @ EvRead r lctxt la lsz la2 # x2"
    and epochs: "\<And>ps qs h. zs = ps @ qs \<Longrightarrow> hawk_run c (pool @ ps) (init_hawk n d u) = Inr h \<Longrightarrow>
      epoch_of h r = script_epoch r (by_thread r ps)"
    and through: "\<And>ps qs h. zs = ps @ EvRead r lctxt la lsz la2 # qs \<Longrightarrow> by_thread r ps = x1 \<Longrightarrow>
        hawk_run c (pool @ ps) (init_hawk n d u) = Inr h \<Longrightarrow> let_through h r la"
    and unordered: "(ew, script_epoch r x1) \<notin> run_happens_before c (pool @ zs) (init_hawk n d u)"
      "(script_epoch r x1, ew) \<notin> run_happens_before c (pool @ zs) (init_hawk n d u)"
    and racy: "racy_window (\<lambda>a sz. IsPMAddress a sz (pm k)) r x1 la lsz w (by_thread w a1) W (by_thread w a2) b"
    and g: "hawk_run c (pool @ a1) (init_hawk n d u) = Inr g0" "hawk_step c W g0 = Inr g1"
      "hawk_run c a2 g1 = Inr g2" "hawk_run c a3 g2 = Inr g"
    and s: "recorded_store g w s" "sfd_address s = b" "(w, unat (sfd_clock_i s)) = ew"
      "members (lockset_at (ls_heap g) (common_set s)) =
         held (current_timedlockset (get_thread_data g0 w)) - touched (thread_lock_ops c a2 g1 w)"
    and ne: "w \<noteq> r"
  shows "\<exists>lb. reported (CheckPMRaces g) (persisted s) (write_trace s, fence_trace s, was_flushed s) lb \<and>
    trace_is (bt_heap g) lb (lctxt # rev (fold (stack_step r) x1 []))"
proof -
  have len62: "length (pool @ zs) \<le> 2 ^ 62" using len by simp
  obtain b1 b2 where b: "zs = b1 @ EvRead r lctxt la lsz la2 # b2" "by_thread r b1 = x1" using filter_split [OF reader] by blast
  note racy = racy [unfolded racy_window_def]
  obtain i where i: "i < unat lsz" "b = la + of_nat i" using racy by blast
  have load: "0 < lsz" "lsz \<le> 64" "IsPMAddress la lsz (pm k)" using racy by auto
  have er: "epoch_of h r = script_epoch r x1" if "hawk_run c (pool @ b1) (init_hawk n d u) = Inr h" for h
    using epochs [OF b(1) that] by (simp add: b(2))
  have tr: "let_through h r la" if "hawk_run c (pool @ b1) (init_hawk n d u) = Inr h" for h
    by (rule through [OF b that])
  obtain gl key ps p where gl: "hawk_run c (pool @ b1) (init_hawk n d u) = Inr gl"
      "hawk_run c (EvRead r lctxt la lsz la2 # b2) gl = Inr g"
    and l: "recorded_load g r (key, ps)" "p \<in> set ps" "key_address key = la" "\<forall>i. bit (key_mask key) i \<longleftrightarrow> i < unat lsz"
      "(r, unat (key_clock_i key)) = script_epoch r x1"
      "trace_is (bt_heap g) (key_backtrace key) (lctxt # rev (fold (stack_step r) (by_thread r (pool @ b1)) []))"
      "members (lockset_at (ls_heap g) p) = held (current_timedlockset (get_thread_data gl r))"
    by (rule script_load [OF pool run len few maps b(1) er tr load])
  have inv: "hawk_inv g" using reachable_hawk_inv [OF hawk_run_reachable [OF run reachable_init]] .
  have named: "apart r (by_thread r b1) w (by_thread w a1) (by_thread w a2)" using racy b(2) by simp
  have disj: "members (lockset_at (ls_heap g) p) \<inter> members (lockset_at (ls_heap g) (common_set s)) = {}"
    unfolding l(7) s(4) by (rule scripts_disjoint [OF pool(1) inv gl g named])
  have "i < 64" using i(1) load(2) by (simp add: word_le_nat_alt)
  then have "touches key (sfd_address s)" unfolding touches_def using l(3,4) s(2) i by auto
  from race_reported [OF run len62 s(1) l(1,2) this ne s(3) l(5) unordered disj] l(6) [unfolded pool_stack [OF pool(1)] b(2)]
  show ?thesis by blast
qed

text \<open>The accesses of two racy scripts are reported.\<close>

lemma scripts_reported_through:
  assumes pool: "pool_run pool" "hawk_run c pool (init_hawk n d u) = Inr k"
    and run: "hawk_run c (pool @ zs) (init_hawk n d u) = Inr g" and len: "length (pool @ zs) \<le> 2 ^ 16"
    and few: "card {t. started g t} \<le> 64" and maps: "filter map_event zs = []" "\<not> found_alloc (pm k)"
    and reader: "by_thread r zs = x1 @ EvRead r lctxt la lsz la2 # x2"
    and writer: "by_thread w zs = y1 @ EvWrite w ctxt a sz STORE # y2 @ F # y3"
    and fence: "fence_event (\<lambda>a sz. IsPMAddress a sz (pm k)) w ctxt' F"
    and epochs: "\<And>ps qs h t. zs = ps @ qs \<Longrightarrow> hawk_run c (pool @ ps) (init_hawk n d u) = Inr h \<Longrightarrow> t \<in> {r, w} \<Longrightarrow>
      epoch_of h t = script_epoch t (by_thread t ps)"
    and through: "\<And>ps qs h. zs = ps @ EvRead r lctxt la lsz la2 # qs \<Longrightarrow> by_thread r ps = x1 \<Longrightarrow>
        hawk_run c (pool @ ps) (init_hawk n d u) = Inr h \<Longrightarrow> let_through h r la"
      "\<And>ps qs h. zs = ps @ F # qs \<Longrightarrow> by_thread w ps = y1 @ EvWrite w ctxt a sz STORE # y2 \<Longrightarrow>
        hawk_run c (pool @ ps) (init_hawk n d u) = Inr h \<Longrightarrow> let_through h w b"
    and unordered:
      "(script_epoch w (y1 @ y2), script_epoch r x1) \<notin> run_happens_before c (pool @ zs) (init_hawk n d u)"
      "(script_epoch r x1, script_epoch w (y1 @ y2)) \<notin> run_happens_before c (pool @ zs) (init_hawk n d u)"
    and racy: "racy_access u (\<lambda>a sz. IsPMAddress a sz (pm k)) r x1 la lsz w y1 (EvWrite w ctxt a sz STORE) y2 b"
    and ne: "w \<noteq> r"
  shows "\<exists>wt ft lb. reported (CheckPMRaces g) True (wt, ft, True) lb \<and>
    trace_is (bt_heap g) wt (ctxt # rev (fold (stack_step w) y1 [])) \<and>
    trace_is (bt_heap g) ft (ctxt' # rev (fold (stack_step w) (y1 @ y2) [])) \<and>
    trace_is (bt_heap g) lb (lctxt # rev (fold (stack_step r) x1 []))"
proof -
  let ?W = "EvWrite w ctxt a sz STORE"
  obtain a1 q where a1: "zs = a1 @ ?W # q" "by_thread w a1 = y1" "by_thread w q = y2 @ F # y3"
    using filter_split [OF writer] by blast
  obtain a2 a3 where a2: "q = a2 @ F # a3" "by_thread w a2 = y2" using filter_split [OF a1(3)] by blast
  have zs: "zs = a1 @ ?W # a2 @ F # a3" by (simp add: a1(1) a2(1))
  have store: "sz \<le> 64" "IsPMAddress a sz (pm k)" "b \<in> set (byte_range a sz)"
      "b \<notin> snd (fold (persist_step u (\<lambda>a sz. IsPMAddress a sz (pm k)) w) (by_thread w a1) ({}, {}))"
      "b \<in> snd (fold (persist_step u (\<lambda>a sz. IsPMAddress a sz (pm k)) w) (by_thread w (a1 @ ?W # a2)) ({}, {}))"
      "\<forall>e \<in> set (by_thread w a2). \<not> overwrites (\<lambda>a sz. IsPMAddress a sz (pm k)) b e"
    using racy a1(2) a2(2) by (auto simp: racy_access_def racy_window_def)
  have window: "racy_window (\<lambda>a sz. IsPMAddress a sz (pm k)) r x1 la lsz w (by_thread w a1) ?W (by_thread w a2) b"
    using racy a1(2) a2(2) by (simp add: racy_access_def)
  have ew: "epoch_of h w = script_epoch w (y1 @ y2)"
    if "hawk_run c (pool @ a1 @ ?W # a2) (init_hawk n d u) = Inr h" for h
    using epochs [OF _ that, of "F # a3" w] by (simp add: zs a1(2) a2(2) script_epoch_def)
  have tw: "let_through h w b" if "hawk_run c (pool @ a1 @ ?W # a2) (init_hawk n d u) = Inr h" for h
    by (rule through(2) [OF _ _ that]) (simp_all add: zs a1(2) a2(2))
  obtain g0 g1 g2 s where g: "hawk_run c (pool @ a1) (init_hawk n d u) = Inr g0" "hawk_step c ?W g0 = Inr g1"
      "hawk_run c a2 g1 = Inr g2" "hawk_run c (F # a3) g2 = Inr g"
    and s: "recorded_store g w s" "sfd_address s = b" "persisted s" "was_flushed s"
      "(w, unat (sfd_clock_i s)) = script_epoch w (y1 @ y2)"
      "trace_is (bt_heap g) (write_trace s) (ctxt # rev (fold (stack_step w) (by_thread w (pool @ a1)) []))"
      "trace_is (bt_heap g) (fence_trace s) (ctxt' # rev (fold (stack_step w) (by_thread w (pool @ a1 @ a2)) []))"
      "members (lockset_at (ls_heap g) (common_set s)) =
         held (current_timedlockset (get_thread_data g0 w)) - touched (thread_lock_ops c a2 g1 w)"
    by (rule script_write [OF pool run len few maps zs fence ew tw store])
  note traces = s(6,7) [unfolded pool_stack [OF pool(1)] filter_append [of _ a1] a1(2) a2(2)]
  have er: "epoch_of h r = script_epoch r (by_thread r ps)"
    if "zs = ps @ qs" "hawk_run c (pool @ ps) (init_hawk n d u) = Inr h" for ps qs h
    using epochs [OF that] by simp
  have "\<exists>lb. reported (CheckPMRaces g) (persisted s) (write_trace s, fence_trace s, was_flushed s) lb \<and>
      trace_is (bt_heap g) lb (lctxt # rev (fold (stack_step r) x1 []))"
    by (rule scripts_match [OF pool run len few maps reader _ _ unordered window g s(1,2,5,8) ne])
      (rule er through(1), assumption+)+
  with s(3,4) traces show ?thesis by auto
qed

lemma scripts_lost_through:
  assumes pool: "pool_run pool" "hawk_run c pool (init_hawk n d True) = Inr k"
    and run: "hawk_run c (pool @ zs) (init_hawk n d True) = Inr g" and len: "length (pool @ zs) \<le> 2 ^ 16"
    and few: "card {t. started g t} \<le> 64" and maps: "filter map_event zs = []" "\<not> found_alloc (pm k)"
    and reader: "by_thread r zs = x1 @ EvRead r lctxt la lsz la2 # x2"
    and writer: "by_thread w zs = y1 @ EvWrite w ctxt a sz STORE # y2 @ EvThreadExit w # y3"
    and epochs: "\<And>ps qs h t. zs = ps @ qs \<Longrightarrow> hawk_run c (pool @ ps) (init_hawk n d True) = Inr h \<Longrightarrow> t \<in> {r, w} \<Longrightarrow>
      epoch_of h t = script_epoch t (by_thread t ps)"
    and through: "\<And>ps qs h. zs = ps @ EvRead r lctxt la lsz la2 # qs \<Longrightarrow> by_thread r ps = x1 \<Longrightarrow>
        hawk_run c (pool @ ps) (init_hawk n d True) = Inr h \<Longrightarrow> let_through h r la"
      "\<And>ps qs h. zs = ps @ EvThreadExit w # qs \<Longrightarrow> by_thread w ps = y1 @ EvWrite w ctxt a sz STORE # y2 \<Longrightarrow>
        hawk_run c (pool @ ps) (init_hawk n d True) = Inr h \<Longrightarrow> let_through h w b"
    and unordered:
      "(script_epoch w (y1 @ y2), script_epoch r x1) \<notin> run_happens_before c (pool @ zs) (init_hawk n d True)"
      "(script_epoch r x1, script_epoch w (y1 @ y2)) \<notin> run_happens_before c (pool @ zs) (init_hawk n d True)"
    and lost: "lost_access fl (\<lambda>a sz. IsPMAddress a sz (pm k)) r x1 la lsz w y1 (EvWrite w ctxt a sz STORE) y2 b"
    and ne: "w \<noteq> r"
  shows "\<exists>wt lb. reported (CheckPMRaces g) False (wt, None, fl) lb \<and>
    trace_is (bt_heap g) wt (ctxt # rev (fold (stack_step w) y1 [])) \<and>
    trace_is (bt_heap g) lb (lctxt # rev (fold (stack_step r) x1 []))"
proof -
  let ?W = "EvWrite w ctxt a sz STORE"
  obtain a1 q where a1: "zs = a1 @ ?W # q" "by_thread w a1 = y1" "by_thread w q = y2 @ EvThreadExit w # y3"
    using filter_split [OF writer] by blast
  obtain a2 a3 where a2: "q = a2 @ EvThreadExit w # a3" "by_thread w a2 = y2" using filter_split [OF a1(3)] by blast
  have zs: "zs = a1 @ ?W # a2 @ EvThreadExit w # a3" by (simp add: a1(1) a2(1))
  have store: "sz \<le> 64" "IsPMAddress a sz (pm k)" "b \<in> set (byte_range a sz)"
      "b \<in> (if fl then snd else fst) (fold (persist_step True (\<lambda>a sz. IsPMAddress a sz (pm k)) w) (by_thread w (a1 @ ?W # a2)) ({}, {}))"
      "\<forall>e \<in> set (by_thread w a2). \<not> overwrites (\<lambda>a sz. IsPMAddress a sz (pm k)) b e"
    using lost a1(2) a2(2) by (auto simp: lost_access_def racy_window_def)
  have window: "racy_window (\<lambda>a sz. IsPMAddress a sz (pm k)) r x1 la lsz w (by_thread w a1) ?W (by_thread w a2) b"
    using lost a1(2) a2(2) by (simp add: lost_access_def)
  have ew: "epoch_of h w = script_epoch w (y1 @ y2)"
    if "hawk_run c (pool @ a1 @ ?W # a2) (init_hawk n d True) = Inr h" for h
    using epochs [OF _ that, of "EvThreadExit w # a3" w] by (simp add: zs a1(2) a2(2) script_epoch_def)
  have tw: "let_through h w b" if "hawk_run c (pool @ a1 @ ?W # a2) (init_hawk n d True) = Inr h" for h
    by (rule through(2) [OF _ _ that]) (simp_all add: zs a1(2) a2(2))
  obtain g0 g1 g2 s where g: "hawk_run c (pool @ a1) (init_hawk n d True) = Inr g0" "hawk_step c ?W g0 = Inr g1"
      "hawk_run c a2 g1 = Inr g2" "hawk_run c (EvThreadExit w # a3) g2 = Inr g"
    and s: "recorded_store g w s" "sfd_address s = b" "\<not> persisted s" "was_flushed s = fl" "fence_trace s = None"
      "(w, unat (sfd_clock_i s)) = script_epoch w (y1 @ y2)"
      "trace_is (bt_heap g) (write_trace s) (ctxt # rev (fold (stack_step w) (by_thread w (pool @ a1)) []))"
      "members (lockset_at (ls_heap g) (common_set s)) =
         held (current_timedlockset (get_thread_data g0 w)) - touched (thread_lock_ops c a2 g1 w)"
    by (rule script_lost_write [OF pool run len few maps zs ew tw store])
  note trace = s(7) [unfolded pool_stack [OF pool(1)] a1(2)]
  have er: "epoch_of h r = script_epoch r (by_thread r ps)"
    if "zs = ps @ qs" "hawk_run c (pool @ ps) (init_hawk n d True) = Inr h" for ps qs h
    using epochs [OF that] by simp
  have "\<exists>lb. reported (CheckPMRaces g) (persisted s) (write_trace s, fence_trace s, was_flushed s) lb \<and>
      trace_is (bt_heap g) lb (lctxt # rev (fold (stack_step r) x1 []))"
    by (rule scripts_match [OF pool run len few maps reader _ _ unordered window g s(1,2,6,8) ne])
      (rule er through(1), assumption+)+
  with s(3-5) trace show ?thesis by auto
qed

lemma scripts_reported:
  assumes pool: "pool_run pool" "hawk_run c pool (init_hawk 0 d u) = Inr k"
    and run: "hawk_run c (pool @ zs) (init_hawk 0 d u) = Inr g" and len: "length (pool @ zs) \<le> 2 ^ 16"
    and few: "card {t. started g t} \<le> 64" and maps: "filter map_event zs = []" "\<not> found_alloc (pm k)"
    and reader: "by_thread r zs = x1 @ EvRead r lctxt la lsz la2 # x2"
    and writer: "by_thread w zs = y1 @ EvWrite w ctxt a sz STORE # y2 @ F # y3"
    and fence: "fence_event (\<lambda>a sz. IsPMAddress a sz (pm k)) w ctxt' F"
    and epochs: "\<And>ps qs h t. zs = ps @ qs \<Longrightarrow> hawk_run c (pool @ ps) (init_hawk 0 d u) = Inr h \<Longrightarrow> t \<in> {r, w} \<Longrightarrow>
      epoch_of h t = script_epoch t (by_thread t ps)"
    and unordered:
      "(script_epoch w (y1 @ y2), script_epoch r x1) \<notin> run_happens_before c (pool @ zs) (init_hawk 0 d u)"
      "(script_epoch r x1, script_epoch w (y1 @ y2)) \<notin> run_happens_before c (pool @ zs) (init_hawk 0 d u)"
    and racy: "racy_access u (\<lambda>a sz. IsPMAddress a sz (pm k)) r x1 la lsz w y1 (EvWrite w ctxt a sz STORE) y2 b"
    and ne: "w \<noteq> r"
  shows "\<exists>wt ft lb. reported (CheckPMRaces g) True (wt, ft, True) lb \<and>
    trace_is (bt_heap g) wt (ctxt # rev (fold (stack_step w) y1 [])) \<and>
    trace_is (bt_heap g) ft (ctxt' # rev (fold (stack_step w) (y1 @ y2) [])) \<and>
    trace_is (bt_heap g) lb (lctxt # rev (fold (stack_step r) x1 []))"
proof -
  have off: "let_through h t x" if "hawk_run c (pool @ ps) (init_hawk 0 d u) = Inr h" for ps h t x
    by (rule let_through_off [OF hawk_run_reachable [OF that reachable_init]])
  show ?thesis
    by (rule scripts_reported_through [OF pool run len few maps reader writer fence _ _ _ unordered racy ne])
      ((rule epochs, assumption+) | (rule off, assumption))+
qed

text \<open>Two threads: the main thread has created the worker when it loads.\<close>

definition racy_scripts ::
  "bool \<Rightarrow> (u64 \<Rightarrow> u32 \<Rightarrow> bool) \<Rightarrow> event list \<Rightarrow> u64 \<Rightarrow> u32 \<Rightarrow> event list \<Rightarrow> event \<Rightarrow> event list \<Rightarrow> u64 \<Rightarrow> bool" where
  "racy_scripts u is_pm x1 la lsz y1 W y2 b \<longleftrightarrow>
     filter clock_change x1 = [EvCreateCall 0] \<and> filter clock_change (y1 @ y2) = [EvThreadStart 1] \<and>
     racy_access u is_pm 0 x1 la lsz 1 y1 W y2 b"

lemma run_of_two:
  assumes "pool_run pool" "two_threads zs" "e \<in> set (pool @ zs)" "thread_of e = Some t"
  shows "t \<in> {0, 1}"
  using assms pool_run_events [OF assms(1)] pool_event_calm(1) by (fastforce simp: two_threads_def list_all_iff)

lemma two_thread_reported:
  assumes pool: "pool_run pool" "hawk_run c pool (init_hawk 0 d u) = Inr k"
    and run: "hawk_run c (pool @ zs) (init_hawk 0 d u) = Inr g" and len: "length (pool @ zs) \<le> 2 ^ 16"
    and two: "two_threads zs" and maps: "filter map_event zs = []" "\<not> found_alloc (pm k)"
    and main: "by_thread 0 zs = x1 @ EvRead 0 lctxt la lsz la2 # x2"
    and worker: "by_thread 1 zs = y1 @ EvWrite 1 ctxt a sz STORE # y2 @ EvFence 1 ctxt' # y3"
    and racy: "racy_scripts u (\<lambda>a sz. IsPMAddress a sz (pm k)) x1 la lsz y1 (EvWrite 1 ctxt a sz STORE) y2 b"
  shows "\<exists>wt ft lb. reported (CheckPMRaces g) True (wt, ft, True) lb \<and>
    trace_is (bt_heap g) wt (ctxt # rev (fold (stack_step 1) y1 [])) \<and>
    trace_is (bt_heap g) ft (ctxt' # rev (fold (stack_step 1) (y1 @ y2) [])) \<and>
    trace_is (bt_heap g) lb (lctxt # rev (fold (stack_step 0) x1 []))"
proof -
  note short = short_run [where T = "{0, 1}", OF run len run_of_two [OF pool(1) two]]
  have few: "card {t. started g t} \<le> 64" using short(2) by simp
  have epochs: "epoch_of h t = script_epoch t (by_thread t ps)"
    if "zs = ps @ qs" "hawk_run c (pool @ ps) (init_hawk 0 d u) = Inr h" "t \<in> {0, 1}" for ps qs h t
    using that(3) epoch_at [OF pool(1) that(2) two [unfolded that(1)]] len by (auto simp: script_epoch_def that(1))
  have acc: "racy_access u (\<lambda>a sz. IsPMAddress a sz (pm k)) 0 x1 la lsz 1 y1 (EvWrite 1 ctxt a sz STORE) y2 b"
    and ep: "script_epoch 0 x1 = (0, 1)" "script_epoch 1 (y1 @ y2) = (1, 0)"
    using racy by (auto simp: racy_scripts_def script_epoch_def)
  note unordered = run_unordered [OF pool(1) run two, folded ep]
  show ?thesis
    by (rule scripts_reported [OF pool run len few maps main worker _ epochs unordered acc]) (simp_all add: fence_event_def)
qed

section \<open>Interleavings of two scripts\<close>

lemma filter_shuffled: "zs \<in> shuffles xs ys \<Longrightarrow> filter P ys = [] \<Longrightarrow> filter P zs = filter P xs"
  using filter_shuffles [of P xs ys] by force

lemma shuffled_threads:
  assumes zs: "zs \<in> shuffles xs ys" and xs: "\<And>t. by_thread t xs = (if t = 0 then xs else [])"
    and ys: "\<And>t. by_thread t ys = (if t = 1 then ys else [])"
  shows "by_thread t zs = (if t = 0 then xs else if t = 1 then ys else [])"
proof -
  have zs': "zs \<in> shuffles ys xs" using zs shuffles_commutes by metis
  show ?thesis
    using filter_shuffled [OF zs, of "\<lambda>e. thread_of e = Some t"] filter_shuffled [OF zs', of "\<lambda>e. thread_of e = Some t"]
    by (cases "t = 1") (simp_all add: xs ys)
qed

lemma two_threads_shuffled:
  assumes zs: "zs \<in> shuffles xs ys" and xs: "\<And>t. by_thread t xs = (if t = 0 then xs else [])"
    and ys: "\<And>t. by_thread t ys = (if t = 1 then ys else [])"
    and js: "filter clock_change xs = EvCreateCall 0 # js" "\<forall>e \<in> set js. (\<exists>pid. e = EvJoin 0 0 pid) \<or> e = EvThreadExit 0"
    and ks: "filter clock_change ys = EvThreadStart 1 # ks" "\<forall>e \<in> set ks. e = EvThreadExit 1"
  shows "two_threads zs"
proof -
  note own = shuffled_threads [OF zs xs ys]
  have "thread_of e \<in> {Some 0, Some 1}" if "e \<in> set zs" for e
  proof -
    have "e \<in> set (by_thread 0 xs) \<or> e \<in> set (by_thread 1 ys)" using that set_shuffles [OF zs] xs [of 0] ys [of 1] by auto
    then show ?thesis by auto
  qed
  moreover have "filter clock_change (by_thread 0 zs) = EvCreateCall 0 # js" using own [of 0] js(1) by simp
  moreover have "filter clock_change (by_thread 1 zs) = EvThreadStart 1 # ks" using own [of 1] ks(1) by simp
  ultimately show ?thesis using js(2) ks(2) unfolding two_threads_def by blast
qed

lemma shuffled_reported:
  assumes pool: "pool_run pool" "hawk_run c pool (init_hawk 0 d u) = Inr k" "\<not> found_alloc (pm k)"
    and run: "hawk_run c (pool @ zs) (init_hawk 0 d u) = Inr g" and len: "length (pool @ zs) \<le> 2 ^ 16"
    and zs: "zs \<in> shuffles xs ys" and xs: "\<And>t. by_thread t xs = (if t = 0 then xs else [])"
    and ys: "\<And>t. by_thread t ys = (if t = 1 then ys else [])"
    and maps: "filter map_event xs = []" "filter map_event ys = []"
    and js: "filter clock_change xs = EvCreateCall 0 # js" "\<forall>e \<in> set js. (\<exists>pid. e = EvJoin 0 0 pid) \<or> e = EvThreadExit 0"
    and ks: "filter clock_change ys = EvThreadStart 1 # ks" "\<forall>e \<in> set ks. e = EvThreadExit 1"
    and main: "xs = x1 @ EvRead 0 lctxt la lsz la2 # x2"
    and worker: "ys = y1 @ EvWrite 1 ctxt a sz STORE # y2 @ EvFence 1 ctxt' # y3"
    and racy: "racy_scripts u (\<lambda>a sz. IsPMAddress a sz (pm k)) x1 la lsz y1 (EvWrite 1 ctxt a sz STORE) y2 b"
  shows "\<exists>wt ft lb. reported (CheckPMRaces g) True (wt, ft, True) lb \<and>
    trace_is (bt_heap g) wt (ctxt # rev (fold (stack_step 1) y1 [])) \<and>
    trace_is (bt_heap g) ft (ctxt' # rev (fold (stack_step 1) (y1 @ y2) [])) \<and>
    trace_is (bt_heap g) lb (lctxt # rev (fold (stack_step 0) x1 []))"
proof -
  have "filter map_event zs = []" using filter_shuffled [OF zs maps(2)] maps(1) by metis
  moreover have "by_thread 0 zs = xs" "by_thread 1 zs = ys" using shuffled_threads [OF zs xs ys] by simp_all
  ultimately show ?thesis
    using two_thread_reported [OF pool(1,2) run len two_threads_shuffled [OF zs xs ys js ks] _ pool(3) _ _ racy] main worker
    by blast
qed

end
