(* ===== verification/Examples.thy ===== *)
theory Examples
  imports ScriptRaces
begin

text \<open>
  The example programs (\<^verbatim>\<open>src/examples\<close>), as the callbacks their threads cause. A thread is the
  list of its callbacks; a run of a program is the mapping of the pool followed by an
  interleaving of its threads. Every call instruction of the functions is there; what the library
  (\<^verbatim>\<open>libpmem2\<close>, threads, input and output) returns is an environment, and what its code does
  besides the hooked routines is a parameter, \<open>lib\<close>, of which the theorems assume that it does not access
  persistent memory. \<open>pc\<close> gives the instruction address of a source line. Accesses of the programs
  to their stacks and globals, which are not persistent memory either, are left out: the tool ignores them.
  The callbacks are those of the tool started by \<^verbatim>\<open>src/scripts/HawkSet\<close>, that is with \<^verbatim>\<open>src/config/pthread.cfg\<close>: the lock functions of
  \<^verbatim>\<open>libpthread\<close> are hooked, functions of the program are not (\<^verbatim>\<open>ForkExamples\<close> says what
  changes for \<^verbatim>\<open>adq_rel.c\<close> under other configurations). A thread starts with an empty call stack: the frames of library code around
  \<^verbatim>\<open>main\<close> and the function of a thread are not recorded in the traces, which are those of the program's own lines.
\<close>

section \<open>What the programs share\<close>

text \<open>The loop of \<^verbatim>\<open>flush\<close>: \<^verbatim>\<open>.byte 0x66; xsaveopt\<close> is the encoding of \<^verbatim>\<open>clwb\<close>.\<close>

function flush_lines :: "u64 \<Rightarrow> int \<Rightarrow> u64 list" where
  "flush_lines addr sz = (if sz > 0 then addr # flush_lines (addr + 64) (sz - 64) else [])"
  by pat_completeness auto
termination by (relation "measure (\<lambda>(addr, sz). nat sz)") auto

declare flush_lines.simps [simp del]

definition flush :: "nat \<Rightarrow> u64 \<Rightarrow> int \<Rightarrow> event list" where
  "flush t addr sz = map (\<lambda>a. EvFlush t a CLWB) (flush_lines addr sz)"

definition fence :: "nat \<Rightarrow> u64 \<Rightarrow> event" where
  "fence t ctxt = EvFence t ctxt"

text \<open>The results of the calls of \<^verbatim>\<open>open_pmem_pool\<close>; a nonzero result is an error of \<^verbatim>\<open>libpmem2\<close>.\<close>

record pool_env =
  access_result :: int
  open_create :: int
  ftruncate_result :: "int \<Rightarrow> int \<Rightarrow> int"
  open_existing :: int
  config_new :: int
  source_from_fd :: "int \<Rightarrow> int"
  set_granularity :: int
  map_new :: int
  map_address :: u64
  map_size :: u64

definition FILE_SIZE :: int where
  "FILE_SIZE = 1024 * 1024"

text \<open>The text of the error with which the program exits with status 1, or the mapping.\<close>

definition open_pmem_pool :: "pool_env \<Rightarrow> string + (u64 \<times> u64)" where
  "open_pmem_pool env =
     (let after_open = (\<lambda>fd.
        if config_new env \<noteq> 0 then Inl ''pmem2_config_new''
        else if source_from_fd env fd \<noteq> 0 then Inl ''pmem2_source_from_fd''
        else if set_granularity env \<noteq> 0 then Inl ''pmem2_config_set_required_store_granularity''
        else if map_new env \<noteq> 0 then Inl ''pmem2_map_new''
        else Inr (map_address env, map_size env))
      in if access_result env \<noteq> 0
         then if open_create env < 0 then Inl ''open(create)''
              else if ftruncate_result env (open_create env) FILE_SIZE \<noteq> 0 then Inl ''ftruncate''
              else after_open (open_create env)
         else if open_existing env < 0 then Inl ''open''
              else after_open (open_existing env))"

datatype example_exit = Returned int | Exited string int

section \<open>Calls\<close>

text \<open>
  \<open>lib t n i\<close> is what library code called by thread \<open>t\<close> in line \<open>n\<close> does before, between and after
  the hooked routines of the call; line 0 stands for the code around the thread's function.
\<close>

type_synonym library = "nat \<Rightarrow> nat \<Rightarrow> nat \<Rightarrow> event list"

definition call :: "nat \<Rightarrow> u64 \<Rightarrow> event list \<Rightarrow> event list" where
  "call t site body = EvCall t site # body @ [EvRet t]"

fun weave :: "(nat \<Rightarrow> event list) \<Rightarrow> nat \<Rightarrow> event list \<Rightarrow> event list" where
  "weave l i [] = l i"
| "weave l i (e # es) = l i @ e # weave l (Suc i) es"

definition library_call :: "(nat \<Rightarrow> u64) \<Rightarrow> library \<Rightarrow> nat \<Rightarrow> nat \<Rightarrow> event list \<Rightarrow> event list" where
  "library_call pc lib t n es = call t (pc n) (weave (lib t n) 0 es)"

text \<open>A call of \<^verbatim>\<open>exit\<close> does not return.\<close>

definition exit_call :: "(nat \<Rightarrow> u64) \<Rightarrow> library \<Rightarrow> nat \<Rightarrow> nat \<Rightarrow> event list" where
  "exit_call pc lib t n = EvCall t (pc n) # lib t n 0"

definition thread_run :: "library \<Rightarrow> nat \<Rightarrow> event list \<Rightarrow> event list" where
  "thread_run lib t body = EvThreadStart t # lib t 0 0 @ body @ lib t 0 1 @ [EvThreadExit t]"

text \<open>What library code may do: no access to persistent memory, no lock, thread or shared mapping.\<close>

fun library_event :: "(u64 \<Rightarrow> u32 \<Rightarrow> bool) \<Rightarrow> nat \<Rightarrow> event \<Rightarrow> bool" where
  "library_event is_pm t (EvCall t' a) \<longleftrightarrow> t' = t"
| "library_event is_pm t (EvRet t') \<longleftrightarrow> t' = t"
| "library_event is_pm t (EvFence t' ctxt) \<longleftrightarrow> t' = t"
| "library_event is_pm t (EvFlush t' a type) \<longleftrightarrow> t' = t \<and> \<not> is_pm a 0"
| "library_event is_pm t (EvWrite t' ctxt a sz type) \<longleftrightarrow> t' = t \<and> \<not> is_pm a sz"
| "library_event is_pm t (EvRMW t' ctxt a sz) \<longleftrightarrow> t' = t \<and> \<not> is_pm a sz"
| "library_event is_pm t (EvRead t' ctxt a sz a2) \<longleftrightarrow> t' = t \<and> \<not> is_pm a sz \<and> (a2 = 0 \<or> \<not> is_pm a2 sz)"
| "library_event is_pm t (EvSyscallEntry readlink t' num arg) \<longleftrightarrow>
     t' = t \<and> num \<noteq> SYS_munmap \<and> (num = SYS_mmap \<longrightarrow> \<not> bit (arg 3) 0)"
| "library_event is_pm t (EvSyscallExit t' ret) \<longleftrightarrow> t' = t"
| "library_event is_pm t e \<longleftrightarrow> False"

definition library_ok :: "(u64 \<Rightarrow> u32 \<Rightarrow> bool) \<Rightarrow> library \<Rightarrow> bool" where
  "library_ok is_pm lib \<longleftrightarrow>
     (\<forall>t n i. (\<forall>e \<in> set (lib t n i). library_event is_pm t e) \<and> (\<forall>st. fold (stack_step t) (lib t n i) st = st))"

section \<open>\<^verbatim>\<open>no_race.c\<close>\<close>

definition no_race_write_value :: "(nat \<Rightarrow> u64) \<Rightarrow> library \<Rightarrow> u64 \<Rightarrow> nat \<Rightarrow> u64 \<Rightarrow> event list" where
  "no_race_write_value pc lib lock t addr =
     library_call pc lib t 78 [EvLock t lock] @
     [EvWrite t (pc 79) addr 4 STORE] @
     call t (pc 81) (flush t addr 4) @
     call t (pc 82) [fence t (pc 23)] @
     library_call pc lib t 83 [EvUnlock t lock]"

text \<open>\<open>created\<close> and \<open>pid\<close> are what \<^verbatim>\<open>pthread_create\<close> returns, \<open>joined\<close> what \<^verbatim>\<open>pthread_join\<close> returns.\<close>

definition no_race_main ::
  "pool_env \<Rightarrow> (nat \<Rightarrow> u64) \<Rightarrow> library \<Rightarrow> u64 \<Rightarrow> int \<Rightarrow> u64 \<Rightarrow> int \<Rightarrow> example_exit \<times> event list" where
  "no_race_main env pc lib lock created pid joined =
     (case open_pmem_pool env of
        Inl msg \<Rightarrow> (Exited msg 1, [])
      | Inr (addr, sz) \<Rightarrow>
          let create = library_call pc lib 0 93 [] @ library_call pc lib 0 97 [EvCreateCall 0, EvCreateReturn 0 created pid]
          in if created \<noteq> 0
             then (Exited ''pthread_create'' (-1), create @ library_call pc lib 0 98 [] @ exit_call pc lib 0 99)
             else
               let run = create @
                 library_call pc lib 0 102 [EvLock 0 lock] @
                 [EvRead 0 (pc 103) addr 4 0] @ library_call pc lib 0 103 [] @
                 library_call pc lib 0 104 [EvUnlock 0 lock] @
                 library_call pc lib 0 108 [EvJoin 0 joined pid]
               in if joined \<noteq> 0
                  then (Exited ''pthread_join'' (-1), run @ library_call pc lib 0 109 [] @ exit_call pc lib 0 110)
                  else (Returned 0, run @ library_call pc lib 0 113 []))"

text \<open>
  The threads of the program, when \<open>write_value\<close> is what the created thread runs. The tool sees
  the end of the main thread however \<^verbatim>\<open>main\<close> ends.
\<close>

definition main_thread :: "library \<Rightarrow> example_exit \<times> event list \<Rightarrow> event list" where
  "main_thread lib result = snd result @ lib 0 0 1 @ [EvThreadExit 0]"

definition worker_thread :: "pool_env \<Rightarrow> library \<Rightarrow> int \<Rightarrow> (nat \<Rightarrow> u64 \<Rightarrow> event list) \<Rightarrow> event list" where
  "worker_thread env lib created write_value =
     (case open_pmem_pool env of
        Inl msg \<Rightarrow> []
      | Inr (addr, sz) \<Rightarrow> if created \<noteq> 0 then [] else thread_run lib 1 (write_value 1 addr))"

definition no_race_runs ::
  "event list \<Rightarrow> pool_env \<Rightarrow> (nat \<Rightarrow> u64) \<Rightarrow> library \<Rightarrow> u64 \<Rightarrow> int \<Rightarrow> u64 \<Rightarrow> int \<Rightarrow> event list set" where
  "no_race_runs pool env pc lib lock created pid joined =
     (@) pool ` shuffles (main_thread lib (no_race_main env pc lib lock created pid joined))
       (worker_thread env lib created (no_race_write_value pc lib lock))"

section \<open>\<^verbatim>\<open>simple_race.c\<close>\<close>

definition simple_race_write_value :: "(nat \<Rightarrow> u64) \<Rightarrow> library \<Rightarrow> u64 \<Rightarrow> nat \<Rightarrow> u64 \<Rightarrow> event list" where
  "simple_race_write_value pc lib lock t addr =
     library_call pc lib t 78 [EvLock t lock] @
     [EvWrite t (pc 79) addr 4 STORE] @
     library_call pc lib t 80 [EvUnlock t lock] @
     call t (pc 82) (flush t addr 4) @
     call t (pc 83) [fence t (pc 23)]"

definition simple_race_main ::
  "pool_env \<Rightarrow> (nat \<Rightarrow> u64) \<Rightarrow> library \<Rightarrow> u64 \<Rightarrow> int \<Rightarrow> u64 \<Rightarrow> int \<Rightarrow> example_exit \<times> event list" where
  "simple_race_main env pc lib lock created pid joined =
     (case open_pmem_pool env of
        Inl msg \<Rightarrow> (Exited msg 1, [])
      | Inr (addr, sz) \<Rightarrow>
          let create = library_call pc lib 0 93 [] @ [EvWrite 0 (pc 97) addr 4 STORE] @
            library_call pc lib 0 99 [EvCreateCall 0, EvCreateReturn 0 created pid]
          in if created \<noteq> 0
             then (Exited ''pthread_create'' (-1), create @ library_call pc lib 0 100 [] @ exit_call pc lib 0 101)
             else
               let run = create @
                 library_call pc lib 0 104 [EvLock 0 lock] @
                 [EvRead 0 (pc 105) addr 4 0] @ library_call pc lib 0 105 [] @
                 library_call pc lib 0 106 [EvUnlock 0 lock] @
                 library_call pc lib 0 108 [EvJoin 0 joined pid]
               in if joined \<noteq> 0
                  then (Exited ''pthread_join'' (-1), run @ library_call pc lib 0 109 [] @ exit_call pc lib 0 110)
                  else (Returned 0, run @ library_call pc lib 0 113 []))"

definition simple_race_runs ::
  "event list \<Rightarrow> pool_env \<Rightarrow> (nat \<Rightarrow> u64) \<Rightarrow> library \<Rightarrow> u64 \<Rightarrow> int \<Rightarrow> u64 \<Rightarrow> int \<Rightarrow> event list set" where
  "simple_race_runs pool env pc lib lock created pid joined =
     (@) pool ` shuffles (main_thread lib (simple_race_main env pc lib lock created pid joined))
       (worker_thread env lib created (simple_race_write_value pc lib lock))"

section \<open>\<^verbatim>\<open>no_sync.c\<close>\<close>

definition no_sync_write_value :: "(nat \<Rightarrow> u64) \<Rightarrow> nat \<Rightarrow> u64 \<Rightarrow> event list" where
  "no_sync_write_value pc t addr =
     [EvWrite t (pc 77) addr 4 STORE] @ call t (pc 78) (flush t addr 4) @ call t (pc 79) [fence t (pc 23)]"

definition no_sync_main ::
  "pool_env \<Rightarrow> (nat \<Rightarrow> u64) \<Rightarrow> library \<Rightarrow> int \<Rightarrow> u64 \<Rightarrow> int \<Rightarrow> example_exit \<times> event list" where
  "no_sync_main env pc lib created pid joined =
     (case open_pmem_pool env of
        Inl msg \<Rightarrow> (Exited msg 1, [])
      | Inr (addr, sz) \<Rightarrow>
          let create = library_call pc lib 0 92 [EvCreateCall 0, EvCreateReturn 0 created pid]
          in if created \<noteq> 0
             then (Exited ''pthread_create'' (-1), create @ library_call pc lib 0 93 [] @ exit_call pc lib 0 94)
             else
               let run = create @ [EvRead 0 (pc 97) addr 4 0] @ library_call pc lib 0 97 [] @
                 library_call pc lib 0 99 [EvJoin 0 joined pid]
               in if joined \<noteq> 0
                  then (Exited ''pthread_join'' (-1), run @ library_call pc lib 0 100 [] @ exit_call pc lib 0 101)
                  else (Returned 0, run))"

definition no_sync_runs ::
  "event list \<Rightarrow> pool_env \<Rightarrow> (nat \<Rightarrow> u64) \<Rightarrow> library \<Rightarrow> int \<Rightarrow> u64 \<Rightarrow> int \<Rightarrow> event list set" where
  "no_sync_runs pool env pc lib created pid joined =
     (@) pool ` shuffles (main_thread lib (no_sync_main env pc lib created pid joined))
       (worker_thread env lib created (no_sync_write_value pc))"

section \<open>The lines a flush covers\<close>

lemma flush_lines_alt: "flush_lines addr sz = map (\<lambda>k. addr + 64 * of_nat k) [0..<(nat sz + 63) div 64]"
proof (induction addr sz rule: flush_lines.induct)
  case (1 addr sz)
  show ?case
  proof (cases "sz > 0")
    case True
    then have n: "(nat sz + 63) div 64 = Suc ((nat (sz - 64) + 63) div 64)" by (cases "sz \<le> 64") auto
    show ?thesis
      using 1 [OF True] True
      by (subst flush_lines.simps) (simp add: n upt_conv_Cons map_Suc_upt [symmetric] algebra_simps del: upt_Suc)
  next
    case False
    then show ?thesis by (subst flush_lines.simps) simp
  qed
qed

lemma unat_flush_line:
  assumes "k < (nat sz + 63) div 64" "unat addr + nat sz \<le> 2 ^ 64"
  shows "unat (addr + 64 * of_nat k :: u64) = unat addr + 64 * k"
proof -
  have "64 * k < nat sz" using assms(1) by linarith
  then have small: "unat addr + 64 * k < 2 ^ 64" using assms(2) by linarith
  then show ?thesis using unat_of_nat [of "unat addr + 64 * k", where ?'a = 64] by simp
qed

lemma CACHE_LINE_eq: "CACHE_LINE a = CACHE_LINE b \<longleftrightarrow> unat a div 64 = unat b div 64"
proof -
  have "unat (a div 64 * 64) = unat a div 64 * 64" for a :: u64
  proof -
    have "unat a div 64 * 64 < 2 ^ 64"
      using unsigned_less [of a, where ?'a = nat] div_times_less_eq_dividend [of "unat a" 64] by simp
    then show ?thesis by (simp add: unat_mult_lem [THEN iffD1] unat_div_distrib)
  qed
  then have "CACHE_LINE a = CACHE_LINE b \<longleftrightarrow> unat a div 64 * 64 = unat b div 64 * 64"
    unfolding CACHE_LINE_def by (metis word_unat_eq_iff)
  then show ?thesis by simp
qed

text \<open>
  The lines from the one of \<open>a\<close> on, in steps of 64 bytes, cover the \<open>n\<close> bytes from \<open>a\<close> unless the
  offsets of the first and the last byte add up to a line.
\<close>

lemma line_count:
  fixes a n :: nat
  assumes "0 < n"
  shows "(\<forall>i < n. \<exists>k < (n + 63) div 64. a div 64 + k = (a + i) div 64) \<longleftrightarrow> a mod 64 + (n - 1) mod 64 < 64"
proof -
  have lines: "(n + 63) div 64 = Suc ((n - 1) div 64)" using assms div_add_self2 [of 64 "n - 1"] by (cases n) simp_all
  have last: "(a + (n - 1)) div 64 = a div 64 + (n - 1) div 64 + (a mod 64 + (n - 1) mod 64) div 64"
    by (rule div_add1_eq)
  show ?thesis
  proof
    assume "\<forall>i < n. \<exists>k < (n + 63) div 64. a div 64 + k = (a + i) div 64"
    with assms obtain k where "k < (n + 63) div 64" "a div 64 + k = (a + (n - 1)) div 64" by (metis diff_less zero_less_one)
    with lines last have "(a mod 64 + (n - 1) mod 64) div 64 = 0" by linarith
    then show "a mod 64 + (n - 1) mod 64 < 64" by (simp add: div_eq_0_iff)
  next
    assume small: "a mod 64 + (n - 1) mod 64 < 64"
    show "\<forall>i < n. \<exists>k < (n + 63) div 64. a div 64 + k = (a + i) div 64"
    proof (intro allI impI)
      fix i assume i: "i < n"
      let ?k = "(a + i) div 64 - a div 64"
      have le: "a div 64 \<le> (a + i) div 64" by (intro div_le_mono) simp
      have "(a + i) div 64 \<le> (a + (n - 1)) div 64" using i by (intro div_le_mono) simp
      moreover have "(a + (n - 1)) div 64 < a div 64 + (n + 63) div 64" using small unfolding lines last by simp
      ultimately have "?k < (n + 63) div 64" using le by linarith
      then show "\<exists>k < (n + 63) div 64. a div 64 + k = (a + i) div 64" using le by (intro exI [of _ ?k]) simp
    qed
  qed
qed

lemma flush_covers:
  assumes "0 < sz" "unat addr + nat sz \<le> 2 ^ 64"
  shows "(\<forall>i < nat sz. \<exists>a \<in> set (flush_lines addr sz). CACHE_LINE a = CACHE_LINE (addr + of_nat i)) \<longleftrightarrow>
    unat addr mod 64 + (nat sz - 1) mod 64 < 64"
proof -
  have byte: "unat (addr + of_nat i) = unat addr + i" if "i < nat sz" for i
  proof -
    have "unat addr + i < 2 ^ 64" using that assms(2) by linarith
    then show ?thesis using unat_of_nat [of "unat addr + i", where ?'a = 64] by simp
  qed
  have "(\<exists>a \<in> set (flush_lines addr sz). CACHE_LINE a = CACHE_LINE (addr + of_nat i)) \<longleftrightarrow>
      (\<exists>k < (nat sz + 63) div 64. unat addr div 64 + k = (unat addr + i) div 64)" if "i < nat sz" for i
    unfolding flush_lines_alt using that by (auto simp: CACHE_LINE_eq byte unat_flush_line [OF _ assms(2)] add.commute Bex_def)
  then show ?thesis using line_count [of "nat sz" "unat addr"] assms(1) by simp
qed

section \<open>No report for \<^verbatim>\<open>no_race.c\<close>\<close>

text \<open>An aligned integer lies in one line, which one flush covers.\<close>

lemma flush_int: "flush t addr 4 = [EvFlush t addr CLWB]"
  by (simp add: flush_def flush_lines_alt)

lemma aligned_int:
  assumes "unat addr mod 64 = 0" "b \<in> set (byte_range addr 4)"
  shows "b \<in> line_of addr"
proof -
  have "unat addr + 63 < 2 ^ 64" using assms(1) unsigned_less [of addr, where ?'a = nat] by simp presburger
  then have "unat (addr + 4) = unat addr + 4" using unat_of_nat [of "unat addr + 4", where ?'a = 64] by simp
  with assms(2) obtain i where i: "b = addr + of_nat i" "i < 4" by (auto simp: byte_range_def)
  have "unat b = unat addr + i"
    using i \<open>unat addr + 63 < 2 ^ 64\<close> unat_of_nat [of "unat addr + i", where ?'a = 64] by simp
  then have "unat b div 64 = unat addr div 64 + i div 64 + (0 + i mod 64) div 64"
    using assms(1) div_add1_eq [of "unat addr" i 64] by metis
  with i(2) have "unat b div 64 = unat addr div 64" by simp
  then show ?thesis by (simp add: line_of_def CACHE_LINE_eq)
qed

lemma aligned_pm:
  assumes "unat addr mod 64 = 0" "IsPMAddress addr 4 st"
  shows "IsPMAddress addr 0 st"
proof -
  have "unat addr + 63 < 2 ^ 64" using assms(1) unsigned_less [of addr, where ?'a = nat] by simp presburger
  then have "addr \<le> addr + 4" using unat_of_nat [of "unat addr + 4", where ?'a = 64] by (simp add: word_le_nat_alt)
  with assms(2) show ?thesis by (auto simp: IsPMAddress_def Let_def list_ex_iff in_allocation_def)
qed

text \<open>What library code leaves alone.\<close>

lemma library_facts:
  assumes "library_ok p lib"
  shows "filter (concerns t' m) (lib t n i) = []" "filter clock_change (lib t n i) = []"
    "filter (unnamed_lock t') (lib t n i) = []" "filter map_event (lib t n i) = []"
    "by_thread t' (lib t n i) = (if t' = t then lib t n i else [])"
    "e \<in> set (lib t n i) \<Longrightarrow> \<not> accesses p e" "fold (stack_step t) (lib t n i) st = st"
    "disciplined u p t m before (lib t n i)" "fold (persist_step u p t) (lib t n i) (D, {}) = (D, {})"
proof -
  have ev: "library_event p t e" if "e \<in> set (lib t n i)" for e using assms that by (simp add: library_ok_def)
  have "\<not> concerns t' m e \<and> \<not> clock_change e \<and> \<not> unnamed_lock t' e \<and> \<not> map_event e \<and> thread_of e = Some t \<and>
      \<not> accesses p e" if "library_event p t e" for t' m e
    using that by (cases e) auto
  note facts = this [OF ev]
  show "filter (concerns t' m) (lib t n i) = []" "filter clock_change (lib t n i) = []"
    "filter (unnamed_lock t') (lib t n i) = []" "filter map_event (lib t n i) = []"
    "by_thread t' (lib t n i) = (if t' = t then lib t n i else [])"
    using facts by (auto simp: filter_empty_conv filter_id_conv)
  show "e \<in> set (lib t n i) \<Longrightarrow> \<not> accesses p e" using facts by blast
  show "fold (stack_step t) (lib t n i) st = st" using assms by (simp add: library_ok_def)
  have "disciplined u p t m before es" if "\<forall>e \<in> set es. library_event p t e" for es
    using that
  proof (induction es arbitrary: before)
    case (Cons e es)
    then have "library_event p t e" by simp
    then have "\<not> accesses p e" "\<not> concerns t m e" by (cases e; simp)+
    with Cons show ?case by simp
  qed simp
  then show "disciplined u p t m before (lib t n i)" using ev by blast
  have "fold (persist_step u p t) es (D, {}) = (D, {})" if "\<forall>e \<in> set es. library_event p t e" for es
    using that
  proof (induction es)
    case (Cons e es)
    then have "library_event p t e" by simp
    then have "persist_step u p t e (D, {}) = (D, {})" by (cases e) auto
    with Cons show ?case by simp
  qed simp
  then show "fold (persist_step u p t) (lib t n i) (D, {}) = (D, {})" using ev by blast
qed

lemmas script_simps = thread_run_def library_call_def call_def exit_call_def flush_int fence_def main_thread_def
  worker_thread_def disciplined_append

lemma no_race_disciplined:
  assumes "unat addr mod 64 = 0" "p = (\<lambda>a sz. IsPMAddress a sz st)" "library_ok p lib"
  shows "disciplined u p 1 lock [] (thread_run lib 1 (no_race_write_value pc lib lock 1 addr))"
proof -
  note lib = library_facts [OF assms(3)]
  have line: "set (byte_range addr 4) \<subseteq> line_of addr" using aligned_int [OF assms(1)] by blast
  then have "set (byte_range addr 4) - line_of addr = {}" "set (byte_range addr 4) \<inter> line_of addr = set (byte_range addr 4)" by auto
  moreover have "p addr 4 \<Longrightarrow> p addr 0" using aligned_pm [OF assms(1)] assms(2) by simp
  ultimately show ?thesis
    by (cases "p addr 4") (simp_all add: no_race_write_value_def script_simps in_section_def lib)
qed

lemma no_race_main_disciplined:
  assumes "library_ok p lib"
  shows "disciplined u p 0 lock [] (main_thread lib (no_race_main env pc lib lock created pid joined))"
  using library_facts [OF assms]
  by (simp add: no_race_main_def script_simps in_section_def Let_def split: sum.split prod.split)

text \<open>The threads of a script keep to their own callbacks.\<close>

lemma no_race_threads:
  assumes "library_ok p lib"
  shows "by_thread t (main_thread lib (no_race_main env pc lib lock created pid joined)) =
      (if t = 0 then main_thread lib (no_race_main env pc lib lock created pid joined) else [])"
    "by_thread t (worker_thread env lib created (no_race_write_value pc lib lock)) =
      (if t = 1 then worker_thread env lib created (no_race_write_value pc lib lock) else [])"
    "filter map_event (main_thread lib (no_race_main env pc lib lock created pid joined)) = []"
    "filter map_event (worker_thread env lib created (no_race_write_value pc lib lock)) = []"
  using library_facts(4,5) [OF assms]
  by (simp_all add: no_race_main_def no_race_write_value_def script_simps Let_def split: sum.split prod.split)

lemma no_race_guarded:
  assumes es: "es \<in> no_race_runs pool env pc lib lock created pid joined"
    and run: "hawk_run c es (init_hawk n d u) = Inr g" and len: "length es \<le> 2 ^ 16"
    and pool: "pool_run pool" "hawk_run c pool (init_hawk n d u) = Inr k" "\<not> found_alloc (pm k)"
    and lib: "library_ok (\<lambda>a sz. IsPMAddress a sz (pm k)) lib"
    and line: "unat (map_address env) mod 64 = 0"
  shows "guarded c es (init_hawk n d u) g (\<lambda>_. lock)" "\<And>e t. e \<in> set es \<Longrightarrow> thread_of e = Some t \<Longrightarrow> t \<in> {0, 1}"
proof -
  let ?main = "main_thread lib (no_race_main env pc lib lock created pid joined)"
    and ?worker = "worker_thread env lib created (no_race_write_value pc lib lock)"
  obtain zs where zs: "es = pool @ zs" "zs \<in> shuffles ?main ?worker" using es by (auto simp: no_race_runs_def)
  note facts = no_race_threads [OF lib]
  have own: "by_thread t zs = (if t = 0 then ?main else if t = 1 then ?worker else [])" for t
    using shuffled_threads [OF zs(2) facts(1) facts(2)] .
  have maps: "filter map_event zs = []" using filter_shuffled [OF zs(2) facts(4)] facts(3) by metis
  show threads: "t \<in> {0, 1}" if "e \<in> set es" "thread_of e = Some t" for e t
  proof (cases "e \<in> set pool")
    case True
    then show ?thesis using pool_run_events [OF pool(1)] pool_event_calm(1) that(2) by (fastforce simp: list_all_iff)
  next
    case False
    then have "e \<in> set (by_thread t zs)" using that zs(1) by simp
    then show ?thesis by (simp add: own split: if_splits)
  qed
  have check: "disciplined u (\<lambda>a sz. IsPMAddress a sz (pm k')) t lock [] (by_thread t zs)"
    if "hawk_run c pool (init_hawk n d u) = Inr k'" for k' t
  proof -
    have "k' = k" using that pool(2) by simp
    then show ?thesis
      using no_race_disciplined [OF line refl lib] no_race_main_disciplined [OF lib]
      by (simp add: own worker_thread_def open_pmem_pool_def Let_def split: sum.split prod.split)
  qed
  have "\<not> found_alloc (pm k')" if "hawk_run c pool (init_hawk n d u) = Inr k'" for k' using that pool(2,3) by simp
  then show "guarded c es (init_hawk n d u) g (\<lambda>_. lock)"
    unfolding zs(1)
    using scripts_guarded [OF run [unfolded zs(1)] _ pool_run_events [OF pool(1)] maps _ check]
      short_run(2) [where T = "{0, 1}", OF run len threads] by simp
qed

lemma no_race_silent:
  assumes es: "es \<in> no_race_runs pool env pc lib lock created pid joined"
    and run: "hawk_run c es (init_hawk n d u) = Inr g" and len: "length es \<le> 2 ^ 16"
    and pool: "pool_run pool" "hawk_run c pool (init_hawk n d u) = Inr k" "\<not> found_alloc (pm k)"
    and lib: "library_ok (\<lambda>a sz. IsPMAddress a sz (pm k)) lib"
    and line: "unat (map_address env) mod 64 = 0"
  shows "\<not> reported (CheckPMRaces g) pers (wt, ft, fl) lb"
proof -
  note guard = no_race_guarded [OF assms]
  note short = short_run [where T = "{0, 1}", OF run len guard(2)]
  show ?thesis
    using guarded_unreported [OF run reported_origin [OF run short(1-4)]] guard(1) by auto
qed

section \<open>A report for \<^verbatim>\<open>simple_race.c\<close> and \<^verbatim>\<open>no_sync.c\<close>\<close>

lemma addr_in_range: "unat addr mod 64 = 0 \<Longrightarrow> addr \<in> set (byte_range addr 4)"
proof -
  assume "unat addr mod 64 = 0"
  then have "unat addr + 63 < 2 ^ 64" using unsigned_less [of addr, where ?'a = nat] by simp presburger
  then have "unat (addr + 4) = unat addr + 4" using unat_of_nat [of "unat addr + 4", where ?'a = 64] by simp
  then show "addr \<in> set (byte_range addr 4)" by (force simp: byte_range_def intro: image_eqI [of _ _ 0])
qed

lemma simple_race_scripts:
  fixes pc lib lock addr pid
  defines "x1 \<equiv> library_call pc lib 0 93 [] @ [EvWrite 0 (pc 97) addr 4 STORE] @
      library_call pc lib 0 99 [EvCreateCall 0, EvCreateReturn 0 0 pid] @ library_call pc lib 0 104 [EvLock 0 lock]"
    and "y1 \<equiv> EvThreadStart 1 # lib 1 0 0 @ library_call pc lib 1 78 [EvLock 1 lock]"
    and "y2 \<equiv> library_call pc lib 1 80 [EvUnlock 1 lock] @ call 1 (pc 82) (flush 1 addr 4) @ [EvCall 1 (pc 83)]"
  assumes line: "unat addr mod 64 = 0" and p: "p = (\<lambda>a sz. IsPMAddress a sz st)" "p addr 4" and ok: "library_ok p lib"
  shows "racy_scripts u p x1 addr 4 y1 (EvWrite 1 (pc 79) addr 4 STORE) y2 addr"
    "fold (stack_step 0) x1 [] = []" "fold (stack_step 1) y1 [] = []" "fold (stack_step 1) (y1 @ y2) [] = [pc 83]"
proof -
  note lib = library_facts [OF ok]
  have line': "set (byte_range addr 4) - line_of addr = {}" "set (byte_range addr 4) \<inter> line_of addr = set (byte_range addr 4)"
    using aligned_int [OF line] by auto
  have p0: "p addr 0" using aligned_pm [OF line] p by simp
  note defs = x1_def y1_def y2_def script_simps
  show "fold (stack_step 0) x1 [] = []" "fold (stack_step 1) y1 [] = []" "fold (stack_step 1) (y1 @ y2) [] = [pc 83]"
    by (simp_all add: defs lib)
  have byte: "\<exists>i < unat (4 :: u32). addr = addr + of_nat i" by (intro exI [of _ 0]) simp
  have store: "\<exists>ctxt a sz. EvWrite 1 (pc 79) addr 4 STORE = EvWrite 1 ctxt a sz STORE \<and> sz \<le> 64 \<and> p a sz \<and> addr \<in> set (byte_range a sz)"
    using p(2) addr_in_range [OF line] by (intro exI conjI) (rule refl, simp_all)
  have before: "fold (persist_step u p 1) y1 ({}, {}) = ({}, {})" by (simp add: defs lib)
  have after: "fold (persist_step u p 1) (y1 @ EvWrite 1 (pc 79) addr 4 STORE # y2) ({}, {}) = ({}, set (byte_range addr 4))"
    by (simp add: before del: One_nat_def) (simp add: defs lib p(2) p0 line')
  have quiet: "\<forall>e \<in> set y2. \<not> overwrites p addr e" using overwrites_accesses [OF lib(6)] by (auto simp: defs)
  have "\<forall>m. in_section 0 m x1 \<and> in_section 1 m y1 \<longrightarrow> (\<exists>e \<in> set y2. concerns 1 m e)"
    by (auto simp: defs lib in_section_def)
  then have apart: "apart 0 x1 1 y1 y2" by (intro apartI) (simp_all add: defs lib)
  show "racy_scripts u p x1 addr 4 y1 (EvWrite 1 (pc 79) addr 4 STORE) y2 addr"
    unfolding racy_scripts_def racy_access_def racy_window_def
    using byte store quiet apart before after p(2) addr_in_range [OF line] by (simp add: defs lib)
qed

lemma simple_race_threads:
  assumes "library_ok p lib"
  shows "by_thread t (main_thread lib (simple_race_main env pc lib lock created pid joined)) =
      (if t = 0 then main_thread lib (simple_race_main env pc lib lock created pid joined) else [])"
    "by_thread t (worker_thread env lib created (simple_race_write_value pc lib lock)) =
      (if t = 1 then worker_thread env lib created (simple_race_write_value pc lib lock) else [])"
    "filter map_event (main_thread lib (simple_race_main env pc lib lock created pid joined)) = []"
    "filter map_event (worker_thread env lib created (simple_race_write_value pc lib lock)) = []"
  using library_facts(4,5) [OF assms]
  by (simp_all add: simple_race_main_def simple_race_write_value_def script_simps Let_def split: sum.split prod.split)

lemma simple_race_found:
  assumes es: "es \<in> simple_race_runs pool env pc lib lock 0 pid joined"
    and run: "hawk_run c es (init_hawk 0 d u) = Inr g" and len: "length es \<le> 2 ^ 16"
    and pool: "pool_run pool" "hawk_run c pool (init_hawk 0 d u) = Inr k" "\<not> found_alloc (pm k)"
    and lib: "library_ok (\<lambda>a sz. IsPMAddress a sz (pm k)) lib"
    and mapped: "open_pmem_pool env = Inr (addr, sz)" "unat addr mod 64 = 0" "IsPMAddress addr 4 (pm k)"
  shows "\<exists>wt ft lb. reported (CheckPMRaces g) True (wt, ft, True) lb \<and> trace_is (bt_heap g) wt [pc 79] \<and>
    trace_is (bt_heap g) ft [pc 23, pc 83] \<and> trace_is (bt_heap g) lb [pc 105]"
proof -
  let ?main = "main_thread lib (simple_race_main env pc lib lock 0 pid joined)"
    and ?worker = "worker_thread env lib 0 (simple_race_write_value pc lib lock)"
  obtain zs where zs: "es = pool @ zs" "zs \<in> shuffles ?main ?worker" using es by (auto simp: simple_race_runs_def)
  let ?js = "if joined = 0 then [EvJoin 0 0 pid, EvThreadExit 0] else [EvThreadExit 0]"
  have clocks: "filter clock_change ?main = EvCreateCall 0 # ?js" "filter clock_change ?worker = [EvThreadStart 1, EvThreadExit 1]"
    using library_facts(2) [OF lib]
    by (simp_all add: simple_race_main_def simple_race_write_value_def script_simps mapped(1) Let_def)
  have js: "\<forall>e \<in> set ?js. (\<exists>pid. e = EvJoin 0 0 pid) \<or> e = EvThreadExit 0" "\<forall>e \<in> set [EvThreadExit 1]. e = EvThreadExit 1"
    by simp_all
  let ?x1 = "library_call pc lib 0 93 [] @ [EvWrite 0 (pc 97) addr 4 STORE] @
      library_call pc lib 0 99 [EvCreateCall 0, EvCreateReturn 0 0 pid] @ library_call pc lib 0 104 [EvLock 0 lock]"
    and ?y1 = "EvThreadStart 1 # lib 1 0 0 @ library_call pc lib 1 78 [EvLock 1 lock]"
    and ?y2 = "library_call pc lib 1 80 [EvUnlock 1 lock] @ call 1 (pc 82) (flush 1 addr 4) @ [EvCall 1 (pc 83)]"
  have main: "\<exists>x2. ?main = ?x1 @ EvRead 0 (pc 105) addr 4 0 # x2"
    by (simp add: simple_race_main_def main_thread_def mapped(1) Let_def)
  have worker: "\<exists>y3. ?worker = ?y1 @ EvWrite 1 (pc 79) addr 4 STORE # ?y2 @ EvFence 1 (pc 23) # y3"
    by (simp add: simple_race_write_value_def worker_thread_def thread_run_def mapped(1) call_def fence_def)
  from main worker obtain x2 y3 where split: "?main = ?x1 @ EvRead 0 (pc 105) addr 4 0 # x2"
    "?worker = ?y1 @ EvWrite 1 (pc 79) addr 4 STORE # ?y2 @ EvFence 1 (pc 23) # y3" by blast
  note scripts = simple_race_scripts [OF mapped(2) refl mapped(3) lib]
  from shuffled_reported [OF pool run [unfolded zs(1)] len [unfolded zs(1)] zs(2) simple_race_threads [OF lib]
      clocks(1) js(1) clocks(2) js(2) split scripts(1)]
  show ?thesis unfolding scripts(2-4) by simp
qed

lemma no_sync_scripts:
  fixes pc lib addr pid
  defines "x1 \<equiv> library_call pc lib 0 92 [EvCreateCall 0, EvCreateReturn 0 0 pid]"
    and "y1 \<equiv> EvThreadStart 1 # lib 1 0 0" and "y2 \<equiv> call 1 (pc 78) (flush 1 addr 4) @ [EvCall 1 (pc 79)]"
  assumes line: "unat addr mod 64 = 0" and p: "p = (\<lambda>a sz. IsPMAddress a sz st)" "p addr 4" and ok: "library_ok p lib"
  shows "racy_scripts u p x1 addr 4 y1 (EvWrite 1 (pc 77) addr 4 STORE) y2 addr"
    "fold (stack_step 0) x1 [] = []" "fold (stack_step 1) y1 [] = []" "fold (stack_step 1) (y1 @ y2) [] = [pc 79]"
proof -
  note lib = library_facts [OF ok]
  have line': "set (byte_range addr 4) - line_of addr = {}" "set (byte_range addr 4) \<inter> line_of addr = set (byte_range addr 4)"
    using aligned_int [OF line] by auto
  have p0: "p addr 0" using aligned_pm [OF line] p by simp
  note defs = x1_def y1_def y2_def script_simps
  show "fold (stack_step 0) x1 [] = []" "fold (stack_step 1) y1 [] = []" "fold (stack_step 1) (y1 @ y2) [] = [pc 79]"
    by (simp_all add: defs lib)
  have byte: "\<exists>i < unat (4 :: u32). addr = addr + of_nat i" by (intro exI [of _ 0]) simp
  have store: "\<exists>ctxt a sz. EvWrite 1 (pc 77) addr 4 STORE = EvWrite 1 ctxt a sz STORE \<and> sz \<le> 64 \<and> p a sz \<and> addr \<in> set (byte_range a sz)"
    using p(2) addr_in_range [OF line] by (intro exI conjI) (rule refl, simp_all)
  have before: "fold (persist_step u p 1) y1 ({}, {}) = ({}, {})" by (simp add: defs lib)
  have after: "fold (persist_step u p 1) (y1 @ EvWrite 1 (pc 77) addr 4 STORE # y2) ({}, {}) = ({}, set (byte_range addr 4))"
    by (simp add: before del: One_nat_def) (simp add: defs lib p(2) p0 line')
  have "\<forall>m. \<not> in_section 0 m x1" by (auto simp: defs lib in_section_def)
  then have apart: "apart 0 x1 1 y1 y2" by (intro apartI) (simp_all add: defs lib)
  show "racy_scripts u p x1 addr 4 y1 (EvWrite 1 (pc 77) addr 4 STORE) y2 addr"
    unfolding racy_scripts_def racy_access_def racy_window_def
    using byte store apart before after p(2) addr_in_range [OF line] by (simp add: defs lib overwrites_accesses)
qed

lemma no_sync_threads:
  assumes "library_ok p lib"
  shows "by_thread t (main_thread lib (no_sync_main env pc lib created pid joined)) =
      (if t = 0 then main_thread lib (no_sync_main env pc lib created pid joined) else [])"
    "by_thread t (worker_thread env lib created (no_sync_write_value pc)) =
      (if t = 1 then worker_thread env lib created (no_sync_write_value pc) else [])"
    "filter map_event (main_thread lib (no_sync_main env pc lib created pid joined)) = []"
    "filter map_event (worker_thread env lib created (no_sync_write_value pc)) = []"
  using library_facts(4,5) [OF assms]
  by (simp_all add: no_sync_main_def no_sync_write_value_def script_simps Let_def split: sum.split prod.split)

lemma no_sync_found:
  assumes es: "es \<in> no_sync_runs pool env pc lib 0 pid joined"
    and run: "hawk_run c es (init_hawk 0 d u) = Inr g" and len: "length es \<le> 2 ^ 16"
    and pool: "pool_run pool" "hawk_run c pool (init_hawk 0 d u) = Inr k" "\<not> found_alloc (pm k)"
    and lib: "library_ok (\<lambda>a sz. IsPMAddress a sz (pm k)) lib"
    and mapped: "open_pmem_pool env = Inr (addr, sz)" "unat addr mod 64 = 0" "IsPMAddress addr 4 (pm k)"
  shows "\<exists>wt ft lb. reported (CheckPMRaces g) True (wt, ft, True) lb \<and> trace_is (bt_heap g) wt [pc 77] \<and>
    trace_is (bt_heap g) ft [pc 23, pc 79] \<and> trace_is (bt_heap g) lb [pc 97]"
proof -
  let ?main = "main_thread lib (no_sync_main env pc lib 0 pid joined)"
    and ?worker = "worker_thread env lib 0 (no_sync_write_value pc)"
  obtain zs where zs: "es = pool @ zs" "zs \<in> shuffles ?main ?worker" using es by (auto simp: no_sync_runs_def)
  let ?js = "if joined = 0 then [EvJoin 0 0 pid, EvThreadExit 0] else [EvThreadExit 0]"
  have clocks: "filter clock_change ?main = EvCreateCall 0 # ?js" "filter clock_change ?worker = [EvThreadStart 1, EvThreadExit 1]"
    using library_facts(2) [OF lib]
    by (simp_all add: no_sync_main_def no_sync_write_value_def script_simps mapped(1) Let_def)
  have js: "\<forall>e \<in> set ?js. (\<exists>pid. e = EvJoin 0 0 pid) \<or> e = EvThreadExit 0" "\<forall>e \<in> set [EvThreadExit 1]. e = EvThreadExit 1"
    by simp_all
  let ?x1 = "library_call pc lib 0 92 [EvCreateCall 0, EvCreateReturn 0 0 pid]"
    and ?y1 = "EvThreadStart 1 # lib 1 0 0" and ?y2 = "call 1 (pc 78) (flush 1 addr 4) @ [EvCall 1 (pc 79)]"
  have main: "\<exists>x2. ?main = ?x1 @ EvRead 0 (pc 97) addr 4 0 # x2"
    by (simp add: no_sync_main_def main_thread_def mapped(1) Let_def)
  have worker: "\<exists>y3. ?worker = ?y1 @ EvWrite 1 (pc 77) addr 4 STORE # ?y2 @ EvFence 1 (pc 23) # y3"
    by (simp add: no_sync_write_value_def worker_thread_def thread_run_def mapped(1) call_def fence_def)
  from main worker obtain x2 y3 where split: "?main = ?x1 @ EvRead 0 (pc 97) addr 4 0 # x2"
    "?worker = ?y1 @ EvWrite 1 (pc 77) addr 4 STORE # ?y2 @ EvFence 1 (pc 23) # y3" by blast
  note scripts = no_sync_scripts [OF mapped(2) refl mapped(3) lib]
  from shuffled_reported [OF pool run [unfolded zs(1)] len [unfolded zs(1)] zs(2) no_sync_threads [OF lib]
      clocks(1) js(1) clocks(2) js(2) split scripts(1)]
  show ?thesis unfolding scripts(2-4) by simp
qed

end
