(* ===== verification/Forks.thy ===== *)
theory Forks
  imports ScriptRaces
begin

text \<open>
  Programs whose main thread creates and joins any number of threads. The mutex and the semaphore
  of \<^verbatim>\<open>PthreadCreateReplacement\<close> order the starts of the threads: each starts between the call
  that creates it and the return of that call (\<open>starts_in_order\<close>). So the epochs of a run, and
  which of them are ordered, can be read off the main thread's own creations and joins: the first epochs
  of the threads created and not yet joined, and the epoch of the main thread,
  are unordered (\<open>phase_unordered\<close>) in every schedule.
\<close>

section \<open>Creations\<close>

definition creates :: "event list \<Rightarrow> nat" where
  "creates es = length (filter (\<lambda>e. e = EvCreateCall 0) es)"

lemma creates_simps [simp]:
  "creates [] = 0" "creates (e # es) = (if e = EvCreateCall 0 then Suc (creates es) else creates es)"
  "creates (xs @ ys) = creates xs + creates ys"
  by (simp_all add: creates_def)

lemma creates_mono: "m \<le> n \<Longrightarrow> creates (take m es) \<le> creates (take n es)"
  by (metis creates_simps(3) le_add1 le_add_diff_inverse take_add)

text \<open>
  The main thread calls \<^verbatim>\<open>pthread_create\<close> again only after a call that succeeded; \<open>idle\<close> says
  whether it is outside such a call.
\<close>

fun idle_after :: "bool \<Rightarrow> event list \<Rightarrow> bool" where
  "idle_after idle [] = idle"
| "idle_after idle (EvCreateCall t # es) = idle_after False es"
| "idle_after idle (EvCreateReturn t result pid # es) = idle_after (idle \<or> result = 0) es"
| "idle_after idle (e # es) = idle_after idle es"

fun paired :: "bool \<Rightarrow> event list \<Rightarrow> bool" where
  "paired idle [] = True"
| "paired idle (EvCreateCall t # es) = (idle \<and> paired False es)"
| "paired idle (EvCreateReturn t result pid # es) = paired (idle \<or> result = 0) es"
| "paired idle (e # es) = paired idle es"

lemma paired_append [simp]: "paired b (xs @ ys) \<longleftrightarrow> paired b xs \<and> paired (idle_after b xs) ys"
  by (induction b xs rule: paired.induct) auto

lemma idle_after_append [simp]: "idle_after b (xs @ ys) = idle_after (idle_after b xs) ys"
  by (induction b xs rule: idle_after.induct) auto

fun creation :: "event \<Rightarrow> bool" where
  "creation (EvCreateCall t) = True"
| "creation (EvCreateReturn t result pid) = True"
| "creation e = False"

lemma paired_none: "filter creation es = [] \<Longrightarrow> paired b es \<and> idle_after b es = b"
proof (induction es)
  case (Cons e es)
  then show ?case by (cases e) auto
qed simp

text \<open>
  Only the main thread creates and joins, and a thread, numbered in the order of creation, does
  not start before the call that creates it. Thread 0 has started with the pool.
\<close>

fun starts_ok :: "nat \<Rightarrow> event list \<Rightarrow> bool" where
  "starts_ok n [] = True"
| "starts_ok n (EvThreadStart t # es) = (t \<le> n \<and> starts_ok n es)"
| "starts_ok n (e # es) = starts_ok (if e = EvCreateCall 0 then Suc n else n) es"

lemma starts_ok_append: "starts_ok n (xs @ ys) \<longleftrightarrow> starts_ok n xs \<and> starts_ok (n + creates xs) ys"
  by (induction n xs rule: starts_ok.induct) auto

definition forked :: "event list \<Rightarrow> bool" where
  "forked es \<longleftrightarrow>
     (\<forall>e \<in> set es. thread_of e \<noteq> None \<and> e \<noteq> EvThreadStart 0 \<and>
        (\<forall>t. clock_change e \<and> thread_of e = Some t \<and> t \<noteq> 0 \<longrightarrow> e \<in> {EvThreadStart t, EvThreadExit t})) \<and>
     paired True (by_thread 0 es) \<and> starts_ok 0 es"

lemma forked_prefix: "forked (ps @ qs) \<Longrightarrow> forked ps"
  by (auto simp: forked_def starts_ok_append)

lemma forked_next:
  assumes "forked (ps @ [e])"
  shows "clock_change e \<Longrightarrow> thread_of e = Some t \<Longrightarrow> t \<noteq> 0 \<Longrightarrow> e \<in> {EvThreadStart t, EvThreadExit t}"
    "thread_of e \<noteq> None" "e \<noteq> EvThreadStart 0" "e = EvThreadStart t \<Longrightarrow> t \<le> creates ps"
    "e = EvCreateCall 0 \<Longrightarrow> idle_after True (by_thread 0 ps)"
  using assms by (auto simp: forked_def starts_ok_append)

lemma creates_own: "creates (by_thread 0 es) = creates es"
  unfolding creates_def filter_filter by (rule arg_cong [where f = length], rule filter_cong) auto

section \<open>The mutex and the semaphore of thread creation\<close>

definition creation_same :: "hawk \<Rightarrow> hawk \<Rightarrow> bool" where
  "creation_same g g' \<longleftrightarrow>
     thread_creation_mutex g' = thread_creation_mutex g \<and> thread_creation_semaphore g' = thread_creation_semaphore g"

interpretation cf: handler_frame "\<lambda>_. creation_same"
proof
  show "creation_same a b" if "hawk_HandleAccess tid adr sz a = Inr (m, b)" for tid adr sz a m b
    using hawk_HandleAccess_spec(1) [OF that] by (auto simp: creation_same_def)
  show "creation_same a b" if "hawk_HandleAccessByte tid adr a = Inr (y, b)" for tid adr a y b
    using hawk_HandleAccess_spec(2) [OF that] by (auto simp: creation_same_def)
qed (auto simp: creation_same_def untouched_def)

lemma creation_same_refl [simp]: "creation_same g g"
  by (simp add: creation_same_def)

lemma creation_same_ProcessLock: "creation_same g (ProcessLock tid lt m special g)"
  by (simp add: creation_same_def ProcessLock_def lock_current_def unlock_current_def get_next_id_def Let_def split: prod.split)

lemma hawk_step_creation_same:
  assumes run: "hawk_step c e g = Inr g'" and e: "\<not> creation e" "\<forall>t. e \<noteq> EvThreadStart t"
  shows "creation_same g g'"
proof (cases e)
  case (EvWrite tid ctxt a sz type)
  then show ?thesis
    using run cf.F_ProcessStore cf.F_untouched [OF untouched_ProcessFlush] by (auto simp: TraceWrite_def split: if_splits)
next
  case (EvFlush tid a type)
  then show ?thesis using run cf.F_untouched [OF untouched_ProcessFlush] by (auto simp: TraceFlush_def)
next
  case (EvFence tid ctxt)
  then show ?thesis using run cf.F_ProcessFence by (auto simp: TraceFence_def)
next
  case (EvRMW tid ctxt a sz)
  then show ?thesis using run cf.F_ProcessFence by (auto simp: TraceRMW_def split: if_splits)
next
  case (EvRead tid ctxt a sz a2)
  then show ?thesis using run cf.F_RegisterAccess by (auto simp: TraceRead_def ProcessRead_def split: if_splits)
next
  case (EvTryLockAfter mem tid res success neg use_arg lt)
  then show ?thesis
    using run creation_same_ProcessLock TryLockAfter_cases [of mem tid res success neg use_arg lt g] by auto
next
  case (EvThreadExit tid)
  then show ?thesis using run cf.F_ProcessThreadExit by (auto simp: TraceThreadExit_def)
qed (use run e creation_same_ProcessLock in \<open>auto simp: LockBefore_def WriteLockBefore_def ReadLockBefore_def
    UnlockBefore_def RWUnlockBefore_def TraceAdqRelBefore_def TraceAdqRelAfter_def TraceCall_def TraceRet_def
    TryLockBefore_def PthreadJoin_return_def ProcessThreadJoin_def push_clock_def creation_same_def Let_def
    split: if_splits sum.splits\<close>)

lemma hawk_step_creation:
  assumes "hawk_step c e g = Inr g'"
  shows "e = EvCreateCall t \<Longrightarrow> thread_creation_mutex g' = Some t \<and> thread_creation_semaphore g' = thread_creation_semaphore g"
    "e = EvCreateReturn t result pid \<Longrightarrow> thread_creation_mutex g' = None \<and>
       thread_creation_semaphore g' = (thread_creation_semaphore g \<and> result \<noteq> 0)"
    "e = EvThreadStart t \<Longrightarrow> thread_creation_mutex g' = thread_creation_mutex g \<and>
       thread_creation_semaphore g' = (thread_creation_semaphore g \<or> t \<noteq> 0)"
  using assms
  by (auto simp: PthreadCreate_call_def ProcessThreadCreate_def PthreadCreate_return_def TraceThreadStart_def
      TraceThreadStart_signal_def TraceThreadStart_init_def ProcessThreadInit_def push_clock_def Let_def split: if_splits sum.splits)

text \<open>
  Outside a creation all created threads have started and the semaphore is not set; within one,
  at most the last has not, and it has if the semaphore is set.
\<close>

definition creation_state :: "event list \<Rightarrow> hawk \<Rightarrow> bool" where
  "creation_state ps g \<longleftrightarrow>
     thread_creation_mutex g \<in> {None, Some 0} \<and> started g 0 \<and>
     (\<forall>t. 0 < t \<longrightarrow> started g t \<longrightarrow> t \<le> creates ps) \<and>
     (if idle_after True (by_thread 0 ps)
      then (\<forall>t. 0 < t \<and> t \<le> creates ps \<longrightarrow> started g t) \<and> \<not> thread_creation_semaphore g
      else (\<forall>t. 0 < t \<and> t < creates ps \<longrightarrow> started g t) \<and>
        (thread_creation_semaphore g \<longrightarrow> (\<forall>t. 0 < t \<and> t \<le> creates ps \<longrightarrow> started g t)))"

lemma creation_state_step:
  assumes st: "creation_state ps g" and fk: "forked (ps @ [e])" and inv: "hawk_inv g"
    and en: "enabled e g" and step: "hawk_step c e g = Inr g'"
  shows "creation_state (ps @ [e]) g' \<and> (\<forall>t. e = EvThreadStart t \<longrightarrow> creates ps = t)"
proof -
  note started = hawk_step_started [OF inv en step]
  show ?thesis
  proof (cases "creation e \<or> (\<exists>t. e = EvThreadStart t)")
    case False
    then have same: "creation_same g g'" using hawk_step_creation_same [OF step] by blast
    have idle: "idle_after b [e] = b" for b using False by (cases e) auto
    from False have e: "\<And>t. e \<noteq> EvThreadStart t" "e \<noteq> EvCreateCall 0" by auto
    from idle have "idle_after True (by_thread 0 (ps @ [e])) = idle_after True (by_thread 0 ps)" by simp
    with st same started e show ?thesis by (simp add: creation_state_def creation_same_def)
  next
    case True
    then consider t where "e = EvCreateCall t" | t result pid where "e = EvCreateReturn t result pid" | t where "e = EvThreadStart t"
      by (cases e) auto
    then show ?thesis
    proof cases
      case 1
      then have "t = 0" using forked_next(1) [OF fk, of t] by (cases "t = 0") auto
      with 1 have idle: "idle_after True (by_thread 0 ps)" using forked_next(5) [OF fk] by simp
      from hawk_step_creation(1) [OF step 1] 1 \<open>t = 0\<close> idle st started show ?thesis
        by (auto simp: creation_state_def intro: le_SucI)
    next
      case 2
      with en st have "t = 0" by (auto simp: enabled_def creation_state_def)
      with hawk_step_creation(2) [OF step 2] 2 en st started show ?thesis
        by (auto simp: creation_state_def enabled_def split: if_splits)
    next
      case 3
      have t: "0 < t" "t \<le> creates ps" using 3 forked_next(3,4) [OF fk] by auto
      have fresh: "\<not> started g t" using en 3 by (simp add: enabled_def)
      then have busy: "\<not> idle_after True (by_thread 0 ps)" and last: "t = creates ps"
        using st t by (auto simp: creation_state_def not_less split: if_splits)
      with hawk_step_creation(3) [OF step 3] 3 st started t show ?thesis
        by (auto simp: creation_state_def)
    qed
  qed
qed

lemma creation_state_pool:
  assumes pool: "pool_run pool" and run: "hawk_run c pool (init_hawk n d u) = Inr g"
  shows "creation_state [] g"
proof -
  obtain sys where sys: "pool = EvThreadStart 0 # sys" "\<forall>e \<in> set sys. pool_event e \<and> \<not> clock_change e"
    using pool by (auto simp: pool_run_def)
  have keep: "creation_state [] k'" if "hawk_run c es k = Inr k'" "\<forall>e \<in> set es. pool_event e \<and> \<not> clock_change e"
      "creation_state [] k" "hawk_inv k" for es k k'
    using that
  proof (induction es arbitrary: k)
    case (Cons e es)
    then obtain k1 where k1: "enabled e k" "hawk_step c e k = Inr k1" "hawk_run c es k1 = Inr k'" by (auto split: if_splits)
    have e: "\<not> creation e \<and> (\<forall>t. e \<noteq> EvThreadStart t)" using Cons.prems(2) by (cases e) auto
    with hawk_step_creation_same [OF k1(2)] hawk_step_started [OF Cons.prems(4) k1(1,2)] Cons.prems(3)
    have "creation_state [] k1" by (simp add: creation_state_def creation_same_def)
    with Cons.IH [OF k1(3)] Cons.prems(2) hawk_step_inv [OF Cons.prems(4) k1(1,2)] show ?case by simp
  qed simp
  obtain k where k: "enabled (EvThreadStart 0) (init_hawk n d u)" "hawk_step c (EvThreadStart 0) (init_hawk n d u) = Inr k"
      "hawk_run c sys k = Inr g"
    using run by (auto simp: sys(1) split: if_splits)
  have "\<not> started (init_hawk n d u) t" for t by (simp add: started_def init_hawk_def new_ThreadData_def)
  with hawk_step_started [OF hawk_inv_init k(1,2)] hawk_step_creation(3) [OF k(2)]
  have "creation_state [] k" by (auto simp: creation_state_def init_hawk_def)
  from keep [OF k(3) sys(2) this hawk_step_inv [OF hawk_inv_init k(1,2)]] show ?thesis .
qed

text \<open>Thread \<open>t\<close> starts within the \<open>t\<close>-th creation.\<close>

lemma run_creation_state:
  assumes "pool_run pool" "hawk_run c (pool @ ps) (init_hawk n d u) = Inr g" "forked ps"
  shows "creation_state ps g"
  using assms(2,3)
proof (induction ps arbitrary: g rule: rev_induct)
  case Nil
  with creation_state_pool [OF assms(1)] show ?case by simp
next
  case (snoc e ps)
  then obtain k where k: "hawk_run c (pool @ ps) (init_hawk n d u) = Inr k" "enabled e k" "hawk_step c e k = Inr g"
    by (auto simp: hawk_run_append split: if_splits)
  have inv: "hawk_inv k" by (rule reachable_hawk_inv [OF hawk_run_reachable [OF k(1) reachable_init]])
  from creation_state_step [OF snoc.IH [OF k(1) forked_prefix [OF snoc.prems(2)]] snoc.prems(2) inv k(2,3)] show ?case by blast
qed

lemma starts_in_order:
  assumes "pool_run pool" "hawk_run c (pool @ ps @ EvThreadStart t # qs) (init_hawk n d u) = Inr g" "forked (ps @ EvThreadStart t # qs)"
  shows "creates ps = t"
proof -
  obtain k k' where k: "hawk_run c (pool @ ps) (init_hawk n d u) = Inr k" "enabled (EvThreadStart t) k"
      "hawk_step c (EvThreadStart t) k = Inr k'"
    using assms(2) by (auto simp: hawk_run_append split: if_splits)
  have fk: "forked (ps @ [EvThreadStart t])" using forked_prefix [of "ps @ [EvThreadStart t]" qs] assms(3) by simp
  have inv: "hawk_inv k" by (rule reachable_hawk_inv [OF hawk_run_reachable [OF k(1) reachable_init]])
  from creation_state_step [OF run_creation_state [OF assms(1) k(1) forked_prefix [OF fk]] fk inv k(2,3)] show ?thesis by blast
qed

section \<open>Epochs of a fork\<close>

text \<open>
  The edges of a run whose main thread has created and joined as in \<open>M\<close>: from the epoch a creation
  ends to the thread's first, and from some epoch of a thread created before to the epoch a join
  starts.
\<close>

definition fork_edges :: "event list \<Rightarrow> (epoch \<times> epoch) set" where
  "fork_edges M =
     {((0, i), (t, 0)) | i t. i < length M \<and> M ! i = EvCreateCall 0 \<and> t = creates (take (Suc i) M)} \<union>
     {(a, (0, Suc i)) | a i. i < length M \<and> M ! i \<noteq> EvCreateCall 0 \<and> fst a \<le> creates (take i M) \<and> (fst a = 0 \<longrightarrow> snd a \<le> i)}"

lemma fork_edges_snoc: "fork_edges M \<subseteq> fork_edges (M @ [e])"
  unfolding fork_edges_def by (force simp: nth_append)

abbreviation main_clocks :: "event list \<Rightarrow> event list" where
  "main_clocks es \<equiv> filter clock_change (by_thread 0 es)"

lemma creates_main_clocks: "creates (main_clocks es) = creates es"
  unfolding creates_def filter_filter by (rule arg_cong [where f = length], rule filter_cong) auto

text \<open>The clocks a thread has, with those of its start.\<close>

definition own_clocks :: "nat \<Rightarrow> event list \<Rightarrow> nat" where
  "own_clocks t es = length (filter clock_change (by_thread t es)) + (if t = 0 then 1 else 0)"

lemma own_clocks_snoc [simp]:
  "own_clocks t (es @ [e]) = (if clock_change e \<and> thread_of e = Some t then Suc (own_clocks t es) else own_clocks t es)"
  by (simp add: own_clocks_def)

lemma own_clocks_0: "own_clocks 0 es = Suc (length (main_clocks es))"
  by (simp add: own_clocks_def)

definition epochs_forked :: "event list \<Rightarrow> clock_state \<Rightarrow> bool" where
  "epochs_forked ps s \<longleftrightarrow>
     (\<forall>t. length (cs_clocks s t) = own_clocks t ps) \<and>
     (\<forall>t. 0 < t \<and> cs_clocks s t \<noteq> [] \<longrightarrow> t \<le> creates ps) \<and>
     (0 < creates ps \<longrightarrow> cs_has_creator s \<and> (\<exists>i < length (main_clocks ps). gh_creator s = (0, i) \<and>
        main_clocks ps ! i = EvCreateCall 0 \<and> creates (take (Suc i) (main_clocks ps)) = creates ps)) \<and>
     (\<forall>t x. gh_exit s t = Some x \<longrightarrow> x < own_clocks t ps) \<and>
     gh_edges s \<subseteq> fork_edges (main_clocks ps)"

lemma epochs_forked_step:
  assumes ok: "epochs_forked ps s" and fk: "forked (ps @ [e])" and start: "\<And>t. e = EvThreadStart t \<Longrightarrow> creates ps = t"
    and en: "clock_enabled (clock_event_of e h) s"
  shows "epochs_forked (ps @ [e]) (clock_step (clock_event_of e h) s)"
proof (cases "clock_change e")
  case False
  then have "e \<noteq> EvCreateCall 0" by auto
  with False ok show ?thesis by (simp add: clock_change_none epochs_forked_def)
next
  case True
  let ?M = "main_clocks ps"
  obtain t where t: "thread_of e = Some t" using forked_next(2) [OF fk] by auto
  have grow: "gh_edges s \<subseteq> fork_edges (?M @ [e])"
    using ok by (intro subset_trans [OF _ fork_edges_snoc]) (simp add: epochs_forked_def)
  have len: "length (cs_clocks s 0) = Suc (length ?M)" using ok by (simp add: epochs_forked_def own_clocks_0)
  have exits: "x < own_clocks t (ps @ [e])" if "gh_exit s t = Some x" for t x
    using ok that by (auto simp: epochs_forked_def less_SucI)
  note exits = exits exits [of 0, unfolded own_clocks_0]
  have other: "e \<in> {EvThreadStart t, EvThreadExit t}" if "t \<noteq> 0" using forked_next(1) [OF fk True t that] .
  show ?thesis
    using True t
  proof (cases rule: clock_change_cases [where g = h])
    case 1
    then have "t = 0" using other by (cases "t = 0") auto
    with 1 ok grow len exits show ?thesis
      by (auto simp: epochs_forked_def Let_def creates_main_clocks simp del: filter_filter intro!: exI [of _ "length ?M"])
  next
    case 2
    then have t: "0 < t" "creates ps = t" "cs_clocks s t = []"
      using start [OF 2(1)] forked_next(3) [OF fk] en by auto
    obtain i where i: "cs_has_creator s" "i < length ?M" "gh_creator s = (0, i)" "?M ! i = EvCreateCall 0"
        "creates (take (Suc i) ?M) = creates ps"
      using ok t(1,2) by (auto simp: epochs_forked_def)
    then have edge: "(gh_creator s, (t, 0)) \<in> fork_edges ?M" using t(2) by (auto simp: fork_edges_def)
    have "own_clocks t ps = 0" using ok t(3) by (metis epochs_forked_def list.size(3))
    with 2 ok t i exits edge show ?thesis by (auto simp: epochs_forked_def Let_def simp del: filter_filter)
  next
    case 3
    then show ?thesis
      using ok grow en exits by (cases "t = 0") (auto simp: epochs_forked_def Let_def nth_append simp del: filter_filter)
  next
    case (4 pid)
    then have "t = 0" using other by (cases "t = 0") auto
    let ?e = "sm_get 0 (pthread_id_to_tid h) pid"
    have edge: "((?e, x), (0, Suc (length ?M))) \<in> fork_edges (?M @ [e])" if "gh_exit s ?e = Some x" for x
    proof -
      have x: "x < length (cs_clocks s ?e)" using ok that by (simp add: epochs_forked_def)
      then have ne: "cs_clocks s ?e \<noteq> []" by (cases "cs_clocks s ?e") simp_all
      have "\<forall>t. 0 < t \<and> cs_clocks s t \<noteq> [] \<longrightarrow> t \<le> creates ps" using ok by (simp add: epochs_forked_def)
      from this [rule_format, of ?e] ne have "?e = 0 \<or> ?e \<le> creates ps" by (cases "?e = 0") simp_all
      moreover have "?e = 0 \<Longrightarrow> x \<le> length ?M" using x len by simp
      ultimately show ?thesis using 4(1) by (auto simp: fork_edges_def creates_main_clocks simp del: filter_filter)
    qed
    show ?thesis
      using 4 \<open>t = 0\<close> ok grow edge exits len
      by (auto simp: epochs_forked_def Let_def nth_append simp del: filter_filter split: option.splits)
  qed
qed

lemma epochs_forked_pool:
  assumes "pool_run pool" "hawk_run c pool (init_hawk n d u) = Inr h"
  shows "epochs_forked [] (clock_history c pool (init_hawk n d u) init_clock_state)"
proof -
  obtain sys where pool: "pool = EvThreadStart 0 # sys" "\<forall>e \<in> set sys. pool_event e \<and> \<not> clock_change e"
    using assms(1) by (auto simp: pool_run_def)
  have same: "\<forall>e \<in> set sys. pool_event e \<and> \<not> clock_change e \<Longrightarrow> clock_history c sys k s = s" for k s
    by (induction sys arbitrary: k) (auto simp: pool_event_other split: sum.splits)
  obtain k where "hawk_step c (EvThreadStart 0) (init_hawk n d u) = Inr k" using assms(2) by (auto simp: pool(1) split: if_splits)
  then show ?thesis
    by (simp add: pool(1) same [OF pool(2)] epochs_forked_def init_clock_state_def own_clocks_def Let_def)
qed

lemma run_epochs_forked:
  assumes "pool_run pool" "hawk_run c (pool @ ps) (init_hawk n d u) = Inr h" "forked ps" "length (pool @ ps) \<le> 2 ^ 62"
  shows "epochs_forked ps (clock_history c (pool @ ps) (init_hawk n d u) init_clock_state)"
  using assms(2-4)
proof (induction ps arbitrary: h rule: rev_induct)
  case Nil
  with epochs_forked_pool [OF assms(1)] show ?case by simp
next
  case (snoc e ps)
  then obtain k where k: "hawk_run c (pool @ ps) (init_hawk n d u) = Inr k" "enabled e k" "hawk_step c e k = Inr h"
    by (auto simp: hawk_run_append split: if_splits)
  have m: "hawk_inv k" "clocks_match k (clock_history c (pool @ ps) (init_hawk n d u) init_clock_state)"
    using hawk_run_clocks [OF k(1) hawk_inv_init clocks_match_init clock_inv_init, of 0] snoc.prems(3) by simp_all
  have start: "creates ps = t" if "e = EvThreadStart t" for t
    using starts_in_order [OF assms(1), of c ps t "[]" n d u h] snoc.prems(1,2) that by simp
  have IH: "epochs_forked ps (clock_history c (pool @ ps) (init_hawk n d u) init_clock_state)"
    by (rule snoc.IH [OF k(1) forked_prefix [OF snoc.prems(2)]]) (use snoc.prems(3) in simp)
  from epochs_forked_step [OF IH snoc.prems(2) start hawk_step_match(2) [OF m k(2,3)]] clock_history_snoc [OF k(1,3)]
  show ?case by simp
qed

lemma fork_epoch_at:
  assumes "pool_run pool" "hawk_run c (pool @ ps) (init_hawk n d u) = Inr h" "forked ps" "length (pool @ ps) \<le> 2 ^ 62"
  shows "epoch_of h t = script_epoch t (by_thread t ps)"
proof -
  have "clocks_match h (clock_history c (pool @ ps) (init_hawk n d u) init_clock_state)"
    using hawk_run_clocks [OF assms(2) hawk_inv_init clocks_match_init clock_inv_init, of 0] assms(4) by simp
  with run_epochs_forked [OF assms] show ?thesis
    by (cases "t = 0") (simp_all add: epoch_of_def script_epoch_def epochs_forked_def clocks_match_def own_clocks_def)
qed

section \<open>Phases\<close>

text \<open>
  After the first \<open>k\<close> creations and joins: the epoch of the main thread, and the first epochs of the threads it
  has created since its last join.
\<close>

definition settled :: "event list \<Rightarrow> nat" where
  "settled M = creates (rev (dropWhile (\<lambda>e. e = EvCreateCall 0) (rev M)))"

definition in_phase :: "event list \<Rightarrow> nat \<Rightarrow> epoch \<Rightarrow> bool" where
  "in_phase M k e \<longleftrightarrow>
     (case e of (t, j) \<Rightarrow> if t = 0 then j = k else settled (take k M) < t \<and> t \<le> creates (take k M) \<and> j = 0)"

lemma settled_le: "settled M \<le> creates M"
proof -
  have "M = rev (dropWhile (\<lambda>e. e = EvCreateCall 0) (rev M)) @ rev (takeWhile (\<lambda>e. e = EvCreateCall 0) (rev M))"
    by (metis rev_append rev_rev_ident takeWhile_dropWhile_id)
  then show ?thesis unfolding settled_def by (metis creates_simps(3) le_add1)
qed

lemma settled_join:
  assumes "i < length M" "M ! i \<noteq> EvCreateCall 0"
  shows "creates (take i M) \<le> settled M"
  using assms
proof (induction M rule: rev_induct)
  case (snoc e M)
  show ?case
  proof (cases "i = length M")
    case True
    with snoc.prems(2) show ?thesis by (simp add: settled_def)
  next
    case False
    with snoc.prems have i: "i < length M" "M ! i \<noteq> EvCreateCall 0" by (auto simp: nth_append)
    show ?thesis
    proof (cases "e = EvCreateCall 0")
      case True
      then have "settled (M @ [e]) = settled M" by (simp add: settled_def)
      with snoc.IH [OF i] i(1) show ?thesis by simp
    next
      case False
      then have "settled (M @ [e]) = creates M" by (simp add: settled_def)
      with creates_mono [of i "length M" M] i(1) show ?thesis by simp
    qed
  qed
qed simp

lemma phase_unordered:
  assumes E: "E \<subseteq> fork_edges M" and a: "in_phase M k a" and b: "in_phase M k b" and ne: "a \<noteq> b" and k: "k \<le> length M"
  shows "(a, b) \<notin> happens_before clks E"
proof
  assume "(a, b) \<in> happens_before clks E"
  then have path: "(a, b) \<in> (program_order clks \<union> E)\<^sup>*" by (simp add: happens_before_def)
  define K where "K = take k M"
  have "length K = k" using k by (simp add: K_def)
  have K: "take i M = take i K" "M ! i = K ! i" if "i < k" for i using that by (simp_all add: K_def min_absorb1)
  define low where "low n = {(0, i) | i. i \<le> n} \<union> {(t, j) | t j. 0 < t \<and> t \<le> settled K}" for n :: nat
  have pred: "(\<exists>t i. x = (t, i) \<and> y = (t, Suc i)) \<or> (x, y) \<in> fork_edges M" if "(x, y) \<in> program_order clks \<union> E" for x y
    using that E by (auto simp: program_order_def)
  have low: "x \<in> low n" if xy: "(x, y) \<in> program_order clks \<union> E" "y \<in> low n" and n: "n \<le> k"
      "\<And>t i. i < length M \<Longrightarrow> M ! i = EvCreateCall 0 \<Longrightarrow> creates (take (Suc i) M) \<le> settled K \<Longrightarrow> i \<le> n" for x y n
  proof -
    from pred [OF xy(1)] consider t i where "x = (t, i)" "y = (t, Suc i)"
      | i t where "x = (0, i)" "y = (t, 0)" "i < length M" "M ! i = EvCreateCall 0" "t = creates (take (Suc i) M)"
      | i where "y = (0, Suc i)" "i < length M" "M ! i \<noteq> EvCreateCall 0" "fst x \<le> creates (take i M)" "fst x = 0 \<longrightarrow> snd x \<le> i"
      unfolding fork_edges_def Un_iff mem_Collect_eq prod.inject by (elim disjE exE conjE) simp_all
    then show ?thesis
    proof cases
      case 1
      with xy(2) show ?thesis by (auto simp: low_def)
    next
      case 2
      have "0 < t" using 2(3-5) by (simp add: take_Suc_conv_app_nth)
      with 2 xy(2) n(2) show ?thesis by (auto simp: low_def)
    next
      case 3
      have i: "i < k" "Suc i \<le> n" using 3(1) xy(2) n(1) by (auto simp: low_def)
      have "creates (take i M) \<le> settled K"
        using settled_join [of i K] i(1) 3(3) K [OF i(1)] \<open>length K = k\<close> by simp
      with 3(4,5) i show ?thesis by (cases x) (auto simp: low_def)
    qed
  qed
  have early: "i < k" if "i < length M" "M ! i = EvCreateCall 0" "creates (take (Suc i) M) \<le> creates K" for i
  proof (rule ccontr)
    assume "\<not> i < k"
    then have "creates K \<le> creates (take i M)" unfolding K_def by (intro creates_mono) simp
    with that show False by (simp add: take_Suc_conv_app_nth)
  qed
  obtain s j where b': "b = (s, j)" by fastforce
  show False
  proof (cases "s = 0")
    case True
    with b b' have "b \<in> low k" by (simp add: in_phase_def low_def)
    from predecessors_closed [OF path this low [where n = k]] early settled_le [of K]
    have "a \<in> low k" by fastforce
    with a ne b b' True show False by (auto simp: in_phase_def low_def K_def split: if_splits)
  next
    case False
    with b b' have s: "settled K < s" "s \<le> creates K" "j = 0" by (auto simp: in_phase_def K_def)
    define i0 where "i0 = (LEAST i. s \<le> creates (take (Suc i) M))"
    have "\<exists>i. s \<le> creates (take (Suc i) M)" using s(2) creates_mono [of k "Suc k" M] by (intro exI [of _ k]) (simp add: K_def)
    then have i0: "s \<le> creates (take (Suc i0) M)" unfolding i0_def by (rule LeastI_ex)
    have before: "creates (take i0 M) < s"
    proof (cases i0)
      case (Suc m)
      then have "\<not> s \<le> creates (take (Suc m) M)" unfolding i0_def by (metis lessI not_less_Least)
      with Suc show ?thesis by simp
    qed (use False in simp)
    then have i0M: "i0 < length M" "M ! i0 = EvCreateCall 0" "creates (take (Suc i0) M) = s"
      using i0 by (cases "i0 < length M"; simp add: take_Suc_conv_app_nth split: if_splits)+
    have "i0 < k" using early [OF i0M(1,2)] i0M(3) s(2) by simp
    have mono: "i \<le> i0" if "i < length M" "M ! i = EvCreateCall 0" "creates (take (Suc i) M) \<le> s" for i
    proof (rule ccontr)
      assume "\<not> i \<le> i0"
      then have "creates (take (Suc i0) M) \<le> creates (take i M)" by (intro creates_mono) simp
      with i0M(3) that show False by (simp add: take_Suc_conv_app_nth)
    qed
    have "x \<in> insert b (low i0)" if xy: "(x, y) \<in> program_order clks \<union> E" "y \<in> insert b (low i0)" for x y
    proof (cases "y = b")
      case True
      from pred [OF xy(1)] have "\<exists>i. x = (0, i) \<and> i < length M \<and> M ! i = EvCreateCall 0 \<and> creates (take (Suc i) M) = s"
        using True b' s(3) False by (auto simp: fork_edges_def)
      with mono show ?thesis by (auto simp: low_def)
    next
      case False
      then have "y \<in> low i0" using xy(2) by simp
      from low [OF xy(1) this] mono s(1) \<open>i0 < k\<close> show ?thesis by fastforce
    qed
    from predecessors_closed [OF path insertI1 this] have "a \<in> insert b (low i0)" .
    with a ne \<open>i0 < k\<close> show False by (auto simp: in_phase_def low_def K_def split: if_splits)
  qed
qed

section \<open>Schedules of a family of scripts\<close>

definition schedules :: "(nat \<Rightarrow> event list) \<Rightarrow> event list set" where
  "schedules script = {zs. (\<forall>e \<in> set zs. thread_of e \<noteq> None) \<and> (\<forall>t. by_thread t zs = script t) \<and> starts_ok 0 zs}"

text \<open>The main thread and \<open>N\<close> threads, each doing its own callbacks.\<close>

definition fork_program :: "nat \<Rightarrow> (nat \<Rightarrow> event list) \<Rightarrow> bool" where
  "fork_program N script \<longleftrightarrow>
     (\<forall>t. filter map_event (script t) = []) \<and> (\<forall>t > N. script t = []) \<and>
     EvThreadStart 0 \<notin> set (script 0) \<and> paired True (script 0) \<and>
     (\<forall>t > 0. \<forall>e \<in> set (filter clock_change (script t)). e \<in> {EvThreadStart t, EvThreadExit t})"

lemma schedules_threads: "zs \<in> schedules script \<Longrightarrow> by_thread t zs = script t"
  by (simp add: schedules_def)

lemma schedules_event:
  assumes "zs \<in> schedules script" "e \<in> set zs"
  obtains t where "thread_of e = Some t" "e \<in> set (script t)"
proof -
  from assms obtain t where t: "thread_of e = Some t" by (auto simp: schedules_def)
  with assms(2) have "e \<in> set (by_thread t zs)" by simp
  with t schedules_threads [OF assms(1)] that show thesis by metis
qed

lemma schedules_forked:
  assumes zs: "zs \<in> schedules script" and prog: "fork_program N script"
  shows "forked zs" "filter map_event zs = []" "e \<in> set zs \<Longrightarrow> thread_of e = Some t \<Longrightarrow> t \<le> N"
proof -
  show "t \<le> N" if "e \<in> set zs" "thread_of e = Some t"
  proof (rule ccontr)
    assume "\<not> t \<le> N"
    then have "by_thread t zs = []" using prog schedules_threads [OF zs, of t] by (simp add: fork_program_def)
    with that show False by (simp add: filter_empty_conv)
  qed
  show "filter map_event zs = []"
  proof -
    have "\<not> map_event e" if "e \<in> set zs" for e
      using schedules_event [OF zs that] prog by (metis (full_types) filter_empty_conv fork_program_def)
    then show ?thesis by (simp add: filter_empty_conv)
  qed
  have own: "e \<in> set (script t)" if "e \<in> set zs" "thread_of e = Some t" for e t
  proof -
    have "e \<in> set (by_thread t zs)" using that by simp
    then show ?thesis by (simp only: schedules_threads [OF zs])
  qed
  show "forked zs"
    unfolding forked_def
  proof (intro conjI ballI allI impI)
    fix e assume e: "e \<in> set zs"
    show "thread_of e \<noteq> None" using zs e by (auto simp: schedules_def)
    show "e \<noteq> EvThreadStart 0" using own [OF e, of 0] prog by (auto simp: fork_program_def)
    show "e \<in> {EvThreadStart t, EvThreadExit t}" if "clock_change e \<and> thread_of e = Some t \<and> t \<noteq> 0" for t
      using own [OF e, of t] prog that by (auto simp: fork_program_def)
  qed (use zs prog in \<open>auto simp: schedules_def fork_program_def\<close>)
qed

text \<open>What a schedule of the scripts fixes: few threads, the epochs, and that one phase is unordered.\<close>

lemma fork_context:
  assumes pool: "pool_run pool"
    and run: "hawk_run c (pool @ zs) (init_hawk k0 d u) = Inr g" and len: "length (pool @ zs) \<le> 2 ^ 16"
    and zs: "zs \<in> schedules script" and prog: "fork_program N script" and N: "N < 64"
  shows "card {t. started g t} \<le> 64" "filter map_event zs = []"
    "zs = ps @ qs \<Longrightarrow> hawk_run c (pool @ ps) (init_hawk k0 d u) = Inr h \<Longrightarrow> epoch_of h t = script_epoch t (by_thread t ps)"
    "n \<le> length (filter clock_change (script 0)) \<Longrightarrow> in_phase (filter clock_change (script 0)) n a \<Longrightarrow>
      in_phase (filter clock_change (script 0)) n b \<Longrightarrow> a \<noteq> b \<Longrightarrow>
      (a, b) \<notin> run_happens_before c (pool @ zs) (init_hawk k0 d u)"
proof -
  note fk = schedules_forked [OF zs prog]
  show "filter map_event zs = []" by (rule fk(2))
  have threads: "t \<in> {..N}" if "e \<in> set (pool @ zs)" "thread_of e = Some t" for e t
    using that pool_run_events [OF pool] pool_event_calm(1) fk(3) by (fastforce simp: list_all_iff)
  have card: "card {..N} \<le> 64" using N by simp
  show "card {t. started g t} \<le> 64" by (rule short_run(2) [OF run len threads finite_atMost card])
  have len62: "length (pool @ zs) \<le> 2 ^ 62" using len by simp
  show "epoch_of h t = script_epoch t (by_thread t ps)"
    if "zs = ps @ qs" "hawk_run c (pool @ ps) (init_hawk k0 d u) = Inr h"
    using fork_epoch_at [OF pool that(2) forked_prefix, of qs t] fk(1) len62 that(1) by simp
  have edges: "gh_edges (clock_history c (pool @ zs) (init_hawk k0 d u) init_clock_state) \<subseteq> fork_edges (filter clock_change (script 0))"
    using run_epochs_forked [OF pool run fk(1) len62] schedules_threads [OF zs] by (simp add: epochs_forked_def)
  show "(a, b) \<notin> run_happens_before c (pool @ zs) (init_hawk k0 d u)"
    if "n \<le> length (filter clock_change (script 0))" "in_phase (filter clock_change (script 0)) n a"
      "in_phase (filter clock_change (script 0)) n b" "a \<noteq> b"
    using phase_unordered [OF edges that(2-4,1)] by (simp add: run_happens_before_def Let_def)
qed

text \<open>Two accesses of one phase that race in the scripts are reported in every schedule.\<close>

lemma fork_reported:
  assumes pool: "pool_run pool" "hawk_run c pool (init_hawk 0 d u) = Inr k" "\<not> found_alloc (pm k)"
    and run: "hawk_run c (pool @ zs) (init_hawk 0 d u) = Inr g" and len: "length (pool @ zs) \<le> 2 ^ 16"
    and zs: "zs \<in> schedules script" and prog: "fork_program N script" and N: "N < 64"
    and reader: "script r = x1 @ EvRead r lctxt la lsz la2 # x2"
    and writer: "script w = y1 @ EvWrite w ctxt a sz STORE # y2 @ F # y3"
    and fence: "fence_event (\<lambda>a sz. IsPMAddress a sz (pm k)) w ctxt' F"
    and phase: "n \<le> length (filter clock_change (script 0))"
      "in_phase (filter clock_change (script 0)) n (script_epoch r x1)"
      "in_phase (filter clock_change (script 0)) n (script_epoch w (y1 @ y2))"
    and racy: "racy_access u (\<lambda>a sz. IsPMAddress a sz (pm k)) r x1 la lsz w y1 (EvWrite w ctxt a sz STORE) y2 b"
    and ne: "w \<noteq> r"
  shows "\<exists>wt ft lb. reported (CheckPMRaces g) True (wt, ft, True) lb \<and>
    trace_is (bt_heap g) wt (ctxt # rev (fold (stack_step w) y1 [])) \<and>
    trace_is (bt_heap g) ft (ctxt' # rev (fold (stack_step w) (y1 @ y2) [])) \<and>
    trace_is (bt_heap g) lb (lctxt # rev (fold (stack_step r) x1 []))"
proof -
  note ctxt = fork_context [OF pool(1) run len zs prog N]
  have ne': "script_epoch r x1 \<noteq> script_epoch w (y1 @ y2)" using ne by (simp add: script_epoch_def)
  note unordered = ctxt(4) [OF phase(1,3,2) ne' [symmetric]] ctxt(4) [OF phase(1-3) ne']
  note scripts = reader [folded schedules_threads [OF zs]] writer [folded schedules_threads [OF zs]]
  have epochs: "epoch_of h t = script_epoch t (by_thread t ps)"
    if "zs = ps @ qs" "hawk_run c (pool @ ps) (init_hawk 0 d u) = Inr h" "t \<in> {r, w}" for ps qs h t
    by (rule ctxt(3) [OF that(1,2)])
  show ?thesis
    by (rule scripts_reported [OF pool(1,2) run len ctxt(1,2) pool(3) scripts fence epochs unordered racy ne])
qed

text \<open>A write of the phase that is never persisted is reported too, when the tool looks for lost writes.\<close>

lemma fork_lost_reported:
  assumes pool: "pool_run pool" "hawk_run c pool (init_hawk 0 d True) = Inr k" "\<not> found_alloc (pm k)"
    and run: "hawk_run c (pool @ zs) (init_hawk 0 d True) = Inr g" and len: "length (pool @ zs) \<le> 2 ^ 16"
    and zs: "zs \<in> schedules script" and prog: "fork_program N script" and N: "N < 64"
    and reader: "script r = x1 @ EvRead r lctxt la lsz la2 # x2"
    and writer: "script w = y1 @ EvWrite w ctxt a sz STORE # y2 @ EvThreadExit w # y3"
    and phase: "n \<le> length (filter clock_change (script 0))"
      "in_phase (filter clock_change (script 0)) n (script_epoch r x1)"
      "in_phase (filter clock_change (script 0)) n (script_epoch w (y1 @ y2))"
    and lost: "lost_access fl (\<lambda>a sz. IsPMAddress a sz (pm k)) r x1 la lsz w y1 (EvWrite w ctxt a sz STORE) y2 b"
    and ne: "w \<noteq> r"
  shows "\<exists>wt lb. reported (CheckPMRaces g) False (wt, None, fl) lb \<and>
    trace_is (bt_heap g) wt (ctxt # rev (fold (stack_step w) y1 [])) \<and>
    trace_is (bt_heap g) lb (lctxt # rev (fold (stack_step r) x1 []))"
proof -
  note ctxt = fork_context [OF pool(1) run len zs prog N]
  have ne': "script_epoch r x1 \<noteq> script_epoch w (y1 @ y2)" using ne by (simp add: script_epoch_def)
  note unordered = ctxt(4) [OF phase(1,3,2) ne' [symmetric]] ctxt(4) [OF phase(1-3) ne']
  note scripts = reader [folded schedules_threads [OF zs]] writer [folded schedules_threads [OF zs]]
  have epochs: "epoch_of h t = script_epoch t (by_thread t ps)"
    if "zs = ps @ qs" "hawk_run c (pool @ ps) (init_hawk 0 d True) = Inr h" "t \<in> {r, w}" for ps qs h t
    by (rule ctxt(3) [OF that(1,2)])
  have off: "let_through h t x" if "hawk_run c (pool @ ps) (init_hawk 0 d True) = Inr h" for ps h t x
    by (rule let_through_off [OF hawk_run_reachable [OF that reachable_init]])
  show ?thesis
    by (rule scripts_lost_through [OF pool(1,2) run len ctxt(1,2) pool(3) scripts _ _ _ unordered lost ne])
      ((rule epochs, assumption+) | (rule off, assumption))+
qed

end
