(* ===== verification/ForkExamples.thy ===== *)
theory ForkExamples
  imports Examples Forks
begin

text \<open>
  The example programs with several workers: \<^verbatim>\<open>adq_rel.c\<close>, whose two workers race unless a configuration
  makes both their functions acquire and release functions, and
  \<^verbatim>\<open>two_bugs.c\<close>, both of whose workers race with the main thread. As in \<^verbatim>\<open>Examples\<close> a thread is the
  list of its callbacks; a program is the family of the scripts of its threads, and a run an
  interleaving of them (\<open>schedules\<close>) after the pool is mapped.
\<close>

section \<open>What library code leaves alone\<close>

lemma library_forks [simp]:
  assumes "library_ok p lib"
  shows "paired b (lib t n i)" "idle_after b (lib t n i) = b" "EvThreadStart s \<notin> set (lib t n i)"
proof -
  have ev: "library_event p t e" if "e \<in> set (lib t n i)" for e using assms that by (simp add: library_ok_def)
  have "\<not> creation e \<and> e \<noteq> EvThreadStart s" if "library_event p t e" for e
    using that by (cases e) auto
  note facts = this [OF ev]
  then have "filter creation (lib t n i) = []" by (simp add: filter_empty_conv)
  from paired_none [OF this] show "paired b (lib t n i)" "idle_after b (lib t n i) = b" by auto
  show "EvThreadStart s \<notin> set (lib t n i)" using facts by blast
qed

text \<open>A racy write of the first integer of a line, flushed after it.\<close>

lemma racy_int:
  assumes line: "unat addr mod 64 = 0" and pm: "p addr 4"
    and before: "fold (persist_step u p w) y1 ({}, {}) = ({}, {})"
    and flushed: "fold (persist_step u p w) y2 (set (byte_range addr 4), {}) = ({}, set (byte_range addr 4))"
    and quiet: "\<forall>e \<in> set y2. \<not> accesses p e"
    and apart: "apart r x1 w y1 y2"
  shows "racy_access u p r x1 addr 4 w y1 (EvWrite w ctxt addr 4 STORE) y2 addr"
proof -
  have byte: "\<exists>i < unat (4 :: u32). addr = addr + of_nat i" by (intro exI [of _ 0]) simp
  have store: "\<exists>c a sz. EvWrite w ctxt addr 4 STORE = EvWrite w c a sz STORE \<and> sz \<le> 64 \<and> p a sz \<and> addr \<in> set (byte_range a sz)"
    using pm addr_in_range [OF line] by (intro exI conjI) (rule refl, simp_all)
  have "fold (persist_step u p w) (y1 @ EvWrite w ctxt addr 4 STORE # y2) ({}, {}) = ({}, set (byte_range addr 4))"
    using before flushed pm by (cases u) simp_all
  then show ?thesis
    unfolding racy_access_def racy_window_def
    using byte store before overwrites_accesses quiet apart pm addr_in_range [OF line] by simp
qed

lemma flushed_int:
  assumes "unat addr mod 64 = 0"
  shows "set (byte_range addr 4) - line_of addr = {}" "set (byte_range addr 4) \<inter> line_of addr = set (byte_range addr 4)"
  using aligned_int [OF assms] by auto

text \<open>The loop that joins the threads in \<open>is\<close>; its call, error message and exit are in lines \<open>n\<close> to \<open>n + 2\<close>.\<close>

fun join_all ::
  "(nat \<Rightarrow> u64) \<Rightarrow> library \<Rightarrow> nat \<Rightarrow> (nat \<Rightarrow> int) \<Rightarrow> (nat \<Rightarrow> u64) \<Rightarrow> event list \<Rightarrow> nat list \<Rightarrow> example_exit \<times> event list" where
  "join_all pc lib n joined pid rest [] = (Returned 0, rest)"
| "join_all pc lib n joined pid rest (i # is) =
     (let join = library_call pc lib 0 n [EvJoin 0 (joined i) (pid i)]
      in if joined i \<noteq> 0
         then (Exited ''pthread_join'' (-1), join @ library_call pc lib 0 (n + 1) [] @ exit_call pc lib 0 (n + 2))
         else map_prod id ((@) join) (join_all pc lib n joined pid rest is))"

section \<open>\<^verbatim>\<open>adq_rel.c\<close>\<close>

text \<open>
  What the tool makes of entering and leaving a function of the program that a configuration lists under \<^verbatim>\<open>adq_rel\<close>:
  \<open>calls\<close> is what \<^verbatim>\<open>ImageLoad\<close> has hooked in the program's image, one pair of hooks for each time the function is listed.
\<close>

definition enter_function :: "(string \<times> inserted_call) list \<Rightarrow> nat \<Rightarrow> string \<Rightarrow> event list" where
  "enter_function calls t name = map (EvAdqRelBefore t) (hook_mutexes calls TraceAdqRelBefore_fn name)"

definition leave_function :: "(string \<times> inserted_call) list \<Rightarrow> nat \<Rightarrow> string \<Rightarrow> event list" where
  "leave_function calls t name = map (EvAdqRelAfter t) (hook_mutexes calls TraceAdqRelAfter_fn name)"

text \<open>
  The scripts below describe the program under configurations that list none of its other functions, and these
  two only as acquire and release functions.
\<close>

definition adq_rel_functions :: "string list" where
  "adq_rel_functions = [''main'', ''open_pmem_pool'', ''flush'', ''fence'', ''write_value'', ''read_value'']"

definition adq_rel_configured :: "MutexConfig \<Rightarrow> bool" where
  "adq_rel_configured cfg \<longleftrightarrow>
     list_all (\<lambda>info. mf_name info \<notin> set adq_rel_functions) (adquire cfg @ release cfg @ try_adquire cfg) \<and>
     list_all (\<lambda>name. name \<in> set adq_rel_functions \<longrightarrow> name \<in> {''write_value'', ''read_value''}) (adq_rel cfg)"

definition adq_rel_write_value :: "(string \<times> inserted_call) list \<Rightarrow> (nat \<Rightarrow> u64) \<Rightarrow> nat \<Rightarrow> u64 \<Rightarrow> event list" where
  "adq_rel_write_value calls pc t addr =
     enter_function calls t ''write_value'' @
     [EvWrite t (pc 77) addr 4 STORE] @ call t (pc 78) (flush t addr 4) @ call t (pc 79) [fence t (pc 23)] @
     leave_function calls t ''write_value''"

definition adq_rel_read_value :: "(string \<times> inserted_call) list \<Rightarrow> (nat \<Rightarrow> u64) \<Rightarrow> library \<Rightarrow> nat \<Rightarrow> u64 \<Rightarrow> event list" where
  "adq_rel_read_value calls pc lib t addr =
     enter_function calls t ''read_value'' @
     [EvRead t (pc 84) addr 4 0] @ library_call pc lib t 84 [] @
     leave_function calls t ''read_value''"

text \<open>\<open>created i\<close>, \<open>pid i\<close> and \<open>joined i\<close> are what the calls for the element \<open>i\<close> of \<^verbatim>\<open>tid\<close> return.\<close>

definition adq_rel_main ::
  "pool_env \<Rightarrow> (nat \<Rightarrow> u64) \<Rightarrow> library \<Rightarrow> (nat \<Rightarrow> int) \<Rightarrow> (nat \<Rightarrow> u64) \<Rightarrow> (nat \<Rightarrow> int) \<Rightarrow> example_exit \<times> event list" where
  "adq_rel_main env pc lib created pid joined =
     (case open_pmem_pool env of
        Inl msg \<Rightarrow> (Exited msg 1, [])
      | Inr (addr, sz) \<Rightarrow>
          let create1 = library_call pc lib 0 97 [EvCreateCall 0, EvCreateReturn 0 (created 0) (pid 0)]
          in if created 0 \<noteq> 0
             then (Exited ''pthread_create'' (-1), create1 @ library_call pc lib 0 98 [] @ exit_call pc lib 0 99)
             else
               let create2 = create1 @ library_call pc lib 0 102 [EvCreateCall 0, EvCreateReturn 0 (created 1) (pid 1)]
               in if created 1 \<noteq> 0
                  then (Exited ''pthread_create'' (-1), create2 @ library_call pc lib 0 103 [] @ exit_call pc lib 0 104)
                  else map_prod id ((@) create2) (join_all pc lib 108 joined pid [] [0, 1]))"

text \<open>The threads: a creation that fails creates none, and ends the program.\<close>

definition worker_threads ::
  "pool_env \<Rightarrow> library \<Rightarrow> (nat \<Rightarrow> int) \<Rightarrow> event list \<Rightarrow> (nat \<Rightarrow> u64 \<Rightarrow> event list) list \<Rightarrow> nat \<Rightarrow> event list" where
  "worker_threads env lib created main workers t =
     (if t = 0 then main
      else case open_pmem_pool env of
        Inl msg \<Rightarrow> []
      | Inr (addr, sz) \<Rightarrow>
          if t \<le> length workers \<and> list_all (\<lambda>i. created i = 0) [0..<t] then thread_run lib t ((workers ! (t - 1)) t addr) else [])"

definition adq_rel_runs ::
  "(string \<times> inserted_call) list \<Rightarrow> event list \<Rightarrow> pool_env \<Rightarrow> (nat \<Rightarrow> u64) \<Rightarrow> library \<Rightarrow> (nat \<Rightarrow> int) \<Rightarrow> (nat \<Rightarrow> u64) \<Rightarrow> (nat \<Rightarrow> int) \<Rightarrow> event list set" where
  "adq_rel_runs calls pool env pc lib created pid joined =
     (@) pool ` schedules (worker_threads env lib created (main_thread lib (adq_rel_main env pc lib created pid joined))
       [adq_rel_write_value calls pc, adq_rel_read_value calls pc lib])"

section \<open>\<^verbatim>\<open>two_bugs.c\<close>\<close>

definition two_bugs_write_value :: "(nat \<Rightarrow> u64) \<Rightarrow> library \<Rightarrow> u64 \<Rightarrow> nat \<Rightarrow> u64 \<Rightarrow> event list" where
  "two_bugs_write_value pc lib lock t addr =
     library_call pc lib t 78 [EvLock t lock] @
     [EvWrite t (pc 79) addr 4 STORE] @
     call t (pc 80) (flush t addr 4) @
     library_call pc lib t 81 [EvUnlock t lock] @
     call t (pc 83) [fence t (pc 23)]"

definition two_bugs_write_value_2 :: "(nat \<Rightarrow> u64) \<Rightarrow> library \<Rightarrow> u64 \<Rightarrow> nat \<Rightarrow> u64 \<Rightarrow> event list" where
  "two_bugs_write_value_2 pc lib lock t addr =
     library_call pc lib t 88 [EvLock t lock] @
     [EvWrite t (pc 89) addr 4 STORE] @
     call t (pc 90) (flush t addr 4) @
     library_call pc lib t 91 [EvUnlock t lock] @
     call t (pc 93) [fence t (pc 23)]"

text \<open>Both creations store into the same \<^verbatim>\<open>tid\<close>, so the join is of the second thread.\<close>

definition two_bugs_main ::
  "pool_env \<Rightarrow> (nat \<Rightarrow> u64) \<Rightarrow> library \<Rightarrow> u64 \<Rightarrow> (nat \<Rightarrow> int) \<Rightarrow> (nat \<Rightarrow> u64) \<Rightarrow> int \<Rightarrow> example_exit \<times> event list" where
  "two_bugs_main env pc lib lock created pid joined =
     (case open_pmem_pool env of
        Inl msg \<Rightarrow> (Exited msg 1, [])
      | Inr (addr, sz) \<Rightarrow>
          let create1 = library_call pc lib 0 103 [] @
            library_call pc lib 0 107 [EvCreateCall 0, EvCreateReturn 0 (created 0) (pid 0)]
          in if created 0 \<noteq> 0
             then (Exited ''pthread_create'' (-1), create1 @ library_call pc lib 0 108 [] @ exit_call pc lib 0 109)
             else
               let create2 = create1 @ library_call pc lib 0 112 [EvCreateCall 0, EvCreateReturn 0 (created 1) (pid 1)]
               in if created 1 \<noteq> 0
                  then (Exited ''pthread_create'' (-1), create2 @ library_call pc lib 0 113 [] @ exit_call pc lib 0 114)
                  else
                    let run = create2 @
                      library_call pc lib 0 117 [EvLock 0 lock] @
                      [EvRead 0 (pc 118) addr 4 0] @ library_call pc lib 0 118 [] @
                      library_call pc lib 0 119 [EvUnlock 0 lock] @
                      library_call pc lib 0 121 [EvJoin 0 joined (pid 1)]
                    in if joined \<noteq> 0
                       then (Exited ''pthread_join'' (-1), run @ library_call pc lib 0 122 [] @ exit_call pc lib 0 123)
                       else (Returned 0, run @ library_call pc lib 0 126 []))"

text \<open>
  So the first worker is never joined, and the end of the process may cut it off: it gets to make \<open>k\<close> of its callbacks,
  and \<open>ended\<close> says whether the tool is told of its end.
\<close>

definition cut_off :: "nat \<Rightarrow> bool \<Rightarrow> event list \<Rightarrow> event list" where
  "cut_off k ended es = (if es = [] then [] else take k (butlast es) @ (if ended then [last es] else []))"

definition two_bugs_threads ::
  "pool_env \<Rightarrow> (nat \<Rightarrow> u64) \<Rightarrow> library \<Rightarrow> u64 \<Rightarrow> (nat \<Rightarrow> int) \<Rightarrow> (nat \<Rightarrow> u64) \<Rightarrow> int \<Rightarrow> nat \<Rightarrow> bool \<Rightarrow> nat \<Rightarrow> event list" where
  "two_bugs_threads env pc lib lock created pid joined k ended t =
     (let es = worker_threads env lib created (main_thread lib (two_bugs_main env pc lib lock created pid joined))
        [two_bugs_write_value pc lib lock, two_bugs_write_value_2 pc lib lock] t
      in if t = 1 then cut_off k ended es else es)"

definition two_bugs_runs ::
  "event list \<Rightarrow> pool_env \<Rightarrow> (nat \<Rightarrow> u64) \<Rightarrow> library \<Rightarrow> u64 \<Rightarrow> (nat \<Rightarrow> int) \<Rightarrow> (nat \<Rightarrow> u64) \<Rightarrow> int \<Rightarrow> nat \<Rightarrow> bool \<Rightarrow> event list set" where
  "two_bugs_runs pool env pc lib lock created pid joined k ended =
     (@) pool ` schedules (two_bugs_threads env pc lib lock created pid joined k ended)"

section \<open>The programs as forks\<close>

text \<open>What the script of a main thread has to satisfy.\<close>

definition main_ok :: "event list \<Rightarrow> bool" where
  "main_ok es \<longleftrightarrow> filter map_event es = [] \<and> EvThreadStart 0 \<notin> set es \<and> paired True es"

lemma worker_threads_fork:
  assumes lib: "library_ok p lib" and main: "main_ok main"
    and workers: "\<forall>f \<in> set workers. \<forall>t addr. filter map_event (f t addr) = [] \<and> filter clock_change (f t addr) = []"
  shows "fork_program (length workers) (worker_threads env lib created main workers)"
proof -
  have w: "filter map_event (thread_run lib t ((workers ! (t - 1)) t addr)) = [] \<and>
      filter clock_change (thread_run lib t ((workers ! (t - 1)) t addr)) = [EvThreadStart t, EvThreadExit t]"
    if "0 < t" "t \<le> length workers" for t addr
  proof -
    have "workers ! (t - 1) \<in> set workers" using that by simp
    with workers library_facts(2,4) [OF lib] show ?thesis by (simp add: thread_run_def)
  qed
  show ?thesis
    using main w by (auto simp: fork_program_def main_ok_def worker_threads_def split: sum.splits simp del: set_filter)
qed

lemma fork_of_two:
  assumes "library_ok p lib" "main_ok main"
    and "\<forall>f \<in> set [f1, f2]. \<forall>t addr. filter map_event (f t addr) = [] \<and> filter clock_change (f t addr) = []"
  shows "fork_program 2 (worker_threads env lib created main [f1, f2])"
  using worker_threads_fork [OF assms] by (simp add: numeral_2_eq_2)

lemma join_all_ok:
  assumes lib: "library_ok p lib" and rest: "filter map_event rest = []" "EvThreadStart 0 \<notin> set rest" "paired b rest"
  shows "filter map_event (snd (join_all pc lib n joined pid rest is)) = [] \<and>
    EvThreadStart 0 \<notin> set (snd (join_all pc lib n joined pid rest is)) \<and> paired b (snd (join_all pc lib n joined pid rest is))"
  by (induction "is")
    (simp_all add: Let_def library_call_def call_def exit_call_def rest library_facts(4) [OF lib] library_forks [OF lib])

lemma adq_rel_main_ok:
  assumes "library_ok p lib"
  shows "main_ok (main_thread lib (adq_rel_main env pc lib created pid joined))"
proof -
  have join: "filter map_event (snd (join_all pc lib 108 joined pid [] [0, 1])) = [] \<and>
      EvThreadStart 0 \<notin> set (snd (join_all pc lib 108 joined pid [] [0, 1])) \<and> paired True (snd (join_all pc lib 108 joined pid [] [0, 1]))"
    by (rule join_all_ok [OF assms]) simp_all
  show ?thesis
    using library_facts [OF assms] library_forks [OF assms] join
    by (simp add: main_ok_def adq_rel_main_def script_simps Let_def del: join_all.simps split: sum.split prod.split)
qed

lemma two_bugs_main_ok:
  assumes "library_ok p lib"
  shows "main_ok (main_thread lib (two_bugs_main env pc lib lock created pid joined))"
  using library_facts [OF assms] library_forks [OF assms]
  by (simp add: main_ok_def two_bugs_main_def script_simps Let_def split: sum.split prod.split)

lemma adq_rel_fork:
  assumes "library_ok p lib"
  shows "fork_program 2 (worker_threads env lib created (main_thread lib (adq_rel_main env pc lib created pid joined))
    [adq_rel_write_value calls pc, adq_rel_read_value calls pc lib])"
proof -
  have "filter map_event (f t addr) = [] \<and> filter clock_change (f t addr) = []" if "f \<in> set [adq_rel_write_value calls pc, adq_rel_read_value calls pc lib]" for f t addr
    using that library_facts [OF assms] by (auto simp: adq_rel_write_value_def adq_rel_read_value_def enter_function_def leave_function_def filter_empty_conv script_simps)
  then show ?thesis by (intro fork_of_two [OF assms] adq_rel_main_ok [OF assms]) blast
qed

lemma set_cut_off: "set (cut_off k ended es) \<subseteq> set es"
  by (auto simp: cut_off_def dest!: in_set_takeD in_set_butlastD)

lemma fork_program_cut_off:
  assumes "fork_program N script" "t0 \<noteq> 0"
  shows "fork_program N (\<lambda>t. if t = t0 then cut_off k ended (script t) else script t)"
proof -
  have "filter map_event (cut_off k ended (script t0)) = []"
    using assms(1) set_cut_off [of k ended "script t0"] by (auto simp: fork_program_def filter_empty_conv)
  moreover have "cut_off k ended [] = []" by (simp add: cut_off_def)
  moreover have "e \<in> {EvThreadStart t0, EvThreadExit t0}" if "e \<in> set (cut_off k ended (script t0))" "clock_change e" for e
    using assms that(2) subsetD [OF set_cut_off that(1)] unfolding fork_program_def by simp
  ultimately show ?thesis using assms by (auto simp: fork_program_def)
qed

lemma two_bugs_fork:
  assumes "library_ok p lib"
  shows "fork_program 2 (two_bugs_threads env pc lib lock created pid joined k ended)"
proof -
  have "filter map_event (f t addr) = [] \<and> filter clock_change (f t addr) = []" if "f \<in> set [two_bugs_write_value pc lib lock, two_bugs_write_value_2 pc lib lock]" for f t addr
    using that library_facts [OF assms] by (auto simp: two_bugs_write_value_def two_bugs_write_value_2_def script_simps)
  then have "fork_program 2 (worker_threads env lib created (main_thread lib (two_bugs_main env pc lib lock created pid joined))
    [two_bugs_write_value pc lib lock, two_bugs_write_value_2 pc lib lock])"
    by (intro fork_of_two [OF assms] two_bugs_main_ok [OF assms]) blast
  from fork_program_cut_off [OF this, of 1] show ?thesis by (simp add: two_bugs_threads_def [abs_def] Let_def if_distrib cong: if_cong)
qed

text \<open>After two creations the first epochs of both workers and the main thread's are in one phase.\<close>

lemma phase_two:
  assumes "filter clock_change main = EvCreateCall 0 # EvCreateCall 0 # js"
  shows "2 \<le> length (filter clock_change main)" "in_phase (filter clock_change main) 2 (t, j) \<longleftrightarrow>
    (t, j) \<in> {(0, 2), (1, 0), (2, 0)}"
  unfolding assms by (auto simp: in_phase_def settled_def numeral_2_eq_2)

lemma worker_scripts:
  assumes "open_pmem_pool env = Inr (addr, sz)"
  shows "worker_threads env lib (\<lambda>_. 0) main [f1, f2] 0 = main"
    "worker_threads env lib (\<lambda>_. 0) main [f1, f2] 1 = thread_run lib 1 (f1 1 addr)"
    "worker_threads env lib (\<lambda>_. 0) main [f1, f2] 2 = thread_run lib 2 (f2 2 addr)"
  by (simp_all add: worker_threads_def assms list_all_iff)

section \<open>The race of \<^verbatim>\<open>adq_rel.c\<close>\<close>

text \<open>What the hooks of acquire and release functions do to a script.\<close>

lemma enter_function_facts:
  "filter clock_change (enter_function calls t name) = []" "filter map_event (enter_function calls t name) = []"
  "fold (stack_step t') (enter_function calls t name) st = st"
  "fold (persist_step u p t') (enter_function calls t name) s = s"
  "special_only t (enter_function calls t name)"
  "specials t (enter_function calls t name) = set (hook_mutexes calls TraceAdqRelBefore_fn name)"
proof -
  have "fold (stack_step t') (map (EvAdqRelBefore t) xs) st = st" for xs by (induction xs) simp_all
  then show "fold (stack_step t') (enter_function calls t name) st = st" by (simp add: enter_function_def)
  have "fold (persist_step u p t') (map (EvAdqRelBefore t) xs) s = s" for xs by (induction xs) (cases s; simp)+
  then show "fold (persist_step u p t') (enter_function calls t name) s = s" by (simp add: enter_function_def)
qed (auto simp: enter_function_def filter_empty_conv special_only_def specials_def)

lemma leave_function_facts:
  "fold (persist_step u p t') (leave_function calls t name) s = s" "special_only t (leave_function calls t name)"
proof -
  have "fold (persist_step u p t') (map (EvAdqRelAfter t) xs) s = s" for xs by (induction xs) (cases s; simp)+
  then show "fold (persist_step u p t') (leave_function calls t name) s = s" by (simp add: leave_function_def)
qed (auto simp: leave_function_def special_only_def)

lemma special_only_simps:
  "special_only t []" "special_only t (xs @ ys) \<longleftrightarrow> special_only t xs \<and> special_only t ys"
  "\<forall>m. \<not> concerns t m e \<Longrightarrow> special_only t (e # es) \<longleftrightarrow> special_only t es"
  "\<forall>m. filter (concerns t m) es = [] \<Longrightarrow> special_only t es"
  by (auto simp: special_only_def filter_empty_conv)

lemma specials_simps:
  "specials t [] = {}" "specials t (xs @ ys) = specials t xs \<union> specials t ys"
  "\<forall>i. e \<noteq> EvAdqRelBefore t i \<Longrightarrow> specials t (e # es) = specials t es"
  by (auto simp: specials_def)

lemma library_specials:
  assumes "library_ok p lib"
  shows "specials t' (lib t n i) = {}"
proof -
  have "\<forall>e \<in> set (lib t n i). library_event p t e" using assms by (simp add: library_ok_def)
  then show ?thesis by (auto simp: specials_def dest!: bspec)
qed

lemma adq_rel_found:
  assumes es: "es \<in> adq_rel_runs calls pool env pc lib (\<lambda>_. 0) pid joined"
    and run: "hawk_run c es (init_hawk 0 d u) = Inr g" and len: "length es \<le> 2 ^ 16"
    and pool: "pool_run pool" "hawk_run c pool (init_hawk 0 d u) = Inr k" "\<not> found_alloc (pm k)"
    and lib: "library_ok (\<lambda>a sz. IsPMAddress a sz (pm k)) lib"
    and mapped: "open_pmem_pool env = Inr (addr, sz)" "unat addr mod 64 = 0" "IsPMAddress addr 4 (pm k)"
    and disjoint: "set (hook_mutexes calls TraceAdqRelBefore_fn ''read_value'') \<inter> set (hook_mutexes calls TraceAdqRelBefore_fn ''write_value'') = {}"
  shows "\<exists>wt ft lb. reported (CheckPMRaces g) True (wt, ft, True) lb \<and> trace_is (bt_heap g) wt [pc 77] \<and>
    trace_is (bt_heap g) ft [pc 23, pc 79] \<and> trace_is (bt_heap g) lb [pc 84]"
proof -
  let ?p = "\<lambda>a sz. IsPMAddress a sz (pm k)"
  let ?main = "main_thread lib (adq_rel_main env pc lib (\<lambda>_. 0) pid joined)"
  let ?script = "worker_threads env lib (\<lambda>_. 0) ?main [adq_rel_write_value calls pc, adq_rel_read_value calls pc lib]"
  let ?x1 = "EvThreadStart 2 # lib 2 0 0 @ enter_function calls 2 ''read_value''"
    and ?y1 = "EvThreadStart 1 # lib 1 0 0 @ enter_function calls 1 ''write_value''"
    and ?y2 = "call 1 (pc 78) (flush 1 addr 4) @ [EvCall 1 (pc 79)]"
  note facts = library_facts [OF lib]
  obtain zs where zs: "es = pool @ zs" "zs \<in> schedules ?script" using es by (auto simp: adq_rel_runs_def)
  have reader: "\<exists>x2. ?script 2 = ?x1 @ EvRead 2 (pc 84) addr 4 0 # x2"
    unfolding worker_scripts [OF mapped(1)] by (simp add: thread_run_def adq_rel_read_value_def)
  have writer: "\<exists>y3. ?script 1 = ?y1 @ EvWrite 1 (pc 77) addr 4 STORE # ?y2 @ EvFence 1 (pc 23) # y3"
    unfolding worker_scripts [OF mapped(1)] by (simp add: thread_run_def adq_rel_write_value_def call_def fence_def)
  have main: "\<exists>js. filter clock_change (?script 0) = EvCreateCall 0 # EvCreateCall 0 # js"
    unfolding worker_scripts [OF mapped(1)] by (simp add: adq_rel_main_def mapped(1) main_thread_def library_call_def call_def facts Let_def)
  from reader writer main obtain x2 y3 js where split: "?script 2 = ?x1 @ EvRead 2 (pc 84) addr 4 0 # x2"
    "?script 1 = ?y1 @ EvWrite 1 (pc 77) addr 4 STORE # ?y2 @ EvFence 1 (pc 23) # y3"
    "filter clock_change (?script 0) = EvCreateCall 0 # EvCreateCall 0 # js" by blast
  note line = flushed_int [OF mapped(2)]
  have p0: "?p addr 0" using aligned_pm [OF mapped(2)] mapped(3) by simp
  note enter = enter_function_facts
  have "special_only 2 ?x1" "special_only 1 ?y1" using facts(1) by (simp_all add: special_only_simps enter)
  moreover have "specials 2 ?x1 \<inter> specials 1 ?y1 = {}" using disjoint library_specials [OF lib] by (simp add: specials_simps enter)
  ultimately have apart: "apart 2 ?x1 1 ?y1 ?y2" unfolding apart_def by blast
  have racy: "racy_access u ?p 2 ?x1 addr 4 1 ?y1 (EvWrite 1 (pc 77) addr 4 STORE) ?y2 addr"
    by (rule racy_int [OF mapped(2) _ _ _ _ apart])
      (simp_all add: facts enter mapped(3) p0 line call_def flush_int)
  have epochs: "script_epoch 2 ?x1 = (2, 0)" "script_epoch 1 (?y1 @ ?y2) = (1, 0)"
    by (simp_all add: script_epoch_def facts enter call_def flush_int)
  have phases: "in_phase (filter clock_change (?script 0)) 2 (script_epoch 2 ?x1)"
      "in_phase (filter clock_change (?script 0)) 2 (script_epoch 1 (?y1 @ ?y2))"
    unfolding epochs phase_two(2) [OF split(3)] by simp_all
  have "\<exists>wt ft lb. reported (CheckPMRaces g) True (wt, ft, True) lb \<and>
      trace_is (bt_heap g) wt (pc 77 # rev (fold (stack_step 1) ?y1 [])) \<and>
      trace_is (bt_heap g) ft (pc 23 # rev (fold (stack_step 1) (?y1 @ ?y2) [])) \<and>
      trace_is (bt_heap g) lb (pc 84 # rev (fold (stack_step 2) ?x1 []))"
    by (rule fork_reported [OF pool run [unfolded zs(1)] len [unfolded zs(1)] zs(2) adq_rel_fork [OF lib] _ split(1,2) _
          phase_two(1) [OF split(3)] phases racy]) (simp_all add: fence_event_def)
  then show ?thesis by (simp add: facts enter call_def flush_int)
qed

text \<open>With a special mutex common to both functions nothing races.\<close>

lemma special_disciplined_calm:
  "\<forall>e \<in> set es. \<not> accesses p e \<and> \<not> special_event t s e \<Longrightarrow> special_disciplined u p t s before es"
  by (induction es arbitrary: before) simp_all

lemma special_disciplined_hooks:
  "\<forall>e \<in> set es. \<exists>i. e = EvAdqRelBefore t i \<or> e = EvAdqRelAfter t i \<Longrightarrow> fold (persist_step u p t) before ({}, {}) = ({}, {}) \<Longrightarrow>
   special_disciplined u p t s before es"
  by (induction es arbitrary: before) auto

lemma in_special_enter:
  assumes "s \<in> set (hook_mutexes calls TraceAdqRelBefore_fn name)"
  shows "in_special t s (xs @ enter_function calls t name)"
proof -
  let ?fs = "filter (special_event t s) (enter_function calls t name)"
  have "?fs \<noteq> []" using assms by (auto simp: enter_function_def special_event_def filter_empty_conv)
  moreover from this have "last ?fs \<in> set ?fs" by (rule last_in_set)
  then have "last ?fs = EvAdqRelBefore t s" by (auto simp: enter_function_def special_event_def)
  ultimately show ?thesis by (simp add: in_special_def Let_def)
qed

lemma in_special_after: "filter (special_event t s) ys = [] \<Longrightarrow> in_special t s (xs @ ys) = in_special t s xs"
  by (simp add: in_special_def)

text \<open>
  A worker that enters its function, does one access and code that leaves persistent memory alone until nothing is
  pending, and leaves the function.
\<close>

lemma special_disciplined_worker:
  assumes lib: "library_ok p lib" and s: "s \<in> set (hook_mutexes calls TraceAdqRelBefore_fn name)"
    and e: "\<not> special_event t s e" and rest: "\<forall>e \<in> set es. \<not> accesses p e \<and> \<not> special_event t s e"
    and clean: "fold (persist_step u p t) (e # es) ({}, {}) = ({}, {})"
  shows "special_disciplined u p t s [] (thread_run lib t (enter_function calls t name @ e # es @ leave_function calls t name))"
proof -
  note facts = library_facts [OF lib]
  have quiet: "\<forall>e \<in> set (lib t n i). \<not> accesses p e \<and> \<not> special_event t s e" for n i
  proof -
    have "\<forall>e \<in> set (lib t n i). library_event p t e" using lib by (simp add: library_ok_def)
    with facts(6) show ?thesis by (auto simp: special_event_def dest!: bspec)
  qed
  let ?a = "EvThreadStart t # lib t 0 0" and ?b = "enter_function calls t name"
  have a: "special_disciplined u p t s [] ?a" by (rule special_disciplined_calm) (use quiet in \<open>simp add: special_event_def\<close>)
  have b: "special_disciplined u p t s ?a ?b"
    by (rule special_disciplined_hooks) (auto simp: enter_function_def facts(9))
  have c: "special_disciplined u p t s (?a @ ?b) [e]" using in_special_enter [OF s, of t ?a] e by simp
  have d: "special_disciplined u p t s ((?a @ ?b) @ [e]) es" by (rule special_disciplined_calm [OF rest])
  have "fold (persist_step u p t) (((?a @ ?b) @ [e]) @ es) ({}, {}) = ({}, {})"
    using clean by (simp add: facts(9) enter_function_facts(4))
  then have l: "special_disciplined u p t s (((?a @ ?b) @ [e]) @ es) (leave_function calls t name)"
    by (intro special_disciplined_hooks) (auto simp: leave_function_def)
  have r: "special_disciplined u p t s ((((?a @ ?b) @ [e]) @ es) @ leave_function calls t name) (lib t 0 1 @ [EvThreadExit t])"
    by (rule special_disciplined_calm) (use quiet in \<open>auto simp: special_event_def\<close>)
  have "thread_run lib t (?b @ e # es @ leave_function calls t name) =
      (((((?a @ ?b) @ [e]) @ es) @ leave_function calls t name) @ (lib t 0 1 @ [EvThreadExit t]))"
    by (simp add: thread_run_def)
  then show ?thesis using a b c d l r by (simp only: special_disciplined_append append_Nil simp_thms)
qed

lemma adq_rel_silent:
  assumes es: "es \<in> adq_rel_runs calls pool env pc lib (\<lambda>_. 0) pid joined"
    and run: "hawk_run c es (init_hawk n d u) = Inr g" and len: "length es \<le> 2 ^ 16"
    and pool: "pool_run pool" "hawk_run c pool (init_hawk n d u) = Inr k" "\<not> found_alloc (pm k)"
    and lib: "library_ok (\<lambda>a sz. IsPMAddress a sz (pm k)) lib"
    and mapped: "open_pmem_pool env = Inr (addr, sz)" "unat addr mod 64 = 0" "IsPMAddress addr 4 (pm k)"
    and s: "s \<in> set (hook_mutexes calls TraceAdqRelBefore_fn ''write_value'')"
      "s \<in> set (hook_mutexes calls TraceAdqRelBefore_fn ''read_value'')"
  shows "\<not> reported (CheckPMRaces g) pers (wt, ft, fl) lb"
proof -
  let ?p = "\<lambda>a sz. IsPMAddress a sz (pm k)"
  let ?main = "main_thread lib (adq_rel_main env pc lib (\<lambda>_. 0) pid joined)"
  let ?script = "worker_threads env lib (\<lambda>_. 0) ?main [adq_rel_write_value calls pc, adq_rel_read_value calls pc lib]"
  note facts = library_facts [OF lib] and line = flushed_int [OF mapped(2)]
  have p0: "?p addr 0" using aligned_pm [OF mapped(2)] mapped(3) by simp
  obtain zs where zs: "es = pool @ zs" "zs \<in> schedules ?script" using es by (auto simp: adq_rel_runs_def)
  note fk = schedules_forked [OF zs(2) adq_rel_fork [OF lib]] and own = schedules_threads [OF zs(2)]
  define Q where "Q e \<longleftrightarrow> \<not> accesses ?p e \<and> (\<forall>t m. \<not> concerns t m e) \<and> (\<forall>t. \<not> special_event t s e)" for e
  have Qlib: "list_all Q (lib t n i)" for t n i
  proof -
    have "Q e" if "e \<in> set (lib t n i)" for e
    proof -
      have "library_event ?p t e" using lib that by (simp add: library_ok_def)
      with facts(6) [OF that] show ?thesis by (cases e) (auto simp: Q_def special_event_def)
    qed
    then show ?thesis by (simp add: list_all_iff)
  qed
  have Qev: "Q (EvCall t a)" "Q (EvRet t)" "Q (EvCreateCall t)" "Q (EvCreateReturn t x y)" "Q (EvJoin t x y)" "Q (EvThreadExit t)"
    for t a x y by (simp_all add: Q_def special_event_def)
  have "list_all Q (snd (join_all pc lib n joined pid [] is))" for n "is"
    by (induction "is") (simp_all add: Let_def library_call_def exit_call_def call_def Qlib Qev)
  then have "list_all Q ?main"
    by (simp add: adq_rel_main_def mapped(1) main_thread_def library_call_def call_def Let_def Qlib Qev del: join_all.simps)
  then have main: "\<not> accesses ?p e \<and> (\<forall>m. \<not> concerns t m e) \<and> \<not> special_event t' s e" if "e \<in> set ?main" for e t t'
    using that by (auto simp: list_all_iff Q_def)
  have quiet: "\<not> accesses ?p e \<and> (\<forall>m. \<not> concerns t m e) \<and> \<not> special_event t' s e" if "e \<in> set (lib t0 n i)" for e t0 n i t t'
    using that Qlib by (auto simp: list_all_iff Q_def)
  have script: "?script t = (if t = 0 then ?main else if t = 1 then thread_run lib 1 (adq_rel_write_value calls pc 1 addr)
      else if t = 2 then thread_run lib 2 (adq_rel_read_value calls pc lib 2 addr) else [])" for t
    by (auto simp: worker_threads_def mapped(1) list_all_iff numeral_2_eq_2 less_Suc_eq nth_Cons')
  have only: "special_only t (by_thread t zs)" for t
    unfolding own script using main facts(1) enter_function_facts(5) leave_function_facts(2)
    by (auto simp: special_only_simps thread_run_def adq_rel_write_value_def adq_rel_read_value_def library_call_def call_def
        fence_def flush_int special_only_def [of _ ?main])
  have w: "special_disciplined u ?p 1 s [] (thread_run lib 1 (adq_rel_write_value calls pc 1 addr))"
    using special_disciplined_worker [OF lib s(1), of 1 "EvWrite 1 (pc 77) addr 4 STORE"
        "call 1 (pc 78) (flush 1 addr 4) @ call 1 (pc 79) [fence 1 (pc 23)]" u]
    by (simp add: adq_rel_write_value_def special_event_def call_def flush_int fence_def mapped(3) p0 line)
  have r: "special_disciplined u ?p 2 s [] (thread_run lib 2 (adq_rel_read_value calls pc lib 2 addr))"
    using special_disciplined_worker [OF lib s(2), of 2 "EvRead 2 (pc 84) addr 4 0" "library_call pc lib 2 84 []" u] quiet
    by (auto simp: adq_rel_read_value_def special_event_def library_call_def call_def facts)
  have check: "special_disciplined u ?p t s [] (by_thread t zs)" for t
    unfolding own script using special_disciplined_calm [of ?main ?p 0 s u "[]"] main w r by simp
  have threads: "t \<in> {..2}" if "e \<in> set (pool @ zs)" "thread_of e = Some t" for e t
    using that pool_run_events [OF pool(1)] pool_event_calm(1) fk(3) by (fastforce simp: list_all_iff)
  show ?thesis
    by (rule special_unreported [OF run [unfolded zs(1)] len [unfolded zs(1)] threads _ _ pool fk(2) only check]) simp_all
qed

text \<open>
  Whether both functions have a special mutex in common can be read off the configurations: the hooks of a
  configuration pass its own special mutex.
\<close>

lemma common_special:
  assumes "ImageLoad rtn_valid cfgs r = Inr (calls, reps, r')" "rtn_valid f" "rtn_valid g" "lock_counter r + length cfgs \<le> 2 ^ 64"
  shows "set (hook_mutexes calls TraceAdqRelBefore_fn f) \<inter> set (hook_mutexes calls TraceAdqRelBefore_fn g) = {} \<longleftrightarrow>
    \<not> (\<exists>cfg \<in> set cfgs. f \<in> set (adq_rel cfg) \<and> g \<in> set (adq_rel cfg))"
proof -
  have same: "(of_nat (lock_counter r + i) :: u64) = of_nat (lock_counter r + j) \<longleftrightarrow> i = j" if "i < length cfgs" "j < length cfgs" for i j
  proof -
    have "lock_counter r + i < 2 ^ 64" "lock_counter r + j < 2 ^ 64" using assms(4) that by simp_all
    then have "unat (of_nat (lock_counter r + i) :: u64) = lock_counter r + i" "unat (of_nat (lock_counter r + j) :: u64) = lock_counter r + j"
      by (simp_all add: unat_of_nat del: of_nat_add)
    then show ?thesis by (metis add_left_cancel)
  qed
  have "set (hook_mutexes calls TraceAdqRelBefore_fn f) \<inter> set (hook_mutexes calls TraceAdqRelBefore_fn g) \<noteq> {} \<longleftrightarrow>
      (\<exists>i < length cfgs. f \<in> set (adq_rel (cfgs ! i)) \<and> g \<in> set (adq_rel (cfgs ! i)))"
    unfolding ImageLoad_mutexes [OF assms(1,2) insertI1] ImageLoad_mutexes [OF assms(1,3) insertI1]
    using same by blast
  then show ?thesis by (metis in_set_conv_nth)
qed

section \<open>The races of \<^verbatim>\<open>two_bugs.c\<close>\<close>

text \<open>Both workers do the same in other lines.\<close>

definition locked_write :: "(nat \<Rightarrow> u64) \<Rightarrow> library \<Rightarrow> u64 \<Rightarrow> nat \<Rightarrow> nat \<Rightarrow> u64 \<Rightarrow> event list" where
  "locked_write pc lib lock n t addr =
     library_call pc lib t n [EvLock t lock] @
     [EvWrite t (pc (n + 1)) addr 4 STORE] @
     call t (pc (n + 2)) (flush t addr 4) @
     library_call pc lib t (n + 3) [EvUnlock t lock] @
     call t (pc (n + 5)) [fence t (pc 23)]"

lemma two_bugs_locked_write:
  "two_bugs_write_value pc lib lock = locked_write pc lib lock 78"
  "two_bugs_write_value_2 pc lib lock = locked_write pc lib lock 88"
  by (simp_all add: fun_eq_iff two_bugs_write_value_def two_bugs_write_value_2_def locked_write_def)

text \<open>
  Library code may execute fences and atomic instructions of its own, \<^verbatim>\<open>pthread_mutex_unlock\<close> in
  particular: the first one after the release is the one that makes the write persistent.
\<close>

definition inert :: "(u64 \<Rightarrow> u32 \<Rightarrow> bool) \<Rightarrow> nat \<Rightarrow> event \<Rightarrow> bool" where
  "inert p t e \<longleftrightarrow> (library_event p t e \<and> (\<forall>ctxt. \<not> fence_event p t ctxt e))"

lemma inert_facts:
  assumes "\<forall>e \<in> set es. inert p t e"
  shows "filter clock_change es = []" "filter (unnamed_lock t') es = []" "filter (concerns t' m) es = []"
    "fold (persist_step u p t) es s = s" "\<forall>e \<in> set es. \<not> accesses p e"
proof -
  have step: "\<not> clock_change e \<and> \<not> unnamed_lock t' e \<and> \<not> concerns t' m e \<and> \<not> accesses p e \<and> persist_step u p t e s = s"
    if "inert p t e" for e t' s
    using that by (cases s; cases e) (auto simp: inert_def fence_event_def)
  show "filter clock_change es = []" "filter (unnamed_lock t') es = []" "filter (concerns t' m) es = []" "\<forall>e \<in> set es. \<not> accesses p e"
    using assms step by (simp_all add: filter_empty_conv)
  show "fold (persist_step u p t) es s = s" using assms by (induction es) (simp_all add: step)
qed

lemma first_fence:
  assumes lib: "library_ok p lib"
  shows "\<exists>us F vs ctxt. lib t n i @ [EvRet t, EvCall t a, EvFence t c] = us @ F # vs \<and> fence_event p t ctxt F \<and>
    (\<forall>e \<in> set us. inert p t e)"
proof -
  let ?es = "lib t n i @ [EvRet t, EvCall t a, EvFence t c]"
  have "\<exists>e \<in> set ?es. \<exists>ctxt. fence_event p t ctxt e" by (auto simp: fence_event_def)
  from split_list_first_prop [OF this] obtain us F vs ctxt where
    split: "?es = us @ F # vs" "fence_event p t ctxt F" "\<forall>e \<in> set us. \<not> (\<exists>ctxt. fence_event p t ctxt e)" by blast
  have "library_event p t e" if "e \<in> set ?es" for e using lib that by (auto simp: library_ok_def)
  with split(1,3) have "\<forall>e \<in> set us. inert p t e" unfolding inert_def by (metis UnI1 set_append)
  with split show ?thesis by blast
qed

lemma cut_off_thread_run:
  assumes "length (EvThreadStart t # lib t 0 0 @ body) \<le> k"
  shows "\<exists>rest. cut_off k ended (thread_run lib t body) = (EvThreadStart t # lib t 0 0 @ body) @ rest"
proof -
  have "thread_run lib t body = ((EvThreadStart t # lib t 0 0 @ body) @ lib t 0 1) @ [EvThreadExit t]" by (simp add: thread_run_def)
  then have "butlast (thread_run lib t body) = (EvThreadStart t # lib t 0 0 @ body) @ lib t 0 1" "thread_run lib t body \<noteq> []"
    by (simp_all only: butlast_snoc) simp
  then show ?thesis using assms by (simp add: cut_off_def del: append_Cons)
qed

lemma two_bugs_found:
  assumes es: "es \<in> two_bugs_runs pool env pc lib lock (\<lambda>_. 0) pid joined q ended"
    and run: "hawk_run c es (init_hawk 0 d u) = Inr g" and len: "length es \<le> 2 ^ 16"
    and pool: "pool_run pool" "hawk_run c pool (init_hawk 0 d u) = Inr k" "\<not> found_alloc (pm k)"
    and lib: "library_ok (\<lambda>a sz. IsPMAddress a sz (pm k)) lib"
    and mapped: "open_pmem_pool env = Inr (addr, sz)" "unat addr mod 64 = 0" "IsPMAddress addr 4 (pm k)"
    and w: "(w :: nat, n) \<in> {(1, 78), (2, 88)}"
      "w = 1 \<longrightarrow> length (EvThreadStart 1 # lib 1 0 0 @ two_bugs_write_value pc lib lock 1 addr) \<le> q"
    and enter: "\<forall>e \<in> set (lib w (n + 3) 0). inert (\<lambda>a sz. IsPMAddress a sz (pm k)) w e"
  shows "\<exists>wt ft lb. reported (CheckPMRaces g) True (wt, ft, True) lb \<and> trace_is (bt_heap g) wt [pc (n + 1)] \<and>
    trace_is (bt_heap g) lb [pc 118]"
proof -
  let ?p = "\<lambda>a sz. IsPMAddress a sz (pm k)"
  let ?main = "main_thread lib (two_bugs_main env pc lib lock (\<lambda>_. 0) pid joined)"
  let ?base = "worker_threads env lib (\<lambda>_. 0) ?main [two_bugs_write_value pc lib lock, two_bugs_write_value_2 pc lib lock]"
    and ?script = "two_bugs_threads env pc lib lock (\<lambda>_. 0) pid joined q ended"
  note facts = library_facts [OF lib]
  have main_script: "?script 0 = ?main" by (simp add: two_bugs_threads_def worker_threads_def)
  obtain us F vs ctxt' where fence: "lib w (n + 3) 1 @ [EvRet w, EvCall w (pc (n + 5)), EvFence w (pc 23)] = us @ F # vs"
      "fence_event ?p w ctxt' F" "\<forall>e \<in> set us. inert ?p w e"
    using first_fence [OF lib, of w "n + 3" 1 "pc (n + 5)" "pc 23"] by blast
  let ?x1 = "library_call pc lib 0 103 [] @ library_call pc lib 0 107 [EvCreateCall 0, EvCreateReturn 0 0 (pid 0)] @
      library_call pc lib 0 112 [EvCreateCall 0, EvCreateReturn 0 0 (pid 1)] @ library_call pc lib 0 117 [EvLock 0 lock]"
    and ?y1 = "EvThreadStart w # lib w 0 0 @ library_call pc lib w n [EvLock w lock]"
    and ?y2 = "call w (pc (n + 2)) (flush w addr 4) @ EvCall w (pc (n + 3)) # lib w (n + 3) 0 @ EvUnlock w lock # us"
  obtain zs where zs: "es = pool @ zs" "zs \<in> schedules ?script" using es by (auto simp: two_bugs_runs_def)
  have reader: "\<exists>x2. ?script 0 = ?x1 @ EvRead 0 (pc 118) addr 4 0 # x2"
    unfolding main_script by (simp add: two_bugs_main_def mapped(1) main_thread_def Let_def)
  have "\<exists>zs. ?script w = (EvThreadStart w # lib w 0 0 @ locked_write pc lib lock n w addr) @ zs"
    using w worker_scripts(2,3) [OF mapped(1), of lib ?main "two_bugs_write_value pc lib lock" "two_bugs_write_value_2 pc lib lock"]
      cut_off_thread_run [of 1 lib "two_bugs_write_value pc lib lock 1 addr" q ended]
    by (auto simp: two_bugs_threads_def two_bugs_locked_write thread_run_def)
  then obtain rest where "?script w = (EvThreadStart w # lib w 0 0 @ locked_write pc lib lock n w addr) @ rest" by blast
  also have "\<dots> = ?y1 @ EvWrite w (pc (n + 1)) addr 4 STORE # call w (pc (n + 2)) (flush w addr 4) @ EvCall w (pc (n + 3)) #
      lib w (n + 3) 0 @ EvUnlock w lock # (lib w (n + 3) 1 @ [EvRet w, EvCall w (pc (n + 5)), EvFence w (pc 23)]) @
      EvRet w # rest"
    by (simp add: locked_write_def library_call_def call_def fence_def)
  finally have writer: "\<exists>y3. ?script w = ?y1 @ EvWrite w (pc (n + 1)) addr 4 STORE # ?y2 @ F # y3"
    unfolding fence(1) by simp
  have main: "\<exists>js. filter clock_change (?script 0) = EvCreateCall 0 # EvCreateCall 0 # js"
    unfolding main_script
    by (simp add: two_bugs_main_def mapped(1) main_thread_def library_call_def call_def facts Let_def)
  from reader writer main obtain x2 y3 js where split: "?script 0 = ?x1 @ EvRead 0 (pc 118) addr 4 0 # x2"
    "?script w = ?y1 @ EvWrite w (pc (n + 1)) addr 4 STORE # ?y2 @ F # y3"
    "filter clock_change (?script 0) = EvCreateCall 0 # EvCreateCall 0 # js" by blast
  note line = flushed_int [OF mapped(2)]
  have p0: "?p addr 0" using aligned_pm [OF mapped(2)] mapped(3) by simp
  note silent = inert_facts [OF fence(3)] inert_facts [OF enter]
  have racy: "racy_access u ?p 0 ?x1 addr 4 w ?y1 (EvWrite w (pc (n + 1)) addr 4 STORE) ?y2 addr"
    by (rule racy_int [OF mapped(2) _ _ _ _ apartI])
      (use silent(5,10) in \<open>auto simp: facts silent mapped(3) p0 line library_call_def call_def flush_int in_section_def\<close>)
  have w0: "w \<noteq> 0" using w by auto
  have epochs: "script_epoch 0 ?x1 = (0, 2)" "script_epoch w (?y1 @ ?y2) = (w, 0)"
    using w0 by (simp_all add: script_epoch_def facts silent library_call_def call_def flush_int)
  have phases: "in_phase (filter clock_change (?script 0)) 2 (script_epoch 0 ?x1)"
      "in_phase (filter clock_change (?script 0)) 2 (script_epoch w (?y1 @ ?y2))"
    unfolding epochs phase_two(2) [OF split(3)] using w by auto
  have "\<exists>wt ft lb. reported (CheckPMRaces g) True (wt, ft, True) lb \<and>
      trace_is (bt_heap g) wt (pc (n + 1) # rev (fold (stack_step w) ?y1 [])) \<and>
      trace_is (bt_heap g) ft (ctxt' # rev (fold (stack_step w) (?y1 @ ?y2) [])) \<and>
      trace_is (bt_heap g) lb (pc 118 # rev (fold (stack_step 0) ?x1 []))"
    by (rule fork_reported [OF pool run [unfolded zs(1)] len [unfolded zs(1)] zs(2) two_bugs_fork [OF lib] _ split(1,2) fence(2)
          phase_two(1) [OF split(3)] phases racy]) (use w0 in simp_all)
  moreover have "fold (stack_step w) ?y1 [] = []" "fold (stack_step 0) ?x1 [] = []"
    by (simp_all add: facts library_call_def call_def)
  ultimately show ?thesis by force
qed

end
