(* ===== verification/BugFiesta.thy ===== *)
theory BugFiesta
  imports ForkExamples StdText "HOL-Library.Tree"
begin

text \<open>
  The data structure of \<^verbatim>\<open>src/examples/bug_fiesta.c\<close>: a map from strings to integers, kept as a binary
  search tree in persistent memory, with a bump allocator. Memory is one function per field of the
  structure (the invariant says that the blocks the fields lie in are disjoint), and every function
  appends the callbacks it causes to \<open>trace\<close>, as in \<^verbatim>\<open>Examples\<close>. The loops may not end on a cyclic
  structure: they are partial functions, and that they end on a tree is proved.
\<close>

section \<open>Memory and callbacks\<close>

text \<open>\<open>cur\<close> is \<^verbatim>\<open>memory->meta.d.cur\<close>, \<open>root\<close> is \<^verbatim>\<open>*tree\<close>, \<open>texts\<close> the strings in the character arrays.\<close>

record tree_memory =
  cur :: u64
  root :: u64
  lefts :: "u64 \<Rightarrow> u64"
  rights :: "u64 \<Rightarrow> u64"
  keys :: "u64 \<Rightarrow> u64"
  vals :: "u64 \<Rightarrow> u32"
  texts :: "u64 \<Rightarrow> string"

record fiesta = tree_memory +
  trace :: "event list"

text \<open>
  The globals \<^verbatim>\<open>memory\<close> and \<^verbatim>\<open>tree\<close>, the address of \<^verbatim>\<open>tree_lock\<close>, and the code around the program; what
  library code does may be different in each call: the first argument of \<open>libs\<close> is the number
  of callbacks before it.
\<close>

record fiesta_env =
  memory :: u64
  tree_ptr :: u64
  tree_lock :: u64
  pcs :: "nat \<Rightarrow> u64"
  libs :: "nat \<Rightarrow> library"

definition emit :: "event list \<Rightarrow> fiesta \<Rightarrow> fiesta" where
  "emit es s = s\<lparr>trace := trace s @ es\<rparr>"

definition lib_call :: "fiesta_env \<Rightarrow> nat \<Rightarrow> nat \<Rightarrow> event list \<Rightarrow> fiesta \<Rightarrow> fiesta" where
  "lib_call E t n es s = emit (library_call (pcs E) (libs E (length (trace s))) t n es) s"

definition reads :: "fiesta_env \<Rightarrow> nat \<Rightarrow> nat \<Rightarrow> u64 \<Rightarrow> u32 \<Rightarrow> fiesta \<Rightarrow> fiesta" where
  "reads E t n addr sz = emit [EvRead t (pcs E n) addr sz 0]"

definition writes :: "fiesta_env \<Rightarrow> nat \<Rightarrow> nat \<Rightarrow> u64 \<Rightarrow> u32 \<Rightarrow> fiesta \<Rightarrow> fiesta" where
  "writes E t n addr sz = emit [EvWrite t (pcs E n) addr sz STORE]"

text \<open>A call, in line \<open>n\<close>, of a function of the program.\<close>

definition calling :: "fiesta_env \<Rightarrow> nat \<Rightarrow> nat \<Rightarrow> (fiesta \<Rightarrow> 'r \<times> fiesta) \<Rightarrow> fiesta \<Rightarrow> 'r \<times> fiesta" where
  "calling E t n f s = map_prod id (emit [EvRet t]) (f (emit [EvCall t (pcs E n)] s))"

definition callingO :: "fiesta_env \<Rightarrow> nat \<Rightarrow> nat \<Rightarrow> (fiesta \<Rightarrow> ('r \<times> fiesta) option) \<Rightarrow> fiesta \<Rightarrow> ('r \<times> fiesta) option" where
  "callingO E t n f s = map_option (map_prod id (emit [EvRet t])) (f (emit [EvCall t (pcs E n)] s))"

text \<open>\<^verbatim>\<open>flush\<close> and \<^verbatim>\<open>fence\<close>, called in the lines \<open>n\<close> and \<open>n + 1\<close>.\<close>

definition persist :: "fiesta_env \<Rightarrow> nat \<Rightarrow> nat \<Rightarrow> u64 \<Rightarrow> int \<Rightarrow> fiesta \<Rightarrow> fiesta" where
  "persist E t n addr sz =
     emit (call t (pcs E n) (flush t addr sz) @ call t (pcs E (n + 1)) [fence t (pcs E 32)])"

text \<open>\<^verbatim>\<open>strcmp\<close> compares as unsigned characters; the standard fixes only the sign of the result.\<close>

fun strcmp :: "string \<Rightarrow> string \<Rightarrow> int" where
  "strcmp [] [] = 0"
| "strcmp [] (d # ds) = -1"
| "strcmp (c # cs) [] = 1"
| "strcmp (c # cs) (d # ds) =
     (if c = d then strcmp cs ds else if (of_char c :: nat) < of_char d then -1 else 1)"

section \<open>The operations\<close>

text \<open>The layout: \<^verbatim>\<open>mutex\<close> follows \<^verbatim>\<open>cur\<close>, the pool's bytes start after 64 bytes of metadata.\<close>

definition PM_ALLOC :: "fiesta_env \<Rightarrow> nat \<Rightarrow> u64 \<Rightarrow> fiesta \<Rightarrow> u64 \<times> fiesta" where
  "PM_ALLOC E t sz s =
     (let s1 = lib_call E t 101 [EvLock t (memory E + 8)] s;
          s2 = reads E t 103 (memory E) 8 s1;
          ret = memory E + 64 + cur s2;
          s3 = writes E t 105 (memory E) 8 (reads E t 105 (memory E) 8 (s2\<lparr>cur := cur s2 + sz\<rparr>));
          s4 = persist E t 107 (memory E) 64 s3
      in (ret, lib_call E t 110 [EvUnlock t (memory E + 8)] s4))"

text \<open>A node has \<^verbatim>\<open>left\<close>, \<^verbatim>\<open>right\<close>, \<^verbatim>\<open>key\<close> and \<^verbatim>\<open>val\<close> at the offsets 0, 8, 16 and 24, and 32 bytes.\<close>

definition new_node :: "fiesta_env \<Rightarrow> nat \<Rightarrow> string \<Rightarrow> u32 \<Rightarrow> fiesta \<Rightarrow> u64 \<times> fiesta" where
  "new_node E t k v s =
     (let (n, s1) = calling E t 115 (PM_ALLOC E t 32) s;
          s2 = writes E t 116 n 8 (writes E t 116 (n + 8) 8
                 (s1\<lparr>rights := (rights s1)(n := 0), lefts := (lefts s1)(n := 0)\<rparr>));
          s3 = writes E t 117 (n + 24) 4 (s2\<lparr>vals := (vals s2)(n := v)\<rparr>);
          (a, s4) = calling E t 118 (PM_ALLOC E t (of_nat (length k) + 1)) (lib_call E t 118 [] s3);
          s5 = writes E t 118 (n + 16) 8 (s4\<lparr>keys := (keys s4)(n := a)\<rparr>);
          s6 = reads E t 119 (n + 16) 8 s5
      in (n, lib_call E t 119 [] (s6\<lparr>texts := (texts s6)(keys s6 n := k)\<rparr>)))"

partial_function (option) put_loop ::
  "fiesta_env \<Rightarrow> nat \<Rightarrow> string \<Rightarrow> u32 \<Rightarrow> u64 \<Rightarrow> fiesta \<Rightarrow> (u64 \<times> fiesta) option" where
  "put_loop E t k v n s =
     (if n = 0 then
        let (a, s1) = calling E t 153 (new_node E t k v) s;
            s2 = writes E t 153 (tree_ptr E) 8 (s1\<lparr>root := a\<rparr>);
            s3 = lib_call E t 154 [EvUnlock t (tree_lock E)] s2
        in Some (root s3, reads E t 155 (tree_ptr E) 8 s3)
      else
        let s1 = lib_call E t 129 [] (reads E t 129 (n + 16) 8 s);
            cmp = strcmp (texts s1 (keys s1 n)) k
        in if cmp = 0 then
             let s2 = writes E t 131 (n + 24) 4 (s1\<lparr>vals := (vals s1)(n := v)\<rparr>)
             in Some (n, lib_call E t 132 [EvUnlock t (tree_lock E)] s2)
           else if cmp > 0 then
             let s2 = reads E t 136 n 8 s1
             in if lefts s2 n = 0 then
                  let (a, s3) = calling E t 137 (new_node E t k v) s2;
                      s4 = writes E t 137 n 8 (s3\<lparr>lefts := (lefts s3)(n := a)\<rparr>)
                  in Some (n, lib_call E t 138 [EvUnlock t (tree_lock E)] s4)
                else put_loop E t k v (lefts s2 n) (reads E t 141 n 8 s2)
           else
             let s2 = reads E t 144 (n + 8) 8 s1
             in if rights s2 n = 0 then
                  let (a, s3) = calling E t 145 (new_node E t k v) s2;
                      s4 = writes E t 145 (n + 8) 8 (s3\<lparr>rights := (rights s3)(n := a)\<rparr>)
                  in Some (n, lib_call E t 146 [EvUnlock t (tree_lock E)] s4)
                else put_loop E t k v (rights s2 n) (reads E t 149 (n + 8) 8 s2))"

definition put :: "fiesta_env \<Rightarrow> nat \<Rightarrow> string \<Rightarrow> u32 \<Rightarrow> fiesta \<Rightarrow> (u64 \<times> fiesta) option" where
  "put E t k v s =
     (let s1 = reads E t 127 (tree_ptr E) 8 (lib_call E t 126 [EvLock t (tree_lock E)] s)
      in put_loop E t k v (root s1) s1)"

definition put_persist :: "fiesta_env \<Rightarrow> nat \<Rightarrow> string \<Rightarrow> u32 \<Rightarrow> fiesta \<Rightarrow> fiesta option" where
  "put_persist E t k v s =
     (case callingO E t 159 (put E t k v) s of
        None \<Rightarrow> None
      | Some (n, s1) \<Rightarrow> Some (persist E t 160 n 32 s1))"

text \<open>\<^verbatim>\<open>DEAULT_VALUE\<close> is -1.\<close>

definition DEAULT_VALUE :: u32 where
  "DEAULT_VALUE = -1"

partial_function (option) get_loop ::
  "fiesta_env \<Rightarrow> nat \<Rightarrow> string \<Rightarrow> u64 \<Rightarrow> fiesta \<Rightarrow> (u32 \<times> fiesta) option" where
  "get_loop E t k n s =
     (if n = 0 then Some (DEAULT_VALUE, lib_call E t 179 [EvUnlock t (tree_lock E)] s)
      else
        let s1 = lib_call E t 168 [] (reads E t 168 (n + 16) 8 s);
            cmp = strcmp (texts s1 (keys s1 n)) k
        in if cmp = 0 then
             let s2 = reads E t 170 (n + 24) 4 s1
             in Some (vals s2 n, lib_call E t 171 [EvUnlock t (tree_lock E)] s2)
           else if cmp > 0 then
             let s2 = reads E t 175 n 8 s1 in get_loop E t k (lefts s2 n) s2
           else
             let s2 = reads E t 177 (n + 8) 8 s1 in get_loop E t k (rights s2 n) s2)"

definition get_value :: "fiesta_env \<Rightarrow> nat \<Rightarrow> string \<Rightarrow> fiesta \<Rightarrow> (u32 \<times> fiesta) option" where
  "get_value E t k s =
     (let s1 = reads E t 166 (tree_ptr E) 8 (lib_call E t 165 [EvLock t (tree_lock E)] s)
      in get_loop E t k (root s1) s1)"

section \<open>The threads\<close>

text \<open>The keys are the decimal texts of the values.\<close>

fun put_all :: "fiesta_env \<Rightarrow> nat \<Rightarrow> nat list \<Rightarrow> fiesta \<Rightarrow> fiesta option" where
  "put_all E t [] s = Some s"
| "put_all E t (x # xs) s =
     (case callingO E t 199 (put E t (nat_text x) (of_nat x)) (lib_call E t 198 [] s) of
        None \<Rightarrow> None
      | Some (n, s1) \<Rightarrow> put_all E t xs s1)"

definition put_numbers :: "nat list" where
  "put_numbers = [123, 122, 127, 125, 111]"

definition put_thread :: "fiesta_env \<Rightarrow> nat \<Rightarrow> fiesta \<Rightarrow> fiesta option" where
  "put_thread E t s = put_all E t put_numbers s"

text \<open>
  The other thread changes memory between the calls of \<^verbatim>\<open>get\<close>, but not within one, which holds the lock:
  \<open>ms i\<close> is what the \<open>i\<close>-th call finds. The result is what the loop prints.
\<close>

definition with_memory :: "tree_memory \<Rightarrow> fiesta \<Rightarrow> fiesta" where
  "with_memory m s = tree_memory.extend m \<lparr>trace = trace s\<rparr>"

fun get_all :: "fiesta_env \<Rightarrow> nat \<Rightarrow> (nat \<Rightarrow> tree_memory) \<Rightarrow> nat \<Rightarrow> nat list \<Rightarrow> fiesta \<Rightarrow> (u32 list \<times> fiesta) option" where
  "get_all E t ms i [] s = Some ([], s)"
| "get_all E t ms i (x # xs) s =
     (case callingO E t 189 (get_value E t (nat_text x)) (with_memory (ms i) (lib_call E t 188 [] s)) of
        None \<Rightarrow> None
      | Some (v, s1) \<Rightarrow> map_option (map_prod ((#) v) id) (get_all E t ms (Suc i) xs (lib_call E t 189 [] s1)))"

definition get_numbers :: "nat list" where
  "get_numbers = [123, 122, 127, 125, 111, 110, 120]"

definition get_thread :: "fiesta_env \<Rightarrow> nat \<Rightarrow> (nat \<Rightarrow> tree_memory) \<Rightarrow> fiesta \<Rightarrow> (u32 list \<times> fiesta) option" where
  "get_thread E t ms s = get_all E t ms 0 get_numbers s"

text \<open>The start of \<^verbatim>\<open>main\<close>, from the memory the pool holds when it is mapped: an empty tree in a new cell.\<close>

definition start_from :: "tree_memory \<Rightarrow> fiesta" where
  "start_from m = tree_memory.extend m \<lparr>trace = []\<rparr>"

definition set_up :: "fiesta_env \<Rightarrow> tree_memory \<Rightarrow> fiesta_env \<times> fiesta" where
  "set_up E m =
     (let (p, s1) = calling E 0 210 (PM_ALLOC E 0 8) (lib_call E 0 208 [] (start_from m));
          E1 = E\<lparr>tree_ptr := p\<rparr>;
          s2 = writes E1 0 211 p 8 (s1\<lparr>root := 0\<rparr>)
      in (E1, persist E1 0 212 p 8 s2))"

text \<open>\<^verbatim>\<open>main\<close> ignores the results of the calls of \<^verbatim>\<open>pthread_create\<close> and \<^verbatim>\<open>pthread_join\<close>.\<close>

definition bug_fiesta_main ::
  "pool_env \<Rightarrow> fiesta_env \<Rightarrow> tree_memory \<Rightarrow> (nat \<Rightarrow> int) \<Rightarrow> (nat \<Rightarrow> u64) \<Rightarrow> (nat \<Rightarrow> int) \<Rightarrow> example_exit \<times> event list" where
  "bug_fiesta_main env E m created pid joined =
     (case open_pmem_pool env of
        Inl msg \<Rightarrow> (Exited msg 1, [])
      | Inr (addr, sz) \<Rightarrow>
          let (E1, s1) = set_up (E\<lparr>memory := addr\<rparr>) m;
              s2 = lib_call E1 0 217 [EvCreateCall 0, EvCreateReturn 0 (created 0) (pid 0)] s1;
              s3 = lib_call E1 0 218 [EvCreateCall 0, EvCreateReturn 0 (created 1) (pid 1)] s2;
              s4 = lib_call E1 0 220 [EvJoin 0 (joined 0) (pid 0)] s3
          in (Returned 0, trace (lib_call E1 0 221 [EvJoin 0 (joined 1) (pid 1)] s4)))"

text \<open>
  The runs in which both threads are created. The calls of \<^verbatim>\<open>get\<close> find the memory after more and more of
  the calls of \<^verbatim>\<open>put\<close>; that these are the calls whose critical sections came before is not required.
\<close>

definition bug_fiesta_runs ::
  "event list \<Rightarrow> pool_env \<Rightarrow> fiesta_env \<Rightarrow> tree_memory \<Rightarrow> (nat \<Rightarrow> u64) \<Rightarrow> (nat \<Rightarrow> int) \<Rightarrow> event list set" where
  "bug_fiesta_runs pool env E m pid joined =
     {pool @ zs | zs addr sz E1 s1 js puts gets out.
        open_pmem_pool env = Inr (addr, sz) \<and> set_up (E\<lparr>memory := addr\<rparr>) m = (E1, s1) \<and>
        put_thread E1 1 (s1\<lparr>trace := []\<rparr>) = Some puts \<and>
        (\<forall>i. js i \<le> js (Suc i)) \<and>
        get_thread E1 2 (\<lambda>i. case put_all E1 1 (take (js i) put_numbers) s1 of Some s \<Rightarrow> tree_memory.truncate s | None \<Rightarrow> m)
          (s1\<lparr>trace := []\<rparr>) = Some (out, gets) \<and>
        zs \<in> schedules (worker_threads env (libs E1 0) (\<lambda>_. 0)
          (main_thread (libs E1 0) (bug_fiesta_main env E m (\<lambda>_. 0) pid joined)) [\<lambda>_ _. trace puts, \<lambda>_ _. trace gets])}"

section \<open>Effect on memory\<close>

text \<open>What a function does to memory, the callbacks apart.\<close>

definition mem :: "fiesta \<Rightarrow> tree_memory" where
  "mem s = tree_memory.truncate s"

lemma mem_fields [simp]:
  "cur (mem s) = cur s" "root (mem s) = root s" "lefts (mem s) = lefts s" "rights (mem s) = rights s"
  "keys (mem s) = keys s" "vals (mem s) = vals s" "texts (mem s) = texts s"
  by (simp_all add: mem_def tree_memory.truncate_def)

lemma mem_updates [simp]:
  "mem (s\<lparr>cur := c\<rparr>) = (mem s)\<lparr>cur := c\<rparr>" "mem (s\<lparr>root := a\<rparr>) = (mem s)\<lparr>root := a\<rparr>"
  "mem (s\<lparr>lefts := f\<rparr>) = (mem s)\<lparr>lefts := f\<rparr>" "mem (s\<lparr>rights := f\<rparr>) = (mem s)\<lparr>rights := f\<rparr>"
  "mem (s\<lparr>keys := f\<rparr>) = (mem s)\<lparr>keys := f\<rparr>" "mem (s\<lparr>vals := w\<rparr>) = (mem s)\<lparr>vals := w\<rparr>"
  "mem (s\<lparr>texts := x\<rparr>) = (mem s)\<lparr>texts := x\<rparr>"
  by (simp_all add: mem_def tree_memory.truncate_def)

lemma mem_trace [simp]:
  "mem (emit es s) = mem s" "mem (lib_call E t n es s) = mem s" "mem (reads E t n a sz s) = mem s"
  "mem (writes E t n a sz s) = mem s" "mem (persist E t n a i s) = mem s"
  by (simp_all add: mem_def tree_memory.truncate_def emit_def lib_call_def reads_def writes_def persist_def)

lemmas field_mem = mem_fields [symmetric]

lemma calling_mem [simp]:
  "fst (calling E t n f s) = fst (f (emit [EvCall t (pcs E n)] s))"
  "mem (snd (calling E t n f s)) = mem (snd (f (emit [EvCall t (pcs E n)] s)))"
  by (simp_all add: calling_def)

lemma PM_ALLOC_mem [simp]:
  "fst (PM_ALLOC E t sz s) = memory E + 64 + cur s"
  "mem (snd (PM_ALLOC E t sz s)) = (mem s)\<lparr>cur := cur s + sz\<rparr>"
  by (simp_all add: PM_ALLOC_def Let_def field_mem del: mem_fields)

text \<open>The node a creation fills, at the end of what is allocated.\<close>

definition next_free :: "fiesta_env \<Rightarrow> tree_memory \<Rightarrow> u64" where
  "next_free E m = memory E + 64 + cur m"

definition with_node :: "fiesta_env \<Rightarrow> string \<Rightarrow> u32 \<Rightarrow> tree_memory \<Rightarrow> tree_memory" where
  "with_node E k v m =
     (let n = next_free E m; a = n + 32
      in m\<lparr>cur := cur m + 32 + (of_nat (length k) + 1), lefts := (lefts m)(n := 0), rights := (rights m)(n := 0),
          keys := (keys m)(n := a), vals := (vals m)(n := v), texts := (texts m)(a := k)\<rparr>)"

lemma new_node_mem [simp]:
  "fst (new_node E t k v s) = next_free E (mem s)"
  "mem (snd (new_node E t k v s)) = with_node E k v (mem s)"
  by (simp_all add: new_node_def Let_def split_beta with_node_def next_free_def field_mem add.assoc del: mem_fields)

section \<open>The tree in memory\<close>

text \<open>A tree of addresses, and that the structure at an address has this form.\<close>

fun represents :: "tree_memory \<Rightarrow> u64 \<Rightarrow> u64 tree \<Rightarrow> bool" where
  "represents m p \<langle>\<rangle> \<longleftrightarrow> p = 0"
| "represents m p \<langle>l, a, r\<rangle> \<longleftrightarrow> p = a \<and> a \<noteq> 0 \<and> represents m (lefts m a) l \<and> represents m (rights m a) r"

definition key_text :: "tree_memory \<Rightarrow> u64 \<Rightarrow> string" where
  "key_text m a = texts m (keys m a)"

text \<open>Where the search for a key ends: at its node, or at the node that gets the new one as a child.\<close>

datatype place = Found u64 | Left_of u64 | Right_of u64 | At_root

fun place_of :: "(u64 \<Rightarrow> string) \<Rightarrow> string \<Rightarrow> u64 tree \<Rightarrow> place" where
  "place_of K k \<langle>\<rangle> = At_root"
| "place_of K k \<langle>l, a, r\<rangle> =
     (if strcmp (K a) k = 0 then Found a
      else if strcmp (K a) k > 0 then if l = \<langle>\<rangle> then Left_of a else place_of K k l
      else if r = \<langle>\<rangle> then Right_of a else place_of K k r)"

fun put_at :: "fiesta_env \<Rightarrow> string \<Rightarrow> u32 \<Rightarrow> place \<Rightarrow> tree_memory \<Rightarrow> tree_memory" where
  "put_at E k v (Found a) m = m\<lparr>vals := (vals m)(a := v)\<rparr>"
| "put_at E k v (Left_of a) m = (with_node E k v m)\<lparr>lefts := (lefts (with_node E k v m))(a := next_free E m)\<rparr>"
| "put_at E k v (Right_of a) m = (with_node E k v m)\<lparr>rights := (rights (with_node E k v m))(a := next_free E m)\<rparr>"
| "put_at E k v At_root m = (with_node E k v m)\<lparr>root := next_free E m\<rparr>"

text \<open>What \<^verbatim>\<open>put\<close> returns: the node that had the key, or the parent of the new node, or the new root.\<close>

fun put_result :: "fiesta_env \<Rightarrow> place \<Rightarrow> tree_memory \<Rightarrow> u64" where
  "put_result E (Found a) m = a"
| "put_result E (Left_of a) m = a"
| "put_result E (Right_of a) m = a"
| "put_result E At_root m = next_free E m"

lemma represents_null: "represents m p t \<Longrightarrow> p = 0 \<longleftrightarrow> t = \<langle>\<rangle>"
  by (cases t) auto

lemma put_loop_place:
  assumes "represents (mem s) n t"
  shows "\<exists>s'. put_loop E tid k v n s = Some (put_result E (place_of (key_text (mem s)) k t) (mem s), s') \<and>
    mem s' = put_at E k v (place_of (key_text (mem s)) k t) (mem s)"
  using assms
proof (induction t arbitrary: n s)
  case Leaf
  then show ?case
    by (subst put_loop.simps) (simp add: Let_def split_beta field_mem del: mem_fields)
next
  case (Node l a r)
  let ?s1 = "lib_call E tid 129 [] (reads E tid 129 (a + 16) 8 s)"
  let ?l2 = "reads E tid 141 a 8 (reads E tid 136 a 8 ?s1)" and ?r2 = "reads E tid 149 (a + 8) 8 (reads E tid 144 (a + 8) 8 ?s1)"
  from Node.prems have n: "n = a" "a \<noteq> 0" and sub: "represents (mem ?l2) (lefts s a) l" "represents (mem ?r2) (rights s a) r"
    by (simp_all)
  note null = represents_null [OF sub(1)] represents_null [OF sub(2)]
  note step = put_loop.simps [of E tid k v n s]
  consider "strcmp (key_text (mem s) a) k = 0" | "strcmp (key_text (mem s) a) k > 0" "l = \<langle>\<rangle>"
    | "strcmp (key_text (mem s) a) k > 0" "l \<noteq> \<langle>\<rangle>" | "strcmp (key_text (mem s) a) k < 0" "r = \<langle>\<rangle>"
    | "strcmp (key_text (mem s) a) k < 0" "r \<noteq> \<langle>\<rangle>" by linarith
  then show ?case
  proof cases
    case 3
    from Node.IH(1) [OF sub(1)] 3 show ?thesis
      unfolding step using n null by (simp add: Let_def key_text_def field_mem del: mem_fields)
  next
    case 5
    from Node.IH(2) [OF sub(2)] 5 show ?thesis
      unfolding step using n null by (simp add: Let_def key_text_def field_mem del: mem_fields)
  qed (unfold step, use n null in \<open>simp_all add: Let_def split_beta key_text_def field_mem del: mem_fields\<close>)
qed

end
