(* ===== verification/FiestaMap.thy ===== *)
theory FiestaMap
  imports BugFiesta
begin

text \<open>
  The tree of \<^verbatim>\<open>bug_fiesta.c\<close> implements a finite map: \<^verbatim>\<open>strcmp\<close> is a strict order, the blocks of the
  allocator are disjoint, and \<^verbatim>\<open>put\<close> and \<^verbatim>\<open>get\<close> are update and lookup of the map of keys to values.
\<close>

section \<open>The order of the keys\<close>

lemma strcmp_zero [simp]: "strcmp xs ys = 0 \<longleftrightarrow> xs = ys"
  by (induction xs ys rule: strcmp.induct) auto

lemma strcmp_self [simp]: "strcmp xs xs = 0"
  by simp

lemma of_char_antisym: "\<not> (of_char c :: nat) < of_char d \<Longrightarrow> \<not> (of_char d :: nat) < of_char c \<Longrightarrow> c = d"
  by (simp add: not_less)

lemma strcmp_sym: "strcmp ys xs = - strcmp xs ys"
  by (induction xs ys rule: strcmp.induct) (auto dest: of_char_antisym)

lemma strcmp_trans: "strcmp xs ys < 0 \<Longrightarrow> strcmp ys zs < 0 \<Longrightarrow> strcmp xs zs < 0"
proof (induction xs ys arbitrary: zs rule: strcmp.induct)
  case (2 d ds)
  then show ?case by (cases zs) auto
next
  case (4 c cs d ds)
  then show ?case by (cases zs) (auto split: if_splits)
qed auto

abbreviation before_in :: "(u64 \<Rightarrow> string) \<Rightarrow> u64 \<Rightarrow> u64 \<Rightarrow> bool" where
  "before_in K a b \<equiv> strcmp (K a) (K b) < 0"

lemma before_in_ne: "before_in K a b \<Longrightarrow> K a \<noteq> K b"
  by auto

lemma bst_distinct:
  assumes "bst_wrt (before_in K) t"
  shows "distinct (map K (inorder t))"
  using assms
proof (induction t)
  case (Node l a r)
  then have "before_in K x a" "before_in K a y" if "x \<in> set_tree l" "y \<in> set_tree r" for x y using that by auto
  moreover from this have "K x \<noteq> K y" if "x \<in> set_tree l" "y \<in> set_tree r" for x y
    using that strcmp_trans before_in_ne [of K x y] by blast
  moreover have "K x \<noteq> K a" if "x \<in> set_tree l \<union> set_tree r" for x
    using Node.prems that before_in_ne [of K] by (auto dest: before_in_ne)
  ultimately show ?case using Node by (auto simp: image_iff)
qed simp

lemma bst_cong:
  assumes "\<And>a. a \<in> set_tree t \<Longrightarrow> K a = K' a"
  shows "bst_wrt (before_in K) t \<longleftrightarrow> bst_wrt (before_in K') t"
  using assms by (induction t) auto

lemma place_cong:
  assumes "\<And>a. a \<in> set_tree t \<Longrightarrow> K a = K' a"
  shows "place_of K k t = place_of K' k t"
  using assms by (induction t) auto

text \<open>The search finds the node of the key, if there is one.\<close>

lemma place_found:
  assumes "bst_wrt (before_in K) t"
  shows "place_of K k t = Found a \<longleftrightarrow> a \<in> set_tree t \<and> K a = k"
  using assms
proof (induction t)
  case (Node l b r)
  consider "K b = k" | "strcmp (K b) k > 0" | "strcmp (K b) k < 0" using strcmp_zero by (metis linorder_neqE)
  then show ?case
  proof cases
    case 1
    have "a = b" if "a \<in> set_tree \<langle>l, b, r\<rangle>" "K a = k" using Node.prems that 1 before_in_ne [of K] by force
    with 1 show ?thesis by auto
  next
    case 2
    then have "K b \<noteq> k" by auto
    moreover have "K x \<noteq> k" if "x \<in> set_tree r" for x
      using Node.prems that 2 by (auto simp: strcmp_sym [of "K b"])
    ultimately show ?thesis using Node 2 by auto
  next
    case 3
    then have "K b \<noteq> k" by auto
    moreover have "K x \<noteq> k" if "x \<in> set_tree l" for x
      using Node.prems that 3 by (auto simp: strcmp_sym [of "K b"])
    ultimately show ?thesis using Node 3 by auto
  qed
qed simp

lemma place_in: "place_of K k t \<in> {Found a, Left_of a, Right_of a} \<Longrightarrow> a \<in> set_tree t"
  by (induction t) (auto split: if_splits)

lemma place_root: "place_of K k t = At_root \<longleftrightarrow> t = \<langle>\<rangle>"
proof (induction t)
  case (Node l a r)
  then show ?case by (cases l; cases r) auto
qed simp

section \<open>Insertion of a node\<close>

fun grow :: "(u64 \<Rightarrow> string) \<Rightarrow> string \<Rightarrow> u64 \<Rightarrow> u64 tree \<Rightarrow> u64 tree" where
  "grow K k n \<langle>\<rangle> = \<langle>\<langle>\<rangle>, n, \<langle>\<rangle>\<rangle>"
| "grow K k n \<langle>l, a, r\<rangle> = (if strcmp (K a) k > 0 then \<langle>grow K k n l, a, r\<rangle> else \<langle>l, a, grow K k n r\<rangle>)"

lemma grow_set [simp]: "set_tree (grow K k n t) = insert n (set_tree t)"
  by (induction t) auto

lemma grow_bst:
  assumes "bst_wrt (before_in K) t" "K n = k" "\<forall>a \<in> set_tree t. K a \<noteq> k"
  shows "bst_wrt (before_in K) (grow K k n t)"
  using assms
proof (induction t)
  case (Node l a r)
  have "strcmp (K a) k \<noteq> 0" using Node.prems by simp
  with Node show ?case by (auto simp: strcmp_sym [of _ "K a"])
qed simp

lemma grow_cong:
  assumes "\<And>a. a \<in> set_tree t \<Longrightarrow> K a = K' a"
  shows "grow K k n t = grow K' k n t"
  using assms by (induction t) auto

lemma represents_cong:
  assumes "\<And>a. a \<in> set_tree t \<Longrightarrow> lefts m a = lefts m' a \<and> rights m a = rights m' a"
  shows "represents m p t \<longleftrightarrow> represents m' p t"
  using assms by (induction t arbitrary: p) auto

lemma represents_grow:
  assumes "represents m p t" "bst_wrt (before_in K) t" "\<forall>a \<in> set_tree t. K a \<noteq> k" "n \<noteq> 0" "n \<notin> set_tree t"
    and "lefts m' n = 0" "rights m' n = 0"
    and "\<And>a. a \<in> set_tree t \<Longrightarrow> lefts m' a = (if place_of K k t = Left_of a then n else lefts m a)"
    and "\<And>a. a \<in> set_tree t \<Longrightarrow> rights m' a = (if place_of K k t = Right_of a then n else rights m a)"
  shows "represents m' (if t = \<langle>\<rangle> then n else p) (grow K k n t)"
  using assms
proof (induction t arbitrary: p)
  case (Node l a r)
  have irr: "a \<notin> set_tree l" "a \<notin> set_tree r" "set_tree l \<inter> set_tree r = {}"
    using bst_distinct [OF Node.prems(2)] by (auto simp: image_iff disjoint_iff)
  have ka: "strcmp (K a) k \<noteq> 0" using Node.prems(3) by simp
  note into = place_in [of K k l] place_in [of K k r]
  have node: "lefts m' b = (if place_of K k \<langle>l, a, r\<rangle> = Left_of b then n else lefts m b)"
    "rights m' b = (if place_of K k \<langle>l, a, r\<rangle> = Right_of b then n else rights m b)" if "b \<in> {a} \<union> set_tree l \<union> set_tree r" for b
    using Node.prems(8,9) that by auto
  show ?case
  proof (cases "strcmp (K a) k > 0")
    case True
    then have pl: "place_of K k \<langle>l, a, r\<rangle> = (if l = \<langle>\<rangle> then Left_of a else place_of K k l)" using ka by simp
    have old: "lefts m b = lefts m' b" "rights m b = rights m' b" if "b \<in> set_tree r" for b
      using node [of b, unfolded pl] into(1) [of b] that irr by (auto split: if_splits)
    have r: "represents m (rights m a) r = represents m' (rights m a) r"
      by (rule represents_cong) (simp add: old)
    have at: "lefts m' a = (if l = \<langle>\<rangle> then n else lefts m a)" "rights m' a = rights m a"
      using node [of a, unfolded pl] into(1) [of a] irr by (auto split: if_splits)
    have "represents m' (if l = \<langle>\<rangle> then n else lefts m a) (grow K k n l)"
    proof (rule Node.IH(1))
      fix b assume b: "b \<in> set_tree l"
      then have "b \<noteq> a" "l \<noteq> \<langle>\<rangle>" using irr by auto
      then show "lefts m' b = (if place_of K k l = Left_of b then n else lefts m b)"
        "rights m' b = (if place_of K k l = Right_of b then n else rights m b)"
        using node [of b, unfolded pl] b by simp_all
    qed (use Node.prems in auto)
    with at r True Node.prems(1) show ?thesis by simp
  next
    case False
    with ka have pl: "place_of K k \<langle>l, a, r\<rangle> = (if r = \<langle>\<rangle> then Right_of a else place_of K k r)" by simp
    have old: "lefts m b = lefts m' b" "rights m b = rights m' b" if "b \<in> set_tree l" for b
      using node [of b, unfolded pl] into(2) [of b] that irr by (auto split: if_splits)
    have l: "represents m (lefts m a) l = represents m' (lefts m a) l"
      by (rule represents_cong) (simp add: old)
    have at: "rights m' a = (if r = \<langle>\<rangle> then n else rights m a)" "lefts m' a = lefts m a"
      using node [of a, unfolded pl] into(2) [of a] irr by (auto split: if_splits)
    have "represents m' (if r = \<langle>\<rangle> then n else rights m a) (grow K k n r)"
    proof (rule Node.IH(2))
      fix b assume b: "b \<in> set_tree r"
      then have "b \<noteq> a" "r \<noteq> \<langle>\<rangle>" using irr by auto
      then show "lefts m' b = (if place_of K k r = Left_of b then n else lefts m b)"
        "rights m' b = (if place_of K k r = Right_of b then n else rights m b)"
        using node [of b, unfolded pl] b by simp_all
    qed (use Node.prems in auto)
    with at l False Node.prems(1) show ?thesis by simp
  qed
qed simp

section \<open>Disjoint blocks\<close>

text \<open>The blocks of a tree, as start and length: every node, and every string with its end mark.\<close>

definition block :: "tree_memory \<Rightarrow> u64 \<times> bool \<Rightarrow> u64 \<times> nat" where
  "block m x = (if snd x then (fst x, 32) else (keys m (fst x), length (key_text m (fst x)) + 1))"

abbreviation tree_blocks :: "u64 tree \<Rightarrow> (u64 \<times> bool) set" where
  "tree_blocks t \<equiv> set_tree t \<times> UNIV"

fun apart :: "u64 \<times> nat \<Rightarrow> u64 \<times> nat \<Rightarrow> bool" where
  "apart (a, i) (b, j) \<longleftrightarrow> unat a + i \<le> unat b \<or> unat b + j \<le> unat a"

definition allocated_to :: "fiesta_env \<Rightarrow> tree_memory \<Rightarrow> nat" where
  "allocated_to E m = unat (memory E) + 64 + unat (cur m)"

fun allocated :: "fiesta_env \<Rightarrow> tree_memory \<Rightarrow> u64 \<times> nat \<Rightarrow> bool" where
  "allocated E m (a, i) \<longleftrightarrow> unat (memory E) + 64 \<le> unat a \<and> unat a + i \<le> allocated_to E m"

text \<open>The cell \<open>tree_ptr\<close> and all blocks lie in what is allocated, and no two of them overlap.\<close>

definition separated :: "fiesta_env \<Rightarrow> tree_memory \<Rightarrow> u64 tree \<Rightarrow> bool" where
  "separated E m t \<longleftrightarrow>
     allocated_to E m < 2 ^ 64 \<and> allocated E m (tree_ptr E, 8) \<and>
     (\<forall>x \<in> tree_blocks t. allocated E m (block m x) \<and> apart (block m x) (tree_ptr E, 8) \<and>
        (\<forall>y \<in> tree_blocks t. x \<noteq> y \<longrightarrow> apart (block m x) (block m y)))"

definition tree_inv :: "fiesta_env \<Rightarrow> tree_memory \<Rightarrow> u64 tree \<Rightarrow> bool" where
  "tree_inv E m t \<longleftrightarrow> represents m (root m) t \<and> bst_wrt (before_in (key_text m)) t \<and> separated E m t"

text \<open>Room for one more node with the key \<open>k\<close>.\<close>

definition room :: "fiesta_env \<Rightarrow> string \<Rightarrow> tree_memory \<Rightarrow> bool" where
  "room E k m \<longleftrightarrow> allocated_to E m + 33 + length k < 2 ^ 64"

lemma next_free_unat:
  assumes "room E k m"
  shows "unat (next_free E m) = allocated_to E m" "unat (next_free E m + 32) = allocated_to E m + 32"
    "unat (cur m + 32 + (of_nat (length k) + 1)) = unat (cur m) + 33 + length k"
proof -
  note room = assms [unfolded room_def allocated_to_def]
  have n: "unat (memory E + 64 + cur m) = unat (memory E) + 64 + unat (cur m)"
    using room by (subst unat_plus_no_wrap; simp add: unat_plus_no_wrap)+
  then show "unat (next_free E m) = allocated_to E m" by (simp add: next_free_def allocated_to_def)
  show "unat (next_free E m + 32) = allocated_to E m + 32"
    using room n by (subst unat_plus_no_wrap) (simp_all add: next_free_def allocated_to_def)
  have k: "unat (of_nat (length k) + 1 :: u64) = length k + 1"
    using room by (subst unat_plus_no_wrap) simp_all
  have c: "unat (cur m + 32) = unat (cur m) + 32" using room by (subst unat_plus_no_wrap) simp_all
  show "unat (cur m + 32 + (of_nat (length k) + 1)) = unat (cur m) + 33 + length k"
    using room by (subst unat_plus_no_wrap) (simp_all add: c k)
qed

lemma next_free_fresh:
  assumes "separated E m t" "room E k m" "a \<in> set_tree t"
  shows "a \<noteq> next_free E m" "keys m a \<noteq> next_free E m + 32" "next_free E m \<noteq> 0"
proof -
  have "(a, c) \<in> tree_blocks t" for c using assms(3) by simp
  with assms(1) have b: "allocated E m (block m (a, True))" "allocated E m (block m (a, False))"
    unfolding separated_def by blast+
  note b = b [unfolded block_def, simplified]
  show "a \<noteq> next_free E m" using b(1) next_free_unat(1) [OF assms(2)] by auto
  show "keys m a \<noteq> next_free E m + 32" using b(2) next_free_unat(2) [OF assms(2)] by auto
  show "next_free E m \<noteq> 0" using b(1) next_free_unat(1) [OF assms(2)] by (auto simp: allocated_to_def)
qed

lemma next_free_not_null: "room E k m \<Longrightarrow> next_free E m \<noteq> 0"
  using next_free_unat(1) [of E k m] by (auto simp: allocated_to_def)

lemma with_node_fields [simp]:
  "lefts (with_node E k v m) = (lefts m)(next_free E m := 0)"
  "rights (with_node E k v m) = (rights m)(next_free E m := 0)"
  "keys (with_node E k v m) = (keys m)(next_free E m := next_free E m + 32)"
  "vals (with_node E k v m) = (vals m)(next_free E m := v)"
  "texts (with_node E k v m) = (texts m)(next_free E m + 32 := k)"
  "cur (with_node E k v m) = cur m + 32 + (of_nat (length k) + 1)"
  by (simp_all add: with_node_def Let_def)

lemma put_at_blocks:
  assumes "place_of (key_text m) k t = pl" "\<nexists>a. pl = Found a"
  shows "keys (put_at E k v pl m) = (keys m)(next_free E m := next_free E m + 32)"
    "texts (put_at E k v pl m) = (texts m)(next_free E m + 32 := k)"
    "vals (put_at E k v pl m) = (vals m)(next_free E m := v)"
    "cur (put_at E k v pl m) = cur m + 32 + (of_nat (length k) + 1)"
  using assms by (cases pl; simp)+

lemma allocated_apart:
  "allocated E m x \<Longrightarrow> allocated_to E m \<le> unat (fst y) \<Longrightarrow> apart x y \<and> apart y x"
  by (cases x; cases y) auto

lemma allocated_mono: "allocated E m x \<Longrightarrow> allocated_to E m \<le> allocated_to E m' \<Longrightarrow> allocated E m' x"
  by (cases x) auto

lemma separated_insert:
  assumes sep: "separated E m t" and room: "room E k m"
    and old: "\<And>x. x \<in> tree_blocks t \<Longrightarrow> block m' x = block m x"
    and new: "block m' (next_free E m, True) = (next_free E m, 32)"
      "block m' (next_free E m, False) = (next_free E m + 32, length k + 1)"
    and top: "cur m' = cur m + 32 + (of_nat (length k) + 1)" and t': "set_tree t' = insert (next_free E m) (set_tree t)"
  shows "separated E m' t'"
proof -
  note unats = next_free_unat [OF room]
  have top': "allocated_to E m' = allocated_to E m + 33 + length k"
    unfolding allocated_to_def top unats(3) by simp
  have blocks: "x \<in> tree_blocks t' \<longleftrightarrow> x \<in> tree_blocks t \<or> x = (next_free E m, True) \<or> x = (next_free E m, False)" for x
    using t' by (cases x) auto
  have cell: "allocated E m (tree_ptr E, 8)" and each: "\<And>x. x \<in> tree_blocks t \<Longrightarrow> allocated E m (block m x)"
    and pairs: "\<And>x. x \<in> tree_blocks t \<Longrightarrow> apart (block m x) (tree_ptr E, 8)"
      "\<And>x y. x \<in> tree_blocks t \<Longrightarrow> y \<in> tree_blocks t \<Longrightarrow> x \<noteq> y \<Longrightarrow> apart (block m x) (block m y)"
    using sep by (auto simp: separated_def)
  have fresh: "allocated E m' (block m' x) \<and> (\<forall>z. allocated E m z \<longrightarrow> apart (block m' x) z \<and> apart z (block m' x))"
    if "x = (next_free E m, True) \<or> x = (next_free E m, False)" for x
    using that
  proof
    assume x: "x = (next_free E m, True)"
    show ?thesis
      unfolding x new using allocated_apart [of E m _ "(next_free E m, 32)"]
      by (auto simp: unats top') (simp_all add: allocated_to_def)
  next
    assume x: "x = (next_free E m, False)"
    show ?thesis
      unfolding x new using allocated_apart [of E m _ "(next_free E m + 32, length k + 1)"]
      by (auto simp: unats top') (simp_all add: allocated_to_def)
  qed
  have two: "apart (block m' (next_free E m, b)) (block m' (next_free E m, b'))" if "b \<noteq> b'" for b b'
    using that new by (cases b; cases b') (simp_all add: unats)
  show ?thesis
    unfolding separated_def
  proof (intro conjI ballI impI)
    show "allocated_to E m' < 2 ^ 64" using room by (simp add: top' room_def)
    show "allocated E m' (tree_ptr E, 8)" by (rule allocated_mono [OF cell]) (simp add: top')
    fix x assume x: "x \<in> tree_blocks t'"
    show "allocated E m' (block m' x)"
      using x fresh [of x] allocated_mono [OF each [of x], of m'] unfolding blocks by (auto simp: old top')
    show "apart (block m' x) (tree_ptr E, 8)" using x fresh [of x] cell pairs(1) [of x] unfolding blocks by (auto simp: old)
    fix y assume y: "y \<in> tree_blocks t'" "x \<noteq> y"
    show "apart (block m' x) (block m' y)"
    proof (cases "x \<in> tree_blocks t")
      case True
      note x' = each [OF this] old [OF this] pairs(2) [OF this]
      show ?thesis
      proof (cases "y \<in> tree_blocks t")
        case True
        with x' y(2) show ?thesis by (simp add: old)
      next
        case False
        with y(1) have "y = (next_free E m, True) \<or> y = (next_free E m, False)" unfolding blocks by simp
        from fresh [OF this] x'(1) show ?thesis unfolding x'(2) by blast
      qed
    next
      case False
      with x have x': "x = (next_free E m, True) \<or> x = (next_free E m, False)" unfolding blocks by simp
      show ?thesis
      proof (cases "y \<in> tree_blocks t")
        case True
        from fresh [OF x'] each [OF True] show ?thesis unfolding old [OF True] by blast
      next
        case False
        with y(1) have "y = (next_free E m, True) \<or> y = (next_free E m, False)" unfolding blocks by simp
        with x' y(2) two [of True False] two [of False True] show ?thesis by auto
      qed
    qed
  qed
qed

section \<open>The map\<close>

definition contents :: "tree_memory \<Rightarrow> u64 tree \<Rightarrow> (string \<rightharpoonup> u32)" where
  "contents m t = map_of (map (\<lambda>a. (key_text m a, vals m a)) (inorder t))"

lemma contents_iff:
  assumes "bst_wrt (before_in (key_text m)) t"
  shows "contents m t k = Some v \<longleftrightarrow> (\<exists>a \<in> set_tree t. key_text m a = k \<and> vals m a = v)"
proof -
  have "distinct (map fst (map (\<lambda>a. (key_text m a, vals m a)) (inorder t)))"
    using bst_distinct [OF assms] by (simp add: comp_def)
  from map_of_distinct_iff [OF this] show ?thesis by (auto simp: contents_def)
qed

lemma contents_eqI:
  assumes "bst_wrt (before_in (key_text m)) t"
    and "\<And>j w. (\<exists>a \<in> set_tree t. key_text m a = j \<and> vals m a = w) \<longleftrightarrow> f j = Some w"
  shows "contents m t = f"
  using contents_iff [OF assms(1)] assms(2) by (intro ext option.expand) (metis not_Some_eq option.sel)+

lemma contents_place:
  assumes "bst_wrt (before_in (key_text m)) t"
  shows "contents m t k = (case place_of (key_text m) k t of Found a \<Rightarrow> Some (vals m a) | _ \<Rightarrow> None)"
proof (cases "contents m t k")
  case None
  then have "\<nexists>a. place_of (key_text m) k t = Found a"
    using contents_iff [OF assms] place_found [OF assms] by (metis not_Some_eq)
  with None show ?thesis by (cases "place_of (key_text m) k t") auto
next
  case (Some v)
  then obtain a where a: "a \<in> set_tree t" "key_text m a = k" "vals m a = v" using contents_iff [OF assms] by blast
  then have "place_of (key_text m) k t = Found a" using place_found [OF assms] by blast
  with a Some show ?thesis by simp
qed

text \<open>Insertion of a missing key.\<close>

lemma put_at_new:
  fixes v :: u32
  assumes inv: "tree_inv E m t" and room: "room E k m" and pl: "place_of (key_text m) k t = pl" "\<nexists>a. pl = Found a"
  defines "m' \<equiv> put_at E k v pl m" and "t' \<equiv> grow (key_text m) k (next_free E m) t"
  shows "tree_inv E m' t'" "contents m' t' = (contents m t)(k \<mapsto> v)"
proof -
  let ?n = "next_free E m" and ?K = "key_text m" and ?K' = "key_text m'"
  note bst = inv [unfolded tree_inv_def, THEN conjunct2, THEN conjunct1]
  note rep = inv [unfolded tree_inv_def, THEN conjunct1]
  note sep = inv [unfolded tree_inv_def, THEN conjunct2, THEN conjunct2]
  have missing: "\<forall>a \<in> set_tree t. ?K a \<noteq> k" using place_found [OF bst] pl by auto
  note fresh = next_free_fresh [OF sep room]
  have n: "?n \<notin> set_tree t" using fresh(1) by blast
  note fields = put_at_blocks [OF pl, of E v, folded m'_def]
  have K: "?K' a = ?K a" if "a \<in> set_tree t" for a
    using fresh(1,2) [OF that] by (simp add: key_text_def fields)
  have Kn: "?K' ?n = k" by (simp add: key_text_def fields)
  have t': "t' = grow ?K' k ?n t" unfolding t'_def by (rule grow_cong) (simp add: K)
  have bst': "bst_wrt (before_in ?K') t'"
    unfolding t' using bst_cong [of t ?K' ?K] K bst Kn missing by (intro grow_bst) auto
  have "root m' = (if t = \<langle>\<rangle> then ?n else root m)"
    using pl place_root [of ?K k t] by (cases pl) (auto simp: m'_def with_node_def Let_def)
  moreover have "represents m' (if t = \<langle>\<rangle> then ?n else root m) t'"
    unfolding t'_def
  proof (rule represents_grow [OF rep bst missing next_free_not_null [OF room] n])
    have in_t: "pl \<in> {Left_of a, Right_of a} \<Longrightarrow> a \<noteq> ?n" for a using place_in [of ?K k t a] pl n by auto
    then show "lefts m' ?n = 0" "rights m' ?n = 0" using pl(2) by (cases pl; auto simp: m'_def)+
    fix a assume a: "a \<in> set_tree t"
    then show "lefts m' a = (if place_of ?K k t = Left_of a then ?n else lefts m a)"
      "rights m' a = (if place_of ?K k t = Right_of a then ?n else rights m a)"
      using fresh(1) [OF a] pl by (cases pl; auto simp: m'_def)+
  qed
  moreover have "separated E m' t'"
  proof (rule separated_insert [OF sep room])
    fix x assume "x \<in> tree_blocks t"
    then show "block m' x = block m x" using fresh(1) K by (cases x) (auto simp: block_def fields)
  qed (simp_all add: t'_def fields Kn block_def)
  ultimately show "tree_inv E m' t'" using bst' by (simp add: tree_inv_def)
  show "contents m' t' = (contents m t)(k \<mapsto> v)"
  proof (rule contents_eqI [OF bst'])
    fix j w
    have "vals m' a = vals m a" if "a \<in> set_tree t" for a using fresh(1) [OF that] by (simp add: fields)
    then show "(\<exists>a \<in> set_tree t'. ?K' a = j \<and> vals m' a = w) \<longleftrightarrow> ((contents m t)(k \<mapsto> v)) j = Some w"
      using contents_iff [OF bst, of j w] missing K Kn by (auto simp: t'_def fields)
  qed
qed

text \<open>An update of a key that is there.\<close>

lemma put_at_found:
  assumes inv: "tree_inv E m t" and pl: "place_of (key_text m) k t = Found a"
  shows "tree_inv E (put_at E k v (Found a) m) t" "contents (put_at E k v (Found a) m) t = (contents m t)(k \<mapsto> v)"
proof -
  let ?m' = "put_at E k v (Found a) m"
  have K: "key_text ?m' = key_text m" by (simp add: key_text_def fun_eq_iff)
  have bst: "bst_wrt (before_in (key_text m)) t" using inv by (simp add: tree_inv_def)
  have a: "a \<in> set_tree t" "key_text m a = k" using place_found [OF bst] pl by auto
  have blocks: "block ?m' x = block m x" for x unfolding block_def K by simp
  have alloc: "allocated_to E ?m' = allocated_to E m" "allocated E ?m' x = allocated E m x" for x
    by (cases x; simp add: allocated_to_def)+
  have "represents ?m' (root m) t = represents m (root m) t" by (rule represents_cong) simp
  moreover have "separated E ?m' t = separated E m t"
    unfolding separated_def blocks alloc by (simp only: alloc(1))
  moreover have "root ?m' = root m" by simp
  ultimately show "tree_inv E ?m' t" using inv unfolding tree_inv_def K by (simp only:)
  show "contents ?m' t = (contents m t)(k \<mapsto> v)"
  proof (rule contents_eqI)
    fix j w
    have other: "key_text m b \<noteq> k" if "b \<in> set_tree t" "b \<noteq> a" for b
      using that a bst_distinct [OF bst] by (auto simp: distinct_map dest: inj_onD)
    show "(\<exists>b \<in> set_tree t. key_text ?m' b = j \<and> vals ?m' b = w) \<longleftrightarrow> ((contents m t)(k \<mapsto> v)) j = Some w"
    proof (cases "j = k")
      case False
      then have "key_text m b = j \<and> vals ?m' b = w \<longleftrightarrow> key_text m b = j \<and> vals m b = w" for b using a(2) by auto
      with False contents_iff [OF bst, of j w] show ?thesis unfolding K by simp
    qed (use a other K in auto)
  qed (unfold K, rule bst)
qed

section \<open>\<^verbatim>\<open>put\<close> and \<^verbatim>\<open>get\<close>\<close>

definition tree_after :: "fiesta_env \<Rightarrow> string \<Rightarrow> tree_memory \<Rightarrow> u64 tree \<Rightarrow> u64 tree" where
  "tree_after E k m t =
     (case place_of (key_text m) k t of Found a \<Rightarrow> t | _ \<Rightarrow> grow (key_text m) k (next_free E m) t)"

lemma put_place:
  assumes "represents (mem s) (root s) t"
  obtains s' where "put E tid k v s = Some (put_result E (place_of (key_text (mem s)) k t) (mem s), s')"
    "mem s' = put_at E k v (place_of (key_text (mem s)) k t) (mem s)"
proof -
  let ?s1 = "reads E tid 127 (tree_ptr E) 8 (lib_call E tid 126 [EvLock tid (tree_lock E)] s)"
  have "represents (mem ?s1) (root s) t" using assms by simp
  from put_loop_place [OF this, of E tid k v] that show thesis
    by (auto simp: put_def Let_def field_mem simp del: mem_fields)
qed

lemma put_updates:
  assumes inv: "tree_inv E (mem s) t" and room: "room E k (mem s)"
  obtains n s' where "put E tid k v s = Some (n, s')" "tree_inv E (mem s') (tree_after E k (mem s) t)"
    "contents (mem s') (tree_after E k (mem s) t) = (contents (mem s) t)(k \<mapsto> v)"
proof -
  let ?pl = "place_of (key_text (mem s)) k t"
  from inv have "represents (mem s) (root s) t" by (simp add: tree_inv_def)
  from put_place [OF this] obtain s' where s': "put E tid k v s = Some (put_result E ?pl (mem s), s')"
    "mem s' = put_at E k v ?pl (mem s)" by blast
  have "tree_inv E (mem s') (tree_after E k (mem s) t) \<and>
    contents (mem s') (tree_after E k (mem s) t) = (contents (mem s) t)(k \<mapsto> v)"
  proof (cases "\<exists>a. ?pl = Found a")
    case True
    then obtain a where "?pl = Found a" by blast
    with put_at_found [OF inv this, of v] s'(2) show ?thesis by (simp add: tree_after_def)
  next
    case False
    then have "tree_after E k (mem s) t = grow (key_text (mem s)) k (next_free E (mem s)) t"
      by (cases ?pl) (auto simp: tree_after_def)
    with put_at_new [OF inv room refl False, of v] s'(2) show ?thesis by simp
  qed
  with s'(1) that show thesis by blast
qed

fun value_at :: "tree_memory \<Rightarrow> place \<Rightarrow> u32" where
  "value_at m (Found a) = vals m a"
| "value_at m pl = DEAULT_VALUE"

lemma get_loop_place:
  assumes "represents (mem s) n t"
  shows "\<exists>s'. get_loop E tid k n s = Some (value_at (mem s) (place_of (key_text (mem s)) k t), s') \<and>
    mem s' = mem s"
  using assms
proof (induction t arbitrary: n s)
  case Leaf
  then show ?case by (subst get_loop.simps) simp
next
  case (Node l a r)
  let ?s1 = "lib_call E tid 168 [] (reads E tid 168 (a + 16) 8 s)"
  let ?l2 = "reads E tid 175 a 8 ?s1" and ?r2 = "reads E tid 177 (a + 8) 8 ?s1"
  from Node.prems have n: "n = a" "a \<noteq> 0" and sub: "represents (mem ?l2) (lefts s a) l" "represents (mem ?r2) (rights s a) r"
    by simp_all
  note step = get_loop.simps [of E tid k n s]
  consider "strcmp (key_text (mem s) a) k = 0" | "strcmp (key_text (mem s) a) k > 0" | "strcmp (key_text (mem s) a) k < 0"
    by linarith
  then show ?case
  proof cases
    case 1
    then show ?thesis unfolding step using n by (simp add: Let_def key_text_def field_mem del: mem_fields)
  next
    case 2
    have "place_of (key_text (mem s)) k \<langle>l, a, r\<rangle> = Left_of a \<and> l = \<langle>\<rangle> \<or>
        place_of (key_text (mem s)) k \<langle>l, a, r\<rangle> = place_of (key_text (mem s)) k l" using 2 by auto
    with Node.IH(1) [OF sub(1)] 2 show ?thesis
      unfolding step using n by (auto simp: Let_def key_text_def [of "mem s" a] field_mem simp del: mem_fields place_of.simps(2))
  next
    case 3
    have "place_of (key_text (mem s)) k \<langle>l, a, r\<rangle> = Right_of a \<and> r = \<langle>\<rangle> \<or>
        place_of (key_text (mem s)) k \<langle>l, a, r\<rangle> = place_of (key_text (mem s)) k r" using 3 by auto
    with Node.IH(2) [OF sub(2)] 3 show ?thesis
      unfolding step using n by (auto simp: Let_def key_text_def [of "mem s" a] field_mem simp del: mem_fields place_of.simps(2))
  qed
qed

lemma get_finds:
  assumes inv: "tree_inv E (mem s) t"
  obtains s' where "get_value E tid k s = Some (case contents (mem s) t k of None \<Rightarrow> DEAULT_VALUE | Some v \<Rightarrow> v, s')"
    "mem s' = mem s"
proof -
  let ?s1 = "reads E tid 166 (tree_ptr E) 8 (lib_call E tid 165 [EvLock tid (tree_lock E)] s)"
  from inv have rep: "represents (mem ?s1) (root ?s1) t" and bst: "bst_wrt (before_in (key_text (mem s))) t"
    by (simp_all add: tree_inv_def field_mem del: mem_fields)
  from get_loop_place [OF rep, of E tid k] obtain s' where "get_loop E tid k (root ?s1) ?s1 =
      Some (value_at (mem s) (place_of (key_text (mem s)) k t), s')" "mem s' = mem s"
    by (auto simp: field_mem simp del: mem_fields)
  moreover have "value_at (mem s) (place_of (key_text (mem s)) k t) =
      (case contents (mem s) t k of None \<Rightarrow> DEAULT_VALUE | Some v \<Rightarrow> v)"
    unfolding contents_place [OF bst] by (simp split: place.split)
  ultimately show thesis using that by (simp add: get_value_def Let_def)
qed

end
