(* ===== verification/FiestaEvents.thy ===== *)
theory FiestaEvents
  imports FiestaMap
begin

text \<open>
  What the functions of \<^verbatim>\<open>bug_fiesta.c\<close> append to the trace. Every function leaves the call stack as it
  was, and what holds of the callbacks of library code, of the accesses to the pool's
  metadata and of the writes of nodes holds of everything it does (\<open>runs\<close>). So no function flushes a
  node, and no later insertion writes the cell that holds the root.
\<close>

section \<open>Appended callbacks\<close>

definition runs :: "(event \<Rightarrow> bool) \<Rightarrow> nat \<Rightarrow> fiesta \<Rightarrow> fiesta \<Rightarrow> bool" where
  "runs P t s s' \<longleftrightarrow>
     (\<exists>es. trace s' = trace s @ es \<and> (\<forall>e \<in> set es. P e) \<and> (\<forall>st. fold (stack_step t) es st = st))"

lemma runs_refl [simp]: "trace s' = trace s \<Longrightarrow> runs P t s s'"
  by (simp add: runs_def)

lemma runs_trans [trans]: "runs P t s1 s2 \<Longrightarrow> runs P t s2 s3 \<Longrightarrow> runs P t s1 s3"
  unfolding runs_def by fastforce

lemma runs_mono: "runs P t s s' \<Longrightarrow> (\<And>e. P e \<Longrightarrow> Q e) \<Longrightarrow> runs Q t s s'"
  unfolding runs_def by blast

lemma runs_update [simp]:
  "runs P t s0 (s\<lparr>cur := c\<rparr>) \<longleftrightarrow> runs P t s0 s" "runs P t s0 (s\<lparr>root := r\<rparr>) \<longleftrightarrow> runs P t s0 s"
  "runs P t s0 (s\<lparr>lefts := f\<rparr>) \<longleftrightarrow> runs P t s0 s" "runs P t s0 (s\<lparr>rights := f\<rparr>) \<longleftrightarrow> runs P t s0 s"
  "runs P t s0 (s\<lparr>keys := f\<rparr>) \<longleftrightarrow> runs P t s0 s" "runs P t s0 (s\<lparr>vals := w\<rparr>) \<longleftrightarrow> runs P t s0 s"
  "runs P t s0 (s\<lparr>texts := x\<rparr>) \<longleftrightarrow> runs P t s0 s"
  by (simp_all add: runs_def)

lemma runs_emit:
  assumes "runs P t s0 s" "\<forall>e \<in> set es. P e" "\<And>st. fold (stack_step t) es st = st"
  shows "runs P t s0 (emit es s)"
  using runs_trans [OF assms(1), of "emit es s"] assms(2,3) by (auto simp: runs_def emit_def)

text \<open>A call puts its address on the stack and its return takes it off.\<close>

lemma runs_called:
  assumes "P (EvCall t a)" "P (EvRet t)" "runs P t (emit [EvCall t a] s) s'"
  shows "runs P t s (emit [EvRet t] s')"
proof -
  obtain es where "trace s' = (trace s @ [EvCall t a]) @ es" "\<forall>e \<in> set es. P e" "\<forall>st. fold (stack_step t) es st = st"
    using assms(3) by (auto simp: runs_def emit_def)
  with assms(1,2) show ?thesis
    unfolding runs_def by (intro exI [of _ "EvCall t a # es @ [EvRet t]"]) (auto simp: emit_def)
qed

text \<open>The callbacks that all functions have in common.\<close>

definition common_events :: "fiesta_env \<Rightarrow> nat \<Rightarrow> (event \<Rightarrow> bool) \<Rightarrow> bool" where
  "common_events E t P \<longleftrightarrow>
     (\<forall>j n i. (\<forall>e \<in> set (libs E j t n i). P e) \<and> (\<forall>st. fold (stack_step t) (libs E j t n i) st = st)) \<and>
     (\<forall>a. P (EvCall t a)) \<and> P (EvRet t) \<and> (\<forall>c a sz. P (EvRead t c a sz 0)) \<and>
     (\<forall>m. P (EvLock t m) \<and> P (EvUnlock t m)) \<and> (\<forall>c. P (EvFence t c)) \<and>
     P (EvFlush t (memory E) CLWB) \<and> (\<forall>c. P (EvWrite t c (memory E) 8 STORE))"

lemma runs_writes: "runs P t s0 s \<Longrightarrow> P (EvWrite t (pcs E n) a sz STORE) \<Longrightarrow> runs P t s0 (writes E t n a sz s)"
  unfolding writes_def by (rule runs_emit) auto

lemma flush_one [simp]: "0 < i \<Longrightarrow> i \<le> 64 \<Longrightarrow> flush t a i = [EvFlush t a CLWB]"
  by (simp add: flush_def flush_lines.simps [of a i] flush_lines.simps [of "a + 64" "i - 64"])

lemma runs_lib_call:
  assumes ok: "common_events E t P" and run: "runs P t s0 s"
    and es: "\<forall>e \<in> set es. P e \<and> (\<forall>st. stack_step t e st = st)"
  shows "runs P t s0 (lib_call E t n es s)"
proof -
  have lib: "\<forall>e \<in> set (libs E j t n i). P e" "fold (stack_step t) (libs E j t n i) st = st" for j n i st
    using ok by (auto simp: common_events_def)
  have "(\<forall>e \<in> set (weave (libs E j t n) i es). P e) \<and> (\<forall>st. fold (stack_step t) (weave (libs E j t n) i es) st = st)" for j i
    using es lib by (induction es arbitrary: i) auto
  then show ?thesis
    unfolding lib_call_def library_call_def call_def using ok run
    by (intro runs_emit) (auto simp: common_events_def)
qed

lemma runs_lib_calls:
  assumes ok: "common_events E t P" and run: "runs P t s0 s"
  shows "runs P t s0 (lib_call E t n [] s)" "runs P t s0 (lib_call E t n [EvLock t m] s)" "runs P t s0 (lib_call E t n [EvUnlock t m] s)"
  using ok by (auto intro!: runs_lib_call [OF ok run] simp: common_events_def)

lemma runs_reads: "common_events E t P \<Longrightarrow> runs P t s0 s \<Longrightarrow> runs P t s0 (reads E t n a sz s)"
  unfolding reads_def by (intro runs_emit) (auto simp: common_events_def)

lemma runs_persist:
  "common_events E t P \<Longrightarrow> runs P t s0 s \<Longrightarrow> 0 < i \<Longrightarrow> i \<le> 64 \<Longrightarrow> P (EvFlush t a CLWB) \<Longrightarrow> runs P t s0 (persist E t n a i s)"
  unfolding persist_def by (intro runs_emit) (auto simp: common_events_def call_def fence_def)

lemma runs_calling:
  assumes ok: "common_events E t P" and run: "runs P t s0 s" and f: "\<And>s'. mem s' = mem s \<Longrightarrow> runs P t s' (snd (f s'))"
  shows "runs P t s0 (snd (calling E t n f s))"
proof -
  have "runs P t (emit [EvCall t (pcs E n)] s) (snd (f (emit [EvCall t (pcs E n)] s)))" by (rule f) simp
  from runs_called [OF _ _ this] ok have "runs P t s (emit [EvRet t] (snd (f (emit [EvCall t (pcs E n)] s))))"
    by (auto simp: common_events_def)
  with run show ?thesis by (auto simp: calling_def intro: runs_trans)
qed

lemma runs_PM_ALLOC:
  assumes ok: "common_events E t P" and run: "runs P t s0 s"
  shows "runs P t s0 (snd (PM_ALLOC E t sz s))"
proof -
  have w: "P (EvWrite t c (memory E) 8 STORE)" "P (EvFlush t (memory E) CLWB)" for c
    using ok by (auto simp: common_events_def)
  show ?thesis
    using run w
    by (auto simp: PM_ALLOC_def Let_def
        intro!: runs_lib_calls [OF ok] runs_reads [OF ok] runs_writes runs_persist [OF ok])
qed

text \<open>The accesses to a node.\<close>

abbreviation node_fields :: "(u64 \<times> u32) set" where
  "node_fields \<equiv> {(0, 8), (8, 8), (16, 8), (24, 4)}"

definition node_writes :: "nat \<Rightarrow> (event \<Rightarrow> bool) \<Rightarrow> u64 \<Rightarrow> bool" where
  "node_writes t P a \<longleftrightarrow> (\<forall>c. \<forall>(off, sz) \<in> node_fields. P (EvWrite t c (a + off) sz STORE))"

lemma node_writesD:
  assumes "node_writes t P a"
  shows "P (EvWrite t c a 8 STORE)" "P (EvWrite t c (a + 8) 8 STORE)" "P (EvWrite t c (a + 16) 8 STORE)" "P (EvWrite t c (a + 24) 4 STORE)"
  using assms by (auto simp: node_writes_def)

lemma runs_new_node:
  assumes ok: "common_events E t P" and run: "runs P t s0 s"
    and node: "node_writes t P (next_free E (mem s))"
  shows "runs P t s0 (snd (new_node E t k v s))"
proof -
  define n where "n = next_free E (mem s)"
  have n: "fst (calling E t 115 (PM_ALLOC E t 32) s) = n" by (simp add: n_def next_free_def field_mem del: mem_fields)
  note w = node_writesD [OF node, folded n_def]
  show ?thesis
    unfolding new_node_def Let_def split_beta n snd_conv
    using run w
    by (auto intro!: runs_lib_calls [OF ok] runs_reads [OF ok] runs_writes runs_calling [OF ok] runs_PM_ALLOC [OF ok])
qed

lemma put_loop_runs:
  assumes ok: "common_events E tid P" and "represents (mem s) n t" and "runs P tid s0 s"
    and "\<And>a. a \<in> set_tree t \<union> {next_free E (mem s)} \<Longrightarrow> node_writes tid P a"
    and "\<And>c. t = \<langle>\<rangle> \<Longrightarrow> P (EvWrite tid c (tree_ptr E) 8 STORE)"
    and "put_loop E tid k v n s = Some r"
  shows "runs P tid s0 (snd r)"
  using assms(2-)
proof (induction t arbitrary: n s)
  case Leaf
  note node = node_writesD [OF Leaf.prems(3)] and put = Leaf.prems(5) [unfolded put_loop.simps [of E tid k v n s]]
  show ?case
    using put Leaf.prems(1,2,4) node
    by (auto simp: Let_def split_beta
        intro!: runs_lib_calls [OF ok] runs_reads [OF ok] runs_writes runs_calling [OF ok] runs_new_node [OF ok] Leaf.prems(3))
next
  case (Node l a r')
  let ?s1 = "lib_call E tid 129 [] (reads E tid 129 (a + 16) 8 s)"
  let ?l2 = "reads E tid 141 a 8 (reads E tid 136 a 8 ?s1)" and ?r2 = "reads E tid 149 (a + 8) 8 (reads E tid 144 (a + 8) 8 ?s1)"
  have n: "n = a" "a \<noteq> 0" and sub: "represents (mem ?l2) (lefts s a) l" "represents (mem ?r2) (rights s a) r'"
    using Node.prems(1) by simp_all
  note null = represents_null [OF sub(1)] represents_null [OF sub(2)]
  note step = put_loop.simps [of E tid k v n s]
  have run: "runs P tid s0 ?s1" "runs P tid s0 ?l2" "runs P tid s0 ?r2"
    using Node.prems(2) by (auto intro!: runs_lib_calls [OF ok] runs_reads [OF ok])
  have own: "node_writes tid P a" and new: "node_writes tid P (next_free E (mem s))" using Node.prems(3) by simp_all
  note w = node_writesD [OF own]
  have nodes: "node_writes tid P x" if "x = next_free E (mem s) \<or> x = a \<or> x \<in> set_tree l \<or> x \<in> set_tree r'" for x
    using Node.prems(3) [of x] that by auto
  have left: "runs P tid s0 (snd r)" if "put_loop E tid k v (lefts s a) ?l2 = Some r" "lefts s a \<noteq> 0"
    by (rule Node.IH(1) [OF sub(1) run(2) _ _ that(1)]) (use null that(2) in \<open>auto intro: nodes\<close>)
  have right: "runs P tid s0 (snd r)" if "put_loop E tid k v (rights s a) ?r2 = Some r" "rights s a \<noteq> 0"
    by (rule Node.IH(2) [OF sub(2) run(3) _ _ that(1)]) (use null that(2) in \<open>auto intro: nodes\<close>)
  note rules = runs_lib_calls [OF ok] runs_reads [OF ok] runs_writes runs_calling [OF ok] runs_new_node [OF ok]
  consider "strcmp (key_text (mem s) a) k = 0" | "strcmp (key_text (mem s) a) k > 0" | "strcmp (key_text (mem s) a) k < 0" by linarith
  then show ?case
  proof cases
    case 1
    then have "put_loop E tid k v n s = Some (a, lib_call E tid 132 [EvUnlock tid (tree_lock E)] (writes E tid 131 (a + 24) 4 (?s1\<lparr>vals := (vals ?s1)(a := v)\<rparr>)))"
      unfolding step using n by (simp add: Let_def key_text_def field_mem del: mem_fields)
    with Node.prems(5) run(1) w show ?thesis by (auto intro!: rules)
  next
    case 2
    then have ne: "key_text (mem s) a \<noteq> k" by auto
    let ?s2 = "reads E tid 136 a 8 ?s1"
    let ?s3 = "snd (calling E tid 137 (new_node E tid k v) ?s2)" and ?a = "fst (calling E tid 137 (new_node E tid k v) ?s2)"
    have "put_loop E tid k v n s = (if lefts s a = 0 then Some (a, lib_call E tid 138 [EvUnlock tid (tree_lock E)]
          (writes E tid 137 a 8 (?s3\<lparr>lefts := (lefts ?s3)(a := ?a)\<rparr>)))
        else put_loop E tid k v (lefts s a) ?l2)"
      unfolding step using n 2 ne by (simp add: Let_def split_beta key_text_def field_mem del: mem_fields)
    with Node.prems(5) left run(1) w new show ?thesis by (auto split: if_splits intro!: rules)
  next
    case 3
    then have ne: "key_text (mem s) a \<noteq> k" by auto
    let ?s2 = "reads E tid 144 (a + 8) 8 ?s1"
    let ?s3 = "snd (calling E tid 145 (new_node E tid k v) ?s2)" and ?a = "fst (calling E tid 145 (new_node E tid k v) ?s2)"
    have "put_loop E tid k v n s = (if rights s a = 0 then Some (a, lib_call E tid 146 [EvUnlock tid (tree_lock E)]
          (writes E tid 145 (a + 8) 8 (?s3\<lparr>rights := (rights ?s3)(a := ?a)\<rparr>)))
        else put_loop E tid k v (rights s a) ?r2)"
      unfolding step using n 3 ne by (simp add: Let_def split_beta key_text_def field_mem del: mem_fields)
    with Node.prems(5) right run(1) w new show ?thesis by (auto split: if_splits intro!: rules)
  qed
qed

lemma put_runs:
  assumes ok: "common_events E tid P" and "represents (mem s) (root s) t" and "runs P tid s0 s"
    and "\<And>a. a \<in> set_tree t \<union> {next_free E (mem s)} \<Longrightarrow> node_writes tid P a"
    and "\<And>c. t = \<langle>\<rangle> \<Longrightarrow> P (EvWrite tid c (tree_ptr E) 8 STORE)"
    and "put E tid k v s = Some r"
  shows "runs P tid s0 (snd r)"
proof -
  let ?s1 = "reads E tid 127 (tree_ptr E) 8 (lib_call E tid 126 [EvLock tid (tree_lock E)] s)"
  have "put_loop E tid k v (root s) ?s1 = Some r"
    using assms(6) by (simp add: put_def Let_def field_mem del: mem_fields)
  moreover have "runs P tid s0 ?s1" using assms(3) by (auto intro!: runs_lib_calls [OF ok] runs_reads [OF ok])
  ultimately show ?thesis using put_loop_runs [OF ok, of ?s1 "root s" t s0 k v r] assms(2,4,5) by simp
qed

end
