(* ===== verification/FiestaPersist.thy ===== *)
theory FiestaPersist
  imports FiestaEvents
begin

text \<open>
  What \<^verbatim>\<open>bug_fiesta.c\<close> leaves unpersisted. Outside the pool's metadata \<^verbatim>\<open>put\<close> flushes nothing it
  writes, and \<^verbatim>\<open>put_persist\<close> persists the line of the node that \<^verbatim>\<open>put\<close> returns: the node with the key,
  or the parent of a new node, which itself stays dirty.
\<close>

section \<open>Callbacks that flush nothing but the metadata\<close>

fun gentle :: "(u64 \<Rightarrow> u32 \<Rightarrow> bool) \<Rightarrow> u64 \<Rightarrow> event \<Rightarrow> bool" where
  "gentle is_pm m (EvFlush t a type) \<longleftrightarrow> (is_pm a 0 \<longrightarrow> CACHE_LINE a = CACHE_LINE m)"
| "gentle is_pm m (EvWrite t ctxt a sz type) \<longleftrightarrow>
     (type = NON_TEMPORAL_STORE \<and> is_pm a sz \<longrightarrow> CACHE_LINE a = CACHE_LINE m)"
| "gentle is_pm m e \<longleftrightarrow> True"

lemma gentle_step:
  assumes "gentle p m e" "CACHE_LINE b \<noteq> CACHE_LINE m" "b \<in> fst DF"
  shows "b \<in> fst (persist_step u p t e DF)"
  using assms by (cases DF; cases e) (auto simp: line_of_def)

lemma gentle_dirty:
  assumes "\<forall>e \<in> set es. gentle p m e" "CACHE_LINE b \<noteq> CACHE_LINE m" "b \<in> fst DF"
  shows "b \<in> fst (fold (persist_step u p t) es DF)"
  using assms(1,3) by (induction es arbitrary: DF) (simp_all add: gentle_step [OF _ assms(2)])

lemma gentle_written:
  assumes es: "\<forall>e \<in> set es. gentle p m e" and line: "CACHE_LINE b \<noteq> CACHE_LINE m"
    and w: "EvWrite t c a sz STORE \<in> set es" "p a sz" "b \<in> set (byte_range a sz)"
  shows "b \<in> fst (fold (persist_step u p t) es DF)"
proof -
  obtain xs ys where split: "es = xs @ EvWrite t c a sz STORE # ys" using split_list [OF w(1)] by blast
  obtain D F where xs: "fold (persist_step u p t) xs DF = (D, F)" by fastforce
  show ?thesis
    unfolding split fold_append comp_apply xs fold_Cons
    by (rule gentle_dirty [OF _ line]) (use es split w in \<open>auto\<close>)
qed

text \<open>The cell of the root.\<close>

definition cell :: "fiesta_env \<Rightarrow> u64 set" where
  "cell E = {b. unat (tree_ptr E) \<le> unat b \<and> unat b < unat (tree_ptr E) + 8}"

text \<open>
  What library code may do: callbacks of its thread other than those of locks, threads and mappings; it
  may use the mutex in the pool and write the strings, but flushes nothing outside the metadata and does
  not write the root.
\<close>

definition fiesta_library :: "(u64 \<Rightarrow> u32 \<Rightarrow> bool) \<Rightarrow> fiesta_env \<Rightarrow> bool" where
  "fiesta_library is_pm E \<longleftrightarrow>
     (\<forall>j. library_ok (\<lambda>_ _. False) (libs E j)) \<and>
     (\<forall>j t n i. \<forall>e \<in> set (libs E j t n i). gentle is_pm (memory E) e \<and> (\<forall>b \<in> cell E. \<not> overwrites is_pm b e))"

definition own_event :: "nat \<Rightarrow> event \<Rightarrow> bool" where
  "own_event t e \<longleftrightarrow> thread_of e = Some t \<and> \<not> clock_change e \<and> \<not> map_event e \<and> \<not> unnamed_lock t e \<and> \<not> creation e"

lemma library_own: "library_event p t e \<Longrightarrow> own_event t e"
  by (cases e) (auto simp: own_event_def)

lemma fiesta_library_facts:
  assumes "fiesta_library p E"
  shows "e \<in> set (libs E j t n i) \<Longrightarrow> own_event t e" "e \<in> set (libs E j t n i) \<Longrightarrow> gentle p (memory E) e"
    "e \<in> set (libs E j t n i) \<Longrightarrow> b \<in> cell E \<Longrightarrow> \<not> overwrites p b e"
    "fold (stack_step t) (libs E j t n i) st = st"
proof -
  have ok: "library_ok (\<lambda>_ _. False) (libs E j)" using assms unfolding fiesta_library_def by blast
  show "own_event t e" if "e \<in> set (libs E j t n i)"
    by (rule library_own [OF ok [unfolded library_ok_def, THEN spec, THEN spec, THEN spec, THEN conjunct1, THEN bspec, OF that]])
  show "fold (stack_step t) (libs E j t n i) st = st" by (rule library_facts(7) [OF ok])
  show "e \<in> set (libs E j t n i) \<Longrightarrow> gentle p (memory E) e"
    "e \<in> set (libs E j t n i) \<Longrightarrow> b \<in> cell E \<Longrightarrow> \<not> overwrites p b e"
    using assms unfolding fiesta_library_def by blast+
qed

lemma common_gentle:
  assumes "fiesta_library p E"
  shows "common_events E t (\<lambda>e. own_event t e \<and> gentle p (memory E) e)"
  using fiesta_library_facts [OF assms] by (auto simp: common_events_def own_event_def)

lemma common_any:
  assumes "fiesta_library p E"
  shows "common_events E t (\<lambda>_. True)"
  using fiesta_library_facts(4) [OF assms] by (simp add: common_events_def)

section \<open>\<^verbatim>\<open>put\<close>\<close>

lemma put_gentle:
  assumes lib: "fiesta_library p E" and rep: "represents (mem s) (root s) t" and put: "put E tid k v s = Some (n, s')"
  obtains es where "trace s' = trace s @ es" "\<forall>e \<in> set es. own_event tid e \<and> gentle p (memory E) e"
proof -
  have "runs (\<lambda>e. own_event tid e \<and> gentle p (memory E) e) tid s (snd (n, s'))"
    by (rule put_runs [OF common_gentle [OF lib] rep _ _ _ put]) (auto simp: node_writes_def own_event_def)
  with that show thesis by (auto simp: runs_def)
qed

lemma put_all_dirty:
  assumes lib: "fiesta_library p E" and inv: "tree_inv E (mem s) t" and put: "put E tid k v s = Some (n, s')"
  shows "\<exists>es. trace s' = trace s @ es \<and>
    (\<forall>c a sz b. EvWrite tid c a sz STORE \<in> set es \<and> p a sz \<and> b \<in> set (byte_range a sz) \<and>
       CACHE_LINE b \<noteq> CACHE_LINE (memory E) \<longrightarrow> b \<in> fst (fold (persist_step u p tid) es DF))"
proof -
  have "represents (mem s) (root s) t" using inv by (simp add: tree_inv_def)
  then obtain es where es: "trace s' = trace s @ es" "\<forall>e \<in> set es. own_event tid e \<and> gentle p (memory E) e"
    by (rule put_gentle [OF lib _ put])
  then have "\<forall>e \<in> set es. gentle p (memory E) e" by blast
  from gentle_written [OF this] es(1) show ?thesis by blast
qed

section \<open>The write of a new value\<close>

definition emitted :: "event \<Rightarrow> fiesta \<Rightarrow> fiesta \<Rightarrow> bool" where
  "emitted e s s' \<longleftrightarrow> (\<exists>es. trace s' = trace s @ es \<and> e \<in> set es)"

lemma emitted_before: "runs P t s s1 \<Longrightarrow> emitted e s1 s2 \<Longrightarrow> emitted e s s2"
  unfolding emitted_def runs_def by fastforce

lemma emitted_after: "emitted e s s1 \<Longrightarrow> runs P t s1 s2 \<Longrightarrow> emitted e s s2"
  unfolding emitted_def runs_def by fastforce

lemma emitted_write: "trace s' = trace s \<Longrightarrow> emitted (EvWrite t (pcs E n) a sz STORE) s (writes E t n a sz s')"
  by (simp add: emitted_def writes_def emit_def)

lemma emitted_calling:
  assumes "\<And>s'. mem s' = mem s \<Longrightarrow> emitted e s' (snd (f s'))"
  shows "emitted e s (snd (calling E t n f s))"
proof -
  have "emitted e (emit [EvCall t (pcs E n)] s) (snd (f (emit [EvCall t (pcs E n)] s)))" by (rule assms) simp
  then show ?thesis by (auto simp: emitted_def calling_def emit_def)
qed

lemma new_node_emits:
  assumes lib: "fiesta_library p E"
  shows "emitted (EvWrite t (pcs E 117) (next_free E (mem s) + 24) 4 STORE) s (snd (new_node E t k v s))"
proof -
  note ok = common_any [OF lib, of t]
  define n where "n = next_free E (mem s)"
  have n: "fst (calling E t 115 (PM_ALLOC E t 32) s) = n" by (simp add: n_def next_free_def field_mem del: mem_fields)
  let ?s1 = "snd (calling E t 115 (PM_ALLOC E t 32) s)"
  let ?s2 = "writes E t 116 n 8 (writes E t 116 (n + 8) 8 (?s1\<lparr>rights := (rights ?s1)(n := 0), lefts := (lefts ?s1)(n := 0)\<rparr>))"
  let ?s3 = "writes E t 117 (n + 24) 4 (?s2\<lparr>vals := (vals ?s2)(n := v)\<rparr>)"
  have "runs (\<lambda>_. True) t s ?s2" by (simp add: runs_writes runs_calling [OF ok] runs_PM_ALLOC [OF ok])
  from emitted_before [OF this emitted_write] have "emitted (EvWrite t (pcs E 117) (n + 24) 4 STORE) s ?s3" by simp
  moreover have "runs (\<lambda>_. True) t ?s3 (snd (new_node E t k v s))"
    unfolding new_node_def Let_def split_beta n snd_conv
    by (simp add: runs_writes runs_calling [OF ok] runs_PM_ALLOC [OF ok] runs_reads [OF ok] runs_lib_calls [OF ok])
  ultimately show ?thesis unfolding n_def by (rule emitted_after)
qed

lemma put_loop_emits:
  assumes lib: "fiesta_library p E" and "represents (mem s) n t" and "\<nexists>a. place_of (key_text (mem s)) k t = Found a"
    and "put_loop E tid k v n s = Some r"
  shows "emitted (EvWrite tid (pcs E 117) (next_free E (mem s) + 24) 4 STORE) s (snd r)"
  using assms(2-)
proof (induction t arbitrary: n s)
  case Leaf
  note ok = common_any [OF lib, of tid]
  let ?s1 = "snd (calling E tid 153 (new_node E tid k v) s)"
  have new: "emitted (EvWrite tid (pcs E 117) (next_free E (mem s) + 24) 4 STORE) s ?s1"
    by (rule emitted_calling) (use new_node_emits [OF lib] in metis)
  have "put_loop E tid k v 0 s = Some r" using Leaf.prems(1,3) by simp
  then have "runs (\<lambda>_. True) tid ?s1 (snd r)"
    unfolding put_loop.simps [of E tid k v 0 s]
    by (auto simp: Let_def split_beta intro!: runs_lib_calls [OF ok] runs_reads [OF ok] runs_writes)
  with new show ?case by (rule emitted_after)
next
  case (Node l a r')
  note ok = common_any [OF lib, of tid]
  let ?s1 = "lib_call E tid 129 [] (reads E tid 129 (a + 16) 8 s)"
  let ?l2 = "reads E tid 141 a 8 (reads E tid 136 a 8 ?s1)" and ?r2 = "reads E tid 149 (a + 8) 8 (reads E tid 144 (a + 8) 8 ?s1)"
  let ?W = "EvWrite tid (pcs E 117) (next_free E (mem s) + 24) 4 STORE"
  have n: "n = a" "a \<noteq> 0" and sub: "represents (mem ?l2) (lefts s a) l" "represents (mem ?r2) (rights s a) r'"
    using Node.prems(1) by simp_all
  note null = represents_null [OF sub(1)] represents_null [OF sub(2)] and step = put_loop.simps [of E tid k v n s]
  have run: "runs (\<lambda>_. True) tid s (reads E tid 136 a 8 ?s1)" "runs (\<lambda>_. True) tid s ?l2"
    "runs (\<lambda>_. True) tid s (reads E tid 144 (a + 8) 8 ?s1)" "runs (\<lambda>_. True) tid s ?r2"
    by (auto intro!: runs_lib_calls [OF ok] runs_reads [OF ok])
  have ne: "key_text (mem s) a \<noteq> k" using Node.prems(2) by auto
  have left: "emitted ?W s (snd r)" if "put_loop E tid k v (lefts s a) ?l2 = Some r" "strcmp (key_text (mem s) a) k > 0" "lefts s a \<noteq> 0"
    using emitted_before [OF run(2) Node.IH(1) [OF sub(1) _ that(1)]] Node.prems(2) that(2,3) null ne by auto
  have right: "emitted ?W s (snd r)" if "put_loop E tid k v (rights s a) ?r2 = Some r" "strcmp (key_text (mem s) a) k < 0" "rights s a \<noteq> 0"
    using emitted_before [OF run(4) Node.IH(2) [OF sub(2) _ that(1)]] Node.prems(2) that(2,3) null ne by auto
  have new: "emitted ?W s (snd (calling E tid m (new_node E tid k v) s2))" if "runs (\<lambda>_. True) tid s s2" "mem s2 = mem s" for m s2
    by (rule emitted_before [OF that(1) emitted_calling]) (use new_node_emits [OF lib] that(2) in metis)
  consider "strcmp (key_text (mem s) a) k > 0" | "strcmp (key_text (mem s) a) k < 0"
    using ne strcmp_zero by (metis linorder_neqE)
  then show ?case
  proof cases
    case 1
    let ?s2 = "reads E tid 136 a 8 ?s1"
    let ?s3 = "snd (calling E tid 137 (new_node E tid k v) ?s2)" and ?a = "fst (calling E tid 137 (new_node E tid k v) ?s2)"
    let ?fin = "lib_call E tid 138 [EvUnlock tid (tree_lock E)] (writes E tid 137 a 8 (?s3\<lparr>lefts := (lefts ?s3)(a := ?a)\<rparr>))"
    have "put_loop E tid k v n s = (if lefts s a = 0 then Some (a, ?fin) else put_loop E tid k v (lefts s a) ?l2)"
      unfolding step using n 1 ne by (simp add: Let_def split_beta key_text_def field_mem del: mem_fields)
    moreover have "runs (\<lambda>_. True) tid ?s3 ?fin" by (auto intro!: runs_lib_calls [OF ok] runs_writes)
    ultimately show ?thesis
      using left [OF _ 1] Node.prems(3) emitted_after [OF new [OF run(1)]] by (auto split: if_splits)
  next
    case 2
    let ?s2 = "reads E tid 144 (a + 8) 8 ?s1"
    let ?s3 = "snd (calling E tid 145 (new_node E tid k v) ?s2)" and ?a = "fst (calling E tid 145 (new_node E tid k v) ?s2)"
    let ?fin = "lib_call E tid 146 [EvUnlock tid (tree_lock E)] (writes E tid 145 (a + 8) 8 (?s3\<lparr>rights := (rights ?s3)(a := ?a)\<rparr>))"
    have "put_loop E tid k v n s = (if rights s a = 0 then Some (a, ?fin) else put_loop E tid k v (rights s a) ?r2)"
      unfolding step using n 2 ne by (simp add: Let_def split_beta key_text_def field_mem del: mem_fields)
    moreover have "runs (\<lambda>_. True) tid ?s3 ?fin" by (auto intro!: runs_lib_calls [OF ok] runs_writes)
    ultimately show ?thesis
      using right [OF _ 2] Node.prems(3) emitted_after [OF new [OF run(3)]] by (auto split: if_splits)
  qed
qed

lemma put_emits:
  assumes lib: "fiesta_library p E" and inv: "tree_inv E (mem s) t" and new: "contents (mem s) t k = None"
    and put: "put E tid k v s = Some (n, s')"
  shows "emitted (EvWrite tid (pcs E 117) (next_free E (mem s) + 24) 4 STORE) s s'"
proof -
  note ok = common_any [OF lib, of tid]
  let ?s1 = "reads E tid 127 (tree_ptr E) 8 (lib_call E tid 126 [EvLock tid (tree_lock E)] s)"
  have run: "runs (\<lambda>_. True) tid s ?s1" by (auto intro!: runs_lib_calls [OF ok] runs_reads [OF ok])
  have "put_loop E tid k v (root s) ?s1 = Some (n, s')" using put by (simp add: put_def Let_def field_mem del: mem_fields)
  moreover have "\<nexists>a. place_of (key_text (mem s)) k t = Found a"
    using contents_place [of "mem s" t k] inv new by (auto simp: tree_inv_def)
  moreover have "represents (mem ?s1) (root s) t" using inv by (simp add: tree_inv_def)
  ultimately have "emitted (EvWrite tid (pcs E 117) (next_free E (mem s) + 24) 4 STORE) ?s1 (snd (n, s'))"
    using put_loop_emits [OF lib, of ?s1 "root s" t k tid v "(n, s')"] by simp
  from emitted_before [OF run this] show ?thesis by simp
qed

section \<open>\<^verbatim>\<open>put_persist\<close>\<close>

lemma beyond_metadata:
  assumes "unat m + 64 \<le> unat b"
  shows "CACHE_LINE b \<noteq> CACHE_LINE m"
  using div_le_mono [OF assms, of 64] by (simp add: CACHE_LINE_eq)

text \<open>
  It persists the line of the node \<open>put\<close> returns, and no other: so the value of a new node, outside that
  line, is dirty when it returns.
\<close>

lemma put_persist_parent:
  assumes lib: "fiesta_library p E" and inv: "tree_inv E (mem s) t" and room: "room E k (mem s)"
    and run: "put_persist E tid k v s = Some s'"
  shows "\<exists>n es. put_result E (place_of (key_text (mem s)) k t) (mem s) = n \<and> trace s' = trace s @ es \<and>
    (p n 0 \<longrightarrow> (\<forall>b \<in> line_of n. b \<notin> fst (fold (persist_step u p tid) es DF))) \<and>
    snd (fold (persist_step u p tid) es DF) = {} \<and>
    (contents (mem s) t k = None \<longrightarrow>
      (\<forall>b \<in> set (byte_range (next_free E (mem s) + 24) 4). p (next_free E (mem s) + 24) 4 \<and> b \<notin> line_of n \<longrightarrow>
         b \<in> fst (fold (persist_step u p tid) es DF)))"
proof -
  let ?s0 = "emit [EvCall tid (pcs E 159)] s"
  from inv have rep: "represents (mem ?s0) (root ?s0) t" by (simp add: tree_inv_def field_mem del: mem_fields)
  define n where "n = put_result E (place_of (key_text (mem s)) k t) (mem s)"
  from put_place [OF rep, of E tid k v] obtain s1 where s1: "put E tid k v ?s0 = Some (n, s1)" by (auto simp: n_def)
  have s': "s' = persist E tid 160 n 32 (emit [EvRet tid] s1)" using run s1 by (simp add: put_persist_def callingO_def)
  obtain es where es: "trace s1 = trace ?s0 @ es" "\<forall>e \<in> set es. own_event tid e \<and> gentle p (memory E) e"
    by (rule put_gentle [OF lib rep s1])
  define all where "all = [EvCall tid (pcs E 159)] @ es @ [EvRet tid] @
    [EvCall tid (pcs E 160), EvFlush tid n CLWB, EvRet tid, EvCall tid (pcs E 161), EvFence tid (pcs E 32), EvRet tid]"
  have trace: "trace s' = trace s @ all"
    by (simp add: s' persist_def emit_def es(1) all_def call_def fence_def)
  obtain D F where DF: "fold (persist_step u p tid) es DF = (D, F)" by fastforce
  have after: "fold (persist_step u p tid) all DF = (if p n 0 then D - line_of n else D, {})"
    by (simp add: all_def DF)
  have written: "b \<in> D"
    if "contents (mem s) t k = None" "b \<in> set (byte_range (next_free E (mem s) + 24) 4)" "p (next_free E (mem s) + 24) 4" for b
  proof -
    have inv0: "tree_inv E (mem ?s0) t" and new: "contents (mem ?s0) t k = None" using inv that(1) by simp_all
    have "EvWrite tid (pcs E 117) (next_free E (mem s) + 24) 4 STORE \<in> set es"
      using put_emits [OF lib inv0 new s1] es(1) by (auto simp: emitted_def)
    moreover have "CACHE_LINE b \<noteq> CACHE_LINE (memory E)"
    proof (rule beyond_metadata)
      have "unat (next_free E (mem s) + 24) = allocated_to E (mem s) + 24"
        using room next_free_unat(1) [OF room] by (subst unat_plus_no_wrap) (simp_all add: room_def)
      then show "unat (memory E) + 64 \<le> unat b"
        using that(2) room mem_byte_range [of "next_free E (mem s) + 24" 4 b] by (simp add: room_def allocated_to_def)
    qed
    ultimately show ?thesis
      using gentle_written [of es p "memory E" b tid "pcs E 117" "next_free E (mem s) + 24" 4 u DF] es(2) that(2,3) DF by simp
  qed
  show ?thesis
    by (rule exI [of _ n], rule exI [of _ all]) (use written in \<open>simp add: after trace n_def\<close>)
qed

end
