(* ===== verification/FiestaRuns.thy ===== *)
theory FiestaRuns
  imports FiestaPersist
begin

text \<open>
  The threads of \<^verbatim>\<open>bug_fiesta.c\<close>. The thread that inserts ends with the tree of its numbers, and the other
  prints for each number what the tree holds when it asks. The first write of the root is never persisted, so
  with the search for lost writes the tool reports it against the first load of the root, in every schedule.
\<close>

section \<open>The tree after the insertions\<close>

text \<open>Room for nodes with the keys \<open>ks\<close>.\<close>

definition rooms :: "fiesta_env \<Rightarrow> string list \<Rightarrow> tree_memory \<Rightarrow> bool" where
  "rooms E ks m \<longleftrightarrow> allocated_to E m + (\<Sum>k \<leftarrow> ks. 33 + length k) < 2 ^ 64"

lemma rooms_room: "rooms E (k # ks) m \<Longrightarrow> room E k m"
  by (simp add: rooms_def room_def)

lemma put_at_allocated:
  assumes "room E k m"
  shows "allocated_to E (put_at E k v pl m) \<le> allocated_to E m + 33 + length k"
  using next_free_unat(3) [OF assms] by (cases pl) (simp_all add: allocated_to_def with_node_def Let_def)

lemma put_room:
  assumes inv: "tree_inv E (mem s) t" and rooms: "rooms E (k # ks) (mem s)" and put: "put E tid k v s = Some (n, s')"
  shows "rooms E ks (mem s')"
proof -
  from inv have "represents (mem s) (root s) t" by (simp add: tree_inv_def)
  from put_place [OF this, of E tid k v] put have "mem s' = put_at E k v (place_of (key_text (mem s)) k t) (mem s)" by auto
  with put_at_allocated [OF rooms_room [OF rooms], of v] have "allocated_to E (mem s') \<le> allocated_to E (mem s) + 33 + length k" by simp
  with rooms show ?thesis by (simp add: rooms_def)
qed

lemma tree_after_nonempty [simp]: "tree_after E k m t \<noteq> \<langle>\<rangle>"
proof -
  have "grow K k n t \<noteq> \<langle>\<rangle>" for K n by (cases t) auto
  then show ?thesis using place_root [of "key_text m" k t] by (auto simp: tree_after_def split: place.splits)
qed

definition number_map :: "nat list \<Rightarrow> (string \<rightharpoonup> u32) \<Rightarrow> (string \<rightharpoonup> u32)" where
  "number_map xs f = fold (\<lambda>x f. f(nat_text x \<mapsto> of_nat x)) xs f"

lemma put_all_inserts:
  assumes "tree_inv E (mem s) t" "rooms E (map nat_text xs) (mem s)"
  obtains s' t' where "put_all E tid xs s = Some s'" "tree_inv E (mem s') t'"
    "contents (mem s') t' = number_map xs (contents (mem s) t)"
  using assms
proof (induction xs arbitrary: s t thesis)
  case Nil
  then show ?case by (simp add: number_map_def)
next
  case (Cons x xs)
  let ?s0 = "emit [EvCall tid (pcs E 199)] (lib_call E tid 198 [] s)"
  have inv0: "tree_inv E (mem ?s0) t" and rooms0: "rooms E (nat_text x # map nat_text xs) (mem ?s0)" using Cons.prems(2,3) by simp_all
  obtain n s1 where s1: "put E tid (nat_text x) (of_nat x) ?s0 = Some (n, s1)"
      "tree_inv E (mem s1) (tree_after E (nat_text x) (mem ?s0) t)"
      "contents (mem s1) (tree_after E (nat_text x) (mem ?s0) t) = (contents (mem ?s0) t)(nat_text x \<mapsto> of_nat x)"
    by (rule put_updates [OF inv0 rooms_room [OF rooms0]])
  let ?s2 = "emit [EvRet tid] s1"
  have "tree_inv E (mem ?s2) (tree_after E (nat_text x) (mem ?s0) t)" "rooms E (map nat_text xs) (mem ?s2)"
    using s1(2) put_room [OF inv0 rooms0 s1(1)] by simp_all
  from Cons.IH [OF _ this] obtain s' t' where "put_all E tid xs ?s2 = Some s'" "tree_inv E (mem s') t'"
    "contents (mem s') t' = number_map xs (contents (mem ?s2) (tree_after E (nat_text x) (mem ?s0) t))" by blast
  with s1(1,3) show ?case by (intro Cons.prems(1)) (simp_all add: callingO_def number_map_def)
qed

lemma put_all_take:
  assumes "tree_inv E (mem s) t" "rooms E (map nat_text xs) (mem s)"
  obtains s' t' where "put_all E tid (take j xs) s = Some s'" "tree_inv E (mem s') t'"
    "contents (mem s') t' = number_map (take j xs) (contents (mem s) t)"
proof (rule put_all_inserts)
  have "(\<Sum>k \<leftarrow> map nat_text (take j xs). 33 + length k) \<le> (\<Sum>k \<leftarrow> map nat_text xs. 33 + length k)"
    by (subst (2) append_take_drop_id [of j xs, symmetric]) (simp del: append_take_drop_id)
  with assms(2) show "rooms E (map nat_text (take j xs)) (mem s)" by (simp add: rooms_def)
qed (use assms that in auto)

text \<open>The initial tree: an empty one, in a cell of its own.\<close>

definition mapped_env :: "fiesta_env \<Rightarrow> u64 \<Rightarrow> tree_memory \<Rightarrow> fiesta_env" where
  "mapped_env E addr m = E\<lparr>memory := addr, tree_ptr := addr + 64 + cur m\<rparr>"

lemma set_up_memory:
  assumes "set_up (E\<lparr>memory := addr\<rparr>) m = (E1, s1)"
  shows "E1 = mapped_env E addr m" "mem s1 = (tree_memory.truncate m)\<lparr>cur := cur m + 8, root := 0\<rparr>"
proof -
  have start: "mem (start_from m) = tree_memory.truncate m" for m :: tree_memory
    by (simp add: mem_def start_from_def tree_memory.truncate_def tree_memory.extend_def)
  have "tree_memory.truncate m = m" for m :: tree_memory by (simp add: tree_memory.truncate_def)
  with start assms show "E1 = mapped_env E addr m" "mem s1 = (tree_memory.truncate m)\<lparr>cur := cur m + 8, root := 0\<rparr>"
    by (auto simp: set_up_def Let_def split_beta mapped_env_def field_mem simp del: mem_fields)
qed

lemma set_up_inv:
  assumes "set_up (E\<lparr>memory := addr\<rparr>) m = (E1, s1)" "unat addr + unat (cur m) + 72 < 2 ^ 64"
  shows "tree_inv E1 (mem s1) \<langle>\<rangle>" "allocated_to E1 (mem s1) = unat addr + unat (cur m) + 72"
    "unat (tree_ptr E1) = unat addr + unat (cur m) + 64"
proof -
  note s1 = set_up_memory [OF assms(1)]
  have ptr: "unat (addr + 64 + cur m) = unat addr + 64 + unat (cur m)"
    using assms(2) by (subst unat_plus_no_wrap; simp add: unat_plus_no_wrap)+
  have top: "unat (cur m + 8) = unat (cur m) + 8" using assms(2) by (subst unat_plus_no_wrap) simp_all
  show "allocated_to E1 (mem s1) = unat addr + unat (cur m) + 72"
    unfolding s1 by (simp add: mapped_env_def allocated_to_def top)
  show "unat (tree_ptr E1) = unat addr + unat (cur m) + 64"
    unfolding s1 by (simp add: mapped_env_def ptr)
  show "tree_inv E1 (mem s1) \<langle>\<rangle>"
    unfolding s1 tree_inv_def separated_def using assms(2) by (simp add: mapped_env_def allocated_to_def top ptr)
qed

section \<open>What the threads do\<close>

text \<open>Callbacks of the inserting thread that leave the root alone.\<close>

definition quiet :: "(u64 \<Rightarrow> u32 \<Rightarrow> bool) \<Rightarrow> fiesta_env \<Rightarrow> nat \<Rightarrow> event \<Rightarrow> bool" where
  "quiet is_pm E t e \<longleftrightarrow> own_event t e \<and> gentle is_pm (memory E) e \<and> (\<forall>b \<in> cell E. \<not> overwrites is_pm b e)"

lemma write_off_cell:
  assumes "unat a + unat sz < 2 ^ 64" "unat a + unat sz \<le> unat (tree_ptr E) \<or> unat (tree_ptr E) + 8 \<le> unat a"
  shows "quiet p E t (EvWrite t c a sz STORE)"
  using assms mem_byte_range [OF assms(1)] by (auto simp: quiet_def own_event_def cell_def)

lemma common_quiet:
  assumes lib: "fiesta_library p E" and sep: "separated E m t"
  shows "common_events E tid (quiet p E tid)"
proof -
  have "unat (memory E) + 8 < 2 ^ 64" "unat (memory E) + 8 \<le> unat (tree_ptr E)"
    using sep by (auto simp: separated_def)
  then have "quiet p E tid (EvWrite tid c (memory E) 8 STORE)" for c by (intro write_off_cell) simp_all
  then show ?thesis
    using fiesta_library_facts [OF lib] by (auto simp: common_events_def quiet_def own_event_def)
qed

lemma quiet_node:
  assumes sep: "separated E m t" and room: "room E k m" and a: "a \<in> set_tree t \<union> {next_free E m}"
  shows "node_writes tid (quiet p E tid) a"
proof -
  have "allocated E m (block m (x, True)) \<and> apart (block m (x, True)) (tree_ptr E, 8)" if "x \<in> set_tree t" for x
    using sep that unfolding separated_def by blast
  then have old: "unat x + 32 \<le> allocated_to E m \<and> (unat x + 32 \<le> unat (tree_ptr E) \<or> unat (tree_ptr E) + 8 \<le> unat x)"
    if "x \<in> set_tree t" for x using that by (simp add: block_def)
  have top: "unat (tree_ptr E) + 8 \<le> allocated_to E m" "allocated_to E m + 33 + length k < 2 ^ 64"
    using sep room by (simp_all only: separated_def room_def allocated.simps)
  have "unat a + 32 < 2 ^ 64 \<and> (unat a + 32 \<le> unat (tree_ptr E) \<or> unat (tree_ptr E) + 8 \<le> unat a)"
  proof (cases "a \<in> set_tree t")
    case True
    from old [OF this] top show ?thesis by linarith
  next
    case False
    then have "a = next_free E m" using a by simp
    with top next_free_unat(1) [OF room] show ?thesis by simp
  qed
  then have a: "unat a + 32 < 2 ^ 64" "unat a + 32 \<le> unat (tree_ptr E) \<or> unat (tree_ptr E) + 8 \<le> unat a" by auto
  have "unat (a + off) = unat a + unat off" "unat off + unat sz \<le> 32" if "(off, sz) \<in> node_fields" for off sz
    using that a(1) by (auto simp: unat_plus_no_wrap)
  then show ?thesis
    unfolding node_writes_def using a by (intro allI ballI) (clarify, intro write_off_cell; fastforce)
qed

lemma put_quiet:
  assumes lib: "fiesta_library p E" and inv: "tree_inv E (mem s) t" "t \<noteq> \<langle>\<rangle>" and room: "room E k (mem s)"
    and run: "runs (quiet p E tid) tid s0 s" and put: "put E tid k v s = Some (n, s')"
  shows "runs (quiet p E tid) tid s0 s'"
proof -
  have sep: "separated E (mem s) t" and rep: "represents (mem s) (root s) t" using inv(1) by (simp_all add: tree_inv_def)
  have "runs (quiet p E tid) tid s0 (snd (n, s'))"
    by (rule put_runs [OF common_quiet [OF lib sep] rep run quiet_node [OF sep room] _ put]) (use inv(2) in simp_all)
  then show ?thesis by simp
qed

lemma put_all_quiet:
  assumes lib: "fiesta_library p E"
    and "tree_inv E (mem s) t" "t \<noteq> \<langle>\<rangle>" "rooms E (map nat_text xs) (mem s)" "runs (quiet p E tid) tid s0 s"
    and "put_all E tid xs s = Some s'"
  shows "runs (quiet p E tid) tid s0 s'"
  using assms(2-)
proof (induction xs arbitrary: s t)
  case Nil
  then show ?case by simp
next
  case (Cons x xs)
  note ok = common_quiet [OF lib, of "mem s" t tid]
  let ?s0 = "lib_call E tid 198 [] s"
  let ?s1 = "emit [EvCall tid (pcs E 199)] ?s0"
  have sep: "separated E (mem s) t" using Cons.prems(1) by (simp add: tree_inv_def)
  have inv1: "tree_inv E (mem ?s1) t" and rooms1: "rooms E (nat_text x # map nat_text xs) (mem ?s1)" using Cons.prems(1,3) by simp_all
  obtain n s2 where s2: "put E tid (nat_text x) (of_nat x) ?s1 = Some (n, s2)"
      "tree_inv E (mem s2) (tree_after E (nat_text x) (mem ?s1) t)"
      "contents (mem s2) (tree_after E (nat_text x) (mem ?s1) t) = (contents (mem ?s1) t)(nat_text x \<mapsto> of_nat x)"
    by (rule put_updates [OF inv1 rooms_room [OF rooms1]])
  have "runs (quiet p E tid) tid ?s1 s2"
    by (rule put_quiet [OF lib inv1 Cons.prems(2) rooms_room [OF rooms1] _ s2(1)]) simp
  then have "runs (quiet p E tid) tid ?s0 (emit [EvRet tid] s2)"
    by (rule runs_called [rotated 2]) (simp_all add: quiet_def own_event_def)
  moreover have "runs (quiet p E tid) tid s0 ?s0" by (rule runs_lib_calls(1) [OF ok [OF sep] Cons.prems(4)])
  ultimately have run: "runs (quiet p E tid) tid s0 (emit [EvRet tid] s2)" by (blast intro: runs_trans)
  have rest: "put_all E tid xs (emit [EvRet tid] s2) = Some s'" using Cons.prems(5) s2(1) by (simp add: callingO_def)
  show ?case
    by (rule Cons.IH [OF _ tree_after_nonempty _ run rest]) (use s2(2) put_room [OF inv1 rooms1 s2(1)] in simp_all)
qed

section \<open>The results of the threads\<close>

lemma mem_with_memory [simp]: "mem (with_memory m s) = m"
  by (simp add: mem_def with_memory_def tree_memory.truncate_def tree_memory.extend_def)

definition found_in :: "(string \<rightharpoonup> u32) \<Rightarrow> nat \<Rightarrow> u32" where
  "found_in f x = (case f (nat_text x) of None \<Rightarrow> DEAULT_VALUE | Some v \<Rightarrow> v)"

fun printed :: "(nat \<Rightarrow> string \<rightharpoonup> u32) \<Rightarrow> nat \<Rightarrow> nat list \<Rightarrow> u32 list" where
  "printed f i [] = []"
| "printed f i (x # xs) = found_in (f i) x # printed f (Suc i) xs"

lemma get_all_finds:
  assumes "\<And>i. \<exists>t. tree_inv E (ms i) t \<and> contents (ms i) t = f i"
  obtains s' where "get_all E tid ms i xs s = Some (printed f i xs, s')"
proof (induction xs arbitrary: i s thesis)
  case (Cons x xs)
  let ?s1 = "emit [EvCall tid (pcs E 189)] (with_memory (ms i) (lib_call E tid 188 [] s))"
  obtain t where t: "tree_inv E (mem ?s1) t" "contents (mem ?s1) t = f i" using assms [of i] by auto
  obtain s2 where s2: "get_value E tid (nat_text x) ?s1 = Some (found_in (f i) x, s2)"
    by (rule get_finds [OF t(1), of tid "nat_text x"]) (use t(2) in \<open>auto simp: found_in_def\<close>)
  obtain s' where "get_all E tid ms (Suc i) xs (lib_call E tid 189 [] (emit [EvRet tid] s2)) =
      Some (printed f (Suc i) xs, s')"
    using Cons.IH by blast
  with s2 show ?case by (intro Cons.prems [of s']) (simp add: callingO_def)
qed simp

text \<open>
  Both threads end, the first with its numbers in the tree, the second with the numbers it found: those
  inserted by the calls of \<^verbatim>\<open>put\<close> before, and the default for the others.
\<close>

lemma fiesta_threads_end:
  assumes set_up: "set_up (E\<lparr>memory := addr\<rparr>) m = (E1, s1)" and fits: "unat addr + unat (cur m) + 252 < 2 ^ 64"
  shows "\<exists>puts t. put_thread E1 1 (s1\<lparr>trace := []\<rparr>) = Some puts \<and> tree_inv E1 (mem puts) t \<and>
      contents (mem puts) t = number_map put_numbers Map.empty"
    "\<exists>gets. get_thread E1 2 (\<lambda>i. case put_all E1 1 (take (js i) put_numbers) s1 of Some s \<Rightarrow> tree_memory.truncate s | None \<Rightarrow> m)
        (s1\<lparr>trace := []\<rparr>) =
      Some (printed (\<lambda>i. number_map (take (js i) put_numbers) Map.empty) 0 get_numbers, gets)"
proof -
  note inv = set_up_inv [OF set_up]
  have inv1: "tree_inv E1 (mem s1) \<langle>\<rangle>" "allocated_to E1 (mem s1) = unat addr + unat (cur m) + 72"
    using inv fits by simp_all
  have same: "mem (s1\<lparr>trace := []\<rparr>) = mem s1" by (simp add: mem_def tree_memory.truncate_def)
  have rooms: "rooms E1 (map nat_text put_numbers) (mem s1)"
    unfolding rooms_def inv1(2) using fits by (simp add: put_numbers_def nat_text.simps)
  have empty: "contents (mem s1) \<langle>\<rangle> = Map.empty" by (simp add: contents_def)
  show "\<exists>puts t. put_thread E1 1 (s1\<lparr>trace := []\<rparr>) = Some puts \<and> tree_inv E1 (mem puts) t \<and>
      contents (mem puts) t = number_map put_numbers Map.empty"
  proof -
    have "tree_inv E1 (mem (s1\<lparr>trace := []\<rparr>)) \<langle>\<rangle>" "rooms E1 (map nat_text put_numbers) (mem (s1\<lparr>trace := []\<rparr>))"
      using inv1(1) rooms unfolding same by blast+
    from put_all_inserts [OF this, of 1] show ?thesis unfolding same put_thread_def empty by blast
  qed
  let ?ms = "\<lambda>i. case put_all E1 1 (take (js i) put_numbers) s1 of Some s \<Rightarrow> tree_memory.truncate s | None \<Rightarrow> m"
  have ms: "\<exists>t. tree_inv E1 (?ms i) t \<and> contents (?ms i) t = number_map (take (js i) put_numbers) Map.empty" for i
  proof -
    obtain s' t' where s': "put_all E1 1 (take (js i) put_numbers) s1 = Some s'" "tree_inv E1 (mem s') t'"
      "contents (mem s') t' = number_map (take (js i) put_numbers) (contents (mem s1) \<langle>\<rangle>)"
      by (rule put_all_take [OF inv1(1) rooms])
    then show ?thesis unfolding empty by (auto simp: mem_def)
  qed
  show "\<exists>gets. get_thread E1 2 ?ms (s1\<lparr>trace := []\<rparr>) =
      Some (printed (\<lambda>i. number_map (take (js i) put_numbers) Map.empty) 0 get_numbers, gets)"
    unfolding get_thread_def
    by (rule get_all_finds [of E1 ?ms "\<lambda>i. number_map (take (js i) put_numbers) Map.empty" 2 0 get_numbers "s1\<lparr>trace := []\<rparr>", OF ms]) blast
qed

lemma number_map_eval: "number_map xs f (nat_text x) = (if x \<in> set xs then Some (of_nat x) else f (nat_text x))"
  unfolding number_map_def by (induction xs arbitrary: f) (auto simp: nat_text_eq_iff)

lemma printed_nth: "length (printed f i xs) = length xs" "j < length xs \<Longrightarrow> printed f i xs ! j = found_in (f (i + j)) (xs ! j)"
proof (induction xs arbitrary: i j)
  case (Cons x xs)
  { case 1 with Cons show ?case by simp }
  { case 2 with Cons show ?case by (cases j) simp_all }
qed simp_all

end
