(* ===== verification/ConfigSpec.thy ===== *)
theory ConfigSpec
  imports Instrument StdText
begin

text \<open>
  Reading back a written configuration. \<open>denotes_config\<close> says that a loaded YAML document holds a
  configuration: its keys in any order, without those whose value is the default; the
  parser (\<^verbatim>\<open>MutexConfig\<close>, \<^verbatim>\<open>MutexFunctionInfo\<close>, \<^verbatim>\<open>atoi\<close>) then returns the configuration. The documents of
  the two files under \<^verbatim>\<open>src/config\<close> are examples.
\<close>

section \<open>Decimal numbers\<close>

definition int_text :: "int \<Rightarrow> string" where
  "int_text i = (if i < 0 then CHR ''-'' # nat_text (nat (- i)) else nat_text (nat i))"

lemma digit_of_digit_char [simp]: "d < 10 \<Longrightarrow> digit_of (digit_char d) = Some d"
  by (simp add: digit_of_def digit_char_def Let_def)

lemma atoi_digits_append:
  "list_all (\<lambda>c. digit_of c \<noteq> None) xs \<Longrightarrow> atoi_digits (xs @ ys) acc = atoi_digits ys (atoi_digits xs acc)"
  by (induction xs arbitrary: acc) auto

lemma nat_text_digits: "list_all (\<lambda>c. digit_of c \<noteq> None) (nat_text n)"
  by (induction n rule: nat_text.induct) (subst nat_text.simps, simp)

lemma atoi_digits_nat_text: "atoi_digits (nat_text n) 0 = int n"
proof (induction n rule: nat_text.induct)
  case (1 n)
  show ?case
  proof (cases "n < 10")
    case False
    then have "nat_text n = nat_text (n div 10) @ [digit_char (n mod 10)]" by (subst nat_text.simps) simp
    then have "atoi_digits (nat_text n) 0 = 10 * int (n div 10) + int (n mod 10)"
      using 1 False nat_text_digits by (simp add: atoi_digits_append)
    also have "\<dots> = int n" by presburger
    finally show ?thesis .
  qed (subst nat_text.simps, simp)
qed

lemma digit_char_neq:
  "d < 10 \<Longrightarrow> \<not> is_space (digit_char d) \<and> digit_char d \<noteq> CHR ''-'' \<and> digit_char d \<noteq> CHR ''+''"
proof -
  assume d: "d < 10"
  then have "of_char (digit_char d) = (48 + d :: nat)" by (simp add: digit_char_def)
  then show ?thesis using d by (auto simp: is_space_def Let_def)
qed

lemma atoi_int_text:
  assumes "- (2 ^ 31) \<le> i" "i < 2 ^ 31"
  shows "atoi (int_text i) = Inr i"
proof (cases "i < 0")
  case True
  moreover have "\<not> is_space (CHR ''-'')" by (simp add: is_space_def Let_def)
  ultimately show ?thesis
    using assms by (simp add: int_text_def atoi_def Let_def atoi_digits_nat_text)
next
  case False
  obtain d cs where d: "d < 10" "nat_text (nat i) = digit_char d # cs" using nat_text_Cons by blast
  have "atoi_digits (digit_char d # cs) 0 = i"
    using atoi_digits_nat_text [of "nat i"] d(2) False by simp
  then show ?thesis
    using assms False d digit_char_neq [OF d(1)]
    by (simp add: int_text_def atoi_def Let_def del: atoi_digits.simps)
qed

section \<open>Function entries\<close>

text \<open>The texts of a lock type: those of the map \<^verbatim>\<open>mutexTypes\<close>.\<close>

definition type_texts :: "LockType \<Rightarrow> string list" where
  "type_texts t = (case t of MUTEX \<Rightarrow> [''regular''] | WRITE \<Rightarrow> [''write'', ''unique''] | READ \<Rightarrow> [''read'', ''shared''])"

lemma mutexTypes_type_texts: "s \<in> set (type_texts t) \<Longrightarrow> mutexTypes s = t"
  by (cases t) (auto simp: mutexTypes_def type_texts_def)

text \<open>The numbers fit an \<^verbatim>\<open>int\<close>, and the result argument is set only when used.\<close>

definition int_range :: "int \<Rightarrow> bool" where
  "int_range i \<longleftrightarrow> - (2 ^ 31) \<le> i \<and> i < 2 ^ 31"

definition info_ok :: "MutexFunctionInfo \<Rightarrow> bool" where
  "info_ok info \<longleftrightarrow> int_range (mutex_id_arg info) \<and> int_range (result_id_arg info) \<and> int_range (success_value info) \<and>
     (\<not> use_result_arg info \<longrightarrow> result_id_arg info = -1)"

text \<open>
  A key of a function's entry has the value of the field it stands for. The value a result is compared with is
  a success value or a failure value; the result argument has a key only when it is used.
\<close>

definition holds_field :: "MutexFunctionInfo \<Rightarrow> string \<times> string \<Rightarrow> bool" where
  "holds_field info = (\<lambda>(k, v).
     (k = ''mutex_id_arg'' \<and> v = int_text (mutex_id_arg info)) \<or>
     (k = ''result_id_arg'' \<and> use_result_arg info \<and> v = int_text (result_id_arg info)) \<or>
     (k = ''success_value'' \<and> \<not> success_is_failure info \<and> v = int_text (success_value info)) \<or>
     (k = ''failure_value'' \<and> success_is_failure info \<and> v = int_text (success_value info)) \<or>
     (k = ''type'' \<and> (case mf_type info of None \<Rightarrow> False | Some t \<Rightarrow> v \<in> set (type_texts t))))"

text \<open>
  The entry of a function: every key has the value of its field, and a field without a key has the default
  of the struct.
\<close>

definition holds_info :: "MutexFunctionInfo \<Rightarrow> (string \<times> string) list \<Rightarrow> bool" where
  "holds_info info kvs \<longleftrightarrow>
     (let keys = fst ` set kvs in
      list_all (holds_field info) kvs \<and>
      (''mutex_id_arg'' \<notin> keys \<longrightarrow> mutex_id_arg info = -1) \<and>
      (''result_id_arg'' \<notin> keys \<longrightarrow> \<not> use_result_arg info) \<and>
      (''success_value'' \<notin> keys \<and> ''failure_value'' \<notin> keys \<longrightarrow> success_value info = 0 \<and> \<not> success_is_failure info) \<and>
      (''type'' \<notin> keys \<longrightarrow> mf_type info = None))"

text \<open>The texts of a node and of a mapping of scalars.\<close>

definition scalar_at :: "(int \<Rightarrow> yaml_node option) \<Rightarrow> int \<Rightarrow> string option" where
  "scalar_at get_node i = (case get_node i of Some (YAML_SCALAR_NODE s) \<Rightarrow> Some s | _ \<Rightarrow> None)"

lemma scalar_at_Some [simp]: "scalar_at get_node i = Some s \<longleftrightarrow> get_node i = Some (YAML_SCALAR_NODE s)"
  by (auto simp: scalar_at_def split: option.splits yaml_node.splits)

fun texts_of :: "(int \<Rightarrow> yaml_node option) \<Rightarrow> (int \<times> int) list \<Rightarrow> (string \<times> string) list option" where
  "texts_of get_node [] = Some []"
| "texts_of get_node ((ki, vi) # ps) =
     (case (scalar_at get_node ki, scalar_at get_node vi, texts_of get_node ps) of
        (Some k, Some v, Some kvs) \<Rightarrow> Some ((k, v) # kvs)
      | _ \<Rightarrow> None)"

definition denotes_fields ::
  "(int \<Rightarrow> yaml_node option) \<Rightarrow> (int \<times> int) list \<Rightarrow> (string \<times> string) list \<Rightarrow> bool" where
  "denotes_fields get_node = list_all2 (\<lambda>(ki, vi) (k, v).
     get_node ki = Some (YAML_SCALAR_NODE k) \<and> get_node vi = Some (YAML_SCALAR_NODE v))"

lemma denotes_texts: "texts_of get_node ps = Some kvs \<Longrightarrow> denotes_fields get_node ps kvs"
  by (induction get_node ps arbitrary: kvs rule: texts_of.induct) (auto simp: denotes_fields_def split: option.splits)

text \<open>Reading one field, as a function of its texts.\<close>

definition set_field :: "string \<times> string \<Rightarrow> MutexFunctionInfo \<Rightarrow> hs_error + MutexFunctionInfo" where
  "set_field kv = read_field (\<lambda>i. Some (YAML_SCALAR_NODE (if i = 0 then fst kv else snd kv))) (0, 1)"

lemma read_field_set_field:
  "get_node ki = Some (YAML_SCALAR_NODE k) \<Longrightarrow> get_node vi = Some (YAML_SCALAR_NODE v) \<Longrightarrow>
   read_field get_node (ki, vi) = set_field (k, v)"
  by (rule ext) (simp add: read_field_def set_field_def node_at_def scalar_of_def)

lemma foldE_denotes_fields:
  "denotes_fields get_node ps kvs \<Longrightarrow> foldE (read_field get_node) ps = foldE set_field kvs"
proof (rule ext)
  fix info
  show "denotes_fields get_node ps kvs \<Longrightarrow> foldE (read_field get_node) ps info = foldE set_field kvs info"
    unfolding denotes_fields_def
  proof (induction arbitrary: info rule: list_all2_induct)
    case (Cons x xs y ys)
    then have e: "read_field get_node x = set_field y" by (auto simp: read_field_set_field split: prod.splits)
    show ?case unfolding foldE.simps e by (cases "set_field y info") (simp_all add: Cons.IH)
  qed simp
qed

lemma set_field_simps:
  "int_range n \<Longrightarrow> set_field (''mutex_id_arg'', int_text n) info = Inr (info\<lparr>mutex_id_arg := n\<rparr>)"
  "int_range n \<Longrightarrow> set_field (''result_id_arg'', int_text n) info = Inr (info\<lparr>result_id_arg := n, use_result_arg := True\<rparr>)"
  "int_range n \<Longrightarrow> set_field (''success_value'', int_text n) info = Inr (info\<lparr>success_value := n, success_is_failure := False\<rparr>)"
  "int_range n \<Longrightarrow> set_field (''failure_value'', int_text n) info = Inr (info\<lparr>success_value := n, success_is_failure := True\<rparr>)"
  "set_field (''type'', s) info = Inr (info\<lparr>mf_type := Some (mutexTypes s)\<rparr>)"
  by (simp_all add: set_field_def read_field_def node_at_def scalar_of_def atoi_int_text int_range_def)

text \<open>What the parser has of a function when it has read the keys \<open>K\<close>.\<close>

definition read_part :: "string set \<Rightarrow> MutexFunctionInfo \<Rightarrow> MutexFunctionInfo" where
  "read_part K info =
     (let compared = ''success_value'' \<in> K \<or> ''failure_value'' \<in> K in
      \<lparr>mf_name = mf_name info,
       mutex_id_arg = (if ''mutex_id_arg'' \<in> K then mutex_id_arg info else -1),
       result_id_arg = (if ''result_id_arg'' \<in> K then result_id_arg info else -1),
       success_value = (if compared then success_value info else 0),
       success_is_failure = (compared \<and> success_is_failure info),
       use_result_arg = (''result_id_arg'' \<in> K),
       mf_type = (if ''type'' \<in> K then mf_type info else None)\<rparr>)"

lemma set_field_part:
  assumes "holds_field info kv" "info_ok info"
  shows "set_field kv (read_part K info) = Inr (read_part (insert (fst kv) K) info)"
proof -
  obtain k v where kv: "kv = (k, v)" by fastforce
  have range: "int_range (mutex_id_arg info)" "int_range (result_id_arg info)" "int_range (success_value info)"
    using assms(2) by (simp_all add: info_ok_def)
  note part = set_field_simps range read_part_def Let_def kv
  from assms(1) [unfolded holds_field_def kv prod.case] show ?thesis
  proof (elim disjE conjE)
    assume "k = ''type''" "case mf_type info of None \<Rightarrow> False | Some t \<Rightarrow> v \<in> set (type_texts t)"
    moreover from this(2) have "Some (mutexTypes v) = mf_type info" by (cases "mf_type info") (simp_all add: mutexTypes_type_texts)
    ultimately show ?thesis by (simp add: part)
  qed (simp_all add: part)
qed

lemma foldE_read_part:
  "list_all (holds_field info) kvs \<Longrightarrow> info_ok info \<Longrightarrow>
   foldE set_field kvs (read_part K info) = Inr (read_part (K \<union> fst ` set kvs) info)"
  by (induction kvs arbitrary: K) (simp_all add: set_field_part)

lemma read_part_all:
  assumes "info_ok info" "holds_info info kvs"
  shows "read_part (fst ` set kvs) info = info"
proof -
  define K where "K = fst ` set kvs"
  have result: "use_result_arg info" if "''result_id_arg'' \<in> K"
  proof -
    from that obtain x where "''result_id_arg'' = fst x" "x \<in> set kvs" unfolding K_def by (rule imageE)
    then obtain v where "(''result_id_arg'', v) \<in> set kvs" by (cases x) auto
    then have "holds_field info (''result_id_arg'', v)" using assms(2) by (auto simp: holds_info_def list_all_iff Let_def)
    then show ?thesis by (simp add: holds_field_def)
  qed
  have default: "''mutex_id_arg'' \<notin> K \<longrightarrow> mutex_id_arg info = -1" "''result_id_arg'' \<notin> K \<longrightarrow> \<not> use_result_arg info"
    "\<not> (''success_value'' \<in> K \<or> ''failure_value'' \<in> K) \<longrightarrow> success_value info = 0 \<and> \<not> success_is_failure info"
    "''type'' \<notin> K \<longrightarrow> mf_type info = None" "\<not> use_result_arg info \<longrightarrow> result_id_arg info = -1"
    using assms by (simp_all add: holds_info_def info_ok_def K_def Let_def)
  define cmp where "cmp \<longleftrightarrow> ''success_value'' \<in> K \<or> ''failure_value'' \<in> K"
  have same: "(''result_id_arg'' \<in> K) = use_result_arg info" "(cmp \<and> success_is_failure info) = success_is_failure info"
    using default(2,3) result unfolding cmp_def by blast+
  show ?thesis
    unfolding read_part_def Let_def K_def [symmetric] cmp_def [symmetric] same
    using default unfolding cmp_def [symmetric] by (intro MutexFunctionInfo.equality) simp_all
qed

lemma parse_info_text:
  assumes "info_ok info" "denotes_fields get_node ps kvs" "holds_info info kvs"
  shows "parse_MutexFunctionInfo get_node (mf_name info) ps = Inr info"
proof -
  have "new_MutexFunctionInfo (mf_name info) = read_part {} info" by (simp add: new_MutexFunctionInfo_def read_part_def)
  moreover have "list_all (holds_field info) kvs" using assms(3) by (simp add: holds_info_def Let_def)
  ultimately show ?thesis
    using foldE_read_part [of info kvs "{}"] read_part_all [OF assms(1,3)] assms(1)
    by (simp add: parse_MutexFunctionInfo_def foldE_denotes_fields [OF assms(2)])
qed

section \<open>Whole configurations\<close>

definition denotes_info :: "(int \<Rightarrow> yaml_node option) \<Rightarrow> yaml_node option \<Rightarrow> MutexFunctionInfo \<Rightarrow> bool" where
  "denotes_info get_node v info =
     (case v of
        Some (YAML_MAPPING_NODE ps) \<Rightarrow> (case texts_of get_node ps of None \<Rightarrow> False | Some kvs \<Rightarrow> holds_info info kvs)
      | _ \<Rightarrow> False)"

definition denotes_functions ::
  "(int \<Rightarrow> yaml_node option) \<Rightarrow> (int \<times> int) list \<Rightarrow> MutexFunctionInfo list \<Rightarrow> bool" where
  "denotes_functions get_node = list_all2 (\<lambda>(ki, vi) info.
     scalar_at get_node ki = Some (mf_name info) \<and> denotes_info get_node (get_node vi) info)"

lemma PopulateFunctions_denotes:
  assumes "denotes_functions get_node ps infos" "\<forall>info \<in> set infos. info_ok info"
  shows "PopulateFunctions get_node ps funcs = Inr (funcs @ infos)"
  using assms unfolding denotes_functions_def
proof (induction arbitrary: funcs rule: list_all2_induct)
  case (Cons x xs info infos)
  then obtain qs kvs where qs: "get_node (fst x) = Some (YAML_SCALAR_NODE (mf_name info))"
    "get_node (snd x) = Some (YAML_MAPPING_NODE qs)" "texts_of get_node qs = Some kvs" "holds_info info kvs"
    by (auto simp: denotes_info_def split: prod.splits option.splits yaml_node.splits)
  have "info_ok info" using Cons.prems by simp
  from parse_info_text [OF this denotes_texts [OF qs(3)] qs(4)] qs(1,2)
  have "PopulateFunctions get_node (x # xs) funcs = PopulateFunctions get_node xs (funcs @ [info])"
    by (simp add: PopulateFunctions_def node_at_def scalar_of_def)
  with Cons.IH [of "funcs @ [info]"] Cons.prems show ?case by simp
qed (simp add: PopulateFunctions_def)

lemma ExtractFunctionList_denotes:
  "list_all2 (\<lambda>i s. scalar_at get_node i = Some s) is names \<Longrightarrow>
   ExtractFunctionList get_node is funcs = Inr (funcs @ names)"
proof (induction arbitrary: funcs rule: list_all2_induct)
  case (Cons i ii name names)
  from Cons.IH [of "funcs @ [name]"] Cons.hyps(1) show ?case
    by (simp add: ExtractFunctionList_def node_at_def)
qed (simp add: ExtractFunctionList_def)

text \<open>A top-level key has the value of its part of the configuration.\<close>

definition holds_entry :: "(int \<Rightarrow> yaml_node option) \<Rightarrow> MutexConfig \<Rightarrow> string \<Rightarrow> yaml_node option \<Rightarrow> bool" where
  "holds_entry get_node cfg k v =
     (case v of
        Some (YAML_SCALAR_NODE s) \<Rightarrow>
          k = ''mutex_id_size'' \<and> (case mutex_id_size cfg of None \<Rightarrow> False | Some n \<Rightarrow> int_range n \<and> s = int_text n)
      | Some (YAML_MAPPING_NODE ps) \<Rightarrow>
          (k = ''adquire'' \<and> denotes_functions get_node ps (adquire cfg)) \<or>
          (k = ''try_adquire'' \<and> denotes_functions get_node ps (try_adquire cfg)) \<or>
          (k = ''release'' \<and> denotes_functions get_node ps (release cfg))
      | Some (YAML_SEQUENCE_NODE items) \<Rightarrow>
          k = ''adq_rel'' \<and> list_all2 (\<lambda>i name. scalar_at get_node i = Some name) items (adq_rel cfg)
      | _ \<Rightarrow> False)"

text \<open>
  The document of a configuration: the keys of its parts, each at most once, in any order; a part without a key is
  empty, and the size is indeterminate.
\<close>

definition denotes_config :: "(int \<Rightarrow> yaml_node option) \<Rightarrow> (int \<times> int) list \<Rightarrow> MutexConfig \<Rightarrow> bool" where
  "denotes_config get_node pairs cfg =
     (let keys = map (\<lambda>(ki, vi). scalar_at get_node ki) pairs in
      list_all (\<lambda>(ki, vi). case scalar_at get_node ki of None \<Rightarrow> False | Some k \<Rightarrow> holds_entry get_node cfg k (get_node vi)) pairs \<and>
      distinct keys \<and>
      (Some ''mutex_id_size'' \<notin> set keys \<longrightarrow> mutex_id_size cfg = None) \<and>
      (Some ''adquire'' \<notin> set keys \<longrightarrow> adquire cfg = []) \<and>
      (Some ''try_adquire'' \<notin> set keys \<longrightarrow> try_adquire cfg = []) \<and>
      (Some ''release'' \<notin> set keys \<longrightarrow> release cfg = []) \<and>
      (Some ''adq_rel'' \<notin> set keys \<longrightarrow> adq_rel cfg = []))"

text \<open>What the parser has of a configuration when it has read the keys \<open>K\<close>.\<close>

definition config_part :: "string option set \<Rightarrow> MutexConfig \<Rightarrow> MutexConfig" where
  "config_part K cfg =
     \<lparr>adquire = (if Some ''adquire'' \<in> K then adquire cfg else []),
      release = (if Some ''release'' \<in> K then release cfg else []),
      try_adquire = (if Some ''try_adquire'' \<in> K then try_adquire cfg else []),
      adq_rel = (if Some ''adq_rel'' \<in> K then adq_rel cfg else []),
      mutex_id_size = (if Some ''mutex_id_size'' \<in> K then mutex_id_size cfg else None)\<rparr>"

definition config_ok :: "MutexConfig \<Rightarrow> bool" where
  "config_ok cfg \<longleftrightarrow> (\<forall>info \<in> set (adquire cfg) \<union> set (try_adquire cfg) \<union> set (release cfg). info_ok info)"

lemma read_entry_part:
  assumes "scalar_at get_node (fst x) = Some k" "holds_entry get_node cfg k (get_node (snd x))" "Some k \<notin> K" "config_ok cfg"
  shows "read_entry get_node x (config_part K cfg) = Inr (config_part (insert (Some k) K) cfg)"
proof -
  have num: "atoi (int_text n) = Inr n" if "int_range n" for n using that atoi_int_text by (simp add: int_range_def)
  have funs: "PopulateFunctions get_node ps [] = Inr infos"
    if "denotes_functions get_node ps infos" "infos = adquire cfg \<or> infos = try_adquire cfg \<or> infos = release cfg" for ps infos
    using PopulateFunctions_denotes [OF that(1), of "[]"] that(2) assms(4) by (auto simp: config_ok_def)
  note read = read_entry_def node_at_def scalar_of_def config_part_def assms(1) [unfolded scalar_at_Some]
  obtain v where v: "get_node (snd x) = Some v" using assms(2) by (cases "get_node (snd x)") (simp_all add: holds_entry_def)
  note entry = assms(2) [unfolded holds_entry_def v option.case]
  show ?thesis
  proof (cases v)
    case (YAML_SCALAR_NODE s)
    with entry obtain n where "k = ''mutex_id_size''" "mutex_id_size cfg = Some n" "int_range n" "s = int_text n"
      by (simp split: option.splits)
    with assms(3) show ?thesis by (simp add: read v YAML_SCALAR_NODE num)
  next
    case (YAML_MAPPING_NODE ps)
    from entry [unfolded YAML_MAPPING_NODE yaml_node.case] show ?thesis
    proof (elim disjE conjE)
      assume *: "denotes_functions get_node ps (adquire cfg)" "k = ''adquire''"
      with assms(3) funs [OF *(1)] show ?thesis by (simp add: read v YAML_MAPPING_NODE)
    next
      assume *: "denotes_functions get_node ps (try_adquire cfg)" "k = ''try_adquire''"
      with assms(3) funs [OF *(1)] show ?thesis by (simp add: read v YAML_MAPPING_NODE)
    next
      assume *: "denotes_functions get_node ps (release cfg)" "k = ''release''"
      with assms(3) funs [OF *(1)] show ?thesis by (simp add: read v YAML_MAPPING_NODE)
    qed
  next
    case (YAML_SEQUENCE_NODE items)
    with entry have *: "list_all2 (\<lambda>i name. scalar_at get_node i = Some name) items (adq_rel cfg)" "k = ''adq_rel''" by simp_all
    with assms(3) ExtractFunctionList_denotes [OF *(1), of "[]"] show ?thesis by (simp add: read v YAML_SEQUENCE_NODE)
  qed (use entry in simp)
qed

lemma foldE_config_part:
  fixes get_node pairs
  defines "keys \<equiv> map (\<lambda>(ki, vi). scalar_at get_node ki) pairs"
  assumes "list_all (\<lambda>(ki, vi). case scalar_at get_node ki of None \<Rightarrow> False | Some k \<Rightarrow> holds_entry get_node cfg k (get_node vi)) pairs"
    "distinct keys" "set keys \<inter> K = {}" "config_ok cfg"
  shows "foldE (read_entry get_node) pairs (config_part K cfg) = Inr (config_part (K \<union> set keys) cfg)"
  using assms(2-4) unfolding keys_def
proof (induction pairs arbitrary: K)
  case (Cons x xs)
  from Cons.prems(1) obtain k where k: "scalar_at get_node (fst x) = Some k" "holds_entry get_node cfg k (get_node (snd x))"
    by (cases x) (auto split: option.splits simp del: scalar_at_Some)
  have "scalar_at get_node (fst x) \<notin> K" using Cons.prems(3) by (cases x) auto
  with k(1) have fresh: "Some k \<notin> K" by (simp only: not_False_eq_True)
  have "set (map (\<lambda>(ki, vi). scalar_at get_node ki) xs) \<inter> insert (Some k) K = {}"
    using Cons.prems(2,3) k(1) by (cases x) (auto simp del: scalar_at_Some)
  with Cons.IH [of "insert (Some k) K"] Cons.prems k read_entry_part [OF k fresh assms(5)] show ?case
    by (cases x) (simp del: scalar_at_Some)
qed simp

section \<open>The files under \<^verbatim>\<open>src/config\<close>\<close>

text \<open>Their documents, with the nodes numbered as libyaml does, in the order in which they appear; node 1 is the root.\<close>

definition adq_rel_test_cfg :: "(int \<times> yaml_node) list" where
  "adq_rel_test_cfg =
     [(1, YAML_MAPPING_NODE [(2, 3), (4, 5)]), (2, YAML_SCALAR_NODE ''mutex_id_size''), (3, YAML_SCALAR_NODE ''8''),
      (4, YAML_SCALAR_NODE ''adq_rel''), (5, YAML_SEQUENCE_NODE [6, 7]), (6, YAML_SCALAR_NODE ''write_value''),
      (7, YAML_SCALAR_NODE ''read_value'')]"

definition pthread_cfg :: "(int \<times> yaml_node) list" where
  "pthread_cfg =
     [(1, YAML_MAPPING_NODE [(2, 3), (4, 5), (30, 31), (64, 65)]), (2, YAML_SCALAR_NODE ''mutex_id_size''),
      (3, YAML_SCALAR_NODE ''8''), (4, YAML_SCALAR_NODE ''adquire''),
      (5, YAML_MAPPING_NODE [(6, 7), (12, 13), (18, 19), (24, 25)]), (6, YAML_SCALAR_NODE ''pthread_mutex_lock''),
      (7, YAML_MAPPING_NODE [(8, 9), (10, 11)]), (8, YAML_SCALAR_NODE ''mutex_id_arg''), (9, YAML_SCALAR_NODE ''0''),
      (10, YAML_SCALAR_NODE ''type''), (11, YAML_SCALAR_NODE ''regular''),
      (12, YAML_SCALAR_NODE ''pthread_spin_lock''), (13, YAML_MAPPING_NODE [(14, 15), (16, 17)]),
      (14, YAML_SCALAR_NODE ''mutex_id_arg''), (15, YAML_SCALAR_NODE ''0''), (16, YAML_SCALAR_NODE ''type''),
      (17, YAML_SCALAR_NODE ''regular''), (18, YAML_SCALAR_NODE ''pthread_rwlock_wrlock''),
      (19, YAML_MAPPING_NODE [(20, 21), (22, 23)]), (20, YAML_SCALAR_NODE ''mutex_id_arg''),
      (21, YAML_SCALAR_NODE ''0''), (22, YAML_SCALAR_NODE ''type''), (23, YAML_SCALAR_NODE ''write''),
      (24, YAML_SCALAR_NODE ''pthread_rwlock_rdlock''), (25, YAML_MAPPING_NODE [(26, 27), (28, 29)]),
      (26, YAML_SCALAR_NODE ''mutex_id_arg''), (27, YAML_SCALAR_NODE ''0''), (28, YAML_SCALAR_NODE ''type''),
      (29, YAML_SCALAR_NODE ''read''), (30, YAML_SCALAR_NODE ''try_adquire''),
      (31, YAML_MAPPING_NODE [(32, 33), (40, 41), (48, 49), (56, 57)]),
      (32, YAML_SCALAR_NODE ''pthread_mutex_trylock''), (33, YAML_MAPPING_NODE [(34, 35), (36, 37), (38, 39)]),
      (34, YAML_SCALAR_NODE ''mutex_id_arg''), (35, YAML_SCALAR_NODE ''0''), (36, YAML_SCALAR_NODE ''success_value''),
      (37, YAML_SCALAR_NODE ''0''), (38, YAML_SCALAR_NODE ''type''), (39, YAML_SCALAR_NODE ''regular''),
      (40, YAML_SCALAR_NODE ''pthread_spin_trylock''), (41, YAML_MAPPING_NODE [(42, 43), (44, 45), (46, 47)]),
      (42, YAML_SCALAR_NODE ''mutex_id_arg''), (43, YAML_SCALAR_NODE ''0''), (44, YAML_SCALAR_NODE ''success_value''),
      (45, YAML_SCALAR_NODE ''0''), (46, YAML_SCALAR_NODE ''type''), (47, YAML_SCALAR_NODE ''regular''),
      (48, YAML_SCALAR_NODE ''pthread_rwlock_trywrlock''), (49, YAML_MAPPING_NODE [(50, 51), (52, 53), (54, 55)]),
      (50, YAML_SCALAR_NODE ''mutex_id_arg''), (51, YAML_SCALAR_NODE ''0''), (52, YAML_SCALAR_NODE ''success_value''),
      (53, YAML_SCALAR_NODE ''0''), (54, YAML_SCALAR_NODE ''type''), (55, YAML_SCALAR_NODE ''write''),
      (56, YAML_SCALAR_NODE ''pthread_rwlock_tryrdlock''), (57, YAML_MAPPING_NODE [(58, 59), (60, 61), (62, 63)]),
      (58, YAML_SCALAR_NODE ''mutex_id_arg''), (59, YAML_SCALAR_NODE ''0''), (60, YAML_SCALAR_NODE ''success_value''),
      (61, YAML_SCALAR_NODE ''0''), (62, YAML_SCALAR_NODE ''type''), (63, YAML_SCALAR_NODE ''read''),
      (64, YAML_SCALAR_NODE ''release''), (65, YAML_MAPPING_NODE [(66, 67), (72, 73), (78, 79)]),
      (66, YAML_SCALAR_NODE ''pthread_mutex_unlock''), (67, YAML_MAPPING_NODE [(68, 69), (70, 71)]),
      (68, YAML_SCALAR_NODE ''mutex_id_arg''), (69, YAML_SCALAR_NODE ''0''), (70, YAML_SCALAR_NODE ''type''),
      (71, YAML_SCALAR_NODE ''regular''), (72, YAML_SCALAR_NODE ''pthread_spin_unlock''),
      (73, YAML_MAPPING_NODE [(74, 75), (76, 77)]), (74, YAML_SCALAR_NODE ''mutex_id_arg''),
      (75, YAML_SCALAR_NODE ''0''), (76, YAML_SCALAR_NODE ''type''), (77, YAML_SCALAR_NODE ''regular''),
      (78, YAML_SCALAR_NODE ''pthread_rwlock_unlock''), (79, YAML_MAPPING_NODE [(80, 81), (82, 83)]),
      (80, YAML_SCALAR_NODE ''mutex_id_arg''), (81, YAML_SCALAR_NODE ''0''), (82, YAML_SCALAR_NODE ''type''),
      (83, YAML_SCALAR_NODE ''write'')]"

text \<open>What they configure. All functions of \<^verbatim>\<open>pthread.cfg\<close> take the mutex as their first argument and return 0 for success.\<close>

definition adq_rel_test_config :: MutexConfig where
  "adq_rel_test_config = new_MutexConfig\<lparr>adq_rel := [''write_value'', ''read_value''], mutex_id_size := Some 8\<rparr>"

definition pthread_function :: "string \<Rightarrow> LockType \<Rightarrow> MutexFunctionInfo" where
  "pthread_function name t = (new_MutexFunctionInfo name)\<lparr>mutex_id_arg := 0, mf_type := Some t\<rparr>"

definition pthread_config :: MutexConfig where
  "pthread_config = new_MutexConfig
     \<lparr>adquire :=
       [pthread_function ''pthread_mutex_lock'' MUTEX,
        pthread_function ''pthread_spin_lock'' MUTEX,
        pthread_function ''pthread_rwlock_wrlock'' WRITE,
        pthread_function ''pthread_rwlock_rdlock'' READ],
      release :=
       [pthread_function ''pthread_mutex_unlock'' MUTEX,
        pthread_function ''pthread_spin_unlock'' MUTEX,
        pthread_function ''pthread_rwlock_unlock'' WRITE],
      try_adquire :=
       [pthread_function ''pthread_mutex_trylock'' MUTEX,
        pthread_function ''pthread_spin_trylock'' MUTEX,
        pthread_function ''pthread_rwlock_trywrlock'' WRITE,
        pthread_function ''pthread_rwlock_tryrdlock'' READ],
      mutex_id_size := Some 8\<rparr>"

definition parse_document :: "(int \<times> yaml_node) list \<Rightarrow> hs_error + MutexConfig" where
  "parse_document nodes = parse_MutexConfig (Some (map_of nodes 1, map_of nodes))"

section \<open>Properties\<close>

text \<open>
  C29. Configuration round trip: a document that holds a configuration is parsed to exactly that configuration,
  whatever its node numbers and the order of its keys. Numbers are in decimal; each key appears at most once at the top level; parts of the
  configuration that are empty need no key, and neither do fields of a function that have the struct's
  default.
\<close>
theorem MutexConfig_round_trip:
  assumes "denotes_config get_node pairs cfg" "config_ok cfg"
  shows "parse_MutexConfig (Some (Some (YAML_MAPPING_NODE pairs), get_node)) = Inr cfg"
proof -
  let ?keys = "set (map (\<lambda>(ki, vi). scalar_at get_node ki) pairs)"
  from assms(1) have default: "Some ''mutex_id_size'' \<notin> ?keys \<longrightarrow> mutex_id_size cfg = None"
      "Some ''adquire'' \<notin> ?keys \<longrightarrow> adquire cfg = []" "Some ''try_adquire'' \<notin> ?keys \<longrightarrow> try_adquire cfg = []"
      "Some ''release'' \<notin> ?keys \<longrightarrow> release cfg = []" "Some ''adq_rel'' \<notin> ?keys \<longrightarrow> adq_rel cfg = []"
    unfolding denotes_config_def Let_def by blast+
  have all: "config_part ?keys cfg = cfg"
    unfolding config_part_def using default by (intro MutexConfig.equality) simp_all
  have "new_MutexConfig = config_part {} cfg" by (simp add: new_MutexConfig_def config_part_def)
  with foldE_config_part [of get_node cfg pairs "{}"] assms all show ?thesis
    by (simp add: parse_MutexConfig_def denotes_config_def Let_def del: set_map)
qed

theorem MutexConfig_round_trip_witness:
  "parse_document adq_rel_test_cfg = Inr adq_rel_test_config \<and> parse_document pthread_cfg = Inr pthread_config"
proof
  have "denotes_config (map_of adq_rel_test_cfg) [(2, 3), (4, 5)] adq_rel_test_config" by code_simp
  moreover have "config_ok adq_rel_test_config" "map_of adq_rel_test_cfg 1 = Some (YAML_MAPPING_NODE [(2, 3), (4, 5)])" by code_simp+
  ultimately show "parse_document adq_rel_test_cfg = Inr adq_rel_test_config"
    using MutexConfig_round_trip [of "map_of adq_rel_test_cfg"] by (simp add: parse_document_def)
  have "denotes_config (map_of pthread_cfg) [(2, 3), (4, 5), (30, 31), (64, 65)] pthread_config" by code_simp
  moreover have "config_ok pthread_config" "map_of pthread_cfg 1 = Some (YAML_MAPPING_NODE [(2, 3), (4, 5), (30, 31), (64, 65)])" by code_simp+
  ultimately show "parse_document pthread_cfg = Inr pthread_config"
    using MutexConfig_round_trip [of "map_of pthread_cfg"] by (simp add: parse_document_def)
qed

text \<open>
  A function entry without a \<^verbatim>\<open>type\<close> key leaves the lock type of the function undefined, and
  hooking such a lock or unlock function reads the undefined value; an unknown type text is
  taken for a regular mutex.
\<close>
lemma missing_type_is_undefined:
  assumes "parse_MutexFunctionInfo get_node name pairs = Inr info"
    and "\<forall>(ki, vi) \<in> set pairs. get_node ki \<noteq> Some (YAML_SCALAR_NODE ''type'')"
  shows "mf_type info = None \<and> hook_adquire rtn_valid info = Inl (Undefined ''MutexFunctionInfo.type'') \<and>
    hook_release rtn_valid info = Inl (Undefined ''MutexFunctionInfo.type'')"
proof -
  have "mf_type info = None"
  proof (rule foldE_inv [OF assms(1) [unfolded parse_MutexFunctionInfo_def], where P = "\<lambda>i. mf_type i = None"])
    fix x t t'
    assume x: "x \<in> set pairs" "mf_type t = None" "read_field get_node x t = Inr t'"
    have "get_node (fst x) \<noteq> Some (YAML_SCALAR_NODE ''type'')" using assms(2) x(1) by auto
    with x(2,3) show "mf_type t' = None"
      by (auto simp: read_field_def node_at_def scalar_of_def parseError_def
          split: option.splits yaml_node.splits if_splits)
  qed (simp add: new_MutexFunctionInfo_def)
  then show ?thesis by (simp add: hook_adquire_def hook_release_def)
qed

lemma missing_type_is_undefined_witness:
  "\<exists>info. parse_MutexFunctionInfo (\<lambda>_. Some (YAML_SCALAR_NODE ''mutex_id_arg'')) ''f'' [] = Inr info \<and>
     hook_adquire (\<lambda>_. True) info = Inl (Undefined ''MutexFunctionInfo.type'')"
proof -
  obtain info where r: "parse_MutexFunctionInfo (\<lambda>_. Some (YAML_SCALAR_NODE ''mutex_id_arg'')) ''f'' [] = Inr info"
    by (simp add: parse_MutexFunctionInfo_def)
  from missing_type_is_undefined [OF r] r show ?thesis by simp
qed

end
