(* ===== verification/Printing.thy ===== *)
theory Printing
  imports Locksets VectorClocks StdText
begin

text \<open>
  The texts of mutexes, locksets, timed locksets and vector clocks: \<^verbatim>\<open>get_mutex_id\<close> and the
  three \<^verbatim>\<open>operator<<\<close> of \<^verbatim>\<open>src/src/lockset.cpp\<close> and \<^verbatim>\<open>src/src/vector_clock.hpp\<close>. The identifier
  of an index tells which mutex it is; the text of a lockset lists the mutexes of its
  members in the order of their addresses and leaves out special ones.
\<close>

section \<open>The code\<close>

text \<open>The loop runs over the entries of the registry in the order of the addresses.\<close>

definition get_mutex_id :: "LockRegistry \<Rightarrow> nat \<Rightarrow> string" where
  "get_mutex_id r index =
     (case find (\<lambda>entry. snd entry = index) (lock_index r) of
        Some entry \<Rightarrow> nat_text (unat (fst entry))
      | None \<Rightarrow> if index < lock_counter r then ''S'' @ nat_text index else ''N/A'')"

definition Lockset_text :: "LockRegistry \<Rightarrow> Lockset \<Rightarrow> string" where
  "Lockset_text r ls =
     ''LOCKSET: [ '' @
     concat (map (\<lambda>entry.
       let lock_i = snd entry; macro = lock_i div 64; micro = lock_i mod 64
       in if macro \<ge> length (locks ls) then []
          else if bit (locks ls ! macro) micro then get_mutex_id r lock_i @ '' '' else []) (lock_index r)) @
     '']''"

definition TimedLockset_text :: "LockRegistry \<Rightarrow> TimedLockset \<Rightarrow> string" where
  "TimedLockset_text r tls =
     ''TIMEDLOCKSET: [ '' @
     concat (map (\<lambda>entry. ''('' @ get_mutex_id r (fst entry) @ ''->'' @ nat_text (unat (snd entry)) @ '') '') (timestamps tls)) @
     '']''"

definition VectorClock_text :: "VectorClock \<Rightarrow> string" where
  "VectorClock_text vc =
     (if length (clock vc) = 0 then ''{0}'' @ endl
      else ''[ '' @ concat (map (\<lambda>it. ''('' @ nat_text (fst it) @ '': '' @ nat_text (unat (snd it)) @ '') '') (clock vc)) @ '']'')"

section \<open>Identifiers\<close>

lemma find_index:
  assumes "registry_wf S r"
  shows "find (\<lambda>entry. snd entry = i) (lock_index r) = Some e \<Longrightarrow> map_of (lock_index r) (fst e) = Some i"
    and "find (\<lambda>entry. snd entry = i) (lock_index r) = None \<Longrightarrow> i \<notin> ran (map_of (lock_index r))"
proof -
  have d: "distinct (map fst (lock_index r))" using assms by (simp add: registry_wf_def sm.wf_distinct)
  show "map_of (lock_index r) (fst e) = Some i" if "find (\<lambda>entry. snd entry = i) (lock_index r) = Some e"
  proof -
    from that have "e \<in> set (lock_index r)" "snd e = i" by (auto simp: find_Some_iff)
    with d show ?thesis by (metis map_of_is_SomeI prod.collapse)
  qed
  show "find (\<lambda>entry. snd entry = i) (lock_index r) = None \<Longrightarrow> i \<notin> ran (map_of (lock_index r))"
    by (auto simp: find_None_iff ran_def dest: map_of_SomeD)
qed

lemma get_mutex_id_registered:
  assumes "registry_wf S r" "map_of (lock_index r) m = Some i"
  shows "get_mutex_id r i = nat_text (unat m)"
proof (cases "find (\<lambda>entry. snd entry = i) (lock_index r)")
  case None
  with find_index(2) [OF assms(1) None] assms(2) show ?thesis by (auto simp: ran_def)
next
  case (Some e)
  with find_index(1) [OF assms(1) Some] assms have "fst e = m"
    by (auto simp: registry_wf_def inj_on_def domIff)
  with Some show ?thesis by (simp add: get_mutex_id_def)
qed

lemma get_mutex_id_special:
  assumes "registry_wf S r" "i \<notin> ran (map_of (lock_index r))" "i < lock_counter r"
  shows "get_mutex_id r i = ''S'' @ nat_text i"
proof (cases "find (\<lambda>entry. snd entry = i) (lock_index r)")
  case (Some e)
  with find_index(1) [OF assms(1) Some] assms(2) show ?thesis by (auto simp: ran_def)
qed (simp add: get_mutex_id_def assms(3))

text \<open>The members a lockset's text lists: the registered ones.\<close>

lemma Lockset_text_members:
  assumes "registry_wf S r"
  shows "Lockset_text r ls =
    ''LOCKSET: [ '' @
    concat (map (\<lambda>e. nat_text (unat (fst e)) @ '' '') (filter (\<lambda>e. snd e \<in> members ls) (lock_index r))) @ '']''"
proof -
  have e: "(let lock_i = snd e; macro = lock_i div 64; micro = lock_i mod 64
       in if macro \<ge> length (locks ls) then []
          else if bit (locks ls ! macro) micro then get_mutex_id r lock_i @ '' '' else []) =
      (if snd e \<in> members ls then nat_text (unat (fst e)) @ '' '' else [])" if "e \<in> set (lock_index r)" for e
  proof -
    have "get_mutex_id r (snd e) = nat_text (unat (fst e))"
      using assms that by (intro get_mutex_id_registered [OF assms]) (simp add: registry_wf_def sm.wf_distinct)
    then show ?thesis by (simp add: members_def has_index_def Let_def)
  qed
  have "concat (map (\<lambda>e. if P e then f e else []) es) = concat (map f (filter P es))"
    for P and f :: "u64 \<times> nat \<Rightarrow> string" and es
    by (induction es) auto
  then show ?thesis unfolding Lockset_text_def by (subst map_cong [OF refl e]) simp_all
qed

text \<open>
  The printed identifier tells mutexes apart: among the indices handed out, an index of a
  registered mutex prints as its address, that of a special mutex as \<^verbatim>\<open>S\<close> and its number,
  two of them print the same only when they are equal, and any other index prints as \<^verbatim>\<open>N/A\<close>.
\<close>
lemma get_mutex_id_distinct:
  assumes "registry_wf S r"
  shows "(\<forall>m i. map_of (lock_index r) m = Some i \<longrightarrow> get_mutex_id r i = nat_text (unat m)) \<and>
    (\<forall>i \<in> S. get_mutex_id r i = ''S'' @ nat_text i) \<and>
    inj_on (get_mutex_id r) {..<lock_counter r} \<and> (\<forall>i \<ge> lock_counter r. get_mutex_id r i = ''N/A'')"
proof (intro conjI allI impI ballI)
  show "get_mutex_id r i = nat_text (unat m)" if "map_of (lock_index r) m = Some i" for m i
    by (rule get_mutex_id_registered [OF assms that])
  show "get_mutex_id r i = ''S'' @ nat_text i" if "i \<in> S" for i
    using assms that by (intro get_mutex_id_special [OF assms]) (auto simp: registry_wf_def)
  have id: "(\<exists>m. map_of (lock_index r) m = Some i \<and> get_mutex_id r i = nat_text (unat m)) \<or>
      get_mutex_id r i = ''S'' @ nat_text i" if "i < lock_counter r" for i
    using get_mutex_id_registered [OF assms] get_mutex_id_special [OF assms _ that] by (auto simp: ran_def)
  show "inj_on (get_mutex_id r) {..<lock_counter r}"
  proof (rule inj_onI)
    fix i j assume "i \<in> {..<lock_counter r}" "j \<in> {..<lock_counter r}" and eq: "get_mutex_id r i = get_mutex_id r j"
    then have "i < lock_counter r" "j < lock_counter r" by simp_all
    from id [OF this(1)] id [OF this(2)] show "i = j" using eq by (auto simp flip: word_unat_eq_iff)
  qed
  show "get_mutex_id r i = ''N/A''" if "lock_counter r \<le> i" for i
  proof (cases "find (\<lambda>entry. snd entry = i) (lock_index r)")
    case (Some e)
    with find_index(1) [OF assms Some] assms that show ?thesis
      by (auto simp: registry_wf_def dest: ranI)
  qed (use that in \<open>simp add: get_mutex_id_def\<close>)
qed

lemma get_mutex_id_distinct_witness:
  "get_mutex_id \<lparr>lock_index = [(0x500, 0), (0x600, 2)], lock_counter = 3\<rparr> 2 \<noteq>
   get_mutex_id \<lparr>lock_index = [(0x500, 0), (0x600, 2)], lock_counter = 3\<rparr> 1"
proof -
  have "registry_wf {1} \<lparr>lock_index = [(0x500, 0), (0x600, 2)], lock_counter = 3\<rparr>"
    by (auto simp: registry_wf_def sm_wf_def inj_on_def split: if_splits)
  from get_mutex_id_distinct [OF this] show ?thesis by (elim conjE) (auto dest: inj_onD [of _ _ 2 1])
qed

end
