(* ===== verification/Statistics.thy ===== *)
theory Statistics
  imports Events StdText
begin

text \<open>
  The counters of \<^verbatim>\<open>src/src/logger.hpp\<close>, compiled in by \<^verbatim>\<open>COUNT_INSTRUCTIONS\<close>: every callback
  increments counters of its thread (the macros \<^verbatim>\<open>COUNT_...\<close>), the end of a thread adds them to
  the global ones, and \<^verbatim>\<open>Fini\<close> prints the sums (theory \<open>Fini\<close>). The counters only watch: they are kept beside the state of
  the tool. The struct of counters is a function from the names of its fields; the counters of
  time are not compiled in.
\<close>

section \<open>The code\<close>

datatype counter =
    pm_stores | stores | loads | pm_loads | flushes | fences | rmw
  | cnt_locks | unlocks | wrlocks | rdlocks | rwunlocks | pm_nt_stores

type_synonym LoggingData = "counter \<Rightarrow> u64"

definition new_LoggingData :: LoggingData where
  "new_LoggingData = (\<lambda>_. 0)"

record logger =
  logging_tls :: "nat \<Rightarrow> LoggingData"
  totals :: LoggingData

definition init_logger :: logger where
  "init_logger = \<lparr>logging_tls = (\<lambda>_. new_LoggingData), totals = new_LoggingData\<rparr>"

text \<open>
  The counters a callback increments, each once, in a state of the tool: those of the lock functions, and
  those of the instructions.
\<close>

fun counted_sync :: "event \<Rightarrow> hawk \<Rightarrow> counter list" where
  "counted_sync (EvLock tid m) g = [cnt_locks]"
| "counted_sync (EvWriteLock tid m) g = [wrlocks]"
| "counted_sync (EvReadLock tid m) g = [rdlocks]"
| "counted_sync (EvTryLockAfter mem tid res success neg use_arg lt) g =
     (if try_lock_check mem (get_thread_data g tid) res success neg use_arg then [cnt_locks] else [])"
| "counted_sync (EvUnlock tid m) g = [unlocks]"
| "counted_sync (EvRWUnlock tid m) g = [rwunlocks]"
| "counted_sync _ g = []"

fun counted :: "event \<Rightarrow> hawk \<Rightarrow> counter list" where
  "counted (EvWrite tid ctxt a sz type) g =
     stores # (if IsPMAddress a sz (pm g)
               then (if type = NON_TEMPORAL_STORE then [pm_nt_stores] else [pm_stores]) else [])"
| "counted (EvFlush tid a type) g = (if IsPMAddress a 0 (pm g) then [flushes] else [])"
| "counted (EvFence tid ctxt) g = [fences]"
| "counted (EvRMW tid ctxt a sz) g = [rmw]"
| "counted (EvRead tid ctxt a sz a2) g =
     loads # (if IsPMAddress a sz (pm g) then [pm_loads]
              else if a2 \<noteq> 0 \<and> IsPMAddress a2 sz (pm g) then [pm_loads] else [])"
| "counted e g = counted_sync e g"

definition count_in :: "nat \<Rightarrow> counter \<Rightarrow> logger \<Rightarrow> logger" where
  "count_in tid k st =
     st\<lparr>logging_tls := (logging_tls st)(tid := (logging_tls st tid)(k := logging_tls st tid k + 1))\<rparr>"

definition sum_global :: "nat \<Rightarrow> logger \<Rightarrow> logger" where
  "sum_global tid st = st\<lparr>totals := (\<lambda>k. totals st k + logging_tls st tid k)\<rparr>"

definition count_step :: "event \<Rightarrow> hawk \<Rightarrow> logger \<Rightarrow> logger" where
  "count_step e g st =
     (case thread_of e of
        None \<Rightarrow> st
      | Some tid \<Rightarrow>
          let st1 = fold (count_in tid) (counted e g) st
          in if e = EvThreadExit tid then sum_global tid st1 else st1)"

text \<open>A run of the tool with the state before each callback, and the counters along it.\<close>

fun run_trace :: "config \<Rightarrow> event list \<Rightarrow> hawk \<Rightarrow> (event \<times> hawk) list" where
  "run_trace c [] g = []"
| "run_trace c (e # es) g =
     (e, g) # (case hawk_step c e g of Inl err \<Rightarrow> [] | Inr g' \<Rightarrow> run_trace c es g')"

definition count_run :: "(event \<times> hawk) list \<Rightarrow> logger \<Rightarrow> logger" where
  "count_run = fold (\<lambda>(e, g). count_step e g)"

definition instruction_count_text :: "LoggingData \<Rightarrow> string" where
  "instruction_count_text c =
     (let line = (\<lambda>label k. label @ nat_text (unat (c k)) @ endl)
      in ''-- # of Instructions and Sync Primitives -- '' @ endl @
         line ''    pm stores:    '' pm_stores @
         line ''    pm nt stores: '' pm_nt_stores @
         line ''    pm loads:     '' pm_loads @
         line ''    loads:        '' loads @
         line ''    stores:       '' stores @
         line ''    flushes:      '' flushes @
         line ''    fences:       '' fences @
         line ''    rmw:          '' rmw @
         line ''    lock:         '' cnt_locks @
         line ''    unlocks:      '' unlocks @
         line ''    read lock:    '' rdlocks @
         line ''    write lock:   '' wrlocks @
         line ''    rd/wr unlock: '' rwunlocks @ endl)"

section \<open>What is printed\<close>

lemma distinct_counted: "distinct (counted e g)"
  by (cases e) auto

lemma totals_count_in [simp]: "totals (count_in tid k st) = totals st"
  by (simp add: count_in_def)

lemma totals_fold_count_in [simp]: "totals (fold (count_in tid) ks st) = totals st"
  by (induction ks arbitrary: st) simp_all

lemma fold_count_in:
  "distinct ks \<Longrightarrow> logging_tls (fold (count_in tid) ks st) t k =
     logging_tls st t k + (if t = tid \<and> k \<in> set ks then 1 else 0)"
  by (induction ks arbitrary: st) (auto simp: count_in_def)

text \<open>How often the callbacks of one thread increment a counter in a run.\<close>

definition hits :: "nat \<Rightarrow> counter \<Rightarrow> (event \<times> hawk) list \<Rightarrow> nat" where
  "hits tid k tr = length (filter (\<lambda>(e, g). thread_of e = Some tid \<and> k \<in> set (counted e g)) tr)"

lemma hits_simps [simp]:
  "hits tid k [] = 0"
  "hits tid k ((e, g) # tr) = (if thread_of e = Some tid \<and> k \<in> set (counted e g) then 1 else 0) + hits tid k tr"
  by (simp_all add: hits_def)

lemma count_step_tls:
  "logging_tls (count_step e g st) t k =
     logging_tls st t k + (if thread_of e = Some t \<and> k \<in> set (counted e g) then 1 else 0)"
  using fold_count_in [OF distinct_counted, of "the (thread_of e)" e g st t k]
  by (auto simp: count_step_def sum_global_def Let_def split: option.splits)

lemma count_step_totals:
  "totals (count_step e g st) k =
     totals st k + (case e of EvThreadExit tid \<Rightarrow> logging_tls st tid k | _ \<Rightarrow> 0)"
  by (cases e) (simp_all add: count_step_def sum_global_def Let_def)

text \<open>
  What the printed lines are to count, written without the counters: the labels in the order of the
  text, each with the callbacks its number is about, in the state they find.
\<close>

definition printed_lines :: "(string \<times> (event \<Rightarrow> hawk \<Rightarrow> bool)) list" where
  "printed_lines =
     [(''    pm stores:    '', \<lambda>e g. case e of EvWrite _ _ a sz type \<Rightarrow> type \<noteq> NON_TEMPORAL_STORE \<and> IsPMAddress a sz (pm g) | _ \<Rightarrow> False),
      (''    pm nt stores: '', \<lambda>e g. case e of EvWrite _ _ a sz type \<Rightarrow> type = NON_TEMPORAL_STORE \<and> IsPMAddress a sz (pm g) | _ \<Rightarrow> False),
      (''    pm loads:     '', \<lambda>e g. case e of EvRead _ _ a sz a2 \<Rightarrow> IsPMAddress a sz (pm g) \<or> (a2 \<noteq> 0 \<and> IsPMAddress a2 sz (pm g)) | _ \<Rightarrow> False),
      (''    loads:        '', \<lambda>e g. case e of EvRead _ _ _ _ _ \<Rightarrow> True | _ \<Rightarrow> False),
      (''    stores:       '', \<lambda>e g. case e of EvWrite _ _ _ _ _ \<Rightarrow> True | _ \<Rightarrow> False),
      (''    flushes:      '', \<lambda>e g. case e of EvFlush _ a _ \<Rightarrow> IsPMAddress a 0 (pm g) | _ \<Rightarrow> False),
      (''    fences:       '', \<lambda>e g. case e of EvFence _ _ \<Rightarrow> True | _ \<Rightarrow> False),
      (''    rmw:          '', \<lambda>e g. case e of EvRMW _ _ _ _ \<Rightarrow> True | _ \<Rightarrow> False),
      (''    lock:         '', \<lambda>e g. case e of EvLock _ _ \<Rightarrow> True
         | EvTryLockAfter mem t result success negate use_arg _ \<Rightarrow> try_lock_check mem (get_thread_data g t) result success negate use_arg
         | _ \<Rightarrow> False),
      (''    unlocks:      '', \<lambda>e g. case e of EvUnlock _ _ \<Rightarrow> True | _ \<Rightarrow> False),
      (''    read lock:    '', \<lambda>e g. case e of EvReadLock _ _ \<Rightarrow> True | _ \<Rightarrow> False),
      (''    write lock:   '', \<lambda>e g. case e of EvWriteLock _ _ \<Rightarrow> True | _ \<Rightarrow> False),
      (''    rd/wr unlock: '', \<lambda>e g. case e of EvRWUnlock _ _ \<Rightarrow> True | _ \<Rightarrow> False)]"

text \<open>Every thread ends at most once, with its last callback.\<close>

fun exits_last :: "event list \<Rightarrow> bool" where
  "exits_last [] = True"
| "exits_last (e # es) =
     ((case e of EvThreadExit tid \<Rightarrow> list_all (\<lambda>e'. thread_of e' \<noteq> Some tid) es | _ \<Rightarrow> True) \<and> exits_last es)"

definition exited :: "event list \<Rightarrow> nat set" where
  "exited es = {tid. EvThreadExit tid \<in> set es}"

lemma finite_exited [simp]: "finite (exited es)"
proof -
  have "exited es \<subseteq> (\<lambda>e. the (thread_of e)) ` set es" by (force simp: exited_def)
  then show ?thesis by (rule finite_subset) simp
qed

lemma no_hits: "list_all (\<lambda>e. thread_of e \<noteq> Some tid) (map fst tr) \<Longrightarrow> hits tid k tr = 0"
  by (induction tr) auto

lemma count_run_totals:
  "exits_last (map fst tr) \<Longrightarrow>
   totals (count_run tr st) k =
     totals st k + (\<Sum>t \<in> exited (map fst tr). logging_tls st t k + of_nat (hits t k tr))"
proof (induction tr arbitrary: st)
  case Nil
  then show ?case by (simp add: count_run_def exited_def)
next
  case (Cons x tr)
  obtain e g where x: "x = (e, g)" by (cases x)
  let ?X = "exited (map fst tr)"
  have IH: "totals (count_run (x # tr) st) k = totals (count_step e g st) k +
      (\<Sum>t \<in> ?X. logging_tls (count_step e g st) t k + of_nat (hits t k tr))"
    using Cons.IH [of "count_step e g st"] Cons.prems by (simp add: x count_run_def)
  have step: "(\<Sum>t \<in> ?X. logging_tls (count_step e g st) t k + of_nat (hits t k tr)) =
      (\<Sum>t \<in> ?X. logging_tls st t k + of_nat (hits t k (x # tr)))"
    by (rule sum.cong) (simp_all add: count_step_tls x)
  show ?case
  proof (cases "\<exists>tid. e = EvThreadExit tid")
    case True
    then obtain tid where e: "e = EvThreadExit tid" ..
    have l: "list_all (\<lambda>e. thread_of e \<noteq> Some tid) (map fst tr)" using Cons.prems by (simp add: x e)
    then have "tid \<notin> ?X" by (force simp: exited_def list_all_iff)
    moreover have "exited (map fst (x # tr)) = insert tid ?X" by (auto simp: exited_def x e)
    ultimately show ?thesis
      unfolding IH step by (simp add: count_step_totals x e no_hits [OF l])
  next
    case False
    then have "exited (map fst (x # tr)) = ?X" "totals (count_step e g st) k = totals st k"
      by (auto simp: exited_def x count_step_totals split: event.splits)
    then show ?thesis unfolding IH step by simp
  qed
qed

text \<open>The callbacks of a kind, among those of the threads that end in the run.\<close>

definition callbacks_of_ended :: "(event \<Rightarrow> hawk \<Rightarrow> bool) \<Rightarrow> (event \<times> hawk) list \<Rightarrow> (event \<times> hawk) list" where
  "callbacks_of_ended kind tr =
     filter (\<lambda>(e, g). kind e g \<and> (case thread_of e of None \<Rightarrow> False | Some t \<Rightarrow> EvThreadExit t \<in> set (map fst tr))) tr"

lemma sum_hits:
  "finite T \<Longrightarrow> (\<Sum>t \<in> T. hits t k tr) =
     length (filter (\<lambda>(e, g). k \<in> set (counted e g) \<and> (case thread_of e of None \<Rightarrow> False | Some t \<Rightarrow> t \<in> T)) tr)"
proof (induction tr)
  case (Cons x tr)
  obtain e g where x: "x = (e, g)" by (cases x)
  have "(\<Sum>t \<in> T. if thread_of e = Some t \<and> k \<in> set (counted e g) then 1 else 0) =
      (if k \<in> set (counted e g) \<and> (case thread_of e of None \<Rightarrow> False | Some t \<Rightarrow> t \<in> T) then 1 else (0 :: nat))"
    using Cons.prems by (cases "k \<in> set (counted e g)") (auto split: option.splits)
  with Cons show ?case by (simp add: x sum.distrib)
qed simp

lemma totals_count:
  assumes "exits_last (map fst tr)" "\<And>e g. k \<in> set (counted e g) \<longleftrightarrow> kind e g"
  shows "unat (totals (count_run tr init_logger) k) = length (callbacks_of_ended kind tr) mod 2 ^ 64"
proof -
  have "totals (count_run tr init_logger) k = of_nat (\<Sum>t \<in> exited (map fst tr). hits t k tr)"
    using count_run_totals [OF assms(1), of init_logger k] by (simp add: init_logger_def new_LoggingData_def)
  also have "(\<Sum>t \<in> exited (map fst tr). hits t k tr) = length (callbacks_of_ended kind tr)"
    by (simp only: sum_hits [OF finite_exited] callbacks_of_ended_def assms(2)) (simp only: exited_def mem_Collect_eq)
  finally show ?thesis by (simp add: unat_of_nat)
qed

lemma map_fst_run_trace: "hawk_run c es g = Inr g' \<Longrightarrow> map fst (run_trace c es g) = es"
  by (induction es arbitrary: g) (auto split: if_splits sum.splits)

text \<open>Each counter counts the callbacks of its line: the only place where both tables are compared.\<close>

lemma counted_iff:
  "pm_stores \<in> set (counted e g) \<longleftrightarrow> snd (printed_lines ! 0) e g"
  "pm_nt_stores \<in> set (counted e g) \<longleftrightarrow> snd (printed_lines ! 1) e g"
  "pm_loads \<in> set (counted e g) \<longleftrightarrow> snd (printed_lines ! 2) e g"
  "loads \<in> set (counted e g) \<longleftrightarrow> snd (printed_lines ! 3) e g"
  "stores \<in> set (counted e g) \<longleftrightarrow> snd (printed_lines ! 4) e g"
  "flushes \<in> set (counted e g) \<longleftrightarrow> snd (printed_lines ! 5) e g"
  "fences \<in> set (counted e g) \<longleftrightarrow> snd (printed_lines ! 6) e g"
  "rmw \<in> set (counted e g) \<longleftrightarrow> snd (printed_lines ! 7) e g"
  "cnt_locks \<in> set (counted e g) \<longleftrightarrow> snd (printed_lines ! 8) e g"
  "unlocks \<in> set (counted e g) \<longleftrightarrow> snd (printed_lines ! 9) e g"
  "rdlocks \<in> set (counted e g) \<longleftrightarrow> snd (printed_lines ! 10) e g"
  "wrlocks \<in> set (counted e g) \<longleftrightarrow> snd (printed_lines ! 11) e g"
  "rwunlocks \<in> set (counted e g) \<longleftrightarrow> snd (printed_lines ! 12) e g"
  by (cases e; simp add: printed_lines_def)+

lemma instruction_count_text_lines:
  assumes "exits_last (map fst tr)"
  shows "instruction_count_text (totals (count_run tr init_logger)) =
    ''-- # of Instructions and Sync Primitives -- '' @ endl @
    concat (map (\<lambda>(label, kind). label @ nat_text (length (callbacks_of_ended kind tr) mod 2 ^ 64) @ endl) printed_lines) @ endl"
proof -
  note n = totals_count [OF assms counted_iff(1)] totals_count [OF assms counted_iff(2)] totals_count [OF assms counted_iff(3)]
    totals_count [OF assms counted_iff(4)] totals_count [OF assms counted_iff(5)] totals_count [OF assms counted_iff(6)]
    totals_count [OF assms counted_iff(7)] totals_count [OF assms counted_iff(8)] totals_count [OF assms counted_iff(9)]
    totals_count [OF assms counted_iff(10)] totals_count [OF assms counted_iff(11)] totals_count [OF assms counted_iff(12)]
    totals_count [OF assms counted_iff(13)]
  show ?thesis unfolding instruction_count_text_def Let_def n by (simp add: printed_lines_def)
qed

end
