(* ===== verification/Fini.thy ===== *)
theory Fini
  imports Statistics Startup IrhRun
begin

text \<open>
  The statistics printed at the end: \<^verbatim>\<open>Fini\<close> of \<^verbatim>\<open>src/src/hawkset.cpp\<close> with \<^verbatim>\<open>get_map_size\<close> and
  \<^verbatim>\<open>get_traces_size\<close> (\<^verbatim>\<open>src/src/utils.hpp\<close>), the counters \<^verbatim>\<open>is_concurrent_exe\<close> and \<^verbatim>\<open>intersect_exe\<close>
  of the analysis, and the clocks \<^verbatim>\<open>lockset_analysis_time\<close>, \<^verbatim>\<open>output_time\<close> and
  \<^verbatim>\<open>tool_execution_time\<close>. The sizes of types, the capacities of vectors, the readings of the
  clock and the text of a floating-point number come from the compiler and the libraries: they
  are parameters. Sizes are 64-bit words.
\<close>

section \<open>The clock\<close>

text \<open>\<^verbatim>\<open>clock_gettime\<close> fills seconds and nanoseconds; \<^verbatim>\<open>long\<close> has 64 bits, read by \<^const>\<open>sint\<close>.\<close>

type_synonym i64 = "64 word"

definition realtime :: "i64 \<times> i64 \<Rightarrow> i64" where
  "realtime t = fst t * 1000000000 + snd t"

text \<open>
  The readings, in the order the tool takes them: the start of \<^verbatim>\<open>main\<close>, the start of the
  analysis, the time it prints after preparing the loads, its end, the start and the end of the
  output, and the start of \<^verbatim>\<open>Fini\<close>.
\<close>

record readings =
  at_main :: "i64 \<times> i64"
  at_analysis :: "i64 \<times> i64"
  at_prepared :: "i64 \<times> i64"
  at_analysed :: "i64 \<times> i64"
  at_output :: "i64 \<times> i64"
  at_written :: "i64 \<times> i64"
  at_fini :: "i64 \<times> i64"

definition lockset_analysis_time :: "readings \<Rightarrow> i64" where
  "lockset_analysis_time r = 0 - realtime (at_analysis r) + realtime (at_analysed r)"

definition output_time :: "readings \<Rightarrow> i64" where
  "output_time r = 0 - realtime (at_output r) + realtime (at_written r)"

definition tool_execution_time :: "readings \<Rightarrow> i64" where
  "tool_execution_time r = 0 - realtime (at_main r) + realtime (at_fini r)"

text \<open>What \<^verbatim>\<open>CheckPMRaces\<close> writes while it works, the time of the preparation included.\<close>

definition CheckPMRaces_progress :: "readings \<Rightarrow> string" where
  "CheckPMRaces_progress r =
     ''------------------------------'' @ endl @
     ''Checking for persistency races'' @ endl @
     ''------------------------------'' @ endl @
     int_text (sint (0 - realtime (at_analysis r) + realtime (at_prepared r))) @ endl"

text \<open>
  Differences of readings are exact when the differences of the numbers fit: the analysis and
  the output lie within the execution of the tool, so their times are at most its time.
\<close>

lemma sint_elapsed:
  assumes "sint a \<le> sint b" "sint b - sint a < 2 ^ 63"
  shows "sint (0 - a + b :: i64) = sint b - sint a"
proof -
  have "sint (b - a) = signed_take_bit 63 (sint b - sint a)"
    by (simp add: sint_word_ariths)
  also have "\<dots> = sint b - sint a" using assms by (intro signed_take_bit_int_eq_self) simp_all
  finally show ?thesis by simp
qed

section \<open>The counters of the analysis\<close>

text \<open>
  The analysis with the two counters: \<^verbatim>\<open>is_concurrent_exe\<close> counts the comparisons of clocks,
  \<^verbatim>\<open>intersect_exe\<close> those of locksets. The loop over the locksets of a load stops at the first
  disjoint one.
\<close>

fun disjoint_lockset ::
  "lockset_heap \<Rightarrow> pLockset \<Rightarrow> pLockset list \<Rightarrow> u64 \<Rightarrow> bool \<times> u64" where
  "disjoint_lockset h write_set [] n = (False, n)"
| "disjoint_lockset h write_set (ls # rest) n =
     (if \<not> pLockset_short_intersect h ls write_set then (True, n + 1)
      else disjoint_lockset h write_set rest (n + 1))"

type_synonym counts = "u64 \<times> u64"

definition check_load_entry_counted ::
  "lockset_heap \<Rightarrow> VectorClock list \<Rightarrow> pLockset \<Rightarrow> VectorClock
     \<Rightarrow> (backtrace_t \<times> u64) \<times> lockset_set_t \<Rightarrow> backtrace_t list \<times> counts \<Rightarrow> backtrace_t list \<times> counts" where
  "check_load_entry_counted h clocks write_set write_clock load_entry = (\<lambda>(racy_loads, is_concurrent_exe, intersect_exe).
     case fst load_entry of (backtrace, clock_i) \<Rightarrow>
       if backtrace \<in> set racy_loads then (racy_loads, is_concurrent_exe, intersect_exe)
       else if \<not> is_concurrent (clocks ! unat clock_i) write_clock
       then (racy_loads, is_concurrent_exe + 1, intersect_exe)
       else case disjoint_lockset h write_set (snd load_entry) intersect_exe of (found, n) \<Rightarrow>
         (if found then os_insert backtrace racy_loads else racy_loads, is_concurrent_exe + 1, n))"

definition CheckPMRacesPerThread_counted ::
  "hawk \<Rightarrow> nat \<Rightarrow> u64 \<Rightarrow> pLockset \<Rightarrow> VectorClock \<Rightarrow> counts \<Rightarrow> backtrace_t list \<times> counts" where
  "CheckPMRacesPerThread_counted g tid write_address write_set write_clock n =
     fold (\<lambda>load_tid acc.
       let thread_data = get_thread_data g load_tid; loads = race_likely_loads_opt thread_data in
       if \<not> used thread_data then acc
       else if load_tid = tid then acc
       else if \<not> contains loads write_address then acc
       else fold (check_load_entry_counted (ls_heap g) (vector_clocks thread_data) write_set write_clock)
              (sm_get [] loads write_address) acc)
     [0..<TLS_MAX_SIZE] ([], n)"

definition check_thread_counted :: "hawk \<Rightarrow> nat \<Rightarrow> (reports_t \<times> reports_t) \<times> counts \<Rightarrow> (reports_t \<times> reports_t) \<times> counts" where
  "check_thread_counted g tid =
     (let thread_data = get_thread_data g tid;
          race_likely_stores_opt = fold (add_store (ls_heap g)) (race_likely_stores thread_data) [] in
      fold (\<lambda>entry_adr. fold (\<lambda>entry_ls. fold (\<lambda>entry_vc (reports, n).
        case CheckPMRacesPerThread_counted g tid (fst (fst entry_adr)) (fst entry_ls)
               (vector_clocks thread_data ! unat (fst entry_vc)) n of (racy_loads, n1) \<Rightarrow>
          (if racy_loads = [] then reports
           else fold (add_reports (fst entry_adr) racy_loads) (snd entry_vc) reports, n1))
        (snd entry_ls)) (snd entry_adr)) race_likely_stores_opt)"

definition CheckPMRaces_counted :: "hawk \<Rightarrow> (reports_t \<times> reports_t) \<times> counts" where
  "CheckPMRaces_counted g0 =
     (let g = build_loads_opt g0 in
      fold (\<lambda>tid acc. if used (get_thread_data g tid) then check_thread_counted g tid acc else acc)
        [0..<TLS_MAX_SIZE] (([], []), 0, 0))"

section \<open>Sizes\<close>

record layout =
  sizeof_ptr :: u64
  sizeof_StoreFenceData :: u64
  sizeof_StoreData :: u64
  sizeof_access_key_t :: u64
  sizeof_lockset_set_t :: u64
  sizeof_uint64_t :: u64
  sizeof_line :: u64
  stores_capacity :: "nat \<Rightarrow> u64"
  trace_capacity :: "nat \<Rightarrow> u64"
  allocs_capacity :: u64

definition get_map_size :: "u64 \<Rightarrow> u64 \<Rightarrow> ('k \<times> 'v) list \<Rightarrow> u64" where
  "get_map_size sizeof_key sizeof_value m = of_nat (length m) * (sizeof_key + sizeof_value)"

definition get_traces_size :: "layout \<Rightarrow> backtrace_heap \<Rightarrow> u64" where
  "get_traces_size l h = fold (\<lambda>it s. s + sizeof_ptr l * trace_capacity l it) (backtraces h) 0"

record fini_sums =
  n_rlps :: u64
  vector_cap :: u64
  mem_state_size :: u64
  access_point_size :: u64
  vcs_n :: u64

text \<open>The two nested maps of a thread, and the lines in them.\<close>

definition map_sizes :: "layout \<Rightarrow> mem_state_t \<Rightarrow> u64 \<Rightarrow> u64" where
  "map_sizes l m s = fold (\<lambda>it s. s + get_map_size (sizeof_uint64_t l) (sizeof_StoreData l) (snd it)) m s"

definition Fini_thread :: "layout \<Rightarrow> hawk \<Rightarrow> nat \<Rightarrow> fini_sums \<Rightarrow> fini_sums" where
  "Fini_thread l g i s =
     (let thread_data = get_thread_data g i in
      if \<not> used thread_data then s
      else s\<lparr>n_rlps := n_rlps s + of_nat (length (race_likely_stores thread_data)),
             vcs_n := vcs_n s + of_nat (length (vector_clocks thread_data)),
             vector_cap := vector_cap s + stores_capacity l i * sizeof_StoreFenceData l,
             access_point_size := access_point_size s +
               get_map_size (sizeof_access_key_t l) (sizeof_lockset_set_t l) (race_likely_loads thread_data),
             mem_state_size := map_sizes l (flushed_mem_state thread_data) (map_sizes l (mem_state thread_data)
               (mem_state_size s + get_map_size (sizeof_uint64_t l) (sizeof_line l) (mem_state thread_data)
                                 + get_map_size (sizeof_uint64_t l) (sizeof_line l) (flushed_mem_state thread_data)))\<rparr>)"

definition Fini_sums :: "layout \<Rightarrow> hawk \<Rightarrow> fini_sums" where
  "Fini_sums l g = fold (Fini_thread l g) [0..<TLS_MAX_SIZE] \<lparr>n_rlps = 0, vector_cap = 0, mem_state_size = 0, access_point_size = 0, vcs_n = 0\<rparr>"

section \<open>The text\<close>

text \<open>\<open>seconds\<close> is the text of \<^verbatim>\<open>(double) t / 1000000000\<close>.\<close>

definition Fini_text ::
  "layout \<Rightarrow> (i64 \<Rightarrow> string) \<Rightarrow> readings \<Rightarrow> LoggingData \<Rightarrow> counts \<Rightarrow> hawk \<Rightarrow> string" where
  "Fini_text l seconds r tot n g =
     (let s = Fini_sums l g;
          line = (\<lambda>label v. label @ nat_text (unat v) @ endl)
      in instruction_count_text tot @
         ''-- General Data Structures Usage (Approximation) --'' @ endl @
         line ''    StoreData (KB):      '' (mem_state_size s div 1000) @
         line ''    StoreFenceData(KB): '' (vector_cap s div 1000) @
         line ''    Access points(KB):   '' (access_point_size s div 1000) @
         line ''    Trace(#):            '' (get_traces_size l (bt_heap g)) @
         line ''    Vector Clocks(#):    '' (vcs_n s) @
         line ''    Locksets(#):         '' (of_nat (length (locksets_cache (ls_heap g)))) @
         line ''    Timed Locksets(#):   '' (of_nat (length (timedlocksets_cache (tls_heap g)))) @
         line ''    N allocs(#):         '' (allocs_capacity l) @
         line ''    IRH check(KB):       '' (of_nat (length (variable_accessed (irh g))) * 16 div 1000) @
         endl @
         ''-- Lockset Analysis Report --'' @ endl @
         line ''    Race Likely Points Compared (#): '' (n_rlps s) @
         ''    Analysis Time (s): '' @ seconds (lockset_analysis_time r) @ endl @
         ''    Output Time (s): '' @ seconds (output_time r) @ endl @
         ''    Tool Execution Time (s): '' @ seconds (tool_execution_time r) @ endl @
         line ''    Is Concurrent (#): '' (fst n) @
         line ''    Intersect (#): '' (snd n) @ endl)"

section \<open>Counting does not change the analysis\<close>

lemma disjoint_lockset_fst:
  "fst (disjoint_lockset h ws lss n) \<longleftrightarrow> list_ex (\<lambda>ls. \<not> pLockset_short_intersect h ls ws) lss"
  by (induction lss arbitrary: n) auto

lemma check_load_entry_counted_fst:
  "fst (check_load_entry_counted h clocks ws wc e (racy, n)) = check_load_entry h clocks ws wc e racy"
  using disjoint_lockset_fst [of h ws "snd e" "snd n"]
  by (auto simp: check_load_entry_counted_def check_load_entry_def split: prod.splits)

text \<open>A fold over pairs whose first components do not depend on the second.\<close>

lemma fold_fst:
  assumes "\<And>x a. fst (f x a) = f' x (fst a)"
  shows "fst (fold f xs a) = fold f' xs (fst a)"
  using assms by (induction xs arbitrary: a) simp_all

lemma CheckPMRacesPerThread_counted_fst:
  "fst (CheckPMRacesPerThread_counted g tid a ws wc n) = CheckPMRacesPerThread g tid a ws wc"
proof -
  have "fst (check_load_entry_counted h clocks ws wc e acc) = check_load_entry h clocks ws wc e (fst acc)" for h clocks e acc
    using check_load_entry_counted_fst [of h clocks ws wc e "fst acc" "snd acc"] by simp
  then have entry: "fst (fold (check_load_entry_counted h clocks ws wc) es acc) =
      fold (check_load_entry h clocks ws wc) es (fst acc)" for h clocks es acc
    by (rule fold_fst)
  show ?thesis
    unfolding CheckPMRacesPerThread_counted_def CheckPMRacesPerThread_def
    by (subst fold_fst [where f' = "\<lambda>load_tid racy_loads.
       let thread_data = get_thread_data g load_tid; loads = race_likely_loads_opt thread_data in
       if \<not> used thread_data then racy_loads
       else if load_tid = tid then racy_loads
       else if \<not> contains loads a then racy_loads
       else fold (check_load_entry (ls_heap g) (vector_clocks thread_data) ws wc) (sm_get [] loads a) racy_loads"])
       (simp_all add: Let_def entry)
qed

lemma check_thread_counted_fst: "fst (check_thread_counted g tid acc) = check_thread g tid (fst acc)"
proof -
  have 1: "fst (case acc of (reports, n) \<Rightarrow>
        case CheckPMRacesPerThread_counted g tid a ws wc n of (racy_loads, n1) \<Rightarrow>
          (if racy_loads = [] then reports else fold (add_reports k racy_loads) ts reports, n1)) =
      (let racy_loads = CheckPMRacesPerThread g tid a ws wc
       in if racy_loads = [] then fst acc else fold (add_reports k racy_loads) ts (fst acc))"
    for a ws wc k ts and acc :: "(reports_t \<times> reports_t) \<times> counts"
    using CheckPMRacesPerThread_counted_fst [of g tid a ws wc "snd acc"] by (auto split: prod.splits)
  show ?thesis
    unfolding check_thread_counted_def check_thread_def Let_def
    by (intro fold_fst 1 [unfolded Let_def])
qed

theorem CheckPMRaces_counted_fst: "fst (CheckPMRaces_counted g) = CheckPMRaces g"
  unfolding CheckPMRaces_counted_def CheckPMRaces_def Let_def
  by (subst fold_fst [where f' = "\<lambda>tid reports. if used (get_thread_data (build_loads_opt g) tid)
        then check_thread (build_loads_opt g) tid reports else reports"]) (simp_all add: check_thread_counted_fst)

section \<open>What is counted\<close>

lemma Fini_thread_counts:
  "n_rlps (Fini_thread l g i s) = n_rlps s +
     (if used (get_thread_data g i) then of_nat (length (race_likely_stores (get_thread_data g i))) else 0)"
  "vcs_n (Fini_thread l g i s) = vcs_n s +
     (if used (get_thread_data g i) then of_nat (length (vector_clocks (get_thread_data g i))) else 0)"
  by (simp_all add: Fini_thread_def Let_def)

lemma Fini_sums_counts:
  "n_rlps (Fini_sums l g) = of_nat (\<Sum>i<TLS_MAX_SIZE.
     if used (get_thread_data g i) then length (race_likely_stores (get_thread_data g i)) else 0)"
  "vcs_n (Fini_sums l g) = of_nat (\<Sum>i<TLS_MAX_SIZE.
     if used (get_thread_data g i) then length (vector_clocks (get_thread_data g i)) else 0)"
proof -
  let ?s = "\<lambda>m. fold (Fini_thread l g) [0..<m] \<lparr>n_rlps = 0, vector_cap = 0, mem_state_size = 0, access_point_size = 0, vcs_n = 0\<rparr>"
  have "n_rlps (?s m) = of_nat (\<Sum>i<m. if used (get_thread_data g i) then length (race_likely_stores (get_thread_data g i)) else 0) \<and>
      vcs_n (?s m) = of_nat (\<Sum>i<m. if used (get_thread_data g i) then length (vector_clocks (get_thread_data g i)) else 0)" for m
    by (induction m) (simp_all add: Fini_thread_counts)
  then show "n_rlps (Fini_sums l g) = of_nat (\<Sum>i<TLS_MAX_SIZE.
     if used (get_thread_data g i) then length (race_likely_stores (get_thread_data g i)) else 0)"
    "vcs_n (Fini_sums l g) = of_nat (\<Sum>i<TLS_MAX_SIZE.
     if used (get_thread_data g i) then length (vector_clocks (get_thread_data g i)) else 0)"
    by (simp_all add: Fini_sums_def)
qed

text \<open>Clocks are pushed by four callbacks: creation, start, join and exit.\<close>

definition all_clocks :: "hawk \<Rightarrow> nat" where
  "all_clocks g = (\<Sum>i<TLS_MAX_SIZE. length (vector_clocks (get_thread_data g i)))"

definition clock_callbacks :: "(event \<times> hawk) list \<Rightarrow> (event \<times> hawk) list" where
  "clock_callbacks = filter (\<lambda>(e, g). clock_event_of e g \<noteq> CE_none)"

lemma clock_step_appends:
  assumes "ce \<noteq> CE_none"
  shows "\<exists>t c. cs_clocks (clock_step ce s) = (cs_clocks s)(t := cs_clocks s t @ [c])"
  using assms by (cases ce) (auto simp: Let_def append_clock_def)

lemma all_clocks_append:
  assumes "\<And>i. vector_clocks (get_thread_data g' i) = ((\<lambda>i. vector_clocks (get_thread_data g i))(t := cs @ [c])) i"
    and "vector_clocks (get_thread_data g t) = cs" "t < TLS_MAX_SIZE"
  shows "all_clocks g' = all_clocks g + 1"
proof -
  have "all_clocks g' = (\<Sum>i<TLS_MAX_SIZE. length (vector_clocks (get_thread_data g i)) + (if i = t then 1 else 0))"
    unfolding all_clocks_def by (rule sum.cong) (use assms(1,2) in auto)
  then show ?thesis using assms(3) by (simp add: all_clocks_def sum.distrib)
qed

lemma run_all_clocks:
  assumes "hawk_run c es g = Inr g'" "reachable c (init_hawk n d u) g" "clocks_match g s"
  shows "all_clocks g' = all_clocks g + length (clock_callbacks (run_trace c es g)) \<and> (\<exists>s'. clocks_match g' s')"
  using assms
proof (induction es arbitrary: g s)
  case Nil
  then show ?case by (auto simp: clock_callbacks_def)
next
  case (Cons e es)
  then obtain g1 where en: "enabled e g" and step: "hawk_step c e g = Inr g1" and rest: "hawk_run c es g1 = Inr g'"
    by (auto split: if_splits)
  have inv: "hawk_inv g" by (rule reachable_hawk_inv [OF Cons.prems(2)])
  have r1: "reachable c (init_hawk n d u) g1" by (rule reachable_step [OF Cons.prems(2) en step])
  note m1 = hawk_step_match(1) [OF inv Cons.prems(3) en step]
  have "all_clocks g1 = all_clocks g + (if clock_event_of e g = CE_none then 0 else 1)"
  proof (cases "clock_event_of e g = CE_none")
    case True
    then show ?thesis using hawk_step_clock_frame [OF inv en step] by (simp add: clock_frame_def all_clocks_def)
  next
    case False
    then obtain t k where k: "cs_clocks (clock_step (clock_event_of e g) s) = (cs_clocks s)(t := cs_clocks s t @ [k])"
      using clock_step_appends by blast
    then have "vector_clocks (get_thread_data g1 i) = ((\<lambda>i. vector_clocks (get_thread_data g i))(t := cs_clocks s t @ [k])) i" for i
    proof -
      have "vector_clocks (get_thread_data g1 i) = cs_clocks (clock_step (clock_event_of e g) s) i"
        using m1 by (simp add: clocks_match_def)
      also have "\<dots> = ((cs_clocks s)(t := cs_clocks s t @ [k])) i" by (rule fun_cong [OF k])
      finally show ?thesis using Cons.prems(3) by (simp add: clocks_match_def)
    qed
    moreover have "vector_clocks (get_thread_data g t) = cs_clocks s t" using Cons.prems(3) by (simp add: clocks_match_def)
    moreover have "cs_clocks (clock_step (clock_event_of e g) s) t \<noteq> []" using k by simp
    then have "t < TLS_MAX_SIZE" using m1 by (intro started_bound [OF r1]) (simp add: clocks_match_def started_def)
    ultimately show ?thesis using all_clocks_append False by simp
  qed
  then show ?case
    using Cons.IH [OF rest r1 m1] step by (simp add: clock_callbacks_def)
qed

end
