(* ===== verification/Helpers.thy ===== *)
theory Helpers
  imports Instrument StdText Backtraces
begin

text \<open>
  The functions of \<^verbatim>\<open>src/src/utils.hpp\<close> that the tool defines and does not call: the test of two
  address ranges, the classification of two instructions of a function's prologue and epilogue,
  the symbol of one address, and the dumps of a configuration. \<^verbatim>\<open>backtrace_symbols\<close>, the operands
  of an instruction and the value of the macro \<^verbatim>\<open>XED_ICLASS_LEAVE_DEFINED\<close> are parameters.
\<close>

section \<open>Address ranges\<close>

definition addr_colision :: "u64 \<Rightarrow> u32 \<Rightarrow> u64 \<Rightarrow> u32 \<Rightarrow> bool" where
  "addr_colision a1 s1 a2 s2 \<longleftrightarrow> a1 + ucast s1 > a2 \<and> a2 + ucast s2 > a1"

text \<open>
  Without wrap-around the test decides, for two ranges that are not empty, whether they have a
  byte in common. A range that ends at the top of the address space wraps to 0 and collides
  with nothing.
\<close>

lemma addr_colision_overlap:
  assumes "unat a1 + unat s1 < 2 ^ 64" "unat a2 + unat s2 < 2 ^ 64" "s1 \<noteq> 0" "s2 \<noteq> 0"
  shows "addr_colision a1 s1 a2 s2 \<longleftrightarrow>
    {unat a1..<unat a1 + unat s1} \<inter> {unat a2..<unat a2 + unat s2} \<noteq> {}"
proof -
  have u: "unat (a + ucast s) = unat a + unat s" if "unat a + unat s < 2 ^ 64" for a :: u64 and s :: u32
  proof -
    have "unat (ucast s :: u64) = unat s" using unsigned_less [of s, where ?'a = nat] by (simp add: unat_ucast_mod)
    then show ?thesis using that by (simp add: unat_plus_no_wrap)
  qed
  have pos: "0 < unat s1" "0 < unat s2" using assms(3,4) by (simp_all add: unat_gt_0)
  have "addr_colision a1 s1 a2 s2 \<longleftrightarrow> unat a2 < unat a1 + unat s1 \<and> unat a1 < unat a2 + unat s2"
    by (simp add: addr_colision_def word_less_nat_alt u [OF assms(1)] u [OF assms(2)])
  also have "\<dots> \<longleftrightarrow> (\<exists>x. unat a1 \<le> x \<and> x < unat a1 + unat s1 \<and> unat a2 \<le> x \<and> x < unat a2 + unat s2)"
    using pos by (auto intro!: exI [of _ "max (unat a1) (unat a2)"])
  finally show ?thesis unfolding disjoint_iff atLeastLessThan_iff by blast
qed

lemma addr_colision_wraps: "\<not> addr_colision (- 1) 1 (- 1) 1"
  by (simp add: addr_colision_def)

section \<open>Instructions\<close>

datatype reg = REG_RBP | REG_STACK_PTR | REG_other nat

record ins_operands = ins +
  ins_operands :: "reg option list"
  INS_IsMov :: bool

definition INS_OperandIsReg :: "ins_operands \<Rightarrow> nat \<Rightarrow> bool" where
  "INS_OperandIsReg i n \<longleftrightarrow> n < length (ins_operands i) \<and> ins_operands i ! n \<noteq> None"

definition IsLeave :: "'a \<Rightarrow> 'a \<Rightarrow> bool" where
  "IsLeave leave_defined opcode \<longleftrightarrow> opcode = leave_defined"

definition IsFrameSetup :: "ins_operands \<Rightarrow> bool" where
  "IsFrameSetup i \<longleftrightarrow>
     length (ins_operands i) = 2 \<and>
     INS_OperandIsReg i 0 \<and>
     INS_OperandIsReg i 1 \<and>
     ins_operands i ! 0 = Some REG_RBP \<and>
     ins_operands i ! 1 = Some REG_STACK_PTR \<and>
     INS_IsMov i \<and>
     \<not> INS_IsMemoryRead i \<and>
     \<not> INS_IsMemoryWrite i"

text \<open>Such an instruction is not instrumented as a memory access.\<close>

lemma IsFrameSetup_operands: "IsFrameSetup i \<Longrightarrow> ins_operands i = [Some REG_RBP, Some REG_STACK_PTR]"
  by (cases "ins_operands i" rule: remdups_adj.cases) (auto simp: IsFrameSetup_def)

section \<open>The symbol of an address\<close>

text \<open>
  \<^verbatim>\<open>strings[0]\<close> points into the block that \<^verbatim>\<open>free(strings)\<close> releases before the result is copied
  from it.
\<close>

definition GetLocation :: "(u64 list \<Rightarrow> string list option) \<Rightarrow> u64 \<Rightarrow> hs_error + string" where
  "GetLocation symbols addr =
     (case symbols [addr] of
        None \<Rightarrow> Inl (Undefined ''null pointer'')
      | Some strings \<Rightarrow> Inl (Undefined ''use after free''))"

lemma GetLocation_undefined: "\<exists>err. GetLocation symbols addr = Inl err"
  by (simp add: GetLocation_def split: option.split)

section \<open>Dumps of a configuration\<close>

definition MutexFunctionInfo_Print :: "MutexFunctionInfo \<Rightarrow> hs_error + string" where
  "MutexFunctionInfo_Print info =
     bindE (type_code (mf_type info)) (\<lambda>type.
       Inr ([CHR 0x09] @ mf_name info @ '' ['' @ int_text (mutex_id_arg info) @ '', '' @
            int_text (success_value info) @ '', '' @ nat_text (unat type) @ '']'' @ endl))"

definition MutexConfig_Print :: "MutexConfig \<Rightarrow> hs_error + string" where
  "MutexConfig_Print cfg =
     (case mutex_id_size cfg of
        None \<Rightarrow> Inl (Undefined ''MutexConfig.mutex_id_size'')
      | Some n \<Rightarrow>
          foldE (\<lambda>info out. bindE (MutexFunctionInfo_Print info) (\<lambda>s. Inr (out @ s)))
            (concat [adquire cfg, release cfg, try_adquire cfg])
            (''mutex size: '' @ int_text n @ endl))"

end
