(* ===== verification/ThreadStart.thy ===== *)
theory ThreadStart
  imports Events
begin

text \<open>
  Why \<^verbatim>\<open>TraceThreadStart\<close> (\<^verbatim>\<open>src/src/hawkset.cpp\<close>) is two steps: it sets the semaphore its
  creator waits for before it reads \<^verbatim>\<open>creator_thread_clock\<close>, so the creator can return from
  \<^verbatim>\<open>pthread_create\<close> and create another thread in between. The lemmas give the clocks of the new
  thread in the two orders.
\<close>

lemma PthreadCreate_call_clock:
  assumes "PthreadCreate_call p g = Inr g'"
  shows "vector_clocks (get_thread_data g p) \<noteq> []"
    and "creator_thread_clock g' = vc_tick p (last (vector_clocks (get_thread_data g p)))"
    and "creator_thread_id g' = int p"
    and "last (vector_clocks (get_thread_data g' p)) = vc_tick p (vc_tick p (last (vector_clocks (get_thread_data g p))))"
  using assms
  by (auto simp: PthreadCreate_call_def ProcessThreadCreate_def vectors_back_def push_clock_def Let_def split: if_splits)

lemma TraceThreadStart_init_clock:
  assumes "TraceThreadStart_init t g = Inr g'" "creator_thread_id g = int p"
  shows "last (vector_clocks (get_thread_data g' t)) = vc_tick t (vc_tick t (creator_thread_clock g))"
  using assms by (auto simp: TraceThreadStart_init_def ProcessThreadInit_def push_clock_def split: if_splits)

lemma start_between_frame [simp]:
  "analysis_data_tls (PthreadCreate_return 0 pid (TraceThreadStart_signal t g)) = analysis_data_tls g"
  "creator_thread_clock (TraceThreadStart_signal t g) = creator_thread_clock g"
  "creator_thread_id (TraceThreadStart_signal t g) = creator_thread_id g"
  by (simp_all add: PthreadCreate_return_def TraceThreadStart_signal_def Let_def)

text \<open>A clock advanced in another thread's component, compared with later clocks of its own.\<close>

lemma creator_clocks:
  assumes C: "vc_wf C" "vc_pos C" "vc_nat C p < 2 ^ 63" "vc_nat C t < 2 ^ 63" and ne: "t \<noteq> p"
  shows "is_concurrent (vc_tick p (vc_tick p C)) (vc_tick t (vc_tick t (vc_tick p C)))"
    and "\<not> is_concurrent (vc_tick p (vc_tick p C)) (vc_tick t (vc_tick t (vc_tick p (vc_tick p (vc_tick p C)))))"
proof -
  have nat: "vc_nat (vc_tick p (vc_tick p C)) u = vc_nat C u + (if u = p then 2 else 0)"
    "vc_nat (vc_tick t (vc_tick t (vc_tick p C))) u = vc_nat C u + (if u = p then 1 else 0) + (if u = t then 2 else 0)"
    "vc_nat (vc_tick t (vc_tick t (vc_tick p (vc_tick p (vc_tick p C))))) u =
       vc_nat C u + (if u = p then 3 else 0) + (if u = t then 2 else 0)" for u
    using C ne by (simp_all add: vc_nat_tick)
  have pos: "vc_pos (vc_tick p (vc_tick p C))" "vc_pos (vc_tick t (vc_tick t (vc_tick p C)))"
    "vc_pos (vc_tick t (vc_tick t (vc_tick p (vc_tick p (vc_tick p C)))))"
    using C ne by (auto intro!: vc_pos_tick simp: vc_nat_tick)
  have wf: "vc_wf (vc_tick p (vc_tick p C))" "vc_wf (vc_tick t (vc_tick t (vc_tick p C)))"
    "vc_wf (vc_tick t (vc_tick t (vc_tick p (vc_tick p (vc_tick p C)))))"
    by (intro vc_wf_tick C(1))+
  show "is_concurrent (vc_tick p (vc_tick p C)) (vc_tick t (vc_tick t (vc_tick p C)))"
    unfolding is_concurrent_nat [OF wf(1,2) pos(1,2)] nat
    using ne by (intro conjI notI) (auto dest: spec [of _ p] spec [of _ t])
  show "\<not> is_concurrent (vc_tick p (vc_tick p C)) (vc_tick t (vc_tick t (vc_tick p (vc_tick p (vc_tick p C)))))"
    unfolding is_concurrent_nat [OF wf(1,3) pos(1,3)] nat by simp
qed

text \<open>
  C28. The start of a thread races with its creator. In a state where the creator has called
  \<^verbatim>\<open>pthread_create\<close>, the new thread's clock is concurrent with what the creator does next when
  the start callback runs to its end at once; when the creator returns and calls
  \<^verbatim>\<open>pthread_create\<close> again after the semaphore is set and before the clock is read, the creator's
  accesses between the two calls are ordered before the new thread, so no race with them is
  reported.
\<close>
theorem thread_start_interleaving:
  assumes clk: "vc_wf C" "vc_pos C" "vc_nat C p < 2 ^ 63" "vc_nat C t < 2 ^ 63"
    and C: "last (vector_clocks (get_thread_data g p)) = C" and t: "t \<noteq> p"
    and call: "PthreadCreate_call p g = Inr g1"
    and at_once: "TraceThreadStart t g1 = Inr h"
    and again: "PthreadCreate_call p (PthreadCreate_return 0 pid (TraceThreadStart_signal t g1)) = Inr g2"
    and late: "TraceThreadStart_init t g2 = Inr g3"
  shows "is_concurrent (last (vector_clocks (get_thread_data g1 p))) (last (vector_clocks (get_thread_data h t))) \<and>
    \<not> is_concurrent (last (vector_clocks (get_thread_data g1 p))) (last (vector_clocks (get_thread_data g3 t)))"
proof -
  note c1 = PthreadCreate_call_clock [OF call] and c2 = PthreadCreate_call_clock [OF again]
  have "last (vector_clocks (get_thread_data h t)) = vc_tick t (vc_tick t (vc_tick p C))"
    using TraceThreadStart_init_clock [of t "TraceThreadStart_signal t g1" h p] at_once c1 C
    by (simp add: TraceThreadStart_def)
  moreover have "last (vector_clocks (get_thread_data g3 t)) = vc_tick t (vc_tick t (vc_tick p (vc_tick p (vc_tick p C))))"
    using TraceThreadStart_init_clock [OF late c2(3)] c2(2) c1(4) C by simp
  ultimately show ?thesis using creator_clocks [OF clk t] c1(4) C by simp
qed

theorem thread_start_interleaving_witness:
  "\<exists>g g1 g2 g3. TraceThreadStart 0 (init_hawk 0 50 False) = Inr g \<and> PthreadCreate_call 0 g = Inr g1 \<and>
     PthreadCreate_call 0 (PthreadCreate_return 0 77 (TraceThreadStart_signal 1 g1)) = Inr g2 \<and>
     TraceThreadStart_init 1 g2 = Inr g3 \<and>
     \<not> is_concurrent (last (vector_clocks (get_thread_data g1 0))) (last (vector_clocks (get_thread_data g3 1)))"
proof -
  note defs = TraceThreadStart_def TraceThreadStart_signal_def TraceThreadStart_init_def ProcessThreadInit_def push_clock_def
    PthreadCreate_call_def PthreadCreate_return_def ProcessThreadCreate_def vectors_back_def TLS_MAX_SIZE_def Let_def
  let ?C = "vc_tick 0 (vc_tick 0 new_VectorClock)"
  obtain g where g: "TraceThreadStart 0 (init_hawk 0 50 False) = Inr g" "vector_clocks (get_thread_data g 0) = [?C]"
    by (simp add: defs init_hawk_def new_ThreadData_def)
  obtain g1 where g1: "PthreadCreate_call 0 g = Inr g1" "vector_clocks (get_thread_data g1 0) \<noteq> []"
    using g(2) by (simp add: defs)
  obtain h where h: "TraceThreadStart 1 g1 = Inr h" by (simp add: defs)
  obtain g2 where g2: "PthreadCreate_call 0 (PthreadCreate_return 0 77 (TraceThreadStart_signal 1 g1)) = Inr g2"
    using g1(2) by (simp add: PthreadCreate_call_def ProcessThreadCreate_def vectors_back_def Let_def)
  obtain g3 where g3: "TraceThreadStart_init 1 g2 = Inr g3" by (simp add: defs)
  have C: "vc_wf ?C" "vc_pos ?C" "vc_nat ?C 0 < 2 ^ 63" "vc_nat ?C 1 < 2 ^ 63"
    by (auto intro!: vc_pos_tick simp: vc_nat_tick)
  from thread_start_interleaving [OF C _ _ g1(1) h g2 g3] g(2) show ?thesis
    using g(1) g1(1) g2 g3 by auto
qed

end
