(* ===== verification/Scenario.thy ===== *)
theory Scenario
  imports FiestaRuns ConfigSpec Printing Fini Helpers ThreadStart
begin

text \<open>
  A concrete run, used to instantiate the properties: the main thread maps a file of the PM
  mount, creates a second thread, writes two bytes inside a critical section, and flushes
  and fences them after it, while the second thread reads them inside a critical section of
  the same mutex (\<^verbatim>\<open>src/examples/two_bugs.c\<close> has this shape). Both hold the lock while they
  access the bytes, yet the write is persisted outside the lock: the tool reports it.
  \<open>hawk_eval\<close> collects the definitions that let the simplifier compute a run.
\<close>

lemma upt_eval: "[i..<numeral n] = (if i < numeral n then i # [Suc i..<numeral n] else [])"
  by (rule upt_rec)

lemmas hawk_eval =
  upt_eval init_hawk_def new_ThreadData_def enabled_def started_def Let_def TLS_MAX_SIZE_def
  TraceThreadStart_def TraceThreadStart_signal_def TraceThreadStart_init_def ProcessThreadInit_def
  push_clock_def update_thread_def init_registry_def init_lockset_heap_def init_timedlockset_heap_def
  init_backtrace_heap_def init_irh_def init_alloc_state_def SyscallEntry_def SysBefore_def
  FDPointsToPM_resolved new_PMAllocation_def SyscallExit_def SysAfter_def set_start_def
  PthreadCreate_call_def ProcessThreadCreate_def vectors_back_def PthreadCreate_return_def
  PthreadJoin_return_def ProcessThreadJoin_def TraceThreadExit_def ProcessThreadExit_def exit_stores_def
  TraceWrite_def IsPMAddress_def in_allocation_def ProcessStore_def hawk_HandleAccess_def
  HandleAccess_def hawk_GetBacktrace_def GetBacktrace_def backtraces_get_def get_timedlockset_def
  timedlockset_cache_get_def store_byte_def byte_range_def CACHE_LINE_def um_modify_def um_insert_def
  um_erase_def sm_erase_def sm_get_def sm_modify_def vc_tick_def vc_update_def vc_update_entry_def
  new_VectorClock_def contains_def LockBefore_def UnlockBefore_def ProcessLock_def lock_current_def
  unlock_current_def get_next_id_def TimedLockset_lock_def TimedLockset_unlock_def register_mutex_def
  get_index_def new_TimedLockset_def TraceFlush_def ProcessFlush_def flush_line_def TraceFence_def
  ProcessFence_def fence_write_def hawk_HandleAccessByte_def HandleAccessByte_def
  intersect_timedlockset_def TimedLockset_empty_def timedlockset_at_def TimedLockset_eq_def
  hash_TimedLockset_def push_store_def current_clock_i_def TraceRead_def ProcessRead_def
  RegisterAccess_def to_lockset_def Lockset_lock_special_def set_mutex_internal_def new_Lockset_def
  vector_resize_def lockset_cache_get_def lockset_at_def empty_lockset_def os_insert_def hash_mix_def
  frames_at_def memory_of_def le_bytes_def BacktraceComparator_def less_eq_frames_def less_frames_def
  CheckOverwrite_def RegisterUnpersistedStore_def mem_of_def set_mem_of_def

definition demo_config :: config where
  "demo_config = \<lparr>pm_mount = ''/mnt'', configs = []\<rparr>"

definition demo_setup :: "event list" where
  "demo_setup =
     [EvThreadStart 0,
      EvSyscallEntry (\<lambda>_. Some ''/mnt/p'') 0 SYS_mmap
        (\<lambda>i. if i = 1 then 4096 else if i = 3 then 1 else if i = 4 then 5 else 0),
      EvSyscallExit 0 0x10000,
      EvCreateCall 0, EvThreadStart 1, EvCreateReturn 0 0 77]"

definition demo_events :: "event list" where
  "demo_events = demo_setup @
     [EvLock 0 0x500, EvWrite 0 0x1000 0x10000 2 STORE, EvUnlock 0 0x500,
      EvFlush 0 0x10000 CLWB, EvFence 0 0x1010,
      EvLock 1 0x500, EvRead 1 0x2000 0x10000 2 0, EvUnlock 1 0x500]"

lemma demo_run:
  "\<exists>g. hawk_run demo_config demo_events (init_hawk 0 50 False) = Inr g \<and>
     used (get_thread_data g 0) \<and> used (get_thread_data g 1) \<and>
     vector_clocks (get_thread_data g 0) = [\<lparr>clock = [(0, 2)]\<rparr>, \<lparr>clock = [(0, 4)]\<rparr>] \<and>
     vector_clocks (get_thread_data g 1) = [\<lparr>clock = [(0, 3), (1, 2)]\<rparr>] \<and>
     race_likely_stores (get_thread_data g 0) =
       [\<lparr>common_set = 0, sfd_clock_i = 1, write_trace = Some 0, fence_trace = Some 1,
         sfd_address = 0x10000, persisted = True, was_flushed = True\<rparr>,
        \<lparr>common_set = 0, sfd_clock_i = 1, write_trace = Some 0, fence_trace = Some 1,
         sfd_address = 0x10001, persisted = True, was_flushed = True\<rparr>] \<and>
     race_likely_loads (get_thread_data g 1) =
       [(\<lparr>key_address = 0x10000, key_backtrace = Some 2, key_clock_i = 0, key_mask = 3\<rparr>, [1])] \<and>
     ls_objects (ls_heap g) = [new_Lockset, \<lparr>locks = [1]\<rparr>] \<and> (\<forall>t. used (get_thread_data g t) \<longrightarrow> t < 2)"
  by (simp add: demo_events_def demo_setup_def demo_config_def hawk_eval)

text \<open>The same run in steps: the lock, the write, the release with the flush.\<close>

definition demo_locked :: "event list" where
  "demo_locked = demo_setup @ [EvLock 0 0x500]"

lemma demo_steps:
  "\<exists>g0. hawk_run demo_config demo_locked (init_hawk 0 50 False) = Inr g0 \<and>
     used (get_thread_data g0 0) \<and> (\<forall>t. used (get_thread_data g0 t) \<longrightarrow> t < 2) \<and> IsPMAddress 0x10000 2 (pm g0) \<and>
     use_init_removal_heuristic_n g0 = 0 \<and>
     held (current_timedlockset (get_thread_data g0 0)) = {0} \<and>
     acquisitions (thread_lock_ops demo_config demo_locked (init_hawk 0 50 False) 0) = 1 \<and>
     (\<exists>g1. hawk_step demo_config (EvWrite 0 0x1000 0x10000 2 STORE) g0 = Inr g1 \<and>
      mem_at (mem_state (get_thread_data g1 0)) 0x10000 \<noteq> None \<and>
     (\<exists>g2. hawk_run demo_config [EvUnlock 0 0x500, EvFlush 0 0x10000 CLWB] g1 = Inr g2 \<and>
        mem_at (flushed_mem_state (get_thread_data g2 0)) 0x10000 = mem_at (mem_state (get_thread_data g1 0)) 0x10000 \<and>
        (\<forall>t. used (get_thread_data g2 t) \<longrightarrow> t < 2) \<and>
        thread_lock_ops demo_config [EvUnlock 0 0x500, EvFlush 0 0x10000 CLWB] g1 0 = [Release 0] \<and>
        length (vector_clocks (get_thread_data g2 0)) = 2))"
  by (simp add: demo_locked_def demo_setup_def demo_config_def hawk_eval mem_at_def mutex_index_def
      ops_for_def acquisitions_def)

definition demo_before_read :: "event list" where
  "demo_before_read = demo_locked @
     [EvWrite 0 0x1000 0x10000 2 STORE, EvUnlock 0 0x500, EvFlush 0 0x10000 CLWB, EvFence 0 0x1010, EvLock 1 0x500]"

lemma demo_read_state:
  "\<exists>g. hawk_run demo_config demo_before_read (init_hawk 0 50 False) = Inr g \<and> IsPMAddress 0x10000 2 (pm g) \<and>
     length (vector_clocks (get_thread_data g 1)) = 1"
  by (simp add: demo_before_read_def demo_locked_def demo_setup_def demo_config_def hawk_eval)

lemma es_length: "length demo_events \<le> 2 ^ 62"
  by (simp add: demo_events_def demo_setup_def)

text \<open>The epoch of the write and that of the load are not ordered.\<close>

lemma demo_unordered:
  "((1, 0), (0, 1)) \<notin> run_happens_before demo_config demo_events (init_hawk 0 50 False)"
  "((0, 1), (1, 0)) \<notin> run_happens_before demo_config demo_events (init_hawk 0 50 False)"
proof -
  obtain g where run: "hawk_run demo_config demo_events (init_hawk 0 50 False) = Inr g"
    and clocks: "vector_clocks (get_thread_data g 0) = [\<lparr>clock = [(0, 2)]\<rparr>, \<lparr>clock = [(0, 4)]\<rparr>]"
      "vector_clocks (get_thread_data g 1) = [\<lparr>clock = [(0, 3), (1, 2)]\<rparr>]"
    using demo_run by blast
  note clocks = clocks(1) clocks(2) [unfolded One_nat_def]
  have i: "1 < length (vector_clocks (get_thread_data g 0))" "0 < length (vector_clocks (get_thread_data g 1))"
    by (simp_all add: clocks)
  show "((1, 0), (0, 1)) \<notin> run_happens_before demo_config demo_events (init_hawk 0 50 False)"
    "((0, 1), (1, 0)) \<notin> run_happens_before demo_config demo_events (init_hawk 0 50 False)"
    using run_clock_le(1) [OF run es_length i] run_clock_le(1) [OF run es_length i(2,1)]
    by (auto simp: clocks vc_le_def vc_at_def split: if_splits dest: spec [of _ 0] spec [of _ 1])
qed

lemma few_threads: "\<forall>t. used (get_thread_data g t) \<longrightarrow> t < 2 \<Longrightarrow> card {t. started g t} \<le> 64"
proof -
  assume "\<forall>t. used (get_thread_data g t) \<longrightarrow> t < 2"
  then have "{t. started g t} \<subseteq> {..<2}" by (auto simp: started_def)
  from card_mono [OF _ this] show ?thesis by simp
qed

text \<open>The state in which the write is flushed and not fenced yet.\<close>

definition demo_pending :: "event list" where
  "demo_pending = demo_locked @ [EvWrite 0 0x1000 0x10000 2 STORE, EvUnlock 0 0x500, EvFlush 0 0x10000 CLWB]"

lemma demo_pending_run:
  "\<exists>g. hawk_run demo_config demo_pending (init_hawk 0 50 True) = Inr g \<and>
     used (get_thread_data g 0) \<and> (\<forall>t. used (get_thread_data g t) \<longrightarrow> t < 2) \<and> IsPMAddress 0x10000 2 (pm g) \<and>
     IsPMAddress 0x10000 0 (pm g) \<and> check_unpersisted_stores g \<and> mem_state (get_thread_data g 0) = [] \<and>
     map fst (mem_entries (flushed_mem_state (get_thread_data g 0))) = [0x10000, 0x10001] \<and>
     mem_at (flushed_mem_state (get_thread_data g 0)) 0x10000 \<noteq> None"
  by (simp add: demo_pending_def demo_locked_def demo_setup_def demo_config_def hawk_eval mem_at_def mem_entries_def)

lemma demo_state:
  obtains g where "hawk_run demo_config demo_pending (init_hawk 0 50 True) = Inr g" "hawk_inv g" "started g 0"
    "irh_ready (use_init_removal_heuristic_n g) [] 0 (irh g)" "use_init_removal_heuristic_n g = 0"
    "IsPMAddress 0x10000 2 (pm g)" "IsPMAddress 0x10000 0 (pm g)" "check_unpersisted_stores g"
    "mem_state (get_thread_data g 0) = []"
    "map fst (mem_entries (flushed_mem_state (get_thread_data g 0))) = [0x10000, 0x10001]"
    "mem_at (flushed_mem_state (get_thread_data g 0)) 0x10000 \<noteq> None"
proof -
  obtain g where g: "hawk_run demo_config demo_pending (init_hawk 0 50 True) = Inr g" "used (get_thread_data g 0)"
    "\<forall>t. used (get_thread_data g t) \<longrightarrow> t < 2" "IsPMAddress 0x10000 2 (pm g)" "IsPMAddress 0x10000 0 (pm g)"
    "check_unpersisted_stores g" "mem_state (get_thread_data g 0) = []"
    "map fst (mem_entries (flushed_mem_state (get_thread_data g 0))) = [0x10000, 0x10001]"
    "mem_at (flushed_mem_state (get_thread_data g 0)) 0x10000 \<noteq> None"
    using demo_pending_run by (elim exE conjE) (rule that; assumption)
  have s: "started g 0" using g(2) by (simp add: started_def)
  have r: "reachable demo_config (init_hawk 0 50 True) g" by (rule hawk_run_reachable [OF g(1) reachable_init])
  from reachable_irh_ready [OF r few_threads [OF g(3)] s] have "use_init_removal_heuristic_n g = 0" by simp
  then show thesis
    using that [OF g(1) reachable_hawk_inv [OF r] s _ _ g(4-9)] by (simp add: irh_ready_def)
qed

text \<open>The report of the run has the entry of the write, the fence and the load.\<close>

lemma demo_reported:
  "\<exists>g. hawk_run demo_config demo_events (init_hawk 0 50 False) = Inr g \<and> card {t. started g t} \<le> 64 \<and>
     (\<forall>t. started g t \<longrightarrow> length (vector_clocks (get_thread_data g t)) \<le> 2 ^ 16) \<and>
     reported (CheckPMRaces g) True (Some 0, Some 1, True) (Some 2)"
proof -
  let ?s = "\<lparr>common_set = 0, sfd_clock_i = 1, write_trace = Some 0, fence_trace = Some 1,
         sfd_address = 0x10000, persisted = True, was_flushed = True\<rparr>"
  let ?l = "(\<lparr>key_address = 0x10000, key_backtrace = Some 2, key_clock_i = 0, key_mask = 3\<rparr>, [1])"
  obtain g where run: "hawk_run demo_config demo_events (init_hawk 0 50 False) = Inr g"
    and used: "used (get_thread_data g 0)" "used (get_thread_data g 1)" "\<forall>t. used (get_thread_data g t) \<longrightarrow> t < 2"
    and vc: "vector_clocks (get_thread_data g 0) = [\<lparr>clock = [(0, 2)]\<rparr>, \<lparr>clock = [(0, 4)]\<rparr>]"
      "vector_clocks (get_thread_data g 1) = [\<lparr>clock = [(0, 3), (1, 2)]\<rparr>]"
    and rec: "?s \<in> set (race_likely_stores (get_thread_data g 0))" "?l \<in> set (race_likely_loads (get_thread_data g 1))"
    and heap: "ls_objects (ls_heap g) = [new_Lockset, \<lparr>locks = [1]\<rparr>]"
    using demo_run by (elim exE conjE) (rule that, simp_all)
  have few: "card {t. started g t} \<le> 64" by (rule few_threads [OF used(3)])
  have "length (vector_clocks (get_thread_data g t)) \<le> 2 ^ 16" if "started g t" for t
  proof -
    from that have "t = 0 \<or> t = 1" using used(3) by (auto simp: started_def less_2_cases_iff)
    then show ?thesis by (elim disjE) (simp_all add: vc [unfolded One_nat_def])
  qed
  then have small: "\<forall>t. started g t \<longrightarrow> length (vector_clocks (get_thread_data g t)) \<le> 2 ^ 16" by blast
  have s: "recorded_store g 0 ?s" "recorded_load g 1 ?l"
    using used rec by (simp_all add: recorded_store_def recorded_load_def TLS_MAX_SIZE_def)
  have "touches (fst ?l) (sfd_address ?s)" by (auto simp: touches_def intro!: exI [of _ 0])
  moreover have "members (lockset_at (ls_heap g) 1) \<inter> members (lockset_at (ls_heap g) 0) = {}"
    by (simp add: lockset_at_def heap members_new)
  ultimately have "race g 0 ?s 1 ?l"
    using demo_unordered by (intro iffD2 [OF race_iff_unordered [OF run es_length s]] conjI) simp_all
  then have "reported (CheckPMRaces g) True (Some 0, Some 1, True) (Some 2)"
    by (intro iffD2 [OF CheckPMRaces_reported [OF hawk_run_init(3) [OF run]]] exI [of _ 0] exI [of _ ?s]
        exI [of _ 1] exI [of _ ?l] conjI s) simp_all
  with run few small show ?thesis by blast
qed

section \<open>Runs of the example programs\<close>

text \<open>A pool of one page at 0x10000, and a library that does nothing else.\<close>

definition example_pool :: "event list" where
  "example_pool =
     [EvThreadStart 0,
      EvSyscallEntry (\<lambda>_. Some ''/mnt/p'') 0 SYS_mmap
        (\<lambda>i. if i = 1 then 4096 else if i = 3 then 1 else if i = 4 then 5 else 0),
      EvSyscallExit 0 0x10000]"

definition example_env :: pool_env where
  "example_env = \<lparr>access_result = 0, open_create = 5, ftruncate_result = (\<lambda>_ _. 0), open_existing = 5, config_new = 0,
     source_from_fd = (\<lambda>_. 0), set_granularity = 0, map_new = 0, map_address = 0x10000, map_size = 4096\<rparr>"

definition no_library :: library where
  "no_library = (\<lambda>_ _ _. [])"

text \<open>
  One interleaving of a main thread and its worker: the worker starts after \<open>n\<close> callbacks of the
  main thread, one more of which it lets pass, and then runs to its end.
\<close>

definition two_thread_schedule :: "nat \<Rightarrow> event list \<Rightarrow> event list \<Rightarrow> event list" where
  "two_thread_schedule n xs ys = take n xs @ take 1 ys @ take 1 (drop n xs) @ drop 1 ys @ drop 1 (drop n xs)"

lemma shuffles_append1: "zs \<in> shuffles xs ys \<Longrightarrow> us @ zs \<in> shuffles (us @ xs) ys"
  by (induction us) (auto intro: Cons_in_shuffles_leftI)

lemma shuffles_append2: "zs \<in> shuffles xs ys \<Longrightarrow> us @ zs \<in> shuffles xs (us @ ys)"
  by (induction us) (auto intro: Cons_in_shuffles_rightI)

lemma shuffles_pieces: "a @ b @ c @ d @ e \<in> shuffles (a @ c @ e) (b @ d)"
  using shuffles_append1 [OF shuffles_append2 [OF shuffles_append1 [OF shuffles_append2 [of e e "[]" d]]], of a b c] by simp

lemma two_thread_schedule_shuffles: "two_thread_schedule n xs ys \<in> shuffles xs ys"
  using shuffles_pieces [of "take n xs" "take 1 ys" "take 1 (drop n xs)" "drop 1 ys" "drop 1 (drop n xs)"]
  unfolding two_thread_schedule_def append_take_drop_id .

lemma example_pool_run:
  "pool_run example_pool"
  "\<exists>k. hawk_run demo_config example_pool (init_hawk 0 50 u) = Inr k \<and> \<not> found_alloc (pm k) \<and> IsPMAddress 0x10000 4 (pm k)"
  by (simp_all add: pool_run_def example_pool_def demo_config_def hawk_eval)

definition no_race_example :: "event list" where
  "no_race_example = example_pool @ two_thread_schedule 4
     (main_thread no_library (no_race_main example_env of_nat no_library 0x500 0 77 0))
     (worker_thread example_env no_library 0 (no_race_write_value of_nat no_library 0x500))"

definition simple_race_example :: "event list" where
  "simple_race_example = example_pool @ two_thread_schedule 5
     (main_thread no_library (simple_race_main example_env of_nat no_library 0x500 0 77 0))
     (worker_thread example_env no_library 0 (simple_race_write_value of_nat no_library 0x500))"

lemmas example_eval = example_pool_def two_thread_schedule_def example_env_def open_pmem_pool_def no_library_def
  main_thread_def worker_thread_def thread_run_def library_call_def call_def fence_def flush_int
  no_race_example_def no_race_main_def no_race_write_value_def
  simple_race_example_def simple_race_main_def simple_race_write_value_def

lemma no_race_example_run:
  "no_race_example \<in> no_race_runs example_pool example_env of_nat no_library 0x500 0 77 0"
  "\<exists>g. hawk_run demo_config no_race_example (init_hawk 0 50 True) = Inr g \<and>
     race_likely_stores (get_thread_data g 1) \<noteq> [] \<and> race_likely_loads (get_thread_data g 0) \<noteq> []"
  "length no_race_example \<le> 2 ^ 16"
proof -
  show "no_race_example \<in> no_race_runs example_pool example_env of_nat no_library 0x500 0 77 0"
    unfolding no_race_example_def no_race_runs_def by (intro imageI two_thread_schedule_shuffles)
qed (simp_all add: example_eval TraceCall_def TraceRet_def demo_config_def hawk_eval)

lemma simple_race_example_run:
  "simple_race_example \<in> simple_race_runs example_pool example_env of_nat no_library 0x500 0 77 0"
  "\<exists>g. hawk_run demo_config simple_race_example (init_hawk 0 50 False) = Inr g"
  "length simple_race_example \<le> 2 ^ 16"
proof -
  show "simple_race_example \<in> simple_race_runs example_pool example_env of_nat no_library 0x500 0 77 0"
    unfolding simple_race_example_def simple_race_runs_def by (intro imageI two_thread_schedule_shuffles)
qed (simp_all add: example_eval TraceCall_def TraceRet_def demo_config_def hawk_eval)

lemma no_library_ok: "library_ok p no_library"
  by (simp add: library_ok_def no_library_def)

lemma example_env_pool: "open_pmem_pool example_env = Inr (0x10000, 4096)" "unat (map_address example_env) mod 64 = 0"
  by (simp_all add: example_env_def open_pmem_pool_def)

section \<open>A run of each program with two workers\<close>

text \<open>
  Each worker starts while it is created, and both run to their end after the second creation has
  passed its second callback; \<open>n\<close> is the number of callbacks of the main thread before the first start.
\<close>

definition fork_schedule :: "nat \<Rightarrow> (nat \<Rightarrow> event list) \<Rightarrow> event list" where
  "fork_schedule n script =
     take n (script 0) @ take 1 (script 1) @ take 4 (drop n (script 0)) @ take 1 (script 2) @
     drop 1 (script 1) @ drop 1 (script 2) @ drop (n + 4) (script 0)"

lemma fork_schedule_scheduled:
  assumes own: "\<And>t e. e \<in> set (script t) \<Longrightarrow> thread_of e = Some t" and none: "\<And>t. 2 < t \<Longrightarrow> script t = []"
    and starts: "starts_ok 0 (fork_schedule n script)"
  shows "fork_schedule n script \<in> schedules script"
proof -
  have piece: "by_thread t xs = (if t = t' then xs else [])" if "set xs \<subseteq> set (script t')" for t t' xs
    using that own by (auto simp: filter_empty_conv filter_id_conv)
  have sub: "set (take m (script t)) \<subseteq> set (script t)" "set (drop m (script t)) \<subseteq> set (script t)"
    "set (take m (drop k (script t))) \<subseteq> set (script t)" for m k t
    by (auto dest: in_set_takeD in_set_dropD)
  have zero: "take n xs @ take 4 (drop n xs) @ drop (n + 4) xs = xs" for xs :: "event list"
    using append_take_drop_id [of 4 "drop n xs"] by (simp add: add.commute)
  have one: "take 1 xs @ drop 1 xs = xs" for xs :: "event list" by simp
  have "by_thread t (fork_schedule n script) = script t" for t
  proof -
    have "t = 0 \<or> t = 1 \<or> t = 2 \<or> 2 < t" by linarith
    then show ?thesis
      using none [of t] unfolding fork_schedule_def filter_append piece [OF sub(1)] piece [OF sub(2)] piece [OF sub(3)]
      by (elim disjE) (simp_all only: if_True if_False append_Nil append_Nil2 zero one, simp_all add: zero one)
  qed
  moreover have "thread_of e \<noteq> None" if "e \<in> set (fork_schedule n script)" for e
    using that sub own unfolding fork_schedule_def by (auto dest!: in_set_takeD in_set_dropD dest: own)
  ultimately show ?thesis using starts by (simp add: schedules_def)
qed

text \<open>What is hooked in an image that has every routine, when it is the first to be loaded.\<close>

definition example_hooks :: "MutexConfig list \<Rightarrow> (string \<times> inserted_call) list" where
  "example_hooks cfgs = (case ImageLoad (\<lambda>_. True) cfgs init_registry of Inl err \<Rightarrow> [] | Inr (calls, reps, r) \<Rightarrow> calls)"

text \<open>\<^verbatim>\<open>adq_rel.c\<close> without a configuration, and with \<^verbatim>\<open>adq_rel_test.cfg\<close>.\<close>

definition adq_rel_workers :: "MutexConfig list \<Rightarrow> (nat \<Rightarrow> u64 \<Rightarrow> event list) list" where
  "adq_rel_workers cfgs = [adq_rel_write_value (example_hooks cfgs) of_nat, adq_rel_read_value (example_hooks cfgs) of_nat no_library]"

definition adq_rel_example :: "MutexConfig list \<Rightarrow> event list" where
  "adq_rel_example cfgs = example_pool @ fork_schedule 2
     (worker_threads example_env no_library (\<lambda>_. 0) (main_thread no_library (adq_rel_main example_env of_nat no_library (\<lambda>_. 0) of_nat (\<lambda>_. 0)))
       (adq_rel_workers cfgs))"

text \<open>The first worker of \<^verbatim>\<open>two_bugs.c\<close> is cut off when it has returned from its function.\<close>

definition two_bugs_example :: "event list" where
  "two_bugs_example = example_pool @ fork_schedule 4 (two_bugs_threads example_env of_nat no_library 0x500 (\<lambda>_. 0) of_nat 0 14 False)"

lemmas fork_eval = example_eval fork_schedule_def worker_threads_def
  adq_rel_main_def adq_rel_workers_def adq_rel_write_value_def adq_rel_read_value_def enter_function_def leave_function_def
  two_bugs_threads_def cut_off_def two_bugs_main_def two_bugs_write_value_def two_bugs_write_value_2_def

lemma two_workers:
  assumes main: "\<And>e. e \<in> set main \<Longrightarrow> thread_of e = Some 0"
    and workers: "\<And>f e t a. f \<in> {f1, f2} \<Longrightarrow> e \<in> set (f t a) \<Longrightarrow> thread_of e = Some t"
  shows "e \<in> set (worker_threads env no_library created main [f1, f2] t) \<Longrightarrow> thread_of e = Some t"
    "2 < t \<Longrightarrow> worker_threads env no_library created main [f1, f2] t = []"
proof -
  note cases = worker_threads_def thread_run_def no_library_def less_Suc_eq nth_Cons' numeral_2_eq_2
  show "2 < t \<Longrightarrow> worker_threads env no_library created main [f1, f2] t = []" using main by (simp add: cases split: sum.split)
  have "e \<in> set (f1 t a) \<Longrightarrow> thread_of e = Some t" "e \<in> set (f2 t a) \<Longrightarrow> thread_of e = Some t" for e a
    using workers by blast+
  then show "e \<in> set (worker_threads env no_library created main [f1, f2] t) \<Longrightarrow> thread_of e = Some t"
    using main by (auto simp: cases split: sum.splits if_splits)
qed

text \<open>The hooks under the two: none, and both functions with special mutex 0.\<close>

definition adq_rel_cases :: "MutexConfig list \<Rightarrow> bool" where
  "adq_rel_cases cfgs \<longleftrightarrow> cfgs = [] \<or> cfgs = [adq_rel_test_config]"

lemma example_hooks_load:
  assumes "adq_rel_cases cfgs"
  shows "\<exists>reps r. ImageLoad (\<lambda>_. True) cfgs init_registry = Inr (example_hooks cfgs, reps, r)"
    "hook_mutexes (example_hooks cfgs) fn f =
      (if cfgs \<noteq> [] \<and> f \<in> {''write_value'', ''read_value''} \<and> fn \<in> {TraceAdqRelBefore_fn, TraceAdqRelAfter_fn} then [0] else [])"
  using assms
  by (auto simp: adq_rel_cases_def example_hooks_def ImageLoad_def load_config_def collect_def register_special_mutex_def
      InstrumentAdqRelRoutine_def adq_rel_test_config_def new_MutexConfig_def init_registry_def hook_mutexes_def)

lemma adq_rel_example_run:
  assumes "adq_rel_cases cfgs"
  shows "adq_rel_example cfgs \<in> adq_rel_runs (example_hooks cfgs) example_pool example_env of_nat no_library (\<lambda>_. 0) of_nat (\<lambda>_. 0)"
    "\<exists>g. hawk_run (demo_config\<lparr>configs := cfgs\<rparr>) (adq_rel_example cfgs) (init_hawk 0 50 False) = Inr g \<and>
      race_likely_stores (get_thread_data g 1) \<noteq> [] \<and> race_likely_loads (get_thread_data g 2) \<noteq> []"
    "length (adq_rel_example cfgs) \<le> 2 ^ 16"
proof -
  note hooks = example_hooks_load(2) [OF assms]
  have starts: "starts_ok 0 (fork_schedule 2
     (worker_threads example_env no_library (\<lambda>_. 0) (main_thread no_library (adq_rel_main example_env of_nat no_library (\<lambda>_. 0) of_nat (\<lambda>_. 0)))
       (adq_rel_workers cfgs)))"
    by (simp add: fork_eval hooks)
  have main: "thread_of e = Some 0" if "e \<in> set (main_thread no_library (adq_rel_main example_env of_nat no_library (\<lambda>_. 0) of_nat (\<lambda>_. 0)))" for e
    using that by (auto simp: fork_eval)
  have workers: "thread_of e = Some t" if "f \<in> {adq_rel_write_value (example_hooks cfgs) of_nat, adq_rel_read_value (example_hooks cfgs) of_nat no_library}" "e \<in> set (f t a)" for f e t a
    using that by (auto simp: fork_eval)
  show "adq_rel_example cfgs \<in> adq_rel_runs (example_hooks cfgs) example_pool example_env of_nat no_library (\<lambda>_. 0) of_nat (\<lambda>_. 0)"
    unfolding adq_rel_example_def adq_rel_runs_def adq_rel_workers_def
    by (intro imageI fork_schedule_scheduled [OF _ _ starts [unfolded adq_rel_workers_def]] two_workers [OF main workers]) assumption+
  show "\<exists>g. hawk_run (demo_config\<lparr>configs := cfgs\<rparr>) (adq_rel_example cfgs) (init_hawk 0 50 False) = Inr g \<and>
      race_likely_stores (get_thread_data g 1) \<noteq> [] \<and> race_likely_loads (get_thread_data g 2) \<noteq> []"
    using assms unfolding adq_rel_cases_def
    by (elim disjE) (simp_all add: adq_rel_example_def fork_eval example_hooks_load(2) adq_rel_cases_def TraceCall_def TraceRet_def demo_config_def hawk_eval
        TraceAdqRelBefore_def TraceAdqRelAfter_def TimedLockset_lock_special_def TimedLockset_unlock_special_def)
  show "length (adq_rel_example cfgs) \<le> 2 ^ 16"
    using assms unfolding adq_rel_cases_def
    by (elim disjE) (simp_all add: adq_rel_example_def fork_eval example_hooks_load(2) adq_rel_cases_def)
qed

lemma example_pool_run_configs:
  "\<exists>k. hawk_run (demo_config\<lparr>configs := cfgs\<rparr>) example_pool (init_hawk 0 50 u) = Inr k \<and> \<not> found_alloc (pm k) \<and> IsPMAddress 0x10000 4 (pm k)"
  by (simp add: example_pool_def demo_config_def hawk_eval)

lemma two_bugs_example_run:
  "two_bugs_example \<in> two_bugs_runs example_pool example_env of_nat no_library 0x500 (\<lambda>_. 0) of_nat 0 14 False"
  "\<exists>g. hawk_run demo_config two_bugs_example (init_hawk 0 50 False) = Inr g"
  "length two_bugs_example \<le> 2 ^ 16"
proof -
  let ?main = "main_thread no_library (two_bugs_main example_env of_nat no_library 0x500 (\<lambda>_. 0) of_nat 0)"
    and ?script = "two_bugs_threads example_env of_nat no_library 0x500 (\<lambda>_. 0) of_nat 0 14 False"
  have starts: "starts_ok 0 (fork_schedule 4 ?script)" by (simp add: fork_eval)
  have main: "thread_of e = Some 0" if "e \<in> set ?main" for e
    using that by (auto simp: fork_eval)
  have workers: "thread_of e = Some t" if "f \<in> {two_bugs_write_value of_nat no_library 0x500, two_bugs_write_value_2 of_nat no_library 0x500}" "e \<in> set (f t a)" for f e t a
    using that by (auto simp: fork_eval)
  let ?base = "worker_threads example_env no_library (\<lambda>_. 0) ?main
      [two_bugs_write_value of_nat no_library 0x500, two_bugs_write_value_2 of_nat no_library 0x500]"
  have own: "thread_of e = Some t" if "e \<in> set (?base t)" for e t
    by (rule two_workers(1) [OF main workers that]) assumption+
  have none: "?base t = []" if "2 < t" for t
    by (rule two_workers(2) [OF main workers that]) assumption+
  have "thread_of e = Some t" if "e \<in> set (?script t)" for e t
    using that own [of e t] set_cut_off [THEN subsetD, of e 14 False "?base 1"]
    by (auto simp only: two_bugs_threads_def Let_def split: if_splits)
  moreover have "?script t = []" if "2 < t" for t using none [OF that] that by (simp add: two_bugs_threads_def Let_def)
  ultimately show "two_bugs_example \<in> two_bugs_runs example_pool example_env of_nat no_library 0x500 (\<lambda>_. 0) of_nat 0 14 False"
    unfolding two_bugs_example_def two_bugs_runs_def
    by (intro imageI fork_schedule_scheduled [OF _ _ starts])
qed (simp_all add: two_bugs_example_def fork_eval TraceCall_def TraceRet_def demo_config_def hawk_eval)

end
