(* ===== verification/Acceptance.thy ===== *)
theory Acceptance
  imports Forks
begin

text \<open>
  Which sequences of callbacks the tool accepts. A small machine that knows only which threads have
  started, who holds the mutex of thread creation, its semaphore and the depths of the call stacks
  decides it: the tool's state implements the machine (\<open>sync_of\<close>), and in a process of at most 64 threads a run
  ends with no failed assertion and no undefined access exactly if the machine accepts the callbacks.
\<close>

record sync =
  on :: "nat \<Rightarrow> bool"
  creating :: "nat option"
  signalled :: bool
  depth :: "nat \<Rightarrow> nat"

definition sync_of :: "hawk \<Rightarrow> sync" where
  "sync_of g = \<lparr>on = started g, creating = thread_creation_mutex g, signalled = thread_creation_semaphore g,
     depth = (\<lambda>t. length (stack (get_thread_data g t)))\<rparr>"

fun accepts :: "event \<Rightarrow> sync \<Rightarrow> bool" where
  "accepts (EvThreadStart t) s \<longleftrightarrow> \<not> on s t \<and> t < TLS_MAX_SIZE"
| "accepts (EvCreateCall t) s \<longleftrightarrow> on s t \<and> creating s = None"
| "accepts (EvCreateReturn t result pid) s \<longleftrightarrow> on s t \<and> creating s = Some t \<and> (result = 0 \<longrightarrow> signalled s)"
| "accepts (EvRet t) s \<longleftrightarrow> on s t \<and> 0 < depth s t"
| "accepts e s \<longleftrightarrow> (case thread_of e of None \<Rightarrow> True | Some t \<Rightarrow> on s t)"

fun sync_step :: "event \<Rightarrow> sync \<Rightarrow> sync" where
  "sync_step (EvThreadStart t) s = s\<lparr>on := (on s)(t := True), signalled := signalled s \<or> t \<noteq> 0\<rparr>"
| "sync_step (EvCreateCall t) s = s\<lparr>creating := Some t\<rparr>"
| "sync_step (EvCreateReturn t result pid) s = s\<lparr>creating := None, signalled := signalled s \<and> result \<noteq> 0\<rparr>"
| "sync_step (EvCall t a) s = s\<lparr>depth := (depth s)(t := Suc (depth s t))\<rparr>"
| "sync_step (EvRet t) s = s\<lparr>depth := (depth s)(t := depth s t - 1)\<rparr>"
| "sync_step e s = s"

fun accepted :: "event list \<Rightarrow> sync \<Rightarrow> bool" where
  "accepted [] s = True"
| "accepted (e # es) s = (accepts e s \<and> accepted es (sync_step e s))"

text \<open>
  The hypotheses on a callback: the sizes are those of one instruction, and it is neither a mapping
  nor the load of an image.
\<close>

fun ordinary :: "event \<Rightarrow> bool" where
  "ordinary (EvWrite t ctxt a sz type) \<longleftrightarrow> sz \<le> 64"
| "ordinary (EvRMW t ctxt a sz) \<longleftrightarrow> sz \<le> 64"
| "ordinary (EvRead t ctxt a sz a2) \<longleftrightarrow> 0 < sz \<and> sz \<le> 64"
| "ordinary (EvImageLoad v) \<longleftrightarrow> False"
| "ordinary e \<longleftrightarrow> \<not> map_event e"

lemma sync_step_of:
  assumes inv: "hawk_inv g" and en: "enabled e g" and step: "hawk_step c e g = Inr g'"
  shows "sync_of g' = sync_step e (sync_of g)"
proof -
  have stacks: "stack (get_thread_data g' t) = stack_step t e (stack (get_thread_data g t))" for t
    by (rule hawk_step_stack [OF step])
  note started = hawk_step_started [OF inv en step] and creation = hawk_step_creation [OF step]
    and same = hawk_step_creation_same [OF step, unfolded creation_same_def]
  show ?thesis
    unfolding sync_of_def using started creation same
    by (cases e) (auto simp: stacks fun_eq_iff)
qed

lemma step_accepted:
  assumes run: "reachable c (init_hawk n d u) g" and few: "card {t. started g t} \<le> 64" and e: "ordinary e"
  shows "enabled e g \<and> (\<exists>g'. hawk_step c e g = Inr g') \<longleftrightarrow> accepts e (sync_of g)"
proof -
  have inv: "hawk_inv g" by (rule reachable_hawk_inv [OF run])
  have memory: "\<exists>g'. hawk_step c e g = Inr g'" if t: "started g t" and m: "memory_callback t e" for t
    using reachable_ready [OF run few t] memory_callback_total [OF _ _ _ m] by metis
  note vc = ready [OF inv]
  show ?thesis
  proof (cases e)
    case (EvWrite t ctxt a sz type)
    with e memory [of t] show ?thesis by (auto simp: enabled_def sync_of_def intro: memory_callback.intros)
  next
    case (EvRMW t ctxt a sz)
    with e memory [of t] show ?thesis by (auto simp: enabled_def sync_of_def intro: memory_callback.intros)
  next
    case (EvRead t ctxt a sz a2)
    with e memory [of t] show ?thesis by (auto simp: enabled_def sync_of_def intro: memory_callback.intros)
  next
    case (EvFence t ctxt)
    with memory [of t] show ?thesis by (auto simp: enabled_def sync_of_def intro: memory_callback.intros)
  next
    case (EvThreadExit t)
    with memory [of t] show ?thesis by (auto simp: enabled_def sync_of_def intro: memory_callback.intros)
  next
    case (EvSyscallEntry readlink t num arg)
    with e show ?thesis
      by (auto simp: enabled_def sync_of_def SyscallEntry_def SysBefore_def Let_def shared_flag)
  qed (use e vc in \<open>auto simp: enabled_def sync_of_def TraceRet_def PthreadCreate_call_def ProcessThreadCreate_def
      TraceThreadStart_def TraceThreadStart_init_def PthreadJoin_return_def ProcessThreadJoin_def vectors_back_def Let_def started_def\<close>)
qed

lemma run_accepted:
  assumes "reachable c (init_hawk n d u) g" and "\<forall>e \<in> set es. ordinary e" and T: "finite T" "card T \<le> 64"
    and "\<And>t. started g t \<Longrightarrow> t \<in> T" "\<And>e t. e \<in> set es \<Longrightarrow> thread_of e = Some t \<Longrightarrow> t \<in> T"
  shows "(\<exists>g'. hawk_run c es g = Inr g') \<longleftrightarrow> accepted es (sync_of g)"
  using assms(1,2,5,6)
proof (induction es arbitrary: g)
  case (Cons e es)
  have inv: "hawk_inv g" by (rule reachable_hawk_inv [OF Cons.prems(1)])
  have "card {t. started g t} \<le> card T" by (rule card_mono [OF T(1)]) (use Cons.prems(3) in blast)
  with T(2) have few: "card {t. started g t} \<le> 64" by simp
  have step: "enabled e g \<and> (\<exists>g'. hawk_step c e g = Inr g') \<longleftrightarrow> accepts e (sync_of g)"
    by (rule step_accepted [OF Cons.prems(1) few]) (use Cons.prems(2) in simp)
  have rest: "(\<exists>g'. hawk_run c es g1 = Inr g') \<longleftrightarrow> accepted es (sync_step e (sync_of g))"
    if g1: "enabled e g" "hawk_step c e g = Inr g1" for g1
  proof -
    have on: "t \<in> T" if "started g1 t" for t
    proof (cases "started g t")
      case False
      with hawk_step_started [OF inv g1] that have "e = EvThreadStart t" by simp
      then show ?thesis using Cons.prems(4) [of e t] by simp
    qed (use Cons.prems(3) in blast)
    have "(\<exists>g'. hawk_run c es g1 = Inr g') \<longleftrightarrow> accepted es (sync_of g1)"
      by (rule Cons.IH [OF reachable_step [OF Cons.prems(1) g1] _ on]) (use Cons.prems(2) in \<open>auto intro: Cons.prems(4)\<close>)
    then show ?thesis by (simp add: sync_step_of [OF inv g1])
  qed
  show ?case
    using step rest by (auto simp: hawk_run_Cons simp del: hawk_run.simps)
qed simp

end
