(* ===== verification/FiestaRace.thy ===== *)
theory FiestaRace
  imports FiestaRuns
begin

text \<open>
  The race of \<^verbatim>\<open>bug_fiesta.c\<close>: in every schedule the write of the root by the first insertion, which is
  never persisted, is reported against the first load of the root by the other thread.
\<close>

section \<open>The reading thread\<close>

lemma get_loop_runs:
  assumes ok: "common_events E t P" and "runs P t s0 s" and "get_loop E t k n s = Some r"
  shows "runs P t s0 (snd r)"
proof -
  have "\<forall>s0. common_events E t P \<longrightarrow> runs P t s0 s \<longrightarrow> runs P t s0 (snd r)"
  proof (rule get_loop.raw_induct [OF _ assms(3)], intro allI impI)
    fix f E t k n s r s0
    assume IH: "\<And>E t k n s r. f E t k n s = Some r \<Longrightarrow> \<forall>s0. common_events E t P \<longrightarrow> runs P t s0 s \<longrightarrow> runs P t s0 (snd r)"
      and body: "(if n = 0 then Some (DEAULT_VALUE, lib_call E t 179 [EvUnlock t (tree_lock E)] s)
        else let s1 = lib_call E t 168 [] (reads E t 168 (n + 16) 8 s); cmp = strcmp (texts s1 (keys s1 n)) k
          in if cmp = 0 then
               let s2 = reads E t 170 (n + 24) 4 s1 in Some (vals s2 n, lib_call E t 171 [EvUnlock t (tree_lock E)] s2)
             else if 0 < cmp then let s2 = reads E t 175 n 8 s1 in f E t k (lefts s2 n) s2
             else let s2 = reads E t 177 (n + 8) 8 s1 in f E t k (rights s2 n) s2) = Some r"
      and ok: "common_events E t P" and run: "runs P t s0 s"
    note rules = runs_lib_calls [OF ok] runs_reads [OF ok] run
    show "runs P t s0 (snd r)"
      using body by (auto simp: Let_def split: if_splits intro!: rules intro: IH [rule_format, OF _ ok])
  qed
  with ok assms(2) show ?thesis by blast
qed

lemma get_value_runs:
  assumes ok: "common_events E t P" and run: "runs P t s0 s" and get: "get_value E t k s = Some r"
  shows "runs P t s0 (snd r)"
  by (rule get_loop_runs [OF ok _ get [unfolded get_value_def Let_def]]) (intro runs_reads [OF ok] runs_lib_calls [OF ok] run)

lemma trace_with_memory [simp]: "trace (with_memory m s) = trace s"
  by (simp add: with_memory_def tree_memory.extend_def)

lemma runs_with_memory [simp]: "runs P t s0 (with_memory m s) \<longleftrightarrow> runs P t s0 s" "runs P t (with_memory m s) s1 \<longleftrightarrow> runs P t s s1"
  by (simp_all add: runs_def)

lemma get_all_runs:
  assumes lib: "fiesta_library p E" and run: "runs (\<lambda>e. own_event t e \<and> gentle p (memory E) e) t s0 s"
    and get: "get_all E t ms i xs s = Some r"
  shows "runs (\<lambda>e. own_event t e \<and> gentle p (memory E) e) t s0 (snd r)"
  using run get
proof (induction xs arbitrary: s i r)
  case (Cons x xs)
  let ?P = "\<lambda>e. own_event t e \<and> gentle p (memory E) e"
  note ok = common_gentle [OF lib, of t]
  let ?s1 = "with_memory (ms i) (lib_call E t 188 [] s)"
  let ?s2 = "emit [EvCall t (pcs E 189)] ?s1"
  obtain v s3 where v: "get_value E t (nat_text x) ?s2 = Some (v, s3)"
    using Cons.prems(2) by (auto simp: callingO_def split: option.splits)
  let ?s4 = "lib_call E t 189 [] (emit [EvRet t] s3)"
  obtain vs s' where rest: "get_all E t ms (Suc i) xs ?s4 = Some (vs, s')" "r = (v # vs, s')"
    using Cons.prems(2) v by (auto simp: callingO_def)
  have "runs ?P t ?s2 s3" using get_value_runs [OF ok _ v, of ?s2] by simp
  then have "runs ?P t ?s1 (emit [EvRet t] s3)" by (rule runs_called [rotated 2]) (simp_all add: own_event_def)
  moreover have "runs ?P t s0 ?s1" by (simp add: runs_lib_calls(1) [OF ok Cons.prems(1)])
  ultimately have "runs ?P t s0 (emit [EvRet t] s3)" by (blast intro: runs_trans)
  then have "runs ?P t s0 ?s4" by (rule runs_lib_calls(1) [OF ok])
  from Cons.IH [OF this rest(1)] rest(2) show ?case by simp
qed auto

text \<open>What the reading thread does up to the first load of the root.\<close>

definition before_load :: "fiesta_env \<Rightarrow> nat \<Rightarrow> event list" where
  "before_load E t = library_call (pcs E) (libs E 0) t 188 [] @
     EvCall t (pcs E 189) # library_call (pcs E) (libs E (length (library_call (pcs E) (libs E 0) t 188 []) + 1)) t 165 [EvLock t (tree_lock E)]"

lemma get_all_first:
  assumes lib: "fiesta_library p E" and start: "trace s = []" and get: "get_all E t ms i (x # xs) s = Some r"
  shows "\<exists>rest. trace (snd r) = before_load E t @ EvRead t (pcs E 166) (tree_ptr E) 8 0 # rest \<and>
    (\<forall>e \<in> set (trace (snd r)). own_event t e)"
proof -
  note ok = common_gentle [OF lib, of t]
  let ?s1 = "with_memory (ms i) (lib_call E t 188 [] s)"
  let ?s2 = "emit [EvCall t (pcs E 189)] ?s1"
  let ?s3 = "reads E t 166 (tree_ptr E) 8 (lib_call E t 165 [EvLock t (tree_lock E)] ?s2)"
  obtain v s4 where v: "get_value E t (nat_text x) ?s2 = Some (v, s4)"
    using get by (auto simp: callingO_def split: option.splits)
  let ?s5 = "lib_call E t 189 [] (emit [EvRet t] s4)"
  obtain vs s' where rest: "get_all E t ms (Suc i) xs ?s5 = Some (vs, s')" "r = (v # vs, s')"
    using get v by (auto simp: callingO_def)
  have "get_loop E t (nat_text x) (root ?s3) ?s3 = Some (v, s4)" using v by (simp add: get_value_def Let_def)
  from get_loop_runs [OF ok _ this, of ?s3] obtain es1 where "trace s4 = trace ?s3 @ es1" by (auto simp: runs_def)
  moreover from get_all_runs [OF lib _ rest(1), of ?s5] obtain es2 where "trace s' = trace ?s5 @ es2" by (auto simp: runs_def)
  ultimately have "trace (snd r) = trace ?s3 @ (es1 @ EvRet t # library_call (pcs E) (libs E (length (trace ?s3 @ es1 @ [EvRet t]))) t 189 [] @ es2)"
    using rest(2) by (simp add: lib_call_def emit_def)
  moreover have "trace ?s3 = before_load E t @ [EvRead t (pcs E 166) (tree_ptr E) 8 0]"
    using start by (simp add: before_load_def lib_call_def emit_def reads_def)
  moreover have "\<forall>e \<in> set (trace (snd r)). own_event t e"
    using get_all_runs [OF lib _ get, of s] start by (auto simp: runs_def)
  ultimately show ?thesis by (metis append.assoc append_Cons append_Nil)
qed

section \<open>The first insertion\<close>

lemma first_put:
  assumes lib: "fiesta_library p E" and inv: "tree_inv E (mem s) \<langle>\<rangle>" and put: "put E t k v s = Some (n, s')"
  shows "\<exists>A B. trace s' = trace s @ A @ EvWrite t (pcs E 153) (tree_ptr E) 8 STORE # B \<and>
    (\<forall>e \<in> set A. own_event t e \<and> gentle p (memory E) e) \<and> (\<forall>st. fold (stack_step t) A st = st) \<and>
    (\<forall>e \<in> set B. quiet p E t e) \<and> EvUnlock t (tree_lock E) \<in> set B"
proof -
  let ?P = "\<lambda>e. own_event t e \<and> gentle p (memory E) e"
  note ok = common_gentle [OF lib, of t]
  have sep: "separated E (mem s) \<langle>\<rangle>" using inv by (simp add: tree_inv_def)
  note okq = common_quiet [OF lib sep, of t]
  let ?s1 = "reads E t 127 (tree_ptr E) 8 (lib_call E t 126 [EvLock t (tree_lock E)] s)"
  let ?a = "fst (calling E t 153 (new_node E t k v) ?s1)" and ?s2 = "snd (calling E t 153 (new_node E t k v) ?s1)"
  let ?s3 = "writes E t 153 (tree_ptr E) 8 (?s2\<lparr>root := ?a\<rparr>)"
  let ?s4 = "lib_call E t 154 [EvUnlock t (tree_lock E)] ?s3"
  have "root s = 0" using inv by (simp add: tree_inv_def)
  then have s': "s' = reads E t 155 (tree_ptr E) 8 ?s4"
    using put by (auto simp: put_def Let_def put_loop.simps [of E t k v 0] field_mem split_beta simp del: mem_fields)
  have "runs ?P t s ?s2"
    by (intro runs_calling [OF ok] runs_new_node [OF ok] runs_reads [OF ok] runs_lib_calls [OF ok]) (auto simp: node_writes_def own_event_def)
  then obtain A where A: "trace ?s2 = trace s @ A" "\<forall>e \<in> set A. ?P e" "\<forall>st. fold (stack_step t) A st = st" by (auto simp: runs_def)
  have "runs (quiet p E t) t ?s3 s'" unfolding s' by (intro runs_reads [OF okq] runs_lib_calls [OF okq]) simp
  then obtain B where B: "trace s' = trace ?s3 @ B" "\<forall>e \<in> set B. quiet p E t e" by (auto simp: runs_def)
  have "EvUnlock t (tree_lock E) \<in> set B"
  proof -
    have "emitted (EvUnlock t (tree_lock E)) ?s3 ?s4"
      by (simp add: emitted_def lib_call_def [of _ _ 154] emit_def library_call_def call_def)
    then have "emitted (EvUnlock t (tree_lock E)) ?s3 s'"
      unfolding s' by (rule emitted_after [where P = "?P" and t = t]) (intro runs_reads [OF ok], simp)
    with B(1) show ?thesis by (auto simp: emitted_def)
  qed
  with A B show ?thesis by (intro exI [of _ A] exI [of _ B]) (simp add: writes_def emit_def)
qed

text \<open>
  The inserting thread, split at the first write of the root: it holds the lock there and releases it after it,
  nothing before or after flushes the cell, and nothing after writes it.
\<close>

lemma put_all_first:
  assumes lib: "fiesta_library p E" and inv: "tree_inv E (mem s) \<langle>\<rangle>" and rooms: "rooms E (map nat_text (x # xs)) (mem s)"
    and put: "put_all E t (x # xs) s = Some s'"
  shows "\<exists>A B. trace s' = trace s @ A @ EvWrite t (pcs E 153) (tree_ptr E) 8 STORE # B \<and>
    (\<forall>e \<in> set A. own_event t e \<and> gentle p (memory E) e) \<and> (\<forall>st. fold (stack_step t) A st = st @ [pcs E 199]) \<and>
    (\<forall>e \<in> set B. quiet p E t e) \<and> EvUnlock t (tree_lock E) \<in> set B"
proof -
  note ok = common_gentle [OF lib, of t]
  let ?s0 = "lib_call E t 198 [] s"
  let ?s1 = "emit [EvCall t (pcs E 199)] ?s0"
  have inv1: "tree_inv E (mem ?s1) \<langle>\<rangle>" and rooms1: "rooms E (nat_text x # map nat_text xs) (mem ?s1)" using inv rooms by simp_all
  obtain n s2 where s2: "put E t (nat_text x) (of_nat x) ?s1 = Some (n, s2)"
      "tree_inv E (mem s2) (tree_after E (nat_text x) (mem ?s1) \<langle>\<rangle>)"
      "contents (mem s2) (tree_after E (nat_text x) (mem ?s1) \<langle>\<rangle>) = (contents (mem ?s1) \<langle>\<rangle>)(nat_text x \<mapsto> of_nat x)"
    by (rule put_updates [OF inv1 rooms_room [OF rooms1]])
  let ?s3 = "emit [EvRet t] s2"
  from first_put [OF lib inv1 s2(1)] obtain A B where AB: "trace s2 = trace ?s1 @ A @ EvWrite t (pcs E 153) (tree_ptr E) 8 STORE # B"
    "\<forall>e \<in> set A. own_event t e \<and> gentle p (memory E) e" "\<forall>st. fold (stack_step t) A st = st"
    "\<forall>e \<in> set B. quiet p E t e" "EvUnlock t (tree_lock E) \<in> set B" by blast
  have rest: "put_all E t xs ?s3 = Some s'" using put s2(1) by (simp add: callingO_def)
  have "runs (quiet p E t) t ?s3 s'"
    by (rule put_all_quiet [OF lib _ tree_after_nonempty _ _ rest]) (use s2(2) put_room [OF inv1 rooms1 s2(1)] in simp_all)
  then obtain C where C: "trace s' = trace ?s3 @ C" "\<forall>e \<in> set C. quiet p E t e" by (auto simp: runs_def)
  have "runs (\<lambda>e. own_event t e \<and> gentle p (memory E) e) t s ?s0" by (rule runs_lib_calls(1) [OF ok]) simp
  then obtain L where L: "trace ?s0 = trace s @ L" "\<forall>e \<in> set L. own_event t e \<and> gentle p (memory E) e"
    "\<forall>st. fold (stack_step t) L st = st" by (auto simp: runs_def)
  show ?thesis
    by (rule exI [of _ "L @ EvCall t (pcs E 199) # A"], rule exI [of _ "B @ EvRet t # C"])
      (use AB C L in \<open>auto simp: emit_def own_event_def quiet_def\<close>)
qed

section \<open>The main thread\<close>

lemma own_events:
  assumes "\<forall>e \<in> set es. own_event t e"
  shows "filter map_event es = []" "filter clock_change es = []" "filter (unnamed_lock t) es = []" "filter creation es = []"
  using assms by (auto simp: filter_empty_conv own_event_def)

lemma trace_start_from [simp]: "trace (start_from m) = []"
  by (simp add: start_from_def tree_memory.extend_def)

lemma set_up_own:
  assumes lib: "fiesta_library p E1" and set_up: "set_up E m = (E1, s1)"
  shows "\<forall>e \<in> set (trace s1). own_event 0 e"
proof -
  have "\<exists>q. E1 = E\<lparr>tree_ptr := q\<rparr>" using set_up by (auto simp: set_up_def Let_def split_beta)
  then have E1: "libs E1 = libs E" "memory E1 = memory E" by auto
  have ok: "common_events E1 0 (own_event 0)"
    using common_gentle [OF lib, of 0] by (auto simp: common_events_def)
  then have ok: "common_events E1 0 (own_event 0)" "common_events E 0 (own_event 0)"
    by (simp_all add: common_events_def E1)
  let ?s0 = "lib_call E 0 208 [] (start_from m)"
  let ?q = "fst (calling E 0 210 (PM_ALLOC E 0 8) ?s0)" and ?s2 = "snd (calling E 0 210 (PM_ALLOC E 0 8) ?s0)"
  have "s1 = persist E1 0 212 ?q 8 (writes E1 0 211 ?q 8 (?s2\<lparr>root := 0\<rparr>))"
    using set_up unfolding set_up_def Let_def split_beta by (simp only: prod.inject) blast
  moreover have "runs (own_event 0) 0 (start_from m) ?s2"
    by (intro runs_calling [OF ok(2)] runs_PM_ALLOC [OF ok(2)] runs_lib_calls [OF ok(2)]) simp_all
  ultimately have "runs (own_event 0) 0 (start_from m) s1"
    by (auto simp: own_event_def intro!: runs_persist [OF ok(1)] runs_writes)
  then show ?thesis by (auto simp: runs_def)
qed

lemma fiesta_main_facts:
  assumes lib: "fiesta_library p E1" and pool: "open_pmem_pool env = Inr (addr, sz)"
    and set_up: "set_up (E\<lparr>memory := addr\<rparr>) m = (E1, s1)"
  shows "main_ok (main_thread (libs E1 0) (bug_fiesta_main env E m (\<lambda>_. 0) pid joined))"
    "\<exists>js. filter clock_change (main_thread (libs E1 0) (bug_fiesta_main env E m (\<lambda>_. 0) pid joined)) =
       EvCreateCall 0 # EvCreateCall 0 # js"
proof -
  have ok: "library_ok (\<lambda>_ _. False) (libs E1 j)" for j using lib by (simp add: fiesta_library_def)
  have own: "\<forall>e \<in> set (trace s1). own_event 0 e" by (rule set_up_own [OF lib set_up])
  have start: "EvThreadStart 0 \<notin> set (trace s1)" using own by (auto simp: own_event_def)
  note facts = own_events [OF own] paired_none [OF own_events(4) [OF own]] start library_facts(2,4) [OF ok] library_forks [OF ok]
  show "main_ok (main_thread (libs E1 0) (bug_fiesta_main env E m (\<lambda>_. 0) pid joined))"
    by (simp add: main_ok_def main_thread_def bug_fiesta_main_def pool set_up Let_def lib_call_def emit_def library_call_def call_def facts)
  show "\<exists>js. filter clock_change (main_thread (libs E1 0) (bug_fiesta_main env E m (\<lambda>_. 0) pid joined)) =
      EvCreateCall 0 # EvCreateCall 0 # js"
    by (simp add: main_thread_def bug_fiesta_main_def pool set_up Let_def lib_call_def emit_def library_call_def call_def facts)
qed

section \<open>The report\<close>

lemma first_byte: "0 < sz \<Longrightarrow> unat a + unat sz < 2 ^ 64 \<Longrightarrow> a \<in> set (byte_range a sz)"
  using mem_byte_range [of a sz a] by (simp add: word_less_nat_alt)

lemma bug_fiesta_found:
  assumes es: "es \<in> bug_fiesta_runs pool env E m pid joined"
    and run: "hawk_run c es (init_hawk 0 d True) = Inr g" and len: "length es \<le> 2 ^ 16"
    and pool: "pool_run pool" "hawk_run c pool (init_hawk 0 d True) = Inr k" "\<not> found_alloc (pm k)"
    and mapped: "open_pmem_pool env = Inr (addr, sz)" "unat addr + unat (cur m) + 252 < 2 ^ 64"
    and lib: "fiesta_library (\<lambda>a sz. IsPMAddress a sz (pm k)) (mapped_env E addr m)"
    and pm: "IsPMAddress (addr + 64 + cur m) 8 (pm k)"
  shows "\<exists>wt lb. reported (CheckPMRaces g) False (wt, None, False) lb \<and> trace_is (bt_heap g) wt [pcs E 153, pcs E 199] \<and>
    trace_is (bt_heap g) lb [pcs E 166, pcs E 189]"
proof -
  let ?p = "\<lambda>a sz. IsPMAddress a sz (pm k)" and ?b = "addr + 64 + cur m"
  obtain zs E1 s1 js puts gets out where zs: "es = pool @ zs"
      "zs \<in> schedules (worker_threads env (libs E1 0) (\<lambda>_. 0)
          (main_thread (libs E1 0) (bug_fiesta_main env E m (\<lambda>_. 0) pid joined)) [\<lambda>_ _. trace puts, \<lambda>_ _. trace gets])"
    and set_up: "set_up (E\<lparr>memory := addr\<rparr>) m = (E1, s1)"
    and puts: "put_thread E1 1 (s1\<lparr>trace := []\<rparr>) = Some puts"
    and gets: "get_thread E1 2 (\<lambda>i. case put_all E1 1 (take (js i) put_numbers) s1 of Some s \<Rightarrow> tree_memory.truncate s | None \<Rightarrow> m)
        (s1\<lparr>trace := []\<rparr>) = Some (out, gets)"
    using es mapped(1) unfolding bug_fiesta_runs_def by auto
  let ?main = "main_thread (libs E1 0) (bug_fiesta_main env E m (\<lambda>_. 0) pid joined)"
  let ?script = "worker_threads env (libs E1 0) (\<lambda>_. 0) ?main [\<lambda>_ _. trace puts, \<lambda>_ _. trace gets]"
  have E1: "E1 = mapped_env E addr m" by (rule set_up_memory [OF set_up])
  then have lib1: "fiesta_library ?p E1" and env1: "pcs E1 = pcs E" "tree_ptr E1 = ?b" "memory E1 = addr"
    using lib by (simp_all add: mapped_env_def)
  have ok0: "library_ok (\<lambda>_ _. False) (libs E1 0)" using lib1 by (simp add: fiesta_library_def)
  note inv = set_up_inv [OF set_up]
  have inv1: "tree_inv E1 (mem (s1\<lparr>trace := []\<rparr>)) \<langle>\<rangle>" "allocated_to E1 (mem (s1\<lparr>trace := []\<rparr>)) = unat addr + unat (cur m) + 72"
    and b: "unat ?b = unat addr + unat (cur m) + 64"
    using inv mapped(2) env1 by (simp_all add: mem_def tree_memory.truncate_def)
  have rooms: "rooms E1 (map nat_text put_numbers) (mem (s1\<lparr>trace := []\<rparr>))"
    unfolding rooms_def inv1(2) using mapped(2) by (simp add: put_numbers_def nat_text.simps)
  obtain A B where AB: "trace puts = A @ EvWrite 1 (pcs E 153) ?b 8 STORE # B"
      "\<forall>e \<in> set A. own_event 1 e \<and> gentle ?p addr e" "\<forall>st. fold (stack_step 1) A st = st @ [pcs E 199]"
      "\<forall>e \<in> set B. quiet ?p E1 1 e" "EvUnlock 1 (tree_lock E1) \<in> set B"
    using put_all_first [OF lib1 inv1(1) rooms [unfolded put_numbers_def] puts [unfolded put_thread_def put_numbers_def]]
    by (auto simp: env1)
  obtain rest where G: "trace gets = before_load E1 2 @ EvRead 2 (pcs E 166) ?b 8 0 # rest" "\<forall>e \<in> set (trace gets). own_event 2 e"
    using get_all_first [OF lib1 _ gets [unfolded get_thread_def get_numbers_def]] by (auto simp: env1)
  let ?x1 = "EvThreadStart 2 # libs E1 0 2 0 0 @ before_load E1 2" and ?W = "EvWrite 1 (pcs E 153) ?b 8 STORE"
    and ?y1 = "EvThreadStart 1 # libs E1 0 1 0 0 @ A" and ?y2 = "B @ libs E1 0 1 0 1"
  have reader: "?script 2 = ?x1 @ EvRead 2 (pcs E 166) ?b 8 0 # rest @ libs E1 0 2 0 1 @ [EvThreadExit 2]"
    and writer: "?script 1 = ?y1 @ ?W # ?y2 @ EvThreadExit 1 # []"
    unfolding worker_scripts [OF mapped(1)] by (simp_all add: thread_run_def AB(1) G(1))
  have ok: "library_ok (\<lambda>_ _. False) (libs E1 j)" for j using lib1 by (simp add: fiesta_library_def)
  note lf = library_facts [OF ok] and ff = fiesta_library_facts [OF lib1, unfolded env1]
  have cell: "?b \<in> cell E1" by (simp add: cell_def env1)
  have gentle: "\<forall>e \<in> set (?y1 @ ?W # ?y2). gentle ?p addr e" using AB(2,4) ff(2) by (auto simp: quiet_def env1)
  have fits: "unat ?b + unat (8 :: u32) < 2 ^ 64" using mapped(2) b by simp
  have window: "racy_window ?p 2 ?x1 ?b 8 1 ?y1 ?W ?y2 ?b"
    unfolding racy_window_def
  proof (intro conjI apartI)
    show "\<exists>i < unat (8 :: u32). ?b = ?b + of_nat i" by (rule exI [of _ 0]) simp
    show "\<exists>ctxt a sz. ?W = EvWrite 1 ctxt a sz STORE \<and> sz \<le> 64 \<and> ?p a sz \<and> ?b \<in> set (byte_range a sz)"
      using pm first_byte [OF _ fits] by simp
    show "\<forall>e \<in> set ?y2. \<not> overwrites ?p ?b e" using AB(4) cell ff(3) by (auto simp: quiet_def)
    show "filter (unnamed_lock 2) ?x1 = []" by (simp add: before_load_def library_call_def call_def lf)
    show "filter (unnamed_lock 1) (?y1 @ ?y2) = []"
      using AB(2,4) by (auto simp: lf filter_empty_conv own_event_def quiet_def)
    have "m = tree_lock E1" if "in_section 2 m ?x1" for m
      using that by (auto simp: in_section_def before_load_def library_call_def call_def lf split: if_splits)
    then show "\<forall>m. in_section 2 m ?x1 \<and> in_section 1 m ?y1 \<longrightarrow> (\<exists>e \<in> set ?y2. concerns 1 m e)"
      using AB(5) by (auto intro!: bexI [of _ "EvUnlock 1 (tree_lock E1)"])
  qed (use pm in simp_all)
  have "CACHE_LINE ?b \<noteq> CACHE_LINE addr" by (rule beyond_metadata) (simp add: b)
  from gentle_written [OF gentle this, of 1 "pcs E 153" ?b 8 True "({}, {})"] pm first_byte [OF _ fits]
  have lost: "lost_access False ?p 2 ?x1 ?b 8 1 ?y1 ?W ?y2 ?b"
    using window by (simp add: lost_access_def)
  have "filter map_event (trace r) = [] \<and> filter clock_change (trace r) = []" if "r \<in> {puts, gets}" for r
    using that AB(1,2,4) G(2) by (auto simp: own_event_def quiet_def filter_empty_conv)
  then have prog: "fork_program 2 ?script"
    by (intro fork_of_two [OF ok0 fiesta_main_facts(1) [OF lib1 mapped(1) set_up]]) auto
  have main: "\<exists>js. filter clock_change (?script 0) = EvCreateCall 0 # EvCreateCall 0 # js"
    unfolding worker_scripts [OF mapped(1)] by (rule fiesta_main_facts(2) [OF lib1 mapped(1) set_up])
  then obtain js where main: "filter clock_change (?script 0) = EvCreateCall 0 # EvCreateCall 0 # js" by blast
  have "filter clock_change A = []" "filter clock_change B = []"
    using AB(2,4) by (auto simp: own_event_def quiet_def filter_empty_conv)
  then have epochs: "script_epoch 2 ?x1 = (2, 0)" "script_epoch 1 (?y1 @ ?y2) = (1, 0)"
    by (simp_all add: script_epoch_def before_load_def library_call_def call_def lf)
  have phases: "in_phase (filter clock_change (?script 0)) 2 (script_epoch 2 ?x1)"
      "in_phase (filter clock_change (?script 0)) 2 (script_epoch 1 (?y1 @ ?y2))"
    unfolding epochs phase_two(2) [OF main] by simp_all
  have "\<exists>wt lb. reported (CheckPMRaces g) False (wt, None, False) lb \<and>
      trace_is (bt_heap g) wt (pcs E 153 # rev (fold (stack_step 1) ?y1 [])) \<and>
      trace_is (bt_heap g) lb (pcs E 166 # rev (fold (stack_step 2) ?x1 []))"
    by (rule fork_lost_reported [OF pool run [unfolded zs(1)] len [unfolded zs(1)] zs(2) prog _ reader writer
          phase_two(1) [OF main] phases lost]) simp_all
  then show ?thesis by (simp add: AB(3) [simplified] before_load_def library_call_def call_def lf env1)
qed

end
