(* ===== verification/FiestaScenario.thy ===== *)
theory FiestaScenario
  imports Scenario Acceptance FiestaRace
begin

text \<open>
  A run of \<^verbatim>\<open>bug_fiesta.c\<close>, from an empty pool and without library code: the main thread creates both threads,
  the first inserts its five numbers, and the second then looks for its seven. That the tool
  gets through it is decided by the machine of \<open>Acceptance\<close>.
\<close>

section \<open>Evaluation\<close>

definition empty_memory :: tree_memory where
  "empty_memory = \<lparr>cur = 0, root = 0, lefts = (\<lambda>_. 0), rights = (\<lambda>_. 0), keys = (\<lambda>_. 0), vals = (\<lambda>_. 0), texts = (\<lambda>_. [])\<rparr>"

definition example_fiesta :: fiesta_env where
  "example_fiesta = \<lparr>memory = 0x10000, tree_ptr = 0x10040, tree_lock = 0x500, pcs = of_nat, libs = (\<lambda>_. no_library)\<rparr>"

lemma emit_eval: "emit es s = s\<lparr>trace := trace s @ es\<rparr>" by (simp add: emit_def)
lemma weave_none: "weave (\<lambda>_. []) i es = es"
  by (induction es arbitrary: i) auto

lemma lib_call_eval: "lib_call example_fiesta t n es s = s\<lparr>trace := trace s @ EvCall t (of_nat n) # es @ [EvRet t]\<rparr>"
  by (simp add: lib_call_def emit_def library_call_def call_def example_fiesta_def no_library_def weave_none)

lemma rw_eval: "reads example_fiesta t n a sz s = s\<lparr>trace := trace s @ [EvRead t (of_nat n) a sz 0]\<rparr>"
  "writes example_fiesta t n a sz s = s\<lparr>trace := trace s @ [EvWrite t (of_nat n) a sz STORE]\<rparr>"
  "0 < i \<Longrightarrow> i \<le> 64 \<Longrightarrow> persist example_fiesta t n a i s = s\<lparr>trace := trace s @ [EvCall t (of_nat n), EvFlush t a CLWB, EvRet t, EvCall t (of_nat (n + 1)), EvFence t 32, EvRet t]\<rparr>"
  by (simp_all add: reads_def writes_def persist_def emit_def call_def example_fiesta_def fence_def)
lemma fields: "memory example_fiesta = 0x10000" "tree_ptr example_fiesta = 0x10040" "tree_lock example_fiesta = 0x500" "pcs example_fiesta = of_nat"
  by (simp_all add: example_fiesta_def)
lemma PM_ALLOC_eval: "PM_ALLOC example_fiesta t sz s = (0x10040 + cur s, s\<lparr>cur := cur s + sz, trace := trace s @
   [EvCall t 101, EvLock t 0x10008, EvRet t, EvRead t 103 0x10000 8 0, EvRead t 105 0x10000 8 0, EvWrite t 105 0x10000 8 STORE,
    EvCall t 107, EvFlush t 0x10000 CLWB, EvRet t, EvCall t 108, EvFence t 32, EvRet t, EvCall t 110, EvUnlock t 0x10008, EvRet t]\<rparr>)"
  by (simp add: PM_ALLOC_def Let_def lib_call_eval rw_eval fields)
lemma new_node_eval: "new_node example_fiesta t k v s =
  (let n = 0x10040 + cur s; a = 0x10060 + cur s in
    (n, s\<lparr>cur := cur s + 32 + (of_nat (length k) + 1), lefts := (lefts s)(n := 0), rights := (rights s)(n := 0), keys := (keys s)(n := a),
      vals := (vals s)(n := v), texts := (texts s)(a := k), trace := trace s @ 
      [EvCall t 115] @ [EvCall t 101, EvLock t 0x10008, EvRet t, EvRead t 103 0x10000 8 0, EvRead t 105 0x10000 8 0, EvWrite t 105 0x10000 8 STORE,
       EvCall t 107, EvFlush t 0x10000 CLWB, EvRet t, EvCall t 108, EvFence t 32, EvRet t, EvCall t 110, EvUnlock t 0x10008, EvRet t] @
      [EvRet t, EvWrite t 116 (n + 8) 8 STORE, EvWrite t 116 n 8 STORE, EvWrite t 117 (n + 24) 4 STORE, EvCall t 118, EvRet t, EvCall t 118] @ 
      [EvCall t 101, EvLock t 0x10008, EvRet t, EvRead t 103 0x10000 8 0, EvRead t 105 0x10000 8 0, EvWrite t 105 0x10000 8 STORE,
       EvCall t 107, EvFlush t 0x10000 CLWB, EvRet t, EvCall t 108, EvFence t 32, EvRet t, EvCall t 110, EvUnlock t 0x10008, EvRet t] @
      [EvRet t, EvWrite t 118 (n + 16) 8 STORE, EvRead t 119 (n + 16) 8 0, EvCall t 119, EvRet t]\<rparr>))"
  by (simp add: new_node_def Let_def calling_def PM_ALLOC_eval lib_call_eval rw_eval fields emit_eval)

lemma put_loop_eval: "put_loop example_fiesta t k v n s =
  (if n = 0 then Some (case new_node example_fiesta t k v (emit [EvCall t 153] s) of (a, s1) \<Rightarrow>
      (a, s1\<lparr>root := a, trace := trace s1 @ [EvRet t, EvWrite t 153 0x10040 8 STORE, EvCall t 154, EvUnlock t 0x500, EvRet t, EvRead t 155 0x10040 8 0]\<rparr>))
   else if texts s (keys s n) = k then Some (n, s\<lparr>vals := (vals s)(n := v), trace := trace s @ [EvRead t 129 (n + 16) 8 0, EvCall t 129, EvRet t, EvWrite t 131 (n + 24) 4 STORE, EvCall t 132, EvUnlock t 0x500, EvRet t]\<rparr>)
   else if strcmp (texts s (keys s n)) k > 0 then
     if lefts s n = 0 then Some (case new_node example_fiesta t k v (emit [EvRead t 129 (n + 16) 8 0, EvCall t 129, EvRet t, EvRead t 136 n 8 0, EvCall t 137] s) of (a, s1) \<Rightarrow>
      (n, s1\<lparr>lefts := (lefts s1)(n := a), trace := trace s1 @ [EvRet t, EvWrite t 137 n 8 STORE, EvCall t 138, EvUnlock t 0x500, EvRet t]\<rparr>))
     else put_loop example_fiesta t k v (lefts s n) (emit [EvRead t 129 (n + 16) 8 0, EvCall t 129, EvRet t, EvRead t 136 n 8 0, EvRead t 141 n 8 0] s)
   else
     if rights s n = 0 then Some (case new_node example_fiesta t k v (emit [EvRead t 129 (n + 16) 8 0, EvCall t 129, EvRet t, EvRead t 144 (n + 8) 8 0, EvCall t 145] s) of (a, s1) \<Rightarrow>
      (n, s1\<lparr>rights := (rights s1)(n := a), trace := trace s1 @ [EvRet t, EvWrite t 145 (n + 8) 8 STORE, EvCall t 146, EvUnlock t 0x500, EvRet t]\<rparr>))
     else put_loop example_fiesta t k v (rights s n) (emit [EvRead t 129 (n + 16) 8 0, EvCall t 129, EvRet t, EvRead t 144 (n + 8) 8 0, EvRead t 149 (n + 8) 8 0] s))"
  by (subst put_loop.simps) (simp add: Let_def split_beta calling_def map_prod_def lib_call_eval rw_eval fields emit_eval)


lemma get_loop_eval: "get_loop example_fiesta t k n s =
  (if n = 0 then Some (DEAULT_VALUE, emit [EvCall t 179, EvUnlock t 0x500, EvRet t] s)
   else if texts s (keys s n) = k then
     Some (vals s n, emit [EvRead t 168 (n + 16) 8 0, EvCall t 168, EvRet t, EvRead t 170 (n + 24) 4 0, EvCall t 171, EvUnlock t 0x500, EvRet t] s)
   else if strcmp (texts s (keys s n)) k > 0 then
     get_loop example_fiesta t k (lefts s n) (emit [EvRead t 168 (n + 16) 8 0, EvCall t 168, EvRet t, EvRead t 175 n 8 0] s)
   else get_loop example_fiesta t k (rights s n) (emit [EvRead t 168 (n + 16) 8 0, EvCall t 168, EvRet t, EvRead t 177 (n + 8) 8 0] s))"
  by (subst get_loop.simps) (simp add: Let_def lib_call_eval rw_eval fields emit_eval)

lemmas fiesta_eval = put_def get_value_def Let_def emit_eval lib_call_eval rw_eval callingO_def fields nat_text.simps digit_char_def
  put_loop_eval new_node_eval get_loop_eval DEAULT_VALUE_def

section \<open>The example\<close>

text \<open>Callbacks of one thread that the tool accepts in any state in which the thread has started.\<close>

definition plain :: "nat \<Rightarrow> event list \<Rightarrow> bool" where
  "plain t es \<longleftrightarrow> list_all (\<lambda>e. thread_of e = Some t \<and> ordinary e \<and> \<not> clock_change e) es \<and>
     (\<forall>s. on s t \<longrightarrow> accepted es s \<and> fold sync_step es s = s)"

definition after_set_up :: fiesta where
  "after_set_up = snd (set_up example_fiesta empty_memory)"

lemma set_up_eval:
  "set_up (example_fiesta\<lparr>memory := 0x10000\<rparr>) empty_memory = (example_fiesta, after_set_up)"
  "\<exists>es. after_set_up = \<lparr>cur = 8, root = 0, lefts = (\<lambda>_. 0), rights = (\<lambda>_. 0), keys = (\<lambda>_. 0), vals = (\<lambda>_. 0), texts = (\<lambda>_. []), trace = es\<rparr> \<and>
    length es = 26 \<and> plain 0 es"
proof -
  have E: "example_fiesta\<lparr>memory := 0x10000\<rparr> = example_fiesta" "example_fiesta\<lparr>tree_ptr := 0x10040\<rparr> = example_fiesta"
    by (simp_all add: example_fiesta_def)
  show "set_up (example_fiesta\<lparr>memory := 0x10000\<rparr>) empty_memory = (example_fiesta, after_set_up)"
    unfolding E after_set_up_def
    by (simp add: set_up_def Let_def calling_def PM_ALLOC_eval lib_call_eval rw_eval emit_eval E start_from_def tree_memory.extend_def empty_memory_def)
  show "\<exists>es. after_set_up = \<lparr>cur = 8, root = 0, lefts = (\<lambda>_. 0), rights = (\<lambda>_. 0), keys = (\<lambda>_. 0), vals = (\<lambda>_. 0), texts = (\<lambda>_. []), trace = es\<rparr> \<and>
      length es = 26 \<and> plain 0 es"
    unfolding after_set_up_def
    by (simp add: set_up_def Let_def calling_def PM_ALLOC_eval lib_call_eval rw_eval emit_eval E start_from_def tree_memory.extend_def empty_memory_def plain_def)
qed

lemma puts_eval:
  "\<exists>puts. put_thread example_fiesta 1 (after_set_up\<lparr>trace := []\<rparr>) = Some puts \<and> length (trace puts) \<le> 1000 \<and> plain 1 (trace puts)"
proof -
  obtain es where s: "after_set_up = \<lparr>cur = 8, root = 0, lefts = (\<lambda>_. 0), rights = (\<lambda>_. 0), keys = (\<lambda>_. 0), vals = (\<lambda>_. 0), texts = (\<lambda>_. []), trace = es\<rparr>"
    using set_up_eval(2) by blast
  show ?thesis
    unfolding s by (simp add: fiesta_eval put_thread_def put_numbers_def plain_def)
qed

lemma gets_eval:
  "\<exists>s out gets. put_all example_fiesta 1 (take 5 put_numbers) after_set_up = Some s \<and>
     get_thread example_fiesta 2 (\<lambda>_. tree_memory.truncate s) (after_set_up\<lparr>trace := []\<rparr>) = Some (out, gets) \<and>
     out = [123, 122, 127, 125, 111, -1, -1] \<and> length (trace gets) \<le> 1000 \<and> plain 2 (trace gets)"
proof -
  obtain es where s: "after_set_up = \<lparr>cur = 8, root = 0, lefts = (\<lambda>_. 0), rights = (\<lambda>_. 0), keys = (\<lambda>_. 0), vals = (\<lambda>_. 0), texts = (\<lambda>_. []), trace = es\<rparr>"
    using set_up_eval(2) by blast
  show ?thesis
    unfolding s
    by (simp add: fiesta_eval put_numbers_def get_thread_def get_numbers_def plain_def with_memory_def tree_memory.truncate_def tree_memory.extend_def)
qed

text \<open>The threads and their schedule.\<close>

definition fiesta_script :: "fiesta \<Rightarrow> fiesta \<Rightarrow> nat \<Rightarrow> event list" where
  "fiesta_script puts gets = worker_threads example_env no_library (\<lambda>_. 0)
     (main_thread no_library (bug_fiesta_main example_env example_fiesta empty_memory (\<lambda>_. 0) of_nat (\<lambda>_. 0)))
     [\<lambda>_ _. trace puts, \<lambda>_ _. trace gets]"

lemma plainD:
  assumes "plain t es"
  shows "e \<in> set es \<Longrightarrow> thread_of e = Some t" "e \<in> set es \<Longrightarrow> ordinary e" "filter clock_change es = []"
    "on s t \<Longrightarrow> accepted es s" "on s t \<Longrightarrow> fold sync_step es s = s"
  using assms by (auto simp: plain_def list_all_iff filter_empty_conv)

lemma starts_ok_none: "filter clock_change es = [] \<Longrightarrow> starts_ok n es \<and> creates es = 0"
proof (induction es arbitrary: n)
  case (Cons e es)
  then show ?case by (cases e) (auto split: if_splits)
qed simp

lemma accepted_append: "accepted (xs @ ys) s \<longleftrightarrow> accepted xs s \<and> accepted ys (fold sync_step xs s)"
  by (induction xs arbitrary: s) auto

lemma fiesta_script_eval:
  "fiesta_script puts gets 0 = trace after_set_up @
     [EvCall 0 217, EvCreateCall 0, EvCreateReturn 0 0 0, EvRet 0, EvCall 0 218, EvCreateCall 0, EvCreateReturn 0 0 1, EvRet 0,
      EvCall 0 220, EvJoin 0 0 0, EvRet 0, EvCall 0 221, EvJoin 0 0 1, EvRet 0, EvThreadExit 0]"
  "fiesta_script puts gets 1 = EvThreadStart 1 # trace puts @ [EvThreadExit 1]"
  "fiesta_script puts gets 2 = EvThreadStart 2 # trace gets @ [EvThreadExit 2]"
  "2 < t \<Longrightarrow> fiesta_script puts gets t = []"
proof -
  have pool: "open_pmem_pool example_env = Inr (0x10000, 4096)" by (rule example_env_pool(1))
  have E: "set_up (example_fiesta\<lparr>memory := 65536\<rparr>) empty_memory = (example_fiesta, after_set_up)" using set_up_eval(1) by simp
  show "fiesta_script puts gets 0 = trace after_set_up @
     [EvCall 0 217, EvCreateCall 0, EvCreateReturn 0 0 0, EvRet 0, EvCall 0 218, EvCreateCall 0, EvCreateReturn 0 0 1, EvRet 0,
      EvCall 0 220, EvJoin 0 0 0, EvRet 0, EvCall 0 221, EvJoin 0 0 1, EvRet 0, EvThreadExit 0]"
    by (simp add: fiesta_script_def worker_scripts(1) [OF pool] main_thread_def bug_fiesta_main_def pool E Let_def
        lib_call_eval fields no_library_def)
  show "fiesta_script puts gets 1 = EvThreadStart 1 # trace puts @ [EvThreadExit 1]"
    "fiesta_script puts gets 2 = EvThreadStart 2 # trace gets @ [EvThreadExit 2]"
    unfolding fiesta_script_def worker_scripts [OF pool] by (simp_all add: thread_run_def no_library_def)
  show "fiesta_script puts gets t = []" if "2 < t" using that by (simp add: fiesta_script_def worker_threads_def pool)
qed

lemma fiesta_schedule_eval:
  assumes "length (trace after_set_up) = 26"
  shows "fork_schedule 28 (fiesta_script puts gets) = trace after_set_up @ [EvCall 0 217, EvCreateCall 0, EvThreadStart 1] @
    [EvCreateReturn 0 0 0, EvRet 0, EvCall 0 218, EvCreateCall 0, EvThreadStart 2] @
    (trace puts @ [EvThreadExit 1]) @ (trace gets @ [EvThreadExit 2]) @
    [EvCreateReturn 0 0 1, EvRet 0, EvCall 0 220, EvJoin 0 0 0, EvRet 0, EvCall 0 221, EvJoin 0 0 1, EvRet 0, EvThreadExit 0]"
  proof -
  have "take 1 (x # xs) = [x]" "drop 1 (x # xs) = xs" for x :: event and xs by simp_all
  then show ?thesis using assms by (simp add: fork_schedule_def fiesta_script_eval del: One_nat_def)
qed

lemma set_up_trace: "length (trace after_set_up) = 26" "plain 0 (trace after_set_up)"
proof -
  obtain es where es: "after_set_up = \<lparr>cur = 8, root = 0, lefts = (\<lambda>_. 0), rights = (\<lambda>_. 0), keys = (\<lambda>_. 0), vals = (\<lambda>_. 0), texts = (\<lambda>_. []), trace = es\<rparr>"
    "length es = 26" "plain 0 es" using set_up_eval(2) by blast
  have "trace after_set_up = es" unfolding es(1) by simp
  with es(2,3) show "length (trace after_set_up) = 26" "plain 0 (trace after_set_up)" by simp_all
qed

lemma example_pool_sync:
  "\<exists>k. hawk_run demo_config example_pool (init_hawk 0 50 u) = Inr k \<and> \<not> found_alloc (pm k) \<and> IsPMAddress 0x10040 8 (pm k) \<and>
     (\<forall>t. started k t \<longleftrightarrow> t = 0) \<and> sync_of k = \<lparr>on = (\<lambda>t. t = 0), creating = None, signalled = False, depth = (\<lambda>_. 0)\<rparr>"
  by (simp add: example_pool_def demo_config_def hawk_eval sync_of_def fun_eq_iff)

lemma bug_fiesta_example_run:
  "\<exists>es g k. es \<in> bug_fiesta_runs example_pool example_env example_fiesta empty_memory of_nat (\<lambda>_. 0) \<and>
     hawk_run demo_config es (init_hawk 0 50 True) = Inr g \<and> length es \<le> 2 ^ 16 \<and>
     hawk_run demo_config example_pool (init_hawk 0 50 True) = Inr k \<and> \<not> found_alloc (pm k) \<and>
     IsPMAddress 0x10040 8 (pm k) \<and> fiesta_library (\<lambda>a sz. IsPMAddress a sz (pm k)) (mapped_env example_fiesta 0x10000 empty_memory)"
proof -
  obtain puts where puts: "put_thread example_fiesta 1 (after_set_up\<lparr>trace := []\<rparr>) = Some puts" "length (trace puts) \<le> 1000" "plain 1 (trace puts)"
    using puts_eval by blast
  obtain s out gets where gets: "put_all example_fiesta 1 (take 5 put_numbers) after_set_up = Some s"
      "get_thread example_fiesta 2 (\<lambda>_. tree_memory.truncate s) (after_set_up\<lparr>trace := []\<rparr>) = Some (out, gets)"
      "length (trace gets) \<le> 1000" "plain 2 (trace gets)"
    using gets_eval by blast
  note plain = plainD [OF set_up_trace(2)] plainD [OF puts(3)] plainD [OF gets(4)]
  let ?script = "fiesta_script puts gets"
  let ?zs = "fork_schedule 28 ?script"
  note zs = fiesta_schedule_eval [OF set_up_trace(1), of puts gets]
  have starts: "starts_ok 0 ?zs"
    unfolding zs by (simp add: starts_ok_append starts_ok_none plain)
  have own: "thread_of e = Some t" if "e \<in> set (?script t)" for t e
  proof -
    consider "t = 0" | "t = 1" | "t = 2" | "2 < t" by linarith
    then show ?thesis
      using that plain(1,6,11) by cases (auto simp: fiesta_script_eval simp del: One_nat_def)
  qed
  have sched: "?zs \<in> schedules ?script" by (rule fork_schedule_scheduled [OF own fiesta_script_eval(4) starts])
  have es: "example_pool @ ?zs \<in> bug_fiesta_runs example_pool example_env example_fiesta empty_memory of_nat (\<lambda>_. 0)"
    unfolding bug_fiesta_runs_def
  proof (rule CollectI, intro exI conjI)
    show "open_pmem_pool example_env = Inr (0x10000, 4096)" by (rule example_env_pool(1))
    show "set_up (example_fiesta\<lparr>memory := 0x10000\<rparr>) empty_memory = (example_fiesta, after_set_up)" by (rule set_up_eval(1))
    show "put_thread example_fiesta 1 (after_set_up\<lparr>trace := []\<rparr>) = Some puts" by (rule puts(1))
    show "\<forall>i. (\<lambda>_. 5) i \<le> (\<lambda>_. 5 :: nat) (Suc i)" by simp
    show "get_thread example_fiesta 2 (\<lambda>i. case put_all example_fiesta 1 (take ((\<lambda>_. 5) i) put_numbers) after_set_up of
        None \<Rightarrow> empty_memory | Some s \<Rightarrow> tree_memory.truncate s) (after_set_up\<lparr>trace := []\<rparr>) = Some (out, gets)"
      using gets(1,2) by simp
    show "?zs \<in> schedules (worker_threads example_env (libs example_fiesta 0) (\<lambda>_. 0)
        (main_thread (libs example_fiesta 0) (bug_fiesta_main example_env example_fiesta empty_memory (\<lambda>_. 0) of_nat (\<lambda>_. 0)))
        [\<lambda>_ _. trace puts, \<lambda>_ _. trace gets])"
      using sched by (simp add: fiesta_script_def example_fiesta_def)
  qed simp
  obtain k where k: "hawk_run demo_config example_pool (init_hawk 0 50 True) = Inr k" "\<not> found_alloc (pm k)" "IsPMAddress 0x10040 8 (pm k)"
      "\<forall>t. started k t \<longleftrightarrow> t = 0" "sync_of k = \<lparr>on = (\<lambda>t. t = 0), creating = None, signalled = False, depth = (\<lambda>_. 0)\<rparr>"
    using example_pool_sync by blast
  have "accepted ?zs (sync_of k)"
    unfolding zs k(5) by (simp add: accepted_append plain TLS_MAX_SIZE_def)
  moreover have "\<forall>e \<in> set ?zs. ordinary e" unfolding zs by (auto simp: plain)
  moreover have "t \<in> {0, 1, 2}" if "e \<in> set ?zs" "thread_of e = Some t" for e t
    using that plain(1,6,11) unfolding zs by auto
  ultimately obtain g where g: "hawk_run demo_config ?zs k = Inr g"
    using run_accepted [OF hawk_run_reachable [OF k(1) reachable_init], of ?zs "{0, 1, 2}"] k(4) by auto
  have "length (example_pool @ ?zs) \<le> 2 ^ 16"
    unfolding zs using puts(2) gets(3) by (simp add: set_up_trace(1) example_pool_def)
  moreover have "fiesta_library p (mapped_env example_fiesta 0x10000 empty_memory)" for p
    by (simp add: fiesta_library_def mapped_env_def example_fiesta_def no_library_def library_ok_def)
  ultimately show ?thesis using es g k(1-3) by (auto simp: hawk_run_append)
qed

section \<open>After the first insertion\<close>

definition after_first_put :: fiesta where
  "after_first_put = (case put example_fiesta 1 ''123'' 123 after_set_up of Some (n, s) \<Rightarrow> s)"

lemma after_first_put_eval:
  "tree_inv example_fiesta (mem after_first_put) \<langle>\<langle>\<rangle>, 0x10048, \<langle>\<rangle>\<rangle>" "room example_fiesta ''122'' (mem after_first_put)"
  "contents (mem after_first_put) \<langle>\<langle>\<rangle>, 0x10048, \<langle>\<rangle>\<rangle> ''122'' = None"
  "\<exists>s. put_persist example_fiesta 1 ''122'' 122 after_first_put = Some s"
  "next_free example_fiesta (mem after_first_put) = 0x1006C"
  "put_result example_fiesta (place_of (key_text (mem after_first_put)) ''122'' \<langle>\<langle>\<rangle>, 0x10048, \<langle>\<rangle>\<rangle>) (mem after_first_put) = 0x10048"
proof -
  have top: "allocated_to example_fiesta (mem after_set_up) = 0x10048"
    using set_up_inv(2) [OF set_up_eval(1)] by (simp add: empty_memory_def)
  have inv: "tree_inv example_fiesta (mem after_set_up) \<langle>\<rangle>" "room example_fiesta ''123'' (mem after_set_up)"
    using set_up_inv [OF set_up_eval(1)] by (simp_all add: empty_memory_def room_def)
  have cur: "cur after_set_up = 8" using arg_cong [OF set_up_memory(2) [OF set_up_eval(1)], of cur] by (simp add: empty_memory_def)
  then have next_free: "next_free example_fiesta (mem after_set_up) = 0x10048" by (simp add: next_free_def fields)
  have "represents (mem after_set_up) (root after_set_up) \<langle>\<rangle>" using inv(1) by (simp add: tree_inv_def)
  from put_place [OF this, of example_fiesta 1 "''123''" 123] obtain s0 where s0:
    "put example_fiesta 1 ''123'' 123 after_set_up = Some (put_result example_fiesta At_root (mem after_set_up), s0)"
    "mem s0 = put_at example_fiesta ''123'' 123 At_root (mem after_set_up)"
    by (simp only: place_of.simps) blast
  have m: "mem after_first_put = put_at example_fiesta ''123'' 123 At_root (mem after_set_up)"
    by (simp only: after_first_put_def s0 option.case prod.case)
  obtain n s where put: "put example_fiesta 1 ''123'' 123 after_set_up = Some (n, s)"
      "tree_inv example_fiesta (mem s) (tree_after example_fiesta ''123'' (mem after_set_up) \<langle>\<rangle>)"
      "contents (mem s) (tree_after example_fiesta ''123'' (mem after_set_up) \<langle>\<rangle>) = (contents (mem after_set_up) \<langle>\<rangle>)(''123'' \<mapsto> 123)"
    by (rule put_updates [OF inv])
  have t: "tree_after example_fiesta ''123'' (mem after_set_up) \<langle>\<rangle> = \<langle>\<langle>\<rangle>, 0x10048, \<langle>\<rangle>\<rangle>" by (simp add: tree_after_def next_free)
  show inv1: "tree_inv example_fiesta (mem after_first_put) \<langle>\<langle>\<rangle>, 0x10048, \<langle>\<rangle>\<rangle>"
    using put(1,2) unfolding t by (simp add: after_first_put_def)
  show "contents (mem after_first_put) \<langle>\<langle>\<rangle>, 0x10048, \<langle>\<rangle>\<rangle> ''122'' = None"
    using put(1,3) unfolding t by (simp add: after_first_put_def contents_def)
  show "next_free example_fiesta (mem after_first_put) = 0x1006C" by (simp add: m with_node_def next_free_def fields cur Let_def)
  show room: "room example_fiesta ''122'' (mem after_first_put)"
    by (simp add: m with_node_def room_def allocated_to_def fields cur Let_def)
  show "put_result example_fiesta (place_of (key_text (mem after_first_put)) ''122'' \<langle>\<langle>\<rangle>, 0x10048, \<langle>\<rangle>\<rangle>) (mem after_first_put) = 0x10048"
    by (simp add: m key_text_def next_free)
  have inv2: "tree_inv example_fiesta (mem (emit [EvCall 1 (pcs example_fiesta 159)] after_first_put)) \<langle>\<langle>\<rangle>, 0x10048, \<langle>\<rangle>\<rangle>"
    "room example_fiesta ''122'' (mem (emit [EvCall 1 (pcs example_fiesta 159)] after_first_put))" using inv1 room by simp_all
  show "\<exists>s. put_persist example_fiesta 1 ''122'' 122 after_first_put = Some s"
    by (rule put_updates [OF inv2, of 1 122]) (simp add: put_persist_def callingO_def)
qed

end
