(* ===== verification/Spec2Isabelle.thy ===== *)
theory Spec2Isabelle
  imports FiestaScenario
begin

text \<open>
  HawkSet is a PIN tool that finds persistency-induced races: it watches a program that uses
  persistent memory (PM) and reports a store and a load that may run concurrently without a
  common lock when the store is visible before it is persisted. This development models the
  whole tool under \<^verbatim>\<open>src/src\<close> from the callbacks PIN makes to the text of the report.

  \<^bold>\<open>How the parts interact.\<close> At start-up the options are read and the configuration of the lock
  functions is parsed; when an image is loaded the hooks of the configured functions are
  inserted; every instruction is classified and instrumented. While the program runs each
  instrumented instruction calls a handler on the state of its thread: a store marks its
  bytes dirty, a flush moves a cache line to the flushed map, a fence turns the flushed
  writes into records, a load is recorded at once. Lock functions change the thread's timed
  lockset, thread functions its vector clocks, system calls the list of mapped PM ranges; an
  access counts only after several threads have touched its byte (the initialization removal
  heuristic). At the end the recorded stores and loads of all threads are compared and the
  concurrent pairs with disjoint locksets are printed.

  \<^bold>\<open>Theories, in the order of their dependencies.\<close>
  \<^item> \<open>Prelude\<close>, \<open>StdMap\<close>: error values, sequencing, the ordered and unordered maps of the
    standard library with the contract (\<open>map_container\<close>) the components use.
  \<^item> \<open>Locksets\<close> (\<^verbatim>\<open>lockset.hpp\<close>, \<^verbatim>\<open>lockset.cpp\<close>): registry, \<open>Lockset\<close>, \<open>TimedLockset\<close>; each
    operation is related to the set operation it implements.
  \<^item> \<open>VectorClocks\<close> (\<^verbatim>\<open>vector_clock.hpp\<close>): the ordered-map clocks; \<open>is_concurrent\<close> is
    incomparability of the functions they stand for.
  \<^item> \<open>Interning\<close>, \<open>Cache\<close> (\<^verbatim>\<open>cache.hpp\<close>), \<open>Backtraces\<close> (\<^verbatim>\<open>utils.hpp\<close>): the three hash-consing
    tables, interpretations of one interface \<open>intern_table\<close>; a pointer is the position of an
    object in the list of all objects allocated.
  \<^item> \<open>PMAlloc\<close> (\<^verbatim>\<open>utils.hpp\<close>): mmap and munmap, and the test for PM addresses; the path of a descriptor
    is read into a buffer of 1000 bytes, and accesses outside it, or to bytes not written, are undefined behaviour.
  \<^item> \<open>Irh\<close> (\<^verbatim>\<open>hawkset.cpp\<close>, \<^verbatim>\<open>IgnoreAccess\<close>, \<^verbatim>\<open>HandleAccess\<close>): the heuristic.
  \<^item> \<open>Instrument\<close> (\<^verbatim>\<open>TraceInstructions\<close>, \<^verbatim>\<open>ImageLoad\<close>, the configuration parser) and \<open>ConfigSpec\<close>:
    what is hooked with which arguments; a document that holds a configuration, keys in any order and defaults left
    out, is read back, among them the two files under \<^verbatim>\<open>src/config\<close>.
  \<^item> \<open>State\<close>, \<open>Handlers\<close>, \<open>Events\<close> (\<^verbatim>\<open>hawkset.cpp\<close>): the state of the tool, the \<^verbatim>\<open>Process...\<close>
    handlers, the \<^verbatim>\<open>Trace...\<close> callbacks as one step function \<open>hawk_step\<close> over the datatype
    \<open>event\<close>, and runs \<open>hawk_run\<close> and \<open>reachable\<close>.
  \<^item> \<open>Invariant\<close>, \<open>Threads\<close>, \<open>Reach\<close>: the invariant \<open>hawk_inv\<close> and its preservation by every callback.
  \<^item> \<open>ClockMachine\<close>, \<open>History\<close>: a machine of epochs with creation, start, exit and join, its
    happens-before relation, and the simulation of it by the tool's clocks.
  \<^item> \<open>MemSpec\<close>, \<open>HandlerSpec\<close>, \<open>ExitSpec\<close>, \<open>Persistency\<close>: the cache model seen as functions from byte
    addresses to writes, and what every handler records.
  \<^item> \<open>HandlerFrame\<close>, \<open>LockSpec\<close>, \<open>IrhRun\<close>: one rule (\<open>handler_frame\<close>) for what handlers leave alone, with
    five interpretations: locks, the heuristic's state, records (in \<open>EndToEnd\<close>), the registry and the
    options (\<open>LockIndex\<close>) and the call stacks (\<open>Schedules\<close>); its part
    \<open>handler_base\<close>, without loads, is interpreted once more in \<open>Provenance\<close>.
  \<^item> \<open>Analysis\<close>, \<open>Report\<close> (\<^verbatim>\<open>CheckPMRaces\<close>, \<^verbatim>\<open>OutputRaces\<close>): the analysis, equal to a declarative set
    of races, and the printed report.
  \<^item> \<open>EndToEnd\<close>: records are only added along a run, so a fenced write and a load are still there when
    the analysis runs.
  \<^item> \<open>Provenance\<close>, \<open>Origins\<close>: the converse. A pending write, a recorded store or a recorded load is added
    only by a callback that writes, ends the window of a write, or loads; so every record, and
    every entry of the report, goes back to the callbacks it names.
  \<^item> \<open>PersistSpec\<close>: the maps of pending writes implement an abstract machine of dirty and flushed bytes.
  \<^item> \<open>LockIndex\<close>, \<open>Discipline\<close>: critical sections read off the callbacks of a thread, and the promise to a
    program that keeps to a locking discipline: no report, in any schedule.
  \<^item> \<open>Schedules\<close>, \<open>LostWrites\<close>, \<open>ScriptRaces\<close>: programs as interleavings of the callbacks of their threads. A race is
    reported in every schedule: of a write made persistent too late, or of a write that is lost
    (overwritten or still pending at the end of its thread).
  \<^item> \<open>SpecialLocks\<close>: acquire and release functions. What a thread holds whose only locks are special mutexes, the
    promise to a program whose accesses are all under one of them, and critical sections under disjoint ones.
  \<^item> \<open>Examples\<close> (\<^verbatim>\<open>src/examples\<close>): \<^verbatim>\<open>no_race.c\<close>, \<^verbatim>\<open>simple_race.c\<close> and \<^verbatim>\<open>no_sync.c\<close> as the callbacks their
    threads cause, with library code as a parameter and the tool started as \<^verbatim>\<open>src/scripts/HawkSet\<close> does, with \<^verbatim>\<open>pthread.cfg\<close>. In
    all programs but \<^verbatim>\<open>two_bugs.c\<close> every thread finishes. A thread starts with an empty shadow stack, so the frames of library code
    below \<^verbatim>\<open>main\<close> and below the function of a thread do not appear in the traces the properties name.
  \<^item> \<open>Forks\<close>: programs whose main thread creates the others. The semaphore of thread creation orders
    the starts, so the epochs in which an access can fall, and whether two of them are ordered,
    follow from the main thread's callbacks; a race of two unordered epochs is reported in every schedule.
  \<^item> \<open>ForkExamples\<close>: \<^verbatim>\<open>adq_rel.c\<close> and \<^verbatim>\<open>two_bugs.c\<close> as such programs. The workers of \<^verbatim>\<open>adq_rel.c\<close> make the callbacks that
    \<^verbatim>\<open>ImageLoad\<close> has hooked for the configurations, which decide whether there is a race (under \<^verbatim>\<open>adq_rel_test.cfg\<close> there is none); the
    first worker of \<^verbatim>\<open>two_bugs.c\<close>, which is never joined, may be cut off by the end of the process after any number of callbacks.
  \<^item> \<open>BugFiesta\<close>: \<^verbatim>\<open>bug_fiesta.c\<close>, a binary search tree in persistent memory with a bump allocator, as functions
    that change the memory and append the callbacks they cause. \<open>FiestaMap\<close>: the tree is a finite map, \<^verbatim>\<open>put\<close> its update and
    \<^verbatim>\<open>get\<close> its lookup. \<open>FiestaEvents\<close>, \<open>FiestaPersist\<close>: the callbacks of \<^verbatim>\<open>put\<close> and \<^verbatim>\<open>put_persist\<close>, and what they leave unpersisted.
    \<open>FiestaRuns\<close>: the threads and what they compute. \<open>FiestaRace\<close>: the race, in every schedule. \<open>FiestaScenario\<close>: a run.
  \<^item> \<open>Acceptance\<close>: a small machine of thread starts, creations and stack depths decides which sequences of callbacks
    the tool gets through.
  \<^item> \<open>ThreadStart\<close>: the two orders in which a thread can start.
  \<^item> \<open>Printing\<close> (the \<^verbatim>\<open>operator<<\<close> of the three classes, \<^verbatim>\<open>get_mutex_id\<close>), \<open>Statistics\<close> (the counters of
    \<^verbatim>\<open>logger.hpp\<close>, against a table of what each printed line is to count), \<open>Fini\<close> (the clock readings, the counters of the analysis, sizes, and the text
    \<^verbatim>\<open>Fini\<close> prints), \<open>Helpers\<close> (functions of \<^verbatim>\<open>utils.hpp\<close> nothing calls), \<open>Startup\<close> (options and \<^verbatim>\<open>main\<close>).
  \<^item> \<open>StdText\<close>: decimal numbers and ends of lines. \<open>Scenario\<close>: a concrete run on which the properties are instantiated.

  \<^bold>\<open>Conventions.\<close> Failed assertions and undefined behaviour are \<open>Inl\<close> values of \<open>hs_error\<close>, so a
  theorem that a step returns \<open>Inr\<close> says that no assertion fails. Callbacks are atomic, in any order the
  predicate \<open>enabled\<close> allows; a callback that waits for the application is two steps, and the
  two halves of \<^verbatim>\<open>TraceThreadStart\<close>, between which another thread can run, are separate
  definitions with a property of their own. Thread identifiers and lock indices are naturals, addresses and clock
  counters 64-bit words, recorded clock indices 16-bit words. PIN, libyaml,
  \<^verbatim>\<open>backtrace_symbols\<close>, the clock, the sizes of types and the capacities of vectors are parameters. Iteration over an unordered map, and over a map
  ordered by pointers, follows insertion or allocation order.

  \<^bold>\<open>Bounds.\<close> The theorems on clocks assume fewer than \<open>2 ^ 62\<close> callbacks (each advances a 64-bit
  component at most twice), those on acquisition times at most \<open>2 ^ 32\<close> acquisitions by a thread, those on the
  heuristic at most 64 threads: with more the assertion of \<^verbatim>\<open>IgnoreAccess\<close> fails, which is
  a property of its own. No fuel is used; every loop is a terminating recursion, but the frame-pointer
  walk, a \<open>while_option\<close> whose termination is a property of its own.

  \<^bold>\<open>Not modelled.\<close> Races between callbacks of different threads other than those named above
  (every shared table is behind its mutex; the thread-local data is touched by its own
  thread); the hash functions of the containers, which only choose buckets; the code under
  \<^verbatim>\<open>NO_BACKTRACE\<close>, \<^verbatim>\<open>DEBUG\<close> and \<^verbatim>\<open>COUNT_TIME\<close>, which the build does not enable; the example
  programs \<^verbatim>\<open>disjoint_access.c\<close> and \<^verbatim>\<open>n_threads_init.c\<close>; and the scripts.
\<close>

section \<open>What the tool promises of an execution\<close>

text \<open>
  C1. Every race of the execution is reported. Take a run (of at most 2^62 callbacks and 64
  threads, without the initialization heuristic) in which thread \<open>w\<close> writes byte \<open>b\<close> of
  persistent memory, still has that write flushed and pending when it fences, and another
  thread \<open>r\<close> loads \<open>b\<close> before or after that. If the load and the fence are not ordered by program order,
  thread creation and join, and no lock \<open>r\<close> holds at the load is one that \<open>w\<close> holds from the
  write to the fence, the report has an entry whose three backtraces are the call traces of the
  write, of the fence and of the load.
\<close>
theorem unsynchronised_access_reported:
  assumes run: "hawk_run c es (init_hawk 0 d u) = Inr g" and len: "length es \<le> 2 ^ 62" and few: "card {t. started g t} \<le> 64"
    and es: "es = e1 @ EvWrite w ctxt a sz STORE # e2 @ EvFence w ctxt' # e3"
    and es': "es = l1 @ EvRead r lctxt la lsz la2 # l2"
    and states: "hawk_run c e1 (init_hawk 0 d u) = Inr g0" "hawk_step c (EvWrite w ctxt a sz STORE) g0 = Inr g1"
      "hawk_run c e2 g1 = Inr g2" "hawk_run c l1 (init_hawk 0 d u) = Inr gl"
    and write_ok: "sz \<le> 64" "IsPMAddress a sz (pm g0)" "b \<in> set (byte_range a sz)"
    and pending: "mem_at (flushed_mem_state (get_thread_data g2 w)) b = mem_at (mem_state (get_thread_data g1 w)) b"
    and load: "0 < lsz" "lsz \<le> 64" "IsPMAddress la lsz (pm gl)" "i < unat lsz" "b = la + of_nat i"
    and small: "length (vector_clocks (get_thread_data g2 w)) \<le> 2 ^ 16" "length (vector_clocks (get_thread_data gl r)) \<le> 2 ^ 16"
    and ne: "w \<noteq> r"
    and unordered: "(epoch_of g2 w, epoch_of gl r) \<notin> run_happens_before c es (init_hawk 0 d u)"
      "(epoch_of gl r, epoch_of g2 w) \<notin> run_happens_before c es (init_hawk 0 d u)"
    and wrap: "acquisitions (thread_lock_ops c e1 (init_hawk 0 d u) w) + acquisitions (thread_lock_ops c e2 g1 w) < 2 ^ 32"
    and locks: "held (current_timedlockset (get_thread_data gl r)) \<inter>
      (held (current_timedlockset (get_thread_data g0 w)) - touched (thread_lock_ops c e2 g1 w)) = {}"
  shows "\<exists>wt ft lb. reported (CheckPMRaces g) True (wt, ft, True) lb \<and>
    trace_is (bt_heap g) wt (call_trace g0 w ctxt) \<and> trace_is (bt_heap g) ft (call_trace g2 w ctxt') \<and>
    trace_is (bt_heap g) lb (call_trace gl r lctxt)"
proof -
  from write_in_final_state [OF run [unfolded es] few states(1-3) write_ok pending small(1) wrap] obtain s where
    s: "recorded_store g w s" "sfd_address s = b" "persisted s" "was_flushed s" "(w, unat (sfd_clock_i s)) = epoch_of g2 w"
      "trace_is (bt_heap g) (write_trace s) (call_trace g0 w ctxt)" "trace_is (bt_heap g) (fence_trace s) (call_trace g2 w ctxt')"
      "members (lockset_at (ls_heap g) (common_set s)) =
         held (current_timedlockset (get_thread_data g0 w)) - touched (thread_lock_ops c e2 g1 w)" by blast
  from read_in_final_state [OF run [unfolded es'] few states(4) load(1-3) small(2)] obtain key ps p where
    l: "recorded_load g r (key, ps)" "p \<in> set ps" "key_address key = la" "\<forall>i. bit (key_mask key) i \<longleftrightarrow> i < unat lsz"
      "(r, unat (key_clock_i key)) = epoch_of gl r" "trace_is (bt_heap g) (key_backtrace key) (call_trace gl r lctxt)"
      "members (lockset_at (ls_heap g) p) = held (current_timedlockset (get_thread_data gl r))" by blast
  have "unat lsz \<le> 64" using load(2) by (simp add: word_le_nat_alt)
  then have "i < 64" using load(4) by simp
  then have "touches key b" unfolding touches_def using load(4,5) l(3,4) by blast
  with s(2) have "touches key (sfd_address s)" by simp
  from race_reported [OF run len s(1) l(1,2) this ne s(5) l(5) unordered] locks
  have "reported (CheckPMRaces g) True (write_trace s, fence_trace s, True) (key_backtrace key)"
    by (simp add: s(3,4,8) l(7))
  with s(6,7) l(6) show ?thesis by blast
qed

theorem unsynchronised_access_reported_witness:
  "\<exists>g key lb. hawk_run demo_config demo_events (init_hawk 0 50 False) = Inr g \<and> reported (CheckPMRaces g) True key lb"
proof -
  note one = One_nat_def
  obtain g where g: "hawk_run demo_config demo_events (init_hawk 0 50 False) = Inr g" "\<forall>t. used (get_thread_data g t) \<longrightarrow> t < 2"
    using demo_run by blast
  obtain g0 g1 g2 where st: "hawk_run demo_config demo_locked (init_hawk 0 50 False) = Inr g0"
      "hawk_step demo_config (EvWrite 0 0x1000 0x10000 2 STORE) g0 = Inr g1"
      "hawk_run demo_config [EvUnlock 0 0x500, EvFlush 0 0x10000 CLWB] g1 = Inr g2"
    and pm0: "IsPMAddress 0x10000 2 (pm g0)"
    and pend: "mem_at (flushed_mem_state (get_thread_data g2 0)) 0x10000 = mem_at (mem_state (get_thread_data g1 0)) 0x10000"
    and held: "held (current_timedlockset (get_thread_data g0 0)) = {0}"
    and ops: "acquisitions (thread_lock_ops demo_config demo_locked (init_hawk 0 50 False) 0) = 1"
      "thread_lock_ops demo_config [EvUnlock 0 0x500, EvFlush 0 0x10000 CLWB] g1 0 = [Release 0]"
    and vc2: "length (vector_clocks (get_thread_data g2 0)) = 2"
    using demo_steps by (elim exE conjE) (rule that; assumption)
  obtain gl where gl: "hawk_run demo_config demo_before_read (init_hawk 0 50 False) = Inr gl"
      "IsPMAddress 0x10000 2 (pm gl)" "length (vector_clocks (get_thread_data gl 1)) = 1"
    using demo_read_state by blast
  have es: "demo_events = demo_locked @ EvWrite 0 0x1000 0x10000 2 STORE #
      [EvUnlock 0 0x500, EvFlush 0 0x10000 CLWB] @ EvFence 0 0x1010 # [EvLock 1 0x500, EvRead 1 0x2000 0x10000 2 0, EvUnlock 1 0x500]"
    "demo_events = demo_before_read @ EvRead 1 0x2000 0x10000 2 0 # [EvUnlock 1 0x500]"
    by (simp_all add: demo_events_def demo_locked_def demo_before_read_def)
  have b: "(0x10000 :: u64) \<in> set (byte_range 0x10000 2)" by (simp add: byte_range_def upt_eval)
  have sz: "(2 :: u32) \<le> 64" "0 < (2 :: u32)" "0 < unat (2 :: u32)" "(0x10000 :: u64) = 0x10000 + of_nat 0" "(0 :: nat) \<noteq> 1"
    by simp_all
  have vc: "length (vector_clocks (get_thread_data g2 0)) \<le> 2 ^ 16" "length (vector_clocks (get_thread_data gl 1)) \<le> 2 ^ 16"
    unfolding vc2 gl(3) by simp_all
  have hb: "(epoch_of g2 0, epoch_of gl 1) \<notin> run_happens_before demo_config demo_events (init_hawk 0 50 False)"
    "(epoch_of gl 1, epoch_of g2 0) \<notin> run_happens_before demo_config demo_events (init_hawk 0 50 False)"
    using demo_unordered unfolding epoch_of_def vc2 gl(3) by simp_all
  have wrap: "acquisitions (thread_lock_ops demo_config demo_locked (init_hawk 0 50 False) 0) +
      acquisitions (thread_lock_ops demo_config [EvUnlock 0 0x500, EvFlush 0 0x10000 CLWB] g1 0) < 2 ^ 32"
    unfolding ops by (simp add: acquisitions_def)
  have locks: "held (current_timedlockset (get_thread_data gl 1)) \<inter> (held (current_timedlockset (get_thread_data g0 0)) -
      touched (thread_lock_ops demo_config [EvUnlock 0 0x500, EvFlush 0 0x10000 CLWB] g1 0)) = {}"
    unfolding held ops by (simp add: touched_def)
  from unsynchronised_access_reported [OF g(1) es_length few_threads [OF g(2)] es st gl(1) sz(1) pm0 b pend sz(2,1) gl(2)
      sz(3-4) vc sz(5) hb wrap locks] g(1)
  show ?thesis by blast
qed

text \<open>
  C2. Every reported race is real. Conversely, whatever the heuristic lets through, an entry of
  the report comes from the execution: thread \<open>w\<close> wrote a byte of persistent memory, had that
  write pending (flushed or not, as the entry says) until it fenced, for the persisted entries,
  or wrote the byte again or ended, for the unpersisted ones; another thread loaded the byte;
  the entry's backtraces are the call traces of these callbacks (none for the end of the
  thread), the load and the end of the write's window are not ordered by program order,
  creation and join, and no lock the loading thread holds is one the writer held throughout
  (in runs of at most 2^62 callbacks, 64 threads, 2^16 clocks and 2^32 acquisitions by a thread).
\<close>
theorem reported_race_is_real:
  assumes run: "hawk_run c es (init_hawk n d u) = Inr g" and len: "length es \<le> 2 ^ 62" and few: "card {t. started g t} \<le> 64"
    and small: "\<forall>t. started g t \<longrightarrow> length (vector_clocks (get_thread_data g t)) \<le> 2 ^ 16"
    and wrap: "\<And>t. acquisitions (thread_lock_ops c es (init_hawk n d u) t) < 2 ^ 32"
    and rep: "reported (CheckPMRaces g) pers (wt, ft, fl) lb"
  shows "\<exists>w r b e1 W e2 F e3 g0 g1 g2 g3 l1 L l2 gl gm x z tr data. w \<noteq> r \<and>
    at_point c es (init_hawk n d u) g (e1 @ W # e2) F e3 g2 g3 \<and>
    at_point c (e1 @ W # e2) (init_hawk n d u) g2 e1 W e2 g0 g1 \<and> at_point c es (init_hawk n d u) g l1 L l2 gl gm \<and>
    writes_byte W g0 w x b \<and> pending_during c e2 g1 w b data \<and>
    pending_in g2 w fl b data \<and> wt = sd_backtrace data \<and> ends_window F g2 w b pers tr \<and>
    loads_byte L gl r z b \<and> trace_is (bt_heap g) wt (call_trace g0 w x) \<and> trace_opt (bt_heap g) ft tr \<and>
    trace_is (bt_heap g) lb (call_trace gl r z) \<and>
    (epoch_of g2 w, epoch_of gl r) \<notin> run_happens_before c es (init_hawk n d u) \<and>
    (epoch_of gl r, epoch_of g2 w) \<notin> run_happens_before c es (init_hawk n d u) \<and>
    held (current_timedlockset (get_thread_data gl r)) \<inter>
      (held (current_timedlockset (get_thread_data g0 w)) - touched (thread_lock_ops c e2 g1 w)) = {}"
  using reported_origin [OF assms] unfolding reported_from_def fst_conv snd_conv .

theorem reported_race_is_real_witness:
  "\<exists>g w r b e1 W e2 F e3 g0 g1 g2 g3 L l1 l2 gl gm x z.
     hawk_run demo_config demo_events (init_hawk 0 50 False) = Inr g \<and> w \<noteq> r \<and>
     at_point demo_config (e1 @ W # e2) (init_hawk 0 50 False) g2 e1 W e2 g0 g1 \<and>
     at_point demo_config demo_events (init_hawk 0 50 False) g (e1 @ W # e2) F e3 g2 g3 \<and>
     writes_byte W g0 w x b \<and> loads_byte L gl r z b \<and> at_point demo_config demo_events (init_hawk 0 50 False) g l1 L l2 gl gm"
proof -
  obtain g where g: "hawk_run demo_config demo_events (init_hawk 0 50 False) = Inr g"
      "reported (CheckPMRaces g) True (Some 0, Some 1, True) (Some 2)" "card {t. started g t} \<le> 64"
    and small: "\<forall>t. started g t \<longrightarrow> length (vector_clocks (get_thread_data g t)) \<le> 2 ^ 16"
    using demo_reported by blast
  have wrap: "acquisitions (thread_lock_ops demo_config demo_events (init_hawk 0 50 False) t) < 2 ^ 32" for t
    by (rule le_less_trans [OF acquisitions_le_length]) (simp add: demo_events_def demo_setup_def)
  from reported_race_is_real [OF g(1) es_length g(3) small wrap g(2)] show ?thesis
    by (elim exE conjE) (intro exI conjI, rule g(1), assumption+)
qed

section \<open>Disciplined and racy programs\<close>

text \<open>
  C3. No report for a disciplined program. If every byte of persistent memory has a mutex such
  that a thread is in a critical section of it whenever it writes or loads the byte, and has no
  write of the byte pending (dirty, or flushed and not fenced) whenever it locks or unlocks the
  mutex, the analysis reports nothing, neither persisted nor unpersisted entries, whatever the
  schedule (bounds as in the converse theorem above).
\<close>
theorem disciplined_program_unreported:
  assumes run: "hawk_run c es (init_hawk n d u) = Inr g" and len: "length es \<le> 2 ^ 62" and few: "card {t. started g t} \<le> 64"
    and small: "\<forall>t. started g t \<longrightarrow> length (vector_clocks (get_thread_data g t)) \<le> 2 ^ 16"
    and wrap: "\<And>t. acquisitions (thread_lock_ops c es (init_hawk n d u) t) < 2 ^ 32"
    and discipline: "guarded c es (init_hawk n d u) g guard"
  shows "\<not> reported (CheckPMRaces g) pers (wt, ft, fl) lb"
  using guarded_unreported [OF run reported_origin [OF run len few small wrap]] discipline by blast

theorem disciplined_program_unreported_witness:
  "\<exists>g. hawk_run demo_config no_race_example (init_hawk 0 50 True) = Inr g \<and>
     race_likely_stores (get_thread_data g 1) \<noteq> [] \<and> race_likely_loads (get_thread_data g 0) \<noteq> [] \<and>
     (\<forall>wt ft fl lb. \<not> reported (CheckPMRaces g) True (wt, ft, fl) lb)"
proof -
  note ex = no_race_example_run
  obtain g where g: "hawk_run demo_config no_race_example (init_hawk 0 50 True) = Inr g"
      "race_likely_stores (get_thread_data g 1) \<noteq> [] \<and> race_likely_loads (get_thread_data g 0) \<noteq> []"
    using ex(2) by blast
  obtain k where k: "hawk_run demo_config example_pool (init_hawk 0 50 True) = Inr k" "\<not> found_alloc (pm k)"
    using example_pool_run(2) by blast
  note guard = no_race_guarded [OF ex(1) g(1) ex(3) example_pool_run(1) k no_library_ok example_env_pool(2)]
  note short = short_run [where T = "{0, 1}", OF g(1) ex(3) guard(2)]
  from disciplined_program_unreported [OF g(1) short(1-4) guard(1)] g show ?thesis by simp
qed

text \<open>
  C11. \<^verbatim>\<open>no_race.c\<close> is not reported. Whatever the interleaving of its two threads, the results of
  the library calls (a failing \<^verbatim>\<open>pthread_create\<close> included) and what the library does outside
  persistent memory, with the lock functions of \<^verbatim>\<open>pthread.cfg\<close> hooked the report is empty, with and without the search for unpersisted writes,
  when the pool is mapped at the start of a cache line.
\<close>
theorem no_race_unreported:
  assumes "es \<in> no_race_runs pool env pc lib lock created pid joined"
    and "hawk_run c es (init_hawk n d u) = Inr g" and "length es \<le> 2 ^ 16"
    and "pool_run pool" "hawk_run c pool (init_hawk n d u) = Inr k" "\<not> found_alloc (pm k)"
    and "library_ok (\<lambda>a sz. IsPMAddress a sz (pm k)) lib" and "unat (map_address env) mod 64 = 0"
  shows "\<not> reported (CheckPMRaces g) pers (wt, ft, fl) lb"
  by (rule no_race_silent [OF assms])

theorem no_race_unreported_witness:
  "\<exists>es g. es \<in> no_race_runs example_pool example_env of_nat no_library 0x500 0 77 0 \<and>
     hawk_run demo_config es (init_hawk 0 50 True) = Inr g \<and> race_likely_stores (get_thread_data g 1) \<noteq> [] \<and>
     (\<forall>pers wt ft fl lb. \<not> reported (CheckPMRaces g) pers (wt, ft, fl) lb)"
proof -
  note ex = no_race_example_run
  obtain g where g: "hawk_run demo_config no_race_example (init_hawk 0 50 True) = Inr g"
      "race_likely_stores (get_thread_data g 1) \<noteq> []" using ex(2) by blast
  obtain k where k: "hawk_run demo_config example_pool (init_hawk 0 50 True) = Inr k" "\<not> found_alloc (pm k)"
    using example_pool_run(2) by blast
  from no_race_unreported [OF ex(1) g(1) ex(3) example_pool_run(1) k no_library_ok example_env_pool(2)] g ex(1)
  show ?thesis by blast
qed

text \<open>
  C4. \<^verbatim>\<open>simple_race.c\<close> is reported in every schedule. Whatever the interleaving of its two threads
  (and not only when the accesses happen to be close), with the lock functions of \<^verbatim>\<open>pthread.cfg\<close> hooked, the analysis without the
  initialization heuristic reports the race between the write in line 79, persisted outside
  the critical section, and the load in line 105: the entry's call traces are line 79, the fence
  (line 23) called in line 83, and line 105.
\<close>
theorem simple_race_reported:
  assumes "es \<in> simple_race_runs pool env pc lib lock 0 pid joined"
    and "hawk_run c es (init_hawk 0 d u) = Inr g" and "length es \<le> 2 ^ 16"
    and "pool_run pool" "hawk_run c pool (init_hawk 0 d u) = Inr k" "\<not> found_alloc (pm k)"
    and "library_ok (\<lambda>a sz. IsPMAddress a sz (pm k)) lib"
    and "open_pmem_pool env = Inr (addr, sz)" "unat addr mod 64 = 0" "IsPMAddress addr 4 (pm k)"
  shows "\<exists>wt ft lb. reported (CheckPMRaces g) True (wt, ft, True) lb \<and> trace_is (bt_heap g) wt [pc 79] \<and>
    trace_is (bt_heap g) ft [pc 23, pc 83] \<and> trace_is (bt_heap g) lb [pc 105]"
  by (rule simple_race_found [OF assms])

theorem simple_race_reported_witness:
  "\<exists>es g wt ft lb. es \<in> simple_race_runs example_pool example_env of_nat no_library 0x500 0 77 0 \<and>
     hawk_run demo_config es (init_hawk 0 50 False) = Inr g \<and> reported (CheckPMRaces g) True (wt, ft, True) lb \<and>
     trace_is (bt_heap g) ft [23, 83]"
proof -
  note ex = simple_race_example_run
  obtain g where g: "hawk_run demo_config simple_race_example (init_hawk 0 50 False) = Inr g" using ex(2) by blast
  obtain k where k: "hawk_run demo_config example_pool (init_hawk 0 50 False) = Inr k" "\<not> found_alloc (pm k)"
      "IsPMAddress 0x10000 4 (pm k)"
    using example_pool_run(2) by blast
  have line: "unat (0x10000 :: u64) mod 64 = 0" by simp
  from simple_race_reported [OF ex(1) g ex(3) example_pool_run(1) k(1,2) no_library_ok example_env_pool(1) line k(3),
      unfolded of_nat_numeral] g ex(1)
  show ?thesis by blast
qed

text \<open>
  C5. \<^verbatim>\<open>adq_rel.c\<close> under any configurations, in every schedule. Its main thread creates two workers and joins them; the
  configurations decide which functions of the program the tool takes for acquire and release functions when
  it loads the image. When one configuration lists both \<^verbatim>\<open>write_value\<close> and \<^verbatim>\<open>read_value\<close>, as
  \<^verbatim>\<open>src/config/adq_rel_test.cfg\<close> does, both hold its special mutex and the report is empty. Otherwise the analysis without the
  initialization heuristic (\<open>init_hawk 0\<close>) reports the race between the write in line 77 and the load in line 84,
  with the fence (line 23) called in line 79. The scripts are those of configurations that list no other function of the program
  (\<open>adq_rel_configured\<close>) and of runs in which the calls of \<^verbatim>\<open>pthread_create\<close> and \<^verbatim>\<open>pthread_join\<close> succeed.
\<close>
theorem adq_rel_reported:
  assumes "es \<in> adq_rel_runs calls pool env pc lib (\<lambda>_. 0) pid (\<lambda>_. 0)"
    and "hawk_run c es (init_hawk 0 d u) = Inr g" and "length es \<le> 2 ^ 16"
    and "pool_run pool" "hawk_run c pool (init_hawk 0 d u) = Inr k" "\<not> found_alloc (pm k)"
    and "library_ok (\<lambda>a sz. IsPMAddress a sz (pm k)) lib"
    and "open_pmem_pool env = Inr (addr, sz)" "unat addr mod 64 = 0" "IsPMAddress addr 4 (pm k)"
    and "ImageLoad rtn_valid (configs c) r = Inr (calls, reps, r')" "rtn_valid ''write_value''" "rtn_valid ''read_value''"
    and "lock_counter r + length (configs c) \<le> 2 ^ 64" "list_all adq_rel_configured (configs c)"
  shows "if \<exists>cfg \<in> set (configs c). ''write_value'' \<in> set (adq_rel cfg) \<and> ''read_value'' \<in> set (adq_rel cfg)
    then \<forall>pers wt ft fl lb. \<not> reported (CheckPMRaces g) pers (wt, ft, fl) lb
    else \<exists>wt ft lb. reported (CheckPMRaces g) True (wt, ft, True) lb \<and> trace_is (bt_heap g) wt [pc 77] \<and>
      trace_is (bt_heap g) ft [pc 23, pc 79] \<and> trace_is (bt_heap g) lb [pc 84]"
proof -
  note common = common_special [OF assms(11-14)]
  show ?thesis
  proof (cases "\<exists>cfg \<in> set (configs c). ''write_value'' \<in> set (adq_rel cfg) \<and> ''read_value'' \<in> set (adq_rel cfg)")
    case True
    with common obtain s where "s \<in> set (hook_mutexes calls TraceAdqRelBefore_fn ''write_value'')"
        "s \<in> set (hook_mutexes calls TraceAdqRelBefore_fn ''read_value'')" by blast
    from adq_rel_silent [OF assms(1-10) this] True show ?thesis by simp
  next
    case False
    with common have "set (hook_mutexes calls TraceAdqRelBefore_fn ''read_value'') \<inter>
        set (hook_mutexes calls TraceAdqRelBefore_fn ''write_value'') = {}" by (simp add: Int_commute)
    from adq_rel_found [OF assms(1-10) this] False show ?thesis by (simp only: if_False)
  qed
qed

theorem adq_rel_reported_witness:
  "(\<exists>es g wt ft lb. es \<in> adq_rel_runs (example_hooks []) example_pool example_env of_nat no_library (\<lambda>_. 0) of_nat (\<lambda>_. 0) \<and>
     hawk_run (demo_config\<lparr>configs := []\<rparr>) es (init_hawk 0 50 False) = Inr g \<and> reported (CheckPMRaces g) True (wt, ft, True) lb \<and>
     trace_is (bt_heap g) ft [23, 79]) \<and>
   (\<exists>es g. es \<in> adq_rel_runs (example_hooks [adq_rel_test_config]) example_pool example_env of_nat no_library (\<lambda>_. 0) of_nat (\<lambda>_. 0) \<and>
     hawk_run (demo_config\<lparr>configs := [adq_rel_test_config]\<rparr>) es (init_hawk 0 50 False) = Inr g \<and>
     race_likely_stores (get_thread_data g 1) \<noteq> [] \<and> race_likely_loads (get_thread_data g 2) \<noteq> [] \<and>
     (\<forall>pers wt ft fl lb. \<not> reported (CheckPMRaces g) pers (wt, ft, fl) lb))"
proof -
  have line: "unat (0x10000 :: u64) mod 64 = 0" by simp
  have case': "\<exists>g. hawk_run (demo_config\<lparr>configs := cfgs\<rparr>) (adq_rel_example cfgs) (init_hawk 0 50 False) = Inr g \<and>
      race_likely_stores (get_thread_data g 1) \<noteq> [] \<and> race_likely_loads (get_thread_data g 2) \<noteq> [] \<and>
      (if \<exists>cfg \<in> set cfgs. ''write_value'' \<in> set (adq_rel cfg) \<and> ''read_value'' \<in> set (adq_rel cfg)
       then \<forall>pers wt ft fl lb. \<not> reported (CheckPMRaces g) pers (wt, ft, fl) lb
       else \<exists>wt ft lb. reported (CheckPMRaces g) True (wt, ft, True) lb \<and> trace_is (bt_heap g) wt [77] \<and>
         trace_is (bt_heap g) ft [23, 79] \<and> trace_is (bt_heap g) lb [84])"
    if cfgs: "adq_rel_cases cfgs" for cfgs
  proof -
    let ?c = "demo_config\<lparr>configs := cfgs\<rparr>"
    have here: "configs ?c = cfgs" by simp
    note ex = adq_rel_example_run [OF cfgs]
    obtain g where g: "hawk_run ?c (adq_rel_example cfgs) (init_hawk 0 50 False) = Inr g"
        "race_likely_stores (get_thread_data g 1) \<noteq> []" "race_likely_loads (get_thread_data g 2) \<noteq> []" using ex(2) by blast
    obtain k where k: "hawk_run ?c example_pool (init_hawk 0 50 False) = Inr k" "\<not> found_alloc (pm k)" "IsPMAddress 0x10000 4 (pm k)"
      using example_pool_run_configs by blast
    obtain reps r where hooks: "ImageLoad (\<lambda>_. True) (configs ?c) init_registry = Inr (example_hooks cfgs, reps, r)"
      using example_hooks_load(1) [OF cfgs] by auto
    have bound: "lock_counter init_registry + length (configs ?c) \<le> 2 ^ 64" "list_all adq_rel_configured (configs ?c)"
      using cfgs by (auto simp: adq_rel_cases_def init_registry_def adq_rel_configured_def adq_rel_functions_def adq_rel_test_config_def new_MutexConfig_def)
    show ?thesis
      using adq_rel_reported [OF ex(1) g(1) ex(3) example_pool_run(1) k(1,2) no_library_ok example_env_pool(1) line k(3)
          hooks TrueI TrueI bound, unfolded of_nat_numeral] g by (intro exI [of _ g]) (simp only: here simp_thms)
  qed
  have cases: "adq_rel_cases []" "adq_rel_cases [adq_rel_test_config]" by (simp_all add: adq_rel_cases_def)
  have both: "''write_value'' \<in> set (adq_rel adq_rel_test_config) \<and> ''read_value'' \<in> set (adq_rel adq_rel_test_config)"
    by (simp add: adq_rel_test_config_def)
  show ?thesis
  proof
    from case' [OF cases(1)] adq_rel_example_run(1) [OF cases(1)]
    show "\<exists>es g wt ft lb. es \<in> adq_rel_runs (example_hooks []) example_pool example_env of_nat no_library (\<lambda>_. 0) of_nat (\<lambda>_. 0) \<and>
        hawk_run (demo_config\<lparr>configs := []\<rparr>) es (init_hawk 0 50 False) = Inr g \<and> reported (CheckPMRaces g) True (wt, ft, True) lb \<and>
        trace_is (bt_heap g) ft [23, 79]"
      by (simp, blast)
    from case' [OF cases(2)] adq_rel_example_run(1) [OF cases(2)] both
    show "\<exists>es g. es \<in> adq_rel_runs (example_hooks [adq_rel_test_config]) example_pool example_env of_nat no_library (\<lambda>_. 0) of_nat (\<lambda>_. 0) \<and>
        hawk_run (demo_config\<lparr>configs := [adq_rel_test_config]\<rparr>) es (init_hawk 0 50 False) = Inr g \<and>
        race_likely_stores (get_thread_data g 1) \<noteq> [] \<and> race_likely_loads (get_thread_data g 2) \<noteq> [] \<and>
        (\<forall>pers wt ft fl lb. \<not> reported (CheckPMRaces g) pers (wt, ft, fl) lb)"
      by auto
  qed
qed

text \<open>
  C6. \<^verbatim>\<open>two_bugs.c\<close> has two races, reported in every schedule when the initialization heuristic is off (\<open>init_hawk 0\<close>; under the
  default of one thread the accesses of the first thread to touch the value are never recorded)
  and the lock functions of \<^verbatim>\<open>pthread.cfg\<close>, and no function of the program, are hooked. Each of its workers
  writes under the mutex (line 79, line 89) and persists the write after the release, and the main thread loads
  the value under the mutex in line 118: the analysis reports the write of the second worker, which is joined, and this load;
  and it reports the write of the first worker, which is never joined and may be cut off by the end of the process after \<open>q\<close>
  of its callbacks, if it has returned from \<^verbatim>\<open>write_value\<close> by then.
  The fence the entry names is the first one after the release, so the call trace is not fixed: library code
  may execute fences of its own, but none between the call of \<^verbatim>\<open>pthread_mutex_unlock\<close>
  and its hook.
\<close>
theorem two_bugs_reported:
  assumes "es \<in> two_bugs_runs pool env pc lib lock (\<lambda>_. 0) pid 0 q ended"
    and "hawk_run c es (init_hawk 0 d u) = Inr g" and "length es \<le> 2 ^ 16"
    and "pool_run pool" "hawk_run c pool (init_hawk 0 d u) = Inr k" "\<not> found_alloc (pm k)"
    and "library_ok (\<lambda>a sz. IsPMAddress a sz (pm k)) lib"
    and "open_pmem_pool env = Inr (addr, sz)" "unat addr mod 64 = 0" "IsPMAddress addr 4 (pm k)"
    and "(w :: nat, n) \<in> {(1, 78), (2, 88)}"
    and "w = 1 \<longrightarrow> length (EvThreadStart 1 # lib 1 0 0 @ two_bugs_write_value pc lib lock 1 addr) \<le> q"
    and "\<forall>e \<in> set (lib w (n + 3) 0). inert (\<lambda>a sz. IsPMAddress a sz (pm k)) w e"
  shows "\<exists>wt ft lb. reported (CheckPMRaces g) True (wt, ft, True) lb \<and> trace_is (bt_heap g) wt [pc (n + 1)] \<and>
    trace_is (bt_heap g) lb [pc 118]"
  by (rule two_bugs_found [OF assms])

theorem two_bugs_reported_witness:
  "\<exists>es g. es \<in> two_bugs_runs example_pool example_env of_nat no_library 0x500 (\<lambda>_. 0) of_nat 0 14 False \<and>
     hawk_run demo_config es (init_hawk 0 50 False) = Inr g \<and>
     (\<exists>wt ft lb. reported (CheckPMRaces g) True (wt, ft, True) lb \<and> trace_is (bt_heap g) wt [79] \<and> trace_is (bt_heap g) lb [118]) \<and>
     (\<exists>wt ft lb. reported (CheckPMRaces g) True (wt, ft, True) lb \<and> trace_is (bt_heap g) wt [89] \<and> trace_is (bt_heap g) lb [118])"
proof -
  note ex = two_bugs_example_run
  obtain g where g: "hawk_run demo_config two_bugs_example (init_hawk 0 50 False) = Inr g" using ex(2) by blast
  obtain k where k: "hawk_run demo_config example_pool (init_hawk 0 50 False) = Inr k" "\<not> found_alloc (pm k)"
      "IsPMAddress 0x10000 4 (pm k)"
    using example_pool_run(2) by blast
  have line: "unat (0x10000 :: u64) mod 64 = 0" by simp
  have quiet: "\<forall>e \<in> set (no_library w n i). inert p w e" for w n i p by (simp add: no_library_def)
  have reached: "length (EvThreadStart 1 # no_library 1 0 0 @ two_bugs_write_value of_nat no_library 0x500 1 0x10000) \<le> 14"
    by (simp add: fork_eval two_bugs_write_value_def no_library_def)
  note both = two_bugs_reported [OF ex(1) g ex(3) example_pool_run(1) k(1,2) no_library_ok example_env_pool(1) line k(3) _ _ quiet]
  from both [of 1 78] both [of 2 88] g reached ex(1) show ?thesis by force
qed

text \<open>
  C17. The two maps of writes implement an abstract machine of persistency: at every callback of a
  run the sets of dirty and of flushed bytes of every thread change as the machine says, a
  write of persistent memory making its bytes dirty, a flush (or non-temporal store) moving one line, a fence or an
  atomic update emptying the flushed set, and nothing else changing either.
\<close>
theorem persistency_machine_implemented:
  assumes "reachable c (init_hawk n d u) g" "card {t. started g t} \<le> 64" "enabled e g" "hawk_step c e g = Inr g'"
  shows "pending_bytes g' t =
    persist_step (check_unpersisted_stores g) (\<lambda>a sz. IsPMAddress a sz (pm g)) t e (pending_bytes g t)"
  by (rule hawk_step_bytes [OF assms])

theorem persistency_machine_implemented_witness:
  "\<exists>g0 g1. reachable demo_config (init_hawk 0 50 False) g0 \<and>
     hawk_step demo_config (EvWrite 0 0x1000 0x10000 2 STORE) g0 = Inr g1 \<and> 0x10000 \<in> fst (pending_bytes g1 0)"
proof -
  obtain g0 g1 where g0: "hawk_run demo_config demo_locked (init_hawk 0 50 False) = Inr g0" "used (get_thread_data g0 0)"
      "\<forall>t. used (get_thread_data g0 t) \<longrightarrow> t < 2" "IsPMAddress 0x10000 2 (pm g0)"
      "hawk_step demo_config (EvWrite 0 0x1000 0x10000 2 STORE) g0 = Inr g1"
    using demo_steps by blast
  have r: "reachable demo_config (init_hawk 0 50 False) g0" by (rule hawk_run_reachable [OF g0(1) reachable_init])
  have en: "enabled (EvWrite 0 0x1000 0x10000 2 STORE) g0" using g0(2) by (simp add: enabled_def started_def)
  obtain D F where s: "pending_bytes g0 0 = (D, F)" by fastforce
  have b: "(0x10000 :: u64) \<in> set (byte_range 0x10000 2)" by (simp add: byte_range_def upt_eval)
  from persistency_machine_implemented [OF r few_threads [OF g0(3)] en g0(5), of 0] g0(4) b
  have "0x10000 \<in> fst (pending_bytes g1 0)" by (simp add: s)
  with r g0(5) show ?thesis by blast
qed

text \<open>
  C38. What \<^verbatim>\<open>flush\<close> of the example programs covers: every byte of the range lies in a flushed line
  exactly when the offset of the first byte in its line and that of the last byte from the start,
  modulo the line size, do not add up to a line. The loop counts lines from the address
  and not from the start of its line: the last line of an unaligned range can be missed.
\<close>
theorem flush_covers_range:
  assumes "0 < sz" "unat addr + nat sz \<le> 2 ^ 64"
  shows "(\<forall>i < nat sz. \<exists>a \<in> set (flush_lines addr sz). CACHE_LINE a = CACHE_LINE (addr + of_nat i)) \<longleftrightarrow>
    unat addr mod 64 + (nat sz - 1) mod 64 < 64"
  by (rule flush_covers [OF assms])

theorem flush_covers_range_witness:
  "(\<exists>a \<in> set (flush_lines 0x10000 4). CACHE_LINE a = CACHE_LINE 0x10003) \<and>
   \<not> (\<exists>a \<in> set (flush_lines 0x1003e 4). CACHE_LINE a = CACHE_LINE 0x10041)"
proof
  have "\<forall>i < nat 4. \<exists>a \<in> set (flush_lines 0x10000 4). CACHE_LINE a = CACHE_LINE (0x10000 + of_nat i)"
    by (rule iffD2 [OF flush_covers_range]) simp_all
  from this [rule_format, of 3] show "\<exists>a \<in> set (flush_lines 0x10000 4). CACHE_LINE a = CACHE_LINE 0x10003" by simp
  show "\<not> (\<exists>a \<in> set (flush_lines 0x1003e 4). CACHE_LINE a = CACHE_LINE 0x10041)"
    by (simp add: flush_lines_alt CACHE_LINE_def)
qed

section \<open>Accepted sequences of callbacks\<close>

text \<open>
  C15. The tool gets through exactly the sequences of callbacks that a small machine accepts. The machine
  knows which threads have started, who holds the mutex of thread creation, its semaphore and the depths
  of the call stacks. From any reachable state, in a process of at most 64 threads and for
  callbacks other than mappings and image loads, whose sizes are those of one instruction, a run
  ends in a state, with no failed assertion and no undefined access on the way, if and only if the machine accepts it.
\<close>
theorem callbacks_accepted:
  assumes "reachable c (init_hawk n d u) g" and "\<forall>e \<in> set es. ordinary e" and "finite T" "card T \<le> 64"
    and "\<And>t. started g t \<Longrightarrow> t \<in> T" "\<And>e t. e \<in> set es \<Longrightarrow> thread_of e = Some t \<Longrightarrow> t \<in> T"
  shows "(\<exists>g'. hawk_run c es g = Inr g') \<longleftrightarrow> accepted es (sync_of g)"
  by (rule run_accepted [OF assms])

theorem callbacks_accepted_witness:
  "\<exists>k. hawk_run demo_config example_pool (init_hawk 0 50 True) = Inr k \<and>
     (\<exists>g. hawk_run demo_config [EvCreateCall 0, EvThreadStart 1, EvCreateReturn 0 0 7, EvCall 1 9,
        EvWrite 1 9 0x10000 8 STORE, EvRet 1, EvThreadExit 1, EvJoin 0 0 7] k = Inr g) \<and>
     \<not> (\<exists>g. hawk_run demo_config [EvCreateCall 0, EvCreateReturn 0 0 7] k = Inr g)"
proof -
  obtain k where k: "hawk_run demo_config example_pool (init_hawk 0 50 True) = Inr k"
      "\<forall>t. started k t \<longleftrightarrow> t = 0" "sync_of k = \<lparr>on = (\<lambda>t. t = 0), creating = None, signalled = False, depth = (\<lambda>_. 0)\<rparr>"
    using example_pool_sync by blast
  have T: "finite {0, 1 :: nat}" "card {0, 1 :: nat} \<le> 64" "started k t \<Longrightarrow> t \<in> {0, 1}" for t using k(2) by auto
  have run: "(\<exists>g. hawk_run demo_config es k = Inr g) \<longleftrightarrow> accepted es (sync_of k)"
    if "\<forall>e \<in> set es. ordinary e" "\<forall>e \<in> set es. thread_of e \<in> {Some 0, Some 1}" for es
  proof (rule callbacks_accepted [OF hawk_run_reachable [OF k(1) reachable_init] that(1) T])
    fix e t assume "e \<in> set es" "thread_of e = Some t"
    with that(2) have "Some t \<in> {Some 0, Some (1 :: nat)}" by metis
    then show "t \<in> {0, 1}" by simp
  qed
  show ?thesis
    by (rule exI [of _ k], intro conjI k(1); subst run) (simp_all add: k(3) TLS_MAX_SIZE_def)
qed

section \<open>\<^verbatim>\<open>bug_fiesta.c\<close>\<close>

text \<open>
  C8. The search tree of \<^verbatim>\<open>bug_fiesta.c\<close> implements a finite map. On a well-formed tree with room in the pool
  \<^verbatim>\<open>put\<close> returns, keeps the tree well-formed (ordered by \<^verbatim>\<open>strcmp\<close>, with disjoint blocks inside
  what is allocated) and updates the map; \<^verbatim>\<open>get\<close> returns the value of a key, or \<^verbatim>\<open>DEAULT_VALUE\<close>, and
  changes nothing.
\<close>
theorem put_is_update:
  assumes "tree_inv E (mem s) t" "room E k (mem s)"
  shows "\<exists>n s' t'. put E tid k v s = Some (n, s') \<and> tree_inv E (mem s') t' \<and>
    contents (mem s') t' = (contents (mem s) t)(k \<mapsto> v) \<and>
    (\<forall>r j. \<exists>s''. get_value E r j s' = Some (if j = k then v else case contents (mem s) t j of None \<Rightarrow> DEAULT_VALUE | Some w \<Rightarrow> w, s'') \<and>
       mem s'' = mem s')"
proof -
  obtain n s' where put: "put E tid k v s = Some (n, s')" "tree_inv E (mem s') (tree_after E k (mem s) t)"
    "contents (mem s') (tree_after E k (mem s) t) = (contents (mem s) t)(k \<mapsto> v)"
    by (rule put_updates [OF assms])
  have "\<exists>s''. get_value E r j s' = Some (if j = k then v else case contents (mem s) t j of None \<Rightarrow> DEAULT_VALUE | Some w \<Rightarrow> w, s'') \<and>
      mem s'' = mem s'" for r j
    by (rule get_finds [OF put(2), of r j]) (use put(3) in auto)
  with put show ?thesis by blast
qed

theorem put_is_update_witness:
  "\<exists>n s' s''. put example_fiesta 1 ''k'' 5 after_set_up = Some (n, s') \<and>
     get_value example_fiesta 2 ''k'' s' = Some (5, s'')"
proof -
  have inv: "tree_inv example_fiesta (mem after_set_up) \<langle>\<rangle>" "room example_fiesta ''k'' (mem after_set_up)"
    using set_up_inv [OF set_up_eval(1)] by (simp_all add: empty_memory_def room_def)
  from put_is_update [OF inv, of 1 5] obtain n s' where put: "put example_fiesta 1 ''k'' 5 after_set_up = Some (n, s')"
    "\<forall>r j. \<exists>s''. get_value example_fiesta r j s' =
      Some (if j = ''k'' then 5 else case contents (mem after_set_up) \<langle>\<rangle> j of None \<Rightarrow> DEAULT_VALUE | Some w \<Rightarrow> w, s'') \<and> mem s'' = mem s'"
    by blast
  from put(2) [rule_format, of 2 "''k''"] put(1) show ?thesis by auto
qed

text \<open>
  C10. \<^verbatim>\<open>put_persist\<close> of a new key persists the parent of the new node instead of the node: the line of the node that
  \<^verbatim>\<open>put\<close> returns is clean when it returns and nothing is flushed but unfenced, while every
  byte of the new node's value outside that line is still dirty.
\<close>
theorem put_persist_leaves_value:
  assumes "fiesta_library p E" "tree_inv E (mem s) t" "room E k (mem s)" "contents (mem s) t k = None"
    and "put_persist E tid k v s = Some s'" "p (next_free E (mem s) + 24) 4"
  shows "\<exists>n es D. put_result E (place_of (key_text (mem s)) k t) (mem s) = n \<and> trace s' = trace s @ es \<and>
    fold (persist_step u p tid) es ({}, {}) = (D, {}) \<and> (p n 0 \<longrightarrow> D \<inter> line_of n = {}) \<and>
    set (byte_range (next_free E (mem s) + 24) 4) - line_of n \<subseteq> D"
proof -
  from put_persist_parent [OF assms(1-3,5), of u "({}, {})"] obtain n es where
    n: "put_result E (place_of (key_text (mem s)) k t) (mem s) = n" "trace s' = trace s @ es"
      "p n 0 \<longrightarrow> (\<forall>b \<in> line_of n. b \<notin> fst (fold (persist_step u p tid) es ({}, {})))"
      "snd (fold (persist_step u p tid) es ({}, {})) = {}"
      "\<forall>b \<in> set (byte_range (next_free E (mem s) + 24) 4). p (next_free E (mem s) + 24) 4 \<and> b \<notin> line_of n \<longrightarrow>
         b \<in> fst (fold (persist_step u p tid) es ({}, {}))"
    using assms(4) by blast
  then show ?thesis
    using assms(6) by (intro exI [of _ n] exI [of _ es] exI [of _ "fst (fold (persist_step u p tid) es ({}, {}))"]) (auto simp: prod_eq_iff)
qed

theorem put_persist_leaves_value_witness:
  "\<exists>s es D. put_persist example_fiesta 1 ''122'' 122 after_first_put = Some s \<and> trace s = trace after_first_put @ es \<and>
     fold (persist_step True (\<lambda>_ _. True) 1) es ({}, {}) = (D, {}) \<and> 0x10048 \<notin> D \<and> 0x10084 \<in> D"
proof -
  note first = after_first_put_eval
  have lib: "fiesta_library (\<lambda>_ _. True) example_fiesta"
    by (simp add: fiesta_library_def example_fiesta_def no_library_def library_ok_def)
  obtain s where s: "put_persist example_fiesta 1 ''122'' 122 after_first_put = Some s" using first(4) by blast
  note found = put_persist_leaves_value [OF lib first(1-3) s, of True, unfolded first(5,6)]
  from found obtain es D where
    D: "trace s = trace after_first_put @ es" "fold (persist_step True (\<lambda>_ _. True) 1) es ({}, {}) = (D, {})"
      "D \<inter> line_of 0x10048 = {}" "set (byte_range (0x1006C + 24) 4) - line_of 0x10048 \<subseteq> D"
    by blast
  have "0x10048 \<in> line_of 0x10048" "0x10084 \<in> set (byte_range (0x1006C + 24) 4) - line_of 0x10048"
    using first_byte [of 4 "0x1006C + 24"] by (simp_all add: line_of_def CACHE_LINE_def)
  with D(3,4) have "0x10048 \<notin> D" "0x10084 \<in> D" by blast+
  with s D(1,2) show ?thesis by (intro exI conjI)
qed

text \<open>
  C9. Both threads of \<^verbatim>\<open>bug_fiesta.c\<close> end. \<^verbatim>\<open>put_thread\<close> leaves a tree that maps the texts of its five numbers to the numbers;
  \<^verbatim>\<open>get_thread\<close>, whose \<open>i\<close>-th call of \<^verbatim>\<open>get\<close> finds memory as it is after the first \<open>js i\<close> calls of \<^verbatim>\<open>put\<close>,
  prints for its seven numbers the number, if one of these calls inserted it, and -1 otherwise.
\<close>
theorem bug_fiesta_threads_end:
  assumes "set_up (E\<lparr>memory := addr\<rparr>) m = (E1, s1)" "unat addr + unat (cur m) + 252 < 2 ^ 64"
  shows "\<exists>puts t out gets. put_thread E1 1 (s1\<lparr>trace := []\<rparr>) = Some puts \<and>
    tree_inv E1 (mem puts) t \<and> contents (mem puts) t = number_map put_numbers Map.empty \<and>
    get_thread E1 2 (\<lambda>i. case put_all E1 1 (take (js i) put_numbers) s1 of Some s \<Rightarrow> tree_memory.truncate s | None \<Rightarrow> m)
      (s1\<lparr>trace := []\<rparr>) = Some (out, gets) \<and> length out = 7 \<and>
    (\<forall>i < 7. out ! i = (if get_numbers ! i \<in> set (take (js i) put_numbers) then of_nat (get_numbers ! i) else -1))"
proof -
  obtain puts t gets where puts: "put_thread E1 1 (s1\<lparr>trace := []\<rparr>) = Some puts"
      "tree_inv E1 (mem puts) t" "contents (mem puts) t = number_map put_numbers Map.empty"
    and gets: "get_thread E1 2 (\<lambda>i. case put_all E1 1 (take (js i) put_numbers) s1 of Some s \<Rightarrow> tree_memory.truncate s | None \<Rightarrow> m)
        (s1\<lparr>trace := []\<rparr>) = Some (printed (\<lambda>i. number_map (take (js i) put_numbers) Map.empty) 0 get_numbers, gets)"
    using fiesta_threads_end [OF assms] by blast
  have "length get_numbers = 7" by (simp add: get_numbers_def)
  then have "length (printed f 0 get_numbers) = 7 \<and> (\<forall>i < 7. printed f 0 get_numbers ! i = found_in (f i) (get_numbers ! i))" for f
    by (simp add: printed_nth)
  with puts gets show ?thesis
    by (intro exI [of _ puts] exI [of _ t] exI [of _ "printed (\<lambda>i. number_map (take (js i) put_numbers) Map.empty) 0 get_numbers"]
        exI [of _ gets]) (simp add: found_in_def number_map_eval DEAULT_VALUE_def)
qed

theorem bug_fiesta_threads_end_witness:
  "\<exists>puts t. put_thread example_fiesta 1 (after_set_up\<lparr>trace := []\<rparr>) = Some puts \<and> contents (mem puts) t ''125'' = Some 125"
proof -
  have fits: "unat (0x10000 :: u64) + unat (cur empty_memory) + 252 < 2 ^ 64" by (simp add: empty_memory_def)
  have key: "''125'' = nat_text 125" "125 \<in> set put_numbers" by (code_simp, simp add: put_numbers_def)
  from bug_fiesta_threads_end [OF set_up_eval(1) fits, of "\<lambda>_. 5"] obtain puts t where
    "put_thread example_fiesta 1 (after_set_up\<lparr>trace := []\<rparr>) = Some puts" "contents (mem puts) t = number_map put_numbers Map.empty"
    by blast
  with key(2) show ?thesis unfolding key(1) by (intro exI [of _ puts] exI [of _ t]) (simp add: number_map_eval)
qed

text \<open>
  C7. The tool finds the race of \<^verbatim>\<open>bug_fiesta.c\<close> on the root of its tree in every schedule, though both threads hold the lock: with the
  search for lost writes on and the initialization heuristic off (\<open>init_hawk 0 d True\<close>), the write of the root by the first insertion (line 153, called in
  line 199), which is never persisted, is reported against the first load of the root by the
  other thread (line 166, called in line 189), whatever library code does that flushes nothing
  outside the pool's metadata and does not write the root.
\<close>
theorem bug_fiesta_reported:
  assumes "es \<in> bug_fiesta_runs pool env E m pid joined"
    and "hawk_run c es (init_hawk 0 d True) = Inr g" and "length es \<le> 2 ^ 16"
    and "pool_run pool" "hawk_run c pool (init_hawk 0 d True) = Inr k" "\<not> found_alloc (pm k)"
    and "open_pmem_pool env = Inr (addr, sz)" "unat addr + unat (cur m) + 252 < 2 ^ 64"
    and "fiesta_library (\<lambda>a sz. IsPMAddress a sz (pm k)) (mapped_env E addr m)"
    and "IsPMAddress (addr + 64 + cur m) 8 (pm k)"
  shows "\<exists>wt lb. reported (CheckPMRaces g) False (wt, None, False) lb \<and> trace_is (bt_heap g) wt [pcs E 153, pcs E 199] \<and>
    trace_is (bt_heap g) lb [pcs E 166, pcs E 189]"
  by (rule bug_fiesta_found [OF assms])

theorem bug_fiesta_reported_witness:
  "\<exists>es g wt lb. es \<in> bug_fiesta_runs example_pool example_env example_fiesta empty_memory of_nat (\<lambda>_. 0) \<and>
     hawk_run demo_config es (init_hawk 0 50 True) = Inr g \<and> reported (CheckPMRaces g) False (wt, None, False) lb \<and>
     trace_is (bt_heap g) wt [153, 199] \<and> trace_is (bt_heap g) lb [166, 189]"
proof -
  obtain es g k where ex: "es \<in> bug_fiesta_runs example_pool example_env example_fiesta empty_memory of_nat (\<lambda>_. 0)"
      "hawk_run demo_config es (init_hawk 0 50 True) = Inr g" "length es \<le> 2 ^ 16"
      "hawk_run demo_config example_pool (init_hawk 0 50 True) = Inr k" "\<not> found_alloc (pm k)" "IsPMAddress 0x10040 8 (pm k)"
      "fiesta_library (\<lambda>a sz. IsPMAddress a sz (pm k)) (mapped_env example_fiesta 0x10000 empty_memory)"
    using bug_fiesta_example_run by blast
  have fits: "unat (0x10000 :: u64) + unat (cur empty_memory) + 252 < 2 ^ 64" by (simp add: empty_memory_def)
  have root: "IsPMAddress (0x10000 + 64 + cur empty_memory) 8 (pm k)" using ex(6) by (simp add: empty_memory_def)
  from bug_fiesta_reported [OF ex(1-3) example_pool_run(1) ex(4,5) example_env_pool(1) fits ex(7) root] ex(1,2)
  show ?thesis by (auto simp: fields)
qed

section \<open>The analysis\<close>

text \<open>
  C12. The race check is exact with respect to the recorded accesses. After any run of up to
  2^62 callbacks, a load backtrace is reported for a store backtrace pair, among the
  persisted or the unpersisted stores, exactly when there are a recorded store and a recorded
  load of two different threads with these backtraces such that the load touches the byte of
  the store, neither access happens before the other along program order, thread creation
  and joining, and some lockset of the load shares no lock with the effective lockset of the
  store.
\<close>
theorem races_reported_exactly:
  assumes run: "hawk_run c es (init_hawk n d u) = Inr g" and len: "length es \<le> 2 ^ 62"
  shows "reported (CheckPMRaces g) ps (wt, ft, fl) lb \<longleftrightarrow>
    (\<exists>st s lt l. recorded_store g st s \<and> recorded_load g lt l \<and> st \<noteq> lt \<and> touches (fst l) (sfd_address s) \<and>
       ((lt, unat (key_clock_i (fst l))), (st, unat (sfd_clock_i s))) \<notin> run_happens_before c es (init_hawk n d u) \<and>
       ((st, unat (sfd_clock_i s)), (lt, unat (key_clock_i (fst l)))) \<notin> run_happens_before c es (init_hawk n d u) \<and>
       (\<exists>p \<in> set (snd l). members (lockset_at (ls_heap g) p) \<inter> members (lockset_at (ls_heap g) (common_set s)) = {}) \<and>
       ps = persisted s \<and> wt = write_trace s \<and> ft = fence_trace s \<and> fl = was_flushed s \<and> lb = key_backtrace (fst l))"
  unfolding CheckPMRaces_reported [OF hawk_run_init(3) [OF run]] prod.inject
  using race_iff_unordered [OF run len] by blast

theorem races_reported_exactly_witness:
  "\<exists>g. hawk_run demo_config demo_events (init_hawk 0 50 False) = Inr g \<and>
     reported (CheckPMRaces g) True (Some 0, Some 1, True) (Some 2)"
proof -
  obtain g where run: "hawk_run demo_config demo_events (init_hawk 0 50 False) = Inr g"
    and used: "used (get_thread_data g 0)" "used (get_thread_data g 1)"
    and stores: "race_likely_stores (get_thread_data g 0) =
       [\<lparr>common_set = 0, sfd_clock_i = 1, write_trace = Some 0, fence_trace = Some 1,
         sfd_address = 0x10000, persisted = True, was_flushed = True\<rparr>,
        \<lparr>common_set = 0, sfd_clock_i = 1, write_trace = Some 0, fence_trace = Some 1,
         sfd_address = 0x10001, persisted = True, was_flushed = True\<rparr>]"
    and loads: "race_likely_loads (get_thread_data g 1) =
       [(\<lparr>key_address = 0x10000, key_backtrace = Some 2, key_clock_i = 0, key_mask = 3\<rparr>, [1])]"
    and heap: "ls_objects (ls_heap g) = [new_Lockset, \<lparr>locks = [1]\<rparr>]"
    using demo_run by blast
  let ?s = "\<lparr>common_set = 0, sfd_clock_i = 1, write_trace = Some 0, fence_trace = Some 1,
         sfd_address = 0x10000, persisted = True, was_flushed = True\<rparr>"
  let ?l = "(\<lparr>key_address = 0x10000, key_backtrace = Some 2, key_clock_i = 0, key_mask = 3\<rparr>, [1])"
  show ?thesis
  proof (intro exI [of _ g] conjI run)
    have "recorded_store g 0 ?s" "recorded_load g 1 ?l"
      using used by (simp_all add: recorded_store_def recorded_load_def stores loads [unfolded One_nat_def] TLS_MAX_SIZE_def)
    moreover have "touches (fst ?l) (sfd_address ?s)"
      by (auto simp: touches_def intro!: exI [of _ 0])
    moreover have "members (lockset_at (ls_heap g) 1) \<inter> members (lockset_at (ls_heap g) 0) = {}"
      by (simp add: lockset_at_def heap members_new)
    ultimately show "reported (CheckPMRaces g) True (Some 0, Some 1, True) (Some 2)"
      using demo_unordered by (intro iffD2 [OF races_reported_exactly [OF run es_length]] exI [of _ 0] exI [of _ ?s]
          exI [of _ 1] exI [of _ ?l]) simp
  qed
qed

text \<open>
  C13. The vector clocks of a run decide happens-before: the clock of an epoch is below the
  clock of another exactly when there is a path of program order, creation and join edges
  between the epochs, so the test \<^verbatim>\<open>is_concurrent\<close> of the analysis is true exactly for
  unordered epochs.
\<close>
theorem clocks_decide_happens_before:
  assumes run: "hawk_run c es (init_hawk n d u) = Inr g" and len: "length es \<le> 2 ^ 62"
    and i: "i < length (vector_clocks (get_thread_data g t))"
    and j: "j < length (vector_clocks (get_thread_data g v))"
  shows "(vc_le (vector_clocks (get_thread_data g t) ! i) (vector_clocks (get_thread_data g v) ! j) \<longleftrightarrow>
      ((t, i), (v, j)) \<in> run_happens_before c es (init_hawk n d u)) \<and>
    (is_concurrent (vector_clocks (get_thread_data g t) ! i) (vector_clocks (get_thread_data g v) ! j) \<longleftrightarrow>
      ((t, i), (v, j)) \<notin> run_happens_before c es (init_hawk n d u) \<and>
      ((v, j), (t, i)) \<notin> run_happens_before c es (init_hawk n d u))"
  using run_clock_le(1) [OF run len i j] run_clock_le(1) [OF run len j i]
    is_concurrent_iff [OF run_clock_le(2) [OF run len i j] run_clock_le(2) [OF run len j i]] by simp

theorem clocks_decide_happens_before_witness:
  "((0, 0), (1, 0)) \<in> run_happens_before demo_config demo_events (init_hawk 0 50 False)"
proof -
  obtain g where run: "hawk_run demo_config demo_events (init_hawk 0 50 False) = Inr g"
    and clocks: "vector_clocks (get_thread_data g 0) = [\<lparr>clock = [(0, 2)]\<rparr>, \<lparr>clock = [(0, 4)]\<rparr>]"
      "vector_clocks (get_thread_data g 1) = [\<lparr>clock = [(0, 3), (1, 2)]\<rparr>]"
    using demo_run by blast
  note clocks = clocks(1) clocks(2) [unfolded One_nat_def]
  have len: "length demo_events \<le> 2 ^ 62" by (simp add: demo_events_def demo_setup_def)
  have "vc_le \<lparr>clock = [(0, 2)]\<rparr> \<lparr>clock = [(0, 3), (Suc 0, 2)]\<rparr>" by (auto simp: vc_le_def vc_at_def)
  with clocks_decide_happens_before [OF run len, of 0 0 0 1] show ?thesis by (simp add: clocks)
qed

text \<open>
  C23. The whole tool prints its report: whatever the options and the configuration, a run of
  the callbacks that succeeds is followed by a report that prints every entry of the two
  result maps and never dereferences a null or stale backtrace, the null fence backtrace of
  a store ignored at thread exit included.
\<close>
theorem report_is_printed:
  assumes "HandleKnobs load k = Inr (c, g0)" "hawk_run c events g0 = Inr g"
  shows "hawk_main load symbols k events =
    Inr (concat (map (entry_text symbols (bt_heap g) True) (fst (CheckPMRaces g))) @
         concat (map (entry_text symbols (bt_heap g) False) (snd (CheckPMRaces g))))"
  by (rule hawk_main_text [OF assms])

theorem report_is_printed_witness:
  "\<exists>text. hawk_main (\<lambda>_. None) (\<lambda>_. None) (default_knobs\<lparr>KnobPMMount := ''/mnt'', KnobInitRemoval := 0\<rparr>) demo_events = Inr text"
proof -
  have k: "HandleKnobs (\<lambda>_. None) (default_knobs\<lparr>KnobPMMount := ''/mnt'', KnobInitRemoval := 0\<rparr>) =
      Inr (demo_config, init_hawk 0 50 False)"
    by (simp add: HandleKnobs_def default_knobs_def demo_config_def)
  obtain g where "hawk_run demo_config demo_events (init_hawk 0 50 False) = Inr g" using demo_run by blast
  from report_is_printed [OF k this] show ?thesis by blast
qed

section \<open>Stores, flushes, fences and loads\<close>

text \<open>
  C14. The effective lockset. A byte written by a thread and still pending at the fence that
  makes it persistent is recorded with exactly the locks the thread held at the write and has
  neither acquired nor released since, whatever else the run does in between; the record
  carries the backtraces of the write and of the fence, and there is one when the initialization
  heuristic lets the access through. (Fewer than 2^32 acquisitions, at most 64 threads.)
\<close>
theorem effective_lockset:
  assumes run0: "hawk_run c es0 (init_hawk n d u) = Inr g0" and t: "started g0 tid"
    and sz: "sz \<le> 64" and pm: "IsPMAddress a sz (pm g0)" and b: "b \<in> set (byte_range a sz)"
    and store: "hawk_step c (EvWrite tid ctxt a sz STORE) g0 = Inr g1"
    and run: "hawk_run c es g1 = Inr g2" and few: "card {t. started g2 t} \<le> 64"
    and pending: "mem_at (flushed_mem_state (get_thread_data g2 tid)) b = mem_at (mem_state (get_thread_data g1 tid)) b"
    and wrap: "acquisitions (thread_lock_ops c es0 (init_hawk n d u) tid) + acquisitions (thread_lock_ops c es g1 tid) < 2 ^ 32"
  shows "\<exists>g3 new. hawk_step c (EvFence tid ctxt') g2 = Inr g3 \<and>
    race_likely_stores (get_thread_data g3 tid) = race_likely_stores (get_thread_data g2 tid) @ new \<and>
    (\<forall>s \<in> set new. sfd_address s = b \<longrightarrow> persisted s \<and>
       trace_is (bt_heap g3) (write_trace s) (call_trace g0 tid ctxt) \<and>
       trace_is (bt_heap g3) (fence_trace s) (call_trace g2 tid ctxt') \<and>
       members (lockset_at (ls_heap g3) (common_set s)) =
         held (current_timedlockset (get_thread_data g0 tid)) - touched (thread_lock_ops c es g1 tid)) \<and>
    (let_through g2 tid b \<longrightarrow> (\<exists>s \<in> set new. sfd_address s = b))"
  using fence_after_write [OF assms, of ctxt'] by (elim exE conjE) (intro exI conjI, assumption+, blast, assumption)

theorem effective_lockset_witness:
  "\<exists>g0 g1 g2 g3 s. hawk_run demo_config demo_locked (init_hawk 0 50 False) = Inr g0 \<and>
     hawk_step demo_config (EvWrite 0 0x1000 0x10000 2 STORE) g0 = Inr g1 \<and>
     hawk_run demo_config [EvUnlock 0 0x500, EvFlush 0 0x10000 CLWB] g1 = Inr g2 \<and>
     hawk_step demo_config (EvFence 0 0x1010) g2 = Inr g3 \<and>
     s \<in> set (race_likely_stores (get_thread_data g3 0)) \<and> sfd_address s = 0x10000 \<and>
     held (current_timedlockset (get_thread_data g0 0)) = {0} \<and>
     members (lockset_at (ls_heap g3) (common_set s)) = {}"
proof -
  obtain g0 g1 g2 where g0: "hawk_run demo_config demo_locked (init_hawk 0 50 False) = Inr g0"
      "used (get_thread_data g0 0)" "IsPMAddress 0x10000 2 (pm g0)"
      "held (current_timedlockset (get_thread_data g0 0)) = {0}"
      "acquisitions (thread_lock_ops demo_config demo_locked (init_hawk 0 50 False) 0) = 1"
    and g1: "hawk_step demo_config (EvWrite 0 0x1000 0x10000 2 STORE) g0 = Inr g1"
    and g2: "hawk_run demo_config [EvUnlock 0 0x500, EvFlush 0 0x10000 CLWB] g1 = Inr g2"
      "mem_at (flushed_mem_state (get_thread_data g2 0)) 0x10000 = mem_at (mem_state (get_thread_data g1 0)) 0x10000"
      "\<forall>t. used (get_thread_data g2 t) \<longrightarrow> t < 2"
      "thread_lock_ops demo_config [EvUnlock 0 0x500, EvFlush 0 0x10000 CLWB] g1 0 = [Release 0]"
    using demo_steps by (elim exE conjE) (rule that; assumption)
  have h: "started g0 0" "(2 :: u32) \<le> 64" "(0x10000 :: u64) \<in> set (byte_range 0x10000 2)"
    using g0(2) by (simp_all add: started_def byte_range_def upt_eval)
  have w: "acquisitions (thread_lock_ops demo_config demo_locked (init_hawk 0 50 False) 0) +
      acquisitions (thread_lock_ops demo_config [EvUnlock 0 0x500, EvFlush 0 0x10000 CLWB] g1 0) < 2 ^ 32"
    unfolding g0(5) g2(4) by (simp add: acquisitions_def)
  from effective_lockset [OF g0(1) h(1,2) g0(3) h(3) g1 g2(1) few_threads [OF g2(3)] g2(2) w, of "0x1010"]
  obtain g3 new where g3: "hawk_step demo_config (EvFence 0 0x1010) g2 = Inr g3"
      "race_likely_stores (get_thread_data g3 0) = race_likely_stores (get_thread_data g2 0) @ new"
    and new: "\<forall>s \<in> set new. sfd_address s = 0x10000 \<longrightarrow> members (lockset_at (ls_heap g3) (common_set s)) = {0} - touched [Release 0]"
      "let_through g2 0 0x10000 \<longrightarrow> (\<exists>s \<in> set new. sfd_address s = 0x10000)"
    unfolding g0(4) g2(4) by auto
  have "enabled (EvWrite 0 0x1000 0x10000 2 STORE) g0" using h(1) by (simp add: enabled_def)
  from reachable_step [OF hawk_run_reachable [OF g0(1) reachable_init] this g1]
  have through: "let_through g2 0 0x10000" by (intro let_through_off [OF hawk_run_reachable [OF g2(1)]])
  from new(2) through obtain s where "s \<in> set new" "sfd_address s = 0x10000" by blast
  moreover from this new(1) have "members (lockset_at (ls_heap g3) (common_set s)) = {}" by (auto simp: touched_def)
  moreover have "s \<in> set (race_likely_stores (get_thread_data g3 0))" using g3(2) \<open>s \<in> set new\<close> by simp
  ultimately show ?thesis using g0(1,4) g1 g2(1) g3(1) by blast
qed

text \<open>
  C16. The well-formedness of the state is an invariant of the tool: in every reachable state
  every stored pointer is valid, a cached timed lockset is the thread's current one, recorded
  clock indices are in range, persisted stores have a fence backtrace, cache lines hold only
  their own addresses, and the interning tables hold no value twice.
\<close>
theorem state_invariant:
  assumes "reachable c (init_hawk n d u) g"
  shows "hawk_inv g"
  by (rule reachable_hawk_inv [OF assms])

theorem state_invariant_witness:
  "\<exists>g. hawk_run demo_config demo_events (init_hawk 0 50 False) = Inr g \<and> hawk_inv g"
proof -
  obtain g where g: "hawk_run demo_config demo_events (init_hawk 0 50 False) = Inr g" using demo_run by blast
  from state_invariant [OF hawk_run_reachable [OF g reachable_init]] g show ?thesis by blast
qed


text \<open>
  C18. A store: in a well-formed state a write of at most 64 bytes of persistent memory makes
  exactly the bytes of its range dirty with the thread's locks and call trace, and leaves
  every other byte alone. With the option for unpersisted writes, the earlier writes of these
  bytes, dirty or flushed, are taken out of both maps and those the heuristic lets through are
  recorded as unpersisted with the new write as the ignoring one; without it, nothing is
  recorded.
\<close>
theorem store_marks_bytes_dirty:
  assumes "hawk_inv g" "started g tid" "irh_ready (use_init_removal_heuristic_n g) hist tid (irh g)"
    and "sz \<le> 64" "unat a + unat sz < 2 ^ 64" "IsPMAddress a sz (pm g)"
  shows "\<exists>g' data new. hawk_step c (EvWrite tid ctxt a sz STORE) g = Inr g' \<and> hawk_inv g' \<and>
    timedlockset_at (tls_heap g') (timed_lockset data) = current_timedlockset (get_thread_data g tid) \<and>
    trace_is (bt_heap g') (sd_backtrace data) (ctxt # rev (stack (get_thread_data g tid))) \<and>
    (\<forall>b. mem_at (mem_state (get_thread_data g' tid)) b =
       (if unat a \<le> unat b \<and> unat b < unat a + unat sz then Some data
        else mem_at (mem_state (get_thread_data g tid)) b)) \<and>
    (\<forall>b. mem_at (flushed_mem_state (get_thread_data g' tid)) b =
       (if check_unpersisted_stores g \<and> unat a \<le> unat b \<and> unat b < unat a + unat sz then None
        else mem_at (flushed_mem_state (get_thread_data g tid)) b)) \<and>
    race_likely_stores (get_thread_data g' tid) = race_likely_stores (get_thread_data g tid) @ new \<and>
    (if check_unpersisted_stores g
     then list_all2 (overwrite_record g' tid (current_timedlockset (get_thread_data g tid)) (sd_backtrace data))
       (filter (\<lambda>w. decides (use_init_removal_heuristic_n g) hist tid (fst (fst w)))
         (concat (map (overwritten (get_thread_data g tid)) (byte_range a sz)))) new
     else new = [])"
proof -
  have st: "hawk_step c (EvWrite tid ctxt a sz STORE) g = ProcessStore tid a sz ctxt g"
    using assms(6) by (simp add: TraceWrite_def)
  have range: "b \<in> set (byte_range a sz) \<longleftrightarrow> unat a \<le> unat b \<and> unat b < unat a + unat sz" for b
    by (rule mem_byte_range [OF assms(5)])
  show ?thesis
    using ProcessStore_spec [OF assms(1) ready [OF assms(1,2)] assms(3,4), of a ctxt]
    unfolding st range call_trace_def
    by (elim exE conjE) (intro exI conjI, assumption, simp add: keeps_def, assumption+, simp split: if_splits)
qed

theorem store_marks_bytes_dirty_witness:
  "\<exists>g g' data. hawk_run demo_config demo_pending (init_hawk 0 50 True) = Inr g \<and>
     hawk_step demo_config (EvWrite 0 0x1020 0x10000 2 STORE) g = Inr g' \<and>
     mem_at (mem_state (get_thread_data g' 0)) 0x10001 = Some data \<and>
     mem_at (flushed_mem_state (get_thread_data g' 0)) 0x10000 = None"
proof -
  obtain g where g: "hawk_run demo_config demo_pending (init_hawk 0 50 True) = Inr g" "hawk_inv g" "started g 0"
    "irh_ready (use_init_removal_heuristic_n g) [] 0 (irh g)" "IsPMAddress 0x10000 2 (pm g)" "check_unpersisted_stores g"
    by (rule demo_state)
  have sz: "(2 :: u32) \<le> 64" "unat (0x10000 :: u64) + unat (2 :: u32) < 2 ^ 64" by simp_all
  show ?thesis
    using store_marks_bytes_dirty [OF g(2-4) sz g(5), of demo_config "0x1020"]
    by (elim exE conjE) (intro exI conjI, rule g(1), assumption, simp, simp add: g(6))
qed

text \<open>
  C19. A flush of persistent memory moves one cache line: the dirty bytes of the line of its
  address become flushed, replacing older flushed writes of the same bytes, and no other
  byte, no record and no other thread changes.
\<close>
theorem flush_moves_one_line:
  assumes "hawk_inv g" "IsPMAddress a 0 (pm g)" and "hawk_step c (EvFlush tid a type) g = Inr g'"
  shows "(\<forall>b. mem_at (mem_state (get_thread_data g' tid)) b =
       (if CACHE_LINE b = CACHE_LINE a then None else mem_at (mem_state (get_thread_data g tid)) b)) \<and>
    (\<forall>b. mem_at (flushed_mem_state (get_thread_data g' tid)) b =
       (if CACHE_LINE b = CACHE_LINE a \<and> mem_at (mem_state (get_thread_data g tid)) b \<noteq> None
        then mem_at (mem_state (get_thread_data g tid)) b else mem_at (flushed_mem_state (get_thread_data g tid)) b)) \<and>
    race_likely_stores (get_thread_data g' tid) = race_likely_stores (get_thread_data g tid) \<and>
    (\<forall>t. t \<noteq> tid \<longrightarrow> get_thread_data g' t = get_thread_data g t)"
proof -
  have g': "g' = ProcessFlush tid type a g" using assms(2,3) by (simp add: TraceFlush_def)
  show ?thesis
    using ProcessFlush_view [OF assms(1), of "get_thread_data g' tid" tid type a] g'
    by (auto simp: ProcessFlush_def Let_def)
qed

theorem flush_moves_one_line_witness:
  "\<exists>g g'. hawk_run demo_config demo_pending (init_hawk 0 50 True) = Inr g \<and>
     hawk_step demo_config (EvFlush 0 0x10000 CLWB) g = Inr g' \<and>
     mem_at (mem_state (get_thread_data g' 0)) 0x10001 = None"
proof -
  obtain g where g: "hawk_run demo_config demo_pending (init_hawk 0 50 True) = Inr g" "hawk_inv g" "IsPMAddress 0x10000 0 (pm g)"
    by (rule demo_state)
  obtain g' where g': "hawk_step demo_config (EvFlush 0 0x10000 CLWB) g = Inr g'" by simp
  from flush_moves_one_line [OF g(2,3) g'] have "mem_at (mem_state (get_thread_data g' 0)) 0x10001 = None"
    by (simp add: CACHE_LINE_def)
  with g(1) g' show ?thesis by blast
qed

text \<open>
  C20. A fence records every flushed write of its thread that the heuristic lets through, once
  and in order, as persisted, with the fence's call trace, the thread's current clock index
  and the locks the thread holds now and has held since the same acquisition at the write;
  it empties the flushed map, leaves the dirty bytes alone and touches no other thread.
\<close>
theorem fence_records_flushed_writes:
  assumes "hawk_inv g" "started g tid" "irh_ready (use_init_removal_heuristic_n g) hist tid (irh g)"
  shows "\<exists>g' new. hawk_step c (EvFence tid ctxt) g = Inr g' \<and> hawk_inv g' \<and>
    flushed_mem_state (get_thread_data g' tid) = [] \<and>
    mem_state (get_thread_data g' tid) = mem_state (get_thread_data g tid) \<and>
    (\<forall>t. t \<noteq> tid \<longrightarrow> get_thread_data g' t = get_thread_data g t) \<and>
    race_likely_stores (get_thread_data g' tid) = race_likely_stores (get_thread_data g tid) @ new \<and>
    list_all2 (\<lambda>w s. sfd_address s = fst w \<and> write_trace s = sd_backtrace (snd w) \<and> persisted s \<and> was_flushed s \<and>
        trace_is (bt_heap g') (fence_trace s) (ctxt # rev (stack (get_thread_data g tid))) \<and>
        sfd_clock_i s = current_clock_i (get_thread_data g tid) \<and>
        members (lockset_at (ls_heap g') (common_set s)) =
          common_locks (current_timedlockset (get_thread_data g tid)) (timedlockset_at (tls_heap g') (timed_lockset (snd w))))
      (filter (\<lambda>w. decides (use_init_removal_heuristic_n g) hist tid (fst w))
        (mem_entries (flushed_mem_state (get_thread_data g tid)))) new"
proof (rule ProcessFence_spec [OF assms(1) ready [OF assms(1,2)] assms(3), of ctxt 0 0])
  fix g' new
  assume g': "ProcessFence tid False ctxt 0 0 g = Inr g'" "keeps tid g g'"
    "flushed_mem_state (get_thread_data g' tid) = []"
    "mem_state (get_thread_data g' tid) = mem_state (get_thread_data g tid)"
    "race_likely_stores (get_thread_data g' tid) = race_likely_stores (get_thread_data g tid) @ new"
    and new: "list_all2 (\<lambda>w s. store_record g' tid (current_timedlockset (get_thread_data g tid)) w True True s \<and>
        trace_is (bt_heap g') (fence_trace s) (call_trace g tid ctxt))
      (filter (\<lambda>w. decides (use_init_removal_heuristic_n g) hist tid (fst w))
        (mem_entries (flushed_mem_state (get_thread_data g tid)))) new"
  note f = keeps_facts [OF g'(2)]
  show ?thesis
  proof (intro exI [of _ g'] exI [of _ new] conjI)
    show "list_all2 (\<lambda>w s. sfd_address s = fst w \<and> write_trace s = sd_backtrace (snd w) \<and> persisted s \<and> was_flushed s \<and>
        trace_is (bt_heap g') (fence_trace s) (ctxt # rev (stack (get_thread_data g tid))) \<and>
        sfd_clock_i s = current_clock_i (get_thread_data g tid) \<and>
        members (lockset_at (ls_heap g') (common_set s)) =
          common_locks (current_timedlockset (get_thread_data g tid)) (timedlockset_at (tls_heap g') (timed_lockset (snd w))))
      (filter (\<lambda>w. decides (use_init_removal_heuristic_n g) hist tid (fst w))
        (mem_entries (flushed_mem_state (get_thread_data g tid)))) new"
      using new by (rule list_all2_mono) (simp add: store_record_def f(5) call_trace_def)
  qed (use g' f in \<open>simp_all add: TraceFence_def keeps_def mem_frame_def\<close>)
qed

theorem fence_records_flushed_writes_witness:
  "\<exists>g g' new. hawk_run demo_config demo_pending (init_hawk 0 50 True) = Inr g \<and>
     hawk_step demo_config (EvFence 0 0x1010) g = Inr g' \<and>
     race_likely_stores (get_thread_data g' 0) = race_likely_stores (get_thread_data g 0) @ new \<and>
     map sfd_address new = [0x10000, 0x10001]"
proof -
  obtain g where g: "hawk_run demo_config demo_pending (init_hawk 0 50 True) = Inr g" "hawk_inv g" "started g 0"
    "irh_ready (use_init_removal_heuristic_n g) [] 0 (irh g)" "use_init_removal_heuristic_n g = 0"
    "map fst (mem_entries (flushed_mem_state (get_thread_data g 0))) = [0x10000, 0x10001]"
    by (rule demo_state)
  from fence_records_flushed_writes [OF g(2-4), of demo_config "0x1010"] obtain g' new where
    g': "hawk_step demo_config (EvFence 0 0x1010) g = Inr g'"
      "race_likely_stores (get_thread_data g' 0) = race_likely_stores (get_thread_data g 0) @ new"
    and new: "list_all2 (\<lambda>w s. sfd_address s = fst w) (mem_entries (flushed_mem_state (get_thread_data g 0))) new"
    by (elim exE conjE) (rule that, assumption, assumption, simp add: g(5) decides_def list_all2_conv_all_nth)
  from new have "map sfd_address new = map fst (mem_entries (flushed_mem_state (get_thread_data g 0)))"
    by (induction rule: list_all2_induct) simp_all
  with g(1,6) g' show ?thesis by auto
qed

text \<open>
  C21. A load of persistent memory is recorded exactly when the heuristic lets it through: under
  the key of its address, call trace, current clock index and the mask of its bytes, the
  interned lockset of the locks the thread holds is added; otherwise the recorded loads stay
  as they are.
\<close>
theorem load_recorded_with_locks:
  assumes "hawk_inv g" "started g tid" "irh_ready (use_init_removal_heuristic_n g) hist tid (irh g)"
    and "0 < sz" "sz \<le> 64" "IsPMAddress a sz (pm g)"
  shows "\<exists>g'. hawk_step c (EvRead tid ctxt a sz a2) g = Inr g' \<and> hawk_inv g' \<and>
    (if decides (use_init_removal_heuristic_n g) hist tid a
     then \<exists>key p. key_address key = a \<and> (\<forall>i. bit (key_mask key) i \<longleftrightarrow> i < unat sz) \<and>
         trace_is (bt_heap g') (key_backtrace key) (ctxt # rev (stack (get_thread_data g tid))) \<and>
         key_clock_i key = current_clock_i (get_thread_data g tid) \<and>
         members (lockset_at (ls_heap g') p) = held (current_timedlockset (get_thread_data g tid)) \<and>
         race_likely_loads (get_thread_data g' tid) =
           um_modify key [] (os_insert p) (race_likely_loads (get_thread_data g tid))
     else race_likely_loads (get_thread_data g' tid) = race_likely_loads (get_thread_data g tid))"
proof -
  have st: "hawk_step c (EvRead tid ctxt a sz a2) g = ProcessRead tid a sz ctxt g"
    using assms(6) by (simp add: TraceRead_def)
  from ProcessRead_spec [OF assms(1) ready [OF assms(1,2)] assms(3-5), of a ctxt] obtain g' where
    g': "ProcessRead tid a sz ctxt g = Inr g'" "keeps tid g g'"
    and d: "if decides (use_init_removal_heuristic_n g) hist tid a
     then \<exists>key p. key_address key = a \<and> trace_is (bt_heap g') (key_backtrace key) (call_trace g tid ctxt) \<and>
         key_clock_i key = current_clock_i (get_thread_data g tid) \<and> (\<forall>i. bit (key_mask key) i \<longleftrightarrow> i < unat sz) \<and>
         ls_valid (ls_heap g') p \<and> members (lockset_at (ls_heap g') p) = held (current_timedlockset (get_thread_data g tid)) \<and>
         race_likely_loads (get_thread_data g' tid) = um_modify key [] (os_insert p) (race_likely_loads (get_thread_data g tid))
     else race_likely_loads (get_thread_data g' tid) = race_likely_loads (get_thread_data g tid)" by blast
  show ?thesis
    unfolding st using g' d by (intro exI [of _ g']) (auto simp: keeps_def call_trace_def split: if_splits)
qed

theorem load_recorded_with_locks_witness:
  "\<exists>g g' key. hawk_run demo_config demo_pending (init_hawk 0 50 True) = Inr g \<and>
     hawk_step demo_config (EvRead 0 0x2000 0x10000 2 0) g = Inr g' \<and>
     key \<in> fst ` set (race_likely_loads (get_thread_data g' 0)) \<and> key_address key = 0x10000"
proof -
  obtain g where g: "hawk_run demo_config demo_pending (init_hawk 0 50 True) = Inr g" "hawk_inv g" "started g 0"
    "irh_ready (use_init_removal_heuristic_n g) [] 0 (irh g)" "use_init_removal_heuristic_n g = 0" "IsPMAddress 0x10000 2 (pm g)"
    by (rule demo_state)
  have d: "decides (use_init_removal_heuristic_n g) [] 0 0x10000" by (simp add: g(5) decides_def)
  from load_recorded_with_locks [OF g(2-4) _ _ g(6), of demo_config "0x2000" 0] d obtain g' key p where
    g': "hawk_step demo_config (EvRead 0 0x2000 0x10000 2 0) g = Inr g'" "key_address key = 0x10000"
      "race_likely_loads (get_thread_data g' 0) = um_modify key [] (os_insert p) (race_likely_loads (get_thread_data g 0))"
    by (simp del: hawk_step.simps) blast
  have "map_of (race_likely_loads (get_thread_data g' 0)) key \<noteq> None" by (simp add: g'(3))
  then have "key \<in> fst ` set (race_likely_loads (get_thread_data g' 0))" by (simp add: map_of_eq_None_iff)
  with g(1) g'(1,2) show ?thesis by (intro exI conjI)
qed

text \<open>
  C22. The end of a thread. With the option for unpersisted writes every pending write of the
  thread, dirty or flushed, that the heuristic lets through is recorded as unpersisted, without
  an ignoring trace, with the locks held at the write and still held; then the thread's own
  clock component is advanced and the clock is published for joiners; the maps of pending
  writes and the other threads are not changed.
\<close>
theorem thread_exit_records_pending:
  assumes "hawk_inv g" "started g tid" "irh_ready (use_init_removal_heuristic_n g) hist tid (irh g)"
  shows "\<exists>g' new. hawk_step c (EvThreadExit tid) g = Inr g' \<and> hawk_inv g' \<and>
    vector_clocks (get_thread_data g' tid) =
      vector_clocks (get_thread_data g tid) @ [vc_tick tid (last (vector_clocks (get_thread_data g tid)))] \<and>
    map_of (exit_threads_clock g') tid = Some (vc_tick tid (last (vector_clocks (get_thread_data g tid)))) \<and>
    race_likely_stores (get_thread_data g' tid) = race_likely_stores (get_thread_data g tid) @ new \<and>
    list_all2 (\<lambda>(w, fl) s. sfd_address s = fst w \<and> write_trace s = sd_backtrace (snd w) \<and> fence_trace s = None \<and>
        sfd_clock_i s = current_clock_i (get_thread_data g tid) \<and> \<not> persisted s \<and> was_flushed s = fl \<and>
        members (lockset_at (ls_heap g') (common_set s)) =
          common_locks (current_timedlockset (get_thread_data g tid)) (timedlockset_at (tls_heap g') (timed_lockset (snd w))))
      (filter (\<lambda>(w, fl). decides (use_init_removal_heuristic_n g) hist tid (fst w))
        (if check_unpersisted_stores g
         then map (\<lambda>w. (w, False)) (mem_entries (mem_state (get_thread_data g tid))) @
              map (\<lambda>w. (w, True)) (mem_entries (flushed_mem_state (get_thread_data g tid))) else [])) new \<and>
    mem_state (get_thread_data g' tid) = mem_state (get_thread_data g tid) \<and>
    flushed_mem_state (get_thread_data g' tid) = flushed_mem_state (get_thread_data g tid) \<and>
    (\<forall>t. t \<noteq> tid \<longrightarrow> get_thread_data g' t = get_thread_data g t)"
  using ProcessThreadExit_spec [OF assms(1) ready [OF assms(1,2)] assms(3)]
  by (simp only: hawk_step.simps TraceThreadExit_def pending_def)

theorem thread_exit_records_pending_witness:
  "\<exists>g g' s. hawk_run demo_config demo_pending (init_hawk 0 50 True) = Inr g \<and>
     hawk_step demo_config (EvThreadExit 0) g = Inr g' \<and> s \<in> set (race_likely_stores (get_thread_data g' 0)) \<and>
     sfd_address s = 0x10000 \<and> \<not> persisted s"
proof -
  obtain g where g: "hawk_run demo_config demo_pending (init_hawk 0 50 True) = Inr g" "hawk_inv g" "started g 0"
    "irh_ready (use_init_removal_heuristic_n g) [] 0 (irh g)" "use_init_removal_heuristic_n g = 0" "check_unpersisted_stores g"
    and fst: "map fst (mem_entries (flushed_mem_state (get_thread_data g 0))) = [0x10000, 0x10001]"
    by (rule demo_state)
  from fst obtain d where d: "(0x10000, d) \<in> set (mem_entries (flushed_mem_state (get_thread_data g 0)))" by auto
  from thread_exit_records_pending [OF g(2-4), of demo_config] obtain g' new where
    g': "hawk_step demo_config (EvThreadExit 0) g = Inr g'"
      "race_likely_stores (get_thread_data g' 0) = race_likely_stores (get_thread_data g 0) @ new"
    and new: "list_all2 (\<lambda>(w, fl) s. sfd_address s = fst w \<and> \<not> persisted s)
      (map (\<lambda>w. (w, False)) (mem_entries (mem_state (get_thread_data g 0))) @
       map (\<lambda>w. (w, True)) (mem_entries (flushed_mem_state (get_thread_data g 0)))) new"
    by (elim exE conjE) (rule that, assumption, assumption,
      simp add: g(5,6) decides_def case_prod_beta' list_all2_conv_all_nth)
  from list_all2_set1 [OF new, of "((0x10000, d), True)"] d obtain s where
    "s \<in> set new" "sfd_address s = 0x10000" "\<not> persisted s" by auto
  with g(1) g' show ?thesis by (intro exI [of _ g] exI [of _ g'] exI [of _ s]) simp
qed


section \<open>Counters\<close>

text \<open>
  C39. The counters \<^verbatim>\<open>Fini\<close> prints: after a run in which every thread ends at most once, with its
  last callback, each line of the text carries the number, modulo 2^64, of the callbacks of its kind
  among those of the threads that have ended. The kinds (\<open>printed_lines\<close>) are stated on the callbacks and on what
  the tool knows of persistent memory at the time, not through the counters: the writes to persistent memory that are not non-temporal,
  those that are, the loads with an operand in persistent memory, all loads, all writes, the flushes
  of persistent memory, the fences, the atomic updates, the locks (successful try-locks of every type among them),
  unlocks, read locks, write locks and read-write unlocks.
\<close>
theorem counters_count_callbacks:
  assumes "hawk_run c es g = Inr g'" "exits_last es"
  shows "instruction_count_text (totals (count_run (run_trace c es g) init_logger)) =
    ''-- # of Instructions and Sync Primitives -- '' @ endl @
    concat (map (\<lambda>(label, kind). label @ nat_text (length (callbacks_of_ended kind (run_trace c es g)) mod 2 ^ 64) @ endl)
      printed_lines) @ endl"
  by (rule instruction_count_text_lines) (simp add: map_fst_run_trace [OF assms(1)] assms(2))

theorem counters_count_callbacks_witness:
  "instruction_count_text (totals (count_run (run_trace demo_config
      [EvThreadStart 0, EvRMW 0 0x1000 0x5000 8, EvFence 0 0x1010, EvFence 0 0x1020, EvThreadStart 1, EvFence 1 0x1030, EvThreadExit 0]
      (init_hawk 0 50 False)) init_logger)) =
    ''-- # of Instructions and Sync Primitives -- '' @ endl @ ''    pm stores:    0'' @ endl @ ''    pm nt stores: 0'' @ endl @
    ''    pm loads:     0'' @ endl @ ''    loads:        0'' @ endl @ ''    stores:       0'' @ endl @ ''    flushes:      0'' @ endl @
    ''    fences:       2'' @ endl @ ''    rmw:          1'' @ endl @ ''    lock:         0'' @ endl @ ''    unlocks:      0'' @ endl @
    ''    read lock:    0'' @ endl @ ''    write lock:   0'' @ endl @ ''    rd/wr unlock: 0'' @ endl @ endl"
proof -
  let ?es = "[EvThreadStart 0, EvRMW 0 0x1000 0x5000 8, EvFence 0 0x1010, EvFence 0 0x1020, EvThreadStart 1, EvFence 1 0x1030, EvThreadExit 0]"
  have "\<exists>g. hawk_run demo_config ?es (init_hawk 0 50 False) = Inr g" by (simp add: hawk_eval TraceRMW_def)
  then obtain g where run: "hawk_run demo_config ?es (init_hawk 0 50 False) = Inr g" by blast
  have "map fst (run_trace demo_config ?es (init_hawk 0 50 False)) = ?es" by (rule map_fst_run_trace [OF run])
  have last: "exits_last ?es" by simp
  show ?thesis unfolding counters_count_callbacks [OF run last]
    by (simp add: hawk_eval TraceRMW_def callbacks_of_ended_def printed_lines_def nat_text.simps digit_char_def char_of_def bit_Suc_0_iff)
qed

text \<open>
  C40. The number of vector clocks \<^verbatim>\<open>Fini\<close> prints. After a run it is the number of callbacks of
  thread creation, start, successful join and end (as a 64-bit word), whatever the threads did
  in between: every such callback adds one clock, and no clock is dropped.
\<close>
theorem printed_clocks:
  assumes "hawk_run c es (init_hawk n d u) = Inr g"
  shows "vcs_n (Fini_sums l g) = of_nat (length (clock_callbacks (run_trace c es (init_hawk n d u))))"
proof -
  from run_all_clocks [OF assms reachable_init clocks_match_init] obtain s where
    m: "clocks_match g s" and all: "all_clocks g = all_clocks (init_hawk n d u) + length (clock_callbacks (run_trace c es (init_hawk n d u)))"
    by blast
  have "(\<Sum>i<TLS_MAX_SIZE. if used (get_thread_data g i) then length (vector_clocks (get_thread_data g i)) else 0) = all_clocks g"
    unfolding all_clocks_def by (rule sum.cong) (use m in \<open>auto simp: clocks_match_def\<close>)
  moreover have "all_clocks (init_hawk n d u) = 0"
    by (simp add: all_clocks_def init_hawk_def new_ThreadData_def)
  ultimately show ?thesis using all by (simp add: Fini_sums_counts)
qed

theorem printed_clocks_witness:
  "\<exists>g. hawk_run demo_config demo_events (init_hawk 0 50 False) = Inr g \<and>
     (\<forall>l. vcs_n (Fini_sums l g) =
        of_nat (length (clock_callbacks (run_trace demo_config demo_events (init_hawk 0 50 False)))))"
proof -
  obtain g where g: "hawk_run demo_config demo_events (init_hawk 0 50 False) = Inr g" using demo_run by blast
  with printed_clocks [OF g] show ?thesis by blast
qed

end
